(* ===== verification/Prelude.thy ===== *)
theory Prelude
  imports Main
begin

text \<open>
  Shared vocabulary of the development.

  \<^item> The arithmetic of the JavaScript source: millisecond clocks and counters are safe integers
    and are modelled as \<open>int\<close>; \<open>Math.ceil(a / b)\<close>, \<open>Math.max(...xs)\<close>.
  \<^item> The SQL statements the source issues, over a table modelled as the list of its rows in
    insertion order: \<open>UPDATE .. WHERE\<close>, \<open>DELETE .. WHERE\<close>, the changes count.
  \<^item> Runs of a machine over a list of events, and the reachable states of a step relation.
  \<^item> The interfaces (locales) the components share: a machine with an invariant, a transition
    system with an invariant, a table of single-use credentials, a bounded backoff schedule.
\<close>

named_theorems table_simps "how the SQL statements act on the rows of a table"

section \<open>JavaScript arithmetic\<close>

definition ceil_div :: "int \<Rightarrow> int \<Rightarrow> int" where
  "ceil_div a b = - ((- a) div b)"

lemma ceil_div_ge: "0 < b \<Longrightarrow> a \<le> ceil_div a b * b"
proof -
  assume b: "0 < b"
  have "(- a) div b * b + (- a) mod b = - a" by simp
  moreover have "0 \<le> (- a) mod b" using b by simp
  ultimately have "(- a) div b * b \<le> - a" by linarith
  then show ?thesis by (simp add: ceil_div_def)
qed

lemma ceil_div_less: "0 < b \<Longrightarrow> (ceil_div a b - 1) * b < a"
proof -
  assume b: "0 < b"
  have "(- a) div b * b + (- a) mod b = - a" by simp
  moreover have "(- a) mod b < b" using b by simp
  ultimately have "- a < (- a) div b * b + b" by linarith
  then show ?thesis by (simp add: ceil_div_def algebra_simps)
qed

fun js_max :: "int list \<Rightarrow> int" where
  "js_max [] = 0"
| "js_max [x] = x"
| "js_max (x # y # ys) = max x (js_max (y # ys))"

lemma js_max_ge: "x \<in> set xs \<Longrightarrow> x \<le> js_max xs"
  by (induction xs rule: js_max.induct) auto

lemma js_max_in: "xs \<noteq> [] \<Longrightarrow> js_max xs \<in> set xs"
  by (induction xs rule: js_max.induct) (auto simp: max_def)

text \<open>\<open>String(n)\<close> of an integer.\<close>

fun string_of_nat :: "nat \<Rightarrow> string" where
  "string_of_nat n = (if n < 10 then [char_of (48 + n)]
     else string_of_nat (n div 10) @ [char_of (48 + n mod 10)])"

declare string_of_nat.simps [simp del]

definition string_of_int :: "int \<Rightarrow> string" where
  "string_of_int i = (if i < 0 then ''-'' @ string_of_nat (nat (- i)) else string_of_nat (nat i))"

lemma string_of_nat_inj: "string_of_nat m = string_of_nat n \<Longrightarrow> m = n"
proof -
  define val where "val = foldl (\<lambda>a c. 10 * a + ((of_char c :: nat) - 48)) 0"
  have "val (string_of_nat k) = k" for k
  proof (induction k rule: string_of_nat.induct)
    case (1 n)
    show ?case
    proof (cases "n < 10")
      case False
      then have "val (string_of_nat (n div 10)) = n div 10" by (rule 1)
      then show ?thesis using False by (subst string_of_nat.simps) (simp add: val_def)
    qed (subst string_of_nat.simps, simp add: val_def)
  qed
  then show "string_of_nat m = string_of_nat n \<Longrightarrow> m = n" by metis
qed

text \<open>\<open>String.prototype.trim\<close>, of ASCII text.\<close>

definition js_space :: "char \<Rightarrow> bool" where
  "js_space c \<longleftrightarrow> c \<in> {CHR '' '', CHR 0x09, CHR 0x0A, CHR 0x0B, CHR 0x0C, CHR 0x0D}"

definition js_trim :: "string \<Rightarrow> string" where
  "js_trim s = rev (dropWhile js_space (rev (dropWhile js_space s)))"

text \<open>\<open>toLowerCase\<close> of ASCII text, \<open>startsWith\<close>, and \<open>split\<close> at a one-character separator.\<close>

definition to_lower :: "char \<Rightarrow> char" where
  "to_lower c = (if 65 \<le> (of_char c :: nat) \<and> (of_char c :: nat) \<le> 90
     then char_of ((of_char c :: nat) + 32) else c)"

definition starts_with :: "string \<Rightarrow> string \<Rightarrow> bool" where
  "starts_with p s \<longleftrightarrow> take (length p) s = p"

fun split_at_char :: "char \<Rightarrow> string \<Rightarrow> string list" where
  "split_at_char c [] = [[]]"
| "split_at_char c (x # xs) = (if x = c then [] # split_at_char c xs
     else (case split_at_char c xs of [] \<Rightarrow> [[x]] | p # ps \<Rightarrow> (x # p) # ps))"

lemma split_at_char_none: "c \<notin> set s \<Longrightarrow> split_at_char c s = [s]"
  by (induction s) auto

lemma split_at_char_append: "c \<notin> set s \<Longrightarrow> split_at_char c (s @ c # t) = s # split_at_char c t"
  by (induction s) auto

fun join_with :: "char \<Rightarrow> string list \<Rightarrow> string" where
  "join_with c [] = []"
| "join_with c [p] = p"
| "join_with c (p # q # ps) = p @ c # join_with c (q # ps)"

lemma split_at_char_ne: "split_at_char c s \<noteq> []"
  by (induction s) (auto split: list.splits)

lemma join_split: "join_with c (split_at_char c s) = s"
proof (induction s)
  case (Cons x s)
  then show ?case using split_at_char_ne [of c s]
    by (cases "split_at_char c s" rule: join_with.cases [of "(c, _)"]) (auto split: list.splits)
qed simp

lemma split_at_char_join: "split_at_char c s = ps \<Longrightarrow> s = join_with c ps"
  using join_split [of c s] by simp

lemma split_at_char_set: "p \<in> set (split_at_char c s) \<Longrightarrow> set p \<subseteq> set s - {c}"
  by (induction s arbitrary: p) (fastforce split: if_splits list.splits)+

section \<open>Codes a person types, secrets\<close>

text \<open>\<open>code.toUpperCase().replace(/[^A-Z0-9]/g, "")\<close>, of ASCII text.\<close>

definition to_upper :: "char \<Rightarrow> char" where
  "to_upper c = (if 97 \<le> (of_char c :: nat) \<and> (of_char c :: nat) \<le> 122
     then char_of ((of_char c :: nat) - 32) else c)"

definition alnum_upper :: "char \<Rightarrow> bool" where
  "alnum_upper c \<longleftrightarrow> (65 \<le> (of_char c :: nat) \<and> (of_char c :: nat) \<le> 90)
     \<or> (48 \<le> (of_char c :: nat) \<and> (of_char c :: nat) \<le> 57)"

definition normalize_code :: "string \<Rightarrow> string" where
  "normalize_code c = filter alnum_upper (map to_upper c)"

text \<open>The one comparator for secrets (\<open>lib/server/utils/timing-safe.js\<close>): only non-empty strings
  match. The source compares digests of both sides, which is identified with equality here.\<close>

definition timingSafeStringEqual :: "string \<Rightarrow> string \<Rightarrow> bool" where
  "timingSafeStringEqual presented expected \<longleftrightarrow>
     presented \<noteq> [] \<and> expected \<noteq> [] \<and> presented = expected"

section \<open>Tables\<close>

definition sql_update :: "('r \<Rightarrow> bool) \<Rightarrow> ('r \<Rightarrow> 'r) \<Rightarrow> 'r list \<Rightarrow> 'r list" where
  "sql_update p f rows = map (\<lambda>r. if p r then f r else r) rows"

definition sql_delete :: "('r \<Rightarrow> bool) \<Rightarrow> 'r list \<Rightarrow> 'r list" where
  "sql_delete p rows = filter (\<lambda>r. \<not> p r) rows"

definition sql_count :: "('r \<Rightarrow> bool) \<Rightarrow> 'r list \<Rightarrow> nat" where
  "sql_count p rows = length (filter p rows)"

lemma length_sql_update [simp]: "length (sql_update p f rows) = length rows"
  by (simp add: sql_update_def)

lemma sql_update_Nil [simp]: "sql_update p f [] = []"
  by (simp add: sql_update_def)

lemma sql_update_Cons [simp]:
  "sql_update p f (r # rows) = (if p r then f r else r) # sql_update p f rows"
  by (simp add: sql_update_def)

lemma sql_delete_Nil [simp]: "sql_delete p [] = []"
  by (simp add: sql_delete_def)

lemma sql_delete_Cons [simp]:
  "sql_delete p (r # rows) = (if p r then sql_delete p rows else r # sql_delete p rows)"
  by (simp add: sql_delete_def)

lemma set_sql_update [table_simps]:
  "r \<in> set (sql_update p f rows) \<longleftrightarrow>
     (r \<in> set rows \<and> \<not> p r) \<or> (\<exists>q \<in> set rows. p q \<and> r = f q)"
  by (auto simp: sql_update_def)

lemma set_sql_delete [table_simps]: "r \<in> set (sql_delete p rows) \<longleftrightarrow> r \<in> set rows \<and> \<not> p r"
  by (auto simp: sql_delete_def)

lemma bex_sql_update [table_simps]:
  "(\<exists>r \<in> set (sql_update p f rows). P r) \<longleftrightarrow> (\<exists>r \<in> set rows. P (if p r then f r else r))"
  by (auto simp: sql_update_def)

lemma ball_sql_update [table_simps]:
  "(\<forall>r \<in> set (sql_update p f rows). P r) \<longleftrightarrow> (\<forall>r \<in> set rows. P (if p r then f r else r))"
  by (auto simp: sql_update_def)

lemma bex_sql_delete [table_simps]:
  "(\<exists>r \<in> set (sql_delete p rows). P r) \<longleftrightarrow> (\<exists>r \<in> set rows. \<not> p r \<and> P r)"
  by (auto simp: sql_delete_def)

lemma ball_sql_delete [table_simps]:
  "(\<forall>r \<in> set (sql_delete p rows). P r) \<longleftrightarrow> (\<forall>r \<in> set rows. \<not> p r \<longrightarrow> P r)"
  by (auto simp: sql_delete_def)

lemma sql_update_none: "\<forall>r \<in> set rows. \<not> p r \<Longrightarrow> sql_update p f rows = rows"
  by (simp add: sql_update_def map_idI)

lemma map_sql_update_key: "(\<And>r. p r \<Longrightarrow> key (f r) = key r) \<Longrightarrow>
    map key (sql_update p f rows) = map key rows"
  by (simp add: sql_update_def)

lemma distinct_key_sql_delete: "distinct (map key rows) \<Longrightarrow> distinct (map key (sql_delete p rows))"
  by (simp add: sql_delete_def distinct_map_filter)

lemma sql_count_eq_0: "sql_count p rows = 0 \<longleftrightarrow> (\<forall>r \<in> set rows. \<not> p r)"
  by (simp add: sql_count_def filter_empty_conv)

lemma sql_count_Nil [simp]: "sql_count p [] = 0"
  by (simp add: sql_count_def)

lemma sql_count_Cons [simp]: "sql_count p (r # rows) = of_bool (p r) + sql_count p rows"
  by (simp add: sql_count_def)

lemma sql_count_append [simp]: "sql_count p (xs @ ys) = sql_count p xs + sql_count p ys"
  by (simp add: sql_count_def)

lemma sql_count_pos: "r \<in> set rows \<Longrightarrow> p r \<Longrightarrow> 0 < sql_count p rows"
  by (metis gr0I sql_count_eq_0)

text \<open>A statement that reaches at most one row (by its key) takes at most one row out of a count.\<close>

lemma sql_count_update_key:
  "distinct (map key rows) \<Longrightarrow>
     sql_count p rows \<le> sql_count p (sql_update (\<lambda>r. key r = k) f rows) + 1"
proof (induction rows)
  case (Cons r rows)
  show ?case
  proof (cases "key r = k")
    case True
    then have "\<forall>q \<in> set rows. key q \<noteq> k" using Cons.prems by (auto simp: image_iff)
    then show ?thesis by (simp add: sql_update_none True)
  qed (use Cons in simp)
qed simp

lemma sql_count_delete_key:
  "distinct (map key rows) \<Longrightarrow> sql_count p rows \<le> sql_count p (sql_delete (\<lambda>r. key r = k) rows) + 1"
proof (induction rows)
  case (Cons r rows)
  show ?case
  proof (cases "key r = k")
    case True
    then have "\<forall>q \<in> set rows. key q \<noteq> k" using Cons.prems by (auto simp: image_iff)
    then have "sql_delete (\<lambda>r. key r = k) rows = rows" by (simp add: sql_delete_def)
    then show ?thesis by (simp add: True)
  qed (use Cons in simp)
qed simp

lemma sql_count_update_same:
  "(\<And>r. r \<in> set rows \<Longrightarrow> q r \<Longrightarrow> p (f r) = p r) \<Longrightarrow> sql_count p (sql_update q f rows) = sql_count p rows"
  by (induction rows) auto

lemma sql_count_update_mono: "(\<And>r. r \<in> set rows \<Longrightarrow> p r \<Longrightarrow> p (if q r then f r else r)) \<Longrightarrow>
    sql_count p rows \<le> sql_count p (sql_update q f rows)"
proof (induction rows)
  case (Cons r rows)
  then have "sql_count p rows \<le> sql_count p (sql_update q f rows)" by simp
  moreover have "p r \<Longrightarrow> p (if q r then f r else r)" using Cons.prems by simp
  ultimately show ?case by (auto simp: of_bool_def)
qed simp

lemma distinct_all_eq: "distinct xs \<Longrightarrow> (\<And>x y. x \<in> set xs \<Longrightarrow> y \<in> set xs \<Longrightarrow> x = y) \<Longrightarrow> length xs \<le> 1"
  using card_le_Suc0_iff_eq [of "set xs"] by (auto simp flip: distinct_card)

lemma find_Some_set: "find p xs = Some x \<Longrightarrow> x \<in> set xs \<and> p x"
  by (auto simp: find_Some_iff)

lemma find_snoc: "\<forall>y \<in> set xs. \<not> p y \<Longrightarrow> p x \<Longrightarrow> find p (xs @ [x]) = Some x"
  by (induction xs) auto

section \<open>Runs and reachable states\<close>

fun run :: "('s \<Rightarrow> 'e \<Rightarrow> 's) \<Rightarrow> 's \<Rightarrow> 'e list \<Rightarrow> 's" where
  "run step s [] = s"
| "run step s (e # es) = run step (step s e) es"

lemma run_append: "run step s (xs @ ys) = run step (run step s xs) ys"
  by (induction xs arbitrary: s) auto

text \<open>A machine with an invariant: what its operations keep, its runs keep.\<close>

locale machine =
  fixes step :: "'s \<Rightarrow> 'e \<Rightarrow> 's"
    and inv :: "'s \<Rightarrow> bool"
    and allowed :: "'e \<Rightarrow> bool"
  assumes step_inv: "inv s \<Longrightarrow> allowed e \<Longrightarrow> inv (step s e)"
begin

lemma run_inv: "inv s \<Longrightarrow> list_all allowed es \<Longrightarrow> inv (run step s es)"
  by (induction es arbitrary: s) (auto intro: step_inv)

end

inductive reachable :: "('s \<Rightarrow> bool) \<Rightarrow> ('s \<Rightarrow> 's \<Rightarrow> bool) \<Rightarrow> 's \<Rightarrow> bool"
  for init :: "'s \<Rightarrow> bool" and step :: "'s \<Rightarrow> 's \<Rightarrow> bool" where
  reach_init: "init s \<Longrightarrow> reachable init step s"
| reach_step: "reachable init step s \<Longrightarrow> step s t \<Longrightarrow> reachable init step t"

text \<open>A transition system with an invariant: it holds in every reachable state.\<close>

locale transition_system =
  fixes init :: "'s \<Rightarrow> bool"
    and step :: "'s \<Rightarrow> 's \<Rightarrow> bool"
    and inv :: "'s \<Rightarrow> bool"
  assumes init_inv: "init s \<Longrightarrow> inv s"
    and step_inv: "step s t \<Longrightarrow> inv s \<Longrightarrow> inv t"
begin

lemma reachable_inv: "reachable init step s \<Longrightarrow> inv s"
  by (induction rule: reachable.induct) (auto intro: init_inv step_inv)

end

text \<open>A machine that refines an abstract one: a projection that commutes with every enabled step
  under an invariant, and so with whole runs. The abstract step may look at the concrete state for
  the names it allocates.\<close>

locale refinement = machine step inv allowed
  for step :: "'s \<Rightarrow> 'e \<Rightarrow> 's" and inv :: "'s \<Rightarrow> bool" and allowed :: "'e \<Rightarrow> bool" +
  fixes abs :: "'s \<Rightarrow> 'a" and spec :: "'a \<Rightarrow> 'e \<Rightarrow> 'a"
  assumes simulates: "inv s \<Longrightarrow> allowed e \<Longrightarrow> abs (step s e) = spec (abs s) e"
begin

lemma run_simulates: "inv s \<Longrightarrow> list_all allowed es \<Longrightarrow> abs (run step s es) = run spec (abs s) es"
  by (induction es arbitrary: s) (auto simp: simulates step_inv)

end

section \<open>Single-use credentials\<close>

text \<open>
  Several components hand out credentials that must work once: confirmation codes, invites,
  authorization codes, rotating refresh tokens. Each is a store whose operations may redeem a
  key and may mint keys. The law bounds what one operation does: redeeming a key costs its
  liveness, and a key becomes live only where it is minted. The client's theorem is about any
  run: a key is redeemed at most once per time it is minted.
\<close>

fun redeemed :: "('s \<Rightarrow> 'o \<Rightarrow> 's \<times> 'k option) \<Rightarrow> 's \<Rightarrow> 'o list \<Rightarrow> 'k list" where
  "redeemed act s [] = []"
| "redeemed act s (a # as) =
     (case act s a of (t, r) \<Rightarrow> (case r of None \<Rightarrow> [] | Some k \<Rightarrow> [k]) @ redeemed act t as)"

fun final_state :: "('s \<Rightarrow> 'o \<Rightarrow> 's \<times> 'k option) \<Rightarrow> 's \<Rightarrow> 'o list \<Rightarrow> 's" where
  "final_state act s [] = s"
| "final_state act s (a # as) = final_state act (fst (act s a)) as"

locale single_use =
  fixes act :: "'s \<Rightarrow> 'o \<Rightarrow> 's \<times> 'k option"
    and live :: "'s \<Rightarrow> 'k \<Rightarrow> bool"
    and mints :: "'o \<Rightarrow> 'k list"
    and wf :: "'s \<Rightarrow> bool"
  assumes redeem_cost: "wf s \<Longrightarrow> act s a = (t, r) \<Longrightarrow>
      of_bool (r = Some k) + of_bool (live t k) \<le> (of_bool (live s k) + count_list (mints a) k :: nat)"
    and wf_act: "wf s \<Longrightarrow> act s a = (t, r) \<Longrightarrow> wf t"
begin

lemma redeemed_count:
  "wf s \<Longrightarrow> count_list (redeemed act s as) k + of_bool (live (final_state act s as) k)
     \<le> (of_bool (live s k) + count_list (concat (map mints as)) k :: nat)"
proof (induction as arbitrary: s)
  case Nil
  then show ?case by simp
next
  case (Cons a as)
  obtain t r where act: "act s a = (t, r)" by (cases "act s a")
  from Cons.prems act have cost: "of_bool (r = Some k) + of_bool (live t k)
      \<le> (of_bool (live s k) + count_list (mints a) k :: nat)" by (rule redeem_cost)
  from Cons.prems act have "wf t" by (rule wf_act)
  then have IH: "count_list (redeemed act t as) k + of_bool (live (final_state act t as) k)
      \<le> (of_bool (live t k) + count_list (concat (map mints as)) k :: nat)" by (rule Cons.IH)
  have "count_list (redeemed act s (a # as)) k
      = of_bool (r = Some k) + count_list (redeemed act t as) k"
    by (auto simp: act split: option.splits)
  then show ?case using cost IH act by simp
qed

lemma redeemed_at_most_once:
  assumes "wf s" and "\<not> live s k" and "count_list (concat (map mints as)) k \<le> 1"
  shows "count_list (redeemed act s as) k \<le> 1"
  using redeemed_count [OF assms(1), of as k] assms(2,3) by simp

lemma live_redeemed_at_most_once:
  assumes "wf s" and "k \<notin> set (concat (map mints as))"
  shows "count_list (redeemed act s as) k \<le> 1"
proof -
  have "count_list (concat (map mints as)) k = 0"
    using assms(2) by (simp add: count_list_0_iff)
  then show ?thesis
    using redeemed_count [OF assms(1), of as k] by (simp add: of_bool_def split: if_splits)
qed

end

section \<open>Backoff schedules\<close>

text \<open>
  Retries all over the program wait for a delay that grows with the attempt number up to a cap.
\<close>

locale backoff =
  fixes delay :: "nat \<Rightarrow> int" and base :: int and cap :: int
  assumes delay_mono: "m \<le> n \<Longrightarrow> delay m \<le> delay n"
    and delay_lower: "base \<le> delay n"
    and delay_upper: "delay n \<le> cap"
begin

lemma total_wait_lower: "int n * base \<le> (\<Sum>i<n. delay (k + i))"
proof (induction n)
  case (Suc n)
  then show ?case using delay_lower [of "k + n"] by (simp add: algebra_simps)
qed simp

lemma total_wait_upper: "(\<Sum>i<n. delay (k + i)) \<le> int n * cap"
proof (induction n)
  case (Suc n)
  then show ?case using delay_upper [of "k + n"] by (simp add: algebra_simps)
qed simp

lemma attempts_in_window:
  "0 < base \<Longrightarrow> (\<Sum>i<n. delay (k + i)) \<le> window \<Longrightarrow> int n * base \<le> window"
  using total_wait_lower [of n k] by linarith

end

lemma sum_split: "(\<Sum>i<m + n. f i) = (\<Sum>i<m. f i) + (\<Sum>i<n. f (m + i) :: int)" for f :: "nat \<Rightarrow> int"
  by (induction n) simp_all

definition doubling :: "int \<Rightarrow> int \<Rightarrow> nat \<Rightarrow> int" where
  "doubling base cap n = min (base * 2 ^ n) cap"

lemma doubling_backoff: "0 \<le> base \<Longrightarrow> base \<le> cap \<Longrightarrow> backoff (doubling base cap) base cap"
proof unfold_locales
  fix m n :: nat
  assume "0 \<le> base" and "m \<le> n"
  then have "base * 2 ^ m \<le> base * 2 ^ n" by (intro mult_left_mono power_increasing) auto
  then show "doubling base cap m \<le> doubling base cap n"
    unfolding doubling_def by (rule min.mono) simp
next
  fix n
  assume b: "0 \<le> base" and c: "base \<le> cap"
  have "base * 1 \<le> base * 2 ^ n" by (rule mult_left_mono) (use b in auto)
  then show "base \<le> doubling base cap n" using c by (simp add: doubling_def)
qed (simp add: doubling_def)

end
