(* ===== verification/Login_Throttle.thy ===== *)
theory Login_Throttle
  imports Prelude "HOL-Library.AList"
begin

text \<open>
  The login throttle (\<open>lib/server/login-throttle.js\<close>) over an injected store, and the two stores
  it runs on: the in-memory Map (\<open>createMemoryLoginThrottleStore\<close>) and the table
  \<open>login_throttle_states\<close> (\<open>lib/server/db/auth/index.js\<close>).

  A store is a record of its operations. The locale \<open>throttle_store\<close> states what the throttle
  relies on; it is interpreted on both stores. The clock is the argument \<open>now\<close> of every
  operation; \<open>Number.parseInt(String(n))\<close> is the identity on the integers the stores hold.
\<close>

section \<open>State and stores\<close>

record login_state =
  attempts :: int
  windowStart :: int
  lockUntil :: int
  failStreak :: int
  lastSeenAt :: int

definition createLoginAttemptState :: "int \<Rightarrow> login_state" where
  "createLoginAttemptState now =
     \<lparr>attempts = 0, windowStart = now, lockUntil = 0, failStreak = 0, lastSeenAt = now\<rparr>"

definition normalizeState :: "login_state \<Rightarrow> int \<Rightarrow> login_state" where
  "normalizeState st now =
     st\<lparr>windowStart := (if windowStart st = 0 then now else windowStart st),
        lastSeenAt := (if lastSeenAt st = 0 then now else lastSeenAt st)\<rparr>"

record 's store_ops =
  store_get :: "'s \<Rightarrow> string \<Rightarrow> login_state option"
  store_set :: "'s \<Rightarrow> string \<Rightarrow> login_state \<Rightarrow> 's"
  store_delete :: "'s \<Rightarrow> string \<Rightarrow> 's"
  store_entries :: "'s \<Rightarrow> (string \<times> login_state) list"

type_synonym memory_states = "(string \<times> login_state) list"

definition createMemoryLoginThrottleStore :: "memory_states store_ops" where
  "createMemoryLoginThrottleStore =
     \<lparr>store_get = map_of,
      store_set = (\<lambda>states k st. AList.update k st states),
      store_delete = (\<lambda>states k. AList.delete k states),
      store_entries = (\<lambda>states. states)\<rparr>"

record throttle_row =
  row_state_key :: string
  row_attempts :: int
  row_window_start :: int
  row_lock_until :: int
  row_fail_streak :: int
  row_last_seen_at :: int

definition toStateModel :: "throttle_row option \<Rightarrow> login_state option" where
  "toStateModel r = (case r of None \<Rightarrow> None | Some row \<Rightarrow>
     Some \<lparr>attempts = row_attempts row, windowStart = row_window_start row,
           lockUntil = row_lock_until row, failStreak = row_fail_streak row,
           lastSeenAt = row_last_seen_at row\<rparr>)"

definition throttle_row_of :: "string \<Rightarrow> login_state \<Rightarrow> throttle_row" where
  "throttle_row_of k st =
     \<lparr>row_state_key = k, row_attempts = attempts st, row_window_start = windowStart st,
      row_lock_until = lockUntil st, row_fail_streak = failStreak st,
      row_last_seen_at = lastSeenAt st\<rparr>"

definition upsert_row :: "throttle_row list \<Rightarrow> string \<Rightarrow> login_state \<Rightarrow> throttle_row list" where
  "upsert_row rows k st =
     (if 0 < sql_count (\<lambda>r. row_state_key r = k) rows
      then sql_update (\<lambda>r. row_state_key r = k) (\<lambda>r. throttle_row_of k st) rows
      else rows @ [throttle_row_of k st])"

definition createLoginThrottleStore :: "throttle_row list store_ops" where
  "createLoginThrottleStore =
     \<lparr>store_get = (\<lambda>rows k. toStateModel (find (\<lambda>r. row_state_key r = k) rows)),
      store_set = upsert_row,
      store_delete = (\<lambda>rows k. sql_delete (\<lambda>r. row_state_key r = k) rows),
      store_entries = (\<lambda>rows. map (\<lambda>r. (row_state_key r, the (toStateModel (Some r)))) rows)\<rparr>"

section \<open>Operations on one bucket\<close>

definition kLoginThrottleScope :: string where
  "kLoginThrottleScope = ''login''"

definition getClientStateKey :: "string \<Rightarrow> string \<Rightarrow> string" where
  "getClientStateKey clientKey scope =
     (let normalizedClientKey = (if clientKey = '''' then ''unknown'' else clientKey) in
      if scope = kLoginThrottleScope then ''client:'' @ normalizedClientKey
      else ''client:'' @ scope @ '':'' @ normalizedClientKey)"

definition getGlobalStateKey :: "string \<Rightarrow> string" where
  "getGlobalStateKey scope =
     (if scope = kLoginThrottleScope then ''global:login'' else ''global:'' @ scope)"

definition getOrCreateState :: "'s store_ops \<Rightarrow> 's \<Rightarrow> string \<Rightarrow> int \<Rightarrow> login_state \<times> 's" where
  "getOrCreateState ops s stateKey now =
     (case store_get ops s stateKey of
        Some existing \<Rightarrow>
          (let st = (normalizeState existing now)\<lparr>lastSeenAt := now\<rparr> in
           (st, store_set ops s stateKey st))
      | None \<Rightarrow>
          (let st = createLoginAttemptState now in (st, store_set ops s stateKey st)))"

record throttle_result =
  blocked :: bool
  retryAfterSec :: int

record failure_result =
  locked :: bool
  lockMs :: int
  failRetryAfterSec :: int

definition retry_seconds :: "int \<Rightarrow> int" where
  "retry_seconds ms = max 1 (ceil_div ms 1000)"

definition evaluateState ::
  "'s store_ops \<Rightarrow> 's \<Rightarrow> string \<Rightarrow> int \<Rightarrow> int \<Rightarrow> (login_state \<times> throttle_result) \<times> 's" where
  "evaluateState ops s stateKey now windowMs =
     (let (st, s) = getOrCreateState ops s stateKey now in
      if lockUntil st > now then
        ((st, \<lparr>blocked = True, retryAfterSec = retry_seconds (lockUntil st - now)\<rparr>), s)
      else if now - windowStart st \<ge> windowMs then
        (let st = st\<lparr>attempts := 0, windowStart := now\<rparr> in
         ((st, \<lparr>blocked = False, retryAfterSec = 0\<rparr>), store_set ops s stateKey st))
      else ((st, \<lparr>blocked = False, retryAfterSec = 0\<rparr>), s))"

record bucket_limits =
  windowMs :: int
  maxAttempts :: int
  baseLockMs :: int
  maxLockMs :: int

definition recordStateFailure ::
  "'s store_ops \<Rightarrow> 's \<Rightarrow> string \<Rightarrow> int \<Rightarrow> bucket_limits \<Rightarrow> (login_state \<times> failure_result) \<times> 's" where
  "recordStateFailure ops s stateKey now lim =
     (let (st, s) = getOrCreateState ops s stateKey now in
      if lockUntil st > now then
        ((st, \<lparr>locked = True, lockMs = lockUntil st - now,
               failRetryAfterSec = retry_seconds (lockUntil st - now)\<rparr>), s)
      else
        (let st = (if now - windowStart st \<ge> windowMs lim
                   then st\<lparr>attempts := 0, windowStart := now\<rparr> else st);
             st = st\<lparr>attempts := attempts st + 1, lastSeenAt := now\<rparr> in
         if attempts st < maxAttempts lim then
           ((st, \<lparr>locked = False, lockMs = 0, failRetryAfterSec = 0\<rparr>), store_set ops s stateKey st)
         else
           (let st = st\<lparr>failStreak := failStreak st + 1, attempts := 0, windowStart := now\<rparr>;
                lockMultiplier = max 1 (2 ^ nat (failStreak st - 1));
                lock = min (baseLockMs lim * lockMultiplier) (maxLockMs lim);
                st = st\<lparr>lockUntil := now + lock\<rparr> in
            ((st, \<lparr>locked = True, lockMs = lock, failRetryAfterSec = retry_seconds lock\<rparr>),
             store_set ops s stateKey st))))"

definition chooseThrottleResult :: "throttle_result list \<Rightarrow> throttle_result" where
  "chooseThrottleResult results =
     (let blockedResults = filter blocked results in
      if blockedResults = [] then \<lparr>blocked = False, retryAfterSec = 0\<rparr>
      else \<lparr>blocked = True, retryAfterSec = js_max (map retryAfterSec blockedResults)\<rparr>)"

definition chooseFailureResult :: "failure_result list \<Rightarrow> failure_result" where
  "chooseFailureResult results =
     (let lockedResults = filter locked results in
      if lockedResults = [] then \<lparr>locked = False, lockMs = 0, failRetryAfterSec = 0\<rparr>
      else \<lparr>locked = True, lockMs = js_max (map lockMs lockedResults),
            failRetryAfterSec = js_max (map failRetryAfterSec lockedResults)\<rparr>)"

section \<open>The throttle\<close>

record throttle_config =
  scope :: string
  clientLimits :: bucket_limits
  globalLimits :: bucket_limits
  stateTtlMs :: int

record login_bundle =
  bundleClientKey :: string
  clientStateKey :: string
  globalStateKey :: string
  bundleClient :: login_state
  bundleGlobal :: login_state

definition getOrCreateLoginAttemptState ::
  "throttle_config \<Rightarrow> 's store_ops \<Rightarrow> 's \<Rightarrow> string \<Rightarrow> int \<Rightarrow> login_bundle \<times> 's" where
  "getOrCreateLoginAttemptState cfg ops s clientKey now =
     (let ck = getClientStateKey clientKey (scope cfg);
          gk = getGlobalStateKey (scope cfg);
          (c, s) = getOrCreateState ops s ck now;
          (g, s) = getOrCreateState ops s gk now in
      (\<lparr>bundleClientKey = clientKey, clientStateKey = ck, globalStateKey = gk,
        bundleClient = c, bundleGlobal = g\<rparr>, s))"

definition evaluateGlobalThrottle ::
  "throttle_config \<Rightarrow> 's store_ops \<Rightarrow> 's \<Rightarrow> int \<Rightarrow> throttle_result \<times> 's" where
  "evaluateGlobalThrottle cfg ops s now =
     (let ((st, r), s) = evaluateState ops s (getGlobalStateKey (scope cfg)) now
                           (windowMs (globalLimits cfg)) in (r, s))"

text \<open>The keys an operation works on: those of the bundle it is given, else those of the scope.\<close>

definition bundle_keys :: "throttle_config \<Rightarrow> login_bundle option \<Rightarrow> string \<times> string" where
  "bundle_keys cfg bundle = (case bundle of
      None \<Rightarrow> (getClientStateKey '''' (scope cfg), getGlobalStateKey (scope cfg))
    | Some b \<Rightarrow>
        (if clientStateKey b \<noteq> '''' then clientStateKey b
         else getClientStateKey (bundleClientKey b) (scope cfg),
         if globalStateKey b \<noteq> '''' then globalStateKey b else getGlobalStateKey (scope cfg)))"

definition set_bundle :: "login_bundle option \<Rightarrow> login_state \<Rightarrow> login_state \<Rightarrow> login_bundle option" where
  "set_bundle bundle c g = map_option (\<lambda>b. b\<lparr>bundleClient := c, bundleGlobal := g\<rparr>) bundle"

definition evaluateLoginThrottle ::
  "throttle_config \<Rightarrow> 's store_ops \<Rightarrow> 's \<Rightarrow> login_bundle option \<Rightarrow> int
     \<Rightarrow> (throttle_result \<times> login_bundle option) \<times> 's" where
  "evaluateLoginThrottle cfg ops s bundle now =
     (let (ck, gk) = bundle_keys cfg bundle;
          ((c, cr), s) = evaluateState ops s ck now (windowMs (clientLimits cfg));
          ((g, gr), s) = evaluateState ops s gk now (windowMs (globalLimits cfg)) in
      ((chooseThrottleResult [cr, gr], set_bundle bundle c g), s))"

definition recordLoginFailure ::
  "throttle_config \<Rightarrow> 's store_ops \<Rightarrow> 's \<Rightarrow> login_bundle option \<Rightarrow> int
     \<Rightarrow> (failure_result \<times> login_bundle option) \<times> 's" where
  "recordLoginFailure cfg ops s bundle now =
     (let (ck, gk) = bundle_keys cfg bundle;
          ((c, cr), s) = recordStateFailure ops s ck now (clientLimits cfg);
          ((g, gr), s) = recordStateFailure ops s gk now (globalLimits cfg) in
      ((chooseFailureResult [cr, gr], set_bundle bundle c g), s))"

definition recordLoginSuccess :: "throttle_config \<Rightarrow> 's store_ops \<Rightarrow> 's \<Rightarrow> string \<Rightarrow> 's" where
  "recordLoginSuccess cfg ops s clientKey =
     (if clientKey = '''' then s
      else store_delete ops s (getClientStateKey clientKey (scope cfg)))"

definition stale_state :: "int \<Rightarrow> int \<Rightarrow> login_state \<Rightarrow> bool" where
  "stale_state ttl now raw =
     (let st = normalizeState raw now in
      \<not> lockUntil st > now \<and> now - lastSeenAt st > ttl)"

definition cleanupLoginAttemptStates ::
  "throttle_config \<Rightarrow> 's store_ops \<Rightarrow> 's \<Rightarrow> int \<Rightarrow> 's" where
  "cleanupLoginAttemptStates cfg ops s now =
     fold (\<lambda>(stateKey, rawState) s.
             if stale_state (stateTtlMs cfg) now rawState then store_delete ops s stateKey else s)
       (store_entries ops s) s"

section \<open>Runs of the throttle\<close>

datatype throttle_event =
    OpenBundle string int
  | CheckGlobal int
  | CheckLogin "login_bundle option" int
  | FailLogin "login_bundle option" int
  | SucceedLogin string
  | Cleanup int

datatype throttle_response =
    BundleResponse login_bundle
  | CheckResponse throttle_result "login_bundle option"
  | FailResponse failure_result "login_bundle option"
  | NoResponse

fun event_time :: "throttle_event \<Rightarrow> int option" where
  "event_time (OpenBundle c now) = Some now"
| "event_time (CheckGlobal now) = Some now"
| "event_time (CheckLogin b now) = Some now"
| "event_time (FailLogin b now) = Some now"
| "event_time (SucceedLogin c) = None"
| "event_time (Cleanup now) = Some now"

fun throttle_step ::
  "throttle_config \<Rightarrow> 's store_ops \<Rightarrow> 's \<Rightarrow> throttle_event \<Rightarrow> throttle_response \<times> 's" where
  "throttle_step cfg ops s (OpenBundle c now) =
     apfst BundleResponse (getOrCreateLoginAttemptState cfg ops s c now)"
| "throttle_step cfg ops s (CheckGlobal now) =
     apfst (\<lambda>r. CheckResponse r None) (evaluateGlobalThrottle cfg ops s now)"
| "throttle_step cfg ops s (CheckLogin b now) =
     apfst (\<lambda>(r, b). CheckResponse r b) (evaluateLoginThrottle cfg ops s b now)"
| "throttle_step cfg ops s (FailLogin b now) =
     apfst (\<lambda>(r, b). FailResponse r b) (recordLoginFailure cfg ops s b now)"
| "throttle_step cfg ops s (SucceedLogin c) = (NoResponse, recordLoginSuccess cfg ops s c)"
| "throttle_step cfg ops s (Cleanup now) = (NoResponse, cleanupLoginAttemptStates cfg ops s now)"

fun throttle_responses ::
  "throttle_config \<Rightarrow> 's store_ops \<Rightarrow> 's \<Rightarrow> throttle_event list \<Rightarrow> throttle_response list" where
  "throttle_responses cfg ops s [] = []"
| "throttle_responses cfg ops s (e # es) =
     (let (r, s) = throttle_step cfg ops s e in r # throttle_responses cfg ops s es)"

definition throttle_run ::
  "throttle_config \<Rightarrow> 's store_ops \<Rightarrow> 's \<Rightarrow> throttle_event list \<Rightarrow> 's" where
  "throttle_run cfg ops = run (\<lambda>s e. snd (throttle_step cfg ops s e))"

section \<open>The store interface\<close>

text \<open>
  The abstract store is a partial map. Its \<open>store_entries\<close> is not used: the sweep is specified
  directly by \<open>map_cleanup\<close>.
\<close>

definition map_ops :: "(string \<rightharpoonup> login_state) store_ops" where
  "map_ops = \<lparr>store_get = (\<lambda>m. m), store_set = (\<lambda>m k st. m(k \<mapsto> st)),
              store_delete = (\<lambda>m k. m(k := None)), store_entries = (\<lambda>m. [])\<rparr>"

definition map_cleanup ::
  "throttle_config \<Rightarrow> (string \<rightharpoonup> login_state) \<Rightarrow> int \<Rightarrow> (string \<rightharpoonup> login_state)" where
  "map_cleanup cfg m now =
     (\<lambda>k. case m k of Some st \<Rightarrow> if stale_state (stateTtlMs cfg) now st then None else Some st
                    | None \<Rightarrow> None)"

fun map_step :: "throttle_config \<Rightarrow> (string \<rightharpoonup> login_state) \<Rightarrow> throttle_event
    \<Rightarrow> throttle_response \<times> (string \<rightharpoonup> login_state)" where
  "map_step cfg m (Cleanup now) = (NoResponse, map_cleanup cfg m now)"
| "map_step cfg m e = throttle_step cfg map_ops m e"

fun map_responses ::
  "throttle_config \<Rightarrow> (string \<rightharpoonup> login_state) \<Rightarrow> throttle_event list \<Rightarrow> throttle_response list" where
  "map_responses cfg m [] = []"
| "map_responses cfg m (e # es) = (let (r, m) = map_step cfg m e in r # map_responses cfg m es)"

definition map_run ::
  "throttle_config \<Rightarrow> (string \<rightharpoonup> login_state) \<Rightarrow> throttle_event list \<Rightarrow> (string \<rightharpoonup> login_state)" where
  "map_run cfg = run (\<lambda>m e. snd (map_step cfg m e))"

lemma map_ops_simps [simp]:
  "store_get map_ops m = m" "store_set map_ops m k st = m(k \<mapsto> st)"
  "store_delete map_ops m k = m(k := None)"
  by (simp_all add: map_ops_def)

locale throttle_store =
  fixes ops :: "'s store_ops" and invar :: "'s \<Rightarrow> bool"
  assumes get_set: "invar s \<Longrightarrow> store_get ops (store_set ops s k st) = (store_get ops s)(k \<mapsto> st)"
    and get_delete: "invar s \<Longrightarrow> store_get ops (store_delete ops s k) = (store_get ops s)(k := None)"
    and entries_get: "invar s \<Longrightarrow> map_of (store_entries ops s) = store_get ops s"
    and entries_distinct: "invar s \<Longrightarrow> distinct (map fst (store_entries ops s))"
    and invar_set: "invar s \<Longrightarrow> invar (store_set ops s k st)"
    and invar_delete: "invar s \<Longrightarrow> invar (store_delete ops s k)"
begin

lemma getOrCreateState_refines:
  "invar s \<Longrightarrow> getOrCreateState ops s k now = (r, t) \<Longrightarrow>
     invar t \<and> getOrCreateState map_ops (store_get ops s) k now = (r, store_get ops t)"
  by (auto simp: getOrCreateState_def Let_def get_set invar_set split: option.splits)

lemma evaluateState_refines:
  assumes "invar s" and "evaluateState ops s k now w = (r, t)"
  shows "invar t \<and> evaluateState map_ops (store_get ops s) k now w = (r, store_get ops t)"
proof -
  obtain st u where g: "getOrCreateState ops s k now = (st, u)"
    by (cases "getOrCreateState ops s k now")
  from getOrCreateState_refines [OF assms(1) g] assms(2) show ?thesis
    by (auto simp: evaluateState_def g Let_def get_set invar_set split: if_splits)
qed

lemma recordStateFailure_refines:
  assumes "invar s" and "recordStateFailure ops s k now lim = (r, t)"
  shows "invar t \<and> recordStateFailure map_ops (store_get ops s) k now lim = (r, store_get ops t)"
proof -
  obtain st u where g: "getOrCreateState ops s k now = (st, u)"
    by (cases "getOrCreateState ops s k now")
  from getOrCreateState_refines [OF assms(1) g] assms(2) show ?thesis
    by (simp add: recordStateFailure_def g Let_def split: if_splits)
      (auto simp: get_set invar_set)
qed

lemma fold_cleanup:
  "invar s \<Longrightarrow>
     (let t = fold (\<lambda>(k, raw) s. if p raw then store_delete ops s k else s) es s in
      invar t \<and> store_get ops t
        = (\<lambda>k. if \<exists>raw. (k, raw) \<in> set es \<and> p raw then None else store_get ops s k))"
proof (induction es arbitrary: s)
  case (Cons e es)
  obtain k raw where e: "e = (k, raw)" by (cases e)
  show ?case
  proof (cases "p raw")
    case True
    have "invar (store_delete ops s k)" using Cons.prems by (rule invar_delete)
    from Cons.IH [OF this] show ?thesis
      using True Cons.prems by (auto simp: e Let_def get_delete fun_eq_iff)
  next
    case False
    from Cons.IH [OF Cons.prems] show ?thesis
      using False by (auto simp: e Let_def fun_eq_iff)
  qed
qed simp

lemma cleanup_refines:
  assumes "invar s"
  shows "invar (cleanupLoginAttemptStates cfg ops s now) \<and>
    store_get ops (cleanupLoginAttemptStates cfg ops s now) = map_cleanup cfg (store_get ops s) now"
proof -
  let ?p = "stale_state (stateTtlMs cfg) now"
  have key: "(\<exists>raw. (k, raw) \<in> set (store_entries ops s) \<and> ?p raw)
      = (case store_get ops s k of Some st \<Rightarrow> ?p st | None \<Rightarrow> False)" for k
  proof -
    have "(k, raw) \<in> set (store_entries ops s) \<longleftrightarrow> store_get ops s k = Some raw" for raw
      using entries_get [OF assms] entries_distinct [OF assms] by (metis map_of_eq_Some_iff)
    then show ?thesis by (auto split: option.splits)
  qed
  show ?thesis
    using fold_cleanup [OF assms, of ?p "store_entries ops s"]
    by (auto simp: cleanupLoginAttemptStates_def Let_def map_cleanup_def key fun_eq_iff
        split: option.splits)
qed

lemma step_refines:
  assumes "invar s" and "throttle_step cfg ops s e = (r, t)"
  shows "invar t \<and> map_step cfg (store_get ops s) e = (r, store_get ops t)"
proof (cases e)
  case (OpenBundle c now)
  with assms show ?thesis
    by (auto simp: getOrCreateLoginAttemptState_def Let_def split: prod.splits
        dest!: getOrCreateState_refines [rotated])
next
  case (CheckGlobal now)
  with assms show ?thesis
    by (auto simp: evaluateGlobalThrottle_def Let_def split: prod.splits
        dest!: evaluateState_refines [rotated])
next
  case (CheckLogin b now)
  with assms show ?thesis
    by (auto simp: evaluateLoginThrottle_def Let_def split: prod.splits
        dest!: evaluateState_refines [rotated])
next
  case (FailLogin b now)
  with assms show ?thesis
    by (auto simp: recordLoginFailure_def Let_def split: prod.splits
        dest!: recordStateFailure_refines [rotated])
next
  case (SucceedLogin c)
  with assms show ?thesis
    by (auto simp: recordLoginSuccess_def get_delete invar_delete)
next
  case (Cleanup now)
  with assms cleanup_refines [OF assms(1), of cfg now] show ?thesis by auto
qed

lemma run_refines:
  "invar s \<Longrightarrow> throttle_responses cfg ops s es = map_responses cfg (store_get ops s) es
     \<and> store_get ops (throttle_run cfg ops s es) = map_run cfg (store_get ops s) es
     \<and> invar (throttle_run cfg ops s es)"
proof (induction es arbitrary: s)
  case Nil
  then show ?case by (simp add: throttle_run_def map_run_def)
next
  case (Cons e es)
  obtain r t where st: "throttle_step cfg ops s e = (r, t)" by (cases "throttle_step cfg ops s e")
  from step_refines [OF Cons.prems st] have "invar t"
    and "map_step cfg (store_get ops s) e = (r, store_get ops t)" by auto
  with Cons.IH [OF \<open>invar t\<close>] show ?case
    by (simp add: st throttle_run_def map_run_def)
qed

end

lemma map_of_AList_update [simp]: "map_of (AList.update k v xs) = (map_of xs)(k \<mapsto> v)"
  by (simp add: update_conv' fun_eq_iff)

interpretation memory: throttle_store createMemoryLoginThrottleStore "\<lambda>s. distinct (map fst s)"
  by unfold_locales
    (simp_all add: createMemoryLoginThrottleStore_def delete_conv' distinct_update distinct_delete)

lemma row_key_of [simp]: "row_state_key (throttle_row_of k st) = k"
  by (simp add: throttle_row_of_def)

lemma find_sql_update_key:
  "find (\<lambda>r. row_state_key r = j) (sql_update (\<lambda>r. row_state_key r = k) (\<lambda>r. throttle_row_of k st) rows)
    = (if j = k \<and> 0 < sql_count (\<lambda>r. row_state_key r = k) rows then Some (throttle_row_of k st)
       else find (\<lambda>r. row_state_key r = j) rows)"
  by (induction rows) auto

lemma find_append: "find p (xs @ ys) = (case find p xs of None \<Rightarrow> find p ys | Some x \<Rightarrow> Some x)"
  by (induction xs) auto

lemma find_row_key: "sql_count (\<lambda>r. row_state_key r = k) rows = 0
    \<Longrightarrow> find (\<lambda>r. row_state_key r = k) rows = None"
  by (auto simp: sql_count_eq_0 find_None_iff)

lemma toStateModel_row_of [simp]: "toStateModel (Some (throttle_row_of k st)) = Some st"
  by (simp add: toStateModel_def throttle_row_of_def)

lemma find_sql_delete_key:
  "find (\<lambda>r. row_state_key r = j) (sql_delete (\<lambda>r. row_state_key r = k) rows)
    = (if j = k then None else find (\<lambda>r. row_state_key r = j) rows)"
  by (induction rows) auto

lemma map_of_rows: "map_of (map (\<lambda>r. (row_state_key r, the (toStateModel (Some r)))) rows)
    = (\<lambda>k. toStateModel (find (\<lambda>r. row_state_key r = k) rows))"
  by (induction rows) (auto simp: toStateModel_def fun_eq_iff)

lemma distinct_upsert: "distinct (map row_state_key rows)
    \<Longrightarrow> distinct (map row_state_key (upsert_row rows k st))"
proof -
  have "map row_state_key (sql_update (\<lambda>r. row_state_key r = k) (\<lambda>r. throttle_row_of k st) rows)
      = map row_state_key rows"
    by (rule map_sql_update_key) simp
  then show "distinct (map row_state_key rows) \<Longrightarrow> ?thesis"
    by (auto simp: upsert_row_def sql_count_eq_0)
qed

lemma find_upsert_key:
  "toStateModel (find (\<lambda>r. row_state_key r = j) (upsert_row rows k st))
    = (if j = k then Some st else toStateModel (find (\<lambda>r. row_state_key r = j) rows))"
proof (cases "0 < sql_count (\<lambda>r. row_state_key r = k) rows")
  case True
  then show ?thesis by (simp add: upsert_row_def find_sql_update_key)
next
  case False
  then show ?thesis
    by (auto simp: upsert_row_def find_append find_row_key split: option.splits)
qed

interpretation sqlite: throttle_store createLoginThrottleStore "\<lambda>rows. distinct (map row_state_key rows)"
proof (unfold_locales, goal_cases)
  case (1 s k st)
  then show ?case
    by (simp add: createLoginThrottleStore_def find_upsert_key fun_eq_iff)
next
  case (2 s k)
  then show ?case
    by (auto simp: createLoginThrottleStore_def find_sql_delete_key toStateModel_def fun_eq_iff)
next
  case (3 s)
  then show ?case by (simp add: createLoginThrottleStore_def map_of_rows)
next
  case (4 s)
  then show ?case by (simp add: createLoginThrottleStore_def comp_def)
next
  case (5 s k st)
  then show ?case by (simp add: createLoginThrottleStore_def distinct_upsert)
next
  case (6 s k)
  then show ?case by (simp add: createLoginThrottleStore_def distinct_key_sql_delete)
qed

section \<open>Locks\<close>

definition locked_until :: "int \<Rightarrow> (string \<rightharpoonup> login_state) \<Rightarrow> string \<Rightarrow> bool" where
  "locked_until T m k \<longleftrightarrow> (\<exists>st. m k = Some st \<and> lockUntil st = T)"

lemma lockUntil_normalize [simp]: "lockUntil (normalizeState st now) = lockUntil st"
  by (simp add: normalizeState_def)

lemma getOrCreate_lock:
  "locked_until T m k \<Longrightarrow> getOrCreateState map_ops m j now = (st, m') \<Longrightarrow>
     locked_until T m' k \<and> m' j = Some st \<and> (j = k \<longrightarrow> lockUntil st = T)"
  by (auto simp: getOrCreateState_def locked_until_def Let_def split: option.splits)

lemma evaluate_lock:
  assumes "locked_until T m k" and "evaluateState map_ops m j now w = (r, m')" and "now < T"
  shows "locked_until T m' k"
proof -
  obtain st u where g: "getOrCreateState map_ops m j now = (st, u)"
    by (cases "getOrCreateState map_ops m j now")
  from getOrCreate_lock [OF assms(1) g] assms(2,3) show ?thesis
    by (auto simp: evaluateState_def g Let_def locked_until_def split: if_splits)
qed

lemma record_lock:
  assumes "locked_until T m k" and "recordStateFailure map_ops m j now lim = (r, m')" and "now < T"
  shows "locked_until T m' k"
proof -
  obtain st u where g: "getOrCreateState map_ops m j now = (st, u)"
    by (cases "getOrCreateState map_ops m j now")
  note l = getOrCreate_lock [OF assms(1) g]
  show ?thesis
  proof (cases "lockUntil st > now")
    case True
    with assms(2) l show ?thesis by (simp add: recordStateFailure_def g)
  next
    case False
    with assms(3) l have "j \<noteq> k" by auto
    with False assms(2) l show ?thesis
      by (auto simp: recordStateFailure_def g Let_def locked_until_def split: if_splits)
  qed
qed

text \<open>Whether an event may end the lock of bucket \<open>k\<close> before \<open>T\<close>.\<close>

definition keeps_lock :: "throttle_config \<Rightarrow> string \<Rightarrow> int \<Rightarrow> throttle_event \<Rightarrow> bool" where
  "keeps_lock cfg k T e = (case e of
      SucceedLogin c \<Rightarrow> c = '''' \<or> getClientStateKey c (scope cfg) \<noteq> k
    | _ \<Rightarrow> (case event_time e of Some now \<Rightarrow> now < T | None \<Rightarrow> True))"

lemma map_step_keeps_lock:
  assumes "locked_until T m k" and "keeps_lock cfg k T e"
  shows "locked_until T (snd (map_step cfg m e)) k"
proof (cases e)
  case (OpenBundle c now)
  with assms show ?thesis
    by (auto simp: getOrCreateLoginAttemptState_def Let_def split: prod.splits
        dest: getOrCreate_lock)
next
  case (CheckGlobal now)
  with assms show ?thesis
    by (auto simp: evaluateGlobalThrottle_def keeps_lock_def Let_def split: prod.splits
        dest: evaluate_lock)
next
  case (CheckLogin b now)
  with assms show ?thesis
    by (auto simp: evaluateLoginThrottle_def keeps_lock_def Let_def split: prod.splits
        dest: evaluate_lock)
next
  case (FailLogin b now)
  with assms show ?thesis
    by (auto simp: recordLoginFailure_def keeps_lock_def Let_def split: prod.splits
        dest: record_lock)
next
  case (SucceedLogin c)
  with assms show ?thesis
    by (auto simp: recordLoginSuccess_def keeps_lock_def locked_until_def)
next
  case (Cleanup now)
  with assms show ?thesis
    by (auto simp: map_cleanup_def keeps_lock_def locked_until_def stale_state_def Let_def)
qed

interpretation lock_machine: machine "\<lambda>m e. snd (map_step cfg m e)" "\<lambda>m. locked_until T m k"
    "keeps_lock cfg k T" for cfg T k
  by unfold_locales (rule map_step_keeps_lock)

lemma map_run_lock:
  "locked_until T m k \<Longrightarrow> list_all (keeps_lock cfg k T) es \<Longrightarrow> locked_until T (map_run cfg m es) k"
  unfolding map_run_def by (rule lock_machine.run_inv)

lemma evaluate_blocked:
  assumes "locked_until T m k" and "now < T"
  shows "\<exists>st m'. evaluateState map_ops m k now w
      = ((st, \<lparr>blocked = True, retryAfterSec = retry_seconds (T - now)\<rparr>), m')"
  using assms by (auto simp: evaluateState_def getOrCreateState_def locked_until_def Let_def)

lemma client_key_not_global: "getClientStateKey c sc \<noteq> getGlobalStateKey sc"
  by (auto simp: getClientStateKey_def getGlobalStateKey_def Let_def)

lemma retry_seconds_covers: "ms \<le> retry_seconds ms * 1000"
  using ceil_div_ge [of 1000 ms] by (auto simp: retry_seconds_def max_def)

lemma chooseThrottleResult_blocked:
  "r \<in> set rs \<Longrightarrow> blocked r \<Longrightarrow>
     blocked (chooseThrottleResult rs) \<and> retryAfterSec r \<le> retryAfterSec (chooseThrottleResult rs)"
  by (auto simp: chooseThrottleResult_def Let_def filter_empty_conv intro!: js_max_ge)

lemma evaluateLogin_global_blocked:
  assumes "locked_until T m gk" and "now < T" and "snd (bundle_keys cfg b) = gk"
    and "evaluateLoginThrottle cfg map_ops m b now = ((r, b'), m')"
  shows "blocked r \<and> T - now \<le> retryAfterSec r * 1000"
proof -
  obtain ck where keys: "bundle_keys cfg b = (ck, gk)" using assms(3) by (cases "bundle_keys cfg b") simp
  obtain c cr m1 where e1: "evaluateState map_ops m ck now (windowMs (clientLimits cfg)) = ((c, cr), m1)"
    by (metis prod.exhaust)
  from evaluate_lock [OF assms(1) e1 assms(2)] have "locked_until T m1 gk" .
  from evaluate_blocked [OF this assms(2)] obtain g m2 where
    e2: "evaluateState map_ops m1 gk now (windowMs (globalLimits cfg))
      = ((g, \<lparr>blocked = True, retryAfterSec = retry_seconds (T - now)\<rparr>), m2)" by blast
  let ?gr = "\<lparr>blocked = True, retryAfterSec = retry_seconds (T - now)\<rparr>"
  have r: "r = chooseThrottleResult [cr, ?gr]"
    using assms(4) by (simp add: evaluateLoginThrottle_def keys e1 e2)
  have "blocked r \<and> retryAfterSec ?gr \<le> retryAfterSec r"
    unfolding r by (rule chooseThrottleResult_blocked) simp_all
  then show ?thesis using retry_seconds_covers [of "T - now"] by simp
qed

section \<open>Series of failures\<close>

fun record_failures ::
  "'s store_ops \<Rightarrow> 's \<Rightarrow> string \<Rightarrow> int list \<Rightarrow> bucket_limits \<Rightarrow> failure_result list \<times> 's" where
  "record_failures ops s k [] lim = ([], s)"
| "record_failures ops s k (t # ts) lim =
     (let ((st, r), s) = recordStateFailure ops s k t lim;
          (rs, s) = record_failures ops s k ts lim in (r # rs, s))"

context throttle_store
begin

lemma record_failures_refines:
  "invar s \<Longrightarrow> record_failures ops s k ts lim = (rs, t) \<Longrightarrow>
     record_failures map_ops (store_get ops s) k ts lim = (rs, store_get ops t)"
proof (induction ts arbitrary: s rs t)
  case (Cons u us)
  obtain st r v where f: "recordStateFailure ops s k u lim = ((st, r), v)" by (metis prod.exhaust)
  obtain rs' w where g: "record_failures ops v k us lim = (rs', w)" by (metis prod.exhaust)
  from recordStateFailure_refines [OF Cons.prems(1) f] have v: "invar v"
    and fm: "recordStateFailure map_ops (store_get ops s) k u lim = ((st, r), store_get ops v)" by auto
  from Cons.IH [OF v g] Cons.prems(2) show ?case by (auto simp: f g fm)
qed simp

end

definition open_bucket :: "bucket_limits \<Rightarrow> login_state \<Rightarrow> int \<Rightarrow> bool" where
  "open_bucket lim st t \<longleftrightarrow> lockUntil st \<le> t \<and> t - windowStart st < windowMs lim"

lemma record_failure_counts:
  assumes "m k = Some st" and "windowStart st \<noteq> 0" and "open_bucket lim st t"
    and "attempts st + 1 < maxAttempts lim"
  obtains st' r where "recordStateFailure map_ops m k t lim = ((st', r), m(k \<mapsto> st'))"
    and "\<not> locked r" and "st' = st\<lparr>attempts := attempts st + 1, lastSeenAt := t\<rparr>"
proof -
  have "recordStateFailure map_ops m k t lim =
      ((st\<lparr>attempts := attempts st + 1, lastSeenAt := t\<rparr>,
        \<lparr>locked = False, lockMs = 0, failRetryAfterSec = 0\<rparr>),
       m(k \<mapsto> st\<lparr>attempts := attempts st + 1, lastSeenAt := t\<rparr>))"
    using assms by (simp add: recordStateFailure_def getOrCreateState_def normalizeState_def
        open_bucket_def Let_def)
  then show ?thesis using that by fastforce
qed

lemma record_failure_locks:
  assumes "m k = Some st" and "windowStart st \<noteq> 0" and "open_bucket lim st t"
    and "attempts st + 1 = maxAttempts lim" and "0 \<le> failStreak st"
  obtains st' r where "recordStateFailure map_ops m k t lim = ((st', r), m(k \<mapsto> st'))"
    and "locked r" and "lockMs r = doubling (baseLockMs lim) (maxLockMs lim) (nat (failStreak st))"
    and "lockUntil st' = t + lockMs r" and "failStreak st' = failStreak st + 1" and "attempts st' = 0"
proof -
  let ?l = "doubling (baseLockMs lim) (maxLockMs lim) (nat (failStreak st))"
  let ?st = "st\<lparr>attempts := 0, windowStart := t, lockUntil := t + ?l,
      failStreak := failStreak st + 1, lastSeenAt := t\<rparr>"
  have "recordStateFailure map_ops m k t lim =
      ((?st, \<lparr>locked = True, lockMs = ?l, failRetryAfterSec = retry_seconds ?l\<rparr>), m(k \<mapsto> ?st))"
    using assms by (cases st) (simp add: recordStateFailure_def getOrCreateState_def
        normalizeState_def open_bucket_def Let_def doubling_def)
  then show ?thesis using that by fastforce
qed

lemma map_failures_lock:
  assumes "m k = Some st" and "windowStart st \<noteq> 0" and "\<forall>t \<in> set ts. open_bucket lim st t"
    and "attempts st < maxAttempts lim" and "int (length ts) = maxAttempts lim - attempts st"
    and "0 \<le> failStreak st" and "record_failures map_ops m k ts lim = (rs, m')"
  shows "rs \<noteq> [] \<and> (\<forall>r \<in> set (butlast rs). \<not> locked r) \<and> locked (last rs)
    \<and> lockMs (last rs) = doubling (baseLockMs lim) (maxLockMs lim) (nat (failStreak st))
    \<and> locked_until (last ts + lockMs (last rs)) m' k"
  using assms
proof (induction ts arbitrary: m st rs)
  case (Cons t ts)
  show ?case
  proof (cases ts)
    case Nil
    with Cons.prems have "attempts st + 1 = maxAttempts lim" and "open_bucket lim st t" by auto
    from record_failure_locks [where m = m and k = k, OF Cons.prems(1,2) this(2,1) Cons.prems(6)] obtain st' r where
      "recordStateFailure map_ops m k t lim = ((st', r), m(k \<mapsto> st'))" "locked r"
      "lockMs r = doubling (baseLockMs lim) (maxLockMs lim) (nat (failStreak st))"
      "lockUntil st' = t + lockMs r" .
    then show ?thesis using Cons.prems(7) Nil by (auto simp: locked_until_def)
  next
    case (Cons u us)
    with Cons.prems have "attempts st + 1 < maxAttempts lim" and "open_bucket lim st t" by auto
    from record_failure_counts [where m = m and k = k, OF Cons.prems(1,2) this(2,1)] obtain st' r where
      step: "recordStateFailure map_ops m k t lim = ((st', r), m(k \<mapsto> st'))" and "\<not> locked r"
      and st': "st' = st\<lparr>attempts := attempts st + 1, lastSeenAt := t\<rparr>" .
    obtain rs' where rs: "record_failures map_ops (m(k \<mapsto> st')) k ts lim = (rs', m')"
      and "rs = r # rs'"
      using Cons.prems(7) by (auto simp: step split: prod.splits)
    have "\<forall>t \<in> set ts. open_bucket lim st' t"
      using Cons.prems(3) by (simp add: open_bucket_def st')
    then have "rs' \<noteq> [] \<and> (\<forall>r \<in> set (butlast rs'). \<not> locked r) \<and> locked (last rs')
        \<and> lockMs (last rs') = doubling (baseLockMs lim) (maxLockMs lim) (nat (failStreak st'))
        \<and> locked_until (last ts + lockMs (last rs')) m' k"
      using Cons.prems \<open>attempts st + 1 < maxAttempts lim\<close>
      by (intro Cons.IH [OF _ _ _ _ _ _ rs]) (simp_all add: st')
    then show ?thesis using \<open>\<not> locked r\<close> \<open>rs = r # rs'\<close> Cons by (auto simp: st')
  qed
qed simp

interpretation lock_backoff: backoff "doubling 60000 900000" 60000 900000
  by (rule doubling_backoff) simp_all

section \<open>Properties\<close>

text \<open>C15. The throttle answers the same over its two stores: for any sequence of operations, from
  empty stores, the responses over the in-memory Map are those over the SQLite table.\<close>

theorem throttle_stores_agree:
  "throttle_responses cfg createMemoryLoginThrottleStore [] es
     = throttle_responses cfg createLoginThrottleStore [] es"
proof -
  have "store_get createMemoryLoginThrottleStore [] = store_get createLoginThrottleStore []"
    by (simp add: createMemoryLoginThrottleStore_def createLoginThrottleStore_def
        toStateModel_def fun_eq_iff)
  then show ?thesis
    using memory.run_refines [of "[]" cfg es] sqlite.run_refines [of "[]" cfg es] by simp
qed

text \<open>The cross-client lock cannot be lifted early: while the global bucket is locked, every
  login check answers blocked with a retry delay that covers the rest of the lock, whatever other
  operations (checks, failures, successful logins, sweeps) happened since, at any times before
  the end of the lock.\<close>

lemma global_lock_survives_successes:
  assumes "distinct (map row_state_key rows)"
    and "store_get createLoginThrottleStore rows (getGlobalStateKey (scope cfg)) = Some st"
    and "list_all (\<lambda>e. case event_time e of Some t \<Rightarrow> t < lockUntil st | None \<Rightarrow> True) es"
    and "now < lockUntil st"
    and "snd (bundle_keys cfg b) = getGlobalStateKey (scope cfg)"
    and "evaluateLoginThrottle cfg createLoginThrottleStore
           (throttle_run cfg createLoginThrottleStore rows es) b now = ((r, b'), rows')"
  shows "blocked r \<and> lockUntil st - now \<le> retryAfterSec r * 1000"
proof -
  let ?gk = "getGlobalStateKey (scope cfg)" and ?ops = createLoginThrottleStore
  let ?m = "map_run cfg (store_get ?ops rows) es"
  from assms(3) have "list_all (keeps_lock cfg ?gk (lockUntil st)) es"
    by (auto simp: list_all_iff keeps_lock_def client_key_not_global split: throttle_event.split)
  then have lock: "locked_until (lockUntil st) ?m ?gk"
    by (intro map_run_lock) (simp_all add: locked_until_def assms(2))
  from sqlite.run_refines [OF assms(1), of cfg es]
  have inv: "distinct (map row_state_key (throttle_run cfg ?ops rows es))"
    and m: "store_get ?ops (throttle_run cfg ?ops rows es) = ?m" by auto
  from sqlite.step_refines [OF inv, of cfg "CheckLogin b now" "CheckResponse r b'" rows'] assms(6)
  have "throttle_step cfg map_ops ?m (CheckLogin b now)
      = (CheckResponse r b', store_get ?ops rows')" by (simp add: m)
  then have "evaluateLoginThrottle cfg map_ops ?m b now = ((r, b'), store_get ?ops rows')"
    by (auto simp: apfst_def map_prod_def split: prod.splits)
  from evaluateLogin_global_blocked [OF lock assms(4,5) this] show ?thesis .
qed

definition demo_config :: throttle_config where
  "demo_config = \<lparr>scope = ''login'',
     clientLimits = \<lparr>windowMs = 600000, maxAttempts = 5, baseLockMs = 60000, maxLockMs = 900000\<rparr>,
     globalLimits = \<lparr>windowMs = 600000, maxAttempts = 25, baseLockMs = 60000, maxLockMs = 900000\<rparr>,
     stateTtlMs = 2700000\<rparr>"

definition demo_locked_rows :: "throttle_row list" where
  "demo_locked_rows = [throttle_row_of (getGlobalStateKey ''login'')
     \<lparr>attempts = 0, windowStart = 1000, lockUntil = 61000, failStreak = 1, lastSeenAt = 1000\<rparr>]"

text \<open>Brute force is cut at the configured number of failures: from an unlocked bucket with
  \<open>attempts\<close> failures already counted, the next \<open>maxAttempts - attempts\<close> failures inside the
  window answer unlocked except the last, which locks the bucket for \<open>baseLockMs\<close> doubled once
  per earlier lock, capped at \<open>maxLockMs\<close>, counted from that failure.\<close>

lemma failures_lock_at_limit:
  assumes "distinct (map row_state_key rows)"
    and "store_get createLoginThrottleStore rows k = Some st"
    and "windowStart st \<noteq> 0" and "0 \<le> failStreak st"
    and "\<forall>t \<in> set ts. lockUntil st \<le> t \<and> t - windowStart st < windowMs lim"
    and "attempts st < maxAttempts lim" and "int (length ts) = maxAttempts lim - attempts st"
    and "record_failures createLoginThrottleStore rows k ts lim = (rs, rows')"
  shows "rs \<noteq> [] \<and> (\<forall>r \<in> set (butlast rs). \<not> locked r) \<and> locked (last rs)
    \<and> lockMs (last rs) = min (baseLockMs lim * 2 ^ nat (failStreak st)) (maxLockMs lim)
    \<and> (\<exists>st'. store_get createLoginThrottleStore rows' k = Some st'
         \<and> lockUntil st' = last ts + lockMs (last rs))"
proof -
  from sqlite.record_failures_refines [OF assms(1,8)]
  have m: "record_failures map_ops (store_get createLoginThrottleStore rows) k ts lim
      = (rs, store_get createLoginThrottleStore rows')" .
  have "\<forall>t \<in> set ts. open_bucket lim st t" using assms(5) by (simp add: open_bucket_def)
  from map_failures_lock [where m = "store_get createLoginThrottleStore rows" and k = k,
      OF assms(2,3) this assms(6,7,4) m]
  show ?thesis unfolding locked_until_def doubling_def by blast
qed

end
