(* ===== verification/Lifecycle_Lock.thy ===== *)
theory Lifecycle_Lock
  imports Prelude
begin

text \<open>
  The gateway lifecycle lock (\<open>lib/server/gateway-lifecycle-lock.js\<close>): one gateway lifecycle
  operation at a time, queued user acquisitions, skipping background acquisitions, a lease that
  bounds every hold, and holds whose cleanup must be confirmed before a successor is admitted.

  The closure state of a hold (\<open>settled\<close>, \<open>expired\<close>, \<open>releasing\<close>, its phase) is a record in the
  map \<open>holds\<close>, keyed by the hold's id; a release handle is the id. The promise chain \<open>queueTail\<close> is
  the list \<open>queue\<close> of its unresolved links: a turn that waits to make its hold, or the wait for
  \<open>released\<close> of a hold. The microtasks and timers are the events \<open>RunTurn\<close>, \<open>PopLink\<close>,
  \<open>LeaseTimer\<close>, \<open>CleanupDone\<close>, \<open>CleanupBlockedEv\<close>, which may happen at any moment at which the
  source may run them. The promise an \<open>acquire\<close> returns is identified by its ticket; \<open>grants\<close> is
  the sequence of tickets that resolved.
\<close>

section \<open>State\<close>

datatype hold_phase = CleanupPhase | CleanupBlockedPhase

record hold =
  holdKind :: string
  holdId :: nat
  holdStartedAt :: int
  holdExpiresAt :: int
  settled :: bool
  expired :: bool
  releasing :: bool
  hasCleanup :: bool
  cancelled :: "string list"
  holdPhase :: "hold_phase option"
  cleanupStartedAt :: "int option"

datatype link =
    Turn (ticket: nat) (turnKind: string) (turnLease: int) (turnCleanup: bool)
  | UntilReleased nat

record lock_state =
  active :: "nat option"
  queue :: "link list"
  pendingTurns :: int
  holdSeq :: nat
  holds :: "nat \<rightharpoonup> hold"
  nextTicket :: nat
  grants :: "nat list"

definition createGatewayLifecycleLock :: lock_state where
  "createGatewayLifecycleLock = \<lparr>active = None, queue = [], pendingTurns = 0, holdSeq = 0,
     holds = Map.empty, nextTicket = 0, grants = []\<rparr>"

section \<open>Operations\<close>

definition makeHold :: "lock_state \<Rightarrow> string \<Rightarrow> int \<Rightarrow> bool \<Rightarrow> int \<Rightarrow> nat \<times> lock_state" where
  "makeHold st kind lease cleanup now =
     (let n = holdSeq st + 1;
          h = \<lparr>holdKind = kind, holdId = n, holdStartedAt = now, holdExpiresAt = now + lease,
               settled = False, expired = False, releasing = False, hasCleanup = cleanup,
               cancelled = [], holdPhase = None, cleanupStartedAt = None\<rparr> in
      (n, st\<lparr>holdSeq := n, holds := (holds st)(n \<mapsto> h)\<rparr>))"

definition set_hold :: "lock_state \<Rightarrow> nat \<Rightarrow> hold \<Rightarrow> lock_state" where
  "set_hold st i h = st\<lparr>holds := (holds st)(i \<mapsto> h)\<rparr>"

definition finish_hold :: "lock_state \<Rightarrow> nat \<Rightarrow> lock_state" where
  "finish_hold st i =
     (case holds st i of None \<Rightarrow> st | Some h \<Rightarrow>
        if settled h then st
        else (let st = set_hold st i (h\<lparr>settled := True\<rparr>) in
              if active st = Some i then st\<lparr>active := None\<rparr> else st))"

definition release_hold :: "lock_state \<Rightarrow> nat \<Rightarrow> int \<Rightarrow> lock_state" where
  "release_hold st i now =
     (case holds st i of None \<Rightarrow> st | Some h \<Rightarrow>
        if settled h \<or> releasing h then st
        else if \<not> hasCleanup h then finish_hold (set_hold st i (h\<lparr>releasing := True\<rparr>)) i
        else set_hold st i (h\<lparr>releasing := True, holdPhase := Some CleanupPhase,
                             cleanupStartedAt := Some now\<rparr>))"

definition cleanup_blocked :: "lock_state \<Rightarrow> nat \<Rightarrow> lock_state" where
  "cleanup_blocked st i =
     (case holds st i of None \<Rightarrow> st | Some h \<Rightarrow>
        if settled h then st else set_hold st i (h\<lparr>holdPhase := Some CleanupBlockedPhase\<rparr>))"

definition cancel_cleanup :: "string \<Rightarrow> hold \<Rightarrow> hold" where
  "cancel_cleanup reason h = (if hasCleanup h then h\<lparr>cancelled := cancelled h @ [reason]\<rparr> else h)"

definition lease_timer :: "lock_state \<Rightarrow> nat \<Rightarrow> int \<Rightarrow> lock_state" where
  "lease_timer st i now =
     (case holds st i of None \<Rightarrow> st | Some h \<Rightarrow>
        if settled h then st
        else release_hold
               (set_hold st i (cancel_cleanup ''lease_expired'' (h\<lparr>expired := True\<rparr>))) i now)"

definition isValid :: "lock_state \<Rightarrow> nat \<Rightarrow> bool" where
  "isValid st i = (case holds st i of None \<Rightarrow> False
     | Some h \<Rightarrow> \<not> settled h \<and> \<not> expired h \<and> \<not> releasing h)"

definition isExpired :: "lock_state \<Rightarrow> nat \<Rightarrow> bool" where
  "isExpired st i = (case holds st i of None \<Rightarrow> False | Some h \<Rightarrow> expired h)"

record active_op =
  opKind :: string
  opStartedAt :: int
  opHoldId :: nat
  opPhase :: "(hold_phase \<times> int option) option"

definition getActiveOperation :: "lock_state \<Rightarrow> active_op option" where
  "getActiveOperation st = (case active st of None \<Rightarrow> None | Some i \<Rightarrow>
     (case holds st i of None \<Rightarrow> None | Some h \<Rightarrow>
        Some \<lparr>opKind = holdKind h, opStartedAt = holdStartedAt h, opHoldId = holdId h,
              opPhase = map_option (\<lambda>p. (p, cleanupStartedAt h)) (holdPhase h)\<rparr>))"

text \<open>\<open>acquire\<close> answers its ticket and, when the call will wait, what \<open>onQueued\<close> is given.\<close>

definition acquire ::
  "lock_state \<Rightarrow> string \<Rightarrow> int \<Rightarrow> bool \<Rightarrow> (nat \<times> active_op option option) \<times> lock_state" where
  "acquire st kind lease cleanup =
     (let queued = (if active st \<noteq> None \<or> 0 < pendingTurns st
                    then Some (getActiveOperation st) else None) in
      ((nextTicket st, queued),
       st\<lparr>pendingTurns := pendingTurns st + 1, nextTicket := nextTicket st + 1,
          queue := queue st @ [Turn (nextTicket st) kind lease cleanup]\<rparr>))"

definition tryAcquire ::
  "lock_state \<Rightarrow> string \<Rightarrow> int \<Rightarrow> bool \<Rightarrow> int \<Rightarrow> nat option \<times> lock_state" where
  "tryAcquire st kind lease cleanup now =
     (if active st \<noteq> None \<or> 0 < pendingTurns st then (None, st)
      else (let (i, st) = makeHold st kind lease cleanup now in
            (Some i, st\<lparr>active := Some i, queue := queue st @ [UntilReleased i]\<rparr>)))"

text \<open>The body of a turn: it runs once the links before it resolved and no hold is active.\<close>

definition run_turn :: "lock_state \<Rightarrow> int \<Rightarrow> lock_state option" where
  "run_turn st now =
     (case queue st of
        Turn t kind lease cleanup # q \<Rightarrow>
          if active st \<noteq> None then None
          else (let st = st\<lparr>pendingTurns := pendingTurns st - 1\<rparr>;
                    (i, st) = makeHold st kind lease cleanup now in
                Some (st\<lparr>active := Some i, queue := UntilReleased i # q, grants := grants st @ [t]\<rparr>))
      | _ \<Rightarrow> None)"

definition pop_link :: "lock_state \<Rightarrow> lock_state option" where
  "pop_link st =
     (case queue st of
        UntilReleased i # q \<Rightarrow>
          (case holds st i of Some h \<Rightarrow> if settled h then Some (st\<lparr>queue := q\<rparr>) else None
           | None \<Rightarrow> None)
      | _ \<Rightarrow> None)"

text \<open>Handles are compared by identity: a forged handle may claim any id and validity.\<close>

datatype handle = RealHandle nat | ForgedHandle nat bool

definition owns :: "lock_state \<Rightarrow> handle \<Rightarrow> bool" where
  "owns st hnd = (case hnd of RealHandle i \<Rightarrow> active st = Some i \<and> isValid st i
     | ForgedHandle i v \<Rightarrow> False)"

definition handle_valid :: "lock_state \<Rightarrow> handle \<Rightarrow> bool" where
  "handle_valid st hnd = (case hnd of RealHandle i \<Rightarrow> isValid st i | ForgedHandle i v \<Rightarrow> v)"

definition cancelActiveCleanup :: "lock_state \<Rightarrow> string \<Rightarrow> int \<Rightarrow> lock_state" where
  "cancelActiveCleanup st reason now =
     (case active st of None \<Rightarrow> st | Some i \<Rightarrow>
       (case holds st i of None \<Rightarrow> st | Some h \<Rightarrow>
          if \<not> hasCleanup h then st
          else release_hold (set_hold st i (cancel_cleanup reason h)) i now))"

section \<open>Runs\<close>

datatype lock_event =
    Acquire string int bool
  | TryAcquire string int bool int
  | Release nat int
  | CancelActive string int
  | RunTurn int
  | PopLink
  | LeaseTimer nat int
  | CleanupDone nat
  | CleanupBlockedEv nat

text \<open>
  The effect of an event, \<open>None\<close> where it cannot happen: the timer of a lease runs only while the
  hold was neither settled nor released (both clear it); \<open>cleanup.wait()\<close> resolves or rejects,
  and the cleanup timer runs, only for a hold with a cleanup that was released.
\<close>

definition cleaning :: "lock_state \<Rightarrow> nat \<Rightarrow> bool" where
  "cleaning st i = (case holds st i of None \<Rightarrow> False | Some h \<Rightarrow> releasing h \<and> hasCleanup h)"

definition lease_armed :: "lock_state \<Rightarrow> nat \<Rightarrow> bool" where
  "lease_armed st i = (case holds st i of None \<Rightarrow> False | Some h \<Rightarrow> \<not> settled h \<and> \<not> releasing h)"

fun lock_exec :: "lock_state \<Rightarrow> lock_event \<Rightarrow> lock_state option" where
  "lock_exec st (Acquire k l c) = Some (snd (acquire st k l c))"
| "lock_exec st (TryAcquire k l c now) = Some (snd (tryAcquire st k l c now))"
| "lock_exec st (Release i now) = Some (release_hold st i now)"
| "lock_exec st (CancelActive r now) = Some (cancelActiveCleanup st r now)"
| "lock_exec st (RunTurn now) = run_turn st now"
| "lock_exec st PopLink = pop_link st"
| "lock_exec st (LeaseTimer i now) = (if lease_armed st i then Some (lease_timer st i now) else None)"
| "lock_exec st (CleanupDone i) = (if cleaning st i then Some (finish_hold st i) else None)"
| "lock_exec st (CleanupBlockedEv i) = (if cleaning st i then Some (cleanup_blocked st i) else None)"

fun lock_run :: "lock_state \<Rightarrow> lock_event list \<Rightarrow> lock_state option" where
  "lock_run st [] = Some st"
| "lock_run st (e # es) = (case lock_exec st e of None \<Rightarrow> None | Some st \<Rightarrow> lock_run st es)"

inductive lock_step :: "lock_state \<Rightarrow> lock_state \<Rightarrow> bool" where
  "lock_exec st e = Some st' \<Longrightarrow> lock_step st st'"

inductive_cases lock_stepE: "lock_step st st'"

section \<open>The invariant\<close>

fun tickets :: "link list \<Rightarrow> nat list" where
  "tickets [] = []"
| "tickets (Turn t k l c # q) = t # tickets q"
| "tickets (UntilReleased i # q) = tickets q"

lemma tickets_append [simp]: "tickets (p @ q) = tickets p @ tickets q"
  by (induction p rule: tickets.induct) auto

definition holds_wf :: "lock_state \<Rightarrow> bool" where
  "holds_wf st \<longleftrightarrow> (\<forall>i h. holds st i = Some h \<longrightarrow> holdId h = i \<and> i \<le> holdSeq st
     \<and> (settled h \<longleftrightarrow> active st \<noteq> Some i) \<and> (expired h \<longrightarrow> releasing h)
     \<and> (releasing h \<longrightarrow> settled h \<or> hasCleanup h))
   \<and> (\<forall>i. active st = Some i \<longrightarrow> holds st i \<noteq> None)"

definition queue_wf :: "lock_state \<Rightarrow> bool" where
  "queue_wf st \<longleftrightarrow> pendingTurns st = int (length (tickets (queue st)))
     \<and> grants st @ tickets (queue st) = [0..<nextTicket st]
     \<and> (\<forall>i. UntilReleased i \<in> set (queue st) \<longrightarrow> holds st i \<noteq> None)"

definition lock_inv :: "lock_state \<Rightarrow> bool" where
  "lock_inv st \<longleftrightarrow> holds_wf st \<and> queue_wf st"

definition holds_only :: "lock_state \<Rightarrow> lock_state \<Rightarrow> bool" where
  "holds_only st st' \<longleftrightarrow> queue st' = queue st \<and> pendingTurns st' = pendingTurns st
     \<and> grants st' = grants st \<and> nextTicket st' = nextTicket st \<and> holdSeq st' = holdSeq st
     \<and> (\<forall>i. holds st i \<noteq> None \<longrightarrow> holds st' i \<noteq> None)"

lemma holds_only_queue_wf: "queue_wf st \<Longrightarrow> holds_only st st' \<Longrightarrow> queue_wf st'"
  by (simp add: queue_wf_def holds_only_def)

lemmas hold_ops = finish_hold_def release_hold_def cleanup_blocked_def lease_timer_def
  cancelActiveCleanup_def set_hold_def cancel_cleanup_def

lemma holds_only_finish: "holds_only st (finish_hold st i)"
  by (auto simp: holds_only_def hold_ops Let_def split: option.splits)

lemma holds_only_release: "holds_only st (release_hold st i now)"
  by (auto simp: holds_only_def hold_ops Let_def split: option.splits)

lemma holds_only_blocked: "holds_only st (cleanup_blocked st i)"
  by (auto simp: holds_only_def hold_ops Let_def split: option.splits)

lemma holds_only_lease: "holds_only st (lease_timer st i now)"
  by (auto simp: holds_only_def hold_ops Let_def split: option.splits)

lemma holds_only_cancel: "holds_only st (cancelActiveCleanup st r now)"
  by (auto simp: holds_only_def hold_ops Let_def split: option.splits)

lemma finish_holds_wf: "holds_wf st \<Longrightarrow> holds_wf (finish_hold st i)"
  by (auto simp: holds_wf_def finish_hold_def set_hold_def Let_def split: option.splits)

lemma release_holds_wf: "holds_wf st \<Longrightarrow> holds_wf (release_hold st i now)"
  by (auto simp: holds_wf_def release_hold_def finish_hold_def set_hold_def Let_def
      split: option.splits)

lemma blocked_holds_wf: "holds_wf st \<Longrightarrow> holds_wf (cleanup_blocked st i)"
  by (auto simp: holds_wf_def cleanup_blocked_def set_hold_def split: option.splits)

lemma lease_holds_wf: "holds_wf st \<Longrightarrow> lease_armed st i \<Longrightarrow> holds_wf (lease_timer st i now)"
  by (auto simp: holds_wf_def lease_armed_def hold_ops Let_def split: option.splits)

lemma cancel_holds_wf: "holds_wf st \<Longrightarrow> holds_wf (cancelActiveCleanup st r now)"
  by (auto simp: holds_wf_def hold_ops Let_def split: option.splits)

lemma acquire_inv: "lock_inv st \<Longrightarrow> lock_inv (snd (acquire st k l c))"
  by (auto simp: lock_inv_def holds_wf_def queue_wf_def acquire_def)

lemma new_hold_wf:
  "holds_wf st \<Longrightarrow> active st = None \<Longrightarrow> makeHold st k l c now = (i, st') \<Longrightarrow>
     holds_wf (st'\<lparr>active := Some i\<rparr>)"
  unfolding holds_wf_def makeHold_def Let_def
  by clarsimp (metis Suc_n_not_le_n le_SucI option.distinct(1))

lemma holds_wf_cong:
  "holds_wf st \<Longrightarrow> holds st' = holds st \<Longrightarrow> active st' = active st \<Longrightarrow>
     holdSeq st' = holdSeq st \<Longrightarrow> holds_wf st'"
  unfolding holds_wf_def by metis

lemma holds_wf_pending [simp]: "holds_wf (st\<lparr>pendingTurns := p\<rparr>) = holds_wf st"
  by (simp add: holds_wf_def)

lemma tryAcquire_inv: "lock_inv st \<Longrightarrow> lock_inv (snd (tryAcquire st k l c now))"
proof (cases "active st \<noteq> None \<or> 0 < pendingTurns st")
  case False
  assume inv: "lock_inv st"
  obtain i st1 where mk: "makeHold st k l c now = (i, st1)" by (cases "makeHold st k l c now")
  have "holds_wf (st1\<lparr>active := Some i\<rparr>)"
    using new_hold_wf [OF _ _ mk] inv False by (simp add: lock_inv_def)
  then have "holds_wf (st1\<lparr>active := Some i, queue := queue st1 @ [UntilReleased i]\<rparr>)"
    by (rule holds_wf_cong) simp_all
  moreover have "queue_wf (st1\<lparr>active := Some i, queue := queue st1 @ [UntilReleased i]\<rparr>)"
    using mk inv by (auto simp: lock_inv_def queue_wf_def makeHold_def Let_def)
  ultimately show ?thesis using False mk by (simp add: tryAcquire_def lock_inv_def)
qed (simp add: tryAcquire_def)

lemma run_turn_inv:
  assumes "lock_inv st" and "run_turn st now = Some st'"
  shows "lock_inv st'"
proof -
  from assms(2) obtain t k l c q where q: "queue st = Turn t k l c # q" and a: "active st = None"
    by (auto simp: run_turn_def split: list.splits link.splits if_splits)
  let ?s = "st\<lparr>pendingTurns := pendingTurns st - 1\<rparr>"
  obtain i st1 where mk: "makeHold ?s k l c now = (i, st1)" by (cases "makeHold ?s k l c now")
  have st': "st' = st1\<lparr>active := Some i, queue := UntilReleased i # q, grants := grants st1 @ [t]\<rparr>"
    using assms(2) q a mk by (simp add: run_turn_def)
  have "holds_wf (st1\<lparr>active := Some i\<rparr>)"
    using new_hold_wf [OF _ _ mk] assms(1) a by (simp add: lock_inv_def)
  then have "holds_wf st'" by (rule holds_wf_cong) (simp_all add: st')
  moreover have "queue_wf st'"
    using mk assms(1) q by (auto simp: st' lock_inv_def queue_wf_def makeHold_def Let_def)
  ultimately show ?thesis by (simp add: lock_inv_def)
qed

lemma pop_link_inv: "lock_inv st \<Longrightarrow> pop_link st = Some st' \<Longrightarrow> lock_inv st'"
  by (auto simp: pop_link_def lock_inv_def queue_wf_def elim!: holds_wf_cong
      split: list.splits link.splits option.splits if_splits)

lemma holds_only_inv: "lock_inv st \<Longrightarrow> holds_only st st' \<Longrightarrow> holds_wf st' \<Longrightarrow> lock_inv st'"
  using holds_only_queue_wf by (simp add: lock_inv_def) blast

lemma lock_exec_inv:
  assumes "lock_inv st" and "lock_exec st e = Some st'"
  shows "lock_inv st'"
proof -
  have wf: "holds_wf st" using assms(1) by (simp add: lock_inv_def)
  note frame = holds_only_inv [OF assms(1)]
  show ?thesis
  proof (cases e)
    case (Acquire k l c)
    then show ?thesis using assms acquire_inv by auto
  next
    case (TryAcquire k l c now)
    then show ?thesis using assms tryAcquire_inv by auto
  next
    case (Release i now)
    then show ?thesis using assms(2) frame [OF holds_only_release release_holds_wf [OF wf]] by auto
  next
    case (CancelActive r now)
    then show ?thesis using assms(2) frame [OF holds_only_cancel cancel_holds_wf [OF wf]] by auto
  next
    case (RunTurn now)
    then show ?thesis using assms run_turn_inv by auto
  next
    case PopLink
    then show ?thesis using assms pop_link_inv by auto
  next
    case (LeaseTimer i now)
    then show ?thesis using assms(2) frame [OF holds_only_lease lease_holds_wf [OF wf]]
      by (auto split: if_splits)
  next
    case (CleanupDone i)
    then show ?thesis using assms(2) frame [OF holds_only_finish finish_holds_wf [OF wf]]
      by (auto split: if_splits)
  next
    case (CleanupBlockedEv i)
    then show ?thesis using assms(2) frame [OF holds_only_blocked blocked_holds_wf [OF wf]]
      by (auto split: if_splits)
  qed
qed

definition lock_init :: "lock_state \<Rightarrow> bool" where
  "lock_init st \<longleftrightarrow> st = createGatewayLifecycleLock"

lemma lock_init_inv: "lock_init st \<Longrightarrow> lock_inv st"
  by (simp add: lock_init_def createGatewayLifecycleLock_def lock_inv_def holds_wf_def queue_wf_def)

interpretation lifecycle: transition_system lock_init lock_step lock_inv
  by unfold_locales (auto intro: lock_init_inv lock_exec_inv elim!: lock_stepE)

lemma lock_run_inv: "lock_inv st \<Longrightarrow> lock_run st es = Some st' \<Longrightarrow> lock_inv st'"
  by (induction es arbitrary: st) (auto split: option.splits intro: lock_exec_inv)

lemma lock_run_reachable:
  "reachable lock_init lock_step st \<Longrightarrow> lock_run st es = Some st' \<Longrightarrow> reachable lock_init lock_step st'"
proof (induction es arbitrary: st)
  case (Cons e es)
  then obtain st1 where e: "lock_exec st e = Some st1" and r: "lock_run st1 es = Some st'"
    by (auto split: option.splits)
  have "reachable lock_init lock_step st1"
    by (rule reach_step [OF Cons.prems(1)]) (rule lock_step.intros [OF e])
  then show ?case using Cons.IH r by blast
qed simp

lemmas reachable_lock_inv = lifecycle.reachable_inv

section \<open>Holds in cleanup\<close>

definition held_with_cleanup :: "lock_state \<Rightarrow> nat \<Rightarrow> bool" where
  "held_with_cleanup st i \<longleftrightarrow> active st = Some i
     \<and> (case holds st i of None \<Rightarrow> False | Some h \<Rightarrow> hasCleanup h)"

lemma hold_ops_other:
  assumes "holds_wf st" and "active st = Some i" and "j \<noteq> i"
  shows "release_hold st j now = st" and "finish_hold st j = st" and "\<not> lease_armed st j"
  using assms
  by (auto simp: release_hold_def finish_hold_def lease_armed_def holds_wf_def split: option.splits)

lemma held_with_cleanup_step:
  assumes "lock_inv st" and "held_with_cleanup st i" and "lock_exec st e = Some st'"
    and "e \<noteq> CleanupDone i"
  shows "held_with_cleanup st' i \<and> grants st' = grants st"
proof -
  have wf: "holds_wf st" using assms(1) by (simp add: lock_inv_def)
  from assms(2) obtain h where a: "active st = Some i" and h: "holds st i = Some h" "hasCleanup h"
    by (auto simp: held_with_cleanup_def split: option.splits)
  note other = hold_ops_other [OF wf a]
  note defs = held_with_cleanup_def hold_ops Let_def
  show ?thesis
  proof (cases e)
    case (Release j now)
    then show ?thesis using assms(2,3) a h other(1) by (cases "j = i") (auto simp: defs)
  next
    case (LeaseTimer j now)
    then show ?thesis using assms(2,3) a h other(3) by (cases "j = i") (auto simp: defs split: if_splits)
  next
    case (CleanupDone j)
    then show ?thesis using assms(2,3,4) other(2) by (auto split: if_splits)
  next
    case (CleanupBlockedEv j)
    then show ?thesis using assms(3) a h by (auto simp: defs split: option.splits if_splits)
  next
    case (RunTurn now)
    then show ?thesis using assms(3) a by (auto simp: run_turn_def split: list.splits link.splits)
  next
    case PopLink
    then show ?thesis using assms(3) a h
      by (auto simp: pop_link_def defs split: list.splits link.splits option.splits if_splits)
  qed (use assms(3) a h in \<open>auto simp: acquire_def tryAcquire_def defs\<close>)
qed

lemma held_with_cleanup_run:
  assumes "lock_inv st" and "held_with_cleanup st i" and "lock_run st es = Some st'"
    and "CleanupDone i \<notin> set es"
  shows "held_with_cleanup st' i \<and> grants st' = grants st"
  using assms
proof (induction es arbitrary: st)
  case (Cons e es)
  then obtain st1 where e: "lock_exec st e = Some st1" and r: "lock_run st1 es = Some st'"
    by (auto split: option.splits)
  from held_with_cleanup_step [OF Cons.prems(1,2) e] Cons.prems(4)
  have "held_with_cleanup st1 i" and "grants st1 = grants st" by auto
  with Cons.IH [OF lock_exec_inv [OF Cons.prems(1) e] _ r] Cons.prems(4) show ?case by auto
qed simp

section \<open>Progress of the queue\<close>

fun internal :: "lock_event \<Rightarrow> bool" where
  "internal (RunTurn now) = True"
| "internal PopLink = True"
| "internal (LeaseTimer i now) = True"
| "internal _ = False"

fun link_weight :: "link \<Rightarrow> nat" where
  "link_weight (Turn t k l c) = 3"
| "link_weight (UntilReleased i) = 1"

definition lock_weight :: "lock_state \<Rightarrow> nat" where
  "lock_weight st = sum_list (map link_weight (queue st))
     + (case active st of None \<Rightarrow> 0 | Some i \<Rightarrow> of_bool (lease_armed st i))"

lemma link_weight_le: "link_weight l \<le> 3"
  by (cases l) auto

lemma lock_weight_le: "lock_weight st \<le> 3 * length (queue st) + 1"
proof -
  have "sum_list (map link_weight q) \<le> 3 * length q" for q
    by (induction q) (use link_weight_le in \<open>auto intro: add_mono\<close>)
  from this [of "queue st"] have "sum_list (map link_weight (queue st)) \<le> 3 * length (queue st)" .
  then show ?thesis by (auto simp: lock_weight_def add_mono split: option.splits)
qed

lemma internal_step_weight:
  assumes "lock_inv st" and "lock_exec st e = Some st'" and "internal e"
  shows "lock_weight st' < lock_weight st"
proof -
  have wf: "holds_wf st" using assms(1) by (simp add: lock_inv_def)
  show ?thesis
  proof (cases e)
    case (RunTurn now)
    then show ?thesis using assms(2)
      by (auto simp: run_turn_def makeHold_def Let_def lock_weight_def lease_armed_def
          split: list.splits link.splits if_splits)
  next
    case PopLink
    then show ?thesis using assms(2)
      by (auto simp: pop_link_def lock_weight_def lease_armed_def
          split: list.splits link.splits option.splits if_splits)
  next
    case (LeaseTimer i now)
    then obtain h where h: "holds st i = Some h" "\<not> settled h" "\<not> releasing h"
      and st': "st' = lease_timer st i now"
      using assms(2) by (auto simp: lease_armed_def split: if_splits option.splits)
    then have "active st = Some i" using wf by (auto simp: holds_wf_def)
    then show ?thesis using h
      by (auto simp: st' lock_weight_def lease_armed_def hold_ops Let_def split: option.splits)
  qed (use assms(3) in auto)
qed

lemma internal_run_weight:
  "lock_inv st \<Longrightarrow> lock_run st es = Some st' \<Longrightarrow> list_all internal es \<Longrightarrow>
     length es + lock_weight st' \<le> lock_weight st"
proof (induction es arbitrary: st)
  case (Cons e es)
  then obtain st1 where e: "lock_exec st e = Some st1" and r: "lock_run st1 es = Some st'"
    by (auto split: option.splits)
  from Cons.IH [OF lock_exec_inv [OF Cons.prems(1) e] r] internal_step_weight [OF Cons.prems(1) e]
    Cons.prems(3) show ?case by auto
qed simp


lemma internal_enabled:
  assumes "lock_inv st" and "0 < pendingTurns st"
    and "\<forall>i. active st = Some i \<longrightarrow> \<not> cleaning st i"
  shows "\<exists>e. internal e \<and> lock_exec st e \<noteq> None"
proof (cases "active st")
  case (Some i)
  then have "lease_armed st i" using assms(1,3)
    by (force simp: lock_inv_def holds_wf_def lease_armed_def cleaning_def split: option.splits)
  then show ?thesis by (intro exI [of _ "LeaseTimer i 0"]) simp
next
  case None
  from assms(1,2) have "tickets (queue st) \<noteq> []" by (auto simp: lock_inv_def queue_wf_def)
  then obtain l q where q: "queue st = l # q" by (cases "queue st") auto
  show ?thesis
  proof (cases l)
    case (Turn t k le c)
    then show ?thesis using None q
      by (intro exI [of _ "RunTurn 0"]) (simp add: run_turn_def makeHold_def Let_def)
  next
    case (UntilReleased i)
    then obtain h where "holds st i = Some h"
      using assms(1) q by (force simp: lock_inv_def queue_wf_def)
    moreover from this have "settled h" using assms(1) None by (auto simp: lock_inv_def holds_wf_def)
    ultimately show ?thesis using UntilReleased q by (intro exI [of _ PopLink]) (simp add: pop_link_def)
  qed
qed

section \<open>Properties\<close>

definition demo_lock :: "lock_event list \<Rightarrow> lock_state" where
  "demo_lock es = the (lock_run createGatewayLifecycleLock es)"

lemma demo_reachable:
  "lock_run createGatewayLifecycleLock es \<noteq> None \<Longrightarrow> reachable lock_init lock_step (demo_lock es)"
  unfolding demo_lock_def
  by (rule lock_run_reachable [OF reach_init]) (auto simp: lock_init_def)

text \<open>C7. Mutual exclusion: in every reachable state a handle whose \<open>isValid\<close> answers true is the
  owner of the lock, no other hold is unsettled, the lease of no unsettled hold but its own can
  still fire, and a background \<open>tryAcquire\<close> gets nothing.\<close>

theorem lock_mutual_exclusion:
  assumes "reachable lock_init lock_step st" and "isValid st a"
  shows "owns st (RealHandle a)
    \<and> (\<forall>b h. holds st b = Some h \<and> b \<noteq> a \<longrightarrow> settled h \<and> \<not> owns st (RealHandle b))
    \<and> fst (tryAcquire st kind lease cleanup now) = None"
proof -
  have inv: "lock_inv st" using reachable_lock_inv assms(1) .
  with assms(2) have "active st = Some a"
    by (auto simp: lock_inv_def holds_wf_def isValid_def split: option.splits)
  with inv assms(2) show ?thesis
    by (auto simp: owns_def tryAcquire_def lock_inv_def holds_wf_def)
qed

theorem lock_mutual_exclusion_witness:
  "let st = demo_lock [TryAcquire ''repair'' 60 False 0, Acquire ''restart'' 60 False,
       LeaseTimer 1 60, PopLink, RunTurn 61, Release 1 62] in
   isValid st 2 \<and> isExpired st 1 \<and> owns st (RealHandle 2) \<and> \<not> owns st (RealHandle 1)"
proof -
  let ?es = "[TryAcquire ''repair'' 60 False 0, Acquire ''restart'' 60 False,
       LeaseTimer 1 60, PopLink, RunTurn 61, Release 1 62]"
  note ev = createGatewayLifecycleLock_def tryAcquire_def acquire_def makeHold_def lease_armed_def
    hold_ops run_turn_def pop_link_def isValid_def isExpired_def Let_def numeral_2_eq_2
  have r: "reachable lock_init lock_step (demo_lock ?es)" by (rule demo_reachable) (simp add: ev)
  have v: "isValid (demo_lock ?es) 2" by (simp add: demo_lock_def ev)
  have h: "holds (demo_lock ?es) 1 \<noteq> None" by (simp add: demo_lock_def ev)
  have "isExpired (demo_lock ?es) 1" by (simp add: demo_lock_def ev)
  then show ?thesis using v h lock_mutual_exclusion [OF r v] by (auto simp: Let_def)
qed

text \<open>User acquisitions are granted in the order they were requested, each at most once, and
  none is lost: in every reachable state the granted tickets followed by the waiting ones are all
  the tickets handed out, in order. While one waits, a background \<open>tryAcquire\<close> gets nothing.\<close>

lemma lock_fifo:
  assumes "reachable lock_init lock_step st"
  shows "grants st @ tickets (queue st) = [0..<nextTicket st]
    \<and> pendingTurns st = int (length (tickets (queue st)))
    \<and> (tickets (queue st) \<noteq> [] \<longrightarrow> fst (tryAcquire st kind lease cleanup now) = None)"
  using reachable_lock_inv [OF assms] by (auto simp: lock_inv_def queue_wf_def tryAcquire_def)

text \<open>A hold with a cleanup keeps the lock until that cleanup is confirmed: whatever happens
  (release, lease expiry, cancellation, a blocked cleanup, new acquisitions), as long as its
  \<open>wait()\<close> has not resolved it stays the active hold, no waiting acquisition is granted and no
  background one gets the lock.\<close>

lemma cleanup_barrier:
  assumes "reachable lock_init lock_step st" and "active st = Some i"
    and "holds st i = Some h" and "hasCleanup h"
    and "lock_run st es = Some st'" and "CleanupDone i \<notin> set es"
  shows "active st' = Some i \<and> grants st' = grants st
    \<and> fst (tryAcquire st' kind lease cleanup now) = None"
  using held_with_cleanup_run [OF reachable_lock_inv [OF assms(1)] _ assms(5,6)] assms(2-4)
  by (auto simp: held_with_cleanup_def tryAcquire_def)

text \<open>C16. The queue cannot deadlock: from any reachable state the lock's own events (turns, links,
  lease timers) can follow each other at most \<open>3 * length (queue st) + 1\<close> times, and where they
  stop either no acquisition is waiting or the active hold is one whose cleanup is unconfirmed.\<close>

theorem lock_progress:
  assumes "reachable lock_init lock_step st" and "lock_run st es = Some st'"
    and "list_all internal es"
  shows "length es \<le> 3 * length (queue st) + 1
    \<and> ((\<forall>e. internal e \<longrightarrow> lock_exec st' e = None) \<longrightarrow>
         pendingTurns st' = 0 \<or> (\<exists>i. active st' = Some i \<and> cleaning st' i))"
proof -
  have inv: "lock_inv st" using reachable_lock_inv assms(1) .
  then have inv': "lock_inv st'" using lock_run_inv assms(2) by blast
  have "length es \<le> lock_weight st" using internal_run_weight [OF inv assms(2,3)] by simp
  then have "length es \<le> 3 * length (queue st) + 1" using lock_weight_le le_trans by blast
  moreover have "0 \<le> pendingTurns st'" using inv' by (simp add: lock_inv_def queue_wf_def)
  ultimately show ?thesis using internal_enabled [OF inv'] by force
qed

theorem lock_progress_witness:
  "lock_run (demo_lock [TryAcquire ''boot'' 60 False 0, Acquire ''restart'' 60 False])
     [LeaseTimer 1 60, PopLink, RunTurn 61] \<noteq> None
   \<and> length [LeaseTimer 1 60, PopLink, RunTurn 61]
       \<le> 3 * length (queue (demo_lock [TryAcquire ''boot'' 60 False 0, Acquire ''restart'' 60 False])) + 1"
proof -
  let ?st = "demo_lock [TryAcquire ''boot'' 60 False 0, Acquire ''restart'' 60 False]"
  let ?es = "[LeaseTimer 1 60, PopLink, RunTurn 61]"
  note ev = createGatewayLifecycleLock_def tryAcquire_def acquire_def makeHold_def lease_armed_def
    hold_ops run_turn_def pop_link_def Let_def
  have r: "reachable lock_init lock_step ?st" by (rule demo_reachable) (simp add: ev)
  obtain st' where run: "lock_run ?st ?es = Some st'" by (simp add: demo_lock_def ev)
  from lock_progress [OF r run] run show ?thesis by simp
qed

end
