(* ===== verification/Crash_Recovery.thy ===== *)
theory Crash_Recovery
  imports Prelude
begin

text \<open>
  The crash recovery coordinator (\<open>lib/server/watchdog-crash-recovery.js\<close>): a crash stays a
  recovery obligation while another lifecycle owner is busy. One record is current; each of its
  continuations (a delay that resolves, an attempt that ends) checks that it still is.

  Records and delays are kept in maps by their number, as the closures of the source keep them by
  reference. \<open>readAdmission\<close>, the outcome of \<open>attempt\<close> and the serving sequence number are inputs
  of the events; what \<open>onChange\<close> is told is the list \<open>changes\<close>.
\<close>

section \<open>State\<close>

record recovery_record =
  recSource :: string
  recCorrelation :: "string option"
  recManaged :: bool
  recServingSeq :: nat
  recCreatedAt :: int
  retryCount :: nat
  recReason :: string
  dueAt :: "int option"
  recDelay :: "nat option"
  recAborted :: "string option"

record recovery_status =
  statusSource :: string
  statusCorrelation :: "string option"
  statusCreatedAt :: int
  statusRetryCount :: nat
  statusReason :: string
  statusNextAttemptAt :: "int option"
  statusManaged :: bool

datatype recovery_change = Published nat recovery_status | Cancelled nat string

record recovery_state =
  servingSeq :: nat
  current :: "nat option"
  inFlight :: "nat option"
  recs :: "nat \<rightharpoonup> recovery_record"
  nextRec :: nat
  delays :: "nat \<rightharpoonup> nat \<times> bool"
  nextDelay :: nat
  changes :: "recovery_change list"

definition createCrashRecovery :: "nat \<Rightarrow> recovery_state" where
  "createCrashRecovery seq = \<lparr>servingSeq = seq, current = None, inFlight = None, recs = Map.empty,
     nextRec = 0, delays = Map.empty, nextDelay = 0, changes = []\<rparr>"

text \<open>What \<open>readAdmission\<close> answers, and how an \<open>attempt\<close> ends.\<close>

datatype recovery_admission = Admit | CancelWith string | DeferWith string

datatype attempt_result = RetryWith string | DoneWith "string option" | Threw

section \<open>Operations\<close>

definition isCurrent :: "recovery_state \<Rightarrow> nat \<Rightarrow> bool" where
  "isCurrent st r = (current st = Some r \<and>
     (case recs st r of None \<Rightarrow> False | Some rec \<Rightarrow> servingSeq st = recServingSeq rec))"

definition status_of :: "recovery_record \<Rightarrow> recovery_status" where
  "status_of rec = \<lparr>statusSource = recSource rec, statusCorrelation = recCorrelation rec,
     statusCreatedAt = recCreatedAt rec, statusRetryCount = retryCount rec,
     statusReason = recReason rec, statusNextAttemptAt = dueAt rec, statusManaged = recManaged rec\<rparr>"

definition describe_recovery :: "recovery_state \<Rightarrow> recovery_status option" where
  "describe_recovery st = (case current st of None \<Rightarrow> None
     | Some r \<Rightarrow> map_option status_of (recs st r))"

definition abort_delay :: "recovery_state \<Rightarrow> nat option \<Rightarrow> recovery_state" where
  "abort_delay st d = (case d of None \<Rightarrow> st | Some d \<Rightarrow>
     (case delays st d of None \<Rightarrow> st
      | Some (r, a) \<Rightarrow> st\<lparr>delays := (delays st)(d \<mapsto> (r, True))\<rparr>))"

definition set_rec :: "recovery_state \<Rightarrow> nat \<Rightarrow> recovery_record \<Rightarrow> recovery_state" where
  "set_rec st r rec = st\<lparr>recs := (recs st)(r \<mapsto> rec)\<rparr>"

definition cancel_recovery :: "recovery_state \<Rightarrow> string \<Rightarrow> recovery_state" where
  "cancel_recovery st reason =
     (case current st of None \<Rightarrow> st | Some r \<Rightarrow>
       (case recs st r of None \<Rightarrow> st | Some rec \<Rightarrow>
          (let st = st\<lparr>current := None\<rparr>;
               st = abort_delay st (recDelay rec);
               st = set_rec st r (rec\<lparr>recAborted :=
                      (case recAborted rec of None \<Rightarrow> Some reason | Some a \<Rightarrow> Some a)\<rparr>) in
           st\<lparr>changes := changes st @ [Cancelled r reason]\<rparr>)))"

definition publish :: "recovery_state \<Rightarrow> nat \<Rightarrow> recovery_state" where
  "publish st r =
     (if isCurrent st r
      then st\<lparr>changes := changes st @ [Published r (the (describe_recovery st))]\<rparr> else st)"

definition schedule_recovery :: "recovery_state \<Rightarrow> nat \<Rightarrow> int \<Rightarrow> string \<Rightarrow> int \<Rightarrow> recovery_state" where
  "schedule_recovery st r delayMs reason now =
     (case recs st r of None \<Rightarrow> st | Some rec \<Rightarrow>
       if \<not> isCurrent st r then st
       else (let st = abort_delay st (recDelay rec);
                 d = nextDelay st;
                 st = st\<lparr>delays := (delays st)(d \<mapsto> (r, False)), nextDelay := d + 1\<rparr>;
                 st = set_rec st r (rec\<lparr>recDelay := Some d, dueAt := Some (now + delayMs),
                                       recReason := reason\<rparr>) in
             publish st r))"

definition retry_delay :: "bool \<Rightarrow> nat \<Rightarrow> int" where
  "retry_delay managed n = (if managed then 10000 else min 30000 (1000 * 2 ^ min (n - 1) 5))"

definition retry_recovery :: "recovery_state \<Rightarrow> nat \<Rightarrow> string \<Rightarrow> int \<Rightarrow> recovery_state" where
  "retry_recovery st r reason now =
     (case recs st r of None \<Rightarrow> st | Some rec \<Rightarrow>
       if \<not> isCurrent st r then st
       else (let rec = rec\<lparr>retryCount := retryCount rec + 1\<rparr>;
                 st = set_rec st r rec in
             schedule_recovery st r (retry_delay (recManaged rec) (retryCount rec)) reason now))"

text \<open>\<open>run\<close> up to its \<open>await attempt(...)\<close>; the rest of it is \<open>attempt_ends\<close>.\<close>

definition run_recovery :: "recovery_state \<Rightarrow> nat \<Rightarrow> recovery_admission \<Rightarrow> int \<Rightarrow> recovery_state" where
  "run_recovery st r adm now =
     (case recs st r of None \<Rightarrow> st | Some rec \<Rightarrow>
       if \<not> isCurrent st r then st
       else (case adm of
          CancelWith reason \<Rightarrow> cancel_recovery st reason
        | DeferWith reason \<Rightarrow> retry_recovery st r reason now
        | Admit \<Rightarrow>
            if inFlight st \<noteq> None then retry_recovery st r ''operation_in_progress'' now
            else publish (set_rec (st\<lparr>inFlight := Some r\<rparr>) r (rec\<lparr>recReason := ''dispatching''\<rparr>)) r))"

definition attempt_ends :: "recovery_state \<Rightarrow> nat \<Rightarrow> attempt_result \<Rightarrow> int \<Rightarrow> recovery_state" where
  "attempt_ends st r result now =
     (let st = (case result of
            Threw \<Rightarrow> retry_recovery st r ''dispatch_failed'' now
          | RetryWith reason \<Rightarrow> if \<not> isCurrent st r then st else retry_recovery st r reason now
          | DoneWith reason \<Rightarrow> if \<not> isCurrent st r then st
              else cancel_recovery st (case reason of None \<Rightarrow> ''dispatched'' | Some s \<Rightarrow> s)) in
      if inFlight st = Some r then st\<lparr>inFlight := None\<rparr> else st)"

definition delay_resolves :: "recovery_state \<Rightarrow> nat \<Rightarrow> recovery_admission \<Rightarrow> int \<Rightarrow> recovery_state" where
  "delay_resolves st d adm now =
     (case delays st d of None \<Rightarrow> st | Some (r, aborted) \<Rightarrow>
       (let st = st\<lparr>delays := (delays st)(d := None)\<rparr> in
        case recs st r of None \<Rightarrow> st | Some rec \<Rightarrow>
          if aborted \<or> \<not> isCurrent st r then st
          else run_recovery (set_rec st r (rec\<lparr>recDelay := None, dueAt := None\<rparr>)) r adm now))"

definition same_request :: "recovery_state \<Rightarrow> string \<Rightarrow> string option \<Rightarrow> bool" where
  "same_request st source corr =
     (case current st of None \<Rightarrow> False | Some r \<Rightarrow>
       (case recs st r of None \<Rightarrow> False | Some rec \<Rightarrow>
          recServingSeq rec = servingSeq st \<and> recSource rec = source
          \<and> (recCorrelation rec = corr \<or> source = ''state_writer_conflict'')))"

definition request_recovery ::
  "recovery_state \<Rightarrow> string \<Rightarrow> string option \<Rightarrow> bool \<Rightarrow> int \<Rightarrow> recovery_admission \<Rightarrow> int \<Rightarrow> recovery_state" where
  "request_recovery st source corr managed delayMs adm now =
     (if same_request st source corr then st
      else (let st = cancel_recovery st ''superseded'';
                r = nextRec st;
                rec = \<lparr>recSource = source, recCorrelation = corr, recManaged = managed,
                       recServingSeq = servingSeq st, recCreatedAt = now, retryCount = 0,
                       recReason = ''pending'', dueAt = None, recDelay = None, recAborted = None\<rparr>;
                st = (set_rec st r rec)\<lparr>nextRec := r + 1, current := Some r\<rparr> in
            if 0 < delayMs then schedule_recovery st r delayMs ''crash_backoff'' now
            else run_recovery st r adm now))"

section \<open>Runs\<close>

datatype recovery_event =
    Request string "string option" bool int recovery_admission int
  | CancelRecovery string
  | DelayResolves nat recovery_admission int
  | AttemptEnds nat attempt_result int
  | NewServing

fun recovery_exec :: "recovery_state \<Rightarrow> recovery_event \<Rightarrow> recovery_state" where
  "recovery_exec st (Request s c m d adm now) = request_recovery st s c m d adm now"
| "recovery_exec st (CancelRecovery reason) = cancel_recovery st reason"
| "recovery_exec st (DelayResolves d adm now) = delay_resolves st d adm now"
| "recovery_exec st (AttemptEnds r result now) =
     (if inFlight st = Some r then attempt_ends st r result now else st)"
| "recovery_exec st NewServing = st\<lparr>servingSeq := servingSeq st + 1\<rparr>"

section \<open>The obligation\<close>

definition waiting_step :: "recovery_state \<Rightarrow> nat \<Rightarrow> bool" where
  "waiting_step st r = (case recs st r of None \<Rightarrow> False | Some rec \<Rightarrow>
     (case recDelay rec of None \<Rightarrow> False | Some d \<Rightarrow> delays st d = Some (r, False)))"

definition pending_step :: "recovery_state \<Rightarrow> nat \<Rightarrow> bool" where
  "pending_step st r \<longleftrightarrow> inFlight st = Some r \<or> waiting_step st r"

definition recovery_wf :: "recovery_state \<Rightarrow> bool" where
  "recovery_wf st \<longleftrightarrow> (\<forall>r. current st = Some r \<longrightarrow> recs st r \<noteq> None)
     \<and> (\<forall>d. delays st d \<noteq> None \<longrightarrow> d < nextDelay st)
     \<and> (\<forall>r. recs st r \<noteq> None \<longrightarrow> r < nextRec st)
     \<and> (\<forall>r rec. recs st r = Some rec \<longrightarrow> recServingSeq rec \<le> servingSeq st)"

definition recovery_inv :: "recovery_state \<Rightarrow> bool" where
  "recovery_inv st \<longleftrightarrow> recovery_wf st \<and> (\<forall>r. isCurrent st r \<longrightarrow> pending_step st r)"

lemmas recovery_ops = cancel_recovery_def abort_delay_def set_rec_def publish_def

lemma abort_delay_frame [simp]:
  "recs (abort_delay st d) = recs st" "current (abort_delay st d) = current st"
  "servingSeq (abort_delay st d) = servingSeq st" "inFlight (abort_delay st d) = inFlight st"
  "nextRec (abort_delay st d) = nextRec st" "nextDelay (abort_delay st d) = nextDelay st"
  by (simp_all add: abort_delay_def split: option.splits prod.splits)

lemma publish_frame [simp]:
  "recs (publish st r) = recs st" "current (publish st r) = current st"
  "servingSeq (publish st r) = servingSeq st" "inFlight (publish st r) = inFlight st"
  "nextRec (publish st r) = nextRec st" "nextDelay (publish st r) = nextDelay st"
  "delays (publish st r) = delays st"
  by (simp_all add: publish_def)

lemma set_rec_frame [simp]:
  "recs (set_rec st r rec) = (recs st)(r \<mapsto> rec)" "current (set_rec st r rec) = current st"
  "servingSeq (set_rec st r rec) = servingSeq st" "inFlight (set_rec st r rec) = inFlight st"
  "nextRec (set_rec st r rec) = nextRec st" "nextDelay (set_rec st r rec) = nextDelay st"
  "delays (set_rec st r rec) = delays st"
  by (simp_all add: set_rec_def)

lemma abort_delay_dom: "(delays (abort_delay st d) x = None) = (delays st x = None)"
  by (auto simp: abort_delay_def split: option.splits prod.splits)

lemma recovery_wf_abort: "recovery_wf (abort_delay st d) = recovery_wf st"
  by (simp add: recovery_wf_def abort_delay_dom del: not_None_eq)

lemma recovery_wf_publish [simp]: "recovery_wf (publish st r) = recovery_wf st"
  by (simp add: recovery_wf_def)

lemma recovery_wf_set_rec:
  "recovery_wf st \<Longrightarrow> recs st r = Some rec \<Longrightarrow> recServingSeq rec' = recServingSeq rec \<Longrightarrow>
     recovery_wf (set_rec st r rec')"
  by (auto simp: recovery_wf_def)

lemma cancel_recovery_wf:
  assumes "recovery_wf st"
  shows "recovery_wf (cancel_recovery st reason) \<and> current (cancel_recovery st reason) = None
    \<and> inFlight (cancel_recovery st reason) = inFlight st
    \<and> servingSeq (cancel_recovery st reason) = servingSeq st"
proof (cases "current st")
  case (Some r)
  then obtain rec where rec: "recs st r = Some rec" using assms by (auto simp: recovery_wf_def)
  have "recovery_wf (st\<lparr>current := None\<rparr>)" using assms by (simp add: recovery_wf_def)
  then have "recovery_wf (abort_delay (st\<lparr>current := None\<rparr>) (recDelay rec))"
    by (simp add: recovery_wf_abort)
  then show ?thesis using Some rec
    by (auto simp: cancel_recovery_def Let_def recovery_wf_def)
qed (use assms in \<open>simp add: cancel_recovery_def\<close>)

lemma schedule_recovery_ok:
  assumes "recovery_wf st" and "isCurrent st r"
  shows "recovery_inv (schedule_recovery st r ms reason now)
    \<and> inFlight (schedule_recovery st r ms reason now) = inFlight st
    \<and> current (schedule_recovery st r ms reason now) = Some r
    \<and> waiting_step (schedule_recovery st r ms reason now) r"
proof -
  obtain rec where rec: "recs st r = Some rec" and c: "current st = Some r"
    using assms(2) by (auto simp: isCurrent_def split: option.splits)
  let ?s0 = "abort_delay st (recDelay rec)"
  let ?s1 = "?s0\<lparr>delays := (delays ?s0)(nextDelay st \<mapsto> (r, False)), nextDelay := nextDelay st + 1\<rparr>"
  let ?s2 = "set_rec ?s1 r (rec\<lparr>recDelay := Some (nextDelay st), dueAt := Some (now + ms), recReason := reason\<rparr>)"
  have st': "schedule_recovery st r ms reason now = publish ?s2 r"
    using assms(2) rec by (simp add: schedule_recovery_def Let_def)
  have "recovery_wf ?s0" using assms(1) by (simp add: recovery_wf_abort)
  then have "recovery_wf ?s1" by (auto simp: recovery_wf_def less_Suc_eq)
  then have "recovery_wf ?s2" by (rule recovery_wf_set_rec) (use rec in simp_all)
  then show ?thesis unfolding st' recovery_inv_def using c rec
    by (auto simp: isCurrent_def pending_step_def waiting_step_def)
qed

lemma retry_recovery_ok:
  assumes "recovery_wf st" and "isCurrent st r"
  shows "recovery_inv (retry_recovery st r reason now)
    \<and> inFlight (retry_recovery st r reason now) = inFlight st
    \<and> current (retry_recovery st r reason now) = Some r
    \<and> waiting_step (retry_recovery st r reason now) r"
proof -
  obtain rec where rec: "recs st r = Some rec"
    using assms(2) by (auto simp: isCurrent_def split: option.splits)
  let ?rec = "rec\<lparr>retryCount := retryCount rec + 1\<rparr>"
  have "recovery_wf (set_rec st r ?rec)" using recovery_wf_set_rec [OF assms(1) rec] by simp
  moreover have "isCurrent (set_rec st r ?rec) r" using assms(2) rec by (simp add: isCurrent_def)
  ultimately have "recovery_inv (schedule_recovery (set_rec st r ?rec) r ms reason now)
    \<and> inFlight (schedule_recovery (set_rec st r ?rec) r ms reason now) = inFlight (set_rec st r ?rec)
    \<and> current (schedule_recovery (set_rec st r ?rec) r ms reason now) = Some r
    \<and> waiting_step (schedule_recovery (set_rec st r ?rec) r ms reason now) r" for ms
    by (rule schedule_recovery_ok)
  then show ?thesis using assms(2) rec by (simp add: retry_recovery_def Let_def)
qed

lemma cancel_recovery_ok:
  "recovery_wf st \<Longrightarrow> recovery_inv (cancel_recovery st reason)
     \<and> inFlight (cancel_recovery st reason) = inFlight st"
  using cancel_recovery_wf [of st reason] by (auto simp: recovery_inv_def isCurrent_def)

lemma run_recovery_ok:
  assumes "recovery_wf st" and "isCurrent st r"
  shows "recovery_inv (run_recovery st r adm now)
    \<and> (\<forall>q. inFlight st = Some q \<longrightarrow> inFlight (run_recovery st r adm now) = Some q)"
proof -
  obtain rec where rec: "recs st r = Some rec" and c: "current st = Some r"
    using assms(2) by (auto simp: isCurrent_def split: option.splits)
  note retry = retry_recovery_ok [OF assms] and cancel = cancel_recovery_ok [OF assms(1)]
  show ?thesis
  proof (cases "adm = Admit \<and> inFlight st = None")
    case True
    let ?s = "set_rec (st\<lparr>inFlight := Some r\<rparr>) r (rec\<lparr>recReason := ''dispatching''\<rparr>)"
    have "recovery_wf (st\<lparr>inFlight := Some r\<rparr>)" using assms(1) by (simp add: recovery_wf_def)
    then have "recovery_wf ?s" by (rule recovery_wf_set_rec) (use rec in simp_all)
    then have "recovery_inv (publish ?s r)" using c
      by (auto simp: recovery_inv_def isCurrent_def pending_step_def)
    then show ?thesis using True assms(2) rec by (simp add: run_recovery_def)
  next
    case False
    then show ?thesis using assms(2) rec retry cancel
      by (auto simp: run_recovery_def split: recovery_admission.splits)
  qed
qed

lemma delay_resolves_ok:
  assumes "recovery_inv st"
  shows "recovery_inv (delay_resolves st d adm now)
    \<and> (\<forall>q. inFlight st = Some q \<longrightarrow> inFlight (delay_resolves st d adm now) = Some q)"
proof (cases "delays st d")
  case (Some x)
  obtain r a where x: "delays st d = Some (r, a)" using Some by (cases x) simp
  let ?s = "st\<lparr>delays := (delays st)(d := None)\<rparr>"
  have wf: "recovery_wf ?s" using assms by (auto simp: recovery_inv_def recovery_wf_def)
  have cur: "isCurrent ?s q = isCurrent st q" for q by (simp add: isCurrent_def split: option.split)
  show ?thesis
  proof (cases "a \<or> \<not> isCurrent st r")
    case True
    have "waiting_step ?s q" if "isCurrent st q" "waiting_step st q" for q
      using that True x by (auto simp: waiting_step_def split: option.splits)
    then have "pending_step ?s q" if "isCurrent st q" for q
      using assms that by (auto simp: recovery_inv_def pending_step_def)
    then have "recovery_inv ?s" using wf cur by (simp add: recovery_inv_def)
    moreover have "delay_resolves st d adm now = ?s"
      using x True cur by (simp add: delay_resolves_def Let_def split: option.split)
    ultimately show ?thesis by simp
  next
    case False
    then obtain rec where rec: "recs st r = Some rec"
      by (auto simp: isCurrent_def split: option.splits)
    let ?t = "set_rec ?s r (rec\<lparr>recDelay := None, dueAt := None\<rparr>)"
    have "recovery_wf ?t" using recovery_wf_set_rec [OF wf, of r rec] rec by simp
    moreover have "isCurrent ?t r" using False rec by (simp add: isCurrent_def)
    ultimately show ?thesis using run_recovery_ok [of ?t r adm now] x False rec cur
      by (simp add: delay_resolves_def Let_def)
  qed
qed (use assms in \<open>simp add: delay_resolves_def\<close>)

lemma request_recovery_ok:
  assumes "recovery_inv st"
  shows "recovery_inv (request_recovery st s c m ms adm now)
    \<and> (\<forall>q. inFlight st = Some q \<longrightarrow> inFlight (request_recovery st s c m ms adm now) = Some q)"
proof (cases "same_request st s c")
  case False
  let ?s = "cancel_recovery st ''superseded''"
  let ?rec = "\<lparr>recSource = s, recCorrelation = c, recManaged = m, recServingSeq = servingSeq ?s,
     recCreatedAt = now, retryCount = 0, recReason = ''pending'', dueAt = None, recDelay = None,
     recAborted = None\<rparr>"
  let ?t = "(set_rec ?s (nextRec ?s) ?rec)\<lparr>nextRec := nextRec ?s + 1, current := Some (nextRec ?s)\<rparr>"
  have wf: "recovery_wf st" using assms by (simp add: recovery_inv_def)
  note c = cancel_recovery_wf [OF wf, of "''superseded''"]
  have "recovery_wf ?t" using c by (auto simp: recovery_wf_def less_Suc_eq)
  moreover have "isCurrent ?t (nextRec ?s)" by (simp add: isCurrent_def)
  ultimately show ?thesis
    using schedule_recovery_ok [of ?t "nextRec ?s" ms] run_recovery_ok [of ?t "nextRec ?s"] False c
    by (simp add: request_recovery_def Let_def)
qed (use assms in \<open>simp add: request_recovery_def\<close>)

lemma attempt_ends_ok:
  assumes "recovery_inv st" and "inFlight st = Some r"
  shows "recovery_inv (attempt_ends st r result now)"
proof -
  have wf: "recovery_wf st" using assms(1) by (simp add: recovery_inv_def)
  note defs = recovery_inv_def recovery_wf_def isCurrent_def pending_step_def waiting_step_def
  have clear: "recovery_inv (t\<lparr>inFlight := None\<rparr>)"
    if "recovery_wf t" and "\<And>q. isCurrent t q \<Longrightarrow> waiting_step t q" for t
  proof -
    have "isCurrent (t\<lparr>inFlight := None\<rparr>) q = isCurrent t q"
      "waiting_step (t\<lparr>inFlight := None\<rparr>) q = waiting_step t q" for q
      by (simp_all add: isCurrent_def waiting_step_def split: option.split)
    moreover have "recovery_wf (t\<lparr>inFlight := None\<rparr>)" using that(1) by (simp add: recovery_wf_def)
    ultimately show ?thesis using that(2) by (simp add: recovery_inv_def pending_step_def)
  qed
  show ?thesis
  proof (cases "isCurrent st r")
    case True
    note retry = retry_recovery_ok [OF wf True] and cancel = cancel_recovery_wf [OF wf]
    have "waiting_step (retry_recovery st r reason now) q"
      if "isCurrent (retry_recovery st r reason now) q" for q reason
      using that retry [of reason now] by (simp add: isCurrent_def)
    then have "recovery_inv ((retry_recovery st r reason now)\<lparr>inFlight := None\<rparr>)" for reason
      using retry [of reason now] by (intro clear) (simp_all add: recovery_inv_def)
    moreover have "recovery_inv ((cancel_recovery st reason)\<lparr>inFlight := None\<rparr>)" for reason
      using cancel by (intro clear) (auto simp: isCurrent_def)
    ultimately show ?thesis using True retry cancel assms(2)
      by (cases result) (simp_all add: attempt_ends_def Let_def)
  next
    case False
    have "recovery_inv (st\<lparr>inFlight := None\<rparr>)"
      using assms False by (intro clear wf) (auto simp: recovery_inv_def pending_step_def)
    moreover have "retry_recovery st r reason now = st" for reason
      using False by (simp add: retry_recovery_def split: option.split)
    ultimately show ?thesis using False assms(2)
      by (cases result) (simp_all add: attempt_ends_def)
  qed
qed

lemma recovery_exec_ok: "recovery_inv st \<Longrightarrow> recovery_inv (recovery_exec st e)"
proof (cases e)
  case NewServing
  assume inv: "recovery_inv st"
  have "isCurrent st q" if "isCurrent (st\<lparr>servingSeq := servingSeq st + 1\<rparr>) q" for q
    using that inv by (force simp: recovery_inv_def recovery_wf_def isCurrent_def split: option.splits)
  moreover have "waiting_step (st\<lparr>servingSeq := servingSeq st + 1\<rparr>) q = waiting_step st q" for q
    by (simp add: waiting_step_def split: option.split)
  ultimately show ?thesis using NewServing inv
    by (auto simp: recovery_inv_def recovery_wf_def pending_step_def le_SucI)
qed (auto simp: request_recovery_ok delay_resolves_ok attempt_ends_ok recovery_inv_def [of st]
    intro: cancel_recovery_ok [THEN conjunct1])

lemma recovery_initial: "recovery_inv (createCrashRecovery seq)"
  by (simp add: createCrashRecovery_def recovery_inv_def recovery_wf_def isCurrent_def)

interpretation recovery: machine recovery_exec recovery_inv "\<lambda>e. True"
  by unfold_locales (rule recovery_exec_ok)

lemma recovery_run_inv: "recovery_inv st \<Longrightarrow> recovery_inv (run recovery_exec st es)"
  by (rule recovery.run_inv) (simp_all add: list_all_iff)

text \<open>The attempt that holds the slot keeps it until it ends.\<close>

lemma in_flight_step:
  "recovery_inv st \<Longrightarrow> inFlight st = Some r \<Longrightarrow> (\<And>result now. e \<noteq> AttemptEnds r result now) \<Longrightarrow>
     inFlight (recovery_exec st e) = Some r"
  using request_recovery_ok delay_resolves_ok cancel_recovery_ok
  by (cases e) (auto simp: recovery_inv_def)

lemma in_flight_run:
  assumes "recovery_inv st" and "inFlight st = Some r"
    and "\<forall>result now. AttemptEnds r result now \<notin> set es"
  shows "inFlight (run recovery_exec st es) = Some r"
  using assms
proof (induction es arbitrary: st)
  case (Cons e es)
  then have "inFlight (recovery_exec st e) = Some r" by (intro in_flight_step) auto
  then show ?case using Cons recovery_exec_ok by simp
qed simp

lemma superseded_attempt:
  "\<not> isCurrent st r \<Longrightarrow> inFlight st = Some r \<Longrightarrow>
     attempt_ends st r result now = st\<lparr>inFlight := None\<rparr>"
  by (cases result) (simp_all add: attempt_ends_def retry_recovery_def split: option.split)

section \<open>Backoff\<close>

lemma retry_delay_doubling: "retry_delay False n = doubling 1000 30000 (n - 1)"
proof (cases "n - 1 \<le> 5")
  case False
  then have "(2::int) ^ 5 \<le> 2 ^ (n - 1)" by (intro power_increasing) auto
  then show ?thesis using False by (simp add: retry_delay_def doubling_def min_def)
qed (simp add: retry_delay_def doubling_def min_def)

interpretation recovery_backoff: backoff "doubling 1000 30000" 1000 30000
  by (rule doubling_backoff) simp_all

section \<open>Properties\<close>

text \<open>C17. A crash is never dropped silently: after any sequence of requests, cancellations, delays
  that resolve, attempts that end and new servings, a record that is still current has either its
  attempt in flight or an armed, unaborted delay that will run it again.\<close>

theorem recovery_obligation_kept:
  assumes "isCurrent (run recovery_exec (createCrashRecovery seq) es) r"
  shows "inFlight (run recovery_exec (createCrashRecovery seq) es) = Some r
    \<or> waiting_step (run recovery_exec (createCrashRecovery seq) es) r"
  using recovery_run_inv [OF recovery_initial] assms
  by (auto simp: recovery_inv_def pending_step_def)

definition demo_recovery :: "recovery_event list" where
  "demo_recovery = [Request ''exit'' None False 0 Admit 0,
     Request ''exit'' (Some ''c2'') False 0 Admit 5]"

lemmas recovery_eval = createCrashRecovery_def request_recovery_def same_request_def
  cancel_recovery_def abort_delay_def set_rec_def run_recovery_def isCurrent_def publish_def
  retry_recovery_def schedule_recovery_def Let_def

theorem recovery_obligation_kept_witness:
  "isCurrent (run recovery_exec (createCrashRecovery 1) demo_recovery) 1
   \<and> waiting_step (run recovery_exec (createCrashRecovery 1) demo_recovery) 1"
proof -
  let ?st = "run recovery_exec (createCrashRecovery 1) demo_recovery"
  have c: "isCurrent ?st 1" by (simp add: demo_recovery_def recovery_eval)
  have "inFlight ?st = Some 0" by (simp add: demo_recovery_def recovery_eval)
  then show ?thesis using c recovery_obligation_kept [OF c] by simp
qed

text \<open>At most one attempt runs at a time, and a superseded one cannot act: from any reachable
  state, the attempt in flight keeps the slot through every event but its own end, and if its
  record is no longer current by then, its end frees the slot and changes nothing else.\<close>

lemma recovery_single_dispatch:
  assumes "st = run recovery_exec (createCrashRecovery seq) before" and "inFlight st = Some r"
    and "\<forall>result now. AttemptEnds r result now \<notin> set es"
  shows "inFlight (run recovery_exec st es) = Some r
    \<and> (\<not> isCurrent (run recovery_exec st es) r \<longrightarrow>
         recovery_exec (run recovery_exec st es) (AttemptEnds r result now)
           = (run recovery_exec st es)\<lparr>inFlight := None\<rparr>)"
proof -
  have "recovery_inv st" unfolding assms(1) by (rule recovery_run_inv [OF recovery_initial])
  from in_flight_run [OF this assms(2,3)] superseded_attempt show ?thesis by simp
qed

end
