(* ===== verification/Disk_Full_Hold.thy ===== *)
theory Disk_Full_Hold
  imports Prelude
begin

text \<open>
  The watchdog's disk-full hold (\<open>lib/server/watchdog-disk-full.js\<close>): the hold, its poll timer and
  its retry timer. \<open>measure()\<close> is an input of the operations that call it, the clock is \<open>now\<close>; the
  callbacks \<open>onRecovered\<close> and \<open>onRetry\<close> are the answers of the timer operations.
\<close>

section \<open>State and operations\<close>

record disk_config =
  entryFloorBytes :: int
  resumeMarginBytes :: int
  pollMs :: int
  retryDelaysMs :: "int list"

record disk_hold =
  dir :: string
  freeBytes :: int
  entryFreeBytes :: int
  resumeAtFreeBytes :: int
  since :: int
  retries :: nat
  nextRetryAt :: "int option"

record disk_state =
  standing :: "disk_hold option"
  pollTimer :: bool
  retryTimer :: bool

definition createDiskFullHold :: disk_state where
  "createDiskFullHold = \<lparr>standing = None, pollTimer = False, retryTimer = False\<rparr>"

definition clearTimers :: "disk_state \<Rightarrow> disk_state" where
  "clearTimers st = st\<lparr>pollTimer := False, retryTimer := False\<rparr>"

definition scheduleRetry :: "disk_config \<Rightarrow> disk_state \<Rightarrow> disk_hold \<Rightarrow> int \<Rightarrow> disk_state" where
  "scheduleRetry cfg st h now =
     (let delayMs = retryDelaysMs cfg ! min (retries h) (length (retryDelaysMs cfg) - 1) in
      st\<lparr>standing := Some (h\<lparr>nextRetryAt := Some (now + delayMs)\<rparr>), retryTimer := True\<rparr>)"

definition observe :: "disk_hold \<Rightarrow> string \<times> int \<Rightarrow> disk_hold" where
  "observe h m = h\<lparr>dir := fst m, freeBytes := snd m\<rparr>"

definition poll_fires ::
  "disk_state \<Rightarrow> (string \<times> int) option \<Rightarrow> disk_hold option \<times> disk_state" where
  "poll_fires st measured =
     (let st = st\<lparr>pollTimer := False\<rparr> in
      case standing st of None \<Rightarrow> (None, st)
      | Some h \<Rightarrow>
         (case measured of
            None \<Rightarrow> (None, st\<lparr>pollTimer := True\<rparr>)
          | Some m \<Rightarrow>
             (let h = observe h m in
              if resumeAtFreeBytes h \<le> snd m
              then (Some h, clearTimers (st\<lparr>standing := None\<rparr>))
              else (None, st\<lparr>standing := Some h, pollTimer := True\<rparr>))))"

definition retry_fires :: "disk_state \<Rightarrow> disk_hold option \<times> disk_state" where
  "retry_fires st =
     (let st = st\<lparr>retryTimer := False\<rparr> in
      case standing st of None \<Rightarrow> (None, st)
      | Some h \<Rightarrow>
         (let h = h\<lparr>retries := retries h + 1, nextRetryAt := None\<rparr> in
          (Some h, st\<lparr>standing := Some h\<rparr>)))"

definition enter_hold ::
  "disk_config \<Rightarrow> disk_state \<Rightarrow> (string \<times> int) option \<Rightarrow> int
     \<Rightarrow> (disk_hold \<times> bool) option \<times> disk_state" where
  "enter_hold cfg st measured now =
     (case measured of None \<Rightarrow> (None, st)
      | Some m \<Rightarrow>
         (case standing st of
            Some h \<Rightarrow>
              (let st = scheduleRetry cfg st (observe h m) now in
               (map_option (\<lambda>h. (h, False)) (standing st), st))
          | None \<Rightarrow>
              if entryFloorBytes cfg \<le> snd m then (None, st)
              else (let h = \<lparr>dir = fst m, freeBytes = snd m, entryFreeBytes = snd m,
                             resumeAtFreeBytes = snd m + resumeMarginBytes cfg,
                             since = now, retries = 0, nextRetryAt = None\<rparr>;
                        st = scheduleRetry cfg (st\<lparr>pollTimer := True\<rparr>) h now in
                    (map_option (\<lambda>h. (h, True)) (standing st), st))))"

definition clear_hold :: "disk_state \<Rightarrow> disk_hold option \<times> disk_state" where
  "clear_hold st = (standing st, clearTimers (st\<lparr>standing := None\<rparr>))"

definition hold_active :: "disk_state \<Rightarrow> bool" where
  "hold_active st = (standing st \<noteq> None)"

section \<open>Runs and invariant\<close>

datatype disk_event =
    Enter "(string \<times> int) option" int
  | PollFires "(string \<times> int) option"
  | RetryFires
  | Clear

fun disk_exec :: "disk_config \<Rightarrow> disk_state \<Rightarrow> disk_event \<Rightarrow> disk_state" where
  "disk_exec cfg st (Enter m now) = snd (enter_hold cfg st m now)"
| "disk_exec cfg st (PollFires m) = (if pollTimer st then snd (poll_fires st m) else st)"
| "disk_exec cfg st RetryFires = (if retryTimer st then snd (retry_fires st) else st)"
| "disk_exec cfg st Clear = snd (clear_hold st)"

definition disk_inv :: "disk_config \<Rightarrow> disk_state \<Rightarrow> bool" where
  "disk_inv cfg st = (case standing st of
      None \<Rightarrow> \<not> pollTimer st \<and> \<not> retryTimer st
    | Some h \<Rightarrow> pollTimer st \<and> (retryTimer st \<longleftrightarrow> nextRetryAt h \<noteq> None)
        \<and> resumeAtFreeBytes h = entryFreeBytes h + resumeMarginBytes cfg
        \<and> entryFreeBytes h < entryFloorBytes cfg)"

lemmas disk_ops = enter_hold_def poll_fires_def retry_fires_def clear_hold_def scheduleRetry_def
  clearTimers_def observe_def Let_def

lemma disk_exec_inv: "disk_inv cfg st \<Longrightarrow> disk_inv cfg (disk_exec cfg st e)"
  by (cases e) (auto simp: disk_inv_def disk_ops split: option.splits)

interpretation disk_machine: machine "disk_exec cfg" "disk_inv cfg" "\<lambda>e. True" for cfg
  by unfold_locales (rule disk_exec_inv)

lemma disk_run_inv: "disk_inv cfg (run (disk_exec cfg) createDiskFullHold es)"
  by (rule disk_machine.run_inv) (simp_all add: createDiskFullHold_def disk_inv_def list_all_iff)

text \<open>What a step leaves of a standing hold it does not end.\<close>

lemma disk_exec_keeps:
  assumes "standing st = Some h" and "standing (disk_exec cfg st e) = Some h'"
  shows "entryFreeBytes h' = entryFreeBytes h \<and> since h' = since h \<and> retries h \<le> retries h'
    \<and> resumeAtFreeBytes h' = resumeAtFreeBytes h"
  using assms by (cases e) (auto simp: disk_ops split: option.splits if_splits)

section \<open>Properties\<close>

text \<open>The disk-full hold ends only when it should: from any state the hold can reach, an event
  that ends a standing hold is either an explicit clear or a poll that measured at least the
  margin above the free space the hold was entered with; it leaves no timer armed. Any other event
  keeps the hold with the threshold it was entered with, and keeps it polling.\<close>

lemma disk_hold_ends_only_when_space_is_back:
  assumes "st = run (disk_exec cfg) createDiskFullHold es" and "standing st = Some h"
  shows "(case standing (disk_exec cfg st e) of
      None \<Rightarrow> (e = Clear \<or> (\<exists>m. e = PollFires (Some m)
                  \<and> entryFreeBytes h + resumeMarginBytes cfg \<le> snd m))
        \<and> \<not> pollTimer (disk_exec cfg st e) \<and> \<not> retryTimer (disk_exec cfg st e)
    | Some h' \<Rightarrow> pollTimer (disk_exec cfg st e)
        \<and> resumeAtFreeBytes h' = entryFreeBytes h + resumeMarginBytes cfg
        \<and> entryFreeBytes h' < entryFloorBytes cfg \<and> since h' = since h)"
proof (cases "standing (disk_exec cfg st e)")
  case None
  have inv: "disk_inv cfg st" unfolding assms(1) by (rule disk_run_inv)
  from disk_exec_inv [OF this, of e] None
  have "\<not> pollTimer (disk_exec cfg st e) \<and> \<not> retryTimer (disk_exec cfg st e)"
    by (simp add: disk_inv_def)
  moreover have "e = Clear \<or> (\<exists>m. e = PollFires (Some m)
      \<and> entryFreeBytes h + resumeMarginBytes cfg \<le> snd m)"
    using None assms(2) inv
    by (cases e) (auto simp: disk_inv_def disk_ops split: option.splits if_splits)
  ultimately show ?thesis using None by simp
next
  case (Some h')
  have "disk_inv cfg (disk_exec cfg st e)"
    unfolding assms(1) by (rule disk_exec_inv) (rule disk_run_inv)
  with disk_exec_keeps [OF assms(2) Some] Some show ?thesis by (auto simp: disk_inv_def)
qed

definition demo_disk :: disk_config where
  "demo_disk = \<lparr>entryFloorBytes = 512, resumeMarginBytes = 256, pollMs = 30,
     retryDelaysMs = [60, 300]\<rparr>"

end
