(* ===== verification/Watchdog_Replacement.thy ===== *)
theory Watchdog_Replacement
  imports Prelude
begin

text \<open>
  The watchdog's pending replacement (\<open>lib/server/watchdog-pending-replacement.js\<close> and the
  functions of \<open>lib/server/watchdog.js\<close> that install, arm, verify and fail it): a relaunch the
  watchdog asked for is an obligation until it is verified ready, fails, is superseded or cleared.

  Pending records are mutable objects compared by identity: they live in the map \<open>pendings\<close>, and
  \<open>pendingReplacement\<close> is the id of the one that holds. The event ledger is a list of rows; of a
  row's payload the model keeps the reason and the pending it is about. One call reads the clock
  once (\<open>now\<close>). The ready budget \<open>kGatewayRestartReadyTimeoutMs\<close> comes from the environment and is
  the parameter \<open>readyTimeoutMs\<close>.
\<close>

section \<open>State\<close>

record pending_replacement =
  pendSource :: string
  pendCorrelation :: string
  pendIntent :: string
  pendAttemptId :: "string option"
  pendAttemptSeq :: nat
  generationWatermark :: "nat option"
  launcherPid :: "nat option"
  workerPid :: "nat option"
  generation :: "nat option"
  requestedAtMs :: "int option"
  deadlineMs :: "int option"
  identityObservedAt :: "int option"
  coldRestart :: bool

record ledger_row =
  rowType :: string
  rowSource :: string
  rowStatus :: string
  rowReason :: string
  rowPending :: "nat option"
  rowCorrelation :: string

record probe_run =
  runKey :: string
  runSource :: string
  runCount :: nat
  runFirstAtMs :: int
  runLastAtMs :: int

record replacement_state =
  pendings :: "nat \<rightharpoonup> pending_replacement"
  nextPending :: nat
  pendingReplacement :: "nat option"
  repairAttempts :: nat
  repairAttemptSeq :: nat
  activeRepairAttempt :: "string option"
  lastRepairVerdict :: "string option"
  awaitingAutoRepairRecovery :: bool
  crashTimestamps :: "int list"
  failedReplacement :: "string option"
  replacementCrashFingerprints :: "string list"
  servingLaunchGeneration :: "nat option"
  servingRootPid :: "nat option"
  health :: string
  degradedReason :: "string option"
  pendingProbeRun :: "probe_run option"
  lastReplacementExit :: "(int \<times> string \<times> int option) option"
  ledger :: "ledger_row list"

section \<open>Matchers\<close>

definition observePendingIdentity ::
  "pending_replacement \<Rightarrow> nat option \<Rightarrow> nat option \<Rightarrow> nat option \<Rightarrow> int \<Rightarrow> pending_replacement" where
  "observePendingIdentity p root worker gen now =
     p\<lparr>identityObservedAt := Some now,
       launcherPid := (if root \<noteq> None then root else launcherPid p),
       workerPid := (if worker \<noteq> None then worker else workerPid p),
       generation := (if gen \<noteq> None then gen else generation p)\<rparr>"

definition pendingMatchesExit ::
  "pending_replacement \<Rightarrow> nat option \<Rightarrow> nat option \<Rightarrow> nat option \<Rightarrow> bool" where
  "pendingMatchesExit p pid worker gen \<longleftrightarrow>
     pid = None
   \<or> (launcherPid p \<noteq> None \<and> (pid = launcherPid p \<or> worker = launcherPid p))
   \<or> (workerPid p \<noteq> None \<and> (pid = workerPid p \<or> worker = workerPid p))
   \<or> (gen \<noteq> None \<and> generation p \<noteq> None \<and> gen = generation p)"

definition pendingMatchesLaunch ::
  "pending_replacement \<Rightarrow> nat option \<Rightarrow> nat option \<Rightarrow> nat option \<Rightarrow> string \<Rightarrow> bool" where
  "pendingMatchesLaunch p pid root gen supervision =
     (if supervision = ''adopted'' \<or> supervision = ''detached'' then False
      else if gen \<noteq> None \<and> generation p \<noteq> None then gen = generation p
      else if gen \<noteq> None \<and> generationWatermark p \<noteq> None
              \<and> the (generationWatermark p) < the gen then True
      else (let launcher = (if root \<noteq> None then root else pid) in
            if launcher \<noteq> None \<and> launcherPid p \<noteq> None then launcher = launcherPid p
            else gen = None \<and> generation p = None \<and> generationWatermark p = None))"

section \<open>Operations\<close>

definition log_row ::
  "string \<Rightarrow> string \<Rightarrow> string \<Rightarrow> string \<Rightarrow> nat option \<Rightarrow> string
     \<Rightarrow> 'a replacement_state_scheme \<Rightarrow> 'a replacement_state_scheme" where
  "log_row ty src status reason p corr st =
     st\<lparr>ledger := ledger st @ [\<lparr>rowType = ty, rowSource = src, rowStatus = status,
          rowReason = reason, rowPending = p, rowCorrelation = corr\<rparr>]\<rparr>"

definition flushPendingProbeRun :: "'a replacement_state_scheme \<Rightarrow> 'a replacement_state_scheme" where
  "flushPendingProbeRun st =
     (case pendingProbeRun st of None \<Rightarrow> st
      | Some r \<Rightarrow>
         (let st = st\<lparr>pendingProbeRun := None\<rparr> in
          if runCount r \<le> 1 then st
          else log_row ''health_check'' (runSource r) ''ok'' ''repeated_probes'' None '''' st))"

definition countPendingProbeRow ::
  "string \<Rightarrow> string \<Rightarrow> string \<Rightarrow> int \<Rightarrow> 'a replacement_state_scheme \<Rightarrow> 'a replacement_state_scheme" where
  "countPendingProbeRow key source corr now st =
     (case pendingProbeRun st of
        Some r \<Rightarrow>
          if runKey r = key
          then st\<lparr>pendingProbeRun := Some (r\<lparr>runCount := runCount r + 1, runLastAtMs := now\<rparr>)\<rparr>
          else log_row ''health_check'' source ''ok'' key None corr
            ((flushPendingProbeRun st)\<lparr>pendingProbeRun := Some \<lparr>runKey = key, runSource = source,
               runCount = 1, runFirstAtMs = now, runLastAtMs = now\<rparr>\<rparr>)
      | None \<Rightarrow> log_row ''health_check'' source ''ok'' key None corr
            (st\<lparr>pendingProbeRun := Some \<lparr>runKey = key, runSource = source,
               runCount = 1, runFirstAtMs = now, runLastAtMs = now\<rparr>\<rparr>))"

definition noteRepairVerdict ::
  "string \<Rightarrow> string \<Rightarrow> 'a replacement_state_scheme \<Rightarrow> 'a replacement_state_scheme" where
  "noteRepairVerdict source verdict st =
     (if source = ''repair'' then st\<lparr>lastRepairVerdict := Some verdict\<rparr> else st)"

definition installPendingReplacement ::
  "string \<Rightarrow> string \<Rightarrow> string \<Rightarrow> nat option \<Rightarrow> 'a replacement_state_scheme
     \<Rightarrow> nat \<times> 'a replacement_state_scheme" where
  "installPendingReplacement source corr intent launchGeneration st =
     (let n = nextPending st;
          p = \<lparr>pendSource = source, pendCorrelation = corr, pendIntent = intent,
               pendAttemptId = (if source = ''repair'' then activeRepairAttempt st else None),
               pendAttemptSeq = repairAttemptSeq st, generationWatermark = launchGeneration,
               launcherPid = None, workerPid = None, generation = None, requestedAtMs = None,
               deadlineMs = None, identityObservedAt = None, coldRestart = False\<rparr> in
      (n, st\<lparr>nextPending := n + 1, pendings := (pendings st)(n \<mapsto> p)\<rparr>))"

definition clearPendingReplacement ::
  "nat \<Rightarrow> 'a replacement_state_scheme \<Rightarrow> 'a replacement_state_scheme" where
  "clearPendingReplacement i st =
     (if pendingReplacement st = Some i then st\<lparr>pendingReplacement := None\<rparr> else st)"

definition supersede ::
  "nat \<Rightarrow> 'a replacement_state_scheme \<Rightarrow> 'a replacement_state_scheme" where
  "supersede i st =
     (case pendingReplacement st of None \<Rightarrow> st
      | Some j \<Rightarrow>
         (case pendings st j of None \<Rightarrow> st
          | Some prior \<Rightarrow>
              if j = i then st
              else noteRepairVerdict (pendSource prior) ''replacement_superseded''
                     (log_row ''restart'' (pendSource prior) ''failed'' ''replacement_superseded''
                        (Some j) (pendCorrelation prior) st)))"

text \<open>The fields an arm fills in, and the launch that landed before it.\<close>

definition armed_pending ::
  "int \<Rightarrow> 'a replacement_state_scheme \<Rightarrow> pending_replacement \<Rightarrow> nat option \<Rightarrow> nat option
     \<Rightarrow> bool \<Rightarrow> int \<Rightarrow> pending_replacement" where
  "armed_pending readyTimeoutMs st p pid gen cold now =
     (let p = p\<lparr>launcherPid := (if pid \<noteq> None then pid else launcherPid p),
                generation := (if gen \<noteq> None then gen else generation p),
                requestedAtMs := Some now,
                deadlineMs := Some (now + readyTimeoutMs),
                coldRestart := cold\<rparr> in
      if identityObservedAt p = None \<and> generationWatermark p \<noteq> None
         \<and> servingLaunchGeneration st \<noteq> None
         \<and> the (generationWatermark p) < the (servingLaunchGeneration st)
         \<and> (generation p = None \<or> generation p = servingLaunchGeneration st)
      then observePendingIdentity
             (p\<lparr>generation := (if generation p = None then servingLaunchGeneration st
                               else generation p),
                launcherPid := (if launcherPid p = None \<and> servingRootPid st \<noteq> None
                                then servingRootPid st else launcherPid p)\<rparr>)
             None None None now
      else p)"

definition armPendingReplacement ::
  "int \<Rightarrow> nat \<Rightarrow> nat option \<Rightarrow> nat option \<Rightarrow> bool \<Rightarrow> int
     \<Rightarrow> 'a replacement_state_scheme \<Rightarrow> 'a replacement_state_scheme" where
  "armPendingReplacement readyTimeoutMs i pid gen cold now st =
     (case pendings st i of None \<Rightarrow> st
      | Some p \<Rightarrow>
         (let st = supersede i st in
          st\<lparr>pendingReplacement := Some i,
             pendings := (pendings st)(i \<mapsto> armed_pending readyTimeoutMs st p pid gen cold now)\<rparr>))"

definition resolvePendingReplacementReady ::
  "nat \<Rightarrow> 'a replacement_state_scheme \<Rightarrow> 'a replacement_state_scheme" where
  "resolvePendingReplacementReady i st =
     (case pendings st i of None \<Rightarrow> st
      | Some p \<Rightarrow>
          if pendingReplacement st \<noteq> Some i then st
          else (let st = log_row ''restart'' (pendSource p) ''ok'' ''verified'' (Some i)
                           (pendCorrelation p) st;
                    st = clearPendingReplacement i st;
                    st = flushPendingProbeRun st;
                    st = noteRepairVerdict (pendSource p) ''replacement_ready'' st in
                st\<lparr>repairAttempts := (if pendAttemptSeq p = repairAttemptSeq st then 0
                                      else repairAttempts st),
                   crashTimestamps := [], awaitingAutoRepairRecovery := False,
                   failedReplacement := None, replacementCrashFingerprints := []\<rparr>))"

definition failPendingReplacement ::
  "nat \<Rightarrow> string \<Rightarrow> string \<Rightarrow> int \<Rightarrow> 'a replacement_state_scheme \<Rightarrow> 'a replacement_state_scheme" where
  "failPendingReplacement i reason verdict now st =
     (case pendings st i of None \<Rightarrow> st
      | Some p \<Rightarrow>
          if pendingReplacement st \<noteq> Some i then st
          else (let st = log_row ''restart'' (pendSource p) ''failed'' reason (Some i)
                           (pendCorrelation p) st;
                    st = clearPendingReplacement i st;
                    st = flushPendingProbeRun st;
                    st = noteRepairVerdict (pendSource p) verdict st in
                if reason = ''replacement_exited''
                then st\<lparr>lastReplacementExit := Some (now, pendSource p,
                         map_option (\<lambda>t. now - t) (requestedAtMs p))\<rparr>
                else st))"

definition failPendingIfExitMatches ::
  "nat option \<Rightarrow> nat option \<Rightarrow> nat option \<Rightarrow> int \<Rightarrow> 'a replacement_state_scheme
     \<Rightarrow> bool \<times> 'a replacement_state_scheme" where
  "failPendingIfExitMatches pid worker gen now st =
     (case pendingReplacement st of None \<Rightarrow> (False, st)
      | Some i \<Rightarrow>
         (case pendings st i of None \<Rightarrow> (False, st)
          | Some p \<Rightarrow>
              if \<not> pendingMatchesExit p pid worker gen then (False, st)
              else (True, failPendingReplacement i ''replacement_exited'' ''replacement_failed'' now st)))"

definition markReplacementNotReady :: "'a replacement_state_scheme \<Rightarrow> 'a replacement_state_scheme" where
  "markReplacementNotReady st =
     st\<lparr>health := ''unhealthy'', degradedReason := Some ''replacement_not_ready''\<rparr>"

definition pending_record :: "'a replacement_state_scheme \<Rightarrow> pending_replacement option" where
  "pending_record st = (case pendingReplacement st of None \<Rightarrow> None | Some i \<Rightarrow> pendings st i)"

definition pendingReplacementStanding :: "'a replacement_state_scheme \<Rightarrow> int \<Rightarrow> bool" where
  "pendingReplacementStanding st now =
     (case pending_record st of None \<Rightarrow> False
      | Some p \<Rightarrow> (case deadlineMs p of None \<Rightarrow> True | Some d \<Rightarrow> now < d))"

definition evaluatePendingReplacementDeadline ::
  "int \<Rightarrow> bool \<Rightarrow> 'a replacement_state_scheme \<Rightarrow> bool \<times> 'a replacement_state_scheme" where
  "evaluatePendingReplacementDeadline now onExpired st =
     (case pendingReplacement st of None \<Rightarrow> (False, st)
      | Some i \<Rightarrow>
         (case pendings st i of None \<Rightarrow> (False, st)
          | Some p \<Rightarrow>
             (case deadlineMs p of None \<Rightarrow> (False, st)
              | Some d \<Rightarrow>
                  if now < d then (False, st)
                  else (let st = failPendingReplacement i ''replacement_not_ready''
                                   ''replacement_failed'' now st in
                        (True, if onExpired then markReplacementNotReady st else st)))))"

definition observe_pending ::
  "nat option \<Rightarrow> nat option \<Rightarrow> nat option \<Rightarrow> int \<Rightarrow> 'a replacement_state_scheme
     \<Rightarrow> 'a replacement_state_scheme" where
  "observe_pending root worker gen now st =
     (case pendingReplacement st of None \<Rightarrow> st
      | Some i \<Rightarrow>
         (case pendings st i of None \<Rightarrow> st
          | Some p \<Rightarrow> st\<lparr>pendings := (pendings st)(i \<mapsto>
                          observePendingIdentity p root worker gen now)\<rparr>))"

section \<open>Runs\<close>

datatype replacement_op =
    Install string string string "nat option"
  | Arm nat "nat option" "nat option" bool int
  | ClearPending nat
  | Ready nat
  | FailWith nat string string int
  | ExitSeen "nat option" "nat option" "nat option" int
  | Deadline int bool
  | Observe "nat option" "nat option" "nat option" int
  | ProbeRow string string string int

fun replacement_exec :: "int \<Rightarrow> replacement_state \<Rightarrow> replacement_op \<Rightarrow> replacement_state" where
  "replacement_exec T st (Install s c i g) = snd (installPendingReplacement s c i g st)"
| "replacement_exec T st (Arm i pid g cold now) = armPendingReplacement T i pid g cold now st"
| "replacement_exec T st (ClearPending i) = clearPendingReplacement i st"
| "replacement_exec T st (Ready i) = resolvePendingReplacementReady i st"
| "replacement_exec T st (FailWith i r v now) = failPendingReplacement i r v now st"
| "replacement_exec T st (ExitSeen pid w g now) = snd (failPendingIfExitMatches pid w g now st)"
| "replacement_exec T st (Deadline now b) = snd (evaluatePendingReplacementDeadline now b st)"
| "replacement_exec T st (Observe r w g now) = observe_pending r w g now st"
| "replacement_exec T st (ProbeRow k s c now) = countPendingProbeRow k s c now st"

text \<open>The pending a step books a verdict row about.\<close>

definition restart_rows :: "ledger_row list \<Rightarrow> nat list" where
  "restart_rows rows = List.map_filter rowPending rows"

definition booked :: "replacement_state \<Rightarrow> replacement_state \<Rightarrow> nat option" where
  "booked st st' = (case restart_rows (drop (length (ledger st)) (ledger st')) of
     [] \<Rightarrow> None | i # _ \<Rightarrow> Some i)"

definition replacement_act ::
  "int \<Rightarrow> replacement_state \<Rightarrow> replacement_op \<Rightarrow> replacement_state \<times> nat option" where
  "replacement_act T st e = (let st' = replacement_exec T st e in (st', booked st st'))"

fun armed_by :: "replacement_op \<Rightarrow> nat list" where
  "armed_by (Arm i pid g cold now) = [i]"
| "armed_by _ = []"

section \<open>One verdict per obligation\<close>

lemma restart_rows_simps [simp]:
  "restart_rows [] = []"
  "restart_rows (r # rows) = (case rowPending r of None \<Rightarrow> [] | Some i \<Rightarrow> [i]) @ restart_rows rows"
  "restart_rows (xs @ ys) = restart_rows xs @ restart_rows ys"
  by (simp_all add: restart_rows_def map_filter_def split: option.split)

definition flush_rows :: "'a replacement_state_scheme \<Rightarrow> ledger_row list" where
  "flush_rows st = drop (length (ledger st)) (ledger (flushPendingProbeRun st))"

lemma flush_frame [simp]:
  "pendingReplacement (flushPendingProbeRun st) = pendingReplacement st"
  "pendings (flushPendingProbeRun st) = pendings st"
  "ledger (flushPendingProbeRun st) = ledger st @ flush_rows st"
  "restart_rows (flush_rows st) = []"
  by (simp_all add: flush_rows_def flushPendingProbeRun_def log_row_def Let_def split: option.split)

lemma note_verdict [simp]:
  "pendingReplacement (noteRepairVerdict s v st) = pendingReplacement st"
  "pendings (noteRepairVerdict s v st) = pendings st"
  "ledger (noteRepairVerdict s v st) = ledger st"
  "repairAttemptSeq (noteRepairVerdict s v st) = repairAttemptSeq st"
  by (simp_all add: noteRepairVerdict_def)

lemma log_row_frame [simp]:
  "ledger (log_row a b c d e f st) = ledger st @ [\<lparr>rowType = a, rowSource = b, rowStatus = c,
     rowReason = d, rowPending = e, rowCorrelation = f\<rparr>]"
  "pendingReplacement (log_row a b c d e f st) = pendingReplacement st"
  "pendings (log_row a b c d e f st) = pendings st"
  by (simp_all add: log_row_def)

definition books :: "replacement_state \<Rightarrow> nat option \<Rightarrow> replacement_state \<Rightarrow> bool" where
  "books st r st' \<longleftrightarrow> (\<exists>rows. ledger st' = ledger st @ rows \<and>
     restart_rows rows = (case r of None \<Rightarrow> [] | Some i \<Rightarrow> [i]))"

lemma booked_books: "books st r st' \<Longrightarrow> booked st st' = r"
  by (auto simp: books_def booked_def split: option.splits)

lemma fail_books:
  "books st (if pendingReplacement st = Some i \<and> pendings st i \<noteq> None then Some i else None)
     (failPendingReplacement i reason v now st)"
  "pendingReplacement (failPendingReplacement i reason v now st)
     = (if pendingReplacement st = Some i \<and> pendings st i \<noteq> None then None else pendingReplacement st)"
  by (auto simp: books_def failPendingReplacement_def clearPendingReplacement_def Let_def
      split: option.splits)

lemma ready_books:
  "books st (if pendingReplacement st = Some i \<and> pendings st i \<noteq> None then Some i else None)
     (resolvePendingReplacementReady i st)"
  "pendingReplacement (resolvePendingReplacementReady i st)
     = (if pendingReplacement st = Some i \<and> pendings st i \<noteq> None then None else pendingReplacement st)"
  by (auto simp: books_def resolvePendingReplacementReady_def clearPendingReplacement_def
      Let_def split: option.splits)

lemma arm_books:
  "books st (case pendingReplacement st of None \<Rightarrow> None
      | Some j \<Rightarrow> if j = i \<or> pendings st i = None \<or> pendings st j = None then None else Some j)
     (armPendingReplacement T i pid g cold now st)"
  "pendingReplacement (armPendingReplacement T i pid g cold now st)
     = (if pendings st i = None then pendingReplacement st else Some i)"
  by (auto simp: books_def armPendingReplacement_def supersede_def
      Let_def split: option.splits)

lemma probe_books:
  "books st None (countPendingProbeRow k s c now st)"
  "pendingReplacement (countPendingProbeRow k s c now st) = pendingReplacement st"
  by (auto simp: books_def countPendingProbeRow_def split: option.splits)

lemma books_None: "ledger st' = ledger st \<Longrightarrow> books st None st'"
  by (simp add: books_def)

lemma replacement_cost:
  "books st (booked st (replacement_exec T st e)) (replacement_exec T st e) \<and>
   of_bool (booked st (replacement_exec T st e) = Some k)
     + of_bool (pendingReplacement (replacement_exec T st e) = Some k)
   \<le> (of_bool (pendingReplacement st = Some k) + count_list (armed_by e) k :: nat)"
proof (cases e)
  case (Install s c i g)
  have b: "books st None (replacement_exec T st e)"
    by (rule books_None) (simp add: Install installPendingReplacement_def Let_def)
  show ?thesis using b booked_books [OF b]
    by (simp add: Install installPendingReplacement_def Let_def)
next
  case (Arm i pid g cold now)
  then show ?thesis using arm_books(1) [of st i T pid g cold now] arm_books(2) [of T i pid g cold now st]
    booked_books [OF arm_books(1) [of st i T pid g cold now]]
    by (simp split: option.splits)
next
  case (ClearPending i)
  have b: "books st None (replacement_exec T st e)"
    by (rule books_None) (simp add: ClearPending clearPendingReplacement_def)
  show ?thesis using b booked_books [OF b]
    by (simp add: ClearPending clearPendingReplacement_def)
next
  case (Ready i)
  show ?thesis using ready_books(1) [of st i] ready_books(2) [of i st] booked_books [OF ready_books(1) [of st i]]
    by (auto simp: Ready)
next
  case (FailWith i r v now)
  show ?thesis using fail_books(1) [of st i r v now] fail_books(2) [of i r v now st] booked_books [OF fail_books(1) [of st i r v now]]
    by (auto simp: FailWith)
next
  case (ExitSeen pid w g now)
  show ?thesis
  proof (cases "\<exists>i p. pendingReplacement st = Some i \<and> pendings st i = Some p
      \<and> pendingMatchesExit p pid w g")
    case True
    then obtain i where x: "pendingReplacement st = Some i"
      "replacement_exec T st e = failPendingReplacement i ''replacement_exited'' ''replacement_failed'' now st"
      by (auto simp: ExitSeen failPendingIfExitMatches_def)
    show ?thesis using x fail_books(1) [of st i] fail_books(2) [of i _ _ now st]
        booked_books [OF fail_books(1) [of st i]] by simp
  next
    case False
    then have "replacement_exec T st e = st"
      by (auto simp: ExitSeen failPendingIfExitMatches_def split: option.splits)
    then show ?thesis using booked_books [OF books_None [of st st]] by (simp add: books_None)
  qed
next
  case (Deadline now b)
  show ?thesis
  proof (cases "\<exists>i p d. pendingReplacement st = Some i \<and> pendings st i = Some p
      \<and> deadlineMs p = Some d \<and> d \<le> now")
    case True
    then obtain i where i: "pendingReplacement st = Some i" "pendings st i \<noteq> None" and
      x: "pendingReplacement (replacement_exec T st e) = pendingReplacement
          (failPendingReplacement i ''replacement_not_ready'' ''replacement_failed'' now st)"
       "ledger (replacement_exec T st e) = ledger
          (failPendingReplacement i ''replacement_not_ready'' ''replacement_failed'' now st)"
      by (auto simp: Deadline evaluatePendingReplacementDeadline_def markReplacementNotReady_def Let_def)
    have b: "books st (Some i) (replacement_exec T st e)"
      using fail_books(1) [of st i "''replacement_not_ready''" "''replacement_failed''" now] i x
      by (simp add: books_def)
    then show ?thesis using booked_books [OF b] x(1) i fail_books(2) [of i _ _ now st] by simp
  next
    case False
    then have "replacement_exec T st e = st"
      by (auto simp: Deadline evaluatePendingReplacementDeadline_def Let_def split: option.splits)
    then show ?thesis using booked_books [OF books_None [of st st]] by (simp add: books_None)
  qed
next
  case (Observe r w g now)
  have b: "books st None (replacement_exec T st e)"
    by (rule books_None) (simp add: Observe observe_pending_def split: option.split)
  show ?thesis using b booked_books [OF b]
    by (simp add: Observe observe_pending_def split: option.split)
next
  case (ProbeRow k' s c now)
  show ?thesis using probe_books(1) [of st k' s c now] probe_books(2) [of k' s c now st] booked_books [OF probe_books(1) [of st k' s c now]]
    by (simp add: ProbeRow)
qed

interpretation verdicts: single_use "replacement_act T" "\<lambda>st i. pendingReplacement st = Some i"
  armed_by "\<lambda>st. True" for T
proof unfold_locales
  fix s t :: replacement_state and a r k
  assume "replacement_act T s a = (t, r)"
  then show "of_bool (r = Some k) + of_bool (pendingReplacement t = Some k)
      \<le> (of_bool (pendingReplacement s = Some k) + count_list (armed_by a) k :: nat)"
    using replacement_cost [of s T a k] by (auto simp: replacement_act_def Let_def)
qed simp

lemma replacement_run_rows:
  "restart_rows (ledger (run (replacement_exec T) st es))
     = restart_rows (ledger st) @ redeemed (replacement_act T) st es"
proof (induction es arbitrary: st)
  case (Cons e es)
  from replacement_cost [of st T e] have "books st (booked st (replacement_exec T st e)) (replacement_exec T st e)"
    by blast
  then have "restart_rows (ledger (replacement_exec T st e)) = restart_rows (ledger st)
      @ (case booked st (replacement_exec T st e) of None \<Rightarrow> [] | Some i \<Rightarrow> [i])"
    by (auto simp: books_def)
  then show ?case by (simp add: Cons.IH replacement_act_def Let_def)
qed simp

section \<open>Properties\<close>

text \<open>C18. A pending replacement is settled at most once: over any run, the ledger gains at most as
  many verdict rows (ready, failed, exited, not ready, superseded) about a replacement as it was
  armed, one fewer while it still stands; about one that was never armed it gains none.\<close>

theorem replacement_verdicts_bounded:
  assumes "pendingReplacement st \<noteq> Some i"
  shows "count_list (restart_rows (ledger (run (replacement_exec T) st es))) i
      + of_bool (pendingReplacement (run (replacement_exec T) st es) = Some i)
    \<le> count_list (restart_rows (ledger st)) i + count_list (concat (map armed_by es)) i"
proof -
  have "final_state (replacement_act T) st es = run (replacement_exec T) st es" for st
    by (induction es arbitrary: st) (simp_all add: replacement_act_def Let_def)
  with verdicts.redeemed_count [of T st es i] assms show ?thesis
    by (simp add: replacement_run_rows)
qed

definition demo_replacement :: replacement_state where
  "demo_replacement = \<lparr>pendings = Map.empty, nextPending = 0, pendingReplacement = None,
     repairAttempts = 2, repairAttemptSeq = 2, activeRepairAttempt = None, lastRepairVerdict = None,
     awaitingAutoRepairRecovery = True, crashTimestamps = [5], failedReplacement = None,
     replacementCrashFingerprints = [], servingLaunchGeneration = None, servingRootPid = None,
     health = ''unhealthy'', degradedReason = None, pendingProbeRun = None,
     lastReplacementExit = None, ledger = []\<rparr>"

definition demo_replacement_run :: "replacement_op list" where
  "demo_replacement_run = [Install ''repair'' ''c1'' ''replace'' (Some 4), Arm 0 (Some 77) (Some 5) False 10,
     ExitSeen (Some 77) None None 20, Ready 0, Deadline 999 True]"

theorem replacement_verdicts_bounded_witness:
  "restart_rows (ledger (run (replacement_exec 180) demo_replacement demo_replacement_run)) = [0]
   \<and> count_list (restart_rows (ledger (run (replacement_exec 180) demo_replacement demo_replacement_run))) 0 \<le> 1"
proof -
  have n: "pendingReplacement demo_replacement \<noteq> Some 0" by (simp add: demo_replacement_def)
  have "restart_rows (ledger (run (replacement_exec 180) demo_replacement demo_replacement_run)) = [0]"
    by (simp add: demo_replacement_def demo_replacement_run_def installPendingReplacement_def
        armPendingReplacement_def supersede_def armed_pending_def failPendingIfExitMatches_def
        pendingMatchesExit_def failPendingReplacement_def flushPendingProbeRun_def
        clearPendingReplacement_def noteRepairVerdict_def log_row_def resolvePendingReplacementReady_def
        evaluatePendingReplacementDeadline_def Let_def del: flush_frame)
  moreover have "count_list (restart_rows (ledger demo_replacement)) 0 = 0"
    "count_list (concat (map armed_by demo_replacement_run)) 0 = 1"
    by (simp_all add: demo_replacement_def demo_replacement_run_def)
  ultimately show ?thesis using replacement_verdicts_bounded [OF n, of 180 demo_replacement_run] by linarith
qed

text \<open>Only proof resets the repair budget: whatever happens, the number of repair attempts
  changes only where the standing replacement is verified ready, and only when it was installed by
  the latest attempt; it then becomes zero.\<close>

lemma repair_budget_reset_only_when_verified:
  assumes "repairAttempts (replacement_exec T st e) \<noteq> repairAttempts st"
  shows "\<exists>i p. e = Ready i \<and> pendingReplacement st = Some i \<and> pendings st i = Some p
    \<and> pendAttemptSeq p = repairAttemptSeq st \<and> repairAttempts (replacement_exec T st e) = 0
    \<and> pendingReplacement (replacement_exec T st e) = None"
proof -
  have [simp]: "repairAttempts (flushPendingProbeRun t) = repairAttempts t"
    "repairAttemptSeq (flushPendingProbeRun t) = repairAttemptSeq t"
    "repairAttempts (log_row a b c d x f t) = repairAttempts t"
    "repairAttemptSeq (log_row a b c d x f t) = repairAttemptSeq t"
    "repairAttempts (noteRepairVerdict s v t) = repairAttempts t"
    "repairAttempts (clearPendingReplacement i t) = repairAttempts t"
    "repairAttemptSeq (clearPendingReplacement i t) = repairAttemptSeq t" for t :: replacement_state and a b c d x f s v i
    by (simp_all add: flushPendingProbeRun_def log_row_def noteRepairVerdict_def
        clearPendingReplacement_def Let_def split: option.split)
  have [simp]: "repairAttempts (failPendingReplacement i r v now t) = repairAttempts t"
    for t :: replacement_state and i r v now
    by (simp add: failPendingReplacement_def Let_def split: option.split)
  show ?thesis
  proof (cases e)
    case (Ready i)
    then show ?thesis using assms ready_books(2) [of i st]
      by (auto simp: resolvePendingReplacementReady_def Let_def split: option.splits if_splits)
  qed (use assms in \<open>auto simp: installPendingReplacement_def armPendingReplacement_def supersede_def
      failPendingIfExitMatches_def evaluatePendingReplacementDeadline_def markReplacementNotReady_def
      observe_pending_def countPendingProbeRow_def Let_def split: option.splits if_splits\<close>)
qed

end
