(* ===== verification/Watchdog_Admission.thy ===== *)
theory Watchdog_Admission
  imports Watchdog_Replacement Disk_Full_Hold Crash_Recovery
begin

text \<open>
  The repair admission of \<open>lib/server/watchdog.js\<close> (\<open>decideRepairAdmission\<close> and its readers), the
  auto-repair pause it obeys, the incumbent grace, and the admission the crash recovery reads.

  Each gate of the decision tree is a function of the state that answers its refusal, if any, and
  the state it leaves; the tree runs them in the source's order. \<open>settle\<close> is the flag that makes a
  gate settle the latches it passes and book its ledger row. What the gates ask of the outside is
  the record \<open>admission_env\<close>: the clock, the installed version \<open>openclawInfo\<close> reports (\<open>None\<close> when it
  reports none), whether a pid is alive (\<open>None\<close> when the check throws). The ISO form of an instant in
  a dedupe key is written as its milliseconds.
\<close>

section \<open>State\<close>

record repair_pause =
  pauseAtMs :: int
  pauseCause :: string
  pauseFingerprint :: string
  pauseInstalledVersion :: "string option"
  pauseAttempts :: nat
  pauseReason :: string

record admission_state = replacement_state +
  autoRepairPaused :: "repair_pause option"
  pauseHealthySinceMs :: "int option"
  lastClearedPause :: "(string \<times> nat) option"
  persistedPause :: "repair_pause option"
  configurationErrorActive :: bool
  diskFullHold :: disk_state
  autoRepair :: bool
  incumbentConflict :: "(string \<times> nat option) option"
  incumbentGraceUntilMs :: "int option"
  incumbentGracePid :: "nat option"
  operationInProgress :: bool
  stopRequested :: bool
  lifecycle :: string
  expectedRestartInProgress :: bool
  expectedRestartUntilMs :: int
  crashRecovery :: recovery_state
  lastConflictRepairSkipSource :: "string option"
  lastPauseRepairSkipKey :: "string option"
  lastDiskFullRepairSkipKey :: "string option"
  lastExhaustedRepairSkipKey :: "string option"
  lastIncumbentGraceSkipKey :: "string option"
  lastRepairPendingSkipKey :: "string option"

record admission_env =
  envNow :: int
  installedVersion :: "string option"
  pidAlive :: "nat \<Rightarrow> bool option"
  kWatchdogMaxRepairAttempts :: nat
  pauseHealthHoldMs :: int

record refusal =
  refReason :: string
  refAttempts :: "(nat \<times> nat) option"
  refPause :: "repair_pause option"
  refDiskFull :: "(string \<times> int \<times> int) option"

definition refuse :: "string \<Rightarrow> refusal" where
  "refuse reason = \<lparr>refReason = reason, refAttempts = None, refPause = None, refDiskFull = None\<rparr>"

definition isTransientConflictKind :: "string \<Rightarrow> bool" where
  "isTransientConflictKind kind \<longleftrightarrow> kind \<in> {''state_writer_conflict'', ''owner_lease_held''}"

section \<open>The auto-repair pause\<close>

definition clearAutoRepairPause ::
  "string \<Rightarrow> string \<Rightarrow> string \<Rightarrow> admission_state \<Rightarrow> bool \<times> admission_state" where
  "clearAutoRepairPause reason source corr st =
     (case autoRepairPaused st of None \<Rightarrow> (False, st)
      | Some prev \<Rightarrow>
         (True, log_row ''repair'' source ''ok'' reason None corr
            (st\<lparr>autoRepairPaused := None, pauseHealthySinceMs := None,
                replacementCrashFingerprints := [],
                lastClearedPause := Some (pauseFingerprint prev, pauseAttempts prev),
                persistedPause := None\<rparr>)))"

definition other_version :: "repair_pause \<Rightarrow> string option \<Rightarrow> bool" where
  "other_version pause installed \<longleftrightarrow>
     pauseInstalledVersion pause \<noteq> None \<and> installed \<noteq> None \<and> installed \<noteq> pauseInstalledVersion pause"

definition observePauseScope :: "string option \<Rightarrow> admission_state \<Rightarrow> bool \<times> admission_state" where
  "observePauseScope installed st =
     (case autoRepairPaused st of None \<Rightarrow> (False, st)
      | Some pause \<Rightarrow>
          if \<not> other_version pause installed then (False, st)
          else clearAutoRepairPause ''installed_version_changed'' ''runtime'' '''' st)"

definition autoRepairPauseActive :: "admission_env \<Rightarrow> admission_state \<Rightarrow> bool \<times> admission_state" where
  "autoRepairPauseActive env st =
     (if autoRepairPaused st = None then (False, st)
      else (let st = snd (observePauseScope (installedVersion env) st) in
            (autoRepairPaused st \<noteq> None, st)))"

definition autoRepairPauseStanding :: "admission_env \<Rightarrow> admission_state \<Rightarrow> bool" where
  "autoRepairPauseStanding env st =
     (case autoRepairPaused st of None \<Rightarrow> False
      | Some pause \<Rightarrow> \<not> other_version pause (installedVersion env))"

definition notePauseHealthyTick :: "admission_env \<Rightarrow> admission_state \<Rightarrow> admission_state" where
  "notePauseHealthyTick env st =
     (if autoRepairPaused st = None then st
      else (case pauseHealthySinceMs st of
          None \<Rightarrow> st\<lparr>pauseHealthySinceMs := Some (envNow env)\<rparr>
        | Some t \<Rightarrow>
            if pauseHealthHoldMs env \<le> envNow env - t
            then snd (clearAutoRepairPause ''healthy_acceptance'' ''health_check'' '''' st) else st))"

definition notePauseUnhealthy :: "admission_state \<Rightarrow> admission_state" where
  "notePauseUnhealthy st = st\<lparr>pauseHealthySinceMs := None\<rparr>"

definition prior_attempts :: "admission_state \<Rightarrow> string \<Rightarrow> nat" where
  "prior_attempts st fingerprint =
     (case autoRepairPaused st of
        Some p \<Rightarrow> if pauseFingerprint p = fingerprint then pauseAttempts p
          else (case lastClearedPause st of Some (f, n) \<Rightarrow> if f = fingerprint then n else 0 | None \<Rightarrow> 0)
      | None \<Rightarrow>
          (case lastClearedPause st of Some (f, n) \<Rightarrow> if f = fingerprint then n else 0 | None \<Rightarrow> 0))"

definition latchAutoRepairPause ::
  "admission_env \<Rightarrow> string \<Rightarrow> string \<Rightarrow> string \<Rightarrow> string \<Rightarrow> string \<Rightarrow> admission_state \<Rightarrow> admission_state" where
  "latchAutoRepairPause env cause fingerprint reason source corr st =
     (let p = \<lparr>pauseAtMs = envNow env, pauseCause = cause, pauseFingerprint = fingerprint,
               pauseInstalledVersion = installedVersion env,
               pauseAttempts = prior_attempts st fingerprint + 1, pauseReason = reason\<rparr> in
      log_row ''auto_repair_paused'' source ''failed'' reason None corr
        (st\<lparr>autoRepairPaused := Some p,
            crashRecovery := cancel_recovery (crashRecovery st) ''auto_repair_paused'',
            pauseHealthySinceMs := None, persistedPause := Some p\<rparr>))"

text \<open>The pause read from disk when the watchdog is constructed; the disk copy is dropped when it
  names another installed version.\<close>

definition rearmPersistedPause :: "admission_env \<Rightarrow> admission_state \<Rightarrow> admission_state" where
  "rearmPersistedPause env st =
     (case persistedPause st of None \<Rightarrow> st
      | Some pause \<Rightarrow>
          if other_version pause (installedVersion env) then st\<lparr>persistedPause := None\<rparr>
          else log_row ''repair'' ''structural_repair'' ''skipped'' ''auto_repair_paused'' None ''''
            (st\<lparr>autoRepairPaused := Some (pause\<lparr>pauseAtMs :=
                  (if pauseAtMs pause = 0 then envNow env else pauseAtMs pause)\<rparr>)\<rparr>))"

section \<open>The incumbent grace\<close>

definition pidGone :: "admission_env \<Rightarrow> nat option \<Rightarrow> bool" where
  "pidGone env pid = (case pid of None \<Rightarrow> False | Some p \<Rightarrow> pidAlive env p = Some False)"

definition grace_open :: "admission_env \<Rightarrow> admission_state \<Rightarrow> bool" where
  "grace_open env st = (case incumbentGraceUntilMs st of None \<Rightarrow> False
     | Some u \<Rightarrow> u \<noteq> 0 \<and> envNow env < u)"

definition incumbentGraceStanding :: "admission_env \<Rightarrow> admission_state \<Rightarrow> bool" where
  "incumbentGraceStanding env st \<longleftrightarrow> grace_open env st \<and> \<not> pidGone env (incumbentGracePid st)"

definition incumbentGraceActive :: "admission_env \<Rightarrow> admission_state \<Rightarrow> bool \<times> admission_state" where
  "incumbentGraceActive env st =
     (if \<not> grace_open env st then (False, st)
      else if pidGone env (incumbentGracePid st)
      then (False, st\<lparr>incumbentGraceUntilMs := None, incumbentGracePid := None\<rparr>)
      else (True, st))"

section \<open>The gates\<close>

type_synonym gate = "admission_state \<Rightarrow> refusal option \<times> admission_state"

definition skip_row :: "string \<Rightarrow> string \<Rightarrow> string \<Rightarrow> admission_state \<Rightarrow> admission_state" where
  "skip_row source reason corr = log_row ''repair'' source ''skipped'' reason None corr"

definition gate_pause :: "admission_env \<Rightarrow> bool \<Rightarrow> string \<Rightarrow> string \<Rightarrow> gate" where
  "gate_pause env settle source corr st =
     (let (paused, st) = (if settle then autoRepairPauseActive env st
                          else (autoRepairPauseStanding env st, st)) in
      case autoRepairPaused st of
        None \<Rightarrow> (None, st)
      | Some pause \<Rightarrow>
          if \<not> paused then (None, st)
          else (let key = source @ '':auto_repair_paused:'' @ pauseFingerprint pause in
            (Some ((refuse ''auto_repair_paused'')\<lparr>refPause := Some pause\<rparr>),
             if settle \<and> (source = ''manual'' \<or> lastPauseRepairSkipKey st \<noteq> Some key)
             then skip_row source ''auto_repair_paused'' corr (st\<lparr>lastPauseRepairSkipKey := Some key\<rparr>)
             else st)))"

definition gate_configuration :: "bool \<Rightarrow> gate" where
  "gate_configuration force st =
     (if configurationErrorActive st \<and> \<not> force then Some (refuse ''configuration_error'') else None, st)"

definition gate_disk :: "bool \<Rightarrow> string \<Rightarrow> string \<Rightarrow> bool \<Rightarrow> gate" where
  "gate_disk settle source corr force st =
     (case standing (diskFullHold st) of
        None \<Rightarrow> (None, st)
      | Some h \<Rightarrow>
          if force then (None, st)
          else (let key = source @ '':'' @ string_of_int (since h) in
            (Some ((refuse ''disk_full'')\<lparr>refDiskFull :=
                     Some (dir h, freeBytes h, resumeAtFreeBytes h)\<rparr>),
             if settle \<and> lastDiskFullRepairSkipKey st \<noteq> Some key
             then skip_row source ''disk_full'' corr (st\<lparr>lastDiskFullRepairSkipKey := Some key\<rparr>)
             else st)))"

definition gate_enabled :: "bool \<Rightarrow> gate" where
  "gate_enabled force st =
     (if \<not> force \<and> \<not> autoRepair st then Some (refuse ''auto_repair_disabled'') else None, st)"

definition gate_awaiting :: "bool \<Rightarrow> gate" where
  "gate_awaiting force st =
     (if \<not> force \<and> awaitingAutoRepairRecovery st then Some (refuse ''awaiting_health_recovery'')
      else None, st)"

definition gate_exhausted :: "admission_env \<Rightarrow> bool \<Rightarrow> string \<Rightarrow> string \<Rightarrow> bool \<Rightarrow> gate" where
  "gate_exhausted env settle source corr force st =
     (if force \<or> repairAttempts st < kWatchdogMaxRepairAttempts env then (None, st)
      else (let key = source @ '':'' @ string_of_int (int (repairAttempts st)) in
        (Some ((refuse ''repair_attempts_exhausted'')\<lparr>refAttempts :=
                 Some (repairAttempts st, kWatchdogMaxRepairAttempts env)\<rparr>),
         if settle \<and> lastExhaustedRepairSkipKey st \<noteq> Some key
         then skip_row source ''repair_attempts_exhausted'' corr
                (st\<lparr>lastExhaustedRepairSkipKey := Some key\<rparr>)
         else st)))"

definition gate_conflict :: "bool \<Rightarrow> string \<Rightarrow> string \<Rightarrow> bool \<Rightarrow> gate" where
  "gate_conflict settle source corr force st =
     (let kind = (case incumbentConflict st of None \<Rightarrow> '''' | Some (k, holder) \<Rightarrow> k) in
      if \<not> force \<and> isTransientConflictKind kind
      then (Some (refuse kind),
            if settle \<and> lastConflictRepairSkipSource st \<noteq> Some source
            then skip_row source kind corr (st\<lparr>lastConflictRepairSkipSource := Some source\<rparr>)
            else st)
      else (None, if settle then st\<lparr>lastConflictRepairSkipSource := None\<rparr> else st))"

definition gate_grace :: "admission_env \<Rightarrow> bool \<Rightarrow> string \<Rightarrow> string \<Rightarrow> bool \<Rightarrow> gate" where
  "gate_grace env settle source corr force st =
     (if force then (None, st)
      else (let (stands, st) = (if settle then incumbentGraceActive env st
                                else (incumbentGraceStanding env st, st)) in
            if \<not> stands then (None, st)
            else (let key = string_of_int (the (incumbentGraceUntilMs st)) in
              (Some (refuse ''incumbent_startup_grace''),
               if settle \<and> lastIncumbentGraceSkipKey st \<noteq> Some key
               then skip_row source ''incumbent_startup_grace'' corr
                      (st\<lparr>lastIncumbentGraceSkipKey := Some key\<rparr>)
               else st))))"

definition gate_operation :: gate where
  "gate_operation st =
     (if operationInProgress st then Some (refuse ''operation_in_progress'') else None, st)"

definition gate_deadline :: "admission_env \<Rightarrow> bool \<Rightarrow> gate" where
  "gate_deadline env settle st =
     (None, if settle then snd (evaluatePendingReplacementDeadline (envNow env) True st) else st)"

definition gate_pending :: "admission_env \<Rightarrow> bool \<Rightarrow> string \<Rightarrow> string \<Rightarrow> bool \<Rightarrow> gate" where
  "gate_pending env settle source corr force st =
     (case pending_record st of
        None \<Rightarrow> (None, if settle then st\<lparr>lastRepairPendingSkipKey := None\<rparr> else st)
      | Some p \<Rightarrow>
          if force \<or> \<not> pendingReplacementStanding st (envNow env)
          then (None, if settle then st\<lparr>lastRepairPendingSkipKey := None\<rparr> else st)
          else (let key = source @ '':'' @ pendSource p @ '':'' @
                    (case requestedAtMs p of None \<Rightarrow> '''' | Some t \<Rightarrow> string_of_int t) in
            (Some (refuse ''replacement_pending''),
             if settle \<and> lastRepairPendingSkipKey st \<noteq> Some key
             then skip_row source ''replacement_pending'' corr (st\<lparr>lastRepairPendingSkipKey := Some key\<rparr>)
             else st)))"

section \<open>The decision tree and its readers\<close>

fun run_gates :: "gate list \<Rightarrow> gate" where
  "run_gates [] st = (None, st)"
| "run_gates (g # gs) st =
     (let (r, st) = g st in case r of Some x \<Rightarrow> (Some x, st) | None \<Rightarrow> run_gates gs st)"

definition decideRepairAdmission ::
  "admission_env \<Rightarrow> string \<Rightarrow> string \<Rightarrow> bool \<Rightarrow> bool \<Rightarrow> gate" where
  "decideRepairAdmission env source corr force settle =
     run_gates [gate_pause env settle source corr, gate_configuration force,
       gate_disk settle source corr force, gate_enabled force, gate_awaiting force,
       gate_exhausted env settle source corr force, gate_conflict settle source corr force,
       gate_grace env settle source corr force, gate_operation, gate_deadline env settle,
       gate_pending env settle source corr force]"

definition operator_resume :: "admission_env \<Rightarrow> string \<Rightarrow> string \<Rightarrow> admission_state \<Rightarrow> admission_state" where
  "operator_resume env source corr st =
     (let (active, st) = autoRepairPauseActive env st in
      if active then snd (clearAutoRepairPause ''operator_resume'' source corr st) else st)"

definition readRepairAdmission ::
  "admission_env \<Rightarrow> string \<Rightarrow> string \<Rightarrow> bool \<Rightarrow> bool \<Rightarrow> gate" where
  "readRepairAdmission env source corr force resumePaused st =
     decideRepairAdmission env source corr force True
       (if resumePaused then operator_resume env source corr st else st)"

definition peekRepairAdmission :: "admission_env \<Rightarrow> admission_state \<Rightarrow> refusal option" where
  "peekRepairAdmission env st =
     fst (decideRepairAdmission env ''restart_failure_preview'' '''' False False st)"

text \<open>The admission the crash recovery reads before each attempt.\<close>

definition crash_admission ::
  "admission_env \<Rightarrow> string \<Rightarrow> bool \<Rightarrow> admission_state \<Rightarrow> recovery_admission \<times> admission_state" where
  "crash_admission env source handoff st =
     (if stopRequested st then (CancelWith ''stopped'', st)
      else (let (paused, st) = autoRepairPauseActive env st in
        if paused then (CancelWith ''auto_repair_paused'', st)
        else if configurationErrorActive st then (CancelWith ''configuration_error'', st)
        else if hold_active (diskFullHold st)
                \<and> source \<notin> {''disk_full_retry'', ''disk_space_recovered''}
        then (CancelWith ''disk_full'', st)
        else if lifecycle st = ''crash_loop'' then (CancelWith ''crash_loop'', st)
        else if operationInProgress st then (DeferWith ''operation_in_progress'', st)
        else if pendingReplacement st \<noteq> None then (DeferWith ''replacement_pending'', st)
        else if \<not> handoff \<and> expectedRestartInProgress st \<and> envNow env < expectedRestartUntilMs st
        then (DeferWith ''expected_restart'', st)
        else (Admit, st)))"

section \<open>The verdict\<close>

text \<open>What each gate answers, as a function of the state the tree starts from.\<close>

definition v_pause :: "admission_env \<Rightarrow> admission_state \<Rightarrow> refusal option" where
  "v_pause env st = (if autoRepairPauseStanding env st
     then Some ((refuse ''auto_repair_paused'')\<lparr>refPause := autoRepairPaused st\<rparr>) else None)"

definition v_disk :: "bool \<Rightarrow> admission_state \<Rightarrow> refusal option" where
  "v_disk force st = (case standing (diskFullHold st) of None \<Rightarrow> None
     | Some h \<Rightarrow> if force then None else Some ((refuse ''disk_full'')\<lparr>refDiskFull :=
         Some (dir h, freeBytes h, resumeAtFreeBytes h)\<rparr>))"

definition v_exhausted :: "admission_env \<Rightarrow> bool \<Rightarrow> admission_state \<Rightarrow> refusal option" where
  "v_exhausted env force st =
     (if force \<or> repairAttempts st < kWatchdogMaxRepairAttempts env then None
      else Some ((refuse ''repair_attempts_exhausted'')\<lparr>refAttempts :=
             Some (repairAttempts st, kWatchdogMaxRepairAttempts env)\<rparr>))"

definition conflict_kind :: "admission_state \<Rightarrow> string" where
  "conflict_kind st = (case incumbentConflict st of None \<Rightarrow> '''' | Some (k, holder) \<Rightarrow> k)"

definition v_conflict :: "bool \<Rightarrow> admission_state \<Rightarrow> refusal option" where
  "v_conflict force st = (if \<not> force \<and> isTransientConflictKind (conflict_kind st)
     then Some (refuse (conflict_kind st)) else None)"

definition v_grace :: "admission_env \<Rightarrow> bool \<Rightarrow> admission_state \<Rightarrow> refusal option" where
  "v_grace env force st = (if \<not> force \<and> incumbentGraceStanding env st
     then Some (refuse ''incumbent_startup_grace'') else None)"

definition v_pending :: "admission_env \<Rightarrow> bool \<Rightarrow> admission_state \<Rightarrow> refusal option" where
  "v_pending env force st = (if \<not> force \<and> pendingReplacementStanding st (envNow env)
     then Some (refuse ''replacement_pending'') else None)"

definition verdicts_of :: "admission_env \<Rightarrow> bool \<Rightarrow> (admission_state \<Rightarrow> refusal option) list" where
  "verdicts_of env force =
     [v_pause env, fst \<circ> gate_configuration force, v_disk force, fst \<circ> gate_enabled force,
      fst \<circ> gate_awaiting force, v_exhausted env force, v_conflict force, v_grace env force,
      fst \<circ> gate_operation, (\<lambda>st. None), v_pending env force]"

fun first_refusal :: "(admission_state \<Rightarrow> refusal option) list \<Rightarrow> admission_state \<Rightarrow> refusal option" where
  "first_refusal [] st = None"
| "first_refusal (v # vs) st = (case v st of Some x \<Rightarrow> Some x | None \<Rightarrow> first_refusal vs st)"

fun gates_ok :: "gate list \<Rightarrow> (admission_state \<Rightarrow> refusal option) list \<Rightarrow> bool" where
  "gates_ok [] [] = True"
| "gates_ok (g # gs) (v # vs) =
     ((\<forall>st. fst (g st) = v st) \<and> (\<forall>st. v st = None \<longrightarrow> (\<forall>w \<in> set vs. w (snd (g st)) = w st))
      \<and> gates_ok gs vs)"
| "gates_ok _ _ = False"

lemma first_refusal_cong: "\<forall>w \<in> set vs. w st' = w st \<Longrightarrow> first_refusal vs st' = first_refusal vs st"
  by (induction vs) (auto split: option.split)

lemma run_gates_verdict: "gates_ok gs vs \<Longrightarrow> fst (run_gates gs st) = first_refusal vs st"
proof (induction gs vs arbitrary: st rule: gates_ok.induct)
  case (2 g gs v vs)
  then have "fst (g st) = v st" and "v st = None \<Longrightarrow> \<forall>w \<in> set vs. w (snd (g st)) = w st" by auto
  moreover obtain r st' where "g st = (r, st')" by (cases "g st")
  ultimately show ?case using 2 first_refusal_cong [of vs "snd (g st)" st]
    by (cases "v st") auto
qed auto

text \<open>The fields the gates read, and what a gate that passes leaves of them.\<close>

definition view :: "admission_state \<Rightarrow> _" where
  "view st = (configurationErrorActive st, diskFullHold st, autoRepair st,
     awaitingAutoRepairRecovery st, repairAttempts st, incumbentConflict st,
     operationInProgress st)"

definition grace_view :: "admission_state \<Rightarrow> _" where
  "grace_view st = (incumbentGraceUntilMs st, incumbentGracePid st)"

definition pending_view :: "admission_state \<Rightarrow> _" where
  "pending_view st = (pendings st, pendingReplacement st)"

lemmas pause_ops = autoRepairPauseActive_def observePauseScope_def clearAutoRepairPause_def
  autoRepairPauseStanding_def log_row_def Let_def

lemma pause_active:
  "fst (autoRepairPauseActive env st) = autoRepairPauseStanding env st"
  "autoRepairPaused (snd (autoRepairPauseActive env st))
     = (if autoRepairPauseStanding env st then autoRepairPaused st else None)"
  "view (snd (autoRepairPauseActive env st)) = view st"
  "grace_view (snd (autoRepairPauseActive env st)) = grace_view st"
  "pending_view (snd (autoRepairPauseActive env st)) = pending_view st"
  by (auto simp: pause_ops view_def grace_view_def pending_view_def split: option.split)

lemma gate_pause_verdict: "fst (gate_pause env s src c st) = v_pause env st"
  using pause_active(1,2) [of env st]
  by (auto simp: gate_pause_def v_pause_def autoRepairPauseStanding_def Let_def
      split: prod.splits option.splits)

lemma gate_pause_views:
  "v_pause env st = None \<Longrightarrow> view (snd (gate_pause env s src c st)) = view st
     \<and> grace_view (snd (gate_pause env s src c st)) = grace_view st
     \<and> pending_view (snd (gate_pause env s src c st)) = pending_view st"
  using pause_active [of env st]
  by (auto simp: gate_pause_def v_pause_def autoRepairPauseStanding_def Let_def
      split: prod.splits option.splits if_splits)

lemma gate_conflict_views:
  "v_conflict force st = None \<Longrightarrow> view (snd (gate_conflict s src c force st)) = view st
     \<and> grace_view (snd (gate_conflict s src c force st)) = grace_view st
     \<and> pending_view (snd (gate_conflict s src c force st)) = pending_view st"
  by (auto simp: gate_conflict_def v_conflict_def conflict_kind_def view_def grace_view_def
      pending_view_def Let_def)

lemma gate_grace_verdict: "fst (gate_grace env s src c force st) = v_grace env force st"
  by (auto simp: gate_grace_def v_grace_def incumbentGraceActive_def incumbentGraceStanding_def Let_def)

lemma gate_grace_views:
  "v_grace env force st = None \<Longrightarrow> view (snd (gate_grace env s src c force st)) = view st
     \<and> pending_view (snd (gate_grace env s src c force st)) = pending_view st"
  by (auto simp: gate_grace_def v_grace_def incumbentGraceActive_def incumbentGraceStanding_def
      view_def pending_view_def Let_def)

lemma deadline_pending:
  "pendingReplacementStanding (snd (evaluatePendingReplacementDeadline now b st)) now
     = pendingReplacementStanding st now"
  by (auto simp: evaluatePendingReplacementDeadline_def pendingReplacementStanding_def
      pending_record_def failPendingReplacement_def flushPendingProbeRun_def log_row_def
      clearPendingReplacement_def noteRepairVerdict_def markReplacementNotReady_def Let_def
      split: option.splits)

lemma decide_gates_ok:
  "gates_ok [gate_pause env s src c, gate_configuration force,
       gate_disk s src c force, gate_enabled force, gate_awaiting force,
       gate_exhausted env s src c force, gate_conflict s src c force,
       gate_grace env s src c force, gate_operation, gate_deadline env s,
       gate_pending env s src c force] (verdicts_of env force)"
proof -
  have vp: "v_pending env force st = v_pending env force st'"
    if "pending_view st = pending_view st'" for st st'
    using that by (auto simp: v_pending_def pendingReplacementStanding_def pending_record_def
        pending_view_def split: option.splits)
  have vg: "v_grace env force st = v_grace env force st'"
    if "grace_view st = grace_view st'" for st st'
    using that by (auto simp: v_grace_def incumbentGraceStanding_def grace_open_def grace_view_def
        split: option.splits)
  have vv: "fst (gate_configuration force st) = fst (gate_configuration force st')"
    "v_disk force st = v_disk force st'" "fst (gate_enabled force st) = fst (gate_enabled force st')"
    "fst (gate_awaiting force st) = fst (gate_awaiting force st')"
    "v_exhausted env force st = v_exhausted env force st'" "v_conflict force st = v_conflict force st'"
    "fst (gate_operation st) = fst (gate_operation st')"
    if "view st = view st'" for st st'
    using that by (simp_all add: view_def gate_configuration_def v_disk_def gate_enabled_def
        gate_awaiting_def v_exhausted_def v_conflict_def conflict_kind_def gate_operation_def)
  have pass: "snd (gate_configuration force st) = st" "snd (gate_enabled force st) = st"
    "snd (gate_awaiting force st) = st" "snd (gate_operation st) = st"
    "v_disk force st = None \<Longrightarrow> snd (gate_disk s src c force st) = st"
    "v_exhausted env force st = None \<Longrightarrow> snd (gate_exhausted env s src c force st) = st" for st
    by (auto simp: gate_configuration_def gate_enabled_def gate_awaiting_def gate_operation_def
        v_disk_def gate_disk_def v_exhausted_def gate_exhausted_def Let_def split: option.splits if_splits)
  have d: "v_pending env force (snd (gate_deadline env s st)) = v_pending env force st" for st
    using deadline_pending [of "envNow env" True st] by (simp add: gate_deadline_def v_pending_def)
  have verdict: "fst (gate_disk s src c force st) = v_disk force st"
    "fst (gate_exhausted env s src c force st) = v_exhausted env force st"
    "fst (gate_conflict s src c force st) = v_conflict force st"
    "fst (gate_pending env s src c force st) = v_pending env force st"
    "fst (gate_deadline env s st) = None" for st
    by (auto simp: gate_disk_def v_disk_def gate_exhausted_def v_exhausted_def gate_conflict_def
        v_conflict_def conflict_kind_def gate_pending_def v_pending_def gate_deadline_def
        pendingReplacementStanding_def Let_def split: option.splits)
  note cv = gate_conflict_views [where s = s and src = src and c = c and force = force]
  note gv = gate_grace_views [where s = s and src = src and c = c and force = force and env = env]
  note pv = gate_pause_views [where s = s and src = src and c = c and env = env]
  have p: "view (snd (gate_pause env s src c st)) = view st"
    "grace_view (snd (gate_pause env s src c st)) = grace_view st"
    "pending_view (snd (gate_pause env s src c st)) = pending_view st" if "v_pause env st = None" for st
    using pv that by blast+
  have q: "view (snd (gate_conflict s src c force st)) = view st"
    "grace_view (snd (gate_conflict s src c force st)) = grace_view st"
    "pending_view (snd (gate_conflict s src c force st)) = pending_view st"
    if "v_conflict force st = None" for st
    using cv that by blast+
  have r: "view (snd (gate_grace env s src c force st)) = view st"
    "pending_view (snd (gate_grace env s src c force st)) = pending_view st"
    if "v_grace env force st = None" for st
    using gv that by blast+
  show ?thesis
    by (simp add: verdicts_of_def pass verdict gate_pause_verdict gate_grace_verdict d
        vv [OF p(1)] vg [OF p(2)] vp [OF p(3)] vg [OF q(2)] vv(7) [OF q(1)] vp [OF q(3)]
        vv(7) [OF r(1)] vp [OF r(2)])
qed

lemma decide_verdict:
  "fst (decideRepairAdmission env source corr force settle st) = first_refusal (verdicts_of env force) st"
  unfolding decideRepairAdmission_def by (rule run_gates_verdict [OF decide_gates_ok])

section \<open>Reading twice\<close>

text \<open>A gate that ran leaves a state it would answer the same in and leave as it is; and a gate that
  passes without an effect still does after the gates behind it ran.\<close>

fun gates_idem :: "gate list \<Rightarrow> bool" where
  "gates_idem [] = True"
| "gates_idem (g # gs) =
     ((\<forall>st. g (snd (g st)) = (fst (g st), snd (g st)))
      \<and> (\<forall>st. g st = (None, st) \<longrightarrow> (\<forall>h \<in> set gs. g (snd (h st)) = (None, snd (h st))))
      \<and> gates_idem gs)"

lemma gates_keep_pass:
  "(\<forall>st. g st = (None, st) \<longrightarrow> (\<forall>h \<in> set gs. g (snd (h st)) = (None, snd (h st)))) \<Longrightarrow>
     g st = (None, st) \<Longrightarrow> g (snd (run_gates gs st)) = (None, snd (run_gates gs st))"
  by (induction gs arbitrary: st) (auto split: prod.split option.split dest: prod.exhaust_sel)

lemma run_gates_idem:
  "gates_idem gs \<Longrightarrow> run_gates gs (snd (run_gates gs st)) = run_gates gs st"
proof (induction gs arbitrary: st)
  case (Cons g gs)
  obtain r st' where g: "g st = (r, st')" by (cases "g st")
  then have g': "g st' = (r, st')" using Cons.prems by (metis fst_conv gates_idem.simps(2) snd_conv)
  show ?case
  proof (cases r)
    case None
    then have "g (snd (run_gates gs st')) = (None, snd (run_gates gs st'))"
      using gates_keep_pass [of g gs st'] Cons.prems g' by simp
    then show ?thesis using g None Cons by simp
  qed (use g g' in simp)
qed simp

lemma run_gates_pure: "\<forall>g \<in> set gs. \<forall>st. snd (g st) = st \<Longrightarrow> snd (run_gates gs st) = st"
proof (induction gs)
  case (Cons g gs)
  have "snd (g st) = st" using Cons.prems by simp
  then obtain r where "g st = (r, st)" by (cases "g st") simp
  then show ?case using Cons by (cases r) simp_all
qed simp

lemma peek_writes_nothing:
  "snd (decideRepairAdmission env source corr force False st) = st"
  unfolding decideRepairAdmission_def
  by (rule run_gates_pure)
    (auto simp: gate_pause_def gate_configuration_def gate_disk_def gate_enabled_def gate_awaiting_def
      gate_exhausted_def gate_conflict_def gate_grace_def gate_operation_def gate_deadline_def
      gate_pending_def Let_def split: option.split)

lemmas gate_defs = gate_pause_def gate_configuration_def gate_disk_def gate_enabled_def
  gate_awaiting_def gate_exhausted_def gate_conflict_def gate_grace_def gate_operation_def
  gate_deadline_def gate_pending_def

definition deadline_settled :: "admission_env \<Rightarrow> admission_state \<Rightarrow> bool" where
  "deadline_settled env st = (case pending_record st of None \<Rightarrow> True
     | Some p \<Rightarrow> (case deadlineMs p of None \<Rightarrow> True | Some d \<Rightarrow> envNow env < d))"

lemma fixed_pause: "gate_pause env True src c st = (None, st) \<longleftrightarrow> autoRepairPaused st = None"
  using gate_pause_verdict [of env True src c st] pause_active(2) [of env st]
  by (auto simp: gate_pause_def v_pause_def autoRepairPauseActive_def Let_def
      split: if_splits prod.splits option.splits)

lemma fixed_gates:
  "gate_configuration force st = (None, st) \<longleftrightarrow> \<not> (configurationErrorActive st \<and> \<not> force)"
  "gate_disk True src c force st = (None, st) \<longleftrightarrow> standing (diskFullHold st) = None \<or> force"
  "gate_enabled force st = (None, st) \<longleftrightarrow> force \<or> autoRepair st"
  "gate_awaiting force st = (None, st) \<longleftrightarrow> force \<or> \<not> awaitingAutoRepairRecovery st"
  "gate_exhausted env True src c force st = (None, st)
     \<longleftrightarrow> force \<or> repairAttempts st < kWatchdogMaxRepairAttempts env"
  "gate_operation st = (None, st) \<longleftrightarrow> \<not> operationInProgress st"
  by (auto simp: gate_defs autoRepairPauseActive_def observePauseScope_def clearAutoRepairPause_def
      log_row_def Let_def split: option.splits if_splits)

lemma fixed_conflict:
  "gate_conflict True src c force st = (None, st) \<longleftrightarrow>
     (force \<or> \<not> isTransientConflictKind (conflict_kind st)) \<and> lastConflictRepairSkipSource st = None"
  by (cases st) (auto simp: gate_conflict_def conflict_kind_def Let_def)

lemma fixed_grace:
  "gate_grace env True src c force st = (None, st) \<longleftrightarrow> force \<or> \<not> grace_open env st"
  by (cases st) (auto simp: gate_grace_def incumbentGraceActive_def grace_open_def Let_def
      split: option.splits)

lemma fail_pending_gone:
  "pendingReplacement st = Some i \<Longrightarrow> pendings st i = Some p \<Longrightarrow>
     pendingReplacement (failPendingReplacement i reason v now st) = None"
  by (simp add: failPendingReplacement_def clearPendingReplacement_def Let_def)

lemma deadline_effect:
  "deadline_settled env st \<Longrightarrow> snd (evaluatePendingReplacementDeadline (envNow env) b st) = st"
  "\<not> deadline_settled env st \<Longrightarrow>
     pendingReplacement (snd (evaluatePendingReplacementDeadline (envNow env) b st)) = None"
  "\<not> deadline_settled env st \<Longrightarrow> pendingReplacement st \<noteq> None"
  by (auto simp: deadline_settled_def pending_record_def evaluatePendingReplacementDeadline_def
      markReplacementNotReady_def fail_pending_gone Let_def split: option.splits)

lemma fixed_deadline: "gate_deadline env True st = (None, st) \<longleftrightarrow> deadline_settled env st"
  using deadline_effect(1,2) [of env st True] deadline_effect(3) [of env st]
  by (cases "deadline_settled env st") (auto simp: gate_deadline_def)

lemma fail_pending_frame:
  "autoRepairPaused (failPendingReplacement i r v now st) = autoRepairPaused st"
  "view (failPendingReplacement i r v now st) = view st"
  "grace_view (failPendingReplacement i r v now st) = grace_view st"
  "lastConflictRepairSkipSource (failPendingReplacement i r v now st) = lastConflictRepairSkipSource st"
  by (simp_all add: failPendingReplacement_def clearPendingReplacement_def flushPendingProbeRun_def
      noteRepairVerdict_def log_row_def view_def grace_view_def Let_def split: option.split)

lemma deadline_frame:
  "autoRepairPaused (snd (gate_deadline env True st)) = autoRepairPaused st"
  "view (snd (gate_deadline env True st)) = view st"
  "grace_view (snd (gate_deadline env True st)) = grace_view st"
  "lastConflictRepairSkipSource (snd (gate_deadline env True st)) = lastConflictRepairSkipSource st"
  using fail_pending_frame [of _ "''replacement_not_ready''" "''replacement_failed''" "envNow env" st]
  by (simp_all add: gate_deadline_def evaluatePendingReplacementDeadline_def markReplacementNotReady_def
      view_def grace_view_def Let_def split: option.split)

lemma gates_frame:
  "autoRepairPaused (snd (gate_configuration force st)) = autoRepairPaused st"
  "autoRepairPaused (snd (gate_disk True src c force st)) = autoRepairPaused st"
  "autoRepairPaused (snd (gate_enabled force st)) = autoRepairPaused st"
  "autoRepairPaused (snd (gate_awaiting force st)) = autoRepairPaused st"
  "autoRepairPaused (snd (gate_exhausted env True src c force st)) = autoRepairPaused st"
  "autoRepairPaused (snd (gate_conflict True src c force st)) = autoRepairPaused st"
  "autoRepairPaused (snd (gate_grace env True src c force st)) = autoRepairPaused st"
  "autoRepairPaused (snd (gate_operation st)) = autoRepairPaused st"
  "autoRepairPaused (snd (gate_pending env True src c force st)) = autoRepairPaused st"
  "view (snd (gate_disk True src c force st)) = view st"
  "view (snd (gate_enabled force st)) = view st"
  "view (snd (gate_awaiting force st)) = view st"
  "view (snd (gate_exhausted env True src c force st)) = view st"
  "view (snd (gate_conflict True src c force st)) = view st"
  "view (snd (gate_grace env True src c force st)) = view st"
  "view (snd (gate_operation st)) = view st"
  "view (snd (gate_pending env True src c force st)) = view st"
  "grace_view (snd (gate_operation st)) = grace_view st"
  "grace_view (snd (gate_pending env True src c force st)) = grace_view st"
  "pending_view (snd (gate_pending env True src c force st)) = pending_view st"
  "lastConflictRepairSkipSource (snd (gate_grace env True src c force st)) = lastConflictRepairSkipSource st"
  "lastConflictRepairSkipSource (snd (gate_operation st)) = lastConflictRepairSkipSource st"
  "lastConflictRepairSkipSource (snd (gate_pending env True src c force st)) = lastConflictRepairSkipSource st"
  by (simp_all add: gate_defs skip_row_def log_row_def view_def grace_view_def pending_view_def
      incumbentGraceActive_def Let_def split: option.split)

lemma pause_twice:
  assumes "src \<noteq> ''manual''"
  shows "gate_pause env True src c (snd (gate_pause env True src c st))
     = (fst (gate_pause env True src c st), snd (gate_pause env True src c st))"
proof (cases "autoRepairPauseStanding env st")
  case True
  then have "autoRepairPauseActive env st = (True, st)"
    by (auto simp: autoRepairPauseStanding_def autoRepairPauseActive_def observePauseScope_def
        split: option.splits)
  moreover have "autoRepairPauseActive env (skip_row src r c (st\<lparr>lastPauseRepairSkipKey := k\<rparr>))
      = (True, skip_row src r c (st\<lparr>lastPauseRepairSkipKey := k\<rparr>))" for r k
    using True by (auto simp: autoRepairPauseStanding_def autoRepairPauseActive_def
        observePauseScope_def skip_row_def log_row_def split: option.splits)
  ultimately show ?thesis using True assms
    by (auto simp: gate_pause_def skip_row_def log_row_def autoRepairPauseStanding_def Let_def
        split: option.splits)
next
  case False
  then have "autoRepairPaused (snd (gate_pause env True src c st)) = None"
    and "fst (gate_pause env True src c st) = None"
    using pause_active(1,2) [of env st] gate_pause_verdict [of env True src c st]
    by (auto simp: gate_pause_def v_pause_def Let_def split: prod.split option.split)
  then show ?thesis using fixed_pause by simp
qed

lemma plain_gates_twice:
  "gate_configuration force (snd (gate_configuration force st))
     = (fst (gate_configuration force st), snd (gate_configuration force st))"
  "gate_enabled force (snd (gate_enabled force st)) = (fst (gate_enabled force st), snd (gate_enabled force st))"
  "gate_awaiting force (snd (gate_awaiting force st)) = (fst (gate_awaiting force st), snd (gate_awaiting force st))"
  "gate_operation (snd (gate_operation st)) = (fst (gate_operation st), snd (gate_operation st))"
  by (simp_all add: gate_configuration_def gate_enabled_def gate_awaiting_def gate_operation_def)

lemma disk_twice: "gate_disk True src c force (snd (gate_disk True src c force st))
     = (fst (gate_disk True src c force st), snd (gate_disk True src c force st))"
  by (cases "standing (diskFullHold st)") (simp_all add: gate_disk_def skip_row_def log_row_def Let_def)

lemma exhausted_twice:
  "gate_exhausted env True src c force (snd (gate_exhausted env True src c force st))
     = (fst (gate_exhausted env True src c force st), snd (gate_exhausted env True src c force st))"
  by (simp add: gate_exhausted_def skip_row_def log_row_def Let_def)

lemma conflict_twice: "gate_conflict True src c force (snd (gate_conflict True src c force st))
     = (fst (gate_conflict True src c force st), snd (gate_conflict True src c force st))"
  by (simp add: gate_conflict_def skip_row_def log_row_def Let_def)

lemma grace_twice: "gate_grace env True src c force (snd (gate_grace env True src c force st))
     = (fst (gate_grace env True src c force st), snd (gate_grace env True src c force st))"
proof (cases "\<not> force \<and> incumbentGraceStanding env st")
  case True
  then have "incumbentGraceActive env st = (True, st)"
    by (simp add: incumbentGraceStanding_def incumbentGraceActive_def)
  moreover have "incumbentGraceActive env (skip_row src r c (st\<lparr>lastIncumbentGraceSkipKey := k\<rparr>))
      = (True, skip_row src r c (st\<lparr>lastIncumbentGraceSkipKey := k\<rparr>))" for r k
    using True by (simp add: incumbentGraceStanding_def incumbentGraceActive_def grace_open_def
        skip_row_def log_row_def)
  ultimately show ?thesis using True by (simp add: gate_grace_def skip_row_def log_row_def Let_def)
next
  case False
  have "force \<or> \<not> grace_open env (snd (gate_grace env True src c force st))"
    using False by (auto simp: incumbentGraceStanding_def gate_grace_def incumbentGraceActive_def
        grace_open_def Let_def)
  moreover have "fst (gate_grace env True src c force st) = None"
    using False gate_grace_verdict [of env True src c force st] by (auto simp: v_grace_def)
  ultimately show ?thesis using fixed_grace by simp
qed

lemma pending_twice: "gate_pending env True src c force (snd (gate_pending env True src c force st))
     = (fst (gate_pending env True src c force st), snd (gate_pending env True src c force st))"
proof -
  have "pending_record (skip_row s r c (st\<lparr>lastRepairPendingSkipKey := k\<rparr>)) = pending_record st"
    "pending_record (st\<lparr>lastRepairPendingSkipKey := k\<rparr>) = pending_record st"
    "pendingReplacementStanding (skip_row s r c (st\<lparr>lastRepairPendingSkipKey := k\<rparr>)) n
       = pendingReplacementStanding st n"
    "pendingReplacementStanding (st\<lparr>lastRepairPendingSkipKey := k\<rparr>) n = pendingReplacementStanding st n"
    "lastRepairPendingSkipKey (skip_row s r c (st\<lparr>lastRepairPendingSkipKey := k\<rparr>)) = k" for s r c k n
    by (simp_all add: pendingReplacementStanding_def pending_record_def skip_row_def log_row_def
        split: option.split)
  then show ?thesis by (auto simp: gate_pending_def Let_def split: option.split)
qed

lemma deadline_twice:
  "gate_deadline env True (snd (gate_deadline env True st))
     = (fst (gate_deadline env True st), snd (gate_deadline env True st))"
proof -
  have "deadline_settled env (snd (gate_deadline env True st))"
    using deadline_effect(1,2) [of env st True] deadline_effect(3) [of env st]
    by (cases "deadline_settled env st") (auto simp: gate_deadline_def deadline_settled_def pending_record_def)
  then show ?thesis by (metis fixed_deadline fst_conv gate_deadline_def)
qed

lemma decide_gates_idem:
  assumes "src \<noteq> ''manual''"
  shows "gates_idem [gate_pause env True src c, gate_configuration force,
       gate_disk True src c force, gate_enabled force, gate_awaiting force,
       gate_exhausted env True src c force, gate_conflict True src c force,
       gate_grace env True src c force, gate_operation, gate_deadline env True,
       gate_pending env True src c force]"
proof -
  have settled: "deadline_settled env t = deadline_settled env u" if "pending_view t = pending_view u" for t u
    using that by (auto simp: deadline_settled_def pending_record_def pending_view_def split: option.splits)
  have conf: "conflict_kind t = conflict_kind u" "configurationErrorActive t = configurationErrorActive u"
    "diskFullHold t = diskFullHold u" "autoRepair t = autoRepair u"
    "awaitingAutoRepairRecovery t = awaitingAutoRepairRecovery u"
    "repairAttempts t = repairAttempts u" "operationInProgress t = operationInProgress u"
    if "view t = view u" for t u
    using that by (simp_all add: view_def conflict_kind_def)
  have open_cong: "grace_open env t = grace_open env u" if "grace_view t = grace_view u" for t u
    using that by (simp add: grace_open_def grace_view_def)
  note frames = gates_frame deadline_frame
  note vf = gates_frame(10-17) deadline_frame(2)
  note views = vf [THEN conf(1)] vf [THEN conf(2)] vf [THEN conf(3)]
    vf [THEN conf(4)] vf [THEN conf(5)] vf [THEN conf(6)] vf [THEN conf(7)]
    gates_frame(18,19) [THEN open_cong] deadline_frame(3) [THEN open_cong] gates_frame(20) [THEN settled]
  show ?thesis
    using pause_twice [OF assms]
    by (simp add: plain_gates_twice disk_twice exhausted_twice conflict_twice grace_twice
        deadline_twice pending_twice fixed_pause fixed_gates fixed_conflict fixed_grace fixed_deadline
        frames views)
qed

section \<open>The health hold of the pause\<close>

datatype health_tick = HealthyTick int | UnhealthyTick

definition tick :: "admission_env \<Rightarrow> admission_state \<Rightarrow> health_tick \<Rightarrow> admission_state" where
  "tick env st e = (case e of HealthyTick now \<Rightarrow> notePauseHealthyTick (env\<lparr>envNow := now\<rparr>) st
     | UnhealthyTick \<Rightarrow> notePauseUnhealthy st)"

fun healthy_span :: "int \<Rightarrow> int \<Rightarrow> health_tick list \<Rightarrow> bool" where
  "healthy_span hold since0 [] = False"
| "healthy_span hold since0 (UnhealthyTick # es) = False"
| "healthy_span hold since0 (HealthyTick now # es) = (hold \<le> now - since0 \<or> healthy_span hold since0 es)"

fun held_health :: "int \<Rightarrow> health_tick list \<Rightarrow> bool" where
  "held_health hold [] = False"
| "held_health hold (UnhealthyTick # es) = held_health hold es"
| "held_health hold (HealthyTick now # es) = (healthy_span hold now es \<or> held_health hold es)"

lemma ticks_clear:
  assumes "autoRepairPaused st \<noteq> None" and "autoRepairPaused (run (tick env) st es) = None"
  shows "(case pauseHealthySinceMs st of None \<Rightarrow> False | Some t \<Rightarrow> healthy_span (pauseHealthHoldMs env) t es)
    \<or> held_health (pauseHealthHoldMs env) es"
  using assms
proof (induction es arbitrary: st)
  case (Cons e es)
  then show ?case
  proof (cases e)
    case (HealthyTick now)
    show ?thesis
    proof (cases "pauseHealthySinceMs st")
      case None
      let ?st = "st\<lparr>pauseHealthySinceMs := Some now\<rparr>"
      have "tick env st e = ?st" using Cons.prems(1) None
        by (simp add: HealthyTick tick_def notePauseHealthyTick_def)
      then show ?thesis using Cons.IH [of ?st] Cons.prems None HealthyTick by simp
    next
      case (Some t)
      show ?thesis
      proof (cases "pauseHealthHoldMs env \<le> now - t")
        case False
        then have "tick env st e = st" using Some
          by (simp add: HealthyTick tick_def notePauseHealthyTick_def)
        then show ?thesis using Cons.IH [of st] Cons.prems Some HealthyTick by auto
      qed (use Some HealthyTick in simp)
    qed
  next
    case UnhealthyTick
    let ?st = "st\<lparr>pauseHealthySinceMs := None\<rparr>"
    have "tick env st e = ?st" by (simp add: UnhealthyTick tick_def notePauseUnhealthy_def)
    then show ?thesis using Cons.IH [of ?st] Cons.prems UnhealthyTick by (simp split: option.split)
  qed
qed simp

section \<open>Properties\<close>

text \<open>The preview after a failed restart tells the truth: for every state it answers the verdict
  an automatic repair reads in that state, whatever its source, and it writes nothing.\<close>

lemma peek_previews_read:
  "peekRepairAdmission env st = fst (readRepairAdmission env source corr False False st)
   \<and> snd (decideRepairAdmission env ''restart_failure_preview'' '''' False False st) = st"
  by (simp add: peekRepairAdmission_def readRepairAdmission_def decide_verdict peek_writes_nothing)

text \<open>Reading the admission again under the lock is safe: for a source that is not manual, a
  second read in the state the first one left gives the same verdict and changes nothing more; in
  particular it books no second ledger row.\<close>

lemma admission_read_twice:
  assumes "source \<noteq> ''manual''"
  shows "readRepairAdmission env source corr force False
      (snd (readRepairAdmission env source corr force False st))
    = readRepairAdmission env source corr force False st"
  unfolding readRepairAdmission_def decideRepairAdmission_def
  using run_gates_idem [OF decide_gates_idem [OF assms]] by simp

definition demo_env :: admission_env where
  "demo_env = \<lparr>envNow = 1000, installedVersion = Some ''1.2.0'', pidAlive = (\<lambda>p. Some True),
     kWatchdogMaxRepairAttempts = 3, pauseHealthHoldMs = 60000\<rparr>"

definition demo_pause :: repair_pause where
  "demo_pause = \<lparr>pauseAtMs = 10, pauseCause = ''state_schema_too_new'', pauseFingerprint = ''f1'',
     pauseInstalledVersion = Some ''1.2.0'', pauseAttempts = 1, pauseReason = ''structural_repair_failed''\<rparr>"

definition demo_admission :: admission_state where
  "demo_admission = \<lparr>pendings = Map.empty, nextPending = 0, pendingReplacement = None,
     repairAttempts = 3, repairAttemptSeq = 2, activeRepairAttempt = None, lastRepairVerdict = None,
     awaitingAutoRepairRecovery = False, crashTimestamps = [], failedReplacement = None,
     replacementCrashFingerprints = [], servingLaunchGeneration = None, servingRootPid = None,
     health = ''unhealthy'', degradedReason = None, pendingProbeRun = None,
     lastReplacementExit = None, ledger = [],
     autoRepairPaused = Some demo_pause, pauseHealthySinceMs = None, lastClearedPause = None,
     persistedPause = Some demo_pause, configurationErrorActive = False,
     diskFullHold = createDiskFullHold, autoRepair = True, incumbentConflict = None,
     incumbentGraceUntilMs = None, incumbentGracePid = None, operationInProgress = False,
     stopRequested = False, lifecycle = ''running'', expectedRestartInProgress = False,
     expectedRestartUntilMs = 0, crashRecovery = createCrashRecovery 0,
     lastConflictRepairSkipSource = None, lastPauseRepairSkipKey = None,
     lastDiskFullRepairSkipKey = None, lastExhaustedRepairSkipKey = None,
     lastIncumbentGraceSkipKey = None, lastRepairPendingSkipKey = None\<rparr>"

text \<open>C19. An operator's forced resume is refused by nothing but an operation in progress, whatever
  pause, budget, hold, conflict, grace or pending replacement stands; an automatic repair is
  refused in every state in which the repair budget is spent.\<close>

theorem forced_and_automatic_admission:
  assumes "kWatchdogMaxRepairAttempts env \<le> repairAttempts spent"
  shows "fst (readRepairAdmission env source corr True True st)
      = (if operationInProgress st then Some (refuse ''operation_in_progress'') else None)
    \<and> fst (readRepairAdmission env source corr False resume spent) \<noteq> None"
proof
  let ?st = "operator_resume env source corr st"
  have p: "autoRepairPaused ?st = None" and o: "operationInProgress ?st = operationInProgress st"
    by (auto simp: operator_resume_def pause_ops split: option.split)
  have "first_refusal (verdicts_of env True) ?st
      = (if operationInProgress ?st then Some (refuse ''operation_in_progress'') else None)"
    using p by (auto simp: verdicts_of_def v_pause_def autoRepairPauseStanding_def v_disk_def
        gate_configuration_def gate_enabled_def gate_awaiting_def gate_operation_def
        v_exhausted_def v_conflict_def v_grace_def v_pending_def split: option.split)
  then show "fst (readRepairAdmission env source corr True True st)
      = (if operationInProgress st then Some (refuse ''operation_in_progress'') else None)"
    by (simp add: readRepairAdmission_def decide_verdict o)
next
  have "repairAttempts (operator_resume env source corr spent) = repairAttempts spent"
    by (auto simp: operator_resume_def pause_ops split: option.split)
  then have "v_exhausted env False st \<noteq> None"
    if "st = operator_resume env source corr spent \<or> st = spent" for st
    using that assms by (auto simp: v_exhausted_def)
  moreover have "v_exhausted env False st \<noteq> None \<Longrightarrow> first_refusal (verdicts_of env False) st \<noteq> None" for st
    by (auto simp: verdicts_of_def split: option.split)
  ultimately show "fst (readRepairAdmission env source corr False resume spent) \<noteq> None"
    by (simp add: readRepairAdmission_def decide_verdict)
qed

theorem forced_and_automatic_admission_witness:
  "fst (readRepairAdmission demo_env ''manual'' ''c1'' True True demo_admission) = None
   \<and> fst (readRepairAdmission demo_env ''health_check'' ''c1'' False False demo_admission) \<noteq> None"
proof -
  have "kWatchdogMaxRepairAttempts demo_env \<le> repairAttempts demo_admission"
    by (simp add: demo_env_def demo_admission_def)
  from forced_and_automatic_admission [OF this, of "''manual''" "''c1''" demo_admission]
    forced_and_automatic_admission [OF this, of "''health_check''" "''c1''" _ False]
  show ?thesis by (simp add: demo_admission_def)
qed

text \<open>Health alone lifts an auto-repair pause only after the health hold: if the ticks of the
  health clock clear a pause latched with no healthy streak, some healthy tick was followed by
  healthy ticks only, up to one at least \<open>pauseHealthHoldMs\<close> later. One green probe never does.\<close>

lemma pause_needs_health_hold:
  assumes "autoRepairPaused st \<noteq> None" and "pauseHealthySinceMs st = None"
    and "autoRepairPaused (run (tick env) st es) = None"
  shows "held_health (pauseHealthHoldMs env) es"
  using ticks_clear [OF assms(1,3)] assms(2) by simp

end
