(* ===== verification/Notify_Outbox.thy ===== *)
theory Notify_Outbox
  imports Prelude
begin

text \<open>
  The durable notification outbox (\<open>lib/server/notify-outbox.js\<close>), its deadlines
  (\<open>lib/server/notification-expiry.js\<close>) and the delivery policy
  (\<open>lib/server/notification-policy.js\<close>).

  The outbox file is the list \<open>outFile\<close> of its events. A flush is not atomic: it reads a snapshot, then
  awaits one delivery after the other, and enqueues or retirements may rewrite the file meanwhile;
  so a flush is the events \<open>FlushStart\<close>, \<open>FlushNext\<close> per pending event, \<open>FlushEnd\<close>, and any other
  operation may come between them. What \<open>deliver\<close> answered and the clock are inputs. The persisted
  event sink is the list \<open>sink\<close>; \<open>sinkMode\<close> says whether there is one and whether it works. File
  writes succeed; the timestamps the file holds are those this version writes (\<open>hasOwn\<close> of
  both fields is true); a malformed timestamp is a negative one.
\<close>

section \<open>Deadlines\<close>

definition kOverseerNotificationMaxAgeMs :: int where
  "kOverseerNotificationMaxAgeMs = 60 * 60 * 1000"

definition validTimestamp :: "int \<Rightarrow> bool" where
  "validTimestamp v \<longleftrightarrow> 0 \<le> v \<and> v \<le> 8640000000000000"

text \<open>\<open>created\<close> and \<open>expires\<close> are \<open>None\<close> where the event has no such property.\<close>

definition notificationTiming ::
  "string \<Rightarrow> int option \<Rightarrow> int option \<Rightarrow> int \<Rightarrow> bool \<Rightarrow> int \<Rightarrow> int \<times> int" where
  "notificationTiming eventType created expires now legacy maxAgeMs =
     (let lifetime = (if eventType = ''overseer'' then min maxAgeMs kOverseerNotificationMaxAgeMs
                      else maxAgeMs) in
      if legacy \<and> created = None then (0, 0)
      else (let createdAt = (case created of Some c \<Rightarrow> c | None \<Rightarrow> if legacy then 0 else now) in
            if \<not> validTimestamp createdAt then (0, 0)
            else (let naturalExpiry = createdAt + lifetime in
                  (createdAt, case expires of
                      Some x \<Rightarrow> if validTimestamp x then min x naturalExpiry else 0
                    | None \<Rightarrow> naturalExpiry))))"

definition notificationExpired :: "int \<Rightarrow> int \<Rightarrow> bool" where
  "notificationExpired expires now \<longleftrightarrow> \<not> validTimestamp expires \<or> expires \<le> now"

section \<open>Policy\<close>

definition shouldSendNotification :: "bool \<Rightarrow> bool \<Rightarrow> bool \<Rightarrow> bool \<Rightarrow> string option" where
  "shouldSendNotification audit verbose disabled verboseEnabled =
     (if audit then None
      else if disabled then Some ''notifications_disabled''
      else if verbose \<and> \<not> verboseEnabled then Some ''verbose_notifications_disabled''
      else None)"

section \<open>Events and state\<close>

record outbox_event =
  evId :: string
  eventType :: string
  operationId :: "string option"
  message :: string
  verbose :: bool
  audit :: bool
  createdAt :: int
  expiresAt :: int
  expiryRecordedAt :: "int option"
  evAttempts :: nat
  deliveredAt :: "int option"
  lastError :: "string option"
  nextAttemptAt :: "int option"
  abandonedAt :: "int option"
  abandonedTerminal :: bool
  partialAt :: "int option"
  suppressedAt :: "int option"
  suppressedReason :: "string option"
  expiryDelivery :: "(nat \<times> nat \<times> nat) option"

record outbox_config =
  maxAttempts :: nat
  keepCount :: nat
  maxAgeMs :: int
  backoffBaseMs :: int
  backoffMaxMs :: int

record sink_row =
  sinkType :: string
  sinkStatus :: string
  sinkId :: string

datatype sink_mode = NoSink | SinkFails | SinkWorks

record flush_state =
  flushNow :: int
  remaining :: "outbox_event list"
  updates :: "string \<rightharpoonup> outbox_event"
  expiryAttempts :: "string list"

record outbox_state =
  outFile :: "outbox_event list"
  flushing :: "flush_state option"
  recordedExpiryIds :: "string list"
  sink :: "sink_row list"
  sinkMode :: sink_mode

record delivery_result =
  resOk :: bool
  resExpired :: bool
  resHeld :: bool
  resSuppressed :: bool
  resTerminal :: bool
  resSent :: nat
  resFailed :: nat
  resSkipped :: nat
  resReason :: "string option"
  resError :: "string option"

definition no_result :: delivery_result where
  "no_result = \<lparr>resOk = False, resExpired = False, resHeld = False, resSuppressed = False,
     resTerminal = False, resSent = 0, resFailed = 0, resSkipped = 0, resReason = None,
     resError = None\<rparr>"

definition isTerminal :: "outbox_event \<Rightarrow> bool" where
  "isTerminal e \<longleftrightarrow> deliveredAt e \<noteq> None \<or> abandonedAt e \<noteq> None \<or> suppressedAt e \<noteq> None"

definition set_timing :: "outbox_event \<Rightarrow> int \<times> int \<Rightarrow> outbox_event" where
  "set_timing e t = e\<lparr>createdAt := fst t, expiresAt := snd t\<rparr>"

definition legacy_timing :: "outbox_config \<Rightarrow> int \<Rightarrow> outbox_event \<Rightarrow> int \<times> int" where
  "legacy_timing cfg now e =
     notificationTiming (eventType e) (Some (createdAt e)) (Some (expiresAt e)) now True (maxAgeMs cfg)"

definition createNotifyOutbox :: "sink_mode \<Rightarrow> outbox_state" where
  "createNotifyOutbox mode =
     \<lparr>outFile = [], flushing = None, recordedExpiryIds = [], sink = [], sinkMode = mode\<rparr>"

section \<open>The event sink\<close>

definition insert_row :: "string \<Rightarrow> string \<Rightarrow> string \<Rightarrow> outbox_state \<Rightarrow> outbox_state" where
  "insert_row ty status i st =
     (if sinkMode st = SinkWorks
      then st\<lparr>sink := sink st @ [\<lparr>sinkType = ty, sinkStatus = status, sinkId = i\<rparr>]\<rparr> else st)"

definition abandonEvent ::
  "outbox_event \<Rightarrow> int \<Rightarrow> bool \<Rightarrow> outbox_state \<Rightarrow> outbox_event \<times> outbox_state" where
  "abandonEvent e now terminal st =
     (e\<lparr>abandonedAt := Some now, abandonedTerminal := terminal, nextAttemptAt := None\<rparr>,
      insert_row ''notification_abandoned'' ''failed'' (evId e) st)"

definition recordPartialDelivery ::
  "outbox_event \<Rightarrow> int \<Rightarrow> outbox_state \<Rightarrow> outbox_event \<times> outbox_state" where
  "recordPartialDelivery e now st =
     (e\<lparr>partialAt := Some now\<rparr>, insert_row ''notification_partial'' ''warning'' (evId e) st)"

definition remember :: "outbox_config \<Rightarrow> string \<Rightarrow> outbox_state \<Rightarrow> outbox_state" where
  "remember cfg i st =
     (let ids = (if i \<in> set (recordedExpiryIds st) then recordedExpiryIds st
                 else recordedExpiryIds st @ [i]) in
      st\<lparr>recordedExpiryIds := (if keepCount cfg < length ids then tl ids else ids)\<rparr>)"

definition stamp_file :: "string \<Rightarrow> int \<Rightarrow> outbox_event list \<Rightarrow> outbox_event list" where
  "stamp_file i now = sql_update (\<lambda>e. evId e = i) (\<lambda>e. e\<lparr>expiryRecordedAt := Some now\<rparr>)"

definition note_attempt :: "string \<Rightarrow> outbox_state \<Rightarrow> outbox_state" where
  "note_attempt i st = (case flushing st of None \<Rightarrow> st
     | Some f \<Rightarrow> st\<lparr>flushing := Some (f\<lparr>expiryAttempts := expiryAttempts f @ [i]\<rparr>)\<rparr>)"

text \<open>The tally an expiry reports: the delivery's, or the one stored at the first try.\<close>

definition expiry_tally :: "outbox_event \<Rightarrow> delivery_result \<Rightarrow> nat \<times> nat \<times> nat" where
  "expiry_tally e r = (if resExpired r then (resSent r, resFailed r, resSkipped r)
     else (case expiryDelivery e of Some t \<Rightarrow> t | None \<Rightarrow> (resSent r, resFailed r, resSkipped r)))"

text \<open>The end of \<open>noteExpired\<close>: the row, and the stamp once it is booked.\<close>

definition report_expired ::
  "outbox_config \<Rightarrow> outbox_event \<Rightarrow> delivery_result \<Rightarrow> int \<Rightarrow> bool \<Rightarrow> outbox_state
     \<Rightarrow> outbox_event \<times> outbox_state" where
  "report_expired cfg e r now inFile st =
     (if sinkMode st = NoSink then (e, remember cfg (evId e) st)
      else (let (sent, failed, skipped) = expiry_tally e r;
                (e, st) = (if 0 < sent \<and> (0 < failed \<or> 0 < skipped) \<and> partialAt e = None
                           then recordPartialDelivery e now st else (e, st)) in
        if sinkMode st = SinkFails then (e, st)
        else (let st = remember cfg (evId e)
                    (insert_row ''notification_expired'' ''skipped'' (evId e) st) in
              (e\<lparr>expiryRecordedAt := Some now\<rparr>,
               if inFile then st\<lparr>outFile := stamp_file (evId e) now (outFile st)\<rparr> else st))))"

definition noteExpired ::
  "outbox_config \<Rightarrow> outbox_event \<Rightarrow> delivery_result \<Rightarrow> int \<Rightarrow> outbox_state
     \<Rightarrow> outbox_event \<times> outbox_state" where
  "noteExpired cfg e r now st =
     (if deliveredAt e \<noteq> None \<and> \<not> resExpired r \<and> suppressedReason e \<noteq> Some ''expired'' then (e, st)
      else if expiryRecordedAt e \<noteq> None \<or> evId e \<in> set (recordedExpiryIds st) then (e, st)
      else (let existing = find (\<lambda>x. evId x = evId e) (outFile st) in
        if (case existing of Some x \<Rightarrow> expiryRecordedAt x \<noteq> None | None \<Rightarrow> False)
        then (e\<lparr>expiryRecordedAt := expiryRecordedAt (the existing)\<rparr>, st)
        else if (case flushing st of Some f \<Rightarrow> evId e \<in> set (expiryAttempts f) | None \<Rightarrow> False)
        then (e, st)
        else report_expired cfg e r now (existing \<noteq> None) (note_attempt (evId e) st)))"

definition expireEvent ::
  "outbox_config \<Rightarrow> outbox_event \<Rightarrow> delivery_result \<Rightarrow> int \<Rightarrow> outbox_state
     \<Rightarrow> outbox_event \<times> outbox_state" where
  "expireEvent cfg e r now st =
     noteExpired cfg (e\<lparr>suppressedAt := Some now, suppressedReason := Some ''expired'',
         nextAttemptAt := None, expiryDelivery := Some (resSent r, resFailed r, resSkipped r)\<rparr>) r now st"

section \<open>Enqueue\<close>

definition normalizeEvent ::
  "outbox_config \<Rightarrow> int \<Rightarrow> outbox_event \<Rightarrow> int option \<Rightarrow> int option \<Rightarrow> outbox_event option" where
  "normalizeEvent cfg now ev created expires =
     (let i = js_trim (evId ev); m = js_trim (message ev) in
      if i = '''' \<or> m = '''' then None
      else Some (set_timing (ev\<lparr>evId := i, message := m,
                  eventType := (if eventType ev = '''' then ''info'' else eventType ev),
                  expiryDelivery := None\<rparr>)
             (notificationTiming (eventType ev) created expires now False (maxAgeMs cfg))))"

definition markExpired :: "int \<Rightarrow> outbox_event \<Rightarrow> outbox_event" where
  "markExpired now e =
     (if eventType e = ''overseer'' \<and> deliveredAt e = None \<and> notificationExpired (expiresAt e) now
      then e\<lparr>suppressedAt := (case suppressedAt e of None \<Rightarrow> Some now | Some t \<Rightarrow> Some t),
             suppressedReason := Some ''expired'', nextAttemptAt := None\<rparr>
      else e)"

definition revivesOnEnqueue :: "outbox_event \<Rightarrow> bool" where
  "revivesOnEnqueue e \<longleftrightarrow> deliveredAt e = None \<and> suppressedReason e \<noteq> Some ''expired''
     \<and> ((suppressedAt e \<noteq> None \<and> abandonedAt e = None) \<or> (abandonedAt e \<noteq> None \<and> abandonedTerminal e))"

definition take_last :: "nat \<Rightarrow> 'a list \<Rightarrow> 'a list" where
  "take_last n xs = drop (length xs - n) xs"

definition cap_events :: "outbox_config \<Rightarrow> outbox_event list \<Rightarrow> outbox_event list" where
  "cap_events cfg events =
     (if keepCount cfg < length events
      then (let delivered = filter isTerminal events;
                undelivered = filter (\<lambda>e. \<not> isTerminal e) events in
            take_last (keepCount cfg)
              (take_last (keepCount cfg - length undelivered) delivered @ undelivered))
      else events)"

definition acknowledgeEnqueue ::
  "outbox_config \<Rightarrow> int \<Rightarrow> outbox_event \<Rightarrow> outbox_state \<Rightarrow> outbox_event option \<times> outbox_state" where
  "acknowledgeEnqueue cfg now e st =
     (if suppressedReason e = Some ''expired''
      then apfst Some (noteExpired cfg e no_result now st) else (Some e, st))"

definition replace_event :: "outbox_event \<Rightarrow> outbox_event list \<Rightarrow> outbox_event list" where
  "replace_event e = sql_update (\<lambda>x. evId x = evId e) (\<lambda>x. e)"

definition enqueue ::
  "outbox_config \<Rightarrow> int \<Rightarrow> outbox_event \<Rightarrow> int option \<Rightarrow> int option \<Rightarrow> outbox_state
     \<Rightarrow> outbox_event option \<times> outbox_state" where
  "enqueue cfg now ev created expires st =
     (case normalizeEvent cfg now ev created expires of None \<Rightarrow> (None, st)
      | Some normalized \<Rightarrow>
         (case find (\<lambda>x. evId x = evId normalized) (outFile st) of
            Some existing \<Rightarrow>
              (let (c, x) = legacy_timing cfg now existing;
                   c' = min (createdAt normalized) c; x' = min (expiresAt normalized) x;
                   normalized = markExpired now (set_timing normalized (c', x')) in
               if revivesOnEnqueue existing
               then acknowledgeEnqueue cfg now normalized
                      (st\<lparr>outFile := replace_event normalized (outFile st)\<rparr>)
               else (let retained = markExpired now (set_timing existing (c', x')) in
                     acknowledgeEnqueue cfg now retained
                       (if createdAt existing \<noteq> createdAt retained
                           \<or> expiresAt existing \<noteq> expiresAt retained
                           \<or> suppressedReason existing \<noteq> suppressedReason retained
                        then st\<lparr>outFile := replace_event retained (outFile st)\<rparr> else st)))
          | None \<Rightarrow>
              (let normalized = markExpired now normalized in
               acknowledgeEnqueue cfg now normalized
                 (st\<lparr>outFile := cap_events cfg (outFile st @ [normalized])\<rparr>))))"

section \<open>Flush\<close>

definition in_sweep :: "outbox_event \<Rightarrow> bool" where
  "in_sweep e \<longleftrightarrow> suppressedReason e = Some ''expired'' \<and> expiryRecordedAt e = None"

text \<open>The age-out sweep over the snapshot: the events as the sweep leaves them, and the updates.\<close>

fun sweep ::
  "outbox_config \<Rightarrow> int \<Rightarrow> outbox_event list \<Rightarrow> outbox_state
     \<Rightarrow> (outbox_event list \<times> (string \<rightharpoonup> outbox_event)) \<times> outbox_state" where
  "sweep cfg now [] st = (([], Map.empty), st)"
| "sweep cfg now (e # es) st =
     (if in_sweep e then
        (let (e', st) = noteExpired cfg e no_result now st;
             ((es', u), st) = sweep cfg now es st in ((e' # es', u), st))
      else if isTerminal e then
        (let ((es', u), st) = sweep cfg now es st in ((e # es', u), st))
      else
        (let e = set_timing e (legacy_timing cfg now e) in
         if \<not> notificationExpired (expiresAt e) now then
           (let ((es', u), st) = sweep cfg now es st in ((e # es', u), st))
         else
           (let (e', st) = (if eventType e = ''overseer'' then expireEvent cfg e no_result now st
                            else abandonEvent e now False st);
                ((es', u), st) = sweep cfg now es st in
            ((e' # es', u(evId e' \<mapsto> e')), st))))"

definition eligible :: "outbox_config \<Rightarrow> int \<Rightarrow> outbox_event \<Rightarrow> bool" where
  "eligible cfg now e \<longleftrightarrow> \<not> isTerminal e \<and> evAttempts e < maxAttempts cfg
     \<and> \<not> (case nextAttemptAt e of None \<Rightarrow> False | Some t \<Rightarrow> now < t)"

definition flush_start :: "outbox_config \<Rightarrow> int \<Rightarrow> outbox_state \<Rightarrow> outbox_state" where
  "flush_start cfg now st =
     (if flushing st \<noteq> None then st
      else (let events = outFile st;
                st = st\<lparr>flushing := Some \<lparr>flushNow = now, remaining = [], updates = Map.empty,
                                          expiryAttempts = []\<rparr>\<rparr>;
                ((events, u), st) = sweep cfg now events st in
            st\<lparr>flushing := map_option (\<lambda>f. f\<lparr>remaining := filter (eligible cfg now) events,
                                               updates := u\<rparr>) (flushing st)\<rparr>))"

definition failure_text :: "delivery_result \<Rightarrow> string" where
  "failure_text r = (case resReason r of Some t \<Rightarrow> t
     | None \<Rightarrow> (case resError r of Some t \<Rightarrow> t | None \<Rightarrow> ''delivery failed''))"

definition backoff_delay :: "outbox_config \<Rightarrow> nat \<Rightarrow> int" where
  "backoff_delay cfg attempts = min (backoffBaseMs cfg * 2 ^ (attempts - 1)) (backoffMaxMs cfg)"

text \<open>What the answer of \<open>deliver\<close> makes of the event.\<close>

definition deliver_outcome ::
  "outbox_config \<Rightarrow> outbox_event \<Rightarrow> delivery_result \<Rightarrow> int \<Rightarrow> outbox_state
     \<Rightarrow> outbox_event \<times> outbox_state" where
  "deliver_outcome cfg e r now st =
     (if resExpired r then
        (let e = (if 0 < resSent r then e\<lparr>deliveredAt := Some now\<rparr> else e);
             (e, st) = (if 0 < resSent r \<and> (0 < resFailed r \<or> 0 < resSkipped r) \<and> partialAt e = None
                        then recordPartialDelivery e now st else (e, st));
             e = (if 0 < resSent r \<or> 0 < resFailed r then e\<lparr>evAttempts := evAttempts e + 1\<rparr> else e) in
         expireEvent cfg e r now st)
      else if resHeld r then (e\<lparr>nextAttemptAt := Some (now + backoffBaseMs cfg)\<rparr>, st)
      else
        (let e = e\<lparr>evAttempts := evAttempts e + 1\<rparr> in
         if resOk r then
           (let e = e\<lparr>deliveredAt := Some now, lastError := None, nextAttemptAt := None\<rparr> in
            if 0 < resFailed r \<and> partialAt e = None then recordPartialDelivery e now st else (e, st))
         else if resSuppressed r then
           (e\<lparr>suppressedAt := Some now, suppressedReason := resReason r, lastError := None,
              nextAttemptAt := None\<rparr>, st)
         else if resTerminal r then
           abandonEvent (e\<lparr>lastError := Some (failure_text r)\<rparr>) now True st
         else
           (e\<lparr>lastError := Some (failure_text r),
              nextAttemptAt := Some (now + backoff_delay cfg (evAttempts e))\<rparr>, st)))"

definition set_flush :: "outbox_state \<Rightarrow> outbox_event list \<Rightarrow> outbox_event \<Rightarrow> outbox_state" where
  "set_flush st rest e = st\<lparr>flushing := map_option (\<lambda>f. f\<lparr>remaining := rest,
      updates := (updates f)(evId e \<mapsto> e)\<rparr>) (flushing st)\<rparr>"

text \<open>The next pending event: \<open>dispatchNow\<close> is the clock at its dispatch, \<open>r\<close> what \<open>deliver\<close>
  answered if it was called, \<open>now\<close> the clock then. Answers the event handed to \<open>deliver\<close>.\<close>

definition flush_next ::
  "outbox_config \<Rightarrow> int \<Rightarrow> delivery_result \<Rightarrow> int \<Rightarrow> outbox_state
     \<Rightarrow> outbox_event option \<times> outbox_state" where
  "flush_next cfg dispatchNow r now st =
     (case flushing st of None \<Rightarrow> (None, st)
      | Some f \<Rightarrow>
         (case remaining f of [] \<Rightarrow> (None, st)
          | e # rest \<Rightarrow>
              if notificationExpired (expiresAt e) dispatchNow then
                (let (e', st) = (if eventType e = ''overseer'' then expireEvent cfg e no_result dispatchNow st
                                 else abandonEvent e dispatchNow False st) in
                 (None, set_flush st rest e'))
              else (let (e', st) = deliver_outcome cfg e r now st in (Some e, set_flush st rest e'))))"

fun merge_updates ::
  "outbox_config \<Rightarrow> int \<Rightarrow> (string \<rightharpoonup> outbox_event) \<Rightarrow> outbox_event list \<Rightarrow> outbox_event list" where
  "merge_updates cfg now u [] = []"
| "merge_updates cfg now u (e # es) =
     (case u (evId e) of None \<Rightarrow> e # merge_updates cfg now u es
      | Some updated \<Rightarrow>
         (let (c, x) = legacy_timing cfg now e in
          updated\<lparr>createdAt := min (createdAt updated) c, expiresAt := min (expiresAt updated) x,
                  expiryRecordedAt := (case expiryRecordedAt updated of Some t \<Rightarrow> Some t
                                       | None \<Rightarrow> expiryRecordedAt e)\<rparr>
          # merge_updates cfg now (u(evId e := None)) es))"

definition flush_end :: "outbox_config \<Rightarrow> int \<Rightarrow> outbox_state \<Rightarrow> outbox_state" where
  "flush_end cfg now st =
     (case flushing st of None \<Rightarrow> st
      | Some f \<Rightarrow>
          if remaining f \<noteq> [] then st
          else st\<lparr>flushing := None, outFile := merge_updates cfg now (updates f) (outFile st)\<rparr>)"

definition pending_count :: "outbox_config \<Rightarrow> outbox_state \<Rightarrow> nat" where
  "pending_count cfg st =
     length (filter (\<lambda>e. \<not> isTerminal e \<and> evAttempts e < maxAttempts cfg) (outFile st))"

section \<open>Retirement\<close>

fun retire_events ::
  "outbox_config \<Rightarrow> (string \<Rightarrow> bool) \<Rightarrow> int \<Rightarrow> outbox_event list \<Rightarrow> outbox_state
     \<Rightarrow> outbox_event list \<times> outbox_state" where
  "retire_events cfg matchesId now [] st = ([], st)"
| "retire_events cfg matchesId now (e # es) st =
     (if evId e = '''' \<or> isTerminal e \<or> \<not> matchesId (evId e)
      then apfst ((#) e) (retire_events cfg matchesId now es st)
      else (let e = e\<lparr>expiresAt := min (if expiresAt e = 0 then now else expiresAt e) now\<rparr>;
                (e, st) = expireEvent cfg e no_result now st in
            apfst ((#) e) (retire_events cfg matchesId now es st)))"

definition retire :: "outbox_config \<Rightarrow> (string \<Rightarrow> bool) \<Rightarrow> int \<Rightarrow> outbox_state \<Rightarrow> outbox_state" where
  "retire cfg matchesId now st =
     (let (events, st') = retire_events cfg matchesId now (outFile st) st in
      if events = outFile st then st' else st'\<lparr>outFile := events\<rparr>)"

section \<open>Runs\<close>

datatype outbox_op =
    Enqueue outbox_event "int option" "int option" int
  | FlushStart int
  | FlushNext int delivery_result int
  | FlushEnd int
  | Retire "string \<Rightarrow> bool" int

fun outbox_exec :: "outbox_config \<Rightarrow> outbox_state \<Rightarrow> outbox_op \<Rightarrow> outbox_state" where
  "outbox_exec cfg st (Enqueue ev c x now) = snd (enqueue cfg now ev c x st)"
| "outbox_exec cfg st (FlushStart now) = flush_start cfg now st"
| "outbox_exec cfg st (FlushNext t r now) = snd (flush_next cfg t r now st)"
| "outbox_exec cfg st (FlushEnd now) = flush_end cfg now st"
| "outbox_exec cfg st (Retire p now) = retire cfg p now st"

section \<open>What the bookkeeping leaves alone\<close>

definition skeleton :: "outbox_event \<Rightarrow> string \<times> bool \<times> int" where
  "skeleton e = (evId e, isTerminal e, expiresAt e)"

definition skel :: "outbox_state \<Rightarrow> (string \<times> bool \<times> int) list" where
  "skel st = map skeleton (outFile st)"

definition flush_view ::
  "outbox_state \<Rightarrow> (outbox_event list \<times> (string \<rightharpoonup> outbox_event)) option" where
  "flush_view st = map_option (\<lambda>f. (remaining f, updates f)) (flushing st)"

definition same_view :: "outbox_state \<Rightarrow> outbox_state \<Rightarrow> bool" where
  "same_view st st' \<longleftrightarrow> skel st' = skel st \<and> flush_view st' = flush_view st"

lemma same_view_refl [simp]: "same_view st st"
  by (simp add: same_view_def)

lemma same_view_trans: "same_view a b \<Longrightarrow> same_view b c \<Longrightarrow> same_view a c"
  by (simp add: same_view_def)

lemma skel_ids: "map evId (outFile st) = map fst (skel st)"
  by (simp add: skel_def skeleton_def comp_def)

lemma insert_row_view [simp]: "same_view st (insert_row ty s i st)"
  "outFile (insert_row ty s i st) = outFile st" "flushing (insert_row ty s i st) = flushing st"
  by (simp_all add: same_view_def insert_row_def skel_def flush_view_def)

lemma stamp_skeleton: "map skeleton (stamp_file i now es) = map skeleton es"
  by (simp add: stamp_file_def sql_update_def skeleton_def isTerminal_def)

lemma remember_frame [simp]:
  "outFile (remember cfg i st) = outFile st" "flushing (remember cfg i st) = flushing st"
  by (simp_all add: remember_def Let_def)

lemma note_attempt_view: "same_view st (note_attempt i st)"
  by (simp add: same_view_def skel_def flush_view_def note_attempt_def split: option.split)

lemma partial_view:
  "recordPartialDelivery e now st = (e', st') \<Longrightarrow> skeleton e' = skeleton e \<and> same_view st st'
     \<and> deliveredAt e' = deliveredAt e \<and> suppressedAt e' = suppressedAt e"
  by (auto simp: recordPartialDelivery_def skeleton_def isTerminal_def)

lemma abandon_view:
  "abandonEvent e now t st = (e', st') \<Longrightarrow>
     evId e' = evId e \<and> isTerminal e' \<and> expiresAt e' = expiresAt e \<and> same_view st st'"
  by (auto simp: abandonEvent_def isTerminal_def)

lemma report_expired_view:
  assumes "report_expired cfg e r now b st = (e', st')"
  shows "skeleton e' = skeleton e \<and> same_view st st'"
proof (cases "sinkMode st = NoSink")
  case True
  then show ?thesis using assms by (auto simp: report_expired_def same_view_def skel_def flush_view_def)
next
  case False
  obtain s f k where t: "expiry_tally e r = (s, f, k)" by (metis prod.exhaust)
  obtain e1 st1 where p: "(if 0 < s \<and> (0 < f \<or> 0 < k) \<and> partialAt e = None
      then recordPartialDelivery e now st else (e, st)) = (e1, st1)" by (metis prod.exhaust)
  have v: "skeleton e1 = skeleton e" "same_view st st1"
    using p partial_view by (auto split: if_splits)
  have r: "same_view st (remember cfg i (insert_row a b c st1))"
    "same_view st ((remember cfg i (insert_row a b c st1))\<lparr>outFile := stamp_file j now (outFile st1)\<rparr>)"
    for i a b c j
    using v(2) by (simp_all add: same_view_def skel_def flush_view_def stamp_skeleton)
  have "report_expired cfg e r now b st = (if sinkMode st1 = SinkFails then (e1, st1)
      else (e1\<lparr>expiryRecordedAt := Some now\<rparr>,
        let st = remember cfg (evId e1) (insert_row ''notification_expired'' ''skipped'' (evId e1) st1) in
        if b then st\<lparr>outFile := stamp_file (evId e1) now (outFile st)\<rparr> else st))"
    using False by (simp add: report_expired_def t p Let_def)
  then show ?thesis using assms v r
    by (auto simp: Let_def skeleton_def isTerminal_def split: if_splits)
qed

lemma noteExpired_view:
  assumes "noteExpired cfg e r now st = (e', st')"
  shows "skeleton e' = skeleton e \<and> same_view st st'"
proof -
  have s: "skeleton (e\<lparr>expiryRecordedAt := t\<rparr>) = skeleton e" for t
    by (simp add: skeleton_def isTerminal_def)
  show ?thesis
    using assms s report_expired_view [of cfg e r now _ "note_attempt (evId e) st" e' st']
      same_view_trans [OF note_attempt_view [of st "evId e"]]
    unfolding noteExpired_def Let_def by (auto split: if_splits)
qed

lemma expireEvent_view:
  "expireEvent cfg e r now st = (e', st') \<Longrightarrow>
     evId e' = evId e \<and> isTerminal e' \<and> expiresAt e' = expiresAt e \<and> same_view st st'"
  unfolding expireEvent_def
  by (drule noteExpired_view) (simp add: skeleton_def isTerminal_def)

lemma sweep_view:
  "sweep cfg now es st = ((es', u), st') \<Longrightarrow> same_view st st' \<and> map evId es' = map evId es
     \<and> (\<forall>e' \<in> set es'. \<not> isTerminal e' \<longrightarrow> (\<exists>e \<in> set es. evId e = evId e' \<and> \<not> isTerminal e))
     \<and> (\<forall>k e. u k = Some e \<longrightarrow> evId e = k \<and> isTerminal e \<and> e \<in> set es')"
proof (induction es arbitrary: st es' u st')
  case (Cons e es)
  define es1 u1 st1 where "es1 = (\<lambda>s. fst (fst (sweep cfg now es s)))"
    and "u1 = (\<lambda>s. snd (fst (sweep cfg now es s)))" and "st1 = (\<lambda>s. snd (sweep cfg now es s))"
  then have rest: "sweep cfg now es s = ((es1 s, u1 s), st1 s)" for s by simp
  have IH: "same_view s (st1 s) \<and> map evId (es1 s) = map evId es
     \<and> (\<forall>e' \<in> set (es1 s). \<not> isTerminal e' \<longrightarrow> (\<exists>e \<in> set es. evId e = evId e' \<and> \<not> isTerminal e))
     \<and> (\<forall>k e. u1 s k = Some e \<longrightarrow> evId e = k \<and> isTerminal e \<and> e \<in> set (es1 s))" for s
    by (rule Cons.IH [OF rest])
  show ?case
  proof (cases "in_sweep e")
    case True
    obtain e1 s where n: "noteExpired cfg e no_result now st = (e1, s)" by (metis prod.exhaust)
    then show ?thesis using Cons.prems IH [of s] noteExpired_view [OF n] True rest [of s]
      by (auto simp: skeleton_def same_view_def)
  next
    case False
    show ?thesis
    proof (cases "isTerminal e")
      case True
      then show ?thesis using Cons.prems IH [of st] False rest [of st] by auto
    next
      case nt: False
      let ?e = "set_timing e (legacy_timing cfg now e)"
      have k: "evId ?e = evId e" "isTerminal ?e = isTerminal e" by (simp_all add: set_timing_def isTerminal_def)
      show ?thesis
      proof (cases "notificationExpired (expiresAt ?e) now")
        case True
        obtain e1 s where n: "(if eventType ?e = ''overseer'' then expireEvent cfg ?e no_result now st
             else abandonEvent ?e now False st) = (e1, s)" by (metis prod.exhaust)
        then have "evId e1 = evId e \<and> isTerminal e1 \<and> same_view st s"
          using expireEvent_view abandon_view k by (metis (no_types, lifting))
        then show ?thesis using Cons.prems IH [of s] n False nt True rest [of s]
          by (auto simp: Let_def same_view_def split: if_splits)
      next
        case ne: False
        then show ?thesis using Cons.prems IH [of st] False nt k rest [of st] by (auto simp: Let_def)
      qed
    qed
  qed
qed simp

section \<open>Well-formed states\<close>

definition outbox_wf :: "outbox_state \<Rightarrow> bool" where
  "outbox_wf st \<longleftrightarrow> distinct (map fst (skel st)) \<and>
     (case flush_view st of None \<Rightarrow> True
      | Some (rem, u) \<Rightarrow> distinct (map evId rem) \<and> (\<forall>e \<in> set rem. u (evId e) = None)
          \<and> (\<forall>k e. u k = Some e \<longrightarrow> evId e = k))"

lemma wf_same_view: "outbox_wf st \<Longrightarrow> same_view st st' \<Longrightarrow> outbox_wf st'"
  by (simp add: outbox_wf_def same_view_def)

definition pending_in_file :: "outbox_state \<Rightarrow> string \<Rightarrow> bool" where
  "pending_in_file st k \<longleftrightarrow> (\<exists>x. (k, False, x) \<in> set (skel st))"

definition sendable :: "outbox_state \<Rightarrow> string \<Rightarrow> bool" where
  "sendable st k = (case flush_view st of
      None \<Rightarrow> pending_in_file st k
    | Some (rem, u) \<Rightarrow> k \<in> evId ` set rem
        \<or> (case u k of None \<Rightarrow> pending_in_file st k
           | Some e \<Rightarrow> k \<in> fst ` set (skel st) \<and> \<not> isTerminal e))"

lemma sendable_same_view: "same_view st st' \<Longrightarrow> sendable st' k = sendable st k"
  by (auto simp: sendable_def same_view_def pending_in_file_def split: option.splits)

lemma pending_in_file_iff:
  "pending_in_file st k \<longleftrightarrow> (\<exists>e \<in> set (outFile st). evId e = k \<and> \<not> isTerminal e)"
  by (force simp: pending_in_file_def skel_def skeleton_def)

text \<open>A change of the file alone.\<close>

lemma file_change_wf:
  "outbox_wf st \<Longrightarrow> flush_view st' = flush_view st \<Longrightarrow> distinct (map fst (skel st')) \<Longrightarrow> outbox_wf st'"
  by (simp add: outbox_wf_def)

lemma file_change_sendable:
  "flush_view st' = flush_view st \<Longrightarrow> (pending_in_file st' k \<Longrightarrow> pending_in_file st k) \<Longrightarrow>
     (k \<in> fst ` set (skel st') \<Longrightarrow> k \<in> fst ` set (skel st)) \<Longrightarrow> sendable st' k \<Longrightarrow> sendable st k"
  by (auto simp: sendable_def split: option.splits)

lemma flush_start_ok:
  assumes "outbox_wf st"
  shows "outbox_wf (flush_start cfg now st) \<and> skel (flush_start cfg now st) = skel st
    \<and> (sendable (flush_start cfg now st) k \<longrightarrow> sendable st k)"
proof (cases "flushing st")
  case None
  let ?st = "st\<lparr>flushing := Some \<lparr>flushNow = now, remaining = [], updates = Map.empty, expiryAttempts = []\<rparr>\<rparr>"
  obtain es' u st' where sw: "sweep cfg now (outFile st) ?st = ((es', u), st')" by (metis prod.exhaust)
  note v = sweep_view [OF sw]
  let ?r = "st'\<lparr>flushing := map_option (\<lambda>f. f\<lparr>remaining := filter (eligible cfg now) es', updates := u\<rparr>) (flushing st')\<rparr>"
  have eq: "flush_start cfg now st = ?r" using None sw by (simp add: flush_start_def Let_def)
  have sk: "skel ?r = skel st" using v by (simp add: same_view_def skel_def)
  have fv: "flush_view ?r = Some (filter (eligible cfg now) es', u)"
    using v by (auto simp: same_view_def flush_view_def)
  have dist: "distinct (map evId es')" using v assms by (simp add: outbox_wf_def skel_ids [symmetric])
  have "u (evId e) = None" if "e \<in> set (filter (eligible cfg now) es')" for e
  proof (rule ccontr)
    assume "u (evId e) \<noteq> None"
    then obtain x where "u (evId e) = Some x" by blast
    with v have "evId x = evId e" "isTerminal x" "x \<in> set es'" by blast+
    with that dist have "x = e" by (auto simp: distinct_map dest: inj_onD)
    with that \<open>isTerminal x\<close> show False by (simp add: eligible_def)
  qed
  then have "outbox_wf ?r" using dist assms v fv sk by (auto simp: outbox_wf_def distinct_map_filter)
  moreover have "sendable ?r k \<Longrightarrow> pending_in_file st k"
  proof -
    assume "sendable ?r k"
    then consider e where "e \<in> set es'" "eligible cfg now e" "evId e = k"
      | "u k = None" "pending_in_file ?r k" | e where "u k = Some e" "\<not> isTerminal e"
      by (auto simp: sendable_def fv split: option.splits)
    then show ?thesis
    proof cases
      case 1
      then show ?thesis using v by (fastforce simp: eligible_def pending_in_file_iff)
    next
      case 2
      then show ?thesis using sk by (simp add: pending_in_file_def)
    next
      case 3
      then show ?thesis using v by blast
    qed
  qed
  ultimately show ?thesis using sk None by (auto simp: eq sendable_def flush_view_def)
qed (use assms in \<open>simp add: flush_start_def\<close>)

definition sends :: "delivery_result \<Rightarrow> bool" where
  "sends r \<longleftrightarrow> (if resExpired r then 0 < resSent r else \<not> resHeld r \<and> resOk r)"

lemma deliver_outcome_view:
  assumes "deliver_outcome cfg e r now st = (e', st')"
  shows "evId e' = evId e \<and> same_view st st' \<and> expiresAt e' = expiresAt e \<and> (sends r \<longrightarrow> isTerminal e')"
proof (cases "resExpired r")
  case True
  let ?e = "if 0 < resSent r then e\<lparr>deliveredAt := Some now\<rparr> else e"
  obtain e1 st1 where p: "(if 0 < resSent r \<and> (0 < resFailed r \<or> 0 < resSkipped r) \<and> partialAt ?e = None
      then recordPartialDelivery ?e now st else (?e, st)) = (e1, st1)" by (metis prod.exhaust)
  have v: "evId e1 = evId e" "expiresAt e1 = expiresAt e" "same_view st st1"
    using p partial_view by (auto simp: skeleton_def split: if_splits)
  have "expireEvent cfg (if 0 < resSent r \<or> 0 < resFailed r then e1\<lparr>evAttempts := evAttempts e1 + 1\<rparr> else e1)
      r now st1 = (e', st')" using assms True p by (simp add: deliver_outcome_def Let_def)
  from expireEvent_view [OF this] v show ?thesis using same_view_trans by auto
next
  case False
  then show ?thesis using assms
    by (auto simp: deliver_outcome_def sends_def Let_def isTerminal_def skeleton_def
        dest!: partial_view abandon_view split: if_splits)
qed

lemma set_flush_frame:
  "skel (set_flush st rest e) = skel st"
  "flush_view st = Some (rem, u) \<Longrightarrow> flush_view (set_flush st rest e) = Some (rest, u(evId e \<mapsto> e))"
  by (auto simp: set_flush_def skel_def flush_view_def)

lemma flush_next_ok:
  assumes "outbox_wf st" and "flush_next cfg t r now st = (h, st')"
  shows "outbox_wf st' \<and> skel st' = skel st
    \<and> of_bool (sends r \<and> map_option evId h = Some k) + of_bool (sendable st' k)
        \<le> (of_bool (sendable st k) :: nat)
    \<and> (\<forall>e. h = Some e \<longrightarrow> \<not> notificationExpired (expiresAt e) t)"
proof (cases "\<exists>f e rest. flushing st = Some f \<and> remaining f = e # rest")
  case False
  then have "h = None \<and> st' = st" using assms(2)
    by (auto simp: flush_next_def split: option.splits list.splits)
  then show ?thesis using assms(1) by simp
next
  case True
  then obtain f e rest where f: "flushing st = Some f" "remaining f = e # rest" by blast
  then have fv: "flush_view st = Some (e # rest, updates f)" by (simp add: flush_view_def)
  have step: "\<exists>e' s. st' = set_flush s rest e' \<and> evId e' = evId e \<and> same_view st s
    \<and> (h \<noteq> None \<longrightarrow> h = Some e \<and> \<not> notificationExpired (expiresAt e) t \<and> (sends r \<longrightarrow> isTerminal e'))"
  proof (cases "notificationExpired (expiresAt e) t")
    case True
    obtain e' s where n: "(if eventType e = ''overseer'' then expireEvent cfg e no_result t st
         else abandonEvent e t False st) = (e', s)" by (metis prod.exhaust)
    then have "evId e' = evId e \<and> same_view st s"
      using expireEvent_view [of cfg e no_result t st e' s] abandon_view [of e t False st e' s]
      by (simp split: if_splits)
    moreover have "h = None \<and> st' = set_flush s rest e'"
      using assms(2) f True n by (simp add: flush_next_def)
    ultimately show ?thesis by blast
  next
    case False
    obtain e' s where n: "deliver_outcome cfg e r now st = (e', s)" by (metis prod.exhaust)
    have "h = Some e \<and> st' = set_flush s rest e'"
      using assms(2) f False n by (simp add: flush_next_def)
    then show ?thesis using deliver_outcome_view [OF n] False by blast
  qed
  then obtain e' s where s: "st' = set_flush s rest e'" "evId e' = evId e" "same_view st s"
    and h: "h \<noteq> None \<longrightarrow> h = Some e \<and> \<not> notificationExpired (expiresAt e) t \<and> (sends r \<longrightarrow> isTerminal e')"
    by blast
  have fv': "flush_view st' = Some (rest, (updates f)(evId e \<mapsto> e'))"
  proof -
    have "flush_view s = Some (e # rest, updates f)" using s(3) fv by (simp add: same_view_def)
    from set_flush_frame(2) [OF this, of rest e'] show ?thesis by (simp only: s(1,2))
  qed
  have sk: "skel st' = skel st" using s(3) unfolding s(1) by (simp add: set_flush_frame same_view_def)
  have "evId e \<notin> evId ` set rest" using assms(1) fv by (simp add: outbox_wf_def)
  then have "\<forall>x \<in> set rest. evId x \<noteq> evId e" by (metis imageI)
  then have "outbox_wf st'" using assms(1) fv fv' sk s(2) by (auto simp: outbox_wf_def)
  moreover have "of_bool (sends r \<and> map_option evId h = Some k) + of_bool (sendable st' k)
        \<le> (of_bool (sendable st k) :: nat)"
  proof (cases "k = evId e")
    case True
    have "sendable st k" using fv True by (simp add: sendable_def)
    moreover have "\<not> sendable st' k" if "isTerminal e'"
      using that fv' True \<open>\<forall>x \<in> set rest. evId x \<noteq> evId e\<close> by (auto simp: sendable_def)
    ultimately show ?thesis using h by (cases h) auto
  next
    case False
    then have "map_option evId h \<noteq> Some k" using h by (cases h) auto
    moreover have "sendable st' k = sendable st k"
      using fv fv' sk False by (simp add: sendable_def pending_in_file_def split: option.split)
    ultimately show ?thesis by simp
  qed
  ultimately show ?thesis using sk h by (cases h) simp_all
qed

definition keyed :: "(string \<rightharpoonup> outbox_event) \<Rightarrow> bool" where
  "keyed u \<longleftrightarrow> (\<forall>k e. u k = Some e \<longrightarrow> evId e = k)"

lemma keyed_remove: "keyed u \<Longrightarrow> keyed (u(k := None))"
  by (simp add: keyed_def)

lemma merge_updates_ids: "keyed u \<Longrightarrow> map evId (merge_updates cfg now u es) = map evId es"
proof (induction es arbitrary: u)
  case (Cons e es)
  have IH: "map evId (merge_updates cfg now u es) = map evId es"
    "map evId (merge_updates cfg now (u(evId e := None)) es) = map evId es"
    by (rule Cons.IH [OF Cons.prems], rule Cons.IH [OF keyed_remove [OF Cons.prems]])
  show ?case
  proof (cases "u (evId e)")
    case (Some x)
    then have "evId x = evId e" using Cons.prems by (simp add: keyed_def)
    then show ?thesis using Some IH by (simp add: split_beta)
  qed (simp add: IH)
qed simp

lemma merge_updates_pending:
  "keyed u \<Longrightarrow> distinct (map evId es) \<Longrightarrow> e' \<in> set (merge_updates cfg now u es) \<Longrightarrow>
     (case u (evId e') of None \<Rightarrow> e' \<in> set es | Some e \<Rightarrow> isTerminal e' = isTerminal e)"
proof (induction es arbitrary: u)
  case (Cons e es)
  show ?case
  proof (cases "u (evId e)")
    case None
    then show ?thesis using Cons.IH [OF Cons.prems(1)] Cons.prems by (auto split: option.splits)
  next
    case (Some x)
    let ?rest = "merge_updates cfg now (u(evId e := None)) es"
    have x: "evId x = evId e" using Some Cons.prems(1) by (simp add: keyed_def)
    have "(evId e' = evId e \<and> isTerminal e' = isTerminal x) \<or> e' \<in> set ?rest"
      using Cons.prems(3) Some x by (auto simp: isTerminal_def split_beta)
    moreover have IH: "case (u(evId e := None)) (evId e') of None \<Rightarrow> e' \<in> set es
        | Some e \<Rightarrow> isTerminal e' = isTerminal e" if "e' \<in> set ?rest"
      by (rule Cons.IH [OF keyed_remove [OF Cons.prems(1)] _ that]) (use Cons.prems(2) in simp)
    ultimately show ?thesis
    proof (elim disjE)
      assume "e' \<in> set ?rest"
      moreover from this have "evId e' \<in> set (map evId es)"
        using merge_updates_ids [OF keyed_remove [OF Cons.prems(1)]] by (metis image_eqI list.set_map)
      then have "evId e' \<noteq> evId e" using Cons.prems(2) by auto
      ultimately show ?thesis using IH by (auto split: option.splits)
    qed (use Some in simp)
  qed
qed simp

lemma flush_end_ok:
  assumes "outbox_wf st"
  shows "outbox_wf (flush_end cfg now st)
    \<and> map evId (outFile (flush_end cfg now st)) = map evId (outFile st)
    \<and> (sendable (flush_end cfg now st) k \<longrightarrow> sendable st k)"
proof (cases "\<exists>f. flushing st = Some f \<and> remaining f = []")
  case True
  then obtain f where f: "flushing st = Some f" "remaining f = []" by blast
  let ?es = "merge_updates cfg now (updates f) (outFile st)"
  have eq: "flush_end cfg now st = st\<lparr>flushing := None, outFile := ?es\<rparr>" using f by (simp add: flush_end_def)
  have fv: "flush_view st = Some ([], updates f)" using f by (simp add: flush_view_def)
  have u: "keyed (updates f)" using assms fv by (simp add: outbox_wf_def keyed_def)
  have d: "distinct (map evId (outFile st))" using assms by (simp add: outbox_wf_def skel_ids)
  have ids: "map evId ?es = map evId (outFile st)" by (rule merge_updates_ids [OF u])
  have ids': "fst ` set (skel st) = evId ` set ?es"
    using arg_cong [OF ids, of set] by (simp add: skel_def skeleton_def image_image)
  have "sendable st k" if "sendable (flush_end cfg now st) k"
  proof -
    from that obtain e where e: "e \<in> set ?es" "evId e = k" "\<not> isTerminal e"
      by (auto simp: eq sendable_def flush_view_def pending_in_file_iff)
    from merge_updates_pending [OF u d e(1)] e have
      "case updates f k of None \<Rightarrow> e \<in> set (outFile st) | Some x \<Rightarrow> \<not> isTerminal x"
      by (auto split: option.splits)
    then show ?thesis using e fv ids' by (auto simp: sendable_def pending_in_file_iff split: option.splits)
  qed
  moreover have "outbox_wf (flush_end cfg now st)"
    using d ids by (simp add: eq outbox_wf_def flush_view_def skel_ids [symmetric])
  ultimately show ?thesis using ids by (simp add: eq)
qed (use assms in \<open>auto simp: flush_end_def split: option.splits\<close>)

lemma retire_events_view:
  "retire_events cfg p now es st = (es', st') \<Longrightarrow> same_view st st' \<and> map evId es' = map evId es
     \<and> (\<forall>e' \<in> set es'. \<not> isTerminal e' \<longrightarrow> e' \<in> set es \<and> \<not> (p (evId e') \<and> evId e' \<noteq> ''''))"
proof (induction es arbitrary: st es' st')
  case (Cons e es)
  show ?case
  proof (cases "evId e = '''' \<or> isTerminal e \<or> \<not> p (evId e)")
    case True
    obtain es1 st1 where r: "retire_events cfg p now es st = (es1, st1)" by (metis prod.exhaust)
    then show ?thesis using Cons.prems Cons.IH [OF r] True by auto
  next
    case False
    let ?e = "e\<lparr>expiresAt := min (if expiresAt e = 0 then now else expiresAt e) now\<rparr>"
    obtain e1 s where x: "expireEvent cfg ?e no_result now st = (e1, s)" by (metis prod.exhaust)
    obtain es1 st1 where r: "retire_events cfg p now es s = (es1, st1)" by (metis prod.exhaust)
    then show ?thesis using Cons.prems Cons.IH [OF r] False x expireEvent_view [OF x]
      by (auto simp: Let_def same_view_def)
  qed
qed simp

lemma retire_ok:
  assumes "outbox_wf st"
  shows "outbox_wf (retire cfg p now st) \<and> map evId (outFile (retire cfg p now st)) = map evId (outFile st)
    \<and> (sendable (retire cfg p now st) k \<longrightarrow> sendable st k)"
proof -
  obtain es st1 where r: "retire_events cfg p now (outFile st) st = (es, st1)" by (metis prod.exhaust)
  note v = retire_events_view [OF r]
  show ?thesis
  proof (cases "es = outFile st")
    case True
    then have "retire cfg p now st = st1" using r by (simp add: retire_def)
    then show ?thesis using v wf_same_view [OF assms] sendable_same_view [of st st1 k]
      by (metis same_view_def skel_ids)
  next
    case False
    let ?s = "st1\<lparr>outFile := es\<rparr>"
    have eq: "retire cfg p now st = ?s" using r False by (simp add: retire_def)
    have fv: "flush_view ?s = flush_view st" using v by (simp add: same_view_def flush_view_def)
    have ids: "map fst (skel ?s) = map fst (skel st)" using v by (simp add: skel_ids [symmetric])
    then have "outbox_wf ?s" using file_change_wf [OF assms fv] assms by (simp add: outbox_wf_def)
    moreover have "sendable st k" if "sendable ?s k"
    proof (rule file_change_sendable [OF fv _ _ that])
      show "pending_in_file ?s k \<Longrightarrow> pending_in_file st k" using v by (auto simp: pending_in_file_iff)
      show "k \<in> fst ` set (skel ?s) \<Longrightarrow> k \<in> fst ` set (skel st)" using ids by (metis list.set_map)
    qed
    ultimately show ?thesis using v by (simp add: eq)
  qed
qed

lemma acknowledge_view: "same_view st (snd (acknowledgeEnqueue cfg now e st))"
proof -
  obtain e1 s where "noteExpired cfg e no_result now st = (e1, s)" by (metis prod.exhaust)
  then show ?thesis using noteExpired_view by (auto simp: acknowledgeEnqueue_def)
qed

lemma set_cap_events: "set (cap_events cfg es) \<subseteq> set es"
  by (auto simp: cap_events_def take_last_def Let_def dest!: in_set_dropD)

lemma distinct_cap_events: "distinct (map evId es) \<Longrightarrow> distinct (map evId (cap_events cfg es))"
proof -
  assume d: "distinct (map evId es)"
  let ?d = "filter isTerminal es" and ?u = "filter (\<lambda>e. \<not> isTerminal e) es"
  have "distinct (map evId (drop n ?d @ ?u))" for n
  proof -
    have "inj_on evId (set es)" using d by (simp add: distinct_map)
    then have "evId ` set ?d \<inter> evId ` set ?u = {}" by (auto dest: inj_onD)
    then have "evId ` set (drop n ?d) \<inter> evId ` set ?u = {}" using set_drop_subset [of n ?d] by blast
    moreover have "distinct (map evId (drop n ?d))" "distinct (map evId ?u)"
      using d by (simp_all add: drop_map [symmetric] distinct_map_filter)
    ultimately show ?thesis by simp
  qed
  then have "distinct (map evId (drop m (drop n ?d @ ?u)))" for m n
    unfolding drop_map [symmetric] by (rule distinct_drop)
  then show ?thesis using d unfolding cap_events_def take_last_def Let_def
    by (cases "keepCount cfg < length es") (simp_all only: if_True if_False)
qed

lemma replace_event_ids: "map evId (replace_event e es) = map evId es"
  by (simp add: replace_event_def sql_update_def)

lemma enqueue_file:
  obtains (same) "same_view st (snd (enqueue cfg now ev c x st))"
  | (replaced) e where "same_view (st\<lparr>outFile := replace_event e (outFile st)\<rparr>) (snd (enqueue cfg now ev c x st))"
      "evId e = js_trim (evId ev)" "evId e \<in> evId ` set (outFile st)"
      "\<exists>y \<in> set (outFile st). evId y = evId e \<and> expiresAt e \<le> snd (legacy_timing cfg now y)"
  | (added) e where "same_view (st\<lparr>outFile := cap_events cfg (outFile st @ [e])\<rparr>) (snd (enqueue cfg now ev c x st))"
      "evId e = js_trim (evId ev)" "evId e \<notin> evId ` set (outFile st)"
proof (cases "normalizeEvent cfg now ev c x")
  case None
  then show ?thesis using same by (simp add: enqueue_def)
next
  case (Some n)
  have n: "evId n = js_trim (evId ev)"
    using Some by (auto simp: normalizeEvent_def set_timing_def Let_def split: if_splits)
  have mk: "evId (markExpired t e) = evId e" for t e by (simp add: markExpired_def)
  have mx: "expiresAt (markExpired t e) = expiresAt e" for t e by (simp add: markExpired_def)
  have tm: "evId (set_timing e p) = evId e" for e p by (simp add: set_timing_def)
  have tx: "expiresAt (set_timing e p) = snd p" for e p by (simp add: set_timing_def)
  show ?thesis
  proof (cases "find (\<lambda>y. evId y = evId n) (outFile st)")
    case None
    then have "evId n \<notin> evId ` set (outFile st)" by (auto simp: find_None_iff)
    then show ?thesis
      using added [of "markExpired now n"] acknowledge_view n mk Some None by (simp add: enqueue_def Let_def)
  next
    case (Some y)
    then have y: "evId y = evId n" "y \<in> set (outFile st)" by (auto dest: find_Some_set)
    obtain c' x' where t: "legacy_timing cfg now y = (c', x')" by (metis prod.exhaust)
    let ?t = "(min (createdAt n) c', min (expiresAt n) x')"
    let ?n = "markExpired now (set_timing n ?t)" and ?r = "markExpired now (set_timing y ?t)"
    have in_file: "evId n \<in> evId ` set (outFile st)" using y by (metis image_eqI)
    show ?thesis
    proof (cases "revivesOnEnqueue y")
      case True
      then have "snd (enqueue cfg now ev c x st)
          = snd (acknowledgeEnqueue cfg now ?n (st\<lparr>outFile := replace_event ?n (outFile st)\<rparr>))"
        using \<open>normalizeEvent cfg now ev c x = Some n\<close> Some t by (simp add: enqueue_def Let_def)
      then show ?thesis
        using replaced [of ?n] acknowledge_view [of "st\<lparr>outFile := replace_event ?n (outFile st)\<rparr>" cfg now ?n]
          n in_file y t by (force simp: mk tm mx tx)
    next
      case False
      let ?b = "createdAt y \<noteq> createdAt ?r \<or> expiresAt y \<noteq> expiresAt ?r \<or> suppressedReason y \<noteq> suppressedReason ?r"
      have eq: "snd (enqueue cfg now ev c x st) = snd (acknowledgeEnqueue cfg now ?r
          (if ?b then st\<lparr>outFile := replace_event ?r (outFile st)\<rparr> else st))"
        using \<open>normalizeEvent cfg now ev c x = Some n\<close> Some t False by (simp add: enqueue_def Let_def)
      show ?thesis
      proof (cases ?b)
        case True
        then show ?thesis using eq n in_file y t
            replaced [of ?r] acknowledge_view [of "st\<lparr>outFile := replace_event ?r (outFile st)\<rparr>" cfg now ?r]
          by (force simp: mk tm mx tx)
      next
        case False
        then have "snd (enqueue cfg now ev c x st) = snd (acknowledgeEnqueue cfg now ?r st)" using eq by simp
        then show ?thesis using same acknowledge_view [of st cfg now ?r] by simp
      qed
    qed
  qed
qed

lemma enqueue_ok:
  assumes "outbox_wf st"
  shows "outbox_wf (snd (enqueue cfg now ev c x st))
    \<and> (k \<noteq> js_trim (evId ev) \<longrightarrow> sendable (snd (enqueue cfg now ev c x st)) k \<longrightarrow> sendable st k)"
proof -
  have ok: "outbox_wf s' \<and> (k \<noteq> js_trim (evId ev) \<longrightarrow> sendable s' k \<longrightarrow> sendable st k)"
    if "same_view (st\<lparr>outFile := es\<rparr>) s'" and "distinct (map evId es)"
      and "\<And>e. e \<in> set es \<Longrightarrow> e \<in> set (outFile st) \<or> evId e = js_trim (evId ev)" for es s'
  proof -
    let ?s = "st\<lparr>outFile := es\<rparr>"
    have fv: "flush_view ?s = flush_view st" by (simp add: flush_view_def)
    have wf: "outbox_wf ?s" by (rule file_change_wf [OF assms fv]) (simp add: skel_ids [symmetric] that(2))
    have "sendable st k" if "k \<noteq> js_trim (evId ev)" "sendable ?s k"
    proof (rule file_change_sendable [OF fv _ _ that(2)])
      have sub: "e \<in> set (outFile st)" if "e \<in> set es" "evId e = k" for e
        using \<open>k \<noteq> js_trim (evId ev)\<close> \<open>\<And>e. e \<in> set es \<Longrightarrow> e \<in> set (outFile st) \<or> evId e = js_trim (evId ev)\<close> that
        by blast
      then show "pending_in_file ?s k \<Longrightarrow> pending_in_file st k" by (auto simp: pending_in_file_iff)
      show "k \<in> fst ` set (skel ?s) \<Longrightarrow> k \<in> fst ` set (skel st)"
        using sub by (auto simp: skel_def skeleton_def image_image)
    qed
    then show ?thesis using wf_same_view [OF wf that(1)] sendable_same_view [OF that(1)] by simp
  qed
  have d: "distinct (map evId (outFile st))" using assms by (simp add: outbox_wf_def skel_ids)
  show ?thesis
  proof (cases rule: enqueue_file [where cfg = cfg and now = now and ev = ev and c = c and x = x and st = st])
    case same
    then show ?thesis using wf_same_view [OF assms] sendable_same_view [OF same, of k] by simp
  next
    case (replaced e)
    show ?thesis
    proof (rule ok [OF replaced(1)])
      show "distinct (map evId (replace_event e (outFile st)))" by (simp add: replace_event_ids d)
      show "y \<in> set (outFile st) \<or> evId y = js_trim (evId ev)" if "y \<in> set (replace_event e (outFile st))" for y
        using that by (auto simp: replace_event_def sql_update_def replaced(2))
    qed
  next
    case (added e)
    have d': "distinct (map evId (outFile st @ [e]))" using d added(3) by simp
    show ?thesis
      by (rule ok [OF added(1) distinct_cap_events [OF d']])
        (use set_cap_events [of cfg "outFile st @ [e]"] added(2) in auto)
  qed
qed

section \<open>Each notice is sent once\<close>

fun enqueued :: "outbox_op \<Rightarrow> string list" where
  "enqueued (Enqueue ev c x now) = [js_trim (evId ev)]"
| "enqueued _ = []"

fun outbox_act :: "outbox_config \<Rightarrow> outbox_state \<Rightarrow> outbox_op \<Rightarrow> outbox_state \<times> string option" where
  "outbox_act cfg st (FlushNext t r now) =
     (let (h, st') = flush_next cfg t r now st in (st', if sends r then map_option evId h else None))"
| "outbox_act cfg st e = (outbox_exec cfg st e, None)"

lemma outbox_act_ok:
  assumes "outbox_wf st" and "outbox_act cfg st e = (st', s)"
  shows "outbox_wf st'"
    and "of_bool (s = Some k) + of_bool (sendable st' k)
      \<le> (of_bool (sendable st k) + count_list (enqueued e) k :: nat)"
proof -
  have "outbox_wf st' \<and> of_bool (s = Some k) + of_bool (sendable st' k)
      \<le> (of_bool (sendable st k) + count_list (enqueued e) k :: nat)"
  proof (cases e)
    case (FlushNext t r now)
    obtain h u where n: "flush_next cfg t r now st = (h, u)" by (metis prod.exhaust)
    show ?thesis using flush_next_ok [OF assms(1) n, of k] assms(2) FlushNext n
      by (cases "sends r"; cases h) (auto simp: of_bool_def split: if_splits)
  next
    case (Enqueue ev c x now)
    then show ?thesis using assms(2) enqueue_ok [OF assms(1), of cfg now ev c x k]
      by (cases "k = js_trim (evId ev)") (auto simp: of_bool_def)
  qed (use assms flush_start_ok [OF assms(1), of cfg _ k]
      flush_end_ok [OF assms(1), of cfg _ k] retire_ok [OF assms(1), of cfg _ _ k] in auto)
  then show "outbox_wf st'" and "of_bool (s = Some k) + of_bool (sendable st' k)
      \<le> (of_bool (sendable st k) + count_list (enqueued e) k :: nat)" by blast+
qed

lemma outbox_exec_wf: "outbox_wf st \<Longrightarrow> outbox_wf (outbox_exec cfg st e)"
proof -
  assume "outbox_wf st"
  moreover have "fst (outbox_act cfg st e) = outbox_exec cfg st e"
    by (cases e) (simp_all split: prod.split)
  ultimately show ?thesis using outbox_act_ok(1) by (metis prod.collapse)
qed

interpretation outbox: machine "outbox_exec cfg" outbox_wf "\<lambda>e. True" for cfg
  by unfold_locales (rule outbox_exec_wf)

lemma outbox_run_wf: "outbox_wf (run (outbox_exec cfg) (createNotifyOutbox mode) es)"
  by (rule outbox.run_inv)
    (simp_all add: createNotifyOutbox_def outbox_wf_def flush_view_def skel_def list_all_iff)

interpretation notices: single_use "outbox_act cfg" sendable enqueued outbox_wf for cfg
  by unfold_locales (fact outbox_act_ok(2), fact outbox_act_ok(1))

section \<open>Deadlines are fixed\<close>

definition deadline_le :: "outbox_event list \<Rightarrow> string \<Rightarrow> int \<Rightarrow> bool" where
  "deadline_le es k d \<longleftrightarrow>
     (\<forall>e \<in> set es. evId e = k \<longrightarrow> expiresAt e \<le> d \<or> (d = 0 \<and> isTerminal e))"

lemma deadline_le_skel:
  "deadline_le (outFile st) k d \<longleftrightarrow>
     (\<forall>x \<in> set (skel st). fst x = k \<longrightarrow> snd (snd x) \<le> d \<or> (d = 0 \<and> fst (snd x)))"
  by (simp add: deadline_le_def skel_def skeleton_def)

lemma deadline_same_view:
  "same_view st st' \<Longrightarrow> deadline_le (outFile st') k d = deadline_le (outFile st) k d"
  by (simp add: deadline_le_skel same_view_def)

lemma legacy_timing_le: "0 \<le> expiresAt e \<Longrightarrow> snd (legacy_timing cfg now e) \<le> expiresAt e"
  by (auto simp: legacy_timing_def notificationTiming_def Let_def)

lemma merge_updates_deadline:
  "\<forall>e \<in> set es. evId e = k \<longrightarrow> 0 \<le> expiresAt e \<and> expiresAt e \<le> d \<Longrightarrow> keyed u \<Longrightarrow>
     deadline_le (merge_updates cfg now u es) k d"
proof (induction es arbitrary: u)
  case (Cons e es)
  have IH: "deadline_le (merge_updates cfg now v es) k d" if "keyed v" for v
    using Cons.IH [OF _ that] Cons.prems by simp
  show ?case
  proof (cases "u (evId e)")
    case None
    then show ?thesis using IH [OF Cons.prems(2)] Cons.prems(1) by (simp add: deadline_le_def)
  next
    case (Some x)
    have "evId x = evId e" using Some Cons.prems(2) by (simp add: keyed_def)
    moreover have "evId e = k \<Longrightarrow> snd (legacy_timing cfg now e) \<le> d"
      using legacy_timing_le [of e cfg now] Cons.prems(1) by fastforce
    moreover have "deadline_le (merge_updates cfg now (u(evId e := None)) es) k d"
      by (rule IH [OF keyed_remove [OF Cons.prems(2)]])
    ultimately show ?thesis using Some by (auto simp: deadline_le_def split_beta)
  qed
qed (simp add: deadline_le_def)

lemma retire_events_deadline:
  "retire_events cfg p now es st = (es', st') \<Longrightarrow>
     \<forall>e \<in> set es. evId e = k \<longrightarrow> 0 \<le> expiresAt e \<and> expiresAt e = d \<Longrightarrow> deadline_le es' k d"
proof (induction es arbitrary: st es' st')
  case (Cons e es)
  show ?case
  proof (cases "evId e = '''' \<or> isTerminal e \<or> \<not> p (evId e)")
    case True
    obtain es1 st1 where r: "retire_events cfg p now es st = (es1, st1)" by (metis prod.exhaust)
    have "deadline_le es1 k d" by (rule Cons.IH [OF r]) (use Cons.prems(2) in auto)
    moreover have "es' = e # es1" using Cons.prems(1) True r by auto
    ultimately show ?thesis using Cons.prems(2) by (simp add: deadline_le_def)
  next
    case False
    let ?e = "e\<lparr>expiresAt := min (if expiresAt e = 0 then now else expiresAt e) now\<rparr>"
    obtain e1 s where x: "expireEvent cfg ?e no_result now st = (e1, s)" by (metis prod.exhaust)
    obtain es1 st1 where r: "retire_events cfg p now es s = (es1, st1)" by (metis prod.exhaust)
    have "deadline_le [e1] k d" using expireEvent_view [OF x] Cons.prems(2)
      by (auto simp: deadline_le_def)
    moreover have "deadline_le es1 k d" by (rule Cons.IH [OF r]) (use Cons.prems(2) in auto)
    moreover have "es' = e1 # es1" using Cons.prems(1) False x r by (simp add: Let_def)
    ultimately show ?thesis by (simp add: deadline_le_def)
  qed
qed (simp add: deadline_le_def)

lemma exec_deadline:
  assumes "outbox_wf st" and "e \<in> set (outFile st)" and "0 \<le> expiresAt e"
  shows "deadline_le (outFile (outbox_exec cfg st x)) (evId e) (expiresAt e)"
proof -
  have "distinct (map evId (outFile st))" using assms(1) by (simp add: outbox_wf_def skel_ids)
  then have same: "y = e" if "y \<in> set (outFile st)" "evId y = evId e" for y
    using that assms(2) by (auto simp: distinct_map dest: inj_onD)
  then have base: "deadline_le (outFile st) (evId e) (expiresAt e)" by (auto simp: deadline_le_def)
  show ?thesis
  proof (cases x)
    case (Enqueue ev c y now)
    show ?thesis
    proof (cases rule: enqueue_file [where cfg = cfg and now = now and ev = ev and c = c and x = y and st = st])
      case same
      then show ?thesis using base deadline_same_view Enqueue by simp
    next
      case (replaced z)
      from replaced(4) same assms(3) legacy_timing_le [of e cfg now]
      have "evId z = evId e \<Longrightarrow> expiresAt z \<le> expiresAt e" by force
      then have "deadline_le (replace_event z (outFile st)) (evId e) (expiresAt e)"
        using base by (auto simp: deadline_le_def replace_event_def sql_update_def)
      then show ?thesis using deadline_same_view [OF replaced(1)] Enqueue by simp
    next
      case (added z)
      have "evId z \<noteq> evId e" using added(3) assms(2) by (metis image_eqI)
      then have "deadline_le (cap_events cfg (outFile st @ [z])) (evId e) (expiresAt e)"
        using base set_cap_events [of cfg "outFile st @ [z]"] by (auto simp: deadline_le_def)
      then show ?thesis using deadline_same_view [OF added(1)] Enqueue by simp
    qed
  next
    case (FlushStart now)
    then show ?thesis using base flush_start_ok [OF assms(1), of cfg now] by (simp add: deadline_le_skel)
  next
    case (FlushNext t r now)
    obtain h u where "flush_next cfg t r now st = (h, u)" by (metis prod.exhaust)
    then show ?thesis using FlushNext base flush_next_ok [OF assms(1)] by (simp add: deadline_le_skel)
  next
    case (FlushEnd now)
    show ?thesis
    proof (cases "\<exists>f. flushing st = Some f \<and> remaining f = []")
      case True
      then obtain f where f: "flushing st = Some f" "remaining f = []" by blast
      then have "keyed (updates f)" using assms(1) by (simp add: outbox_wf_def flush_view_def keyed_def)
      from merge_updates_deadline [OF _ this, of "outFile st" "evId e" "expiresAt e" cfg now] same assms(3)
      have "deadline_le (merge_updates cfg now (updates f) (outFile st)) (evId e) (expiresAt e)" by blast
      then show ?thesis using f FlushEnd by (simp add: flush_end_def)
    qed (use base FlushEnd in \<open>auto simp: flush_end_def split: option.splits\<close>)
  next
    case (Retire p now)
    obtain es s where r: "retire_events cfg p now (outFile st) st = (es, s)" by (metis prod.exhaust)
    have "deadline_le es (evId e) (expiresAt e)"
      by (rule retire_events_deadline [OF r]) (use same assms(3) in blast)
    moreover have "deadline_le (outFile s) (evId e) (expiresAt e)"
      using base deadline_same_view retire_events_view [OF r] by blast
    ultimately show ?thesis using r Retire by (simp add: retire_def)
  qed
qed

section \<open>The attempt cap\<close>

definition default_outbox :: outbox_config where
  "default_outbox = \<lparr>maxAttempts = 100, keepCount = 100, maxAgeMs = 48 * 60 * 60 * 1000,
     backoffBaseMs = 60000, backoffMaxMs = 3600000\<rparr>"

definition plain_failure :: "delivery_result \<Rightarrow> bool" where
  "plain_failure r \<longleftrightarrow> \<not> resExpired r \<and> \<not> resHeld r \<and> \<not> resOk r \<and> \<not> resSuppressed r \<and> \<not> resTerminal r"

text \<open>Deliveries of one event that all fail, each at a time at which a flush would try it.\<close>

fun failed_tries ::
  "outbox_config \<Rightarrow> outbox_event \<Rightarrow> outbox_state \<Rightarrow> (int \<times> delivery_result) list \<Rightarrow> bool" where
  "failed_tries cfg e st [] = True"
| "failed_tries cfg e st ((t, r) # tries) =
     (eligible cfg t e \<and> \<not> notificationExpired (expiresAt e) t \<and> plain_failure r
      \<and> (let (e, st) = deliver_outcome cfg e r t st in failed_tries cfg e st tries))"

lemma plain_failure_outcome:
  "plain_failure r \<Longrightarrow> deliver_outcome cfg e r t st
     = (e\<lparr>evAttempts := evAttempts e + 1, lastError := Some (failure_text r),
          nextAttemptAt := Some (t + doubling (backoffBaseMs cfg) (backoffMaxMs cfg) (evAttempts e))\<rparr>, st)"
  by (simp add: plain_failure_def deliver_outcome_def backoff_delay_def doubling_def)

lemma failed_tries_span:
  "failed_tries cfg e st ((t, r) # tries) \<Longrightarrow>
     t + (\<Sum>i<length tries. doubling (backoffBaseMs cfg) (backoffMaxMs cfg) (evAttempts e + i)) < expiresAt e"
proof (induction tries arbitrary: e st t r)
  case (Cons x tries)
  obtain t' r' where x: "x = (t', r')" by (cases x)
  let ?D = "doubling (backoffBaseMs cfg) (backoffMaxMs cfg)"
  let ?e = "e\<lparr>evAttempts := evAttempts e + 1, lastError := Some (failure_text r),
      nextAttemptAt := Some (t + ?D (evAttempts e))\<rparr>"
  have "plain_failure r" using Cons.prems by simp
  with Cons.prems have rest: "failed_tries cfg ?e st ((t', r') # tries)"
    by (simp add: x plain_failure_outcome [OF \<open>plain_failure r\<close>])
  then have "t + ?D (evAttempts e) \<le> t'" by (simp add: eligible_def)
  moreover have "t' + (\<Sum>i<length tries. ?D (evAttempts e + 1 + i)) < expiresAt e"
    using Cons.IH [OF rest] by simp
  ultimately show ?case by (simp add: sum.lessThan_Suc_shift del: sum.lessThan_Suc)
qed (simp add: notificationExpired_def)

interpretation outbox_backoff: backoff "\<lambda>n. doubling 60000 3600000 (6 + n)" 3600000 3600000
proof
  show "3600000 \<le> doubling 60000 3600000 (6 + n)" for n
  proof -
    have "(2::int) ^ 6 \<le> 2 ^ (6 + n)" by (rule power_increasing) simp_all
    then show ?thesis by (simp add: doubling_def)
  qed
next
  show "doubling 60000 3600000 (6 + m) \<le> doubling 60000 3600000 (6 + n)" if "m \<le> n" for m n
    using backoff.delay_mono [OF doubling_backoff [of 60000 3600000]] that by simp
qed (simp add: doubling_def)

section \<open>Properties\<close>

text \<open>C20. A flush never loses a queued notice: from any reachable state only an enqueue can take an
  event out of the outbox file, and only when the file is at its cap; the end of a flush in
  particular keeps the notices that were enqueued while its deliveries were awaited.\<close>

theorem flush_keeps_queued:
  assumes "st = run (outbox_exec cfg) (createNotifyOutbox mode) es"
    and "enqueued e = [] \<or> length (outFile st) < keepCount cfg"
  shows "evId ` set (outFile st) \<subseteq> evId ` set (outFile (outbox_exec cfg st e))"
proof -
  have wf: "outbox_wf st" unfolding assms(1) by (rule outbox_run_wf)
  have ids: "evId ` set (outFile s) = fst ` set (skel s)" for s
    by (simp add: skel_def skeleton_def image_image)
  show ?thesis
  proof (cases e)
    case (Enqueue ev c x now)
    then have len: "length (outFile st) < keepCount cfg" using assms(2) by simp
    show ?thesis
    proof (cases rule: enqueue_file [where cfg = cfg and now = now and ev = ev and c = c and x = x and st = st])
      case same
      then show ?thesis using Enqueue by (simp add: ids same_view_def)
    next
      case (replaced z)
      have "evId ` set (replace_event z (outFile st)) = evId ` set (outFile st)"
        using replace_event_ids [of z "outFile st"] by (metis list.set_map)
      moreover have "evId ` set (outFile (snd (enqueue cfg now ev c x st)))
          = evId ` set (replace_event z (outFile st))"
        using replaced(1) by (simp add: ids same_view_def) (simp add: skel_def skeleton_def image_image)
      ultimately show ?thesis using Enqueue by simp
    next
      case (added z)
      have "evId ` set (outFile (snd (enqueue cfg now ev c x st))) = evId ` set (outFile st @ [z])"
        using added(1) len by (simp add: ids same_view_def cap_events_def)
          (simp add: skel_def skeleton_def image_image)
      then show ?thesis using Enqueue by auto
    qed
  next
    case (FlushStart now)
    then show ?thesis using flush_start_ok [OF wf, of cfg now] by (simp add: ids)
  next
    case (FlushNext t r now)
    obtain h u where "flush_next cfg t r now st = (h, u)" by (metis prod.exhaust)
    then show ?thesis using FlushNext flush_next_ok [OF wf] by (simp add: ids)
  next
    case (FlushEnd now)
    then show ?thesis using flush_end_ok [OF wf, of cfg now] by (metis list.set_map order_refl outbox_exec.simps(4))
  next
    case (Retire p now)
    then show ?thesis using retire_ok [OF wf, of cfg p now] by (metis list.set_map order_refl outbox_exec.simps(5))
  qed
qed

definition demo_notice :: "string \<Rightarrow> outbox_event" where
  "demo_notice i = \<lparr>evId = i, eventType = ''info'', operationId = None, message = ''m'',
     verbose = False, audit = False, createdAt = 0, expiresAt = 0, expiryRecordedAt = None,
     evAttempts = 0, deliveredAt = None, lastError = None, nextAttemptAt = None, abandonedAt = None,
     abandonedTerminal = False, partialAt = None, suppressedAt = None, suppressedReason = None,
     expiryDelivery = None\<rparr>"

definition ok_result :: delivery_result where
  "ok_result = no_result\<lparr>resOk := True, resSent := 1\<rparr>"

theorem flush_keeps_queued_witness:
  "''b'' \<in> evId ` set (outFile (run (outbox_exec default_outbox) (createNotifyOutbox SinkWorks)
     [Enqueue (demo_notice ''a'') None None 10, FlushStart 20, Enqueue (demo_notice ''b'') None None 25,
      FlushNext 20 ok_result 30, FlushEnd 31]))"
proof -
  let ?es = "[Enqueue (demo_notice ''a'') None None 10, FlushStart 20,
      Enqueue (demo_notice ''b'') None None 25, FlushNext 20 ok_result 30]"
  have "''b'' \<in> evId ` set (outFile (run (outbox_exec default_outbox) (createNotifyOutbox SinkWorks) ?es))"
    by code_simp
  with flush_keeps_queued [OF refl, of "FlushEnd 31" default_outbox SinkWorks ?es]
  have "''b'' \<in> evId ` set (outFile (outbox_exec default_outbox
      (run (outbox_exec default_outbox) (createNotifyOutbox SinkWorks) ?es) (FlushEnd 31)))" by (simp only: enqueued.simps) blast
  then show ?thesis by simp
qed

text \<open>C21. A notice is sent at most once per enqueue: over any interleaving of enqueues, flush steps
  and retirements from the empty outbox, the deliveries that reached a channel under an id are at
  most as many as the times that id was enqueued; and no event is handed to \<open>deliver\<close> past its deadline.\<close>

theorem notices_sent_once:
  "count_list (redeemed (outbox_act cfg) (createNotifyOutbox mode) es) i
     \<le> count_list (concat (map enqueued es)) i
   \<and> (\<forall>e. fst (flush_next cfg t r now (run (outbox_exec cfg) (createNotifyOutbox mode) es)) = Some e
         \<longrightarrow> \<not> notificationExpired (expiresAt e) t)"
proof
  have "outbox_wf (createNotifyOutbox mode)" using outbox_run_wf [of cfg mode "[]"] by simp
  from notices.redeemed_count [OF this, of cfg es i]
  show "count_list (redeemed (outbox_act cfg) (createNotifyOutbox mode) es) i
     \<le> count_list (concat (map enqueued es)) i"
    by (simp add: createNotifyOutbox_def sendable_def flush_view_def pending_in_file_def skel_def)
  let ?st = "run (outbox_exec cfg) (createNotifyOutbox mode) es"
  obtain h u where n: "flush_next cfg t r now ?st = (h, u)" by (metis prod.exhaust)
  from flush_next_ok [OF outbox_run_wf n] n
  show "\<forall>e. fst (flush_next cfg t r now ?st) = Some e \<longrightarrow> \<not> notificationExpired (expiresAt e) t"
    by simp
qed

theorem notices_sent_once_witness:
  "redeemed (outbox_act default_outbox) (createNotifyOutbox SinkWorks)
     [Enqueue (demo_notice ''a'') None None 10, FlushStart 20, FlushNext 20 ok_result 30,
      Enqueue (demo_notice ''a'') None None 31, FlushEnd 32, FlushStart 40, FlushNext 40 ok_result 41] = [''a'']
   \<and> count_list (redeemed (outbox_act default_outbox) (createNotifyOutbox SinkWorks)
     [Enqueue (demo_notice ''a'') None None 10, FlushStart 20, FlushNext 20 ok_result 30,
      Enqueue (demo_notice ''a'') None None 31, FlushEnd 32, FlushStart 40, FlushNext 40 ok_result 41]) ''a'' \<le> 2"
proof -
  let ?es = "[Enqueue (demo_notice ''a'') None None 10, FlushStart 20, FlushNext 20 ok_result 30,
      Enqueue (demo_notice ''a'') None None 31, FlushEnd 32, FlushStart 40, FlushNext 40 ok_result 41]"
  have "redeemed (outbox_act default_outbox) (createNotifyOutbox SinkWorks) ?es = [''a'']" by code_simp
  moreover have "count_list (concat (map enqueued ?es)) ''a'' = 2" by code_simp
  ultimately show ?thesis
    using conjunct1 [OF notices_sent_once [of default_outbox SinkWorks ?es "''a''" 0 ok_result 0]]
    by linarith
qed

text \<open>Deadlines are fixed: whatever a step does (a repeated enqueue of the same id, a flush, a
  retirement), the event that keeps an id in the file never gets a later deadline; only a
  malformed zero deadline can be rewritten, and only by a retirement that ends the event.\<close>

lemma deadline_never_extended:
  assumes "st = run (outbox_exec cfg) (createNotifyOutbox mode) es"
    and "e \<in> set (outFile st)" and "0 \<le> expiresAt e"
    and "e' \<in> set (outFile (outbox_exec cfg st x))" and "evId e' = evId e"
  shows "expiresAt e' \<le> expiresAt e \<or> (expiresAt e = 0 \<and> isTerminal e')"
  using exec_deadline [OF _ assms(2,3), of cfg x] outbox_run_wf assms(1,4,5)
  by (auto simp: deadline_le_def)

text \<open>The attempt cap is a belt only: under the default backoff, an event created at or before
  its first try and due within 48 hours of its creation cannot fail as often as the cap before its
  deadline, so it ends by its deadline and is never silently stuck at the cap.\<close>

lemma attempts_never_exhausted:
  assumes "failed_tries default_outbox e st ((t, r) # tries)" and "evAttempts e = 0"
    and "createdAt e \<le> t" and "expiresAt e \<le> createdAt e + maxAgeMs default_outbox"
  shows "length ((t, r) # tries) < maxAttempts default_outbox"
proof -
  let ?D = "doubling 60000 3600000"
  from failed_tries_span [OF assms(1)] assms(2-4)
  have span: "(\<Sum>i<length tries. ?D i) < 172800000" by (simp add: default_outbox_def)
  show ?thesis
  proof (rule ccontr)
    assume "\<not> ?thesis"
    then have "6 + 49 \<le> length tries" by (simp add: default_outbox_def)
    then have "(\<Sum>i<6 + 49. ?D i) \<le> (\<Sum>i<length tries. ?D i)"
      by (intro sum_mono2) (auto simp: doubling_def)
    moreover have "(\<Sum>i<6 + 49. ?D i) = (\<Sum>i<6. ?D i) + (\<Sum>i<49. ?D (6 + i))"
      by (rule sum_split)
    moreover have "int 49 * 3600000 \<le> (\<Sum>i<49. ?D (6 + i))"
      using outbox_backoff.total_wait_lower [of 49 0] by simp
    moreover have "0 \<le> (\<Sum>i<6. ?D i)" by (intro sum_nonneg) (simp add: doubling_def)
    ultimately show False using span by simp
  qed
qed

text \<open>A retirement during a flush does not reach the events the flush already took: the notice is
  retired while an earlier delivery is awaited, and still handed to \<open>deliver\<close> afterwards.\<close>

lemma retired_notice_still_sent:
  "let st = run (outbox_exec default_outbox) (createNotifyOutbox SinkWorks)
       [Enqueue (demo_notice ''a'') None None 10, Enqueue (demo_notice ''b'') None None 11, FlushStart 20,
        FlushNext 20 ok_result 30, Retire (\<lambda>i. i = ''b'') 25] in
   map (\<lambda>e. (evId e, suppressedReason e)) (outFile st) = [(''a'', None), (''b'', Some ''expired'')]
   \<and> map_option evId (fst (flush_next default_outbox 31 ok_result 35 st)) = Some ''b''"
  by code_simp

end
