(* ===== verification/Agent_Confirm.thy ===== *)
theory Agent_Confirm
  imports Prelude
begin

text \<open>
  The confirmation codes an agent needs for dangerous operations
  (\<open>lib/server/agent-admin/confirm-service.js\<close> over the table \<open>agent_admin_confirms\<close> of
  \<open>lib/server/db/agent-admin/index.js\<close>) and the enforcement middleware that asks for them
  (\<open>lib/server/agent-admin/enforcement.js\<close>).

  Of a request the model has the actor, the operation the manifest finds for it and its tier, the
  confirm header, and its parameters hash: \<open>findOp\<close>, \<open>resolveTier\<close> and the hash of the canonical
  request are computed elsewhere. The fresh id and code of a minted confirmation
  (\<open>crypto.randomUUID\<close>, \<open>genCode\<close>) are inputs. ISO timestamps are their milliseconds.
\<close>

section \<open>The table\<close>

datatype confirm_status = Pending | Expired | Exhausted | Redeemed

record confirm =
  confId :: string
  confOp :: string
  confHash :: string
  confCode :: string
  confSummary :: string
  confStatus :: confirm_status
  confAttempts :: nat
  confCreatedAt :: int
  confExpiresAt :: int
  confRedeemedAt :: "int option"

type_synonym confirms = "confirm list"

text \<open>\<open>None\<close>: the primary key is taken and the statement throws.\<close>

definition insertConfirm ::
  "string \<Rightarrow> string \<Rightarrow> string \<Rightarrow> string \<Rightarrow> string \<Rightarrow> int \<Rightarrow> int \<Rightarrow> confirms \<Rightarrow> confirms option" where
  "insertConfirm i op hash code summary now expires db =
     (if 0 < sql_count (\<lambda>r. confId r = i) db then None
      else Some (db @ [\<lparr>confId = i, confOp = op, confHash = hash, confCode = code,
             confSummary = summary, confStatus = Pending, confAttempts = 0, confCreatedAt = now,
             confExpiresAt = expires, confRedeemedAt = None\<rparr>]))"

text \<open>\<open>ORDER BY created_at DESC LIMIT 1\<close>.\<close>

fun newest :: "confirms \<Rightarrow> confirm option" where
  "newest [] = None"
| "newest (r # rs) = (case newest rs of None \<Rightarrow> Some r
     | Some q \<Rightarrow> if confCreatedAt r < confCreatedAt q then Some q else Some r)"

definition active_for :: "string \<Rightarrow> string \<Rightarrow> int \<Rightarrow> confirm \<Rightarrow> bool" where
  "active_for op hash now r \<longleftrightarrow> confOp r = op \<and> confHash r = hash \<and> confStatus r = Pending
     \<and> now < confExpiresAt r"

definition findActiveConfirm :: "string \<Rightarrow> string \<Rightarrow> int \<Rightarrow> confirms \<Rightarrow> confirm option" where
  "findActiveConfirm op hash now db = newest (filter (active_for op hash now) db)"

definition countPending :: "int \<Rightarrow> confirms \<Rightarrow> nat" where
  "countPending now db = sql_count (\<lambda>r. confStatus r = Pending \<and> now < confExpiresAt r) db"

definition pruneExpired :: "int \<Rightarrow> confirms \<Rightarrow> confirms" where
  "pruneExpired now db = sql_delete (\<lambda>r. confStatus r \<noteq> Pending \<or> confExpiresAt r \<le> now) db"

datatype redeem_result = RedeemOk string | RedeemInvalid | RedeemExpired | RedeemExhausted

definition set_status :: "string \<Rightarrow> confirm_status \<Rightarrow> confirms \<Rightarrow> confirms" where
  "set_status i s = sql_update (\<lambda>r. confId r = i) (\<lambda>r. r\<lparr>confStatus := s\<rparr>)"

definition redeemConfirm ::
  "string \<Rightarrow> string \<Rightarrow> string \<Rightarrow> int \<Rightarrow> nat \<Rightarrow> confirms \<Rightarrow> redeem_result \<times> confirms" where
  "redeemConfirm code op hash now maxAttempts db =
     (case newest (filter (\<lambda>r. confOp r = op \<and> confHash r = hash \<and> confStatus r = Pending) db) of
        None \<Rightarrow> (RedeemInvalid, db)
      | Some row \<Rightarrow>
          if confExpiresAt row \<le> now then (RedeemExpired, set_status (confId row) Expired db)
          else if normalize_code (confCode row) \<noteq> normalize_code code then
            (let attempts = confAttempts row + 1;
                 status = (if maxAttempts \<le> attempts then Exhausted else Pending) in
             (if maxAttempts \<le> attempts then RedeemExhausted else RedeemInvalid,
              sql_update (\<lambda>r. confId r = confId row)
                (\<lambda>r. r\<lparr>confAttempts := attempts, confStatus := status\<rparr>) db))
          else if sql_count (\<lambda>r. confId r = confId row \<and> confStatus r = Pending) db \<noteq> 1
          then (RedeemInvalid, db)
          else (RedeemOk (confId row),
                sql_update (\<lambda>r. confId r = confId row \<and> confStatus r = Pending)
                  (\<lambda>r. r\<lparr>confStatus := Redeemed, confRedeemedAt := Some now\<rparr>) db))"

section \<open>The gate\<close>

definition kTtlMs :: int where "kTtlMs = 10 * 60 * 1000"
definition kMaxPending :: nat where "kMaxPending = 10"
definition kMaxRedeemAttempts :: nat where "kMaxRedeemAttempts = 3"

record agent_call =
  callOp :: string
  callHash :: string
  callSummary :: string
  callCode :: "string option"
  callNow :: int
  callFreshId :: string
  callFreshCode :: string
  callHasTargets :: bool

datatype gate_outcome =
    GateOk string
  | GateDenied nat string
  | ConfirmRequired string string bool
  | GateThrows

text \<open>\<open>ConfirmRequired id code reused\<close> is the 428 answer; \<open>code\<close> is what \<open>deliver\<close> is given.\<close>

definition confirm_gate :: "agent_call \<Rightarrow> confirms \<Rightarrow> gate_outcome \<times> confirms" where
  "confirm_gate c db =
     (if \<not> callHasTargets c then (GateDenied 409 ''no_admin_targets'', db)
      else (case callCode c of
        Some code \<Rightarrow>
          (let (r, db) = redeemConfirm code (callOp c) (callHash c) (callNow c) kMaxRedeemAttempts db in
           (case r of
              RedeemOk i \<Rightarrow> GateOk i
            | RedeemExpired \<Rightarrow> GateDenied 403 ''confirm_expired''
            | RedeemExhausted \<Rightarrow> GateDenied 403 ''confirm_attempts_exhausted''
            | RedeemInvalid \<Rightarrow> GateDenied 403 ''confirm_invalid'', db))
      | None \<Rightarrow>
          (let db = pruneExpired (callNow c) db in
           case findActiveConfirm (callOp c) (callHash c) (callNow c) db of
             Some existing \<Rightarrow> (ConfirmRequired (confId existing) (confCode existing) True, db)
           | None \<Rightarrow>
               if kMaxPending \<le> countPending (callNow c) db
               then (GateDenied 429 ''confirm_backlog_full'', db)
               else (case insertConfirm (callFreshId c) (callOp c) (callHash c) (callFreshCode c)
                            (callSummary c) (callNow c) (callNow c + kTtlMs) db of
                       None \<Rightarrow> (GateThrows, db)
                     | Some db' \<Rightarrow> (ConfirmRequired (callFreshId c) (callFreshCode c) False, db')))))"

section \<open>Enforcement\<close>

datatype tier = Safe | WriteTier | RestartTier | Dangerous | DeniedTier

record audit_row =
  auditOp :: "string option"
  auditTier :: "tier option"
  auditPhase :: string
  auditConfirm :: "string option"

record agent_request =
  reqIsAgent :: bool
  reqIsGet :: bool
  reqOp :: "(string \<times> tier) option"
  reqMiss :: "nat option"
  reqHasConfirmService :: bool
  reqCall :: agent_call

record enforcement_grant =
  grantOp :: string
  grantTier :: tier
  grantConfirm :: "string option"

text \<open>What the middleware does: passes a human on, answers, or calls \<open>next()\<close> with a grant, the
  outcome audit attached or not.\<close>

datatype enforcement_result =
    HumanNext
  | Respond nat string
  | GrantedNext enforcement_grant bool
  | EnforceThrows

definition deny :: "string option \<Rightarrow> tier option \<Rightarrow> audit_row list" where
  "deny op t = [\<lparr>auditOp = op, auditTier = t, auditPhase = ''denied'', auditConfirm = None\<rparr>]"

definition intent :: "string \<Rightarrow> tier \<Rightarrow> string option \<Rightarrow> audit_row list" where
  "intent op t i = [\<lparr>auditOp = Some op, auditTier = Some t, auditPhase = ''intent'', auditConfirm = i\<rparr>]"

definition enforce ::
  "agent_request \<Rightarrow> confirms \<Rightarrow> (enforcement_result \<times> audit_row list) \<times> confirms" where
  "enforce req db =
     (if \<not> reqIsAgent req then ((HumanNext, []), db)
      else (case reqOp req of
        None \<Rightarrow>
          (case reqMiss req of
             Some status \<Rightarrow> ((Respond status ''route_miss'', deny None None), db)
           | None \<Rightarrow> ((Respond 403 ''op_not_in_manifest'', deny None None), db))
      | Some (op, t) \<Rightarrow>
          (case t of
            DeniedTier \<Rightarrow> ((Respond 403 ''denied'', deny (Some op) (Some t)), db)
          | Dangerous \<Rightarrow>
              if \<not> reqHasConfirmService req
              then ((Respond 403 ''dangerous_op_requires_confirmation'', deny (Some op) (Some t)), db)
              else (let (outcome, db) = confirm_gate ((reqCall req)\<lparr>callOp := op\<rparr>) db in
                (case outcome of
                   GateOk i \<Rightarrow>
                     (GrantedNext \<lparr>grantOp = op, grantTier = t, grantConfirm = Some i\<rparr> True,
                      intent op t (Some i))
                 | GateDenied status code \<Rightarrow> (Respond status code, deny (Some op) (Some t))
                 | ConfirmRequired i code reused \<Rightarrow>
                     (Respond 428 ''confirm_required'',
                      [\<lparr>auditOp = Some op, auditTier = Some t, auditPhase = ''confirm_required'',
                        auditConfirm = Some i\<rparr>])
                 | GateThrows \<Rightarrow> (EnforceThrows, []), db))
          | RestartTier \<Rightarrow>
              ((GrantedNext \<lparr>grantOp = op, grantTier = t, grantConfirm = None\<rparr> True, intent op t None), db)
          | _ \<Rightarrow>
              ((GrantedNext \<lparr>grantOp = op, grantTier = t, grantConfirm = None\<rparr> (\<not> reqIsGet req), []), db))))"

section \<open>The table's invariant\<close>

definition confirms_wf :: "confirms \<Rightarrow> bool" where
  "confirms_wf db \<longleftrightarrow> distinct (map confId db) \<and> length db \<le> kMaxPending
     \<and> (\<forall>r \<in> set db. confAttempts r \<le> kMaxRedeemAttempts
          \<and> (confStatus r = Pending \<longrightarrow> confAttempts r < kMaxRedeemAttempts))"

lemma newest_in: "newest rs = Some r \<Longrightarrow> r \<in> set rs"
  by (induction rs arbitrary: r) (auto split: option.splits if_splits)

lemma newest_None: "newest rs = None \<longleftrightarrow> rs = []"
  by (cases rs) (auto split: option.splits if_splits)

lemma confirms_wf_update:
  assumes "confirms_wf db" and "\<And>r. p r \<Longrightarrow> confId (f r) = confId r"
    and "\<And>r. r \<in> set db \<Longrightarrow> p r \<Longrightarrow> confAttempts (f r) \<le> kMaxRedeemAttempts
      \<and> (confStatus (f r) = Pending \<longrightarrow> confAttempts (f r) < kMaxRedeemAttempts)"
  shows "confirms_wf (sql_update p f db)"
  using assms map_sql_update_key [of p confId f db] unfolding confirms_wf_def
  by (auto simp: set_sql_update)

lemma redeemConfirm_wf:
  assumes "confirms_wf db" and "redeemConfirm code op hash now kMaxRedeemAttempts db = (r, db')"
  shows "confirms_wf db'"
proof (cases "newest (filter (\<lambda>r. confOp r = op \<and> confHash r = hash \<and> confStatus r = Pending) db)")
  case (Some row)
  then have row: "row \<in> set db" "confStatus row = Pending" by (auto dest: newest_in)
  then have "confAttempts row < kMaxRedeemAttempts" using assms(1) by (simp add: confirms_wf_def)
  moreover have "\<forall>r \<in> set db. confAttempts r \<le> kMaxRedeemAttempts" using assms(1) by (simp add: confirms_wf_def)
  ultimately show ?thesis using assms Some
    by (auto simp: redeemConfirm_def set_status_def Let_def split: if_splits
        intro!: confirms_wf_update [OF assms(1)])
qed (use assms in \<open>simp add: redeemConfirm_def\<close>)

lemma prune_wf: "confirms_wf db \<Longrightarrow> confirms_wf (pruneExpired now db)"
  using distinct_key_sql_delete [of confId db] le_trans [OF length_filter_le]
  by (auto simp: confirms_wf_def pruneExpired_def set_sql_delete) (auto simp: sql_delete_def)

text \<open>After a prune every row counts as pending, so the cap bounds the table itself.\<close>

lemma countPending_pruned: "countPending now (pruneExpired now db) = length (pruneExpired now db)"
  by (simp add: countPending_def sql_count_def pruneExpired_def sql_delete_def filter_id_conv not_le)

lemma insert_wf:
  assumes "confirms_wf db" and "length db < kMaxPending"
    and "insertConfirm i op hash code s now x db = Some db'"
  shows "confirms_wf db'"
proof -
  have "i \<notin> confId ` set db" using assms(3) sql_count_pos [of _ db "\<lambda>r. confId r = i"]
    by (force simp: insertConfirm_def split: if_splits)
  then show ?thesis using assms
    by (auto simp: insertConfirm_def confirms_wf_def kMaxRedeemAttempts_def split: if_splits)
qed

lemma confirm_gate_wf: "confirms_wf db \<Longrightarrow> confirm_gate c db = (r, db') \<Longrightarrow> confirms_wf db'"
proof -
  assume wf: "confirms_wf db" and g: "confirm_gate c db = (r, db')"
  let ?p = "pruneExpired (callNow c) db"
  note pw = prune_wf [OF wf, of "callNow c"]
  show ?thesis
  proof (cases "callCode c")
    case (Some code)
    obtain x d where "redeemConfirm code (callOp c) (callHash c) (callNow c) kMaxRedeemAttempts db = (x, d)"
      by (metis prod.exhaust)
    then show ?thesis using g wf Some redeemConfirm_wf [OF wf]
      by (auto simp: confirm_gate_def split: if_splits)
  next
    case None
    then show ?thesis using g wf pw insert_wf [OF pw]
      by (auto simp: confirm_gate_def countPending_pruned Let_def split: if_splits option.splits)
  qed
qed

lemma enforce_wf: "confirms_wf db \<Longrightarrow> enforce req db = (r, db') \<Longrightarrow> confirms_wf db'"
  using confirm_gate_wf [of db "(reqCall req)\<lparr>callOp := op\<rparr>" for op]
  by (auto simp: enforce_def split: if_splits option.splits tier.splits prod.splits)

section \<open>Single use\<close>

definition confirm_live :: "confirms \<Rightarrow> string \<Rightarrow> bool" where
  "confirm_live db i \<longleftrightarrow> (\<exists>r \<in> set db. confId r = i \<and> confStatus r = Pending)"

definition granted_confirm :: "enforcement_result \<Rightarrow> string option" where
  "granted_confirm r = (case r of GrantedNext g b \<Rightarrow> grantConfirm g | _ \<Rightarrow> None)"

definition enforce_act :: "confirms \<Rightarrow> agent_request \<Rightarrow> confirms \<times> string option" where
  "enforce_act db req = (let ((r, rows), db') = enforce req db in (db', granted_confirm r))"

definition mints_confirm :: "agent_request \<Rightarrow> string list" where
  "mints_confirm req = [callFreshId (reqCall req)]"

text \<open>What a redemption answers and leaves.\<close>

lemma redeemConfirm_ok:
  assumes "confirms_wf db" and "redeemConfirm code op hash now m db = (RedeemOk i, db')"
  shows "\<exists>row \<in> set db. confId row = i \<and> confOp row = op \<and> confHash row = hash
    \<and> confStatus row = Pending \<and> now < confExpiresAt row
    \<and> normalize_code (confCode row) = normalize_code code" and "\<not> confirm_live db' i"
proof -
  let ?f = "filter (\<lambda>r. confOp r = op \<and> confHash r = hash \<and> confStatus r = Pending) db"
  obtain row where n: "newest ?f = Some row" using assms(2)
    by (cases "newest ?f") (auto simp: redeemConfirm_def)
  then have row: "row \<in> set db" "confOp row = op" "confHash row = hash" "confStatus row = Pending"
    by (auto dest: newest_in)
  from assms(2) n show "\<exists>row \<in> set db. confId row = i \<and> confOp row = op \<and> confHash row = hash
    \<and> confStatus row = Pending \<and> now < confExpiresAt row
    \<and> normalize_code (confCode row) = normalize_code code"
    using row by (auto simp: redeemConfirm_def Let_def split: if_splits)
  from assms(2) n show "\<not> confirm_live db' i"
    by (auto simp: redeemConfirm_def Let_def confirm_live_def set_sql_update split: if_splits)
qed

lemma redeemConfirm_live:
  assumes "redeemConfirm code op hash now m db = (r, db')" and "confirm_live db' i"
  shows "confirm_live db i"
proof (cases "newest (filter (\<lambda>r. confOp r = op \<and> confHash r = hash \<and> confStatus r = Pending) db)")
  case (Some row)
  then have row: "row \<in> set db" "confStatus row = Pending" by (auto dest: newest_in)
  show ?thesis
  proof (cases "i = confId row")
    case True
    then show ?thesis using row by (auto simp: confirm_live_def)
  next
    case False
    then show ?thesis using assms Some
      by (auto simp: redeemConfirm_def set_status_def Let_def confirm_live_def set_sql_update
          split: if_splits)
  qed
qed (use assms in \<open>simp add: redeemConfirm_def\<close>)

lemma confirm_gate_live:
  assumes "confirm_gate c db = (r, db')" and "confirm_live db' i" and "i \<noteq> callFreshId c"
  shows "confirm_live db i"
proof (cases "callCode c")
  case (Some code)
  obtain x d where "redeemConfirm code (callOp c) (callHash c) (callNow c) kMaxRedeemAttempts db = (x, d)"
    by (metis prod.exhaust)
  then show ?thesis using assms Some redeemConfirm_live [of code _ _ _ _ db x d i]
    by (auto simp: confirm_gate_def split: if_splits)
next
  case None
  have "r \<in> set (pruneExpired (callNow c) db) \<Longrightarrow> r \<in> set db" for r
    by (simp add: pruneExpired_def set_sql_delete)
  then have p: "confirm_live (pruneExpired (callNow c) db) i \<Longrightarrow> confirm_live db i"
    unfolding confirm_live_def by blast
  have "confirm_live (db1 @ [x]) i \<Longrightarrow> confId x \<noteq> i \<Longrightarrow> confirm_live db1 i" for db1 x
    by (auto simp: confirm_live_def)
  then have "insertConfirm (callFreshId c) op h code s n x db1 = Some db2 \<Longrightarrow> confirm_live db2 i \<Longrightarrow>
      confirm_live db1 i" for op h code s n x db1 db2
    using assms(3) by (auto simp: insertConfirm_def split: if_splits)
  then show ?thesis using assms(1,2) None p
    by (auto simp: confirm_gate_def Let_def split: if_splits option.splits)
qed

lemma confirm_gate_ok:
  assumes "confirms_wf db" and "confirm_gate c db = (GateOk i, db')"
  shows "callHasTargets c" and "\<exists>code. callCode c = Some code \<and> (\<exists>row \<in> set db. confId row = i
      \<and> confOp row = callOp c \<and> confHash row = callHash c \<and> confStatus row = Pending
      \<and> callNow c < confExpiresAt row \<and> normalize_code (confCode row) = normalize_code code)"
    and "\<not> confirm_live db' i"
proof -
  obtain code where code: "callCode c = Some code" and t: "callHasTargets c"
    using assms(2) by (auto simp: confirm_gate_def Let_def split: if_splits option.splits)
  obtain x d where rd: "redeemConfirm code (callOp c) (callHash c) (callNow c) kMaxRedeemAttempts db = (x, d)"
    by (metis prod.exhaust)
  with assms(2) code t have "x = RedeemOk i" "d = db'"
    by (auto simp: confirm_gate_def split: redeem_result.splits)
  with redeemConfirm_ok [OF assms(1), of code "callOp c" "callHash c" "callNow c" kMaxRedeemAttempts i d] rd code t
  show "callHasTargets c" and "\<exists>code. callCode c = Some code \<and> (\<exists>row \<in> set db. confId row = i
      \<and> confOp row = callOp c \<and> confHash row = callHash c \<and> confStatus row = Pending
      \<and> callNow c < confExpiresAt row \<and> normalize_code (confCode row) = normalize_code code)"
    and "\<not> confirm_live db' i" by auto
qed

text \<open>The dangerous grants of the middleware come from the gate.\<close>

lemma enforce_cases:
  assumes "enforce req db = ((r, rows), db')"
  obtains (plain) "db' = db" "granted_confirm r = None"
      "\<And>g b. r = GrantedNext g b \<Longrightarrow> grantTier g \<notin> {Dangerous, DeniedTier}"
  | (gated) op out where "reqIsAgent req" "reqOp req = Some (op, Dangerous)"
      "confirm_gate ((reqCall req)\<lparr>callOp := op\<rparr>) db = (out, db')"
      "\<And>g b. r = GrantedNext g b \<Longrightarrow> grantOp g = op \<and> (\<exists>i. out = GateOk i \<and> grantConfirm g = Some i
           \<and> rows = intent op Dangerous (Some i))"
      "granted_confirm r = (case out of GateOk i \<Rightarrow> Some i | _ \<Rightarrow> None)"
proof (cases "reqIsAgent req \<and> reqHasConfirmService req \<and> (\<exists>op. reqOp req = Some (op, Dangerous))")
  case True
  then obtain op where op: "reqOp req = Some (op, Dangerous)" by blast
  obtain out d where g: "confirm_gate ((reqCall req)\<lparr>callOp := op\<rparr>) db = (out, d)" by (metis prod.exhaust)
  have d: "d = db'" using assms True op g by (simp add: enforce_def split: gate_outcome.splits)
  show ?thesis
    by (rule gated [OF _ op g [unfolded d]])
      (use assms True op g in \<open>auto simp: enforce_def granted_confirm_def split: gate_outcome.splits\<close>)
next
  case False
  show ?thesis
    by (rule plain)
      (use assms False in \<open>auto simp: enforce_def granted_confirm_def split: if_splits option.splits tier.splits\<close>)
qed

interpretation confirm_codes: single_use enforce_act confirm_live mints_confirm confirms_wf
proof unfold_locales
  fix db db' req g i
  assume wf: "confirms_wf db" and a: "enforce_act db req = (db', g)"
  then obtain r rows where e: "enforce req db = ((r, rows), db')" and g: "g = granted_confirm r"
    by (auto simp: enforce_act_def split: prod.splits)
  show "of_bool (g = Some i) + of_bool (confirm_live db' i)
      \<le> (of_bool (confirm_live db i) + count_list (mints_confirm req) i :: nat)"
    using e
  proof (cases rule: enforce_cases)
    case (gated op out)
    show ?thesis
    proof (cases "out = GateOk i")
      case True
      from confirm_gate_ok [OF wf gated(3) [unfolded True]]
      have "confirm_live db i" "\<not> confirm_live db' i" by (auto simp: confirm_live_def)
      then show ?thesis by simp
    next
      case False
      then have "g \<noteq> Some i" using gated(5) g by (auto split: gate_outcome.splits)
      moreover have "confirm_live db' i \<Longrightarrow> i \<noteq> callFreshId (reqCall req) \<Longrightarrow> confirm_live db i"
        using confirm_gate_live [OF gated(3)] by simp
      ultimately show ?thesis by (auto simp: mints_confirm_def)
    qed
  qed (use g in simp)
  show "confirms_wf db'" using enforce_wf [OF wf e] .
qed

section \<open>Wrong codes\<close>

text \<open>A series of calls of one operation with given codes, at given times.\<close>

fun redeem_all ::
  "string \<Rightarrow> string \<Rightarrow> (string \<times> int) list \<Rightarrow> confirms \<Rightarrow> redeem_result list \<times> confirms" where
  "redeem_all op hash [] db = ([], db)"
| "redeem_all op hash ((code, now) # cs) db =
     (let (r, db) = redeemConfirm code op hash now kMaxRedeemAttempts db;
          (rs, db) = redeem_all op hash cs db in (r # rs, db))"

lemma filter_updated_row:
  assumes "distinct (map confId db)" and "filter P db = [row]" and "confId (f row) = confId row"
  shows "filter P (sql_update (\<lambda>r. confId r = confId row) f db) = (if P (f row) then [f row] else [])"
proof -
  from filter_eq_ConsD [OF assms(2)] obtain us vs where
    db: "db = us @ row # vs" "\<forall>u \<in> set us. \<not> P u" "P row" "[] = filter P vs" by blast
  have id: "sql_update (\<lambda>r. confId r = confId row) f us = us" "sql_update (\<lambda>r. confId r = confId row) f vs = vs"
    using assms(1) by (auto simp: db(1) intro!: sql_update_none) (metis image_eqI)+
  have "sql_update (\<lambda>r. confId r = confId row) f db = us @ f row # vs"
    using id by (simp add: db(1) sql_update_def)
  then show ?thesis using db(2,4) by (simp add: filter_empty_conv)
qed

definition open_rows :: "string \<Rightarrow> string \<Rightarrow> confirms \<Rightarrow> confirms" where
  "open_rows op hash db = filter (\<lambda>r. confOp r = op \<and> confHash r = hash \<and> confStatus r = Pending) db"

lemma wrong_code:
  assumes "confirms_wf db" and "open_rows op hash db = [row]" and "now < confExpiresAt row"
    and "normalize_code code \<noteq> normalize_code (confCode row)"
    and "redeemConfirm code op hash now kMaxRedeemAttempts db = (r, db')"
  shows "confirms_wf db' \<and> (\<forall>i. r \<noteq> RedeemOk i) \<and> open_rows op hash db'
    = (if kMaxRedeemAttempts \<le> confAttempts row + 1 then []
       else [row\<lparr>confAttempts := confAttempts row + 1\<rparr>])"
proof -
  let ?P = "\<lambda>r. confOp r = op \<and> confHash r = hash \<and> confStatus r = Pending"
  let ?s = "if kMaxRedeemAttempts \<le> confAttempts row + 1 then Exhausted else Pending"
  let ?f = "\<lambda>r. r\<lparr>confAttempts := confAttempts row + 1, confStatus := ?s\<rparr>"
  have f: "filter ?P db = [row]" using assms(2) by (simp add: open_rows_def)
  then have row: "?P row" by (auto dest: filter_eq_ConsD)
  have db': "db' = sql_update (\<lambda>r. confId r = confId row) ?f db" and "\<forall>i. r \<noteq> RedeemOk i"
    using assms(3-5) f by (auto simp: redeemConfirm_def Let_def split: if_splits)
  moreover have "open_rows op hash db' = (if ?P (?f row) then [?f row] else [])"
    unfolding open_rows_def db' by (rule filter_updated_row [OF _ f]) (use assms(1) in \<open>simp_all add: confirms_wf_def\<close>)
  moreover have "?f row = row\<lparr>confAttempts := confAttempts row + 1\<rparr>" if "?s = Pending"
    using row that by (cases row) simp
  ultimately show ?thesis using row redeemConfirm_wf [OF assms(1,5)] by (auto split: if_splits)
qed

lemma no_row: "open_rows op hash db = [] \<Longrightarrow>
    redeemConfirm code op hash now m db = (RedeemInvalid, db)"
  by (simp add: redeemConfirm_def open_rows_def)

lemma no_row_all: "open_rows op hash db = [] \<Longrightarrow> redeem_all op hash cs db = (rs, db') \<Longrightarrow>
    open_rows op hash db' = [] \<and> (\<forall>r \<in> set rs. r = RedeemInvalid)"
  by (induction cs arbitrary: db rs) (auto simp: no_row split: prod.splits)

lemma wrong_codes:
  assumes "confirms_wf db" and "open_rows op hash db = [row]"
    and "\<forall>(code, now) \<in> set cs. now < confExpiresAt row \<and> normalize_code code \<noteq> normalize_code (confCode row)"
    and "kMaxRedeemAttempts \<le> confAttempts row + length cs" and "confAttempts row < kMaxRedeemAttempts"
    and "redeem_all op hash cs db = (rs, db')"
  shows "open_rows op hash db' = [] \<and> (\<forall>r \<in> set rs. \<forall>i. r \<noteq> RedeemOk i)"
  using assms
proof (induction cs arbitrary: db row rs)
  case (Cons c cs)
  obtain code now where c: "c = (code, now)" by (cases c)
  obtain r d where r: "redeemConfirm code op hash now kMaxRedeemAttempts db = (r, d)" by (metis prod.exhaust)
  obtain rs' d' where rs: "redeem_all op hash cs d = (rs', d')" by (metis prod.exhaust)
  have eq: "rs = r # rs'" "db' = d'" using Cons.prems(6) r rs by (simp_all add: c)
  from wrong_code [OF Cons.prems(1,2) _ _ r] Cons.prems(3)
  have w: "confirms_wf d" "\<forall>i. r \<noteq> RedeemOk i" "open_rows op hash d
    = (if kMaxRedeemAttempts \<le> confAttempts row + 1 then []
       else [row\<lparr>confAttempts := confAttempts row + 1\<rparr>])" by (simp_all add: c)
  show ?case
  proof (cases "kMaxRedeemAttempts \<le> confAttempts row + 1")
    case True
    then show ?thesis using no_row_all [OF _ rs] w eq by auto
  next
    case False
    then have "open_rows op hash db' = [] \<and> (\<forall>r \<in> set rs'. \<forall>i. r \<noteq> RedeemOk i)"
      using w Cons.prems(3,4) rs eq(2)
      by (intro Cons.IH [of d "row\<lparr>confAttempts := confAttempts row + 1\<rparr>"]) auto
    then show ?thesis using w eq by simp
  qed
qed simp

section \<open>Properties\<close>

text \<open>C22. A confirmation authorises at most one dangerous call: over any sequence of requests, the
  dangerous operations let through under a confirmation id are at most the requests that carried
  that id as a fresh one, so one per minted code, however requests are repeated or mixed.\<close>

theorem confirm_single_use:
  "count_list (redeemed enforce_act [] reqs) i \<le> count_list (concat (map mints_confirm reqs)) i"
proof -
  have "confirms_wf []" by (simp add: confirms_wf_def)
  from confirm_codes.redeemed_count [OF this, of reqs i] show ?thesis by (simp add: confirm_live_def)
qed

text \<open>A dangerous operation runs only with the operator's confirmation of exactly that call:
  where the middleware lets a dangerous operation through, the table held a pending, unexpired
  confirmation of the same operation and parameters hash whose code the request carried, an admin
  target is configured, the grant names that confirmation, its intent is audited, and the
  confirmation can authorise nothing afterwards.\<close>

lemma dangerous_needs_confirmation:
  assumes "confirms_wf db" and "enforce req db = ((GrantedNext g b, rows), db')" and "grantTier g = Dangerous"
  shows "\<exists>op i code. reqOp req = Some (op, Dangerous) \<and> g = \<lparr>grantOp = op, grantTier = Dangerous, grantConfirm = Some i\<rparr>
    \<and> callHasTargets (reqCall req) \<and> callCode (reqCall req) = Some code
    \<and> (\<exists>row \<in> set db. confId row = i \<and> confOp row = op \<and> confHash row = callHash (reqCall req)
         \<and> confStatus row = Pending \<and> callNow (reqCall req) < confExpiresAt row
         \<and> normalize_code (confCode row) = normalize_code code)
    \<and> rows = intent op Dangerous (Some i) \<and> \<not> confirm_live db' i"
  using assms(2)
proof (cases rule: enforce_cases)
  case plain
  then show ?thesis using assms(3) by auto
next
  case (gated op out)
  then obtain i where i: "out = GateOk i" "grantOp g = op" "grantConfirm g = Some i"
    "rows = intent op Dangerous (Some i)" by blast
  have "g = \<lparr>grantOp = op, grantTier = Dangerous, grantConfirm = Some i\<rparr>" using i assms(3) by (cases g) simp
  then show ?thesis
    using confirm_gate_ok [OF assms(1) gated(3) [unfolded i(1)]] i gated(2) by auto
qed

definition demo_call :: "string option \<Rightarrow> int \<Rightarrow> agent_call" where
  "demo_call code now = \<lparr>callOp = '''', callHash = ''h1'', callSummary = ''delete'', callCode = code,
     callNow = now, callFreshId = ''c1'', callFreshCode = ''ABCD-EFGH'', callHasTargets = True\<rparr>"

definition demo_request :: "string option \<Rightarrow> int \<Rightarrow> agent_request" where
  "demo_request code now = \<lparr>reqIsAgent = True, reqIsGet = False, reqOp = Some (''keys.delete'', Dangerous),
     reqMiss = None, reqHasConfirmService = True, reqCall = demo_call code now\<rparr>"

text \<open>Codes cannot be guessed: three wrong codes for a pending confirmation, at any times before
  its expiry, exhaust it; no further code for that operation and parameters, the right one
  included, is accepted until a new confirmation is minted.\<close>

lemma wrong_codes_exhaust:
  assumes "confirms_wf db" and "open_rows op hash db = [row]"
    and "\<forall>(code, now) \<in> set cs. now < confExpiresAt row \<and> normalize_code code \<noteq> normalize_code (confCode row)"
    and "3 \<le> length cs" and "redeem_all op hash (cs @ later) db = (rs, db')"
  shows "\<forall>r \<in> set rs. \<forall>i. r \<noteq> RedeemOk i"
proof -
  have app: "redeem_all op hash (xs @ later) d = (let (rs, d1) = redeem_all op hash xs d;
      (rs', d2) = redeem_all op hash later d1 in (rs @ rs', d2))" for xs d
    by (induction xs arbitrary: d) (auto split: prod.splits)
  obtain rs1 d1 where r1: "redeem_all op hash cs db = (rs1, d1)" by (metis prod.exhaust)
  obtain rs2 d2 where r2: "redeem_all op hash later d1 = (rs2, d2)" by (metis prod.exhaust)
  have rs: "rs = rs1 @ rs2" using assms(5) by (simp add: app r1 r2)
  have "row \<in> set db" "confStatus row = Pending"
    using assms(2) by (auto simp: open_rows_def dest!: filter_eq_ConsD)
  then have "confAttempts row < kMaxRedeemAttempts" using assms(1) by (simp add: confirms_wf_def)
  then have "open_rows op hash d1 = [] \<and> (\<forall>r \<in> set rs1. \<forall>i. r \<noteq> RedeemOk i)"
    using assms(4) by (intro wrong_codes [OF assms(1,2,3) _ _ r1]) (simp_all add: kMaxRedeemAttempts_def)
  then show ?thesis using no_row_all [OF _ r2] by (auto simp: rs)
qed

text \<open>The backlog is bounded: whatever the requests, the table of confirmations never holds more
  than \<open>kMaxPending\<close> rows.\<close>

lemma confirm_backlog_bounded:
  "length (final_state enforce_act [] reqs) \<le> kMaxPending"
proof -
  have "confirms_wf (final_state enforce_act db reqs)" if "confirms_wf db" for db
    using that
  proof (induction reqs arbitrary: db)
    case (Cons req reqs)
    obtain r rows db' where e: "enforce req db = ((r, rows), db')" by (metis prod.exhaust)
    then show ?case using Cons enforce_wf [OF Cons.prems e] by (simp add: enforce_act_def)
  qed simp
  then show ?thesis by (simp add: confirms_wf_def)
qed

end
