(* ===== verification/Remote_Store.thy ===== *)
theory Remote_Store
  imports Prelude "HOL-Library.List_Lexorder" "HOL-Library.Char_ord"
begin

text \<open>
  The durable state of the relay's remote side (\<open>lib/server/relay/remote-store.js\<close>): OAuth clients,
  pending consents, authorization codes, tokens, thread bindings, the wake queue and the audit
  log. A table is the list of its rows in insertion order; a statement that violates a primary key
  or a UNIQUE constraint throws, which is \<open>None\<close> here. Tokens and codes are stored under their
  hash: the hash (\<open>crypto\<close>) and the random values are inputs. Every operation reads the clock once
  (\<open>now\<close>). \<open>Date.now()\<close> is positive, so a stamp in a nullable column is \<open>Some\<close> exactly when the
  source finds it truthy. Audit details and payloads are opaque text.
\<close>

section \<open>The tables\<close>

record client_info =
  ciRedirectUris :: "string list"
  ciName :: "string option"
  ciSecret :: "string option"
  ciSecretHash :: "string option"

record client =
  clId :: string
  clInfo :: client_info
  clCreatedAt :: int
  clConsentedAt :: "int option"
  clRevokedAt :: "int option"
  clLastUsedAt :: "int option"

record pending_request =
  pdId :: string
  pdClient :: string
  pdState :: "string option"
  pdRedirect :: string
  pdChallenge :: string
  pdResource :: string
  pdScopes :: "string list"
  pdCsrf :: string
  pdExpiresAt :: int

record auth_code =
  cdHash :: string
  cdClient :: string
  cdChallenge :: string
  cdRedirect :: string
  cdResource :: string
  cdScopes :: "string list"
  cdExpiresAt :: int
  cdUsedAt :: "int option"

datatype token_kind = Access | Refresh

record token =
  tkHash :: string
  tkKind :: token_kind
  tkClient :: string
  tkFamily :: string
  tkResource :: string
  tkScopes :: "string list"
  tkCreatedAt :: int
  tkExpiresAt :: int
  tkUsedAt :: "int option"
  tkRevokedAt :: "int option"

record binding =
  bdAgent :: string
  bdThread :: string
  bdClient :: string
  bdWebhook :: string
  bdUntil :: int
  bdCapability :: string
  bdToken :: string
  bdCreatedAt :: int
  bdUpdatedAt :: int
  bdDeadAt :: "int option"
  bdLastWakeAt :: "int option"
  bdLastWakeStatus :: "string option"

datatype wake_state = WakePending | Delivered | Dropped | Refused | Dead | Failed

record wake =
  wkId :: nat
  wkAgent :: string
  wkMessage :: string
  wkPayload :: string
  wkState :: wake_state
  wkAttempts :: nat
  wkNextAt :: int
  wkCreatedAt :: int
  wkLastError :: "string option"

record audit_entry =
  auId :: nat
  auAt :: int
  auEvent :: string
  auClient :: "string option"
  auAgent :: "string option"

record remote_store =
  rsClients :: "client list"
  rsPending :: "pending_request list"
  rsCodes :: "auth_code list"
  rsTokens :: "token list"
  rsBindings :: "binding list"
  rsWakes :: "wake list"
  rsWakeSeq :: nat
  rsAudit :: "audit_entry list"
  rsAuditSeq :: nat

text \<open>\<open>COALESCE(column, v)\<close>.\<close>

definition coalesce :: "'a option \<Rightarrow> 'a \<Rightarrow> 'a option" where
  "coalesce column v = (case column of None \<Rightarrow> Some v | Some u \<Rightarrow> Some u)"

lemma coalesce_not_None [simp]: "coalesce c v \<noteq> None" "\<exists>u. coalesce c v = Some u"
  by (simp_all add: coalesce_def split: option.split)

section \<open>The audit log\<close>

definition audit :: "int \<Rightarrow> string \<Rightarrow> string option \<Rightarrow> string option \<Rightarrow>
    'a remote_store_scheme \<Rightarrow> 'a remote_store_scheme" where
  "audit now event clientId agent s = s\<lparr>
     rsAudit := rsAudit s @ [\<lparr>auId = rsAuditSeq s + 1, auAt = now, auEvent = event,
       auClient = clientId, auAgent = agent\<rparr>],
     rsAuditSeq := rsAuditSeq s + 1\<rparr>"

definition removeAudit :: "nat \<Rightarrow> 'a remote_store_scheme \<Rightarrow> 'a remote_store_scheme" where
  "removeAudit i s = s\<lparr>rsAudit := sql_delete (\<lambda>r. auId r = i) (rsAudit s)\<rparr>"

definition countAudit :: "string \<Rightarrow> string \<Rightarrow> int \<Rightarrow> 'a remote_store_scheme \<Rightarrow> nat" where
  "countAudit event clientId since s =
     sql_count (\<lambda>r. auClient r = Some clientId \<and> auEvent r = event \<and> since \<le> auAt r) (rsAudit s)"

definition recentAudit :: "nat \<Rightarrow> 'a remote_store_scheme \<Rightarrow> audit_entry list" where
  "recentAudit limit s = take limit (rev (sort_key auId (rsAudit s)))"

section \<open>Clients\<close>

definition clients_get :: "string \<Rightarrow> 'a remote_store_scheme \<Rightarrow> client option" where
  "clients_get i s = find (\<lambda>r. clId r = i) (rsClients s)"

definition clients_insert :: "int \<Rightarrow> string \<Rightarrow> client_info \<Rightarrow> 'a remote_store_scheme \<Rightarrow>
    'a remote_store_scheme option" where
  "clients_insert now i info s = (if 0 < sql_count (\<lambda>r. clId r = i) (rsClients s) then None
     else Some (s\<lparr>rsClients := rsClients s @ [\<lparr>clId = i, clInfo = info, clCreatedAt = now,
       clConsentedAt = None, clRevokedAt = None, clLastUsedAt = None\<rparr>]\<rparr>))"

definition waiting_since :: "int \<Rightarrow> client \<Rightarrow> bool" where
  "waiting_since since r \<longleftrightarrow> clConsentedAt r = None \<and> clRevokedAt r = None \<and> since \<le> clCreatedAt r"

definition clients_countPending :: "int \<Rightarrow> 'a remote_store_scheme \<Rightarrow> nat" where
  "clients_countPending since s = sql_count (waiting_since since) (rsClients s)"

definition clients_updateInfo :: "string \<Rightarrow> client_info \<Rightarrow> 'a remote_store_scheme \<Rightarrow>
    'a remote_store_scheme" where
  "clients_updateInfo i info s =
     s\<lparr>rsClients := sql_update (\<lambda>r. clId r = i) (\<lambda>r. r\<lparr>clInfo := info\<rparr>) (rsClients s)\<rparr>"

definition clients_markConsented :: "int \<Rightarrow> string \<Rightarrow> 'a remote_store_scheme \<Rightarrow>
    'a remote_store_scheme" where
  "clients_markConsented now i s = s\<lparr>rsClients := sql_update (\<lambda>r. clId r = i)
     (\<lambda>r. r\<lparr>clConsentedAt := coalesce (clConsentedAt r) now\<rparr>) (rsClients s)\<rparr>"

definition clients_touch :: "int \<Rightarrow> string \<Rightarrow> 'a remote_store_scheme \<Rightarrow> 'a remote_store_scheme" where
  "clients_touch now i s =
     s\<lparr>rsClients := sql_update (\<lambda>r. clId r = i) (\<lambda>r. r\<lparr>clLastUsedAt := Some now\<rparr>) (rsClients s)\<rparr>"

definition clients_revoke :: "int \<Rightarrow> string \<Rightarrow> 'a remote_store_scheme \<Rightarrow> 'a remote_store_scheme" where
  "clients_revoke now i s = s\<lparr>
     rsClients := sql_update (\<lambda>r. clId r = i)
       (\<lambda>r. r\<lparr>clRevokedAt := coalesce (clRevokedAt r) now\<rparr>) (rsClients s),
     rsTokens := sql_update (\<lambda>r. tkClient r = i)
       (\<lambda>r. r\<lparr>tkRevokedAt := coalesce (tkRevokedAt r) now\<rparr>) (rsTokens s)\<rparr>"

definition clients_list :: "'a remote_store_scheme \<Rightarrow> client list" where
  "clients_list s = take 200 (sort_key (\<lambda>r. - clCreatedAt r) (rsClients s))"

text \<open>\<open>ORDER BY created_at, client_id LIMIT 1\<close>.\<close>

fun oldest :: "client list \<Rightarrow> client option" where
  "oldest [] = None"
| "oldest (r # rs) = (case oldest rs of None \<Rightarrow> Some r
     | Some q \<Rightarrow> if clCreatedAt r < clCreatedAt q \<or> (clCreatedAt r = clCreatedAt q \<and> clId r \<le> clId q)
                then Some r else Some q)"

definition clients_evictOldestPending :: "int \<Rightarrow> 'a remote_store_scheme \<Rightarrow>
    string option \<times> 'a remote_store_scheme" where
  "clients_evictOldestPending since s =
     (case oldest (filter (waiting_since since) (rsClients s)) of
        None \<Rightarrow> (None, s)
      | Some row \<Rightarrow> (Some (clId row), s\<lparr>
          rsPending := sql_delete (\<lambda>r. pdClient r = clId row) (rsPending s),
          rsClients := sql_delete (\<lambda>r. clId r = clId row) (rsClients s)\<rparr>))"

definition clients_pruneUnconsented :: "int \<Rightarrow> 'a remote_store_scheme \<Rightarrow> 'a remote_store_scheme" where
  "clients_pruneUnconsented before s = s\<lparr>rsClients :=
     sql_delete (\<lambda>r. clConsentedAt r = None \<and> clCreatedAt r < before) (rsClients s)\<rparr>"

section \<open>Pending consents\<close>

definition pending_create :: "int \<Rightarrow> pending_request \<Rightarrow> int \<Rightarrow> 'a remote_store_scheme \<Rightarrow>
    'a remote_store_scheme option" where
  "pending_create now p ttlMs s = (if 0 < sql_count (\<lambda>r. pdId r = pdId p) (rsPending s) then None
     else Some (s\<lparr>rsPending := rsPending s @ [p\<lparr>pdExpiresAt := now + ttlMs\<rparr>]\<rparr>))"

definition pending_get :: "int \<Rightarrow> string \<Rightarrow> 'a remote_store_scheme \<Rightarrow> pending_request option" where
  "pending_get now i s = (case find (\<lambda>r. pdId r = i) (rsPending s) of
       None \<Rightarrow> None
     | Some row \<Rightarrow> if pdExpiresAt row < now then None else Some row)"

definition pending_take :: "string \<Rightarrow> 'a remote_store_scheme \<Rightarrow> bool \<times> 'a remote_store_scheme" where
  "pending_take i s = (sql_count (\<lambda>r. pdId r = i) (rsPending s) = 1,
     s\<lparr>rsPending := sql_delete (\<lambda>r. pdId r = i) (rsPending s)\<rparr>)"

definition pending_prune :: "int \<Rightarrow> 'a remote_store_scheme \<Rightarrow> 'a remote_store_scheme" where
  "pending_prune now s = s\<lparr>rsPending := sql_delete (\<lambda>r. pdExpiresAt r < now) (rsPending s)\<rparr>"

section \<open>Authorization codes\<close>

definition codes_create :: "int \<Rightarrow> auth_code \<Rightarrow> int \<Rightarrow> 'a remote_store_scheme \<Rightarrow>
    'a remote_store_scheme option" where
  "codes_create now c ttlMs s = (if 0 < sql_count (\<lambda>r. cdHash r = cdHash c) (rsCodes s) then None
     else Some (s\<lparr>rsCodes := rsCodes s @ [c\<lparr>cdExpiresAt := now + ttlMs, cdUsedAt := None\<rparr>]\<rparr>))"

definition codes_get :: "string \<Rightarrow> 'a remote_store_scheme \<Rightarrow> auth_code option" where
  "codes_get h s = find (\<lambda>r. cdHash r = h) (rsCodes s)"

definition codes_markUsed :: "int \<Rightarrow> string \<Rightarrow> 'a remote_store_scheme \<Rightarrow>
    bool \<times> 'a remote_store_scheme" where
  "codes_markUsed now h s =
     (sql_count (\<lambda>r. cdHash r = h \<and> cdUsedAt r = None) (rsCodes s) = 1,
      s\<lparr>rsCodes := sql_update (\<lambda>r. cdHash r = h \<and> cdUsedAt r = None)
         (\<lambda>r. r\<lparr>cdUsedAt := Some now\<rparr>) (rsCodes s)\<rparr>)"

definition day_ms :: int where "day_ms = 24 * 60 * 60 * 1000"

definition codes_prune :: "int \<Rightarrow> 'a remote_store_scheme \<Rightarrow> 'a remote_store_scheme" where
  "codes_prune now s = s\<lparr>rsCodes := sql_delete (\<lambda>r. cdExpiresAt r < now - day_ms) (rsCodes s)\<rparr>"

section \<open>Tokens\<close>

definition tokens_issue :: "int \<Rightarrow> token \<Rightarrow> int \<Rightarrow> 'a remote_store_scheme \<Rightarrow>
    'a remote_store_scheme option" where
  "tokens_issue now t ttlMs s = (if 0 < sql_count (\<lambda>r. tkHash r = tkHash t) (rsTokens s) then None
     else Some (s\<lparr>rsTokens := rsTokens s @ [t\<lparr>tkCreatedAt := now, tkExpiresAt := now + ttlMs,
       tkUsedAt := None, tkRevokedAt := None\<rparr>]\<rparr>))"

definition tokens_get :: "string \<Rightarrow> 'a remote_store_scheme \<Rightarrow> token option" where
  "tokens_get h s = find (\<lambda>r. tkHash r = h) (rsTokens s)"

definition tokens_markUsed :: "int \<Rightarrow> string \<Rightarrow> 'a remote_store_scheme \<Rightarrow>
    bool \<times> 'a remote_store_scheme" where
  "tokens_markUsed now h s =
     (sql_count (\<lambda>r. tkHash r = h \<and> tkUsedAt r = None \<and> tkRevokedAt r = None) (rsTokens s) = 1,
      s\<lparr>rsTokens := sql_update (\<lambda>r. tkHash r = h \<and> tkUsedAt r = None \<and> tkRevokedAt r = None)
         (\<lambda>r. r\<lparr>tkUsedAt := Some now\<rparr>) (rsTokens s)\<rparr>)"

definition tokens_revokeFamily :: "int \<Rightarrow> string \<Rightarrow> 'a remote_store_scheme \<Rightarrow>
    'a remote_store_scheme" where
  "tokens_revokeFamily now f s = s\<lparr>rsTokens := sql_update (\<lambda>r. tkFamily r = f)
     (\<lambda>r. r\<lparr>tkRevokedAt := coalesce (tkRevokedAt r) now\<rparr>) (rsTokens s)\<rparr>"

definition tokens_prune :: "int \<Rightarrow> 'a remote_store_scheme \<Rightarrow> 'a remote_store_scheme" where
  "tokens_prune now s = s\<lparr>rsTokens := sql_delete (\<lambda>r. tkExpiresAt r < now - 7 * day_ms) (rsTokens s)\<rparr>"

definition tokens_countActive :: "int \<Rightarrow> string \<Rightarrow> 'a remote_store_scheme \<Rightarrow> nat" where
  "tokens_countActive now c s = sql_count (\<lambda>r. tkClient r = c \<and> tkKind r = Refresh
     \<and> tkRevokedAt r = None \<and> tkUsedAt r = None \<and> now < tkExpiresAt r) (rsTokens s)"

section \<open>Thread bindings\<close>

definition bindings_get :: "string \<Rightarrow> 'a remote_store_scheme \<Rightarrow> binding option" where
  "bindings_get a s = find (\<lambda>r. bdAgent r = a) (rsBindings s)"

definition bindings_countActive :: "int \<Rightarrow> string \<Rightarrow> 'a remote_store_scheme \<Rightarrow> nat" where
  "bindings_countActive now c s = sql_count (\<lambda>r. bdClient r = c \<and> now < bdUntil r) (rsBindings s)"

definition bindings_getByThread :: "string \<Rightarrow> string \<Rightarrow> 'a remote_store_scheme \<Rightarrow> binding option" where
  "bindings_getByThread c t s = find (\<lambda>r. bdClient r = c \<and> bdThread r = t) (rsBindings s)"

text \<open>The row as inserted, or the changes of \<open>ON CONFLICT(agent) DO UPDATE\<close>: the thread, the
  capability and the creation time of an existing row stay.\<close>

definition bindings_upsert :: "int \<Rightarrow> binding \<Rightarrow> 'a remote_store_scheme \<Rightarrow>
    'a remote_store_scheme option" where
  "bindings_upsert now b s =
     (if 0 < sql_count (\<lambda>r. bdAgent r = bdAgent b) (rsBindings s)
      then
        (let bs = sql_update (\<lambda>r. bdAgent r = bdAgent b)
               (\<lambda>r. r\<lparr>bdClient := bdClient b, bdWebhook := bdWebhook b, bdUntil := bdUntil b,
                  bdToken := bdToken b, bdUpdatedAt := now, bdDeadAt := None\<rparr>) (rsBindings s) in
         if distinct (map (\<lambda>r. (bdClient r, bdThread r)) bs) then Some (s\<lparr>rsBindings := bs\<rparr>) else None)
      else if 0 < sql_count (\<lambda>r. bdClient r = bdClient b \<and> bdThread r = bdThread b) (rsBindings s)
      then None
      else Some (s\<lparr>rsBindings := rsBindings s @ [b\<lparr>bdCreatedAt := now, bdUpdatedAt := now,
             bdDeadAt := None, bdLastWakeAt := None, bdLastWakeStatus := None\<rparr>]\<rparr>))"

definition bindings_remove :: "string \<Rightarrow> 'a remote_store_scheme \<Rightarrow> bool \<times> 'a remote_store_scheme" where
  "bindings_remove a s = (sql_count (\<lambda>r. bdAgent r = a) (rsBindings s) = 1,
     s\<lparr>rsWakes := sql_delete (\<lambda>r. wkAgent r = a) (rsWakes s),
       rsBindings := sql_delete (\<lambda>r. bdAgent r = a) (rsBindings s)\<rparr>)"

definition bindings_removeForClient :: "string \<Rightarrow> 'a remote_store_scheme \<Rightarrow>
    string list \<times> 'a remote_store_scheme" where
  "bindings_removeForClient c s =
     (let agents = map bdAgent (filter (\<lambda>r. bdClient r = c) (rsBindings s)) in
      (agents, fold (\<lambda>a s. snd (bindings_remove a s)) agents s))"

definition bindings_markDead :: "int \<Rightarrow> string \<Rightarrow> string \<Rightarrow> 'a remote_store_scheme \<Rightarrow>
    'a remote_store_scheme" where
  "bindings_markDead now a status s = s\<lparr>rsBindings := sql_update (\<lambda>r. bdAgent r = a)
     (\<lambda>r. r\<lparr>bdDeadAt := Some now, bdLastWakeStatus := Some status\<rparr>) (rsBindings s)\<rparr>"

definition bindings_noteWake :: "int \<Rightarrow> string \<Rightarrow> string \<Rightarrow> 'a remote_store_scheme \<Rightarrow>
    'a remote_store_scheme" where
  "bindings_noteWake now a status s = s\<lparr>rsBindings := sql_update (\<lambda>r. bdAgent r = a)
     (\<lambda>r. r\<lparr>bdLastWakeAt := Some now, bdLastWakeStatus := Some status\<rparr>) (rsBindings s)\<rparr>"

definition bindings_list :: "'a remote_store_scheme \<Rightarrow> binding list" where
  "bindings_list s = take 500 (sort_key (\<lambda>r. - bdUpdatedAt r) (rsBindings s))"

section \<open>The wake queue\<close>

definition wakes_enqueue :: "int \<Rightarrow> string \<Rightarrow> string \<Rightarrow> string \<Rightarrow> int \<Rightarrow> 'a remote_store_scheme \<Rightarrow>
    bool \<times> 'a remote_store_scheme" where
  "wakes_enqueue now a m payload nextAt s =
     (if 0 < sql_count (\<lambda>r. wkAgent r = a \<and> wkMessage r = m) (rsWakes s) then (False, s)
      else (True, s\<lparr>rsWakes := rsWakes s @ [\<lparr>wkId = rsWakeSeq s + 1, wkAgent = a, wkMessage = m,
          wkPayload = payload, wkState = WakePending, wkAttempts = 0, wkNextAt = nextAt,
          wkCreatedAt = now, wkLastError = None\<rparr>], rsWakeSeq := rsWakeSeq s + 1\<rparr>))"

definition wake_due :: "int \<Rightarrow> wake \<Rightarrow> bool" where
  "wake_due now r \<longleftrightarrow> wkState r = WakePending \<and> wkNextAt r \<le> now"

definition wakes_due :: "int \<Rightarrow> nat \<Rightarrow> 'a remote_store_scheme \<Rightarrow> wake list" where
  "wakes_due now limit s = take limit (sort_key wkNextAt (filter (wake_due now) (rsWakes s)))"

definition wakes_pendingFor :: "string \<Rightarrow> 'a remote_store_scheme \<Rightarrow> nat" where
  "wakes_pendingFor a s = sql_count (\<lambda>r. wkAgent r = a \<and> wkState r = WakePending) (rsWakes s)"

definition wakes_nextDueAt :: "'a remote_store_scheme \<Rightarrow> int option" where
  "wakes_nextDueAt s =
     (case map wkNextAt (filter (\<lambda>r. wkState r = WakePending) (rsWakes s)) of
        [] \<Rightarrow> None | t # ts \<Rightarrow> Some (fold min ts t))"

definition wakes_settle :: "nat \<Rightarrow> wake_state \<Rightarrow> string option \<Rightarrow> 'a remote_store_scheme \<Rightarrow>
    'a remote_store_scheme" where
  "wakes_settle i st err s = s\<lparr>rsWakes := sql_update (\<lambda>r. wkId r = i)
     (\<lambda>r. r\<lparr>wkState := st, wkLastError := err, wkAttempts := wkAttempts r + 1\<rparr>) (rsWakes s)\<rparr>"

definition wakes_retry :: "nat \<Rightarrow> int \<Rightarrow> string option \<Rightarrow> 'a remote_store_scheme \<Rightarrow>
    'a remote_store_scheme" where
  "wakes_retry i nextAt err s = s\<lparr>rsWakes := sql_update (\<lambda>r. wkId r = i)
     (\<lambda>r. r\<lparr>wkAttempts := wkAttempts r + 1, wkNextAt := nextAt, wkLastError := err\<rparr>) (rsWakes s)\<rparr>"

definition wakes_counts :: "'a remote_store_scheme \<Rightarrow> wake_state \<Rightarrow> nat" where
  "wakes_counts s st = sql_count (\<lambda>r. wkState r = st) (rsWakes s)"

definition wakes_prune :: "int \<Rightarrow> 'a remote_store_scheme \<Rightarrow> 'a remote_store_scheme" where
  "wakes_prune before s = s\<lparr>rsWakes :=
     sql_delete (\<lambda>r. wkState r \<noteq> WakePending \<and> wkCreatedAt r < before) (rsWakes s)\<rparr>"

section \<open>The sweep\<close>

definition sweep_store :: "int \<Rightarrow> int \<Rightarrow> 'a remote_store_scheme \<Rightarrow> 'a remote_store_scheme" where
  "sweep_store now auditRetentionDays s =
     (let s = pending_prune now s;
          s = codes_prune now s;
          s = tokens_prune now s;
          s = clients_pruneUnconsented (now - day_ms) s;
          s = wakes_prune (now - 30 * day_ms) s in
      if 0 < auditRetentionDays
      then s\<lparr>rsAudit := sql_delete (\<lambda>r. auAt r < now - auditRetentionDays * day_ms) (rsAudit s)\<rparr>
      else s)"

end
