(* ===== verification/Remote_OAuth.thy ===== *)
theory Remote_OAuth
  imports Remote_Store
begin

text \<open>
  The relay's OAuth authorization server (\<open>lib/server/relay/oauth-provider.js\<close>) over the store of
  \<open>Remote_Store\<close>: registration, authorization requests, the consent window, the token endpoint
  with rotating refresh tokens, verification and revocation. Everything a request supplies, the
  random values it draws (\<open>randomToken\<close>, \<open>randomUUID\<close>, the window's code) and the clock are inputs.
  The resource URL, the allowlist, the digest and the URL parser (its origin and path, \<open>None\<close> where
  \<open>new URL\<close> throws) are the fields of \<open>oauth_env\<close>.
\<close>

section \<open>Configuration and state\<close>

definition kAccessTtlMs :: int where "kAccessTtlMs = 60 * 60 * 1000"
definition kRefreshTtlMs :: int where "kRefreshTtlMs = 30 * 24 * 60 * 60 * 1000"
definition kCodeTtlMs :: int where "kCodeTtlMs = 5 * 60 * 1000"
definition kPendingTtlMs :: int where "kPendingTtlMs = 10 * 60 * 1000"
definition kUnconsentedClientTtlMs :: int where "kUnconsentedClientTtlMs = 24 * 60 * 60 * 1000"
definition kMaxPendingRegistrations :: nat where "kMaxPendingRegistrations = 20"
definition kConsentWindowMs :: int where "kConsentWindowMs = 10 * 60 * 1000"

record oauth_env =
  envResource :: string
  envAllow :: "string list"
  envHash :: "string \<Rightarrow> string"
  envUrl :: "string \<Rightarrow> (string \<times> string) option"

record oauth = remote_store +
  oaOpenedAt :: int
  oaUntil :: int
  oaCode :: string

datatype oauth_error = InvalidClient | InvalidClientMetadata | InvalidGrant | InvalidRequest
  | ConsentWindowClosed | ConsentCodeMismatch | InvalidTarget | InvalidToken
  | StoreThrows | UrlThrows

definition strip_slashes :: "string \<Rightarrow> string" where
  "strip_slashes p = rev (dropWhile (\<lambda>c. c = CHR ''/'') (rev p))"

definition sameResource :: "oauth_env \<Rightarrow> string \<Rightarrow> string \<Rightarrow> bool" where
  "sameResource env a b = (case (envUrl env a, envUrl env b) of
       (Some (o1, p1), Some (o2, p2)) \<Rightarrow> o1 = o2 \<and> strip_slashes p1 = strip_slashes p2
     | _ \<Rightarrow> False)"

definition consentWindowOpen :: "int \<Rightarrow> oauth \<Rightarrow> bool" where
  "consentWindowOpen now s \<longleftrightarrow> now < oaUntil s"

definition consentAllows :: "int \<Rightarrow> pending_request \<Rightarrow> oauth \<Rightarrow> bool" where
  "consentAllows now p s \<longleftrightarrow> consentWindowOpen now s \<and> oaOpenedAt s \<le> pdExpiresAt p - kPendingTtlMs"

definition resolveResource :: "oauth_env \<Rightarrow> string option \<Rightarrow> oauth_error + string" where
  "resolveResource env requested = (case requested of
       Some r \<Rightarrow> if r \<noteq> [] \<and> \<not> sameResource env r (envResource env) then Inl InvalidTarget
                 else Inr (envResource env)
     | None \<Rightarrow> Inr (envResource env))"

section \<open>Clients\<close>

text \<open>A secret stored in plaintext by an earlier version is rehashed when the client is read.\<close>

definition rehash_secret :: "oauth_env \<Rightarrow> client \<Rightarrow> oauth \<Rightarrow> client \<times> oauth" where
  "rehash_secret env row s = (case ciSecret (clInfo row) of
       None \<Rightarrow> (row, s)
     | Some secret \<Rightarrow> if secret = [] then (row, s) else
         (let info = (clInfo row)\<lparr>ciSecret := None, ciSecretHash := Some (envHash env secret)\<rparr> in
          (row\<lparr>clInfo := info\<rparr>, clients_updateInfo (clId row) info s)))"

definition liveClient :: "oauth_env \<Rightarrow> int \<Rightarrow> string \<Rightarrow> oauth \<Rightarrow> client option \<times> oauth" where
  "liveClient env now i s = (case clients_get i s of
       None \<Rightarrow> (None, s)
     | Some row \<Rightarrow> if clRevokedAt row \<noteq> None then (None, s) else
         (let (row, s) = rehash_secret env row s in
          if clConsentedAt row = None \<and> kUnconsentedClientTtlMs < now - clCreatedAt row
          then (None, s) else (Some row, s)))"

definition getClient :: "oauth_env \<Rightarrow> int \<Rightarrow> string \<Rightarrow> oauth \<Rightarrow> client_info option \<times> oauth" where
  "getClient env now i s = (let (row, s) = liveClient env now i s in (map_option clInfo row, s))"

lemma oldest_in: "oldest rs = Some r \<Longrightarrow> r \<in> set rs"
  by (induction rs arbitrary: r) (auto split: option.splits if_splits)

lemma length_delete_less: "r \<in> set rows \<Longrightarrow> p r \<Longrightarrow> length (sql_delete p rows) < length rows"
  by (auto simp: sql_delete_def length_filter_less)

lemma evict_shrinks:
  "clients_evictOldestPending since s = (Some c, s') \<Longrightarrow> length (rsClients s') < length (rsClients s)"
  by (auto simp: clients_evictOldestPending_def split: option.splits
      dest!: oldest_in intro: length_delete_less)

text \<open>The loop of \<open>registerClient\<close>: a full waiting list makes room.\<close>

function make_room :: "int \<Rightarrow> oauth \<Rightarrow> oauth" where
  "make_room now s =
     (if kMaxPendingRegistrations \<le> clients_countPending (now - kUnconsentedClientTtlMs) s
      then (case clients_evictOldestPending (now - kUnconsentedClientTtlMs) s of
              (None, _) \<Rightarrow> s
            | (Some evicted, s) \<Rightarrow> make_room now (audit now ''client_evicted'' (Some evicted) None s))
      else s)"
  by pat_completeness auto
termination
  by (relation "measure (\<lambda>(now, s). length (rsClients s))")
    (auto simp: audit_def dest: evict_shrinks [OF sym])

declare make_room.simps [simp del]

definition registered_info :: "client_info \<Rightarrow> client_info" where
  "registered_info c = c\<lparr>ciName := (case ciName c of None \<Rightarrow> None
     | Some n \<Rightarrow> if n = [] then None else Some (take 100 n))\<rparr>"

definition stored_info :: "oauth_env \<Rightarrow> client_info \<Rightarrow> client_info" where
  "stored_info env info = info\<lparr>ciSecret := None, ciSecretHash := (case ciSecret info of
       Some secret \<Rightarrow> if secret = [] then ciSecretHash info else Some (envHash env secret)
     | None \<Rightarrow> ciSecretHash info)\<rparr>"

definition registerClient :: "oauth_env \<Rightarrow> int \<Rightarrow> string \<Rightarrow> client_info \<Rightarrow> oauth \<Rightarrow>
    (oauth_error + client_info) \<times> oauth" where
  "registerClient env now i c s =
     (if ciRedirectUris c = [] \<or> (\<exists>u \<in> set (ciRedirectUris c). u \<notin> set (envAllow env))
      then (Inl InvalidClientMetadata, s)
      else
        (let s = make_room now s; info = registered_info c in
         case clients_insert now i (stored_info env info) s of
           None \<Rightarrow> (Inl StoreThrows, s)
         | Some s \<Rightarrow> if \<exists>u \<in> set (ciRedirectUris c). envUrl env u = None then (Inl UrlThrows, s)
             else (Inr info, audit now ''client_registered'' (Some i) None s)))"

datatype secret_check = SecretNext | SecretRefused

definition authenticateClientSecret :: "oauth_env \<Rightarrow> int \<Rightarrow> string \<Rightarrow> string option \<Rightarrow> oauth \<Rightarrow>
    secret_check \<times> oauth" where
  "authenticateClientSecret env now i presented s =
     (if i = [] then (SecretNext, s) else
      (let (row, s) = liveClient env now i s in
       case (case row of None \<Rightarrow> None | Some r \<Rightarrow> ciSecretHash (clInfo r)) of
         None \<Rightarrow> (SecretNext, s)
       | Some expected \<Rightarrow> if expected = [] then (SecretNext, s) else
           (case presented of
              None \<Rightarrow> (SecretRefused, s)
            | Some p \<Rightarrow> if p \<noteq> [] \<and> timingSafeStringEqual (envHash env p) expected
                        then (SecretNext, s) else (SecretRefused, s))))"

section \<open>Authorization requests and codes\<close>

definition authorize :: "oauth_env \<Rightarrow> int \<Rightarrow> pending_request \<Rightarrow> string option \<Rightarrow> oauth \<Rightarrow>
    (oauth_error + string) \<times> oauth" where
  "authorize env now req resource s = (case resolveResource env resource of
       Inl e \<Rightarrow> (Inl e, s)
     | Inr res \<Rightarrow>
         (case pending_create now (req\<lparr>pdResource := res, pdScopes := [''relay'']\<rparr>) kPendingTtlMs s of
            None \<Rightarrow> (Inl StoreThrows, s)
          | Some s \<Rightarrow> (Inr (pdId req), s)))"

definition challengeForAuthorizationCode :: "oauth_env \<Rightarrow> int \<Rightarrow> string \<Rightarrow> string \<Rightarrow> oauth \<Rightarrow>
    oauth_error + string" where
  "challengeForAuthorizationCode env now c code s = (case codes_get (envHash env code) s of
       None \<Rightarrow> Inl InvalidGrant
     | Some row \<Rightarrow> if cdClient row \<noteq> c \<or> cdUsedAt row \<noteq> None \<or> cdExpiresAt row < now
                   then Inl InvalidGrant else Inr (cdChallenge row))"

record issued =
  isAccess :: string
  isRefresh :: string
  isFamily :: string
  isClient :: string
  isResource :: string

definition new_token :: "token_kind \<Rightarrow> string \<Rightarrow> string \<Rightarrow> string \<Rightarrow> string \<Rightarrow> string list \<Rightarrow> token" where
  "new_token kind h c family resource scopes = \<lparr>tkHash = h, tkKind = kind, tkClient = c,
     tkFamily = family, tkResource = resource, tkScopes = scopes, tkCreatedAt = 0, tkExpiresAt = 0,
     tkUsedAt = None, tkRevokedAt = None\<rparr>"

definition issueTokens :: "oauth_env \<Rightarrow> int \<Rightarrow> string \<Rightarrow> string \<Rightarrow> string \<Rightarrow> string list \<Rightarrow>
    string \<Rightarrow> string \<Rightarrow> oauth \<Rightarrow> (oauth_error + issued) \<times> oauth" where
  "issueTokens env now c family resource scopes access refresh s =
     (case tokens_issue now (new_token Access (envHash env access) c family resource scopes)
             kAccessTtlMs s of
        None \<Rightarrow> (Inl StoreThrows, s)
      | Some s \<Rightarrow>
          (case tokens_issue now (new_token Refresh (envHash env refresh) c family resource scopes)
                  kRefreshTtlMs s of
             None \<Rightarrow> (Inl StoreThrows, s)
           | Some s \<Rightarrow> (Inr \<lparr>isAccess = access, isRefresh = refresh, isFamily = family,
               isClient = c, isResource = resource\<rparr>, s)))"

definition wrong_resource :: "oauth_env \<Rightarrow> string option \<Rightarrow> string \<Rightarrow> bool" where
  "wrong_resource env requested resource = (case requested of
       None \<Rightarrow> False | Some r \<Rightarrow> \<not> sameResource env r resource)"

definition exchangeAuthorizationCode :: "oauth_env \<Rightarrow> int \<Rightarrow> string \<Rightarrow> string \<Rightarrow> string option \<Rightarrow>
    string option \<Rightarrow> string \<Rightarrow> string \<Rightarrow> string \<Rightarrow> oauth \<Rightarrow> (oauth_error + issued) \<times> oauth" where
  "exchangeAuthorizationCode env now c code redirect resource family access refresh s =
     (case codes_get (envHash env code) s of
        None \<Rightarrow> (Inl InvalidGrant, s)
      | Some row \<Rightarrow>
          if cdClient row \<noteq> c \<or> cdExpiresAt row < now then (Inl InvalidGrant, s)
          else if redirect \<noteq> None \<and> redirect \<noteq> Some (cdRedirect row) then (Inl InvalidGrant, s)
          else if wrong_resource env resource (cdResource row) then (Inl InvalidTarget, s)
          else
            (let (marked, s) = codes_markUsed now (envHash env code) s in
             if \<not> marked then (Inl InvalidGrant, s)
             else
               (let (live, s) = liveClient env now c s in
                case live of
                  None \<Rightarrow> (Inl InvalidGrant, s)
                | Some _ \<Rightarrow> issueTokens env now c family (cdResource row) (cdScopes row) access refresh
                    (audit now ''token_issued'' (Some c) None s))))"

definition exchangeRefreshToken :: "oauth_env \<Rightarrow> int \<Rightarrow> string \<Rightarrow> string \<Rightarrow> string option \<Rightarrow>
    string \<Rightarrow> string \<Rightarrow> oauth \<Rightarrow> (oauth_error + issued) \<times> oauth" where
  "exchangeRefreshToken env now c presented resource access refresh s =
     (case tokens_get (envHash env presented) s of
        None \<Rightarrow> (Inl InvalidGrant, s)
      | Some row \<Rightarrow>
          if tkKind row \<noteq> Refresh \<or> tkClient row \<noteq> c then (Inl InvalidGrant, s)
          else if tkUsedAt row \<noteq> None \<or> tkRevokedAt row \<noteq> None then
            (Inl InvalidGrant,
             if tkUsedAt row \<noteq> None \<and> tkRevokedAt row = None
             then audit now ''refresh_replay'' (Some c) None (tokens_revokeFamily now (tkFamily row) s)
             else s)
          else if tkExpiresAt row < now then (Inl InvalidGrant, s)
          else if wrong_resource env resource (tkResource row) then (Inl InvalidTarget, s)
          else
            (let (live, s) = liveClient env now c s in
             case live of
               None \<Rightarrow> (Inl InvalidGrant, s)
             | Some _ \<Rightarrow>
                 (let (marked, s) = tokens_markUsed now (envHash env presented) s in
                  if \<not> marked then (Inl InvalidGrant, s)
                  else issueTokens env now c (tkFamily row) (tkResource row) (tkScopes row) access refresh
                    (audit now ''token_refreshed'' (Some c) None s))))"

record verified =
  vfClient :: string
  vfScopes :: "string list"
  vfExpiresAt :: int

definition verifyAccessToken :: "oauth_env \<Rightarrow> int \<Rightarrow> string \<Rightarrow> oauth \<Rightarrow>
    (oauth_error + verified) \<times> oauth" where
  "verifyAccessToken env now presented s =
     (case tokens_get (envHash env presented) s of
        None \<Rightarrow> (Inl InvalidToken, s)
      | Some row \<Rightarrow>
          if tkKind row \<noteq> Access \<or> tkRevokedAt row \<noteq> None \<or> tkExpiresAt row < now
          then (Inl InvalidToken, s)
          else
            (let (live, s) = liveClient env now (tkClient row) s in
             case live of
               None \<Rightarrow> (Inl InvalidToken, s)
             | Some _ \<Rightarrow> if envUrl env (tkResource row) = None then (Inl UrlThrows, s)
                 else (Inr \<lparr>vfClient = tkClient row, vfScopes = tkScopes row,
                   vfExpiresAt = tkExpiresAt row div 1000\<rparr>, s)))"

definition revokeToken :: "oauth_env \<Rightarrow> int \<Rightarrow> string \<Rightarrow> string \<Rightarrow> oauth \<Rightarrow> oauth" where
  "revokeToken env now c presented s = (case tokens_get (envHash env presented) s of
       None \<Rightarrow> s
     | Some row \<Rightarrow> if tkClient row \<noteq> c then s
         else audit now ''token_revoked'' (Some c) None (tokens_revokeFamily now (tkFamily row) s))"

section \<open>The consent window\<close>

text \<open>The window's code (\<open>randomInt\<close> over the alphabet) is an input; it is returned with a dash
  after the fourth character.\<close>

definition openConsentWindow :: "int \<Rightarrow> string \<Rightarrow> oauth \<Rightarrow> (int \<times> string) \<times> oauth" where
  "openConsentWindow now code s =
     ((now + kConsentWindowMs, take 4 code @ ''-'' @ drop 4 code),
      audit now ''consent_window_opened'' None None
        (s\<lparr>oaOpenedAt := now, oaUntil := now + kConsentWindowMs, oaCode := code\<rparr>))"

definition consentWindowUntil :: "int \<Rightarrow> oauth \<Rightarrow> int option" where
  "consentWindowUntil now s = (if consentWindowOpen now s then Some (oaUntil s) else None)"

definition consentAllowsRequest :: "int \<Rightarrow> string \<Rightarrow> oauth \<Rightarrow> bool" where
  "consentAllowsRequest now i s = (case pending_get now i s of
       None \<Rightarrow> False | Some p \<Rightarrow> consentAllows now p s)"

text \<open>The redirect the browser follows: to the request's redirect URI with its state.\<close>

datatype consent_redirect =
    RedirectDenied string "string option"
  | RedirectCode string "string option" string

definition completeConsent :: "oauth_env \<Rightarrow> int \<Rightarrow> string \<Rightarrow> bool \<Rightarrow> string \<Rightarrow> string \<Rightarrow> oauth \<Rightarrow>
    (oauth_error + consent_redirect) \<times> oauth" where
  "completeConsent env now i approve presented code s =
     (case pending_get now i s of
        None \<Rightarrow> (Inl InvalidRequest, s)
      | Some p \<Rightarrow>
          if approve \<and> \<not> consentAllows now p s
          then (Inl ConsentWindowClosed, audit now ''consent_refused'' (Some (pdClient p)) None s)
          else if approve \<and> \<not> timingSafeStringEqual (normalize_code presented) (oaCode s)
          then (Inl ConsentCodeMismatch, audit now ''consent_refused'' (Some (pdClient p)) None s)
          else
            (let (taken, s) = pending_take i s in
             if \<not> taken then (Inl InvalidRequest, s)
             else
               (let (live, s) = liveClient env now (pdClient p) s in
                if envUrl env (pdRedirect p) = None then (Inl UrlThrows, s)
                else
                  (case (live, approve) of
                     (Some client, True) \<Rightarrow>
                       (case codes_create now \<lparr>cdHash = envHash env code, cdClient = clId client,
                           cdChallenge = pdChallenge p, cdRedirect = pdRedirect p,
                           cdResource = pdResource p, cdScopes = pdScopes p, cdExpiresAt = 0,
                           cdUsedAt = None\<rparr> kCodeTtlMs s of
                          None \<Rightarrow> (Inl StoreThrows, s)
                        | Some s \<Rightarrow>
                            (let s = clients_markConsented now (clId client) s;
                                 s = s\<lparr>oaUntil := 0, oaCode := []\<rparr> in
                             (Inr (RedirectCode (pdRedirect p) (pdState p) code),
                              audit now ''consent_granted'' (Some (clId client)) None s)))
                   | _ \<Rightarrow> (Inr (RedirectDenied (pdRedirect p) (pdState p)),
                           audit now ''consent_denied'' (Some (pdClient p)) None s)))))"

definition revokeClient :: "int \<Rightarrow> string \<Rightarrow> oauth \<Rightarrow> string list option \<times> oauth" where
  "revokeClient now i s = (case clients_get i s of
       None \<Rightarrow> (None, s)
     | Some _ \<Rightarrow>
         (let s = clients_revoke now i s;
              (agents, s) = bindings_removeForClient i s in
          (Some agents, audit now ''client_revoked'' (Some i) None s)))"

section \<open>The server as a machine\<close>

datatype oauth_op =
    Register string client_info
  | Authenticate string "string option"
  | Lookup string
  | Authorize pending_request "string option"
  | ExchangeCode string string "string option" "string option" string string string
  | ExchangeRefresh string string "string option" string string
  | Verify string
  | RevokeToken string string
  | OpenWindow string
  | Consent string bool string string
  | RevokeClient string
  | Touch string
  | Sweep int
  | Restart
  | Elsewhere "binding list" "wake list" "audit_entry list"

datatype oauth_outcome =
    Refusal oauth_error
  | Tokens issued
  | Bearer verified
  | Decision consent_redirect
  | Done

fun outcome_of :: "('a \<Rightarrow> oauth_outcome) \<Rightarrow> (oauth_error + 'a) \<times> oauth \<Rightarrow> oauth_outcome \<times> oauth" where
  "outcome_of f (Inl e, s) = (Refusal e, s)"
| "outcome_of f (Inr x, s) = (f x, s)"

text \<open>One operation at one time. A restart of the process loses the consent window and keeps the
  store; other parts of the relay write only bindings, wakes and the audit log.\<close>

fun oauth_step :: "oauth_env \<Rightarrow> oauth \<Rightarrow> nat \<times> oauth_op \<Rightarrow> oauth_outcome \<times> oauth" where
  "oauth_step env s (t, Register i info) = outcome_of (\<lambda>_. Done) (registerClient env (int t) i info s)"
| "oauth_step env s (t, Authenticate i p) = (Done, snd (authenticateClientSecret env (int t) i p s))"
| "oauth_step env s (t, Lookup i) = (Done, snd (getClient env (int t) i s))"
| "oauth_step env s (t, Authorize req r) = outcome_of (\<lambda>_. Done) (authorize env (int t) req r s)"
| "oauth_step env s (t, ExchangeCode c code redirect r family access refresh) =
     outcome_of Tokens (exchangeAuthorizationCode env (int t) c code redirect r family access refresh s)"
| "oauth_step env s (t, ExchangeRefresh c presented r access refresh) =
     outcome_of Tokens (exchangeRefreshToken env (int t) c presented r access refresh s)"
| "oauth_step env s (t, Verify presented) = outcome_of Bearer (verifyAccessToken env (int t) presented s)"
| "oauth_step env s (t, RevokeToken c presented) = (Done, revokeToken env (int t) c presented s)"
| "oauth_step env s (t, OpenWindow code) = (Done, snd (openConsentWindow (int t) code s))"
| "oauth_step env s (t, Consent i approve presented code) =
     outcome_of Decision (completeConsent env (int t) i approve presented code s)"
| "oauth_step env s (t, RevokeClient i) = (Done, snd (revokeClient (int t) i s))"
| "oauth_step env s (t, Touch i) = (Done, clients_touch (int t) i s)"
| "oauth_step env s (t, Sweep days) = (Done, sweep_store (int t) days s)"
| "oauth_step env s (t, Restart) = (Done, s\<lparr>oaOpenedAt := 0, oaUntil := 0, oaCode := []\<rparr>)"
| "oauth_step env s (t, Elsewhere bs ws au) =
     (Done, s\<lparr>rsBindings := bs, rsWakes := ws, rsAudit := au\<rparr>)"

section \<open>What the operations leave alone\<close>


lemma audit_frame [simp]:
  "rsClients (audit now e c a s) = rsClients s" "rsPending (audit now e c a s) = rsPending s"
  "rsCodes (audit now e c a s) = rsCodes s" "rsTokens (audit now e c a s) = rsTokens s"
  "rsBindings (audit now e c a s) = rsBindings s" "rsWakes (audit now e c a s) = rsWakes s"
  by (simp_all add: audit_def)

lemma audit_window [simp]:
  "oaOpenedAt (audit now e c a s) = oaOpenedAt s" "oaUntil (audit now e c a s) = oaUntil s"
  "oaCode (audit now e c a s) = oaCode s"
  by (simp_all add: audit_def)

definition same_grants :: "oauth \<Rightarrow> oauth \<Rightarrow> bool" where
  "same_grants s t \<longleftrightarrow> rsCodes t = rsCodes s \<and> rsTokens t = rsTokens s
     \<and> oaOpenedAt t = oaOpenedAt s \<and> oaUntil t = oaUntil s \<and> oaCode t = oaCode s"

lemma same_grants_refl [simp]: "same_grants s s"
  by (simp add: same_grants_def)

lemma same_grants_trans: "same_grants s t \<Longrightarrow> same_grants t u \<Longrightarrow> same_grants s u"
  by (simp add: same_grants_def)

definition client_dead :: "string \<Rightarrow> oauth \<Rightarrow> bool" where
  "client_dead c s \<longleftrightarrow> (\<forall>r \<in> set (rsClients s). clId r = c \<longrightarrow> clRevokedAt r \<noteq> None)"

lemma client_dead_cong: "rsClients t = rsClients s \<Longrightarrow> client_dead c t = client_dead c s"
  by (simp add: client_dead_def)

lemma client_dead_update:
  assumes "client_dead c s" and "rsClients t = sql_update p f (rsClients s)"
    and "\<And>r. clId (f r) = clId r" and "\<And>r. clRevokedAt r \<noteq> None \<Longrightarrow> clRevokedAt (f r) \<noteq> None"
  shows "client_dead c t"
  using assms by (auto simp: client_dead_def set_sql_update)

lemma client_dead_delete:
  "client_dead c s \<Longrightarrow> rsClients t = sql_delete p (rsClients s) \<Longrightarrow> client_dead c t"
  by (auto simp: client_dead_def set_sql_delete)

lemma rehash_secret_frame:
  assumes "rehash_secret env row s = (row', t)"
  shows "same_grants s t" and "rsPending t = rsPending s" and "client_dead c s \<Longrightarrow> client_dead c t"
    and "clId row' = clId row" and "clRevokedAt row' = clRevokedAt row"
    and "clConsentedAt row' = clConsentedAt row" and "clCreatedAt row' = clCreatedAt row"
  using assms by (auto simp: rehash_secret_def Let_def same_grants_def clients_updateInfo_def
      split: option.splits if_splits elim!: client_dead_update)

lemma liveClient_frame:
  assumes "liveClient env now i s = (live, t)"
  shows "same_grants s t" and "rsPending t = rsPending s" and "client_dead c s \<Longrightarrow> client_dead c t"
  using assms by (auto simp: liveClient_def split: option.splits if_splits prod.splits
      dest: rehash_secret_frame(1,2) rehash_secret_frame(3) [of _ _ _ _ _ c])

lemma liveClient_Some:
  assumes "liveClient env now i s = (Some row, t)"
  shows "clId row = i" and "\<not> client_dead i s"
proof -
  from assms obtain r0 r1 where g: "clients_get i s = Some r0" "clRevokedAt r0 = None"
    and r: "rehash_secret env r0 s = (r1, t)" and "row = r1"
    by (auto simp: liveClient_def split: option.splits if_splits prod.splits)
  from find_Some_set [OF g(1) [unfolded clients_get_def]] have "r0 \<in> set (rsClients s)" "clId r0 = i" by auto
  then show "clId row = i" "\<not> client_dead i s"
    using rehash_secret_frame(4) [OF r] \<open>row = r1\<close> g(2) by (auto simp: client_dead_def)
qed

lemma evict_frame:
  assumes "clients_evictOldestPending since s = (x, t)"
  shows "same_grants s t" and "client_dead c s \<Longrightarrow> client_dead c t"
  using assms by (auto simp: clients_evictOldestPending_def same_grants_def
      split: option.splits elim: client_dead_delete)

lemma make_room_frame: "same_grants s (make_room now s) \<and> (client_dead c s \<longrightarrow> client_dead c (make_room now s))"
proof (induction now s rule: make_room.induct)
  case (1 now s)
  show ?case
  proof (cases "kMaxPendingRegistrations \<le> clients_countPending (now - kUnconsentedClientTtlMs) s")
    case True
    obtain x t where e: "clients_evictOldestPending (now - kUnconsentedClientTtlMs) s = (x, t)" by fastforce
    show ?thesis
    proof (cases x)
      case (Some v)
      let ?u = "audit now ''client_evicted'' (Some v) None t"
      have IH: "same_grants ?u (make_room now ?u) \<and> (client_dead c ?u \<longrightarrow> client_dead c (make_room now ?u))"
        by (rule 1 [OF True e [symmetric] Some])
      have "same_grants s ?u" using evict_frame(1) [OF e] by (simp add: same_grants_def)
      moreover have "client_dead c s \<longrightarrow> client_dead c ?u"
        using evict_frame(2) [OF e] by (simp add: client_dead_def)
      moreover have "make_room now s = make_room now ?u"
        using True e Some by (subst make_room.simps) simp
      ultimately show ?thesis using IH same_grants_trans [of s ?u "make_room now ?u"] by simp
    qed (use True e in \<open>simp add: make_room.simps [of now s]\<close>)
  qed (simp add: make_room.simps [of now s])
qed

lemma registerClient_frame:
  assumes "registerClient env now i info s = (r, t)"
  shows "same_grants s t" and "c \<noteq> i \<Longrightarrow> client_dead c s \<Longrightarrow> client_dead c t"
proof -
  let ?m = "make_room now s"
  have t: "t = s \<or> t = ?m \<or> (\<exists>x. clients_insert now i (stored_info env (registered_info info)) ?m = Some x
      \<and> (t = x \<or> t = audit now ''client_registered'' (Some i) None x))"
    using assms by (auto simp: registerClient_def Let_def split: if_splits option.splits)
  note m = make_room_frame [of s now c]
  show "same_grants s t" using t m by (auto simp: clients_insert_def same_grants_def split: if_splits)
  assume "c \<noteq> i" "client_dead c s"
  then show "client_dead c t"
    using t m by (auto simp: clients_insert_def client_dead_def split: if_splits)
qed

lemma authenticate_frame:
  "same_grants s (snd (authenticateClientSecret env now i p s))"
  "client_dead c s \<Longrightarrow> client_dead c (snd (authenticateClientSecret env now i p s))"
proof -
  obtain live t where l: "liveClient env now i s = (live, t)" by fastforce
  then have "snd (authenticateClientSecret env now i p s) \<in> {s, t}"
    by (simp add: authenticateClientSecret_def Let_def split: option.split)
  then show "same_grants s (snd (authenticateClientSecret env now i p s))"
    "client_dead c s \<Longrightarrow> client_dead c (snd (authenticateClientSecret env now i p s))"
    using liveClient_frame [OF l] by auto
qed

lemma authorize_frame:
  assumes "authorize env now req r s = (x, t)"
  shows "same_grants s t" and "rsClients t = rsClients s"
  using assms by (auto simp: authorize_def pending_create_def same_grants_def split: sum.splits if_splits)

lemma verify_frame:
  assumes "verifyAccessToken env now p s = (x, t)"
  shows "same_grants s t" and "client_dead c s \<Longrightarrow> client_dead c t"
  using assms by (auto simp: verifyAccessToken_def split: option.splits if_splits prod.splits
      dest: liveClient_frame(1) liveClient_frame(3) [of _ _ _ _ _ _ c])

lemma removeForClient_frame:
  assumes "bindings_removeForClient i s = (agents, t)"
  shows "same_grants s t" and "rsClients t = rsClients s" and "rsPending t = rsPending s"
proof -
  have "same_grants s (fold (\<lambda>a s. snd (bindings_remove a s)) as s)
    \<and> rsClients (fold (\<lambda>a s. snd (bindings_remove a s)) as s) = rsClients s
    \<and> rsPending (fold (\<lambda>a s. snd (bindings_remove a s)) as s) = rsPending s" for as
    by (induction as arbitrary: s) (auto simp: bindings_remove_def same_grants_def)
  then show "same_grants s t" "rsClients t = rsClients s" "rsPending t = rsPending s"
    using assms by (auto simp: bindings_removeForClient_def Let_def)
qed

section \<open>What the grant operations do\<close>

definition grants_wf :: "oauth \<Rightarrow> bool" where
  "grants_wf s \<longleftrightarrow> distinct (map cdHash (rsCodes s)) \<and> distinct (map tkHash (rsTokens s))"

lemma tokens_issue_cases:
  assumes "tokens_issue now t ttl s = Some s'"
  shows "tkHash t \<notin> tkHash ` set (rsTokens s)"
    and "s' = s\<lparr>rsTokens := rsTokens s @ [t\<lparr>tkCreatedAt := now, tkExpiresAt := now + ttl,
       tkUsedAt := None, tkRevokedAt := None\<rparr>]\<rparr>"
  using assms by (auto simp: tokens_issue_def sql_count_eq_0 split: if_splits)

text \<open>What \<open>issueTokens\<close> adds: rows of the two hashes, of the family and client of the grant.\<close>

lemma issueTokens_frame:
  assumes "issueTokens env now c family res scopes access refresh s = (r, s')"
  shows "rsClients s' = rsClients s" "rsCodes s' = rsCodes s" "rsPending s' = rsPending s"
    "oaUntil s' = oaUntil s" "oaOpenedAt s' = oaOpenedAt s" "oaCode s' = oaCode s"
    and "\<exists>new. rsTokens s' = rsTokens s @ new
      \<and> (\<forall>t \<in> set new. tkFamily t = family \<and> tkClient t = c \<and> tkRevokedAt t = None
           \<and> (tkKind t = Refresh \<longrightarrow> tkHash t = envHash env refresh))
      \<and> (distinct (map tkHash (rsTokens s)) \<longrightarrow> distinct (map tkHash (rsTokens s')))"
proof -
  let ?a = "new_token Access (envHash env access) c family res scopes"
  let ?r = "new_token Refresh (envHash env refresh) c family res scopes"
  consider "s' = s" | s1 where "tokens_issue now ?a kAccessTtlMs s = Some s1" "s' = s1"
    | s1 where "tokens_issue now ?a kAccessTtlMs s = Some s1" "tokens_issue now ?r kRefreshTtlMs s1 = Some s'"
    using assms by (auto simp: issueTokens_def split: option.splits)
  note cases = this
  show "rsClients s' = rsClients s" "rsCodes s' = rsCodes s" "rsPending s' = rsPending s"
    "oaUntil s' = oaUntil s" "oaOpenedAt s' = oaOpenedAt s" "oaCode s' = oaCode s"
    by (rule cases; auto dest!: tokens_issue_cases(2))+
  show "\<exists>new. rsTokens s' = rsTokens s @ new
      \<and> (\<forall>t \<in> set new. tkFamily t = family \<and> tkClient t = c \<and> tkRevokedAt t = None
           \<and> (tkKind t = Refresh \<longrightarrow> tkHash t = envHash env refresh))
      \<and> (distinct (map tkHash (rsTokens s)) \<longrightarrow> distinct (map tkHash (rsTokens s')))"
  proof (cases rule: cases)
    case (2 s1)
    from tokens_issue_cases [OF 2(1)] show ?thesis by (auto simp: 2(2) new_token_def)
  next
    case (3 s1)
    from tokens_issue_cases [OF 3(1)] tokens_issue_cases [OF 3(2)] show ?thesis
      by (auto simp: new_token_def)
  qed simp
qed

lemma issueTokens_Inr:
  "issueTokens env now c family res scopes access refresh s = (Inr i, s') \<Longrightarrow>
     isFamily i = family \<and> isClient i = c \<and> isResource i = res"
  by (auto simp: issueTokens_def split: option.splits)

lemma count_distinct:
  "distinct (map key rows) \<Longrightarrow> sql_count (\<lambda>r. key r = k \<and> P r) rows = of_bool (\<exists>r \<in> set rows. key r = k \<and> P r)"
  by (induction rows) (auto simp: sql_count_eq_0)

lemma find_key_distinct:
  assumes "distinct (map key rows)" and "find (\<lambda>r. key r = k) rows = Some q" and "r \<in> set rows" and "key r = k"
  shows "r = q"
proof -
  from find_Some_set [OF assms(2)] have "q \<in> set rows" "key q = k" by auto
  then show ?thesis using assms(1,3,4) by (auto simp: distinct_map dest: inj_onD)
qed

datatype credential = CodeCred string | RefreshCred string | WindowCred

fun live :: "oauth \<Rightarrow> credential \<Rightarrow> bool" where
  "live s (CodeCred h) \<longleftrightarrow> (\<exists>r \<in> set (rsCodes s). cdHash r = h \<and> cdUsedAt r = None)"
| "live s (RefreshCred h) \<longleftrightarrow> (\<exists>r \<in> set (rsTokens s). tkHash r = h \<and> tkKind r = Refresh
     \<and> tkUsedAt r = None \<and> tkRevokedAt r = None)"
| "live s WindowCred \<longleftrightarrow> 0 < oaUntil s"

fun redeemed_by :: "oauth_env \<Rightarrow> oauth_op \<Rightarrow> oauth_outcome \<Rightarrow> credential option" where
  "redeemed_by env (ExchangeCode c code redirect r family access refresh) (Tokens i) =
     Some (CodeCred (envHash env code))"
| "redeemed_by env (ExchangeRefresh c presented r access refresh) (Tokens i) =
     Some (RefreshCred (envHash env presented))"
| "redeemed_by env (Consent i approve presented code) (Decision (RedirectCode u st k)) = Some WindowCred"
| "redeemed_by env op outcome = None"

fun mints_credentials :: "oauth_env \<Rightarrow> nat \<times> oauth_op \<Rightarrow> credential list" where
  "mints_credentials env (t, OpenWindow code) = [WindowCred]"
| "mints_credentials env (t, Consent i approve presented code) = [CodeCred (envHash env code)]"
| "mints_credentials env (t, ExchangeCode c code redirect r family access refresh) =
     [RefreshCred (envHash env refresh)]"
| "mints_credentials env (t, ExchangeRefresh c presented r access refresh) =
     [RefreshCred (envHash env refresh)]"
| "mints_credentials env (t, op) = []"

definition oauth_act :: "oauth_env \<Rightarrow> oauth \<Rightarrow> nat \<times> oauth_op \<Rightarrow> oauth \<times> credential option" where
  "oauth_act env s e = (let (outcome, t) = oauth_step env s e in (t, redeemed_by env (snd e) outcome))"

lemma same_grants_live: "same_grants s t \<Longrightarrow> live t k = live s k"
  by (cases k) (auto simp: same_grants_def)

text \<open>How an exchange ends: refused with nothing changed, refused because the code was spent or the
  client is gone, or through \<open>issueTokens\<close>.\<close>

lemma exchangeCode_cases:
  assumes "exchangeAuthorizationCode env now c code redirect res family access refresh s = (r, t)"
  obtains (refused) e where "r = Inl e" "t = s"
  | (spent) e s1 where "codes_markUsed now (envHash env code) s = (False, s1)" "r = Inl e" "t = s1"
  | (gone) e s1 where "codes_markUsed now (envHash env code) s = (True, s1)"
      "liveClient env now c s1 = (None, t)" "r = Inl e"
  | (issued) row s1 client s2 where "codes_get (envHash env code) s = Some row" "cdClient row = c"
      "now \<le> cdExpiresAt row" "redirect = None \<or> redirect = Some (cdRedirect row)"
      "\<not> wrong_resource env res (cdResource row)"
      "codes_markUsed now (envHash env code) s = (True, s1)" "liveClient env now c s1 = (Some client, s2)"
      "issueTokens env now c family (cdResource row) (cdScopes row) access refresh
         (audit now ''token_issued'' (Some c) None s2) = (r, t)"
  using assms
  by (simp add: exchangeAuthorizationCode_def split: option.splits if_splits prod.splits) auto

lemma exchangeRefresh_cases:
  assumes "exchangeRefreshToken env now c presented res access refresh s = (r, t)"
  obtains (refused) e where "r = Inl e" "t = s"
  | (replay) e row where "tokens_get (envHash env presented) s = Some row" "tkKind row = Refresh"
      "tkClient row = c" "tkUsedAt row \<noteq> None" "tkRevokedAt row = None" "r = Inl e"
      "t = audit now ''refresh_replay'' (Some c) None (tokens_revokeFamily now (tkFamily row) s)"
  | (gone) e where "liveClient env now c s = (None, t)" "r = Inl e"
  | (spent) e client s1 where "liveClient env now c s = (Some client, s1)"
      "tokens_markUsed now (envHash env presented) s1 = (False, t)" "r = Inl e"
  | (issued) row client s1 s2 where "tokens_get (envHash env presented) s = Some row"
      "tkKind row = Refresh" "tkClient row = c" "tkUsedAt row = None" "tkRevokedAt row = None"
      "now \<le> tkExpiresAt row" "\<not> wrong_resource env res (tkResource row)"
      "liveClient env now c s = (Some client, s1)" "tokens_markUsed now (envHash env presented) s1 = (True, s2)"
      "issueTokens env now c (tkFamily row) (tkResource row) (tkScopes row) access refresh
         (audit now ''token_refreshed'' (Some c) None s2) = (r, t)"
  using assms
  by (simp add: exchangeRefreshToken_def split: option.splits if_splits prod.splits) auto

text \<open>How a consent decision ends: granted, or with no grant and the window untouched.\<close>

lemma pending_take_frame:
  "pending_take i s = (b, t) \<Longrightarrow> same_grants s t \<and> (client_dead x s \<longrightarrow> client_dead x t)"
  by (auto simp: pending_take_def same_grants_def client_dead_def)

lemma completeConsent_granted:
  assumes "completeConsent env now i approve presented code s = (Inr (RedirectCode u st k), t)"
    and "pending_get now i s = Some p" and take: "pending_take i s = (b, s1)"
    and live: "liveClient env now (pdClient p) s1 = (lv, s2)"
  shows "\<exists>client s3. approve \<and> consentAllows now p s \<and>
      timingSafeStringEqual (normalize_code presented) (oaCode s) \<and> b \<and> lv = Some client \<and>
      codes_create now \<lparr>cdHash = envHash env code, cdClient = clId client,
         cdChallenge = pdChallenge p, cdRedirect = pdRedirect p, cdResource = pdResource p,
         cdScopes = pdScopes p, cdExpiresAt = 0, cdUsedAt = None\<rparr> kCodeTtlMs s2 = Some s3 \<and>
      u = pdRedirect p \<and> st = pdState p \<and> k = code \<and>
      t = audit now ''consent_granted'' (Some (clId client)) None
         (clients_markConsented now (clId client) s3\<lparr>oaUntil := 0, oaCode := []\<rparr>)"
proof (cases "approve \<and> consentAllows now p s
    \<and> timingSafeStringEqual (normalize_code presented) (oaCode s) \<and> b \<and> lv \<noteq> None")
  case True
  then obtain cl where "lv = Some cl" by auto
  then show ?thesis using assms True
    by (simp add: completeConsent_def Let_def split: if_splits option.splits)
next
  case False
  have False using assms(1) False unfolding completeConsent_def assms(2)
    by (simp add: take live split: if_splits option.splits bool.splits)
  then show ?thesis by simp
qed

lemma completeConsent_other:
  assumes "completeConsent env now i approve presented code s = (r, t)"
    and "\<nexists>u st k. r = Inr (RedirectCode u st k)"
    and "pending_get now i s = Some p" and take: "pending_take i s = (b, s1)"
    and live: "liveClient env now (pdClient p) s1 = (lv, s2)"
  shows "t \<in> {s1, s2, audit now ''consent_refused'' (Some (pdClient p)) None s,
    audit now ''consent_denied'' (Some (pdClient p)) None s2}"
  using assms(1,2) unfolding completeConsent_def assms(3)
  by (simp add: take live split: if_splits option.splits bool.splits) auto

lemma completeConsent_cases:
  assumes "completeConsent env now i approve presented code s = (r, t)"
  obtains (other) "\<And>u st k. r \<noteq> Inr (RedirectCode u st k)" "same_grants s t"
      "\<And>x. client_dead x s \<Longrightarrow> client_dead x t"
  | (granted) p client s1 s2 s3 where "pending_get now i s = Some p" "approve" "consentAllows now p s"
      "timingSafeStringEqual (normalize_code presented) (oaCode s)"
      "r = Inr (RedirectCode (pdRedirect p) (pdState p) code)"
      "pending_take i s = (True, s1)" "liveClient env now (pdClient p) s1 = (Some client, s2)"
      "codes_create now \<lparr>cdHash = envHash env code, cdClient = clId client,
         cdChallenge = pdChallenge p, cdRedirect = pdRedirect p, cdResource = pdResource p,
         cdScopes = pdScopes p, cdExpiresAt = 0, cdUsedAt = None\<rparr> kCodeTtlMs s2 = Some s3"
      "t = audit now ''consent_granted'' (Some (clId client)) None
         (clients_markConsented now (clId client) s3\<lparr>oaUntil := 0, oaCode := []\<rparr>)"
proof (cases "pending_get now i s")
  case None
  then show ?thesis using assms by (intro other) (auto simp: completeConsent_def)
next
  case (Some p)
  obtain b s1 where take: "pending_take i s = (b, s1)" by fastforce
  obtain lv s2 where live: "liveClient env now (pdClient p) s1 = (lv, s2)" by fastforce
  have f2: "same_grants s s2" "\<And>x. client_dead x s \<Longrightarrow> client_dead x s2"
    using pending_take_frame [OF take] liveClient_frame(1,3) [OF live] same_grants_trans by blast+
  have au: "same_grants s (audit now e c a u) = same_grants s u" "client_dead x (audit now e c a u) = client_dead x u"
    for e c a u x by (simp_all add: same_grants_def client_dead_def)
  show ?thesis
  proof (cases "\<exists>u st k. r = Inr (RedirectCode u st k)")
    case True
    then obtain u st k where r: "r = Inr (RedirectCode u st k)" by blast
    from completeConsent_granted [OF assms [unfolded r] Some take live] show ?thesis
      using Some take live r by (elim exE conjE) (rule granted, auto)
  next
    case False
    from completeConsent_other [OF assms False Some take live] show ?thesis
      using False f2 pending_take_frame [OF take] by (intro other) (auto simp: au)
  qed
qed

section \<open>Credentials are spent\<close>

lemma codes_markUsed_spends:
  assumes "codes_markUsed now h s = (b, t)"
  shows "\<not> live t (CodeCred h)" and "live t k \<Longrightarrow> live s k" and "b \<Longrightarrow> live s (CodeCred h)"
    and "rsTokens t = rsTokens s" "oaUntil t = oaUntil s" "rsClients t = rsClients s" "rsPending t = rsPending s"
    and "map cdHash (rsCodes t) = map cdHash (rsCodes s)"
proof -
  have t: "t = s\<lparr>rsCodes := sql_update (\<lambda>r. cdHash r = h \<and> cdUsedAt r = None)
      (\<lambda>r. r\<lparr>cdUsedAt := Some now\<rparr>) (rsCodes s)\<rparr>"
    and b: "b \<longleftrightarrow> sql_count (\<lambda>r. cdHash r = h \<and> cdUsedAt r = None) (rsCodes s) = 1"
    using assms by (auto simp: codes_markUsed_def)
  show "\<not> live t (CodeCred h)" by (simp add: t bex_sql_update)
  show "live t k \<Longrightarrow> live s k" by (cases k) (auto simp: t bex_sql_update split: if_splits)
  show "b \<Longrightarrow> live s (CodeCred h)"
  proof -
    assume b
    then have "sql_count (\<lambda>r. cdHash r = h \<and> cdUsedAt r = None) (rsCodes s) \<noteq> 0" using b by simp
    then show ?thesis unfolding sql_count_eq_0 by simp
  qed
  show "map cdHash (rsCodes t) = map cdHash (rsCodes s)" by (simp add: t map_sql_update_key)
qed (use assms in \<open>auto simp: codes_markUsed_def\<close>)

lemma tokens_markUsed_spends:
  assumes "tokens_markUsed now h s = (b, t)"
  shows "\<not> live t (RefreshCred h)" and "live t k \<Longrightarrow> live s k"
    and "rsCodes t = rsCodes s" "oaUntil t = oaUntil s" "rsClients t = rsClients s" "rsPending t = rsPending s"
    and "map tkHash (rsTokens t) = map tkHash (rsTokens s)"
    and "\<forall>r \<in> set (rsTokens t). \<exists>q \<in> set (rsTokens s). tkFamily q = tkFamily r
      \<and> tkClient q = tkClient r \<and> tkRevokedAt q = tkRevokedAt r"
proof -
  have t: "t = s\<lparr>rsTokens := sql_update (\<lambda>r. tkHash r = h \<and> tkUsedAt r = None \<and> tkRevokedAt r = None)
      (\<lambda>r. r\<lparr>tkUsedAt := Some now\<rparr>) (rsTokens s)\<rparr>"
    using assms by (auto simp: tokens_markUsed_def)
  show "\<not> live t (RefreshCred h)" by (auto simp: t bex_sql_update split: if_splits)
  show "live t k \<Longrightarrow> live s k" by (cases k) (auto simp: t bex_sql_update split: if_splits)
  show "map tkHash (rsTokens t) = map tkHash (rsTokens s)" by (simp add: t map_sql_update_key)
  show "\<forall>r \<in> set (rsTokens t). \<exists>q \<in> set (rsTokens s). tkFamily q = tkFamily r
      \<and> tkClient q = tkClient r \<and> tkRevokedAt q = tkRevokedAt r"
    by (auto simp: t ball_sql_update split: if_splits)
qed (use assms in \<open>auto simp: tokens_markUsed_def\<close>)

text \<open>\<open>issueTokens\<close> brings only the new refresh token to life.\<close>

lemma issueTokens_live:
  assumes "issueTokens env now c family res scopes access refresh s = (r, t)" and "live t k"
  shows "live s k \<or> k = RefreshCred (envHash env refresh)"
proof -
  note f = issueTokens_frame [OF assms(1)]
  obtain new where n: "rsTokens t = rsTokens s @ new"
    "\<forall>t \<in> set new. tkKind t = Refresh \<longrightarrow> tkHash t = envHash env refresh" using f(7) by blast
  show ?thesis using assms(2) f(2,4) n by (cases k) auto
qed

text \<open>A token that is issued under a hash was not stored before, so the spent one stays spent.\<close>

lemma issueTokens_kept:
  assumes "issueTokens env now c family res scopes access refresh s = (r, t)" and "distinct (map tkHash (rsTokens s))"
    and "h \<in> tkHash ` set (rsTokens s)" and "live t (RefreshCred h)"
  shows "live s (RefreshCred h)"
proof -
  note f = issueTokens_frame [OF assms(1)]
  obtain new where n: "rsTokens t = rsTokens s @ new" "distinct (map tkHash (rsTokens t))"
    using f(7) assms(2) by blast
  then have "tkHash q \<noteq> h" if "q \<in> set new" for q using assms(3) that by auto
  then show ?thesis using assms(4) n(1) by auto
qed

text \<open>What an operation of the server may do to the credentials: the one it redeems was live and is
  spent, the ones it brings to life are the ones it draws.\<close>

definition spends :: "oauth \<Rightarrow> credential option \<Rightarrow> credential list \<Rightarrow> oauth \<Rightarrow> bool" where
  "spends s r ms t \<longleftrightarrow> (\<forall>k. r = Some k \<longrightarrow> live s k \<and> \<not> live t k)
     \<and> (\<forall>k. live t k \<longrightarrow> live s k \<or> k \<in> set ms) \<and> grants_wf t"

lemma spends_cost:
  "spends s r ms t \<Longrightarrow>
     of_bool (r = Some k) + of_bool (live t k) \<le> (of_bool (live s k) + count_list ms k :: nat)"
  using count_list_0_iff [of ms k] by (auto simp: spends_def of_bool_def Suc_le_eq)

lemma spends_same: "grants_wf s \<Longrightarrow> same_grants s t \<Longrightarrow> spends s None ms t"
  using same_grants_live [of s t] by (simp add: spends_def grants_wf_def same_grants_def)

lemma spends_fewer:
  assumes "grants_wf s" and "\<And>k. live t k \<Longrightarrow> live s k"
    and "map cdHash (rsCodes t) = map cdHash (rsCodes s)" and "map tkHash (rsTokens t) = map tkHash (rsTokens s)"
  shows "spends s None ms t"
  using assms by (auto simp: spends_def grants_wf_def)

lemma audit_spends [simp]: "spends s r ms (audit now e c a t) \<longleftrightarrow> spends s r ms t"
proof -
  have "live (audit now e c a t) k = live t k" for k by (cases k) auto
  then show ?thesis by (simp add: spends_def grants_wf_def)
qed

lemma exchangeCode_spends:
  assumes "grants_wf s"
    and "exchangeAuthorizationCode env now c code redirect res family access refresh s = (r, t)"
  shows "spends s (case r of Inl _ \<Rightarrow> None | Inr _ \<Rightarrow> Some (CodeCred (envHash env code)))
    [RefreshCred (envHash env refresh)] t"
  using assms(2)
proof (cases rule: exchangeCode_cases)
  case (refused e)
  then show ?thesis using spends_same [OF assms(1)] by simp
next
  case (spent e s1)
  then show ?thesis using codes_markUsed_spends [OF spent(1)]
    by simp (rule spends_fewer [OF assms(1)], auto)
next
  case (gone e s1)
  note m = codes_markUsed_spends [OF gone(1)]
  have "same_grants s1 t" using liveClient_frame(1) [OF gone(2)] .
  then show ?thesis using gone(3) m same_grants_live [of s1 t]
    by simp (rule spends_fewer [OF assms(1)], auto simp: same_grants_def)
next
  case (issued row s1 client s2)
  let ?s3 = "audit now ''token_issued'' (Some c) None s2"
  note m = codes_markUsed_spends [OF issued(6)]
  note f = issueTokens_frame [OF issued(8)]
  have g: "same_grants s1 ?s3" using liveClient_frame(1) [OF issued(7)] by (simp add: same_grants_def)
  have live3: "live ?s3 k = live s1 k" for k by (rule same_grants_live [OF g])
  have new: "live t k \<longrightarrow> live s k \<or> k = RefreshCred (envHash env refresh)" for k
    using issueTokens_live [OF issued(8), of k] live3 m(2) [of k] by auto
  have spent: "\<not> live t (CodeCred (envHash env code))"
    using issueTokens_live [OF issued(8), of "CodeCred (envHash env code)"] live3 m(1)
    by (auto simp del: live.simps)
  have "grants_wf t" using assms(1) f(2,7) g m(4,8) by (auto simp: grants_wf_def same_grants_def)
  then show ?thesis using new spent m(3) by (cases r) (auto simp: spends_def)
qed

lemma exchangeRefresh_spends:
  assumes wf: "grants_wf s"
    and "exchangeRefreshToken env now c presented res access refresh s = (r, t)"
  shows "spends s (case r of Inl _ \<Rightarrow> None | Inr _ \<Rightarrow> Some (RefreshCred (envHash env presented)))
    [RefreshCred (envHash env refresh)] t"
  using assms(2)
proof (cases rule: exchangeRefresh_cases)
  case (refused e)
  then show ?thesis using spends_same [OF wf] by simp
next
  case (replay e row)
  have "live (tokens_revokeFamily now (tkFamily row) s) k \<Longrightarrow> live s k" for k
    by (cases k) (auto simp: tokens_revokeFamily_def bex_sql_update split: if_splits)
  then show ?thesis using replay(6,7)
    by simp (rule spends_fewer [OF wf], auto simp: tokens_revokeFamily_def map_sql_update_key)
next
  case (gone e)
  then show ?thesis using liveClient_frame(1) [OF gone(1)] spends_same [OF wf] by simp
next
  case (spent e client s1)
  have g: "same_grants s s1" using liveClient_frame(1) [OF spent(1)] .
  then show ?thesis using spent(3) tokens_markUsed_spends [OF spent(2)] same_grants_live [OF g]
    by simp (rule spends_fewer [OF wf], auto simp: same_grants_def)
next
  case (issued row client s1 s2)
  let ?h = "envHash env presented"
  let ?s3 = "audit now ''token_refreshed'' (Some c) None s2"
  note m = tokens_markUsed_spends [OF issued(9)]
  note f = issueTokens_frame [OF issued(10)]
  have g: "same_grants s s1" using liveClient_frame(1) [OF issued(8)] .
  have live3: "live ?s3 k = live s2 k" for k by (rule same_grants_live) (simp add: same_grants_def)
  from find_Some_set [OF issued(1) [unfolded tokens_get_def]]
  have row: "row \<in> set (rsTokens s)" "tkHash row = ?h" by auto
  have hashes: "map tkHash (rsTokens ?s3) = map tkHash (rsTokens s)" using m(7) g by (simp add: same_grants_def)
  have "distinct (map tkHash (rsTokens ?s3))" using wf by (simp only: hashes grants_wf_def)
  moreover have "?h \<in> tkHash ` set (rsTokens ?s3)"
    using row hashes by (metis (no_types, lifting) image_eqI list.set_map)
  ultimately have dead: "\<not> live t (RefreshCred ?h)"
    using issueTokens_kept [OF issued(10)] live3 m(1) by blast
  have new: "live t k \<longrightarrow> live s k \<or> k = RefreshCred (envHash env refresh)" for k
    using issueTokens_live [OF issued(10), of k] live3 m(2) [of k] same_grants_live [OF g] by auto
  have old: "live s (RefreshCred ?h)" using row issued(2,4,5) by auto
  have "grants_wf t" using wf f(2,7) g m(3,7) hashes by (auto simp: grants_wf_def same_grants_def)
  then show ?thesis using new dead old by (cases r) (auto simp: spends_def)
qed

lemma completeConsent_spends:
  assumes wf: "grants_wf s" and "completeConsent env (int now) i approve presented code s = (r, t)"
  shows "spends s (case r of Inr (RedirectCode _ _ _) \<Rightarrow> Some WindowCred | _ \<Rightarrow> None)
    [CodeCred (envHash env code)] t"
  using assms(2)
proof (cases rule: completeConsent_cases)
  case other
  then show ?thesis using spends_same [OF wf other(2)] by (auto split: sum.split consent_redirect.split)
next
  case (granted p client s1 s2 s3)
  have g: "same_grants s s2"
    using pending_take_frame [OF granted(6)] liveClient_frame(1) [OF granted(7)] same_grants_trans by blast
  have c: "rsTokens t = rsTokens s2" "oaUntil t = 0" "rsCodes t = rsCodes s3"
    "\<exists>x. rsCodes s3 = rsCodes s2 @ [x] \<and> cdHash x = envHash env code"
    "envHash env code \<notin> cdHash ` set (rsCodes s2)"
    using granted(8,9) by (auto simp: codes_create_def clients_markConsented_def sql_count_eq_0 split: if_splits)
  have "live t k \<Longrightarrow> live s k \<or> k = CodeCred (envHash env code)" for k
    using c(1-4) g by (cases k) (auto simp: same_grants_def)
  moreover have "grants_wf t" using wf c g by (auto simp: grants_wf_def same_grants_def)
  moreover have "live s WindowCred" using granted(3) by (simp add: consentAllows_def consentWindowOpen_def)
  ultimately show ?thesis using c(2) granted(5) by (auto simp: spends_def)
qed

lemma revokeFamily_spends: "grants_wf s \<Longrightarrow> spends s None ms (tokens_revokeFamily now f s)"
proof (rule spends_fewer)
  show "live (tokens_revokeFamily now f s) k \<Longrightarrow> live s k" for k
    by (cases k) (auto simp: tokens_revokeFamily_def bex_sql_update split: if_splits)
qed (simp_all add: tokens_revokeFamily_def map_sql_update_key)

lemma revokeClient_spends:
  assumes "grants_wf s"
  shows "spends s None [] (snd (revokeClient now i s))"
proof (cases "clients_get i s")
  case None
  then show ?thesis using spends_same [OF assms] by (simp add: revokeClient_def)
next
  case (Some row)
  let ?s1 = "clients_revoke now i s"
  obtain agents s2 where rm: "bindings_removeForClient i ?s1 = (agents, s2)" by fastforce
  have g: "same_grants ?s1 s2" using removeForClient_frame(1) [OF rm] .
  have "live ?s1 k \<Longrightarrow> live s k" for k
    by (cases k) (auto simp: clients_revoke_def bex_sql_update split: if_splits)
  then have "spends s None [] s2" using same_grants_live [OF g] g
    by (intro spends_fewer [OF assms])
      (auto simp: clients_revoke_def same_grants_def map_sql_update_key)
  then show ?thesis using Some rm by (simp add: revokeClient_def)
qed

lemma sweep_frame:
  "oaUntil (sweep_store now days s) = oaUntil s" "oaOpenedAt (sweep_store now days s) = oaOpenedAt s"
  "oaCode (sweep_store now days s) = oaCode s"
  "rsTokens (sweep_store now days s) = sql_delete (\<lambda>r. tkExpiresAt r < now - 7 * day_ms) (rsTokens s)"
  "rsCodes (sweep_store now days s) = sql_delete (\<lambda>r. cdExpiresAt r < now - day_ms) (rsCodes s)"
  "rsClients (sweep_store now days s) =
     sql_delete (\<lambda>r. clConsentedAt r = None \<and> clCreatedAt r < now - day_ms) (rsClients s)"
  for s :: oauth
  by (simp_all add: sweep_store_def Let_def pending_prune_def codes_prune_def tokens_prune_def
      clients_pruneUnconsented_def wakes_prune_def)

lemma sweep_spends: "grants_wf s \<Longrightarrow> spends s None [] (sweep_store now days s)"
proof -
  assume wf: "grants_wf s"
  have "live (sweep_store now days s) k \<Longrightarrow> live s k" for k
    by (cases k) (auto simp: sweep_frame bex_sql_delete)
  then show ?thesis using wf by (auto simp: spends_def grants_wf_def sweep_frame distinct_key_sql_delete)
qed

lemma oauth_act_spends:
  assumes wf: "grants_wf s" and "oauth_act env s e = (t, r)"
  shows "spends s r (mints_credentials env e) t"
proof -
  obtain n op where e: "e = (n, op)" by (cases e)
  show ?thesis
  proof (cases op)
    case (Register i info)
    obtain x u where "registerClient env (int n) i info s = (x, u)" by fastforce
    then show ?thesis using assms registerClient_frame(1) spends_same [OF wf]
      by (cases x) (auto simp: e Register oauth_act_def)
  next
    case (Authorize req res)
    obtain x u where "authorize env (int n) req res s = (x, u)" by fastforce
    then show ?thesis using assms authorize_frame(1) spends_same [OF wf]
      by (cases x) (auto simp: e Authorize oauth_act_def)
  next
    case (Verify p)
    obtain x u where "verifyAccessToken env (int n) p s = (x, u)" by fastforce
    then show ?thesis using assms verify_frame(1) spends_same [OF wf]
      by (cases x) (auto simp: e Verify oauth_act_def)
  next
    case (Lookup i)
    obtain x u where "liveClient env (int n) i s = (x, u)" by fastforce
    then show ?thesis using assms liveClient_frame(1) spends_same [OF wf]
      by (auto simp: e Lookup oauth_act_def getClient_def)
  next
    case (Authenticate i p)
    then show ?thesis using assms authenticate_frame(1) spends_same [OF wf]
      by (auto simp: e oauth_act_def)
  next
    case (ExchangeCode c code redirect res family access refresh)
    obtain x u where x: "exchangeAuthorizationCode env (int n) c code redirect res family access refresh s = (x, u)"
      by fastforce
    then show ?thesis using assms(2) exchangeCode_spends [OF wf x]
      by (cases x) (auto simp: e ExchangeCode oauth_act_def)
  next
    case (ExchangeRefresh c p res access refresh)
    obtain x u where x: "exchangeRefreshToken env (int n) c p res access refresh s = (x, u)" by fastforce
    then show ?thesis using assms(2) exchangeRefresh_spends [OF wf x]
      by (cases x) (auto simp: e ExchangeRefresh oauth_act_def)
  next
    case (Consent i approve p code)
    obtain x u where x: "completeConsent env (int n) i approve p code s = (x, u)" by fastforce
    then show ?thesis using assms(2) completeConsent_spends [OF wf x]
      by (cases x) (auto simp: e Consent oauth_act_def split: consent_redirect.splits)
  next
    case (RevokeToken c p)
    have "spends s None [] (revokeToken env (int n) c p s)"
      using revokeFamily_spends [OF wf] spends_same [OF wf] by (auto simp: revokeToken_def split: option.split)
    then show ?thesis using assms(2) by (auto simp: e RevokeToken oauth_act_def)
  next
    case (RevokeClient i)
    then show ?thesis using assms(2) revokeClient_spends [OF wf] by (auto simp: e oauth_act_def)
  next
    case (Sweep d)
    then show ?thesis using assms(2) sweep_spends [OF wf] by (auto simp: e oauth_act_def)
  next
    case (OpenWindow code)
    have "live t k \<Longrightarrow> live s k \<or> k = WindowCred" for k
      using assms(2) by (cases k) (auto simp: e OpenWindow oauth_act_def openConsentWindow_def)
    then show ?thesis using assms by (auto simp: e OpenWindow oauth_act_def openConsentWindow_def spends_def grants_wf_def)
  next
    case (Touch i)
    then show ?thesis using assms spends_same [OF wf, of t]
      by (auto simp: e oauth_act_def clients_touch_def same_grants_def)
  next
    case Restart
    have "live t k \<Longrightarrow> live s k" for k
      using assms(2) by (cases k) (auto simp: e Restart oauth_act_def)
    then show ?thesis using assms by (auto simp: e Restart oauth_act_def spends_def grants_wf_def)
  next
    case (Elsewhere bs ws au)
    then show ?thesis using assms spends_same [OF wf, of t] by (auto simp: e oauth_act_def same_grants_def)
  qed
qed

lemma oauth_act_cost:
  "grants_wf s \<Longrightarrow> oauth_act env s e = (t, r) \<Longrightarrow>
     of_bool (r = Some k) + of_bool (live t k) \<le> (of_bool (live s k) + count_list (mints_credentials env e) k :: nat)"
  by (intro spends_cost oauth_act_spends)

lemma oauth_act_wf: "grants_wf s \<Longrightarrow> oauth_act env s e = (t, r) \<Longrightarrow> grants_wf t"
  using oauth_act_spends [of s env e t r] by (simp add: spends_def)

interpretation credentials: single_use "oauth_act env" live "mints_credentials env" grants_wf for env
  by unfold_locales (rule oauth_act_cost oauth_act_wf; assumption)+

section \<open>Dead families and dead clients stay dead\<close>

definition family_dead :: "string \<Rightarrow> oauth \<Rightarrow> bool" where
  "family_dead f s \<longleftrightarrow> (\<forall>r \<in> set (rsTokens s). tkFamily r = f \<longrightarrow> tkRevokedAt r \<noteq> None)"

definition oauth_next :: "oauth_env \<Rightarrow> oauth \<Rightarrow> nat \<times> oauth_op \<Rightarrow> oauth" where
  "oauth_next env s e = snd (oauth_step env s e)"

text \<open>The family a code exchange draws, the client a registration names.\<close>

fun new_family :: "nat \<times> oauth_op \<Rightarrow> string option" where
  "new_family (t, ExchangeCode c code redirect r family access refresh) = Some family"
| "new_family (t, op) = None"

fun registers :: "nat \<times> oauth_op \<Rightarrow> string option" where
  "registers (t, Register i info) = Some i"
| "registers (t, op) = None"

lemma snd_outcome_of [simp]: "snd (outcome_of f x) = snd x"
  by (cases x; cases "fst x") auto

lemma fst_outcome_of [simp]:
  "fst (outcome_of f x) = (case fst x of Inl e \<Rightarrow> Refusal e | Inr y \<Rightarrow> f y)"
  by (cases x; cases "fst x") auto

lemma same_grants_family: "same_grants s t \<Longrightarrow> family_dead f t = family_dead f s"
  by (simp add: same_grants_def family_dead_def)

lemma family_dead_from:
  "family_dead f s \<Longrightarrow> \<forall>r \<in> set (rsTokens t). \<exists>q \<in> set (rsTokens s). tkFamily q = tkFamily r
      \<and> tkClient q = tkClient r \<and> tkRevokedAt q = tkRevokedAt r \<Longrightarrow> family_dead f t"
  unfolding family_dead_def by metis

lemma issueTokens_family:
  assumes "issueTokens env now c family res scopes access refresh s = (r, t)"
    and "family_dead f s" and "family \<noteq> f"
  shows "family_dead f t"
  using issueTokens_frame(7) [OF assms(1)] assms(2,3) by (auto simp: family_dead_def)

lemma exchangeCode_family:
  assumes "exchangeAuthorizationCode env now c code redirect res family access refresh s = (r, t)"
    and "family_dead f s" and "family \<noteq> f"
  shows "family_dead f t"
  using assms(1)
proof (cases rule: exchangeCode_cases)
  case (spent e s1)
  then show ?thesis using codes_markUsed_spends(4) [OF spent(1)] assms(2) by (simp add: family_dead_def)
next
  case (gone e s1)
  then show ?thesis using codes_markUsed_spends(4) [OF gone(1)] same_grants_family [OF liveClient_frame(1) [OF gone(2)]]
      assms(2) by (simp add: family_dead_def)
next
  case (issued row s1 client s2)
  have "family_dead f (audit now ''token_issued'' (Some c) None s2)"
    using codes_markUsed_spends(4) [OF issued(6)] liveClient_frame(1) [OF issued(7)] assms(2)
    by (simp add: family_dead_def same_grants_def)
  then show ?thesis using issueTokens_family [OF issued(8)] assms(3) by simp
qed (use assms(2) in simp)

lemma revokeFamily_family:
  "family_dead f s \<or> g = f \<Longrightarrow> family_dead f (tokens_revokeFamily now g s)"
  by (auto simp: family_dead_def tokens_revokeFamily_def ball_sql_update)

lemma audit_family [simp]: "family_dead f (audit now e c a s) = family_dead f s"
  by (simp add: family_dead_def)

lemma exchangeRefresh_family:
  assumes "exchangeRefreshToken env now c presented res access refresh s = (r, t)" and "family_dead f s"
  shows "family_dead f t"
  using assms(1)
proof (cases rule: exchangeRefresh_cases)
  case (replay e row)
  then show ?thesis using revokeFamily_family assms(2) by simp
next
  case (gone e)
  then show ?thesis using same_grants_family [OF liveClient_frame(1) [OF gone(1)]] assms(2) by simp
next
  case (spent e client s1)
  have "family_dead f s1" using same_grants_family [OF liveClient_frame(1) [OF spent(1)]] assms(2) by simp
  then show ?thesis using family_dead_from tokens_markUsed_spends(8) [OF spent(2)] by blast
next
  case (issued row client s1 s2)
  have "family_dead f s1" using same_grants_family [OF liveClient_frame(1) [OF issued(8)]] assms(2) by simp
  then have "family_dead f s2" using family_dead_from tokens_markUsed_spends(8) [OF issued(9)] by blast
  moreover have "tkFamily row \<noteq> f"
    using find_Some_set [OF issued(1) [unfolded tokens_get_def]] issued(5) assms(2) by (auto simp: family_dead_def)
  ultimately show ?thesis using issueTokens_family [OF issued(10)] by simp
qed (use assms(2) in simp)

lemma completeConsent_family:
  assumes "completeConsent env now i approve presented code s = (r, t)"
  shows "rsTokens t = rsTokens s"
  using assms
proof (cases rule: completeConsent_cases)
  case other
  then show ?thesis by (simp add: same_grants_def)
next
  case (granted p client s1 s2 s3)
  then show ?thesis using pending_take_frame [OF granted(6)] liveClient_frame(1) [OF granted(7)]
    by (auto simp: codes_create_def clients_markConsented_def same_grants_def split: if_splits)
qed

lemma revokeClient_family: "family_dead f s \<Longrightarrow> family_dead f (snd (revokeClient now i s))"
proof (cases "clients_get i s")
  case (Some row)
  assume "family_dead f s"
  then have "family_dead f (clients_revoke now i s)"
    by (auto simp: family_dead_def clients_revoke_def ball_sql_update)
  moreover obtain agents s2 where rm: "bindings_removeForClient i (clients_revoke now i s) = (agents, s2)" by fastforce
  ultimately show ?thesis using same_grants_family [OF removeForClient_frame(1) [OF rm]] Some
    by (simp add: revokeClient_def)
qed (simp add: revokeClient_def)

lemma family_dead_step:
  assumes "family_dead f s" and "new_family e \<noteq> Some f"
  shows "family_dead f (oauth_next env s e)"
proof -
  obtain n op where e: "e = (n, op)" by (cases e)
  note [simp] = oauth_next_def e
  have sg: "same_grants s t \<Longrightarrow> family_dead f t" for t using same_grants_family assms(1) by simp
  show ?thesis
  proof (cases op)
    case (ExchangeCode c code redirect res family access refresh)
    then show ?thesis using assms exchangeCode_family by (cases "exchangeAuthorizationCode env (int n) c code redirect res family access refresh s") auto
  next
    case (ExchangeRefresh c p res access refresh)
    then show ?thesis using assms(1) exchangeRefresh_family by (cases "exchangeRefreshToken env (int n) c p res access refresh s") auto
  next
    case (Consent i approve p code)
    then show ?thesis using assms(1) completeConsent_family
      by (cases "completeConsent env (int n) i approve p code s") (auto simp: family_dead_def)
  next
    case (RevokeToken c p)
    then show ?thesis using assms(1) revokeFamily_family by (auto simp: revokeToken_def split: option.split)
  next
    case (RevokeClient i)
    then show ?thesis using assms(1) revokeClient_family by simp
  next
    case (Sweep d)
    then show ?thesis using assms(1) by (auto simp: family_dead_def sweep_frame set_sql_delete)
  next
    case (Register i info)
    then show ?thesis using sg registerClient_frame(1) by (cases "registerClient env (int n) i info s") auto
  next
    case (Authorize req res)
    then show ?thesis using sg authorize_frame(1) by (cases "authorize env (int n) req res s") auto
  next
    case (Verify p)
    then show ?thesis using sg verify_frame(1) by (cases "verifyAccessToken env (int n) p s") auto
  next
    case (Lookup i)
    then show ?thesis using sg liveClient_frame(1) by (cases "liveClient env (int n) i s") (auto simp: getClient_def)
  next
    case (Authenticate i p)
    then show ?thesis using sg authenticate_frame(1) by simp
  qed (use assms(1) in \<open>auto simp: family_dead_def openConsentWindow_def clients_touch_def\<close>)
qed

interpretation families: machine "oauth_next env" "family_dead f" "\<lambda>e. new_family e \<noteq> Some f" for env f
  by unfold_locales (rule family_dead_step)

lemma audit_client_dead [simp]: "client_dead c (audit now e x a s) = client_dead c s"
  by (simp add: client_dead_def)

lemma exchangeCode_client:
  assumes "exchangeAuthorizationCode env now x code redirect res family access refresh s = (r, t)"
    and "client_dead c s"
  shows "client_dead c t" and "r = Inr i \<Longrightarrow> isClient i \<noteq> c"
proof -
  show "client_dead c t"
    using assms(1)
  proof (cases rule: exchangeCode_cases)
    case (spent e s1)
    then show ?thesis using codes_markUsed_spends(6) [OF spent(1)] assms(2) by (simp add: client_dead_def)
  next
    case (gone e s1)
    then show ?thesis using codes_markUsed_spends(6) [OF gone(1)] liveClient_frame(3) [OF gone(2), of c]
        assms(2) by (simp add: client_dead_def)
  next
    case (issued row s1 client s2)
    have "client_dead c s2" using codes_markUsed_spends(6) [OF issued(6)]
        liveClient_frame(3) [OF issued(7), of c] assms(2) by (simp add: client_dead_def)
    then show ?thesis using issueTokens_frame(1) [OF issued(8)] by (simp add: client_dead_def)
  qed (use assms(2) in simp)
  assume "r = Inr i"
  with assms(1) show "isClient i \<noteq> c"
  proof (cases rule: exchangeCode_cases)
    case (issued row s1 client s2)
    have "\<not> client_dead x s" using liveClient_Some(2) [OF issued(7)] codes_markUsed_spends(6) [OF issued(6)]
      by (simp add: client_dead_def)
    then show ?thesis using issueTokens_Inr [OF issued(8) [unfolded \<open>r = Inr i\<close>]] assms(2) by auto
  qed auto
qed

lemma exchangeRefresh_client:
  assumes "exchangeRefreshToken env now x presented res access refresh s = (r, t)" and "client_dead c s"
  shows "client_dead c t" and "r = Inr i \<Longrightarrow> isClient i \<noteq> c"
proof -
  show "client_dead c t"
    using assms(1)
  proof (cases rule: exchangeRefresh_cases)
    case (replay e row)
    then show ?thesis using assms(2) by (simp add: tokens_revokeFamily_def client_dead_def)
  next
    case (gone e)
    then show ?thesis using liveClient_frame(3) [OF gone(1)] assms(2) by simp
  next
    case (spent e client s1)
    then show ?thesis using tokens_markUsed_spends(5) [OF spent(2)] liveClient_frame(3) [OF spent(1), of c]
        assms(2) by (simp add: client_dead_def)
  next
    case (issued row client s1 s2)
    have "client_dead c s2" using tokens_markUsed_spends(5) [OF issued(9)]
        liveClient_frame(3) [OF issued(8), of c] assms(2) by (simp add: client_dead_def)
    then show ?thesis using issueTokens_frame(1) [OF issued(10)] by (simp add: client_dead_def)
  qed (use assms(2) in simp)
  assume "r = Inr i"
  with assms(1) show "isClient i \<noteq> c"
  proof (cases rule: exchangeRefresh_cases)
    case (issued row client s1 s2)
    have "\<not> client_dead x s" using liveClient_Some(2) [OF issued(8)] .
    then show ?thesis using issueTokens_Inr [OF issued(10) [unfolded \<open>r = Inr i\<close>]] assms(2) by auto
  qed auto
qed

lemma verify_client:
  assumes "verifyAccessToken env now presented s = (Inr v, t)"
  shows "\<not> client_dead (vfClient v) s"
  using assms by (auto simp: verifyAccessToken_def split: option.splits if_splits prod.splits dest: liveClient_Some(2))

lemma completeConsent_client:
  assumes "completeConsent env now i approve presented code s = (r, t)" and "client_dead c s"
  shows "client_dead c t"
    and "r = Inr (RedirectCode u st k) \<Longrightarrow> pending_get now i s = Some p \<Longrightarrow> pdClient p \<noteq> c"
proof -
  show "client_dead c t"
    using assms(1)
  proof (cases rule: completeConsent_cases)
    case (granted p client s1 s2 s3)
    have "client_dead c s3" using pending_take_frame [OF granted(6), of c] liveClient_frame(3) [OF granted(7), of c]
        assms(2) granted(8) by (auto simp: codes_create_def client_dead_def split: if_splits)
    then have "client_dead c (clients_markConsented now (clId client) s3)"
      by (rule client_dead_update [where p = "\<lambda>r. clId r = clId client"
            and f = "\<lambda>r. r\<lparr>clConsentedAt := coalesce (clConsentedAt r) now\<rparr>"])
        (simp_all add: clients_markConsented_def)
    then show ?thesis by (simp add: granted(9)) (simp add: client_dead_def)
  qed (use assms(2) in auto)
  assume r: "r = Inr (RedirectCode u st k)" and p: "pending_get now i s = Some p"
  from assms(1) show "pdClient p \<noteq> c"
  proof (cases rule: completeConsent_cases)
    case (granted q client s1 s2 s3)
    have "rsClients s1 = rsClients s" using granted(6) by (auto simp: pending_take_def)
    then have "\<not> client_dead (pdClient q) s" using liveClient_Some(2) [OF granted(7)] by (simp add: client_dead_def)
    then show ?thesis using p granted(1) assms(2) by auto
  qed (use r in auto)
qed

lemma revokeClient_client:
  "client_dead c s \<Longrightarrow> client_dead c (snd (revokeClient now i s))" and
  revokeClient_kills: "client_dead i (snd (revokeClient now i s))"
proof -
  have c: "client_dead c s \<or> c = i \<Longrightarrow> client_dead c (clients_revoke now i s)" for c
    by (auto simp: client_dead_def clients_revoke_def ball_sql_update)
  obtain agents s2 where rm: "bindings_removeForClient i (clients_revoke now i s) = (agents, s2)" by fastforce
  have eq: "client_dead c s2 = client_dead c (clients_revoke now i s)" for c
    using removeForClient_frame(2) [OF rm] by (simp add: client_dead_def)
  show "client_dead c s \<Longrightarrow> client_dead c (snd (revokeClient now i s))"
    using c [of c] eq [of c] rm by (auto simp: revokeClient_def split: option.split)
  show "client_dead i (snd (revokeClient now i s))"
  proof (cases "clients_get i s")
    case None
    then have "client_dead i s" by (auto simp: clients_get_def client_dead_def find_None_iff)
    then show ?thesis using None by (simp add: revokeClient_def)
  qed (use c [of i] eq [of i] rm in \<open>simp add: revokeClient_def\<close>)
qed

lemma client_dead_step:
  assumes "client_dead c s" and "registers e \<noteq> Some c"
  shows "client_dead c (oauth_next env s e)"
proof -
  obtain n op where e: "e = (n, op)" by (cases e)
  note [simp] = oauth_next_def e
  show ?thesis
  proof (cases op)
    case (ExchangeCode x code redirect res family access refresh)
    then show ?thesis using assms(1) exchangeCode_client(1)
      by (cases "exchangeAuthorizationCode env (int n) x code redirect res family access refresh s") auto
  next
    case (ExchangeRefresh x p res access refresh)
    then show ?thesis using assms(1) exchangeRefresh_client(1)
      by (cases "exchangeRefreshToken env (int n) x p res access refresh s") auto
  next
    case (Consent i approve p code)
    then show ?thesis using assms(1) completeConsent_client(1)
      by (cases "completeConsent env (int n) i approve p code s") auto
  next
    case (RevokeToken x p)
    then show ?thesis using assms(1)
      by (auto simp: revokeToken_def tokens_revokeFamily_def client_dead_def split: option.split)
  next
    case (RevokeClient i)
    then show ?thesis using assms(1) revokeClient_client by simp
  next
    case (Sweep d)
    then show ?thesis using assms(1) by (auto simp: client_dead_def sweep_frame set_sql_delete)
  next
    case (Register i info)
    then show ?thesis using assms registerClient_frame(2) by (cases "registerClient env (int n) i info s") auto
  next
    case (Authorize req res)
    then show ?thesis using assms(1) authorize_frame(2)
      by (cases "authorize env (int n) req res s") (auto simp: client_dead_def)
  next
    case (Verify p)
    then show ?thesis using assms(1) verify_frame(2) by (cases "verifyAccessToken env (int n) p s") auto
  next
    case (Lookup i)
    then show ?thesis using assms(1) liveClient_frame(3) [of env "int n" i s _ _ c]
      by (cases "liveClient env (int n) i s") (auto simp: getClient_def)
  next
    case (Authenticate i p)
    then show ?thesis using assms(1) authenticate_frame(2) by simp
  next
    case (Touch i)
    then show ?thesis using assms(1) by (auto simp: clients_touch_def elim!: client_dead_update)
  qed (use assms(1) in \<open>auto simp: client_dead_def openConsentWindow_def\<close>)
qed

interpretation lockouts: machine "oauth_next env" "client_dead c" "\<lambda>e. registers e \<noteq> Some c" for env c
  by unfold_locales (rule client_dead_step)

section \<open>The waiting list\<close>

lemma oldest_None: "oldest rs = None \<Longrightarrow> rs = []"
  by (cases rs) (auto split: option.splits if_splits)

lemma evict_Some:
  assumes "0 < clients_countPending since s"
  shows "\<exists>c t. clients_evictOldestPending since s = (Some c, t)"
proof -
  have "filter (waiting_since since) (rsClients s) \<noteq> []"
    using assms by (simp add: clients_countPending_def sql_count_def)
  then show ?thesis using oldest_None by (auto simp: clients_evictOldestPending_def split: option.split)
qed

lemma make_room_bound:
  "clients_countPending (now - kUnconsentedClientTtlMs) (make_room now s) < kMaxPendingRegistrations
   \<and> set (rsClients (make_room now s)) \<subseteq> set (rsClients s)"
proof (induction now s rule: make_room.induct)
  case (1 now s)
  let ?since = "now - kUnconsentedClientTtlMs"
  show ?case
  proof (cases "kMaxPendingRegistrations \<le> clients_countPending ?since s")
    case True
    then have "0 < clients_countPending ?since s" by (simp add: kMaxPendingRegistrations_def)
    from evict_Some [OF this] obtain c t where e: "clients_evictOldestPending ?since s = (Some c, t)" by blast
    let ?u = "audit now ''client_evicted'' (Some c) None t"
    have eq: "make_room now s = make_room now ?u" using True e by (subst make_room.simps) simp
    have "set (rsClients ?u) \<subseteq> set (rsClients s)"
      using e by (auto simp: clients_evictOldestPending_def sql_delete_def split: option.splits)
    then show ?thesis using 1 [OF True e [symmetric] refl] unfolding eq by blast
  qed (simp add: make_room.simps [of now s])
qed

section \<open>Properties\<close>

definition oauth_start :: oauth where
  "oauth_start = \<lparr>rsClients = [], rsPending = [], rsCodes = [], rsTokens = [], rsBindings = [],
     rsWakes = [], rsWakeSeq = 0, rsAudit = [], rsAuditSeq = 0, oaOpenedAt = 0, oaUntil = 0, oaCode = []\<rparr>"

text \<open>C11. Authorization codes, refresh tokens and consent windows work once: over any sequence of
  requests, sweeps, restarts and writes of other parts of the relay, the successful exchanges of a
  code or refresh token are at most the times that value was drawn, and the approvals are at most
  the times the admin opened the consent window.\<close>

theorem credentials_single_use:
  "count_list (redeemed (oauth_act env) oauth_start es) k
     \<le> count_list (concat (map (mints_credentials env) es)) k"
proof -
  have "grants_wf oauth_start" by (simp add: grants_wf_def oauth_start_def)
  from credentials.redeemed_count [OF this, of env es k]
  have "count_list (redeemed (oauth_act env) oauth_start es) k
      + of_bool (live (final_state (oauth_act env) oauth_start es) k)
      \<le> (of_bool (live oauth_start k) + count_list (concat (map (mints_credentials env) es)) k :: nat)" .
  moreover have "\<not> live oauth_start k" by (cases k) (simp_all add: oauth_start_def)
  ultimately show ?thesis by simp
qed

text \<open>C23. Replay of a refresh token ends the grant: when a spent refresh token is presented again by
  its client (while the family is not revoked yet), the request is refused and the whole token family is dead for good. Whatever follows,
  unless a new code exchange draws the same family id, no access token of the family verifies and no
  refresh token of the family is exchanged.\<close>

theorem refresh_replay_ends_family:
  assumes "tokens_get (envHash env presented) s = Some row" and "tkKind row = Refresh"
    and "tkClient row = c" and "tkUsedAt row \<noteq> None" and "tkRevokedAt row = None"
    and "exchangeRefreshToken env now c presented res access refresh s = (r, t)"
    and "list_all (\<lambda>e. new_family e \<noteq> Some (tkFamily row)) es" and "u = run (oauth_next env) t es"
    and "tokens_get (envHash env p) u = Some q" and "tkFamily q = tkFamily row"
  shows "r = Inl InvalidGrant \<and> fst (verifyAccessToken env now' p u) = Inl InvalidToken
    \<and> fst (exchangeRefreshToken env now' c' p res' access' refresh' u) = Inl InvalidGrant"
proof -
  have r: "r = Inl InvalidGrant"
    and t: "t = audit now ''refresh_replay'' (Some c) None (tokens_revokeFamily now (tkFamily row) s)"
    using assms(1-6) by (auto simp: exchangeRefreshToken_def)
  have "family_dead (tkFamily row) t" using t revokeFamily_family by auto
  from families.run_inv [OF this assms(7), of env] have "family_dead (tkFamily row) u" by (simp add: assms(8))
  moreover have "q \<in> set (rsTokens u)" using find_Some_set [OF assms(9) [unfolded tokens_get_def]] by simp
  ultimately have "tkRevokedAt q \<noteq> None" using assms(10) by (simp add: family_dead_def)
  then show ?thesis using r assms(9) by (simp add: verifyAccessToken_def exchangeRefreshToken_def)
qed

text \<open>Concrete runs: one client registers, asks, is granted inside a window, exchanges its code and
  refreshes once; the identity stands for the digest.\<close>

definition demo_oauth_env :: oauth_env where
  "demo_oauth_env = \<lparr>envResource = ''https://box/relay/mcp'', envAllow = [''https://cb''], envHash = (\<lambda>x. x),
     envUrl = (\<lambda>u. Some (u, ''/relay/mcp''))\<rparr>"

definition demo_info :: client_info where
  "demo_info = \<lparr>ciRedirectUris = [''https://cb''], ciName = Some ''capy'', ciSecret = None, ciSecretHash = None\<rparr>"

definition demo_pending :: pending_request where
  "demo_pending = \<lparr>pdId = ''req'', pdClient = ''cl'', pdState = None, pdRedirect = ''https://cb'',
     pdChallenge = ''ch'', pdResource = '''', pdScopes = [], pdCsrf = ''x'', pdExpiresAt = 0\<rparr>"

definition demo_grant :: "(nat \<times> oauth_op) list" where
  "demo_grant = [(100, Register ''cl'' demo_info), (200, OpenWindow ''ABCDEFGH''),
     (300, Authorize demo_pending None), (400, Consent ''req'' True ''abcd-efgh'' ''code''),
     (500, ExchangeCode ''cl'' ''code'' (Some ''https://cb'') None ''fam'' ''a1'' ''r1'')]"

definition demo_state :: oauth where
  "demo_state = run (oauth_next demo_oauth_env) oauth_start demo_grant"

definition demo_refreshed :: oauth where
  "demo_refreshed = oauth_next demo_oauth_env demo_state (600, ExchangeRefresh ''cl'' ''r1'' None ''a2'' ''r2'')"

theorem refresh_replay_ends_family_witness:
  "fst (verifyAccessToken demo_oauth_env 700 ''a2'' demo_refreshed) \<noteq> Inl InvalidToken
   \<and> fst (verifyAccessToken demo_oauth_env 800 ''a2''
       (snd (exchangeRefreshToken demo_oauth_env 700 ''cl'' ''r1'' None ''a3'' ''r3'' demo_refreshed))) = Inl InvalidToken"
proof -
  let ?row = "\<lparr>tkHash = ''r1'', tkKind = Refresh, tkClient = ''cl'', tkFamily = ''fam'',
    tkResource = ''https://box/relay/mcp'', tkScopes = [''relay''], tkCreatedAt = 500,
    tkExpiresAt = 500 + kRefreshTtlMs, tkUsedAt = Some 600, tkRevokedAt = None\<rparr>"
  let ?t = "snd (exchangeRefreshToken demo_oauth_env 700 ''cl'' ''r1'' None ''a3'' ''r3'' demo_refreshed)"
  obtain r where e: "exchangeRefreshToken demo_oauth_env 700 ''cl'' ''r1'' None ''a3'' ''r3'' demo_refreshed = (r, ?t)"
    by (metis prod.collapse)
  have g: "tokens_get (envHash demo_oauth_env ''r1'') demo_refreshed = Some ?row" by code_simp
  obtain q where q: "tokens_get (envHash demo_oauth_env ''a2'') ?t = Some q" "tkFamily q = ''fam''"
  proof -
    have "map_option tkFamily (tokens_get (envHash demo_oauth_env ''a2'') ?t) = Some ''fam''" by code_simp
    then show ?thesis using that by auto
  qed
  have "fst (verifyAccessToken demo_oauth_env 700 ''a2'' demo_refreshed)
    = Inr \<lparr>vfClient = ''cl'', vfScopes = [''relay''], vfExpiresAt = 3600\<rparr>" by code_simp
  moreover have "fst (verifyAccessToken demo_oauth_env 800 ''a2'' ?t) = Inl InvalidToken"
    using refresh_replay_ends_family [OF g _ _ _ _ e, of "[]" ?t "''a2''" q] q by simp
  ultimately show ?thesis by simp
qed

text \<open>Revoking a client locks it out for good: after \<open>revokeClient\<close>, whatever other requests
  follow, as long as no new registration takes the client id, no request ends with tokens for that
  client, no access token of it verifies, and no consent for one of its requests is granted.\<close>

lemma revoked_client_locked_out:
  assumes "u = run (oauth_next env) (snd (revokeClient now c s)) es"
    and "list_all (\<lambda>e. registers e \<noteq> Some c) es"
  shows "(\<forall>i. fst (oauth_step env u e) = Tokens i \<longrightarrow> isClient i \<noteq> c)
    \<and> (\<forall>v. fst (oauth_step env u e) = Bearer v \<longrightarrow> vfClient v \<noteq> c)
    \<and> (\<forall>t i approve presented code p x st k. e = (t, Consent i approve presented code)
         \<and> pending_get (int t) i u = Some p \<and> pdClient p = c
         \<longrightarrow> fst (oauth_step env u e) \<noteq> Decision (RedirectCode x st k))"
proof -
  have dead: "client_dead c u"
    using lockouts.run_inv [OF revokeClient_kills assms(2)] by (simp add: assms(1))
  obtain n op where e: "e = (n, op)" by (cases e)
  have "isClient i \<noteq> c" if "fst (oauth_step env u e) = Tokens i" for i
  proof (cases op)
    case (ExchangeCode x code redirect res family access refresh)
    obtain r t where x: "exchangeAuthorizationCode env (int n) x code redirect res family access refresh u = (r, t)"
      by fastforce
    then show ?thesis using that exchangeCode_client(2) [OF x dead] by (cases r) (auto simp: e ExchangeCode)
  next
    case (ExchangeRefresh x p res access refresh)
    obtain r t where x: "exchangeRefreshToken env (int n) x p res access refresh u = (r, t)" by fastforce
    then show ?thesis using that exchangeRefresh_client(2) [OF x dead] by (cases r) (auto simp: e ExchangeRefresh)
  qed (use that in \<open>auto simp: e split: sum.splits\<close>)
  moreover have "vfClient v \<noteq> c" if "fst (oauth_step env u e) = Bearer v" for v
  proof (cases op)
    case (Verify p)
    obtain r t where x: "verifyAccessToken env (int n) p u = (r, t)" by fastforce
    then show ?thesis using that dead verify_client by (cases r) (auto simp: e Verify)
  qed (use that in \<open>auto simp: e split: sum.splits\<close>)
  moreover have "fst (oauth_step env u e) \<noteq> Decision (RedirectCode x st k)"
    if "e = (t, Consent i approve presented code)" "pending_get (int t) i u = Some p" "pdClient p = c"
    for t i approve presented code p x st k
  proof -
    obtain r w where x: "completeConsent env (int t) i approve presented code u = (r, w)" by fastforce
    show ?thesis using that x completeConsent_client(2) [OF x dead _ that(2)] by (cases r) auto
  qed
  ultimately show ?thesis by blast
qed

text \<open>An authorization code is only given out inside the consent window: a decision that ends
  with a code was an approval, of an unexpired request started after the admin opened the window,
  while the window was open, with the window's code typed in. The code is bound to the request's
  client, PKCE challenge, redirect URI and resource and expires in five minutes, the browser goes to
  that request's redirect URI, and the request and the window are used up.\<close>

lemma code_needs_consent_window:
  assumes "completeConsent env now i approve presented code s = (Inr (RedirectCode uri st k), t)"
  shows "approve \<and> now < oaUntil s \<and> normalize_code presented = oaCode s \<and> oaCode s \<noteq> []
    \<and> (\<exists>p. pending_get now i s = Some p \<and> now \<le> pdExpiresAt p \<and> oaOpenedAt s \<le> pdExpiresAt p - kPendingTtlMs
         \<and> uri = pdRedirect p \<and> st = pdState p
         \<and> (\<exists>row \<in> set (rsCodes t). cdHash row = envHash env k \<and> cdClient row = pdClient p
              \<and> cdChallenge row = pdChallenge p \<and> cdRedirect row = pdRedirect p
              \<and> cdResource row = pdResource p \<and> cdExpiresAt row = now + 5 * 60 * 1000))
    \<and> pending_get now' i t = None \<and> (0 \<le> now' \<longrightarrow> \<not> consentWindowOpen now' t)"
  using assms
proof (cases rule: completeConsent_cases)
  case (granted p client s1 s2 s3)
  have p: "now \<le> pdExpiresAt p" using granted(1) by (auto simp: pending_get_def split: option.splits if_splits)
  have w: "now < oaUntil s" "oaOpenedAt s \<le> pdExpiresAt p - kPendingTtlMs"
    using granted(3) by (auto simp: consentAllows_def consentWindowOpen_def)
  have code: "normalize_code presented = oaCode s" "oaCode s \<noteq> []"
    using granted(4) by (auto simp: timingSafeStringEqual_def)
  have c: "clId client = pdClient p" using liveClient_Some(1) [OF granted(7)] .
  have row: "\<exists>row \<in> set (rsCodes t). cdHash row = envHash env k \<and> cdClient row = pdClient p
      \<and> cdChallenge row = pdChallenge p \<and> cdRedirect row = pdRedirect p
      \<and> cdResource row = pdResource p \<and> cdExpiresAt row = now + 5 * 60 * 1000"
    using granted(5,8,9) c
    by (auto simp: codes_create_def clients_markConsented_def kCodeTtlMs_def split: if_splits)
  have "rsPending t = rsPending s1" using granted(8,9) liveClient_frame(2) [OF granted(7)]
    by (auto simp: codes_create_def clients_markConsented_def split: if_splits)
  then have "find (\<lambda>r. pdId r = i) (rsPending t) = None"
    using granted(6) by (auto simp: pending_take_def find_None_iff set_sql_delete)
  then have gone: "pending_get now' i t = None" by (simp add: pending_get_def)
  have closed: "oaUntil t = 0" by (simp add: granted(9))
  show ?thesis using p w code row gone closed granted(1,2,5) by (auto simp: consentWindowOpen_def)
next
  case other
  then show ?thesis by blast
qed

lemma find_last_new: "\<forall>r \<in> set rows. key r \<noteq> k \<Longrightarrow> find (\<lambda>r. key r = k) (rows @ [row]) = find (\<lambda>r. key r = k) [row]"
  by (induction rows) auto

text \<open>Registration is bounded and never refused for load: a registration whose redirect URIs are
  all allowlisted (and parse) and whose id is new always succeeds, however full the waiting list is,
  and leaves at most \<open>kMaxPendingRegistrations\<close> clients waiting for consent, itself among them, with
  no client secret in plaintext in its row; any other URI is refused with nothing changed.\<close>

lemma registration_bounded:
  assumes "\<forall>r \<in> set (rsClients s). clId r \<noteq> i"
    and "\<forall>u \<in> set (ciRedirectUris info). u \<in> set (envAllow env) \<longrightarrow> envUrl env u \<noteq> None"
    and "registerClient env now i info s = (r, t)"
  shows "if ciRedirectUris info \<noteq> [] \<and> set (ciRedirectUris info) \<subseteq> set (envAllow env)
    then r = Inr (registered_info info)
      \<and> clients_countPending (now - kUnconsentedClientTtlMs) t \<le> kMaxPendingRegistrations
      \<and> (\<exists>row. clients_get i t = Some row \<and> waiting_since (now - kUnconsentedClientTtlMs) row
           \<and> ciSecret (clInfo row) = None)
    else r = Inl InvalidClientMetadata \<and> t = s"
proof (cases "ciRedirectUris info \<noteq> [] \<and> set (ciRedirectUris info) \<subseteq> set (envAllow env)")
  case False
  then have "ciRedirectUris info = [] \<or> (\<exists>u \<in> set (ciRedirectUris info). u \<notin> set (envAllow env))" by blast
  then show ?thesis unfolding if_not_P [OF False] using assms(3) by (simp add: registerClient_def)
next
  case True
  let ?m = "make_room now s"
  let ?row = "\<lparr>clId = i, clInfo = stored_info env (registered_info info), clCreatedAt = now,
       clConsentedAt = None, clRevokedAt = None, clLastUsedAt = None\<rparr>"
  note m = make_room_bound [of now s]
  have fresh: "\<forall>r \<in> set (rsClients ?m). clId r \<noteq> i" using m assms(1) by blast
  then have "sql_count (\<lambda>r. clId r = i) (rsClients ?m) = 0" by (simp add: sql_count_eq_0)
  then have r: "r = Inr (registered_info info)"
    and t: "t = audit now ''client_registered'' (Some i) None (?m\<lparr>rsClients := rsClients ?m @ [?row]\<rparr>)"
    using assms(2,3) True by (auto simp: registerClient_def clients_insert_def Let_def split: if_splits)
  have "clients_countPending (now - kUnconsentedClientTtlMs) t
    \<le> clients_countPending (now - kUnconsentedClientTtlMs) ?m + 1"
    by (simp add: t clients_countPending_def)
  moreover have "find (\<lambda>r. clId r = i) (rsClients ?m @ [?row]) = Some ?row"
    using fresh by (simp add: find_last_new)
  ultimately show ?thesis using True r m
    by (auto simp: t clients_get_def waiting_since_def kUnconsentedClientTtlMs_def stored_info_def)
qed

end
