(* ===== verification/Remote_Wake.thy ===== *)
theory Remote_Wake
  imports Remote_Store "HOL-Library.Word"
begin

unbundle bit_operations_syntax

text \<open>
  Wakes of bound threads (\<open>lib/server/relay/wake.js\<close>): the guard on the webhook address, the queue
  over \<open>Remote_Store\<close>, and the pump that delivers it. The pump awaits a DNS lookup and a POST for
  each wake; between the two the rest of the relay may bind, unbind, revoke and enqueue, so the
  delivery is a phase of the state and each resumption is a step. URL parsing and
  \<open>net.isIPv4\<close>/\<open>isIPv6\<close> (with the octets \<open>Number\<close> reads) are the fields of \<open>wake_env\<close>; the answers of
  the lookup and of the POST are inputs.
\<close>

section \<open>Public addresses\<close>

datatype ip = V4 nat nat nat nat | V6 | NotIp

definition kBlockedV4 :: "((nat \<times> nat \<times> nat \<times> nat) \<times> nat) list" where
  "kBlockedV4 = [((0, 0, 0, 0), 8), ((10, 0, 0, 0), 8), ((100, 64, 0, 0), 10), ((127, 0, 0, 0), 8),
     ((169, 254, 0, 0), 16), ((172, 16, 0, 0), 12), ((192, 0, 0, 0), 24), ((192, 168, 0, 0), 16),
     ((198, 18, 0, 0), 15), ((224, 0, 0, 0), 4), ((240, 0, 0, 0), 4)]"

text \<open>\<open>reduce((acc, part) => (acc << 8) + Number(part), 0) >>> 0\<close>.\<close>

definition v4ToInt :: "nat \<times> nat \<times> nat \<times> nat \<Rightarrow> 32 word" where
  "v4ToInt q = (case q of (a, b, c, d) \<Rightarrow>
     fold (\<lambda>part acc. push_bit 8 acc + of_nat part) [a, b, c, d] 0)"

definition v4_blocked :: "nat \<times> nat \<times> nat \<times> nat \<Rightarrow> (nat \<times> nat \<times> nat \<times> nat) \<times> nat \<Rightarrow> bool" where
  "v4_blocked q entry = (case entry of (base, bits) \<Rightarrow>
     (let mask = (if bits = 0 then 0 else push_bit (32 - bits) (NOT 0)) in
      v4ToInt q AND mask = v4ToInt base AND mask))"

record wake_url =
  wuProtocol :: string
  wuPort :: string
  wuUser :: string
  wuPassword :: string
  wuHash :: string
  wuHost :: string
  wuHref :: string

record wake_env =
  weUrl :: "string \<Rightarrow> wake_url option"
  weIp :: "string \<Rightarrow> ip"
  weHosts :: "string list"

function isPublicAddress :: "wake_env \<Rightarrow> string \<Rightarrow> bool" where
  "isPublicAddress env address = (case weIp env address of
       V4 a b c d \<Rightarrow> \<not> list_ex (v4_blocked (a, b, c, d)) kBlockedV4
     | V6 \<Rightarrow>
         (let lower = map to_lower address in
          if lower = ''::'' \<or> lower = ''::1'' then False
          else if starts_with ''::ffff:'' lower then isPublicAddress env (drop 7 lower)
          else if starts_with ''fc'' lower \<or> starts_with ''fd'' lower then False
          else if list_ex (\<lambda>p. starts_with p lower) [''fe8'', ''fe9'', ''fea'', ''feb''] then False
          else if starts_with ''ff'' lower then False
          else if starts_with ''64:ff9b:'' lower then False
          else True)
     | NotIp \<Rightarrow> False)"
  by pat_completeness auto
termination
proof (relation "measure (\<lambda>(env, a). length a)")
  fix env :: wake_env and a lower
  assume "lower = map to_lower a" and "starts_with ''::ffff:'' lower"
  then have "length lower = length a" and "lower \<noteq> []" by (auto simp: starts_with_def)
  then show "((env, drop 7 lower), (env, a)) \<in> measure (\<lambda>(env, a). length a)"
    using \<open>length lower = length a\<close> by (cases lower) auto
qed simp

declare isPublicAddress.simps [simp del]

definition validateWakeUrl :: "wake_env \<Rightarrow> string \<Rightarrow> wake_url option" where
  "validateWakeUrl env raw = (case weUrl env raw of
       None \<Rightarrow> None
     | Some url \<Rightarrow>
         if wuProtocol url \<noteq> ''https:'' then None
         else if wuPort url \<noteq> [] \<and> wuPort url \<noteq> ''443'' then None
         else if wuUser url \<noteq> [] \<or> wuPassword url \<noteq> [] then None
         else if wuHash url \<noteq> [] then None
         else if map to_lower (wuHost url) \<notin> set (weHosts env) then None
         else if 2048 < length raw then None
         else Some url)"

datatype resolved = Pinned string | RefusedAddress | LookupError

text \<open>\<open>lookup\<close> is the answer of \<open>dns.lookup\<close>, \<open>None\<close> when it fails.\<close>

definition resolvePublicAddress :: "wake_env \<Rightarrow> string \<Rightarrow> string list option \<Rightarrow> resolved" where
  "resolvePublicAddress env host lookup =
     (if weIp env host \<noteq> NotIp
      then (if isPublicAddress env host then Pinned host else RefusedAddress)
      else (case lookup of
              None \<Rightarrow> LookupError
            | Some [] \<Rightarrow> LookupError
            | Some (a # as) \<Rightarrow> if list_ex (\<lambda>x. \<not> isPublicAddress env x) (a # as) then RefusedAddress
                               else Pinned a))"

section \<open>Delivery\<close>

definition kWakeMinIntervalMs :: int where "kWakeMinIntervalMs = 60000"
definition kPumpRetryMs :: int where "kPumpRetryMs = 5000"

definition kWakeBackoffMs :: "int list" where
  "kWakeBackoffMs = [10000, 30000, 120000, 600000, 1800000, 3600000]"

datatype phase = Idle | Looking wake wake_url | Posting wake

text \<open>The store, the clock, \<open>createWakeDelivery\<close>'s state, and the agent names drawn so far
  (\<open>capy-\<close> and twelve random hex digits, never drawn twice).\<close>

record pump = remote_store +
  wpClock :: int
  wpStopped :: bool
  wpRunning :: bool
  wpTimer :: "int option"
  wpImmediate :: bool
  wpBatch :: "wake list"
  wpPhase :: phase
  wpDrawn :: "string list"

datatype drop_reason = BindingRemoved | BindingDead | BindingExpired | ClientRevoked

definition dropReasonFor :: "string \<Rightarrow> pump \<Rightarrow> drop_reason option" where
  "dropReasonFor a s = (case bindings_get a s of
       None \<Rightarrow> Some BindingRemoved
     | Some b \<Rightarrow>
         if bdDeadAt b \<noteq> None then Some BindingDead
         else if bdUntil b < wpClock s then Some BindingExpired
         else (case clients_get (bdClient b) s of
                 None \<Rightarrow> Some ClientRevoked
               | Some c \<Rightarrow> if clRevokedAt c \<noteq> None then Some ClientRevoked else None))"

fun drop_text :: "drop_reason \<Rightarrow> string" where
  "drop_text BindingRemoved = ''binding removed''"
| "drop_text BindingDead = ''binding dead''"
| "drop_text BindingExpired = ''binding expired''"
| "drop_text ClientRevoked = ''client revoked''"

text \<open>\<open>deliverOne\<close> up to the lookup.\<close>

definition deliver_begin :: "wake_env \<Rightarrow> wake \<Rightarrow> pump \<Rightarrow> pump" where
  "deliver_begin env w s = (case dropReasonFor (wkAgent w) s of
       Some reason \<Rightarrow> wakes_settle (wkId w) Dropped (Some (drop_text reason)) s
     | None \<Rightarrow>
         (case bindings_get (wkAgent w) s of
            None \<Rightarrow> s
          | Some b \<Rightarrow>
              (case validateWakeUrl env (bdWebhook b) of
                 None \<Rightarrow> bindings_noteWake (wpClock s) (wkAgent w) ''refused''
                   (wakes_settle (wkId w) Refused (Some ''wake_url_refused'') s)
               | Some url \<Rightarrow> s\<lparr>wpPhase := Looking w url\<rparr>)))"

text \<open>\<open>deliverOne\<close> from the POST's answer (or a failed lookup, status 0) to the end.\<close>

definition deliver_end :: "wake \<Rightarrow> nat \<Rightarrow> string \<Rightarrow> pump \<Rightarrow> pump" where
  "deliver_end w status err s =
     (let now = wpClock s; a = wkAgent w in
      if 200 \<le> status \<and> status < 300
      then bindings_noteWake now a ''delivered'' (wakes_settle (wkId w) Delivered None s)
      else if status = 404 \<or> status = 410
      then audit now ''binding_dead'' None (Some a)
        (bindings_markDead now a (''dead_'' @ string_of_nat status)
          (wakes_settle (wkId w) Dead (Some (''status '' @ string_of_nat status)) s))
      else
        (let reason = (if err \<noteq> [] then err else ''status '' @ string_of_nat status);
             attempt = wkAttempts w + 1 in
         if length kWakeBackoffMs < attempt
         then bindings_noteWake now a ''failed'' (wakes_settle (wkId w) Failed (Some reason) s)
         else bindings_noteWake now a ''retrying''
           (wakes_retry (wkId w) (now + kWakeBackoffMs ! (attempt - 1)) (Some reason) s)))"

definition deliver_looked :: "wake_env \<Rightarrow> string list option \<Rightarrow> wake \<Rightarrow> wake_url \<Rightarrow> pump \<Rightarrow> pump" where
  "deliver_looked env lookup w url s = (case resolvePublicAddress env (wuHost url) lookup of
       RefusedAddress \<Rightarrow> bindings_noteWake (wpClock s) (wkAgent w) ''refused''
         (wakes_settle (wkId w) Refused (Some ''not public'') (s\<lparr>wpPhase := Idle\<rparr>))
     | LookupError \<Rightarrow> deliver_end w 0 ''lookup failed'' (s\<lparr>wpPhase := Idle\<rparr>)
     | Pinned a \<Rightarrow>
         (case dropReasonFor (wkAgent w) s of
            Some reason \<Rightarrow> wakes_settle (wkId w) Dropped (Some (drop_text reason)) (s\<lparr>wpPhase := Idle\<rparr>)
          | None \<Rightarrow> s\<lparr>wpPhase := Posting w\<rparr>))"

section \<open>The pump\<close>

definition schedule :: "int \<Rightarrow> pump \<Rightarrow> pump" where
  "schedule minDelayMs s =
     (if wpStopped s then s
      else (case wakes_nextDueAt s of
              None \<Rightarrow> s\<lparr>wpTimer := None\<rparr>
            | Some nextAt \<Rightarrow> s\<lparr>wpTimer := Some (wpClock s + max minDelayMs (nextAt - wpClock s))\<rparr>))"

definition pump_call :: "pump \<Rightarrow> pump" where
  "pump_call s = (let s = s\<lparr>wpTimer := None\<rparr> in
     if wpRunning s \<or> wpStopped s then s else s\<lparr>wpRunning := True, wpBatch := []\<rparr>)"

text \<open>The loop between two awaits: the next batch, the next wake of the batch, or the end.\<close>

definition pump_next :: "wake_env \<Rightarrow> pump \<Rightarrow> pump" where
  "pump_next env s = (case wpBatch s of
       w # ws \<Rightarrow> deliver_begin env w (s\<lparr>wpBatch := ws\<rparr>)
     | [] \<Rightarrow> (case wakes_due (wpClock s) 10 s of
                [] \<Rightarrow> schedule 0 (s\<lparr>wpRunning := False\<rparr>)
              | ws \<Rightarrow> s\<lparr>wpBatch := ws\<rparr>))"

definition pump_failed :: "pump \<Rightarrow> pump" where
  "pump_failed s = schedule kPumpRetryMs (s\<lparr>wpRunning := False, wpBatch := [], wpPhase := Idle\<rparr>)"

definition enqueue_wake :: "string \<Rightarrow> string \<Rightarrow> string \<Rightarrow> pump \<Rightarrow> bool \<times> pump" where
  "enqueue_wake a messageId payload s = (case bindings_get a s of
       None \<Rightarrow> (False, s)
     | Some b \<Rightarrow>
         if bdDeadAt b \<noteq> None \<or> bdUntil b < wpClock s then (False, s)
         else if 0 < wakes_pendingFor a s then (False, s)
         else
           (let now = wpClock s;
                lastDelivered = (if bdLastWakeStatus b = Some ''delivered'' then bdLastWakeAt b else None);
                nextAt = (case lastDelivered of
                    None \<Rightarrow> now
                  | Some l \<Rightarrow> if now - l < kWakeMinIntervalMs then l + kWakeMinIntervalMs else now);
                (queued, s) = wakes_enqueue now a messageId payload nextAt s in
            (queued, if queued \<and> now < nextAt then schedule 0 s
                     else if queued then s\<lparr>wpImmediate := True\<rparr> else s)))"

definition pump_start :: "pump \<Rightarrow> pump" where
  "pump_start s = (schedule 0 (s\<lparr>wpStopped := False\<rparr>))\<lparr>wpImmediate := True\<rparr>"

definition pump_stop :: "pump \<Rightarrow> pump" where
  "pump_stop s = s\<lparr>wpStopped := True, wpTimer := None\<rparr>"

datatype wake_event =
    Tick nat
  | Message string string string
  | Immediate
  | TimerFires
  | Next
  | Looked "string list option"
  | Posted nat string
  | PumpThrows
  | Start
  | Stop
  | Bind binding
  | Unbind string
  | Revoke string
  | SweepStore int
  | OAuthWrites "client list"

text \<open>One step; the OAuth server may write the clients at any time. A binding is only created under a name never drawn before; renewing one keeps its
  name.\<close>

fun wake_step :: "wake_env \<Rightarrow> pump \<Rightarrow> wake_event \<Rightarrow> pump" where
  "wake_step env s (Tick d) = s\<lparr>wpClock := wpClock s + int d\<rparr>"
| "wake_step env s (Message a m p) = snd (enqueue_wake a m p s)"
| "wake_step env s Immediate = (if wpImmediate s then pump_call (s\<lparr>wpImmediate := False\<rparr>) else s)"
| "wake_step env s TimerFires = (case wpTimer s of
     None \<Rightarrow> s | Some at \<Rightarrow> if at \<le> wpClock s then pump_call s else s)"
| "wake_step env s Next = (if wpRunning s \<and> wpPhase s = Idle then pump_next env s else s)"
| "wake_step env s (Looked lookup) = (case wpPhase s of
     Looking w url \<Rightarrow> deliver_looked env lookup w url s | _ \<Rightarrow> s)"
| "wake_step env s (Posted status err) = (case wpPhase s of
     Posting w \<Rightarrow> deliver_end w status err (s\<lparr>wpPhase := Idle\<rparr>) | _ \<Rightarrow> s)"
| "wake_step env s PumpThrows = (if wpRunning s then pump_failed s else s)"
| "wake_step env s Start = pump_start s"
| "wake_step env s Stop = pump_stop s"
| "wake_step env s (Bind b) =
     (if bindings_get (bdAgent b) s = None \<and> bdAgent b \<in> set (wpDrawn s) then s
      else (case bindings_upsert (wpClock s) b s of
              None \<Rightarrow> s | Some t \<Rightarrow> t\<lparr>wpDrawn := bdAgent b # wpDrawn t\<rparr>))"
| "wake_step env s (Unbind a) = snd (bindings_remove a s)"
| "wake_step env s (Revoke c) = snd (bindings_removeForClient c (clients_revoke (wpClock s) c s))"
| "wake_step env s (SweepStore days) = sweep_store (wpClock s) days s"
| "wake_step env s (OAuthWrites cs) = s\<lparr>rsClients := cs\<rparr>"

section \<open>The invariant of the queue\<close>

definition flight :: "pump \<Rightarrow> wake list" where
  "flight s = wpBatch s @ (case wpPhase s of Idle \<Rightarrow> [] | Looking w _ \<Rightarrow> [w] | Posting w \<Rightarrow> [w])"

definition bound :: "string \<Rightarrow> pump \<Rightarrow> bool" where
  "bound a s \<longleftrightarrow> (\<exists>b \<in> set (rsBindings s). bdAgent b = a)"

text \<open>Rows: ids are unique and below the sequence, one wake waits per agent, attempts are bounded,
  every wake has its binding.\<close>

definition rows_ok :: "pump \<Rightarrow> bool" where
  "rows_ok s \<longleftrightarrow> distinct (map wkId (rsWakes s)) \<and> distinct (map bdAgent (rsBindings s))
     \<and> (\<forall>b \<in> set (rsBindings s). bdAgent b \<in> set (wpDrawn s))
     \<and> (\<forall>r \<in> set (rsWakes s). wkId r \<le> rsWakeSeq s \<and> bound (wkAgent r) s
          \<and> wkAttempts r \<le> (if wkState r = WakePending then 6 else 7)
          \<and> (\<forall>q \<in> set (rsWakes s). wkState r = WakePending \<and> wkState q = WakePending
               \<and> wkAgent q = wkAgent r \<longrightarrow> q = r))"

text \<open>A waiting wake is at least a minute after the last delivered one of its agent.\<close>

definition spaced :: "pump \<Rightarrow> bool" where
  "spaced s \<longleftrightarrow> (\<forall>r \<in> set (rsWakes s). \<forall>b \<in> set (rsBindings s). \<forall>l.
     wkState r = WakePending \<and> bdAgent b = wkAgent r \<and> bdLastWakeStatus b = Some ''delivered''
       \<and> bdLastWakeAt b = Some l \<longrightarrow> l + kWakeMinIntervalMs \<le> wkNextAt r)"

text \<open>The wakes the pump has in hand are due, and are the table's rows unless their binding is gone.\<close>

definition flight_ok :: "pump \<Rightarrow> bool" where
  "flight_ok s \<longleftrightarrow> distinct (map wkId (flight s))
     \<and> (\<forall>w \<in> set (flight s). wkNextAt w \<le> wpClock s \<and> wkState w = WakePending \<and> wkAttempts w \<le> 6
          \<and> wkId w \<le> rsWakeSeq s \<and> wkAgent w \<in> set (wpDrawn s)
          \<and> (\<forall>r \<in> set (rsWakes s). wkId r = wkId w \<longrightarrow> r = w)
          \<and> (bound (wkAgent w) s \<longrightarrow> w \<in> set (rsWakes s)))"

text \<open>A waiting wake is never stranded: the pump runs or is going to.\<close>

definition pump_ok :: "pump \<Rightarrow> bool" where
  "pump_ok s \<longleftrightarrow> (\<not> wpRunning s \<longrightarrow> flight s = [])
     \<and> (\<not> wpStopped s \<and> \<not> wpRunning s \<and> (\<exists>r \<in> set (rsWakes s). wkState r = WakePending)
          \<longrightarrow> wpTimer s \<noteq> None \<or> wpImmediate s)"

definition wake_inv :: "pump \<Rightarrow> bool" where
  "wake_inv s \<longleftrightarrow> rows_ok s \<and> spaced s \<and> flight_ok s \<and> pump_ok s"

lemma bindings_get_iff: "bindings_get a s = None \<longleftrightarrow> \<not> bound a s"
  by (auto simp: bindings_get_def bound_def find_None_iff)

lemma bindings_get_Some: "bindings_get a s = Some b \<Longrightarrow> b \<in> set (rsBindings s) \<and> bdAgent b = a"
  by (auto simp: bindings_get_def dest: find_Some_set)

lemma rows_id_eq:
  "rows_ok s \<Longrightarrow> r \<in> set (rsWakes s) \<Longrightarrow> q \<in> set (rsWakes s) \<Longrightarrow> wkId r = wkId q \<Longrightarrow> r = q"
  by (auto simp: rows_ok_def distinct_map dest: inj_onD)

text \<open>The end of one wake, whichever: its row and its binding's notes change, nothing else.\<close>

locale wake_end =
  fixes f :: "wake \<Rightarrow> wake" and g :: "binding \<Rightarrow> binding" and w :: wake
  assumes f_id: "wkId (f r) = wkId r" and f_agent: "wkAgent (f r) = wkAgent r"
    and f_attempts: "wkAttempts r \<le> 6 \<Longrightarrow>
      r = w \<Longrightarrow> wkAttempts (f r) \<le> (if wkState (f r) = WakePending then 6 else 7)"
    and g_agent: "bdAgent (g b) = bdAgent b"
    and f_g: "wkState (f r) = WakePending \<Longrightarrow> bdLastWakeStatus (g b) \<noteq> Some ''delivered''"
begin

definition ended :: "pump \<Rightarrow> pump \<Rightarrow> bool" where
  "ended s t \<longleftrightarrow> rsWakes t = sql_update (\<lambda>r. wkId r = wkId w) f (rsWakes s)
     \<and> rsBindings t = sql_update (\<lambda>b. bdAgent b = wkAgent w) g (rsBindings s)
     \<and> rsWakeSeq t = rsWakeSeq s \<and> wpClock t = wpClock s \<and> wpDrawn t = wpDrawn s
     \<and> wpRunning t = wpRunning s"

lemma ended_bound: "ended s t \<Longrightarrow> bound a t = bound a s"
  by (simp add: ended_def bound_def bex_sql_update if_distrib [of bdAgent] g_agent) metis

lemma ended_rows:
  assumes "ended s t" and ok: "rows_ok s" and w: "wkState w = WakePending" "wkAttempts w \<le> 6"
    and row: "\<forall>r \<in> set (rsWakes s). wkId r = wkId w \<longrightarrow> r = w"
  shows "rows_ok t"
proof -
  have R: "rsWakes t = sql_update (\<lambda>r. wkId r = wkId w) f (rsWakes s)"
    and B: "rsBindings t = sql_update (\<lambda>b. bdAgent b = wkAgent w) g (rsBindings s)"
    using assms(1) by (auto simp: ended_def)
  have "map wkId (rsWakes t) = map wkId (rsWakes s)" "map bdAgent (rsBindings t) = map bdAgent (rsBindings s)"
    by (simp_all add: R B map_sql_update_key f_id g_agent)
  moreover have "bdAgent b \<in> set (wpDrawn t)" if "b \<in> set (rsBindings t)" for b
    using that ok assms(1) by (auto simp: B ended_def set_sql_update g_agent rows_ok_def)
  moreover have "wkId r \<le> rsWakeSeq t \<and> bound (wkAgent r) t
      \<and> wkAttempts r \<le> (if wkState r = WakePending then 6 else 7)" if "r \<in> set (rsWakes t)" for r
  proof -
    from that consider "r \<in> set (rsWakes s)" | "r = f w" "w \<in> set (rsWakes s)"
      using row by (auto simp: R set_sql_update)
    then show ?thesis using ok assms(1) f_attempts [OF w(2) refl]
      by cases (auto simp: rows_ok_def ended_def ended_bound [OF assms(1)] f_id f_agent)
  qed
  moreover have "q = r" if qr: "r \<in> set (rsWakes t)" "q \<in> set (rsWakes t)" "wkState r = WakePending"
    "wkState q = WakePending" "wkAgent q = wkAgent r" for q r
  proof -
    have alone: "x = w" if "x \<in> set (rsWakes s)" "wkState x = WakePending" "wkAgent x = wkAgent w" "w \<in> set (rsWakes s)" for x
      using that ok w(1) unfolding rows_ok_def by blast
    have or: "x \<in> set (rsWakes s) \<and> wkId x \<noteq> wkId w \<or> x = f w \<and> w \<in> set (rsWakes s)" if "x \<in> set (rsWakes t)" for x
      using that row by (auto simp: R set_sql_update)
    show ?thesis using or [OF qr(1)] or [OF qr(2)] qr(3-5) alone ok f_agent [of w]
      unfolding rows_ok_def by metis
  qed
  ultimately show ?thesis using ok unfolding rows_ok_def by simp
qed

lemma ended_spaced:
  assumes "ended s t" and ok: "rows_ok s" and "spaced s" and w: "wkState w = WakePending"
    and row: "\<forall>r \<in> set (rsWakes s). wkId r = wkId w \<longrightarrow> r = w" "bound (wkAgent w) s \<longrightarrow> w \<in> set (rsWakes s)"
  shows "spaced t"
  unfolding spaced_def
proof (intro ballI allI impI)
  fix r b l
  assume r: "r \<in> set (rsWakes t)" and b: "b \<in> set (rsBindings t)"
    and h: "wkState r = WakePending \<and> bdAgent b = wkAgent r \<and> bdLastWakeStatus b = Some ''delivered''
       \<and> bdLastWakeAt b = Some l"
  have r': "r \<in> set (rsWakes s) \<and> wkId r \<noteq> wkId w \<or> r = f w \<and> w \<in> set (rsWakes s)"
    using r row(1) assms(1) by (auto simp: ended_def set_sql_update)
  have b': "b \<in> set (rsBindings s) \<and> bdAgent b \<noteq> wkAgent w
      \<or> (\<exists>b0 \<in> set (rsBindings s). bdAgent b0 = wkAgent w \<and> b = g b0)"
    using b assms(1) by (auto simp: ended_def set_sql_update)
  show "l + kWakeMinIntervalMs \<le> wkNextAt r"
  proof (cases "bdAgent b = wkAgent w")
    case False
    then have "b \<in> set (rsBindings s)" "r \<noteq> f w" using b' g_agent h f_agent [of w] by auto
    then show ?thesis using r' h assms(3) unfolding spaced_def by blast
  next
    case True
    then obtain b0 where b0: "b0 \<in> set (rsBindings s)" "bdAgent b0 = wkAgent w" "b = g b0" using b' by auto
    then have "r \<noteq> f w" using h f_g by blast
    then have "r \<in> set (rsWakes s)" "r \<noteq> w" using r' by auto
    moreover have "w \<in> set (rsWakes s)" using row(2) b0 by (auto simp: bound_def)
    ultimately show ?thesis using h True ok w unfolding rows_ok_def by metis
  qed
qed

lemma ended_flight:
  assumes "ended s t" and "flight_ok s" and "wkId w \<notin> wkId ` set (flight t)"
    and "distinct (map wkId (flight t))" and "set (flight t) \<subseteq> set (flight s)"
  shows "flight_ok t"
proof -
  have "wkNextAt v \<le> wpClock t \<and> wkState v = WakePending \<and> wkAttempts v \<le> 6
      \<and> wkId v \<le> rsWakeSeq t \<and> wkAgent v \<in> set (wpDrawn t)
      \<and> (\<forall>r \<in> set (rsWakes t). wkId r = wkId v \<longrightarrow> r = v)
      \<and> (bound (wkAgent v) t \<longrightarrow> v \<in> set (rsWakes t))" if v: "v \<in> set (flight t)" for v
  proof -
    have ne: "wkId v \<noteq> wkId w" using v assms(3) by (metis image_eqI)
    have vs: "v \<in> set (flight s)" using v assms(5) by auto
    have keep: "r \<in> set (rsWakes t) \<and> wkId r = wkId v \<longleftrightarrow> r \<in> set (rsWakes s) \<and> wkId r = wkId v" for r
      using assms(1) ne f_id by (auto simp: ended_def set_sql_update)
    have "flight_ok s \<Longrightarrow> wkNextAt v \<le> wpClock s \<and> wkState v = WakePending \<and> wkAttempts v \<le> 6
      \<and> wkId v \<le> rsWakeSeq s \<and> wkAgent v \<in> set (wpDrawn s)
      \<and> (\<forall>r \<in> set (rsWakes s). wkId r = wkId v \<longrightarrow> r = v)
      \<and> (bound (wkAgent v) s \<longrightarrow> v \<in> set (rsWakes s))" using vs unfolding flight_ok_def by blast
    then show ?thesis using assms(1,2) keep ended_bound [OF assms(1)] by (auto simp: ended_def)
  qed
  then show ?thesis using assms(4) by (simp add: flight_ok_def)
qed

lemma ended_inv:
  assumes inv: "wake_inv s" and e: "ended s t" and w: "w \<in> set (flight s)" and run: "wpRunning s"
    and "wkId w \<notin> wkId ` set (flight t)" "distinct (map wkId (flight t))" "set (flight t) \<subseteq> set (flight s)"
  shows "wake_inv t"
proof -
  have ok: "rows_ok s" "spaced s" "flight_ok s" using inv by (auto simp: wake_inv_def)
  have fw: "wkState w = WakePending" "wkAttempts w \<le> 6" "\<forall>r \<in> set (rsWakes s). wkId r = wkId w \<longrightarrow> r = w"
    "bound (wkAgent w) s \<longrightarrow> w \<in> set (rsWakes s)" using ok(3) w unfolding flight_ok_def by blast+
  have "wpRunning t" using e run by (simp add: ended_def)
  then show ?thesis using ended_rows [OF e ok(1) fw(1-3)] ended_spaced [OF e ok(1,2) fw(1,3,4)]
      ended_flight [OF e ok(3)] assms(5-7) by (simp add: wake_inv_def pump_ok_def)
qed

end

text \<open>The four ways a wake ends: settled without a note, settled with a note, dead, retried.\<close>

definition noted :: "int \<Rightarrow> string \<Rightarrow> binding \<Rightarrow> binding" where
  "noted now status b = b\<lparr>bdLastWakeAt := Some now, bdLastWakeStatus := Some status\<rparr>"

definition settled :: "wake_state \<Rightarrow> string option \<Rightarrow> wake \<Rightarrow> wake" where
  "settled st err r = r\<lparr>wkState := (if st = WakePending then Failed else st), wkLastError := err,
     wkAttempts := wkAttempts r + 1\<rparr>"

definition retried :: "wake \<Rightarrow> int \<Rightarrow> string option \<Rightarrow> wake \<Rightarrow> wake" where
  "retried w nextAt err r = r\<lparr>wkAttempts := wkAttempts r + 1, wkNextAt := nextAt, wkLastError := err\<rparr>"

interpretation dropped_end: wake_end "settled st err" "\<lambda>b. b" w for st err w
  by unfold_locales (auto simp: settled_def split: if_splits)

interpretation noted_end: wake_end "settled st err" "noted now status" w for st err now status w
  by unfold_locales (auto simp: settled_def noted_def split: if_splits)

interpretation dead_end: wake_end "settled st err"
    "\<lambda>b. b\<lparr>bdDeadAt := Some now, bdLastWakeStatus := Some status\<rparr>" w for st err now status w
  by unfold_locales (auto simp: settled_def split: if_splits)

lemma retry_end: "wkAttempts w < 6 \<Longrightarrow> status \<noteq> ''delivered'' \<Longrightarrow>
    wake_end (retried w nextAt err) (noted now status) w"
  by unfold_locales (auto simp: retried_def noted_def)

lemma settle_eq: "st \<noteq> WakePending \<Longrightarrow> wakes_settle i st err s
    = s\<lparr>rsWakes := sql_update (\<lambda>r. wkId r = i) (settled st err) (rsWakes s)\<rparr>"
  by (simp add: wakes_settle_def settled_def [abs_def])

lemma retry_eq: "wakes_retry i nextAt err s
    = s\<lparr>rsWakes := sql_update (\<lambda>r. wkId r = i) (retried w nextAt err) (rsWakes s)\<rparr>"
  by (simp add: wakes_retry_def retried_def [abs_def])

lemma noteWake_eq: "bindings_noteWake now a status s
    = s\<lparr>rsBindings := sql_update (\<lambda>r. bdAgent r = a) (noted now status) (rsBindings s)\<rparr>"
  by (simp add: bindings_noteWake_def noted_def [abs_def])

lemma sql_update_id [simp]: "sql_update p (\<lambda>x. x) rows = rows"
  by (simp add: sql_update_def map_idI)

text \<open>The pump lets go of the wake it has in hand.\<close>

definition lets_go :: "wake \<Rightarrow> pump \<Rightarrow> pump \<Rightarrow> bool" where
  "lets_go w s t \<longleftrightarrow> flight s = flight t @ [w] \<or> flight s = w # flight t"

lemma lets_go_flight:
  assumes "wake_inv s" and "lets_go w s t"
  shows "w \<in> set (flight s)" "wkId w \<notin> wkId ` set (flight t)" "distinct (map wkId (flight t))"
    "set (flight t) \<subseteq> set (flight s)"
  using assms by (auto simp: wake_inv_def flight_ok_def lets_go_def)

lemma settle_inv:
  assumes "wake_inv s" and "wpRunning s" and "lets_go w s t" and "st \<noteq> WakePending"
    and "rsWakes t = rsWakes s" "rsBindings t = rsBindings s" "rsWakeSeq t = rsWakeSeq s"
      "wpClock t = wpClock s" "wpDrawn t = wpDrawn s" "wpRunning t = wpRunning s"
  shows "wake_inv (wakes_settle (wkId w) st err t)"
    and "wake_inv (bindings_noteWake now (wkAgent w) status (wakes_settle (wkId w) st err t))"
    and "wake_inv (bindings_markDead now (wkAgent w) status (wakes_settle (wkId w) st err t))"
proof -
  note fl = lets_go_flight [OF assms(1,3)]
  have eqs: "flight (wakes_settle (wkId w) st err t) = flight t"
    "flight (bindings_noteWake now (wkAgent w) status (wakes_settle (wkId w) st err t)) = flight t"
    "flight (bindings_markDead now (wkAgent w) status (wakes_settle (wkId w) st err t)) = flight t"
    by (simp_all add: flight_def wakes_settle_def bindings_noteWake_def bindings_markDead_def)
  show "wake_inv (wakes_settle (wkId w) st err t)"
    by (rule dropped_end.ended_inv [where st = st and err = err, OF assms(1) _ fl(1) assms(2)])
      (use fl eqs assms(4-) in \<open>simp_all add: dropped_end.ended_def settle_eq\<close>)
  show "wake_inv (bindings_noteWake now (wkAgent w) status (wakes_settle (wkId w) st err t))"
    by (rule noted_end.ended_inv [where st = st and err = err and now = now and status = status,
          OF assms(1) _ fl(1) assms(2)])
      (use fl eqs assms(4-) in \<open>simp_all add: noted_end.ended_def settle_eq noteWake_eq\<close>)
  show "wake_inv (bindings_markDead now (wkAgent w) status (wakes_settle (wkId w) st err t))"
    by (rule dead_end.ended_inv [where st = st and err = err and now = now and status = status,
          OF assms(1) _ fl(1) assms(2)])
      (use fl eqs assms(4-) in \<open>simp_all add: dead_end.ended_def settle_eq bindings_markDead_def\<close>)
qed

lemma retry_inv:
  assumes "wake_inv s" and "wpRunning s" and "lets_go w s t" and "wkAttempts w < 6" and "status \<noteq> ''delivered''"
    and "rsWakes t = rsWakes s" "rsBindings t = rsBindings s" "rsWakeSeq t = rsWakeSeq s"
      "wpClock t = wpClock s" "wpDrawn t = wpDrawn s" "wpRunning t = wpRunning s"
  shows "wake_inv (bindings_noteWake now (wkAgent w) status (wakes_retry (wkId w) nextAt err t))"
proof -
  note fl = lets_go_flight [OF assms(1,3)]
  have e: "wake_end (retried w nextAt err) (noted now status) w" by (rule retry_end [OF assms(4,5)])
  have eq: "flight (bindings_noteWake now (wkAgent w) status (wakes_retry (wkId w) nextAt err t)) = flight t"
    by (simp add: flight_def wakes_retry_def bindings_noteWake_def)
  show ?thesis
    by (rule wake_end.ended_inv [OF e assms(1) _ fl(1) assms(2)])
      (use fl eq assms(6-) in \<open>simp_all add: wake_end.ended_def [OF e] noteWake_eq retry_eq [of _ _ _ _ w]\<close>)
qed

section \<open>Every step keeps the invariant\<close>

lemma parts_cong:
  assumes "rsWakes t = rsWakes s" "rsBindings t = rsBindings s" "rsWakeSeq t = rsWakeSeq s"
    "wpClock s \<le> wpClock t" "wpDrawn t = wpDrawn s"
  shows "rows_ok s \<Longrightarrow> rows_ok t" and "spaced s \<Longrightarrow> spaced t"
    and "flight t = flight s \<Longrightarrow> flight_ok s \<Longrightarrow> flight_ok t"
proof -
  have b: "bound a t = bound a s" for a using assms(2) by (simp add: bound_def)
  show "rows_ok s \<Longrightarrow> rows_ok t" "spaced s \<Longrightarrow> spaced t"
    using assms by (simp_all add: rows_ok_def spaced_def b)
  show "flight t = flight s \<Longrightarrow> flight_ok s \<Longrightarrow> flight_ok t"
    using assms order_trans [OF _ assms(4)] by (simp add: flight_ok_def b)
qed

lemma wake_inv_later:
  assumes "wake_inv s" and "pump_ok t" and "flight t = flight s"
    and "rsWakes t = rsWakes s" "rsBindings t = rsBindings s" "rsWakeSeq t = rsWakeSeq s"
      "wpClock s \<le> wpClock t" "wpDrawn t = wpDrawn s"
  shows "wake_inv t"
  using assms(1-3) parts_cong [OF assms(4-8)] by (simp add: wake_inv_def)

lemma wake_inv_cong:
  assumes "rsWakes t = rsWakes s" "rsBindings t = rsBindings s" "rsWakeSeq t = rsWakeSeq s"
    "wpClock t = wpClock s" "wpDrawn t = wpDrawn s" "flight t = flight s" "pump_ok t"
  shows "wake_inv s \<Longrightarrow> wake_inv t"
  using assms by (intro wake_inv_later [of s t]) simp_all

lemma audit_wake_inv: "wake_inv s \<Longrightarrow> wake_inv (audit now e c a s)"
  by (rule wake_inv_cong) (auto simp: audit_def flight_def wake_inv_def pump_ok_def)

lemma flight_running: "wake_inv s \<Longrightarrow> w \<in> set (flight s) \<Longrightarrow> wpRunning s \<and> wkAttempts w \<le> 6"
  unfolding wake_inv_def pump_ok_def flight_ok_def by (metis empty_iff list.set(1))

lemma deliver_end_inv:
  assumes "wake_inv s" and "wpPhase s = Posting w \<or> (\<exists>url. wpPhase s = Looking w url)"
  shows "wake_inv (deliver_end w status err (s\<lparr>wpPhase := Idle\<rparr>))"
proof -
  let ?t = "s\<lparr>wpPhase := Idle\<rparr>"
  have go: "lets_go w s ?t" using assms(2) by (auto simp: lets_go_def flight_def)
  have run: "wpRunning s" and att: "wkAttempts w \<le> 6"
    using flight_running [OF assms(1) lets_go_flight(1) [OF assms(1) go]] by auto
  note settle = settle_inv [OF assms(1) run go]
  have "wake_inv (bindings_noteWake now (wkAgent w) ''retrying'' (wakes_retry (wkId w) at e ?t))"
    if "\<not> length kWakeBackoffMs < wkAttempts w + 1" for now at e
    by (rule retry_inv [OF assms(1) run go]) (use that in \<open>auto simp: kWakeBackoffMs_def\<close>)
  moreover have "wake_inv (audit now ''binding_dead'' None a (bindings_markDead now (wkAgent w) st
      (wakes_settle (wkId w) Dead e ?t)))" for now a st e
    by (rule audit_wake_inv, rule settle(3)) simp_all
  moreover have "wake_inv (bindings_noteWake now (wkAgent w) said (wakes_settle (wkId w) st e ?t))"
    if "st \<noteq> WakePending" for now said st e
    by (rule settle(2)) (use that in simp_all)
  ultimately show ?thesis by (simp add: deliver_end_def Let_def)
qed

lemma deliver_looked_inv:
  assumes "wake_inv s" and "wpPhase s = Looking w url"
  shows "wake_inv (deliver_looked env lookup w url s)"
proof -
  let ?t = "s\<lparr>wpPhase := Idle\<rparr>"
  have go: "lets_go w s ?t" using assms(2) by (auto simp: lets_go_def flight_def)
  have run: "wpRunning s" using flight_running [OF assms(1) lets_go_flight(1) [OF assms(1) go]] by auto
  note settle = settle_inv [OF assms(1) run go]
  have "wake_inv (s\<lparr>wpPhase := Posting w\<rparr>)"
    by (rule wake_inv_cong [OF _ _ _ _ _ _ _ assms(1)])
      (use assms(2) run in \<open>auto simp: flight_def pump_ok_def\<close>)
  moreover have "wake_inv (deliver_end w 0 ''lookup failed'' ?t)" using deliver_end_inv assms by blast
  ultimately show ?thesis
    by (auto simp: deliver_looked_def intro: settle(1,2) split: resolved.split option.split)
qed

lemma deliver_begin_inv:
  assumes "wake_inv s" and "wpBatch s = w # ws" and "wpPhase s = Idle"
  shows "wake_inv (deliver_begin env w (s\<lparr>wpBatch := ws\<rparr>))"
proof -
  let ?t = "s\<lparr>wpBatch := ws\<rparr>"
  have go: "lets_go w s ?t" using assms(2,3) by (auto simp: lets_go_def flight_def)
  have run: "wpRunning s" using flight_running [OF assms(1) lets_go_flight(1) [OF assms(1) go]] by auto
  note settle = settle_inv [OF assms(1) run go]
  have looking: "wake_inv (?t\<lparr>wpPhase := Looking w url\<rparr>)" for url
  proof -
    have fl: "set (flight (?t\<lparr>wpPhase := Looking w url\<rparr>)) = set (flight s)"
      "distinct (map wkId (flight (?t\<lparr>wpPhase := Looking w url\<rparr>))) = distinct (map wkId (flight s))"
      using assms(2,3) by (auto simp: flight_def)
    show ?thesis using assms(1) run fl
      by (simp add: wake_inv_def rows_ok_def spaced_def flight_ok_def pump_ok_def bound_def)
  qed
  have none: "bindings_get (wkAgent w) ?t = None \<Longrightarrow> dropReasonFor (wkAgent w) ?t \<noteq> None"
    by (simp add: dropReasonFor_def)
  show ?thesis using none looking
    by (auto simp: deliver_begin_def intro: settle(1,2) split: option.split)
qed

lemma schedule_frame:
  "rsWakes (schedule d s) = rsWakes s" "rsBindings (schedule d s) = rsBindings s"
  "rsWakeSeq (schedule d s) = rsWakeSeq s" "wpClock (schedule d s) = wpClock s"
  "wpDrawn (schedule d s) = wpDrawn s" "flight (schedule d s) = flight s"
  "wpRunning (schedule d s) = wpRunning s" "wpStopped (schedule d s) = wpStopped s"
  "wpImmediate (schedule d s) = wpImmediate s"
  by (auto simp: schedule_def flight_def split: option.split)

lemma nextDueAt_None: "wakes_nextDueAt s = None \<longleftrightarrow> (\<forall>r \<in> set (rsWakes s). wkState r \<noteq> WakePending)"
  by (auto simp: wakes_nextDueAt_def filter_empty_conv split: list.split dest!: filter_eq_ConsD)

lemma schedule_timer:
  "\<not> wpStopped s \<Longrightarrow> \<exists>r \<in> set (rsWakes s). wkState r = WakePending \<Longrightarrow> wpTimer (schedule d s) \<noteq> None"
  using nextDueAt_None [of s] by (auto simp: schedule_def split: option.split)

lemma schedule_inv:
  assumes "rows_ok s" "spaced s" "flight_ok s" "\<not> wpRunning s \<longrightarrow> flight s = []"
  shows "wake_inv (schedule d s)"
proof -
  have b: "bound a (schedule d s) = bound a s" for a by (simp add: bound_def schedule_frame)
  have "pump_ok (schedule d s)"
    using assms(4) schedule_timer [of s d] by (auto simp: pump_ok_def schedule_frame)
  then show ?thesis using assms(1-3)
    by (simp add: wake_inv_def rows_ok_def spaced_def flight_ok_def schedule_frame b)
qed

lemma due_take: "w \<in> set (wakes_due now n s) \<Longrightarrow> w \<in> set (rsWakes s) \<and> wkState w = WakePending \<and> wkNextAt w \<le> now"
  by (auto simp: wakes_due_def wake_due_def dest!: in_set_takeD)

lemma due_distinct: "distinct (map wkId (rsWakes s)) \<Longrightarrow> distinct (map wkId (wakes_due now n s))"
proof -
  assume "distinct (map wkId (rsWakes s))"
  then have "distinct (map wkId (sort_key wkNextAt (filter (wake_due now) (rsWakes s))))"
    by (simp add: distinct_map inj_on_subset [of wkId "set (rsWakes s)"])
  then show ?thesis by (simp add: wakes_due_def take_map [symmetric])
qed

lemma pump_next_inv:
  assumes inv: "wake_inv s" and run: "wpRunning s" and idle: "wpPhase s = Idle"
  shows "wake_inv (pump_next env s)"
proof (cases "wpBatch s")
  case (Cons w ws)
  then show ?thesis using deliver_begin_inv [OF inv Cons idle] by (simp add: pump_next_def)
next
  case Nil
  have fl: "flight s = []" using Nil idle by (simp add: flight_def)
  show ?thesis
  proof (cases "wakes_due (wpClock s) 10 s")
    case d: Nil
    have "wake_inv (schedule 0 (s\<lparr>wpRunning := False\<rparr>))"
      by (rule schedule_inv) (use inv fl in \<open>simp_all add: wake_inv_def rows_ok_def spaced_def flight_ok_def bound_def flight_def\<close>)
    then show ?thesis using Nil d by (simp add: pump_next_def)
  next
    case (Cons w ws)
    let ?t = "s\<lparr>wpBatch := wakes_due (wpClock s) 10 s\<rparr>"
    have flt: "flight ?t = wakes_due (wpClock s) 10 s" using idle by (simp add: flight_def)
    have rows: "rows_ok s" using inv by (simp add: wake_inv_def)
    have "flight_ok ?t"
      unfolding flight_ok_def flt
    proof (intro conjI ballI)
      show "distinct (map wkId (wakes_due (wpClock s) 10 s))"
        by (rule due_distinct) (use rows in \<open>simp add: rows_ok_def\<close>)
      fix v assume "v \<in> set (wakes_due (wpClock s) 10 s)"
      then have v: "v \<in> set (rsWakes s)" "wkState v = WakePending" "wkNextAt v \<le> wpClock s" using due_take by auto
      from rows v have b: "wkId v \<le> rsWakeSeq s" "bound (wkAgent v) s" "wkAttempts v \<le> 6"
        by (auto simp: rows_ok_def)
      show "wkNextAt v \<le> wpClock ?t" "wkState v = WakePending" "wkAttempts v \<le> 6" "wkId v \<le> rsWakeSeq ?t"
        using v b by auto
      show "wkAgent v \<in> set (wpDrawn ?t)" using b(2) rows by (auto simp: bound_def rows_ok_def)
      show "wkId r = wkId v \<longrightarrow> r = v" if "r \<in> set (rsWakes ?t)" for r
        using rows_id_eq [OF rows, of r v] that v by simp
      show "bound (wkAgent v) ?t \<longrightarrow> v \<in> set (rsWakes ?t)" using v by simp
    qed
    then have "wake_inv ?t" using inv run
      by (simp add: wake_inv_def rows_ok_def spaced_def pump_ok_def bound_def)
    then show ?thesis using Nil Cons by (simp add: pump_next_def)
  qed
qed

lemma pump_call_inv: "wake_inv s \<Longrightarrow> wake_inv (pump_call (s\<lparr>wpImmediate := i\<rparr>))"
proof -
  assume inv: "wake_inv s"
  have "\<not> wpRunning s \<Longrightarrow> wpBatch s = []" using inv by (simp add: wake_inv_def pump_ok_def flight_def)
  then have fl: "flight (pump_call (s\<lparr>wpImmediate := i\<rparr>)) = flight s"
    by (simp add: pump_call_def Let_def flight_def)
  have "pump_ok (pump_call (s\<lparr>wpImmediate := i\<rparr>))"
    using inv unfolding pump_ok_def fl by (auto simp: pump_call_def Let_def wake_inv_def pump_ok_def)
  then show ?thesis
    by (intro wake_inv_cong [OF _ _ _ _ _ fl _ inv]) (simp_all add: pump_call_def Let_def)
qed

text \<open>Rows go away: an unbind, a client's revocation, a sweep.\<close>

lemma delete_inv:
  assumes inv: "wake_inv s" and "rsWakes t = sql_delete p (rsWakes s)" and "rsBindings t = sql_delete q (rsBindings s)"
    and same: "rsWakeSeq t = rsWakeSeq s" "wpClock t = wpClock s" "wpDrawn t = wpDrawn s"
      "flight t = flight s" "wpRunning t = wpRunning s" "wpStopped t = wpStopped s"
      "wpTimer t = wpTimer s" "wpImmediate t = wpImmediate s"
    and pq: "\<And>r b. r \<in> set (rsWakes s) \<Longrightarrow> \<not> p r \<Longrightarrow> b \<in> set (rsBindings s) \<Longrightarrow> bdAgent b = wkAgent r \<Longrightarrow> \<not> q b"
    and qp: "\<And>r b. r \<in> set (rsWakes s) \<Longrightarrow> wkState r = WakePending \<Longrightarrow> b \<in> set (rsBindings s)
      \<Longrightarrow> bdAgent b = wkAgent r \<Longrightarrow> \<not> q b \<Longrightarrow> \<not> p r"
  shows "wake_inv t"
proof -
  have R: "r \<in> set (rsWakes t) \<longleftrightarrow> r \<in> set (rsWakes s) \<and> \<not> p r" for r by (simp add: assms(2) set_sql_delete)
  have B: "b \<in> set (rsBindings t) \<longleftrightarrow> b \<in> set (rsBindings s) \<and> \<not> q b" for b by (simp add: assms(3) set_sql_delete)
  have bd: "bound a t \<Longrightarrow> bound a s" for a by (auto simp: bound_def B)
  have bd': "r \<in> set (rsWakes t) \<Longrightarrow> bound (wkAgent r) s \<Longrightarrow> bound (wkAgent r) t" for r
    using pq by (auto simp: bound_def B R)
  have "rows_ok t" using inv R B bd' same
    by (simp add: wake_inv_def rows_ok_def assms(2,3) distinct_key_sql_delete)
  moreover have "spaced t" using inv R B unfolding wake_inv_def spaced_def by blast
  moreover have "flight_ok t"
  proof -
    have "w \<in> set (rsWakes t)" if wf: "w \<in> set (flight s)" and bw: "bound (wkAgent w) t" for w
    proof -
      have w: "w \<in> set (rsWakes s)" "wkState w = WakePending" using inv wf bw bd
        by (auto simp: wake_inv_def flight_ok_def)
      obtain b where "b \<in> set (rsBindings s)" "bdAgent b = wkAgent w" "\<not> q b" using bw by (auto simp: bound_def B)
      then show ?thesis using qp w R by blast
    qed
    then show ?thesis using inv R same by (simp add: wake_inv_def flight_ok_def)
  qed
  moreover have "pump_ok t" using inv R same by (auto simp: wake_inv_def pump_ok_def)
  ultimately show ?thesis by (simp add: wake_inv_def)
qed

lemma remove_inv: "wake_inv s \<Longrightarrow> wake_inv (snd (bindings_remove a s))"
  by (rule delete_inv [where p = "\<lambda>r. wkAgent r = a" and q = "\<lambda>b. bdAgent b = a"])
    (auto simp: bindings_remove_def flight_def)

lemma revoke_inv: "wake_inv s \<Longrightarrow> wake_inv (snd (bindings_removeForClient c (clients_revoke now c s)))"
proof -
  assume inv: "wake_inv s"
  have "wake_inv (fold (\<lambda>a s. snd (bindings_remove a s)) as u)" if "wake_inv u" for as u
    using that by (induction as arbitrary: u) (auto intro: remove_inv)
  moreover have "wake_inv (clients_revoke now c s)"
    by (rule wake_inv_cong [OF _ _ _ _ _ _ _ inv])
      (use inv in \<open>auto simp: clients_revoke_def flight_def wake_inv_def pump_ok_def\<close>)
  ultimately show ?thesis by (simp add: bindings_removeForClient_def Let_def)
qed

lemma sweep_inv: assumes "wake_inv s" shows "wake_inv (sweep_store now days s)"
  by (rule delete_inv [OF assms, where p = "\<lambda>r. wkState r \<noteq> WakePending \<and> wkCreatedAt r < now - 30 * day_ms"
        and q = "\<lambda>b. False"])
    (auto simp: sweep_store_def Let_def pending_prune_def codes_prune_def tokens_prune_def
      clients_pruneUnconsented_def wakes_prune_def flight_def sql_delete_def)

text \<open>A binding is made or renewed.\<close>

lemma bind_inv:
  assumes inv: "wake_inv s" and "bound (bdAgent b) s \<or> bdAgent b \<notin> set (wpDrawn s)"
    and up: "bindings_upsert now b s = Some t"
  shows "wake_inv (t\<lparr>wpDrawn := bdAgent b # wpDrawn t\<rparr>)"
proof (cases "bound (bdAgent b) s")
  case True
  let ?g = "\<lambda>r. r\<lparr>bdClient := bdClient b, bdWebhook := bdWebhook b, bdUntil := bdUntil b,
     bdToken := bdToken b, bdUpdatedAt := now, bdDeadAt := None\<rparr>"
  let ?u = "t\<lparr>wpDrawn := bdAgent b # wpDrawn t\<rparr>"
  have "sql_count (\<lambda>r. bdAgent r = bdAgent b) (rsBindings s) \<noteq> 0"
    using True unfolding sql_count_eq_0 by (auto simp: bound_def)
  then have t: "t = s\<lparr>rsBindings := sql_update (\<lambda>r. bdAgent r = bdAgent b) ?g (rsBindings s)\<rparr>"
    using up by (auto simp: bindings_upsert_def Let_def split: if_splits)
  have bnd: "bound a ?u = bound a s" for a
    by (simp add: t bound_def bex_sql_update if_distrib [of bdAgent] cong: if_cong)
  have "map bdAgent (rsBindings ?u) = map bdAgent (rsBindings s)" by (simp add: t map_sql_update_key)
  then have "rows_ok ?u" using inv
    by (simp add: wake_inv_def rows_ok_def bnd) (auto simp: t ball_sql_update)
  moreover have "spaced ?u" using inv by (auto simp: wake_inv_def spaced_def t set_sql_update)
  moreover have "flight_ok ?u" using inv by (auto simp: wake_inv_def flight_ok_def bnd) (auto simp: t flight_def)
  moreover have "pump_ok ?u" using inv by (auto simp: wake_inv_def pump_ok_def t flight_def)
  ultimately show ?thesis by (simp add: wake_inv_def)
next
  case False
  let ?u = "t\<lparr>wpDrawn := bdAgent b # wpDrawn t\<rparr>"
  have new: "bdAgent b \<notin> set (wpDrawn s)" using False assms(2) by simp
  have "sql_count (\<lambda>r. bdAgent r = bdAgent b) (rsBindings s) = 0"
    using False unfolding sql_count_eq_0 by (auto simp: bound_def)
  moreover define n where "n = b\<lparr>bdCreatedAt := now, bdUpdatedAt := now,
             bdDeadAt := None, bdLastWakeAt := None, bdLastWakeStatus := None\<rparr>"
  ultimately have t: "t = s\<lparr>rsBindings := rsBindings s @ [n]\<rparr>"
    using up by (auto simp: bindings_upsert_def split: if_splits)
  have n: "bdAgent n = bdAgent b" "bdLastWakeStatus n = None" by (simp_all add: n_def)
  have bnd: "bound a ?u \<longleftrightarrow> bound a s \<or> a = bdAgent b" for a by (auto simp: t bound_def n)
  have fresh: "bdAgent b \<notin> bdAgent ` set (rsBindings s)" using False by (auto simp: bound_def)
  have "rows_ok ?u" using inv fresh n(1) by (auto simp: wake_inv_def rows_ok_def bnd) (auto simp: t)
  moreover have "spaced ?u" using inv n by (auto simp: wake_inv_def spaced_def t)
  moreover have "flight_ok ?u"
  proof -
    have "wkAgent w \<noteq> bdAgent b" if "w \<in> set (flight s)" for w
      using inv new that by (auto simp: wake_inv_def flight_ok_def)
    moreover have "flight ?u = flight s" by (simp add: t flight_def)
    ultimately show ?thesis using inv by (simp add: wake_inv_def flight_ok_def bnd) (simp add: t)
  qed
  moreover have "pump_ok ?u" using inv by (auto simp: wake_inv_def pump_ok_def t flight_def)
  ultimately show ?thesis by (simp add: wake_inv_def)
qed

text \<open>A message wakes its thread.\<close>

lemma enqueue_inv:
  assumes inv: "wake_inv s"
  shows "wake_inv (snd (enqueue_wake a m p s))"
proof (cases "\<exists>b. bindings_get a s = Some b \<and> \<not> (bdDeadAt b \<noteq> None \<or> bdUntil b < wpClock s)
    \<and> wakes_pendingFor a s = 0 \<and> sql_count (\<lambda>r. wkAgent r = a \<and> wkMessage r = m) (rsWakes s) = 0")
  case False
  then have "snd (enqueue_wake a m p s) = s"
    by (auto simp: enqueue_wake_def wakes_enqueue_def Let_def split: option.split)
  then show ?thesis using inv by simp
next
  case True
  then obtain b where b: "bindings_get a s = Some b" "\<not> (bdDeadAt b \<noteq> None \<or> bdUntil b < wpClock s)"
    and none: "wakes_pendingFor a s = 0" "sql_count (\<lambda>r. wkAgent r = a \<and> wkMessage r = m) (rsWakes s) = 0"
    by blast
  define last where "last = (if bdLastWakeStatus b = Some ''delivered'' then bdLastWakeAt b else None)"
  define nextAt where "nextAt = (case last of None \<Rightarrow> wpClock s
     | Some l \<Rightarrow> if wpClock s - l < kWakeMinIntervalMs then l + kWakeMinIntervalMs else wpClock s)"
  define w where "w = \<lparr>wkId = rsWakeSeq s + 1, wkAgent = a, wkMessage = m, wkPayload = p,
     wkState = WakePending, wkAttempts = 0, wkNextAt = nextAt, wkCreatedAt = wpClock s, wkLastError = None\<rparr>"
  define t where "t = s\<lparr>rsWakes := rsWakes s @ [w], rsWakeSeq := rsWakeSeq s + 1\<rparr>"
  have res: "snd (enqueue_wake a m p s) = (if wpClock s < nextAt then schedule 0 t else t\<lparr>wpImmediate := True\<rparr>)"
    using b none by (simp add: enqueue_wake_def wakes_enqueue_def Let_def last_def [symmetric]
        nextAt_def [symmetric] t_def w_def)
  have bin: "b \<in> set (rsBindings s)" "bdAgent b = a" using bindings_get_Some [OF b(1)] by auto
  have ok: "rows_ok s" "spaced s" "flight_ok s" "pump_ok s" using inv by (auto simp: wake_inv_def)
  have alone: "r \<in> set (rsWakes s) \<Longrightarrow> wkState r = WakePending \<Longrightarrow> wkAgent r \<noteq> a" for r
    using none(1) by (auto simp: wakes_pendingFor_def sql_count_eq_0)
  have bt: "bound x t = bound x s" for x by (simp add: t_def bound_def)
  have rt: "rows_ok t"
  proof -
    have "wkId r < rsWakeSeq s + 1" if "r \<in> set (rsWakes s)" for r using ok(1) that by (auto simp: rows_ok_def)
    then have ids: "rsWakeSeq s + 1 \<notin> wkId ` set (rsWakes s)" by fastforce
    have w: "wkId w = rsWakeSeq s + 1" "wkAgent w = a" "wkState w = WakePending" "wkAttempts w = 0"
      by (simp_all add: w_def)
    have rows: "set (rsWakes t) = insert w (set (rsWakes s))" "rsBindings t = rsBindings s"
      "wpDrawn t = wpDrawn s" "rsWakeSeq t = rsWakeSeq s + 1" by (simp_all add: t_def)
    have "distinct (map wkId (rsWakes t))" using ok(1) ids w(1) by (simp add: t_def rows_ok_def)
    moreover have "wkId r \<le> rsWakeSeq t \<and> bound (wkAgent r) t
        \<and> wkAttempts r \<le> (if wkState r = WakePending then 6 else 7)" if "r \<in> set (rsWakes t)" for r
      using that ok(1) bin by (auto simp: rows w bt rows_ok_def bound_def)
    moreover have "q = r" if "r \<in> set (rsWakes t)" "q \<in> set (rsWakes t)" "wkState r = WakePending"
      "wkState q = WakePending" "wkAgent q = wkAgent r" for q r
    proof (cases "wkAgent r = a")
      case True
      then show ?thesis using that alone by (auto simp: rows)
    next
      case False
      then have "r \<in> set (rsWakes s)" "q \<in> set (rsWakes s)" using that w(2) by (auto simp: rows)
      then show ?thesis using that ok(1) unfolding rows_ok_def by blast
    qed
    ultimately show ?thesis using ok(1) unfolding rows_ok_def rows(2,3) by blast
  qed
  have st: "spaced t"
  proof -
    have "b' = b" if "b' \<in> set (rsBindings s)" "bdAgent b' = a" for b'
      using ok(1) that bin by (auto simp: rows_ok_def distinct_map dest: inj_onD)
    then have "l + kWakeMinIntervalMs \<le> nextAt" if "b' \<in> set (rsBindings s)" "bdAgent b' = a"
      "bdLastWakeStatus b' = Some ''delivered''" "bdLastWakeAt b' = Some l" for b' l
      using that by (auto simp: nextAt_def last_def)
    then show ?thesis using ok(2) by (auto simp: spaced_def t_def w_def)
  qed
  have fl: "flight t = flight s" by (simp add: t_def flight_def)
  have ft: "flight_ok t" using ok(3) unfolding flight_ok_def fl bt by (auto simp: t_def w_def le_SucI)
  have run: "\<not> wpRunning t \<longrightarrow> flight t = []" using ok(4) by (auto simp: pump_ok_def t_def flight_def)
  have "wake_inv (t\<lparr>wpImmediate := True\<rparr>)"
    using parts_cong [of "t\<lparr>wpImmediate := True\<rparr>" t] rt st ft run
    by (simp add: wake_inv_def pump_ok_def flight_def)
  then show ?thesis using schedule_inv [OF rt st ft run] by (simp add: res)
qed

lemma wake_step_inv: "wake_inv s \<Longrightarrow> wake_inv (wake_step env s e)"
proof (cases e)
  case (Tick d)
  assume inv: "wake_inv s"
  show ?thesis unfolding Tick
    by (rule wake_inv_later [OF inv]) (use inv in \<open>simp_all add: wake_inv_def pump_ok_def flight_def\<close>)
next
  case (Bind b)
  assume inv: "wake_inv s"
  then show ?thesis using bind_inv [OF inv, of b]
    by (auto simp: Bind bindings_get_iff split: option.split)
next
  case Start
  assume inv: "wake_inv s"
  have sch: "wake_inv (schedule 0 (s\<lparr>wpStopped := False\<rparr>))"
    using parts_cong [of "s\<lparr>wpStopped := False\<rparr>" s] inv
    by (intro schedule_inv) (simp_all add: wake_inv_def pump_ok_def flight_def)
  show ?thesis unfolding Start wake_step.simps pump_start_def
    by (rule wake_inv_later [OF sch]) (use sch in \<open>simp_all add: wake_inv_def pump_ok_def flight_def\<close>)
next
  case PumpThrows
  assume inv: "wake_inv s"
  let ?t = "s\<lparr>wpRunning := False, wpBatch := [], wpPhase := Idle\<rparr>"
  have "flight ?t = []" by (simp add: flight_def)
  then have "wake_inv (pump_failed s)" unfolding pump_failed_def
    using parts_cong(1,2) [of ?t s] inv by (intro schedule_inv) (simp_all add: wake_inv_def flight_ok_def)
  then show ?thesis using inv by (simp add: PumpThrows)
next
  case TimerFires
  assume inv: "wake_inv s"
  have "s\<lparr>wpImmediate := wpImmediate s\<rparr> = s" by simp
  then show ?thesis using inv pump_call_inv [OF inv, of "wpImmediate s"] by (auto simp: TimerFires split: option.split)
next
  case Stop
  assume inv: "wake_inv s"
  show ?thesis unfolding Stop wake_step.simps pump_stop_def
    by (rule wake_inv_later [OF inv]) (use inv in \<open>simp_all add: wake_inv_def pump_ok_def flight_def\<close>)
next
  case (Posted status err)
  assume "wake_inv s"
  then show ?thesis using deliver_end_inv by (simp add: Posted split: phase.split)
next
  case (Looked lookup)
  assume "wake_inv s"
  then show ?thesis using deliver_looked_inv by (simp add: Looked split: phase.split)
next
  case (Message a m p)
  assume "wake_inv s"
  then show ?thesis using enqueue_inv by (simp add: Message)
next
  case Immediate
  assume "wake_inv s"
  then show ?thesis using pump_call_inv by (simp add: Immediate)
next
  case Next
  assume "wake_inv s"
  then show ?thesis using pump_next_inv by (simp add: Next)
next
  case (Unbind a)
  assume "wake_inv s"
  then show ?thesis using remove_inv by (simp add: Unbind)
next
  case (Revoke c)
  assume "wake_inv s"
  then show ?thesis using revoke_inv by (simp add: Revoke)
next
  case (SweepStore d)
  assume "wake_inv s"
  then show ?thesis using sweep_inv by (simp add: SweepStore)
next
  case (OAuthWrites cs)
  assume inv: "wake_inv s"
  show ?thesis unfolding OAuthWrites
    by (rule wake_inv_later [OF inv]) (use inv in \<open>simp_all add: wake_inv_def pump_ok_def flight_def\<close>)
qed

interpretation waker: machine "wake_step env" wake_inv "\<lambda>_. True" for env
  by unfold_locales (rule wake_step_inv)

section \<open>The blocked ranges in octets\<close>

lemma masked_eq_iff:
  fixes x y :: "32 word"
  shows "x AND NOT (mask n) = y AND NOT (mask n) \<longleftrightarrow> drop_bit n x = drop_bit n y"
proof
  assume a: "x AND NOT (mask n) = y AND NOT (mask n)"
  have "drop_bit n z = drop_bit n (z AND NOT (mask n))" for z :: "32 word"
    by (rule bit_eqI) (auto simp: bit_simps dest: bit_imp_le_length)
  then show "drop_bit n x = drop_bit n y" using a by metis
next
  assume a: "drop_bit n x = drop_bit n y"
  have "z AND NOT (mask n) = push_bit n (drop_bit n z)" for z :: "32 word"
    by (rule bit_eqI) (auto simp: bit_simps)
  then show "x AND NOT (mask n) = y AND NOT (mask n)" using a by metis
qed

lemma unat_v4ToInt: "a < 256 \<Longrightarrow> b < 256 \<Longrightarrow> c < 256 \<Longrightarrow> d < 256 \<Longrightarrow>
   unat (v4ToInt (a, b, c, d)) = a * 16777216 + b * 65536 + c * 256 + d"
proof -
  assume "a < 256" "b < 256" "c < 256" "d < 256"
  moreover have "v4ToInt (a, b, c, d) = word_of_nat (a * 16777216 + b * 65536 + c * 256 + d)"
    by (simp add: v4ToInt_def push_bit_eq_mult algebra_simps)
  ultimately show ?thesis by (simp only: unsigned_of_nat take_bit_eq_mod) simp
qed

lemma v4_blocked_iff:
  assumes "0 < bits"
  shows "v4_blocked q (base, bits) \<longleftrightarrow> unat (v4ToInt q) div 2 ^ (32 - bits) = unat (v4ToInt base) div 2 ^ (32 - bits)"
proof -
  have "v4_blocked q (base, bits) \<longleftrightarrow> drop_bit (32 - bits) (v4ToInt q) = drop_bit (32 - bits) (v4ToInt base)"
    using assms by (simp add: v4_blocked_def Let_def masked_eq_iff)
  then show ?thesis by (simp only: word_unat_eq_iff unat_drop_bit_eq) (simp add: drop_bit_eq_div)
qed

lemma div_eq_range: "0 < k \<Longrightarrow> b div k = q \<longleftrightarrow> q * k \<le> b \<and> b < (q + 1) * k" for b k q :: nat
proof -
  assume k: "0 < k"
  have "b div k = q \<longleftrightarrow> q \<le> b div k \<and> b div k < q + 1" by auto
  then show ?thesis using k by (simp only: less_eq_div_iff_mult_less_eq div_less_iff_less_mult)
qed

lemma octet_div:
  fixes a b c d :: nat
  assumes "b < 256" "c < 256" "d < 256"
  defines "n \<equiv> a * 16777216 + b * 65536 + c * 256 + d"
  shows "n div 16777216 = a" "n div 65536 = a * 256 + b" "n div 256 = a * 65536 + b * 256 + c"
    "n div 4194304 = a * 4 + b div 64" "n div 1048576 = a * 16 + b div 16" "n div 131072 = a * 128 + b div 2"
    "n div 268435456 = a div 16"
proof -
  have radix: "r < k \<Longrightarrow> (q * k + r) div k = q" for q k r :: nat by simp
  have eqs: "n = a * 16777216 + (b * 65536 + c * 256 + d)" "n = (a * 256 + b) * 65536 + (c * 256 + d)"
    "n = (a * 65536 + b * 256 + c) * 256 + d" by (simp_all add: n_def)
  show "n div 16777216 = a" unfolding eqs(1) by (rule radix) (use assms in linarith)
  show "n div 65536 = a * 256 + b" unfolding eqs(2) by (rule radix) (use assms in linarith)
  show "n div 256 = a * 65536 + b * 256 + c" unfolding eqs(3) by (rule radix) (use assms in linarith)
  have part: "(a * 16777216 + b * 65536 + c * 256 + d) div (k * 65536) = a * h + b div k" if k: "h * k = 256" "0 < k" for k h
  proof -
    define q r where "q = b div k" and "r = b mod k"
    have r: "r + 1 \<le> k" and b: "b = q * k + r" using k(2) by (simp_all add: q_def r_def Suc_leI)
    have "a * 16777216 + b * 65536 + c * 256 + d = a * (h * k) * 65536 + b * 65536 + c * 256 + d" by (simp add: k(1))
    also have "\<dots> = (a * h + q) * (k * 65536) + (r * 65536 + c * 256 + d)" by (simp add: b algebra_simps)
    finally have e: "a * 16777216 + b * 65536 + c * 256 + d = (a * h + q) * (k * 65536) + (r * 65536 + c * 256 + d)" .
    have "r * 65536 + 65536 \<le> k * 65536" using mult_le_mono1 [OF r, of 65536] by simp
    then have "r * 65536 + c * 256 + d < k * 65536" using assms(2,3) by linarith
    then show ?thesis unfolding e q_def [symmetric] by (rule radix)
  qed
  show "n div 4194304 = a * 4 + b div 64" using part [of 4 64] by (simp add: n_def)
  show "n div 1048576 = a * 16 + b div 16" using part [of 16 16] by (simp add: n_def)
  show "n div 131072 = a * 128 + b div 2" using part [of 128 2] by (simp add: n_def)
  define q r where "q = a div 16" and "r = a mod 16"
  have a: "a = q * 16 + r" "r < 16" by (simp_all add: q_def r_def)
  have "n = q * 268435456 + (r * 16777216 + b * 65536 + c * 256 + d)" unfolding n_def a(1) by simp
  then show "n div 268435456 = a div 16" unfolding q_def [symmetric]
    using radix [of "r * 16777216 + b * 65536 + c * 256 + d" 268435456 q] assms a(2) by linarith
qed

lemma v4_blocked_ranges: assumes "a < 256" "b < 256" "c < 256" "d < 256"
 shows "list_ex (v4_blocked (a, b, c, d)) kBlockedV4 \<longleftrightarrow>
  a = 0 \<or> a = 10 \<or> a = 100 \<and> 64 \<le> b \<and> b < 128 \<or> a = 127 \<or> a = 169 \<and> b = 254 \<or> a = 172 \<and> 16 \<le> b \<and> b < 32
  \<or> a = 192 \<and> (b = 168 \<or> b = 0 \<and> c = 0) \<or> a = 198 \<and> (b = 18 \<or> b = 19) \<or> 224 \<le> a"
proof -
  have radix: "x * k + y = u * k + v \<longleftrightarrow> x = u \<and> y = v" if "y < k" "v < k" for x y u v k :: nat
    by (metis that add.commute div_mult_self3 less_nat_zero_code mod_mult_self3 mod_less div_less add_0 not_less0)
  have d: "b div 64 < 4" "b div 16 < 16" "b div 2 < 128" using assms(2) by auto
  have e1: "a * 4 + b div 64 = 401 \<longleftrightarrow> a = 100 \<and> b div 64 = 1" using radix [of "b div 64" 4 1 a 100] d by simp
  have e3: "a * 16 + b div 16 = 2753 \<longleftrightarrow> a = 172 \<and> b div 16 = 1" using radix [of "b div 16" 16 1 a 172] d by simp
  have e6: "a * 128 + b div 2 = 25353 \<longleftrightarrow> a = 198 \<and> b div 2 = 9" using radix [of "b div 2" 128 9 a 198] d by simp
  have e2: "a * 256 + b = 43518 \<longleftrightarrow> a = 169 \<and> b = 254" "a * 256 + b = 49320 \<longleftrightarrow> a = 192 \<and> b = 168"
    using radix [of b 256 254 a 169] radix [of b 256 168 a 192] assms by simp_all
  have "b * 256 + c < 65536" using assms by linarith
  then have e4: "a * 65536 + b * 256 + c = 12582912 \<longleftrightarrow> a = 192 \<and> b = 0 \<and> c = 0"
    using radix [of "b * 256 + c" 65536 0 a 192] by (simp add: add.assoc)
  have q: "b div 64 = 1 \<longleftrightarrow> 64 \<le> b \<and> b < 128" "b div 16 = 1 \<longleftrightarrow> 16 \<le> b \<and> b < 32"
    "b div 2 = 9 \<longleftrightarrow> b = 18 \<or> b = 19" "a div 16 = 14 \<or> a div 16 = 15 \<longleftrightarrow> 224 \<le> a"
    using assms(1) by (auto simp: div_eq_range)
  show ?thesis
   by (simp add: kBlockedV4_def v4_blocked_iff unat_v4ToInt assms octet_div [OF assms(2-4)] e1 e2 e3 e4 e6 q(1-3)) (use q(4) in auto)
qed

section \<open>Properties\<close>

definition pump_initial :: "int \<Rightarrow> pump" where
  "pump_initial t = \<lparr>rsClients = [], rsPending = [], rsCodes = [], rsTokens = [], rsBindings = [],
     rsWakes = [], rsWakeSeq = 0, rsAudit = [], rsAuditSeq = 0, wpClock = t, wpStopped = True,
     wpRunning = False, wpTimer = None, wpImmediate = False, wpBatch = [], wpPhase = Idle, wpDrawn = []\<rparr>"

lemma pump_initial_inv: "wake_inv (pump_initial t)"
  by (simp add: pump_initial_def wake_inv_def rows_ok_def spaced_def flight_ok_def pump_ok_def flight_def)

lemma reached_inv: "wake_inv (run (wake_step env) (pump_initial t) es)"
  using waker.run_inv [OF pump_initial_inv, of es env t] by (simp add: list_all_iff)

text \<open>A URL in hand passed the checks.\<close>

definition url_checked :: "wake_env \<Rightarrow> pump \<Rightarrow> bool" where
  "url_checked env s \<longleftrightarrow> (\<forall>w url. wpPhase s = Looking w url \<longrightarrow> (\<exists>raw. validateWakeUrl env raw = Some url))"

lemma deliver_end_phase: "wpPhase (deliver_end w status err s) = wpPhase s"
  by (simp add: deliver_end_def Let_def bindings_noteWake_def bindings_markDead_def wakes_settle_def
      wakes_retry_def audit_def)

lemma schedule_phase: "wpPhase (schedule d s) = wpPhase s"
  by (simp add: schedule_def split: option.split)

lemma removes_phase: "wpPhase (fold (\<lambda>a s. snd (bindings_remove a s)) as s) = wpPhase (s :: pump)"
  by (induction as arbitrary: s) (simp_all add: bindings_remove_def)

lemma enqueue_phase: "wpPhase (snd (enqueue_wake a m p s)) = wpPhase s"
  by (auto simp: enqueue_wake_def wakes_enqueue_def Let_def schedule_phase split: option.split)

lemma deliver_begin_phase:
  "wpPhase s = Idle \<Longrightarrow> wpPhase (deliver_begin env w s) = Idle
     \<or> (\<exists>url raw. wpPhase (deliver_begin env w s) = Looking w url \<and> validateWakeUrl env raw = Some url)"
  by (auto simp: deliver_begin_def wakes_settle_def bindings_noteWake_def split: option.split)

lemma deliver_looked_phase:
  "wpPhase (deliver_looked env lookup w url s) = Idle \<or> wpPhase (deliver_looked env lookup w url s) = Posting w"
  by (auto simp: deliver_looked_def wakes_settle_def bindings_noteWake_def deliver_end_phase
      split: resolved.split option.split)

lemma url_checked_step: "url_checked env s \<Longrightarrow> url_checked env (wake_step env s e)"
proof -
  assume u: "url_checked env s"
  have same: "wpPhase t = wpPhase s \<Longrightarrow> url_checked env t" for t using u by (simp add: url_checked_def)
  have idle: "wpPhase t = Idle \<Longrightarrow> url_checked env t" for t by (simp add: url_checked_def)
  show ?thesis
  proof (cases e)
    case Next
    have "url_checked env (pump_next env s)" if "wpPhase s = Idle"
    proof (cases "wpBatch s")
      case (Cons w ws)
      then show ?thesis using deliver_begin_phase [of "s\<lparr>wpBatch := ws\<rparr>" env w] that
        by (auto simp: pump_next_def url_checked_def)
    qed (use that in \<open>auto simp: pump_next_def schedule_phase intro!: idle split: list.split\<close>)
    then show ?thesis using u by (simp add: Next)
  next
    case (Looked lookup)
    show ?thesis
    proof (cases "wpPhase s")
      case (Looking w url)
      then show ?thesis using deliver_looked_phase [of env lookup w url s] by (auto simp: Looked url_checked_def)
    qed (use u in \<open>simp_all add: Looked\<close>)
  next
    case (Revoke c)
    have "wpPhase (clients_revoke (wpClock s) c s) = wpPhase s" by (simp add: clients_revoke_def)
    then show ?thesis
      by (simp add: Revoke bindings_removeForClient_def Let_def removes_phase same)
  next
    case (Bind b)
    then show ?thesis using u
      by (auto simp: bindings_upsert_def Let_def url_checked_def split: option.split if_splits)
  qed (auto intro!: same simp: enqueue_phase pump_call_def deliver_end_phase pump_failed_def schedule_phase
      pump_start_def pump_stop_def bindings_remove_def bindings_removeForClient_def Let_def removes_phase
      clients_revoke_def sweep_store_def pending_prune_def codes_prune_def tokens_prune_def
      clients_pruneUnconsented_def wakes_prune_def u idle split: phase.split option.split)
qed

interpretation urls: machine "wake_step env" "url_checked env" "\<lambda>_. True" for env
  by unfold_locales (rule url_checked_step)

text \<open>C24. A POST goes out only to a public address of an allowed host, for a binding that is alive
  then: whatever happened before, the step that starts the POST of a wake (the answer of the DNS
  lookup) finds the binding present, not dead, not expired and its client not revoked, the URL https
  on an allowed host, every address of the lookup public, the wake due, and at least a minute since
  the last wake of that agent was delivered.\<close>

theorem post_guarded:
  assumes "s = run (wake_step env) (pump_initial t) es" and "wpPhase s = Looking w url"
    and "wpPhase (wake_step env s (Looked lookup)) = Posting v"
  shows "v = w \<and> wkNextAt w \<le> wpClock s
    \<and> wuProtocol url = ''https:'' \<and> map to_lower (wuHost url) \<in> set (weHosts env)
    \<and> (if weIp env (wuHost url) = NotIp
       then \<exists>a as. lookup = Some (a # as) \<and> (\<forall>x \<in> set (a # as). isPublicAddress env x)
       else isPublicAddress env (wuHost url))
    \<and> (\<exists>b c. bindings_get (wkAgent w) s = Some b \<and> bdDeadAt b = None \<and> wpClock s \<le> bdUntil b
         \<and> clients_get (bdClient b) s = Some c \<and> clRevokedAt c = None
         \<and> (\<forall>l. bdLastWakeStatus b = Some ''delivered'' \<and> bdLastWakeAt b = Some l \<longrightarrow> l + 60000 \<le> wpClock s))"
proof -
  have inv: "wake_inv s" using reached_inv assms(1) by simp
  have "url_checked env (run (wake_step env) (pump_initial t) es)"
    by (rule urls.run_inv) (simp_all add: url_checked_def pump_initial_def list_all_iff)
  then obtain raw where "validateWakeUrl env raw = Some url" using assms(1,2) by (auto simp: url_checked_def)
  then have url: "wuProtocol url = ''https:''" "map to_lower (wuHost url) \<in> set (weHosts env)"
    by (auto simp: validateWakeUrl_def split: option.splits if_splits)
  have p: "wpPhase (deliver_looked env lookup w url s) = Posting v" using assms(2,3) by simp
  then have v: "v = w" using deliver_looked_phase [of env lookup w url s] by auto
  obtain a where a: "resolvePublicAddress env (wuHost url) lookup = Pinned a"
    and d: "dropReasonFor (wkAgent w) s = None"
    using p by (auto simp: deliver_looked_def wakes_settle_def bindings_noteWake_def deliver_end_phase
        split: resolved.splits option.splits)
  have addr: "if weIp env (wuHost url) = NotIp
       then \<exists>a as. lookup = Some (a # as) \<and> (\<forall>x \<in> set (a # as). isPublicAddress env x)
       else isPublicAddress env (wuHost url)"
    using a by (auto simp: resolvePublicAddress_def list_ex_iff split: if_splits option.splits list.splits)
  obtain b c where b: "bindings_get (wkAgent w) s = Some b" "bdDeadAt b = None" "wpClock s \<le> bdUntil b"
    and c: "clients_get (bdClient b) s = Some c" "clRevokedAt c = None"
    using d by (auto simp: dropReasonFor_def not_less split: option.splits if_splits)
  have w: "w \<in> set (flight s)" using assms(2) by (simp add: flight_def)
  have bin: "b \<in> set (rsBindings s)" "bdAgent b = wkAgent w" using bindings_get_Some [OF b(1)] by auto
  then have "bound (wkAgent w) s" by (auto simp: bound_def)
  then have row: "w \<in> set (rsWakes s)" "wkNextAt w \<le> wpClock s" "wkState w = WakePending"
    using inv w by (auto simp: wake_inv_def flight_ok_def)
  have "l + 60000 \<le> wpClock s" if "bdLastWakeStatus b = Some ''delivered''" "bdLastWakeAt b = Some l" for l
  proof -
    have "l + kWakeMinIntervalMs \<le> wkNextAt w" using inv row bin that unfolding wake_inv_def spaced_def by blast
    then show ?thesis using row(2) by (simp add: kWakeMinIntervalMs_def)
  qed
  then show ?thesis using v row(2) url addr b c by blast
qed

definition demo_wake_env :: wake_env where
  "demo_wake_env = \<lparr>weUrl = (\<lambda>raw. Some \<lparr>wuProtocol = ''https:'', wuPort = '''', wuUser = '''', wuPassword = '''',
     wuHash = '''', wuHost = ''api.capy.ai'', wuHref = ''https://api.capy.ai/h''\<rparr>),
     weIp = (\<lambda>a. if a = ''8.8.8.8'' then V4 8 8 8 8 else if a = ''10.0.0.1'' then V4 10 0 0 1 else NotIp),
     weHosts = [''api.capy.ai'']\<rparr>"

definition demo_owner :: client where
  "demo_owner = \<lparr>clId = ''cl'', clInfo = \<lparr>ciRedirectUris = [], ciName = None, ciSecret = None, ciSecretHash = None\<rparr>,
     clCreatedAt = 0, clConsentedAt = Some 1, clRevokedAt = None, clLastUsedAt = None\<rparr>"

definition demo_binding :: binding where
  "demo_binding = \<lparr>bdAgent = ''capy-1'', bdThread = ''t'', bdClient = ''cl'', bdWebhook = ''https://api.capy.ai/h'',
     bdUntil = 1000000, bdCapability = ''h'', bdToken = ''k'', bdCreatedAt = 0, bdUpdatedAt = 0,
     bdDeadAt = None, bdLastWakeAt = None, bdLastWakeStatus = None\<rparr>"

definition demo_wakes :: "wake_event list" where
  "demo_wakes = [Start, Immediate, Next, OAuthWrites [demo_owner], Bind demo_binding,
     Message ''capy-1'' ''m1'' ''hello'', Immediate, Next, Next]"

theorem post_guarded_witness:
  "\<exists>w. wpPhase (wake_step demo_wake_env (run (wake_step demo_wake_env) (pump_initial 1000) demo_wakes)
      (Looked (Some [''8.8.8.8'']))) = Posting w \<and> wkNextAt w \<le> 1000 \<and> isPublicAddress demo_wake_env ''8.8.8.8''"
proof -
  let ?s = "run (wake_step demo_wake_env) (pump_initial 1000) demo_wakes"
  let ?w = "\<lparr>wkId = 1, wkAgent = ''capy-1'', wkMessage = ''m1'', wkPayload = ''hello'',
     wkState = WakePending, wkAttempts = 0, wkNextAt = 1000, wkCreatedAt = 1000, wkLastError = None\<rparr>"
  let ?u = "\<lparr>wuProtocol = ''https:'', wuPort = '''', wuUser = '''', wuPassword = '''',
     wuHash = '''', wuHost = ''api.capy.ai'', wuHref = ''https://api.capy.ai/h''\<rparr>"
  have l: "wpPhase ?s = Looking ?w ?u" by code_simp
  have p: "wpPhase (wake_step demo_wake_env ?s (Looked (Some [''8.8.8.8'']))) = Posting ?w" by code_simp
  have c: "wpClock ?s = 1000" by code_simp
  have n: "weIp demo_wake_env (wuHost ?u) = NotIp" by (simp add: demo_wake_env_def)
  from post_guarded [OF refl l p] c n p show ?thesis by auto
qed

text \<open>Threads are not flooded: in every reachable state at most one wake of an agent waits, and
  no wake is tried more than seven times; the delays between the tries are at least ten seconds and
  sum to less than an hour and three quarters.\<close>

lemma wakes_bounded:
  assumes "s = run (wake_step env) (pump_initial t) es"
  shows "wakes_pendingFor a s \<le> 1 \<and> (\<forall>r \<in> set (rsWakes s). wkAttempts r \<le> 7)
    \<and> (\<forall>d \<in> set kWakeBackoffMs. 10000 \<le> d \<and> d \<le> 3600000) \<and> sum_list kWakeBackoffMs < 105 * 60 * 1000"
proof -
  have ok: "rows_ok s" using reached_inv [of env t es] assms by (simp add: wake_inv_def)
  let ?f = "filter (\<lambda>r. wkAgent r = a \<and> wkState r = WakePending) (rsWakes s)"
  have "distinct (map wkId ?f)" using ok by (simp add: rows_ok_def distinct_map_filter)
  then have "distinct ?f" by (simp add: distinct_map)
  moreover have "x = y" if "x \<in> set ?f" "y \<in> set ?f" for x y
  proof -
    have "x \<in> set (rsWakes s)" "y \<in> set (rsWakes s)" "wkState x = WakePending" "wkState y = WakePending"
      "wkAgent x = wkAgent y" using that by auto
    then show ?thesis using ok unfolding rows_ok_def by blast
  qed
  ultimately have "length ?f \<le> 1" by (intro distinct_all_eq) blast+
  moreover have "wkAttempts r \<le> 7" if "r \<in> set (rsWakes s)" for r
  proof -
    have "wkAttempts r \<le> (if wkState r = WakePending then 6 else 7)" using that ok unfolding rows_ok_def by blast
    then show ?thesis by (simp split: if_splits)
  qed
  ultimately show ?thesis by (simp add: wakes_pendingFor_def sql_count_def kWakeBackoffMs_def)
qed

text \<open>No wake is stranded: in every reachable state in which the delivery is started and some wake
  waits, the pump is running, or a run of it is queued, or its timer is set.\<close>

lemma no_wake_stranded:
  assumes "s = run (wake_step env) (pump_initial t) es" and "\<not> wpStopped s"
    and "r \<in> set (rsWakes s)" and "wkState r = WakePending"
  shows "wpRunning s \<or> wpImmediate s \<or> wpTimer s \<noteq> None"
  using reached_inv [of env t es] assms unfolding wake_inv_def pump_ok_def by blast

text \<open>The mask test on 32-bit words is the list of ranges it stands for: an IPv4 address is public
  exactly when it is outside 0/8, 10/8, 100.64/10, 127/8, 169.254/16, 172.16/12, 192.0.0/24,
  192.168/16, 198.18/15 and 224 and above.\<close>

lemma public_v4_ranges:
  assumes "weIp env address = V4 a b c d" and "a < 256" "b < 256" "c < 256" "d < 256"
  shows "isPublicAddress env address \<longleftrightarrow>
    \<not> (a = 0 \<or> a = 10 \<or> a = 100 \<and> 64 \<le> b \<and> b < 128 \<or> a = 127 \<or> a = 169 \<and> b = 254
       \<or> a = 172 \<and> 16 \<le> b \<and> b < 32 \<or> a = 192 \<and> (b = 168 \<or> b = 0 \<and> c = 0)
       \<or> a = 198 \<and> (b = 18 \<or> b = 19) \<or> 224 \<le> a)"
  using v4_blocked_ranges [OF assms(2-5)] assms(1) by (simp add: isPublicAddress.simps [of env address])

end
