(* ===== verification/Remote_Tools.thy ===== *)
theory Remote_Tools
  imports Remote_Wake
begin

text \<open>
  The relay tools a remote caller gets (\<open>lib/server/relay/remote-tools.js\<close>): binding a thread to an
  agent of its own, acting as that agent with its capability, and the hourly cap of sends per OAuth
  client. A bind awaits the engine between its checks and its write, so it is a check, an entry of
  the in-flight table and a commit; binds of one client wait for each other. A send awaits the engine
  between its reservation and its end. The engine's answers, \<open>Date.parse\<close>, the digest, the random
  names and capabilities are inputs; the URL check is the one of \<open>Remote_Wake\<close>.
\<close>

section \<open>Inputs and state\<close>

definition kDefaultBindMs :: int where "kDefaultBindMs = 7 * 24 * 60 * 60 * 1000"
definition kMaxBindMs :: int where "kMaxBindMs = 30 * 24 * 60 * 60 * 1000"
definition kHourMs :: int where "kHourMs = 60 * 60 * 1000"
definition kCappedTools :: "string list" where "kCappedTools = [''relay_send'', ''relay_reply'']"

record tools_env =
  teWake :: wake_env
  teHash :: "string \<Rightarrow> string"
  teMaxBindings :: nat
  teHourlyCap :: nat
  teTools :: "string list"

datatype until_arg = NoUntil | BadUntil | Until int

record bind_args =
  baThread :: string
  baWebhook :: string
  baUntil :: until_arg
  baCapability :: string

record pending_bind =
  pbThread :: string
  pbUrl :: string
  pbUntil :: int
  pbExisting :: "binding option"
  pbCapability :: string
  pbAgent :: string

text \<open>The waiting binds of a client, the one that is in progress, the sends in progress, and the
  agent names drawn so far.\<close>

record tools = remote_store +
  tcClock :: int
  tcQueue :: "string \<Rightarrow> bind_args list"
  tcBusy :: "string \<Rightarrow> pending_bind option"
  tcSends :: "nat list"
  tcDrawn :: "string list"

datatype relay_error = PrefixDenied | NotBound | CapabilityInvalid | InvalidInput | WakeUrlRefused
  | BindingLimit | ProvisioningFailed | RateLimited | EngineError nat

section \<open>The engine\<close>

datatype engine_call = EngineInbox | EngineRegister | EngineDelete

text \<open>An engine answer: a value, or the status of the error. Registering answers with a token, which
  may be missing.\<close>

record engine_answers =
  eaInbox :: "nat + unit"
  eaRegister :: "nat + string option"
  eaDelete :: "nat + unit"
  eaAgain :: "nat + string option"

definition registered_token :: "string option \<Rightarrow> relay_error + string" where
  "registered_token t = (case t of None \<Rightarrow> Inl ProvisioningFailed
     | Some token \<Rightarrow> if token = [] then Inl ProvisioningFailed else Inr token)"

definition ensure_registered :: "bool \<Rightarrow> engine_answers \<Rightarrow> (relay_error + string) \<times> engine_call list" where
  "ensure_registered owned ea = (case eaRegister ea of
       Inr t \<Rightarrow> (registered_token t, [EngineRegister])
     | Inl st \<Rightarrow>
         if st \<noteq> 409 \<or> \<not> owned then (Inl (EngineError st), [EngineRegister])
         else (case eaDelete ea of
                 Inl st \<Rightarrow> (Inl (EngineError st), [EngineRegister, EngineDelete])
               | Inr _ \<Rightarrow>
                   (case eaAgain ea of
                      Inl st \<Rightarrow> (Inl (EngineError st), [EngineRegister, EngineDelete, EngineRegister])
                    | Inr t \<Rightarrow> (registered_token t, [EngineRegister, EngineDelete, EngineRegister]))))"

definition ensureAgentToken :: "string option \<Rightarrow> engine_answers \<Rightarrow>
    (relay_error + string) \<times> engine_call list" where
  "ensureAgentToken existing ea = (case existing of
       None \<Rightarrow> ensure_registered False ea
     | Some token \<Rightarrow> if token = [] then ensure_registered False ea else
         (case eaInbox ea of
            Inr _ \<Rightarrow> (Inr token, [EngineInbox])
          | Inl st \<Rightarrow>
              if st \<noteq> 401 \<and> st \<noteq> 403 then (Inl (EngineError st), [EngineInbox])
              else (let (r, calls) = ensure_registered True ea in (r, EngineInbox # calls))))"

section \<open>Acting as an agent\<close>

definition requireBinding :: "tools_env \<Rightarrow> string \<Rightarrow> string \<Rightarrow> string \<Rightarrow> tools \<Rightarrow> relay_error + binding" where
  "requireBinding env clientId as capability s =
     (let agent = map to_lower (js_trim as) in
      if \<not> starts_with ''capy-'' agent then Inl PrefixDenied
      else (case bindings_get agent s of
              None \<Rightarrow> Inl NotBound
            | Some b \<Rightarrow>
                if bdClient b \<noteq> clientId then Inl PrefixDenied
                else if \<not> timingSafeStringEqual (teHash env capability) (bdCapability b)
                then Inl CapabilityInvalid
                else Inr b))"

section \<open>Binding\<close>

definition thread_char :: "char \<Rightarrow> bool" where
  "thread_char c \<longleftrightarrow> c \<in> set ''ABCDEFGHIJKLMNOPQRSTUVWXYZabcdefghijklmnopqrstuvwxyz0123456789_.:-''"

definition thread_id_ok :: "string \<Rightarrow> bool" where
  "thread_id_ok t \<longleftrightarrow> 1 \<le> length t \<and> length t \<le> 128 \<and> list_all thread_char t"

definition bind_until :: "int \<Rightarrow> until_arg \<Rightarrow> relay_error + int" where
  "bind_until now u = (case u of
       NoUntil \<Rightarrow> Inr (now + kDefaultBindMs)
     | BadUntil \<Rightarrow> Inl InvalidInput
     | Until t \<Rightarrow> (let until = min t (now + kMaxBindMs) in if until \<le> now then Inl InvalidInput else Inr until))"

text \<open>\<open>bindNow\<close> up to the engine; \<open>freshCap\<close> and \<open>freshAgent\<close> are what it would draw.\<close>

definition bind_check :: "tools_env \<Rightarrow> string \<Rightarrow> bind_args \<Rightarrow> string \<Rightarrow> string \<Rightarrow> tools \<Rightarrow>
    relay_error + pending_bind" where
  "bind_check env clientId args freshCap freshAgent s =
     (let threadId = js_trim (baThread args) in
      if \<not> thread_id_ok threadId then Inl InvalidInput
      else (case validateWakeUrl (teWake env) (baWebhook args) of
              None \<Rightarrow> Inl WakeUrlRefused
            | Some url \<Rightarrow>
      (case bind_until (tcClock s) (baUntil args) of
         Inl e \<Rightarrow> Inl e
       | Inr until \<Rightarrow>
      (let existing = bindings_getByThread clientId threadId s; capability = baCapability args in
       if (case existing of None \<Rightarrow> False
             | Some e \<Rightarrow> capability = [] \<or> \<not> timingSafeStringEqual (teHash env capability) (bdCapability e))
       then Inl CapabilityInvalid
       else if (case existing of None \<Rightarrow> True | Some e \<Rightarrow> bdUntil e \<le> tcClock s)
            \<and> teMaxBindings env \<le> bindings_countActive (tcClock s) clientId s
       then Inl BindingLimit
       else Inr \<lparr>pbThread = threadId, pbUrl = wuHref url, pbUntil = until, pbExisting = existing,
           pbCapability = (if existing = None then freshCap else capability),
           pbAgent = (case existing of None \<Rightarrow> freshAgent | Some e \<Rightarrow> bdAgent e)\<rparr>))))"

definition bind_row :: "tools_env \<Rightarrow> string \<Rightarrow> pending_bind \<Rightarrow> string \<Rightarrow> binding" where
  "bind_row env clientId pb token = \<lparr>bdAgent = pbAgent pb, bdThread = pbThread pb, bdClient = clientId,
     bdWebhook = pbUrl pb, bdUntil = pbUntil pb,
     bdCapability = (case pbExisting pb of Some e \<Rightarrow> bdCapability e | None \<Rightarrow> teHash env (pbCapability pb)),
     bdToken = token, bdCreatedAt = 0, bdUpdatedAt = 0, bdDeadAt = None, bdLastWakeAt = None,
     bdLastWakeStatus = None\<rparr>"

text \<open>\<open>bindNow\<close> from the engine's answer; the caller gets the agent and its capability.\<close>

definition bind_commit :: "tools_env \<Rightarrow> string \<Rightarrow> pending_bind \<Rightarrow> engine_answers \<Rightarrow> tools \<Rightarrow>
    (relay_error + string \<times> string) \<times> tools" where
  "bind_commit env clientId pb ea s =
     (case fst (ensureAgentToken (map_option bdToken (pbExisting pb)) ea) of
        Inl e \<Rightarrow> (Inl e, s)
      | Inr token \<Rightarrow>
          if (case clients_get clientId s of None \<Rightarrow> True | Some c \<Rightarrow> clRevokedAt c \<noteq> None)
          then (Inl NotBound, s)
          else if pbExisting pb \<noteq> None \<and> bindings_get (pbAgent pb) s = None then (Inl NotBound, s)
          else (case bindings_upsert (tcClock s) (bind_row env clientId pb token) s of
                  None \<Rightarrow> (Inl (EngineError 0), s)
                | Some s \<Rightarrow>
                    (Inr (pbAgent pb, pbCapability pb),
                     audit (tcClock s) (if pbExisting pb \<noteq> None then ''binding_renewed'' else ''binding_created'')
                       (Some clientId) (Some (pbAgent pb)) s)))"

section \<open>Calls\<close>

datatype call_begin =
    CallError relay_error
  | Unbound string
  | Agents
  | Forward string string "nat option"

definition tool_call :: "tools_env \<Rightarrow> string \<Rightarrow> string \<Rightarrow> string \<Rightarrow> string \<Rightarrow> tools \<Rightarrow> call_begin \<times> tools" where
  "tool_call env clientId name as capability s =
     (if name = ''relay_unbind'' then
        (case requireBinding env clientId as capability s of
           Inl e \<Rightarrow> (CallError e, s)
         | Inr b \<Rightarrow> (Unbound (bdAgent b),
             audit (tcClock s) ''binding_removed'' (Some clientId) (Some (bdAgent b))
               (snd (bindings_remove (bdAgent b) s))))
      else if name = ''relay_agents'' then (Agents, s)
      else if name \<notin> set (teTools env) then (CallError InvalidInput, s)
      else
        (case requireBinding env clientId as capability s of
           Inl e \<Rightarrow> (CallError e, s)
         | Inr b \<Rightarrow>
             if name \<in> set kCappedTools then
               (if teHourlyCap env \<le> countAudit ''remote_send'' clientId (tcClock s - kHourMs) s
                then (CallError RateLimited, s)
                else (let s = audit (tcClock s) ''remote_send'' (Some clientId) (Some (bdAgent b)) s in
                      (Forward (bdAgent b) (bdToken b) (Some (rsAuditSeq s)),
                       s\<lparr>tcSends := rsAuditSeq s # tcSends s\<rparr>)))
             else (Forward (bdAgent b) (bdToken b) None, s)))"

text \<open>A reserved send ends; a local outage gives its slot back.\<close>

definition send_end :: "nat \<Rightarrow> bool \<Rightarrow> tools \<Rightarrow> tools" where
  "send_end i refunded s = (if i \<notin> set (tcSends s) then s
     else (let s = s\<lparr>tcSends := removeAll i (tcSends s)\<rparr> in if refunded then removeAudit i s else s))"

datatype tools_event =
    Time nat
  | BindCall string bind_args
  | BindRun string string string
  | BindEngine string engine_answers
  | Call string string string string
  | SendEnds nat bool
  | OwnerRemoves string
  | RevokeOwner string
  | Swept int
  | ClientsWritten "client list"
  | Audited string "string option"
  | WakeNoted string string
  | WakeDead string string

text \<open>One step. A new agent's name (\<open>capy-\<close> and twelve random hex digits) is never one drawn before.\<close>

fun tools_step :: "tools_env \<Rightarrow> tools \<Rightarrow> tools_event \<Rightarrow> tools" where
  "tools_step env s (Time d) = s\<lparr>tcClock := tcClock s + int d\<rparr>"
| "tools_step env s (BindCall c args) = s\<lparr>tcQueue := (tcQueue s)(c := tcQueue s c @ [args])\<rparr>"
| "tools_step env s (BindRun c freshCap freshAgent) =
     (case (tcBusy s c, tcQueue s c) of
        (None, args # rest) \<Rightarrow>
          if freshAgent \<in> set (tcDrawn s) then s
          else (let s' = s\<lparr>tcQueue := (tcQueue s)(c := rest)\<rparr> in
                case bind_check env c args freshCap freshAgent s of
                  Inl _ \<Rightarrow> s'
                | Inr pb \<Rightarrow> s'\<lparr>tcBusy := (tcBusy s)(c := Some pb), tcDrawn := freshAgent # tcDrawn s\<rparr>)
      | _ \<Rightarrow> s)"
| "tools_step env s (BindEngine c ea) = (case tcBusy s c of
     None \<Rightarrow> s
   | Some pb \<Rightarrow> snd (bind_commit env c pb ea (s\<lparr>tcBusy := (tcBusy s)(c := None)\<rparr>)))"
| "tools_step env s (Call c name as capability) = snd (tool_call env c name as capability s)"
| "tools_step env s (SendEnds i refunded) = send_end i refunded s"
| "tools_step env s (OwnerRemoves a) = snd (bindings_remove a s)"
| "tools_step env s (RevokeOwner c) = snd (bindings_removeForClient c (clients_revoke (tcClock s) c s))"
| "tools_step env s (Swept days) = sweep_store (tcClock s) days s"
| "tools_step env s (ClientsWritten cs) = s\<lparr>rsClients := cs\<rparr>"
| "tools_step env s (Audited event c) =
     (if event = ''remote_send'' then s else audit (tcClock s) event c None s)"
| "tools_step env s (WakeNoted a status) = bindings_noteWake (tcClock s) a status s"
| "tools_step env s (WakeDead a status) = bindings_markDead (tcClock s) a status s"

section \<open>The invariant\<close>

definition active_others :: "tools \<Rightarrow> string \<Rightarrow> string \<Rightarrow> nat" where
  "active_others s c a = sql_count (\<lambda>r. bdAgent r \<noteq> a \<and> bdClient r = c \<and> tcClock s < bdUntil r) (rsBindings s)"

text \<open>Bindings have distinct agents, all drawn before.\<close>

definition agents_ok :: "tools \<Rightarrow> bool" where
  "agents_ok s \<longleftrightarrow> distinct (map bdAgent (rsBindings s))
     \<and> (\<forall>b \<in> set (rsBindings s). bdAgent b \<in> set (tcDrawn s))"

text \<open>A bind in progress has an agent of its own: a new name, or the client's binding as it was.\<close>

definition binds_ok :: "tools \<Rightarrow> bool" where
  "binds_ok s \<longleftrightarrow> (\<forall>c pb. tcBusy s c = Some pb \<longrightarrow> pbAgent pb \<in> set (tcDrawn s)
     \<and> (\<forall>c' pb'. tcBusy s c' = Some pb' \<and> pbAgent pb' = pbAgent pb \<longrightarrow> c' = c)
     \<and> (\<forall>b \<in> set (rsBindings s). bdAgent b = pbAgent pb \<longrightarrow>
          (\<exists>e. pbExisting pb = Some e \<and> bdClient b = c \<and> bdThread b = pbThread pb
               \<and> bdCapability b = bdCapability e)))"

definition limit_ok :: "tools_env \<Rightarrow> tools \<Rightarrow> bool" where
  "limit_ok env s \<longleftrightarrow> (\<forall>c. bindings_countActive (tcClock s) c s \<le> teMaxBindings env
     \<and> (\<forall>pb. tcBusy s c = Some pb \<longrightarrow> active_others s c (pbAgent pb) < teMaxBindings env))"

definition sends_ok :: "tools_env \<Rightarrow> tools \<Rightarrow> bool" where
  "sends_ok env s \<longleftrightarrow> (\<forall>c. countAudit ''remote_send'' c (tcClock s - kHourMs) s \<le> teHourlyCap env)"

definition tools_inv :: "tools_env \<Rightarrow> tools \<Rightarrow> bool" where
  "tools_inv env s \<longleftrightarrow> agents_ok s \<and> binds_ok s \<and> limit_ok env s \<and> sends_ok env s"

lemma sql_count_mono: "(\<And>r. r \<in> set rows \<Longrightarrow> p r \<Longrightarrow> q r) \<Longrightarrow> sql_count p rows \<le> sql_count q rows"
  by (induction rows) auto

lemma sql_count_delete: "sql_count p (sql_delete q rows) \<le> sql_count p rows"
  by (induction rows) auto

lemma sql_count_other:
  "distinct (map key rows) \<Longrightarrow> sql_count p rows \<le> sql_count (\<lambda>r. key r \<noteq> k \<and> p r) rows + 1"
proof (induction rows)
  case (Cons r rows)
  show ?case
  proof (cases "key r = k")
    case True
    then have "key x \<noteq> k" if "x \<in> set rows" for x using Cons.prems that by (auto simp: image_iff)
    then have "sql_count p rows \<le> sql_count (\<lambda>r. key r \<noteq> k \<and> p r) rows" by (intro sql_count_mono) simp
    then show ?thesis by (simp add: True)
  qed (use Cons in auto)
qed simp

text \<open>Events that leave the bindings, the binds and the audit's sends alone.\<close>

lemma tools_inv_cong:
  assumes "rsBindings t = rsBindings s" "tcClock t = tcClock s" "tcBusy t = tcBusy s" "tcDrawn t = tcDrawn s"
    "rsAudit t = rsAudit s"
  shows "tools_inv env t = tools_inv env s"
  using assms by (simp add: tools_inv_def agents_ok_def binds_ok_def limit_ok_def sends_ok_def active_others_def
      bindings_countActive_def countAudit_def)

text \<open>Rows of bindings and of the audit go away, time passes.\<close>

lemma tools_inv_fewer:
  assumes inv: "tools_inv env s" and b: "rsBindings t = sql_delete p (rsBindings s)"
    and au: "rsAudit t = sql_delete q (rsAudit s)"
    and same: "tcClock s \<le> tcClock t" "tcBusy t = tcBusy s" "tcDrawn t = tcDrawn s"
  shows "tools_inv env t"
proof -
  have "agents_ok t" using inv by (auto simp: tools_inv_def agents_ok_def b same distinct_key_sql_delete set_sql_delete)
  moreover have "binds_ok t" using inv by (auto simp: tools_inv_def binds_ok_def b same set_sql_delete)
  moreover have "limit_ok env t"
  proof -
    have "bindings_countActive (tcClock t) c t \<le> bindings_countActive (tcClock s) c s" for c
      unfolding bindings_countActive_def b
      by (rule order_trans [OF sql_count_delete sql_count_mono]) (use same(1) in auto)
    moreover have "active_others t c a \<le> active_others s c a" for c a
      unfolding active_others_def b
      by (rule order_trans [OF sql_count_delete sql_count_mono]) (use same(1) in auto)
    ultimately show ?thesis using inv unfolding tools_inv_def limit_ok_def same(2)
      by (meson order_trans le_less_trans)
  qed
  moreover have "sends_ok env t"
  proof -
    have "countAudit ''remote_send'' c (tcClock t - kHourMs) t \<le> countAudit ''remote_send'' c (tcClock s - kHourMs) s" for c
      unfolding countAudit_def au
      by (rule order_trans [OF sql_count_delete sql_count_mono]) (use same(1) in auto)
    then show ?thesis using inv unfolding tools_inv_def sends_ok_def by (meson order_trans)
  qed
  ultimately show ?thesis by (simp add: tools_inv_def)
qed

lemma sql_delete_none [simp]: "sql_delete (\<lambda>_. False) rows = rows"
  by (simp add: sql_delete_def)

text \<open>An audit row that is not a send.\<close>

lemma audit_inv: "event \<noteq> ''remote_send'' \<Longrightarrow> tools_inv env (audit now event c a s) = tools_inv env s"
  by (simp add: tools_inv_def agents_ok_def binds_ok_def limit_ok_def sends_ok_def active_others_def
      bindings_countActive_def countAudit_def audit_def)

lemma remove_tools_inv: "tools_inv env s \<Longrightarrow> tools_inv env (snd (bindings_remove a s))"
  by (rule tools_inv_fewer [where p = "\<lambda>r. bdAgent r = a" and q = "\<lambda>_. False"])
    (simp_all add: bindings_remove_def)

lemma revoke_tools_inv: "tools_inv env s \<Longrightarrow> tools_inv env (snd (bindings_removeForClient c (clients_revoke now c s)))"
proof -
  assume inv: "tools_inv env s"
  have "tools_inv env (fold (\<lambda>a s. snd (bindings_remove a s)) as u)" if "tools_inv env u" for as u
    using that by (induction as arbitrary: u) (simp_all add: remove_tools_inv)
  moreover have "tools_inv env (clients_revoke now c s)"
    using inv by (subst tools_inv_cong [of _ s]) (simp_all add: clients_revoke_def)
  ultimately show ?thesis by (simp add: bindings_removeForClient_def Let_def)
qed

lemma sweep_tools_inv: assumes "tools_inv env s" shows "tools_inv env (sweep_store now days s)"
  by (rule tools_inv_fewer [OF assms, where p = "\<lambda>_. False"
        and q = "\<lambda>r. 0 < days \<and> auAt r < now - days * day_ms"])
    (simp_all add: sweep_store_def Let_def pending_prune_def codes_prune_def tokens_prune_def
      clients_pruneUnconsented_def wakes_prune_def)

text \<open>Notes of the wake delivery on a binding.\<close>

lemma note_tools_inv:
  assumes inv: "tools_inv env s" and b: "rsBindings t = sql_update (\<lambda>r. bdAgent r = a) f (rsBindings s)"
    and f: "\<And>r. bdAgent (f r) = bdAgent r \<and> bdClient (f r) = bdClient r \<and> bdThread (f r) = bdThread r
      \<and> bdCapability (f r) = bdCapability r \<and> bdUntil (f r) = bdUntil r"
    and same: "tcClock t = tcClock s" "tcBusy t = tcBusy s" "tcDrawn t = tcDrawn s" "rsAudit t = rsAudit s"
  shows "tools_inv env t"
proof -
  have "agents_ok t" using inv f by (auto simp: tools_inv_def agents_ok_def b same map_sql_update_key ball_sql_update)
  moreover have "binds_ok t" using inv f by (simp add: tools_inv_def binds_ok_def b same ball_sql_update)
  moreover have "limit_ok env t" "sends_ok env t"
    using inv f by (simp_all add: tools_inv_def limit_ok_def sends_ok_def active_others_def
        bindings_countActive_def countAudit_def b same sql_count_update_same)
  ultimately show ?thesis by (simp add: tools_inv_def)
qed

text \<open>Time passes.\<close>

lemma time_tools_inv: assumes "tools_inv env s" shows "tools_inv env (s\<lparr>tcClock := tcClock s + int d\<rparr>)"
  by (rule tools_inv_fewer [OF assms, where p = "\<lambda>_. False" and q = "\<lambda>_. False"]) simp_all

text \<open>A bind enters the in-flight table.\<close>

lemma bind_check_Inr:
  assumes "bind_check env c args freshCap freshAgent s = Inr pb"
  shows "pbExisting pb = bindings_getByThread c (pbThread pb) s"
    and "pbAgent pb = (case pbExisting pb of None \<Rightarrow> freshAgent | Some e \<Rightarrow> bdAgent e)"
    and "pbCapability pb = (if pbExisting pb = None then freshCap else baCapability args)"
    and "pbExisting pb = Some e \<Longrightarrow> timingSafeStringEqual (teHash env (baCapability args)) (bdCapability e)"
    and "(case pbExisting pb of None \<Rightarrow> True | Some e \<Rightarrow> bdUntil e \<le> tcClock s) \<Longrightarrow>
      bindings_countActive (tcClock s) c s < teMaxBindings env"
    and "tcClock s < pbUntil pb \<and> pbUntil pb \<le> tcClock s + kMaxBindMs"
  using assms by (auto simp: bind_check_def Let_def bind_until_def kDefaultBindMs_def kMaxBindMs_def
      split: if_splits option.splits sum.splits until_arg.splits)

lemma getByThread_Some:
  "bindings_getByThread c th s = Some e \<Longrightarrow> e \<in> set (rsBindings s) \<and> bdClient e = c \<and> bdThread e = th"
  by (auto simp: bindings_getByThread_def dest: find_Some_set)

lemma agents_unique:
  "agents_ok s \<Longrightarrow> b \<in> set (rsBindings s) \<Longrightarrow> e \<in> set (rsBindings s) \<Longrightarrow> bdAgent b = bdAgent e \<Longrightarrow> b = e"
  by (auto simp: agents_ok_def distinct_map dest: inj_onD)

lemma bind_run_inv:
  assumes inv: "tools_inv env s" and free: "tcBusy s c = None" and fresh: "freshAgent \<notin> set (tcDrawn s)"
    and check: "bind_check env c args freshCap freshAgent s = Inr pb"
  shows "tools_inv env (s\<lparr>tcQueue := qs, tcBusy := (tcBusy s)(c := Some pb), tcDrawn := freshAgent # tcDrawn s\<rparr>)"
    (is "tools_inv env ?t")
proof -
  note ck = bind_check_Inr [OF check]
  have ag: "agents_ok s" and bd: "binds_ok s" and lim: "limit_ok env s" using inv by (auto simp: tools_inv_def)
  have row: "e \<in> set (rsBindings s)" "bdClient e = c" "bdThread e = pbThread pb" "pbAgent pb = bdAgent e"
    if e: "pbExisting pb = Some e" for e
  proof -
    show "pbAgent pb = bdAgent e" using ck(2) unfolding e by simp
    show "e \<in> set (rsBindings s)" "bdClient e = c" "bdThread e = pbThread pb"
      using getByThread_Some [of c "pbThread pb" s e] ck(1) e by simp_all
  qed
  have drawn: "pbAgent pb \<in> set (freshAgent # tcDrawn s)"
  proof (cases "pbExisting pb")
    case (Some e)
    then show ?thesis using row ag by (auto simp: agents_ok_def)
  qed (use ck(2) in simp)
  have mine: "\<exists>e. pbExisting pb = Some e \<and> bdClient b = c \<and> bdThread b = pbThread pb \<and> bdCapability b = bdCapability e"
    if b: "b \<in> set (rsBindings s)" "bdAgent b = pbAgent pb" for b
  proof (cases "pbExisting pb")
    case None
    then show ?thesis using b ck(2) fresh ag by (auto simp: agents_ok_def)
  next
    case (Some e)
    then show ?thesis using row b agents_unique [OF ag b(1)] by metis
  qed
  have other: "pbAgent q \<noteq> pbAgent pb" if q: "tcBusy s c' = Some q" for c' q
  proof
    assume eq: "pbAgent q = pbAgent pb"
    have "pbAgent q \<in> set (tcDrawn s)" using bd q by (auto simp: binds_ok_def)
    then obtain e where e: "pbExisting pb = Some e" using eq ck(2) fresh by (cases "pbExisting pb") auto
    have "bdAgent e = pbAgent q" using row(4) [OF e] eq by simp
    then have "bdClient e = c'" using bd q row(1) [OF e] unfolding binds_ok_def by blast
    then show False using row [OF e] q free by simp
  qed
  have "binds_ok ?t" unfolding binds_ok_def
  proof (intro allI impI)
    fix d q assume q: "tcBusy ?t d = Some q"
    show "pbAgent q \<in> set (tcDrawn ?t)
     \<and> (\<forall>c' pb'. tcBusy ?t c' = Some pb' \<and> pbAgent pb' = pbAgent q \<longrightarrow> c' = d)
     \<and> (\<forall>b \<in> set (rsBindings ?t). bdAgent b = pbAgent q \<longrightarrow>
          (\<exists>e. pbExisting q = Some e \<and> bdClient b = d \<and> bdThread b = pbThread q
               \<and> bdCapability b = bdCapability e))"
    proof (cases "d = c")
      case True
      then have qp: "q = pb" using q by simp
      have "c' = c" if "tcBusy ?t c' = Some pb'" "pbAgent pb' = pbAgent pb" for c' pb'
      proof (rule ccontr)
        assume "c' \<noteq> c"
        then have "tcBusy s c' = Some pb'" using that(1) by simp
        then show False using other that(2) by blast
      qed
      then show ?thesis unfolding qp True
      proof (intro conjI ballI impI allI)
        show "pbAgent pb \<in> set (tcDrawn ?t)" using drawn by simp
        show "\<exists>e. pbExisting pb = Some e \<and> bdClient b = c \<and> bdThread b = pbThread pb \<and> bdCapability b = bdCapability e"
          if "b \<in> set (rsBindings ?t)" "bdAgent b = pbAgent pb" for b using mine [of b] that by simp
      qed blast
    next
      case False
      then have old: "tcBusy s d = Some q" using q by simp
      have "c' = d" if "tcBusy ?t c' = Some pb'" "pbAgent pb' = pbAgent q" for c' pb'
      proof (cases "c' = c")
        case True
        then show ?thesis using that other [OF old] by simp
      next
        case False
        then have "tcBusy s c' = Some pb'" using that(1) by simp
        then show ?thesis using that(2) bd old unfolding binds_ok_def by blast
      qed
      then show ?thesis using bd old unfolding binds_ok_def by simp
    qed
  qed
  moreover have "agents_ok ?t" using ag by (auto simp: agents_ok_def)
  moreover have "limit_ok env ?t"
  proof -
    have "active_others s c (pbAgent pb) < teMaxBindings env"
    proof (cases "case pbExisting pb of None \<Rightarrow> True | Some e \<Rightarrow> bdUntil e \<le> tcClock s")
      case True
      have "active_others s c (pbAgent pb) \<le> bindings_countActive (tcClock s) c s"
        unfolding active_others_def bindings_countActive_def by (rule sql_count_mono) simp
      then show ?thesis using ck(5) [OF True] by simp
    next
      case False
      then obtain e where e: "pbExisting pb = Some e" "tcClock s < bdUntil e" by (auto split: option.splits)
      note r = row [OF e(1)]
      from split_list [OF r(1)] obtain us vs where "rsBindings s = us @ e # vs" by blast
      then have "active_others s c (pbAgent pb) + 1 \<le> bindings_countActive (tcClock s) c s"
        using r e(2) unfolding active_others_def bindings_countActive_def
        by (auto intro!: add_mono sql_count_mono)
      moreover have "bindings_countActive (tcClock s) c s \<le> teMaxBindings env" using lim by (simp add: limit_ok_def)
      ultimately show ?thesis by simp
    qed
    then show ?thesis using lim by (auto simp: limit_ok_def bindings_countActive_def active_others_def)
  qed
  ultimately show ?thesis using inv by (simp add: tools_inv_def sends_ok_def countAudit_def)
qed

text \<open>A bind leaves it: dropped, or with its row written.\<close>

lemma busy_none_inv: "tools_inv env s \<Longrightarrow> tools_inv env (s\<lparr>tcBusy := (tcBusy s)(c := None)\<rparr>)"
  by (auto simp: tools_inv_def agents_ok_def binds_ok_def limit_ok_def sends_ok_def active_others_def
      bindings_countActive_def countAudit_def split: if_splits)

lemma upsert_cases:
  assumes "bindings_upsert now b s = Some t"
  obtains (renewed) r where "r \<in> set (rsBindings s)" "bdAgent r = bdAgent b"
      "t = s\<lparr>rsBindings := sql_update (\<lambda>r. bdAgent r = bdAgent b)
               (\<lambda>r. r\<lparr>bdClient := bdClient b, bdWebhook := bdWebhook b, bdUntil := bdUntil b,
                  bdToken := bdToken b, bdUpdatedAt := now, bdDeadAt := None\<rparr>) (rsBindings s)\<rparr>"
  | (created) "\<forall>r \<in> set (rsBindings s). bdAgent r \<noteq> bdAgent b"
      "t = s\<lparr>rsBindings := rsBindings s @ [b\<lparr>bdCreatedAt := now, bdUpdatedAt := now,
             bdDeadAt := None, bdLastWakeAt := None, bdLastWakeStatus := None\<rparr>]\<rparr>"
proof (cases "sql_count (\<lambda>r. bdAgent r = bdAgent b) (rsBindings s) = 0")
  case True
  then have "\<forall>r \<in> set (rsBindings s). bdAgent r \<noteq> bdAgent b" by (simp add: sql_count_eq_0)
  then show ?thesis using assms True by (intro created) (auto simp: bindings_upsert_def split: if_splits)
next
  case False
  then obtain r where "r \<in> set (rsBindings s)" "bdAgent r = bdAgent b" unfolding sql_count_eq_0 by blast
  then show ?thesis using assms False
    by (intro renewed [of r]) (auto simp: bindings_upsert_def Let_def split: if_splits)
qed

lemma bind_written_inv:
  assumes inv: "tools_inv env s" and busy: "tcBusy s c = Some pb"
    and up: "bindings_upsert now (bind_row env c pb token) (s\<lparr>tcBusy := (tcBusy s)(c := None)\<rparr>) = Some t"
  shows "tools_inv env t"
proof -
  let ?s0 = "s\<lparr>tcBusy := (tcBusy s)(c := None)\<rparr>"
  let ?a = "pbAgent pb"
  have inv0: "tools_inv env ?s0" using busy_none_inv [OF inv] .
  have ag: "agents_ok s" and bd: "binds_ok s" and lim: "limit_ok env s" using inv by (auto simp: tools_inv_def)
  have room: "active_others s c ?a < teMaxBindings env" using lim busy by (auto simp: limit_ok_def)
  have pa: "?a \<in> set (tcDrawn s)" using bd busy by (auto simp: binds_ok_def)
  have others: "pbAgent q \<noteq> ?a" if "tcBusy ?s0 d = Some q" for d q
    using that bd busy unfolding binds_ok_def by (auto split: if_splits)
  have frame: "tcClock t = tcClock s" "tcBusy t = tcBusy ?s0" "tcDrawn t = tcDrawn s" "rsAudit t = rsAudit s"
    by (rule upsert_cases [OF up]; simp)+
  have key: "bdAgent (bind_row env c pb token) = ?a" "bdClient (bind_row env c pb token) = c"
    by (simp_all add: bind_row_def)
  have rest: "active_others t d a' = active_others s d a'" if "d \<noteq> c \<or> a' = ?a" for d a'
  proof (cases rule: upsert_cases [OF up])
    case (1 r)
    have "bdClient x = c" if "x \<in> set (rsBindings s)" "bdAgent x = ?a" for x
      using that bd busy unfolding binds_ok_def by blast
    then show ?thesis using that 1(3) key
      by (auto simp: active_others_def intro!: sql_count_update_same)
  next
    case 2
    then show ?thesis using that key by (auto simp: active_others_def frame(1))
  qed
  have agt: "agents_ok t"
  proof (cases rule: upsert_cases [OF up])
    case (1 r)
    then show ?thesis using ag pa key by (auto simp: agents_ok_def map_sql_update_key set_sql_update)
  next
    case 2
    then show ?thesis using ag pa key by (auto simp: agents_ok_def)
  qed
  have bdt: "binds_ok t"
  proof -
    have "b \<in> set (rsBindings s)" if "b \<in> set (rsBindings t)" "bdAgent b \<noteq> ?a" for b
      by (rule upsert_cases [OF up]) (use that key in \<open>auto simp: set_sql_update\<close>)
    then show ?thesis using others inv0 unfolding tools_inv_def binds_ok_def frame(2,3)
      by simp
  qed
  have "limit_ok env t" unfolding limit_ok_def
  proof (intro allI conjI impI)
    fix d
    have cnt: "bindings_countActive (tcClock t) d t \<le> active_others t d ?a + (if d = c then 1 else 0)"
    proof (cases "d = c")
      case True
      then show ?thesis using agt unfolding bindings_countActive_def active_others_def agents_ok_def
        using sql_count_other [of bdAgent "rsBindings t" "\<lambda>r. bdClient r = c \<and> tcClock t < bdUntil r" ?a] by simp
    next
      case False
      have "bdClient b = c" if "b \<in> set (rsBindings t)" "bdAgent b = ?a" for b
        by (rule upsert_cases [OF up]) (use that key in \<open>auto simp: set_sql_update\<close>)
      then show ?thesis using False unfolding bindings_countActive_def active_others_def
        by (auto intro!: sql_count_mono)
    qed
    have "active_others s d ?a \<le> bindings_countActive (tcClock s) d s"
      unfolding active_others_def bindings_countActive_def by (rule sql_count_mono) simp
    then show "bindings_countActive (tcClock t) d t \<le> teMaxBindings env"
      using cnt rest [of d ?a] room lim by (cases "d = c") (auto simp: limit_ok_def intro: order_trans)
    fix q assume "tcBusy t d = Some q"
    then have q: "d \<noteq> c" "tcBusy s d = Some q" by (auto simp: frame(2) split: if_splits)
    then show "active_others t d (pbAgent q) < teMaxBindings env"
      using rest [of d "pbAgent q"] lim by (simp add: limit_ok_def)
  qed
  then show ?thesis using agt bdt inv by (simp add: tools_inv_def sends_ok_def countAudit_def frame)
qed

lemma bind_commit_inv:
  assumes inv: "tools_inv env s" and busy: "tcBusy s c = Some pb"
  shows "tools_inv env (snd (bind_commit env c pb ea (s\<lparr>tcBusy := (tcBusy s)(c := None)\<rparr>)))"
proof -
  let ?s0 = "s\<lparr>tcBusy := (tcBusy s)(c := None)\<rparr>"
  obtain r u where b: "bind_commit env c pb ea ?s0 = (r, u)" by fastforce
  then have "u = ?s0 \<or> (\<exists>now t token. bindings_upsert (tcClock s) (bind_row env c pb token) ?s0 = Some t
      \<and> (u = audit now ''binding_renewed'' (Some c) (Some (pbAgent pb)) t
         \<or> u = audit now ''binding_created'' (Some c) (Some (pbAgent pb)) t))"
    by (auto simp: bind_commit_def split: sum.splits if_splits option.splits)
  then consider "u = ?s0" | now t token e where "bindings_upsert (tcClock s) (bind_row env c pb token) ?s0 = Some t"
      "e \<in> {''binding_renewed'', ''binding_created''}" "u = audit now e (Some c) (Some (pbAgent pb)) t" by blast
  then show ?thesis
  proof cases
    case 1
    then show ?thesis using busy_none_inv [OF inv] by (simp add: b)
  next
    case 2
    then have "e \<noteq> ''remote_send''" by auto
    then show ?thesis using bind_written_inv [OF inv busy 2(1)] by (simp add: b 2(3) audit_inv)
  qed
qed

text \<open>A reserved send.\<close>

lemma reserve_inv:
  assumes inv: "tools_inv env s"
    and free: "countAudit ''remote_send'' c (tcClock s - kHourMs) s < teHourlyCap env"
  shows "tools_inv env (audit (tcClock s) ''remote_send'' (Some c) a s)"
proof -
  let ?t = "audit (tcClock s) ''remote_send'' (Some c) a s"
  have "countAudit ''remote_send'' d (tcClock s - kHourMs) ?t \<le> teHourlyCap env" for d
    using inv free by (cases "d = c") (auto simp: tools_inv_def sends_ok_def countAudit_def audit_def)
  then show ?thesis using inv
    by (simp add: tools_inv_def agents_ok_def binds_ok_def limit_ok_def sends_ok_def active_others_def
        bindings_countActive_def audit_def)
qed

lemma tool_call_inv:
  assumes inv: "tools_inv env s"
  shows "tools_inv env (snd (tool_call env c name as cap s))"
proof -
  have sends: "tools_inv env u \<Longrightarrow> tools_inv env (u\<lparr>tcSends := xs\<rparr>)" for u xs
    by (subst tools_inv_cong [of _ u]) simp_all
  have removed: "tools_inv env (audit (tcClock s) ''binding_removed'' x y (snd (bindings_remove a s)))" for a x y
    using remove_tools_inv [OF inv] by (simp add: audit_inv)
  show ?thesis
    using inv sends [OF reserve_inv [OF inv]] removed
    by (auto simp: tool_call_def Let_def not_le split: sum.split)
qed

lemma send_end_inv:
  assumes inv: "tools_inv env s"
  shows "tools_inv env (send_end i refunded s)"
proof -
  let ?u = "s\<lparr>tcSends := removeAll i (tcSends s)\<rparr>"
  have u: "tools_inv env ?u" using inv by (subst tools_inv_cong [of _ s]) simp_all
  have "tools_inv env (removeAudit i ?u)"
    by (rule tools_inv_fewer [OF u, where p = "\<lambda>_. False" and q = "\<lambda>r. auId r = i"]) (simp_all add: removeAudit_def)
  then show ?thesis using inv u by (simp add: send_end_def Let_def)
qed

lemma tools_step_inv: "tools_inv env s \<Longrightarrow> tools_inv env (tools_step env s e)"
proof (cases e)
  case (BindCall c args)
  assume "tools_inv env s"
  then show ?thesis by (subst tools_inv_cong [of _ s]) (simp_all add: BindCall)
next
  case (BindRun c cap a)
  assume inv: "tools_inv env s"
  have q: "tools_inv env (s\<lparr>tcQueue := qs\<rparr>)" for qs using inv by (subst tools_inv_cong [of _ s]) simp_all
  show ?thesis
  proof (cases "tcBusy s c = None \<and> tcQueue s c \<noteq> [] \<and> a \<notin> set (tcDrawn s)")
    case True
    then obtain args rest where "tcQueue s c = args # rest" by (cases "tcQueue s c") auto
    then show ?thesis using True q bind_run_inv [OF inv] by (auto simp: BindRun Let_def split: sum.split)
  qed (use inv in \<open>auto simp: BindRun split: option.split list.split\<close>)
next
  case (BindEngine c ea)
  assume inv: "tools_inv env s"
  then show ?thesis using bind_commit_inv [OF inv] by (simp add: BindEngine split: option.split)
next
  case (ClientsWritten cs)
  assume "tools_inv env s"
  then show ?thesis by (subst tools_inv_cong [of _ s]) (simp_all add: ClientsWritten)
next
  case (WakeNoted a st)
  assume inv: "tools_inv env s"
  show ?thesis unfolding WakeNoted
    by (rule note_tools_inv [OF inv, where a = a and f = "noted (tcClock s) st"]) (simp_all add: noteWake_eq noted_def)
next
  case (WakeDead a st)
  assume inv: "tools_inv env s"
  show ?thesis unfolding WakeDead
    by (rule note_tools_inv [OF inv, where a = a
          and f = "\<lambda>r. r\<lparr>bdDeadAt := Some (tcClock s), bdLastWakeStatus := Some st\<rparr>"])
      (simp_all add: bindings_markDead_def)
qed (simp_all add: time_tools_inv tool_call_inv send_end_inv remove_tools_inv revoke_tools_inv
      sweep_tools_inv audit_inv)

interpretation remote_tools: machine "tools_step env" "tools_inv env" "\<lambda>_. True" for env
  by unfold_locales (rule tools_step_inv)

section \<open>Properties\<close>

definition tools_initial :: "int \<Rightarrow> tools" where
  "tools_initial t = \<lparr>rsClients = [], rsPending = [], rsCodes = [], rsTokens = [], rsBindings = [],
     rsWakes = [], rsWakeSeq = 0, rsAudit = [], rsAuditSeq = 0, tcClock = t, tcQueue = (\<lambda>_. []),
     tcBusy = (\<lambda>_. None), tcSends = [], tcDrawn = []\<rparr>"

lemma tools_reached: "tools_inv env (run (tools_step env) (tools_initial t) es)"
proof -
  have "tools_inv env (tools_initial t)"
    by (simp add: tools_initial_def tools_inv_def agents_ok_def binds_ok_def limit_ok_def sends_ok_def
        active_others_def bindings_countActive_def countAudit_def)
  from remote_tools.run_inv [OF this, of es] show ?thesis by (simp add: list_all_iff)
qed

text \<open>A remote client is bounded: whatever calls it makes, in parallel or not, however binds and
  sends interleave with engine answers, restored slots, sweeps and time, it never has more than the
  configured number of unexpired bindings, and never more than the hourly cap of counted sends in the
  last hour.\<close>

lemma remote_client_bounded:
  "let s = run (tools_step env) (tools_initial t) es in
   bindings_countActive (tcClock s) c s \<le> teMaxBindings env
   \<and> countAudit ''remote_send'' c (tcClock s - kHourMs) s \<le> teHourlyCap env"
  using tools_reached [of env t es] by (simp add: Let_def tools_inv_def limit_ok_def sends_ok_def)

definition demo_tools_env :: tools_env where
  "demo_tools_env = \<lparr>teWake = demo_wake_env, teHash = (\<lambda>x. ''#'' @ x), teMaxBindings = 2, teHourlyCap = 1,
     teTools = [''relay_send'', ''relay_inbox'']\<rparr>"

definition demo_bind :: "tools_event list" where
  "demo_bind = [ClientsWritten [demo_owner],
     BindCall ''cl'' \<lparr>baThread = ''t1'', baWebhook = ''https://api.capy.ai/h'', baUntil = NoUntil, baCapability = ''''\<rparr>,
     BindRun ''cl'' ''cap1'' ''capy-1'',
     BindEngine ''cl'' \<lparr>eaInbox = Inr (), eaRegister = Inr (Some ''tok''), eaDelete = Inr (), eaAgain = Inr None\<rparr>]"

text \<open>An agent stays its thread's. In every reachable state: a call that acts as an agent, or gives
  it up, was made by the client that bound it and carried the capability of the binding; and whatever
  step follows, each binding keeps its agent, thread, client and capability, unless it is removed,
  and a new one stands under an agent that no binding had, for the client whose bind was in progress,
  with the hash of the capability drawn for it.\<close>

lemma agents_stay_owned:
  assumes "s = run (tools_step env) (tools_initial t) es"
  shows "(case fst (tool_call env c name as cap s) of
        Forward a token r \<Rightarrow> \<exists>b \<in> set (rsBindings s). bdAgent b = a \<and> bdClient b = c
          \<and> bdCapability b = teHash env cap \<and> token = bdToken b
      | Unbound a \<Rightarrow> \<exists>b \<in> set (rsBindings s). bdAgent b = a \<and> bdClient b = c \<and> bdCapability b = teHash env cap
      | _ \<Rightarrow> True)
    \<and> (\<forall>b' \<in> set (rsBindings (tools_step env s e)).
        (\<exists>b \<in> set (rsBindings s). bdAgent b = bdAgent b' \<and> bdThread b = bdThread b'
           \<and> bdClient b = bdClient b' \<and> bdCapability b = bdCapability b')
        \<or> (bdAgent b' \<notin> bdAgent ` set (rsBindings s)
           \<and> (\<exists>pb. tcBusy s (bdClient b') = Some pb \<and> pbExisting pb = None \<and> bdThread b' = pbThread pb
                \<and> bdCapability b' = teHash env (pbCapability pb))))"
proof (intro conjI ballI)
  have inv: "tools_inv env s" using tools_reached assms by simp
  have own: "requireBinding env c as cap s = Inr b \<Longrightarrow>
      b \<in> set (rsBindings s) \<and> bdClient b = c \<and> bdCapability b = teHash env cap" for b
    by (auto simp: requireBinding_def Let_def timingSafeStringEqual_def split: if_splits option.splits
        dest: bindings_get_Some)
  show "case fst (tool_call env c name as cap s) of
        Forward a token r \<Rightarrow> \<exists>b \<in> set (rsBindings s). bdAgent b = a \<and> bdClient b = c
          \<and> bdCapability b = teHash env cap \<and> token = bdToken b
      | Unbound a \<Rightarrow> \<exists>b \<in> set (rsBindings s). bdAgent b = a \<and> bdClient b = c \<and> bdCapability b = teHash env cap
      | _ \<Rightarrow> True"
  proof (cases "requireBinding env c as cap s")
    case (Inr b)
    show ?thesis using own [OF Inr] Inr by (auto simp: tool_call_def Let_def)
  qed (simp add: tool_call_def)
  fix b'
  let ?old = "\<lambda>t b'. \<exists>b \<in> set (rsBindings s). bdAgent b = bdAgent b' \<and> bdThread b = bdThread b'
     \<and> bdClient b = bdClient b' \<and> bdCapability b = bdCapability b'"
  assume b': "b' \<in> set (rsBindings (tools_step env s e))"
  show "?old s b' \<or> (bdAgent b' \<notin> bdAgent ` set (rsBindings s)
       \<and> (\<exists>pb. tcBusy s (bdClient b') = Some pb \<and> pbExisting pb = None \<and> bdThread b' = pbThread pb
            \<and> bdCapability b' = teHash env (pbCapability pb)))"
  proof (cases "\<exists>d ea pb. e = BindEngine d ea \<and> tcBusy s d = Some pb")
    case False
    have rm: "b \<in> set (rsBindings (fold (\<lambda>a s. snd (bindings_remove a s)) as u)) \<Longrightarrow> b \<in> set (rsBindings u)"
      for b as and u :: tools
    proof (induction as arbitrary: u)
      case (Cons a as)
      then have "b \<in> set (rsBindings (snd (bindings_remove a u)))" by simp
      then show ?case by (simp add: bindings_remove_def set_sql_delete)
    qed simp
    have "?old s b'"
    proof (cases e)
      case (Call c name as cap)
      then show ?thesis using b'
        by (auto simp: tool_call_def Let_def audit_def bindings_remove_def set_sql_delete split: sum.splits if_splits)
    next
      case (RevokeOwner c)
      then show ?thesis using b' rm [of b' _ "clients_revoke (tcClock s) c s"]
        by (auto simp: bindings_removeForClient_def Let_def clients_revoke_def)
    qed (use False b' in \<open>auto simp: send_end_def removeAudit_def bindings_remove_def set_sql_delete sweep_store_def
          Let_def pending_prune_def codes_prune_def tokens_prune_def clients_pruneUnconsented_def
          wakes_prune_def audit_def bindings_noteWake_def bindings_markDead_def set_sql_update
          split: option.splits list.splits sum.splits if_splits\<close>)
    then show ?thesis by blast
  next
    case True
    then obtain d ea pb where e: "e = BindEngine d ea" "tcBusy s d = Some pb" by blast
    let ?s0 = "s\<lparr>tcBusy := (tcBusy s)(d := None)\<rparr>"
    have step: "tools_step env s e = snd (bind_commit env d pb ea ?s0)" using e by simp
    obtain r v where rv: "bind_commit env d pb ea ?s0 = (r, v)" by fastforce
    then have "rsBindings v = rsBindings s
      \<or> (\<exists>u token. bindings_upsert (tcClock s) (bind_row env d pb token) ?s0 = Some u
          \<and> rsBindings v = rsBindings u \<and> (pbExisting pb \<noteq> None \<longrightarrow> bindings_get (pbAgent pb) s \<noteq> None))"
      by (auto simp: bind_commit_def audit_def bindings_get_def split: sum.splits if_splits option.splits)
    then consider "rsBindings (tools_step env s e) = rsBindings s"
      | u token where "bindings_upsert (tcClock s) (bind_row env d pb token) ?s0 = Some u"
          "rsBindings (tools_step env s e) = rsBindings u" "pbExisting pb \<noteq> None \<longrightarrow> bindings_get (pbAgent pb) s \<noteq> None"
      unfolding step rv by auto
    then show ?thesis
    proof cases
      case 1
      then show ?thesis using b' by auto
    next
      case 2
      note w = 2
      have bd: "binds_ok s" using inv by (simp add: tools_inv_def)
      show ?thesis
      proof (cases rule: upsert_cases [OF w(1)])
        case (1 r)
        have mine: "bdClient b = d" if "b \<in> set (rsBindings s)" "bdAgent b = pbAgent pb" for b
          using bd e(2) that unfolding binds_ok_def by blast
        have "?old s b'" using b' mine unfolding w(2) 1(3) by (auto simp: set_sql_update bind_row_def)
        then show ?thesis by blast
      next
        case 2
        then have none: "pbExisting pb = None" using w(3)
          by (auto simp: bindings_get_def find_Some_iff bind_row_def dest!: find_Some_set)
        have "b' \<in> set (rsBindings s) \<or> b' = (bind_row env d pb token)\<lparr>bdCreatedAt := tcClock s,
            bdUpdatedAt := tcClock s, bdDeadAt := None, bdLastWakeAt := None, bdLastWakeStatus := None\<rparr>"
          using b' unfolding w(2) 2(2) by auto
        then show ?thesis using 2(1) e(2) none by (auto simp: bind_row_def)
      qed
    qed
  qed
qed

text \<open>A bind deletes an agent at the engine only when the binding already owns it: then the
  stored token was refused by the engine's inbox as stale, and registering the name was answered
  with a conflict. Every other engine error ends the bind with that error.\<close>

lemma engine_delete_only_owned:
  assumes "ensureAgentToken existing ea = (r, calls)"
  shows "(EngineDelete \<in> set calls \<longleftrightarrow>
      (\<exists>token. existing = Some token \<and> token \<noteq> []) \<and> eaInbox ea \<in> {Inl 401, Inl 403} \<and> eaRegister ea = Inl 409)
    \<and> (\<forall>st. existing = None \<and> eaRegister ea = Inl st \<longrightarrow> r = Inl (EngineError st))
    \<and> length calls \<le> 4"
proof (cases "existing = None \<or> existing = Some []")
  case True
  then have "(r, calls) = ensure_registered False ea"
    using assms by (auto simp: ensureAgentToken_def)
  then show ?thesis using True by (cases "eaRegister ea") (auto simp: ensure_registered_def)
next
  case False
  then obtain token where t: "existing = Some token" "token \<noteq> []" by (cases existing) auto
  show ?thesis
  proof (cases "eaInbox ea")
    case (Inl st)
    show ?thesis
    proof (cases "st = 401 \<or> st = 403")
      case True
      then have "r = fst (ensure_registered True ea)" "calls = EngineInbox # snd (ensure_registered True ea)"
        using assms t Inl by (auto simp: ensureAgentToken_def split: prod.splits)
      then show ?thesis using t Inl True
        by (cases "eaRegister ea"; cases "eaDelete ea"; cases "eaAgain ea") (auto simp: ensure_registered_def)
    qed (use assms t Inl in \<open>auto simp: ensureAgentToken_def\<close>)
  qed (use assms t in \<open>auto simp: ensureAgentToken_def\<close>)
qed

end
