(* ===== verification/Members_Store.thy ===== *)
theory Members_Store
  imports Prelude
begin

text \<open>
  Team members and invites (\<open>lib/server/db/auth/members.js\<close> over the tables \<open>members\<close> and
  \<open>member_invites\<close> of \<open>db/auth/schema.js\<close>). A table is the list of its rows in insertion order;
  a statement that violates a primary key or a UNIQUE constraint throws \<open>ConstraintFails\<close>. The
  digests (\<open>scryptSync\<close>, SHA-256 of an invite token) are the fields of \<open>members_env\<close>; random ids,
  salts, secrets and tokens and the clock are inputs. Text is ASCII. A password is \<open>None\<close> where
  it is not a string. The decoy verification of an unknown email only burns time.
\<close>

section \<open>The tables\<close>

datatype role = AdminRole | MemberRole

record scrypt_params =
  spN :: nat
  spR :: nat
  spP :: nat
  spKeylen :: nat

definition kScryptParams :: scrypt_params where
  "kScryptParams = \<lparr>spN = 16384, spR = 8, spP = 1, spKeylen = 64\<rparr>"

definition kDefaultInviteTtlMs :: int where "kDefaultInviteTtlMs = 7 * 24 * 60 * 60 * 1000"

record member =
  mbId :: string
  mbEmail :: string
  mbName :: string
  mbRole :: role
  mbHash :: string
  mbSalt :: string
  mbParams :: scrypt_params
  mbSecret :: string
  mbDisabled :: bool
  mbCreatedAt :: int
  mbUpdatedAt :: int

record invite =
  inId :: string
  inHash :: string
  inEmail :: "string option"
  inRole :: role
  inBy :: string
  inCreatedAt :: int
  inExpiresAt :: int
  inUsedAt :: "int option"
  inUsedBy :: "string option"

record members_db =
  dbMembers :: "member list"
  dbInvites :: "invite list"

record members_env =
  meScrypt :: "string \<Rightarrow> string \<Rightarrow> scrypt_params \<Rightarrow> string"
  meSha :: "string \<Rightarrow> string"

record member_fresh =
  mfId :: string
  mfSalt :: string
  mfSecret :: string

datatype member_error = InvalidEmail | WeakPassword | EmailTaken | MemberNotFound | LastAdmin
  | ConstraintFails

section \<open>Emails, passwords, models\<close>

text \<open>\<open>kEmailPattern\<close>: one \<open>@\<close>, printable ASCII around it, a dot inside the domain.\<close>

definition email_char :: "char \<Rightarrow> bool" where
  "email_char c \<longleftrightarrow> 0x21 \<le> (of_char c :: nat) \<and> (of_char c :: nat) \<le> 0x7e \<and> (of_char c :: nat) \<noteq> 0x40"

definition kEmailPattern :: "string \<Rightarrow> bool" where
  "kEmailPattern s = (case split_at_char CHR ''@'' s of
       [local, domain] \<Rightarrow> local \<noteq> [] \<and> list_all email_char local \<and> list_all email_char domain
         \<and> CHR ''.'' \<in> set (butlast (tl domain))
     | _ \<Rightarrow> False)"

definition normalizeEmail :: "string \<Rightarrow> string" where
  "normalizeEmail email = map to_lower (js_trim email)"

definition assertValidEmail :: "string \<Rightarrow> member_error + string" where
  "assertValidEmail email =
     (let raw = js_trim email in
      if raw = [] \<or> 254 < length raw \<or> \<not> kEmailPattern raw then Inl InvalidEmail
      else Inr (map to_lower raw))"

definition role_of :: "string \<Rightarrow> role" where
  "role_of r = (if r = ''admin'' then AdminRole else MemberRole)"

definition role_text :: "role \<Rightarrow> string" where
  "role_text r = (case r of AdminRole \<Rightarrow> ''admin'' | MemberRole \<Rightarrow> ''member'')"

definition password_ok :: "string option \<Rightarrow> bool" where
  "password_ok pw \<longleftrightarrow> (case pw of None \<Rightarrow> False | Some p \<Rightarrow> 8 \<le> length p)"

definition display_name :: "string \<Rightarrow> string" where
  "display_name n = take 120 (js_trim n)"

definition verifyPassword :: "members_env \<Rightarrow> string \<Rightarrow> member \<Rightarrow> bool" where
  "verifyPassword env password row =
     timingSafeStringEqual (meScrypt env password (mbSalt row) (mbParams row)) (mbHash row)"

record member_model =
  mmId :: string
  mmEmail :: string
  mmName :: string
  mmRole :: role
  mmDisabled :: bool
  mmCreatedAt :: int
  mmUpdatedAt :: int

definition toMemberModel :: "member \<Rightarrow> member_model" where
  "toMemberModel r = \<lparr>mmId = mbId r, mmEmail = mbEmail r, mmName = mbName r, mmRole = mbRole r,
     mmDisabled = mbDisabled r, mmCreatedAt = mbCreatedAt r, mmUpdatedAt = mbUpdatedAt r\<rparr>"

record invite_model =
  imId :: string
  imEmail :: "string option"
  imRole :: role
  imBy :: string
  imCreatedAt :: int
  imExpiresAt :: int
  imUsedAt :: "int option"
  imUsedBy :: "string option"

definition toInviteModel :: "invite \<Rightarrow> invite_model" where
  "toInviteModel r = \<lparr>imId = inId r, imEmail = inEmail r, imRole = inRole r, imBy = inBy r,
     imCreatedAt = inCreatedAt r, imExpiresAt = inExpiresAt r, imUsedAt = inUsedAt r,
     imUsedBy = inUsedBy r\<rparr>"

section \<open>Members\<close>

definition getMemberRowByEmail :: "string \<Rightarrow> members_db \<Rightarrow> member option" where
  "getMemberRowByEmail email db =
     find (\<lambda>r. map to_lower (mbEmail r) = map to_lower (normalizeEmail email)) (dbMembers db)"

definition getMemberRowById :: "string \<Rightarrow> members_db \<Rightarrow> member option" where
  "getMemberRowById i db = find (\<lambda>r. mbId r = i) (dbMembers db)"

definition insert_member :: "member \<Rightarrow> members_db \<Rightarrow> members_db option" where
  "insert_member r db =
     (if list_ex (\<lambda>q. mbId q = mbId r \<or> map to_lower (mbEmail q) = map to_lower (mbEmail r)) (dbMembers db)
      then None else Some (db\<lparr>dbMembers := dbMembers db @ [r]\<rparr>))"

record member_args =
  maEmail :: string
  maName :: string
  maRole :: string
  maPassword :: "string option"

definition new_member :: "members_env \<Rightarrow> int \<Rightarrow> member_args \<Rightarrow> member_fresh \<Rightarrow> string \<Rightarrow> string \<Rightarrow> member" where
  "new_member env now args fr email password =
     \<lparr>mbId = mfId fr, mbEmail = email, mbName = display_name (maName args),
      mbRole = role_of (maRole args), mbHash = meScrypt env password (mfSalt fr) kScryptParams,
      mbSalt = mfSalt fr, mbParams = kScryptParams, mbSecret = mfSecret fr, mbDisabled = False,
      mbCreatedAt = now, mbUpdatedAt = now\<rparr>"

definition createMember :: "members_env \<Rightarrow> int \<Rightarrow> member_args \<Rightarrow> member_fresh \<Rightarrow> members_db \<Rightarrow>
    (member_error + member_model option) \<times> members_db" where
  "createMember env now args fr db =
     (case assertValidEmail (maEmail args) of
        Inl e \<Rightarrow> (Inl e, db)
      | Inr email \<Rightarrow>
          (if \<not> password_ok (maPassword args) then (Inl WeakPassword, db)
           else if getMemberRowByEmail email db \<noteq> None then (Inl EmailTaken, db)
           else (case insert_member (new_member env now args fr email (the (maPassword args))) db of
                   None \<Rightarrow> (Inl ConstraintFails, db)
                 | Some db' \<Rightarrow> (Inr (map_option toMemberModel (getMemberRowById (mfId fr) db')), db'))))"

definition verifyMemberPassword :: "members_env \<Rightarrow> string \<Rightarrow> string \<Rightarrow> members_db \<Rightarrow> member_model option" where
  "verifyMemberPassword env email password db =
     (case getMemberRowByEmail email db of
        None \<Rightarrow> None
      | Some row \<Rightarrow>
          (if mbDisabled row then None
           else if \<not> verifyPassword env password row then None
           else Some (toMemberModel row)))"

definition getTokenSecret :: "string \<Rightarrow> members_db \<Rightarrow> string option" where
  "getTokenSecret i db =
     (case getMemberRowById i db of
        None \<Rightarrow> None
      | Some row \<Rightarrow> if mbDisabled row then None else Some (mbSecret row))"

definition member_changes :: "string \<Rightarrow> members_db \<Rightarrow> bool" where
  "member_changes i db \<longleftrightarrow> sql_count (\<lambda>r. mbId r = i) (dbMembers db) = 1"

definition rotateTokenSecret :: "int \<Rightarrow> string \<Rightarrow> string \<Rightarrow> members_db \<Rightarrow> bool \<times> members_db" where
  "rotateTokenSecret now i secret db =
     (member_changes i db,
      db\<lparr>dbMembers := sql_update (\<lambda>r. mbId r = i)
           (\<lambda>r. r\<lparr>mbSecret := secret, mbUpdatedAt := now\<rparr>) (dbMembers db)\<rparr>)"

definition setPassword :: "members_env \<Rightarrow> int \<Rightarrow> string \<Rightarrow> string option \<Rightarrow> string \<Rightarrow> members_db \<Rightarrow>
    (member_error + bool) \<times> members_db" where
  "setPassword env now i password salt db =
     (if \<not> password_ok password then (Inl WeakPassword, db)
      else (Inr (member_changes i db),
        db\<lparr>dbMembers := sql_update (\<lambda>r. mbId r = i)
             (\<lambda>r. r\<lparr>mbHash := meScrypt env (the password) salt kScryptParams, mbSalt := salt,
                    mbParams := kScryptParams, mbUpdatedAt := now\<rparr>) (dbMembers db)\<rparr>))"

definition active_admin_row :: "member \<Rightarrow> bool" where
  "active_admin_row r \<longleftrightarrow> mbRole r = AdminRole \<and> \<not> mbDisabled r"

definition countActiveAdmins :: "members_db \<Rightarrow> nat" where
  "countActiveAdmins db = sql_count active_admin_row (dbMembers db)"

definition updateMember :: "int \<Rightarrow> string \<Rightarrow> string option \<Rightarrow> string option \<Rightarrow> bool option \<Rightarrow> members_db \<Rightarrow>
    (member_error + member_model option) \<times> members_db" where
  "updateMember now i rl name disabled db =
     (case getMemberRowById i db of
        None \<Rightarrow> (Inl MemberNotFound, db)
      | Some row \<Rightarrow>
          (let nextRole = (case rl of None \<Rightarrow> mbRole row | Some r \<Rightarrow> role_of r);
               nextDisabled = (case disabled of None \<Rightarrow> mbDisabled row | Some d \<Rightarrow> d);
               losesAdmin = (active_admin_row row \<and> (nextRole \<noteq> AdminRole \<or> nextDisabled)) in
           if losesAdmin \<and> countActiveAdmins db \<le> 1 then (Inl LastAdmin, db)
           else (let db' = db\<lparr>dbMembers := sql_update (\<lambda>r. mbId r = i)
                       (\<lambda>r. r\<lparr>mbRole := nextRole,
                              mbName := (case name of None \<Rightarrow> mbName row | Some n \<Rightarrow> display_name n),
                              mbDisabled := nextDisabled, mbUpdatedAt := now\<rparr>) (dbMembers db)\<rparr> in
                 (Inr (map_option toMemberModel (getMemberRowById i db')), db'))))"

definition removeMember :: "string \<Rightarrow> members_db \<Rightarrow> (member_error + bool) \<times> members_db" where
  "removeMember i db =
     (case getMemberRowById i db of
        None \<Rightarrow> (Inr False, db)
      | Some row \<Rightarrow>
          (if active_admin_row row \<and> countActiveAdmins db \<le> 1 then (Inl LastAdmin, db)
           else (Inr (member_changes i db),
                 db\<lparr>dbMembers := sql_delete (\<lambda>r. mbId r = i) (dbMembers db)\<rparr>)))"

definition listMembers :: "members_db \<Rightarrow> member_model list" where
  "listMembers db = map toMemberModel (sort_key mbCreatedAt (dbMembers db))"

definition getMember :: "string \<Rightarrow> members_db \<Rightarrow> member_model option" where
  "getMember i db = map_option toMemberModel (getMemberRowById i db)"

definition getMemberByEmail :: "string \<Rightarrow> members_db \<Rightarrow> member_model option" where
  "getMemberByEmail email db = map_option toMemberModel (getMemberRowByEmail email db)"

section \<open>Invites\<close>

definition hashInviteToken :: "members_env \<Rightarrow> string \<Rightarrow> string" where
  "hashInviteToken env token = meSha env token"

definition purgeExpiredInvites :: "int \<Rightarrow> members_db \<Rightarrow> nat \<times> members_db" where
  "purgeExpiredInvites now db =
     (let p = (\<lambda>r. inUsedAt r = None \<and> inExpiresAt r \<le> now) in
      (sql_count p (dbInvites db), db\<lparr>dbInvites := sql_delete p (dbInvites db)\<rparr>))"

definition insert_invite :: "invite \<Rightarrow> members_db \<Rightarrow> members_db option" where
  "insert_invite r db =
     (if list_ex (\<lambda>q. inId q = inId r \<or> inHash q = inHash r) (dbInvites db) then None
      else Some (db\<lparr>dbInvites := dbInvites db @ [r]\<rparr>))"

text \<open>\<open>email ? assertValidEmail(email) : null\<close>.\<close>

definition pinned_email :: "string option \<Rightarrow> member_error + string option" where
  "pinned_email email = (case email of None \<Rightarrow> Inr None
     | Some e \<Rightarrow> if e = [] then Inr None else map_sum id Some (assertValidEmail e))"

text \<open>\<open>ttl\<close> is \<open>Number(ttlMs)\<close>, 0 where that is not a number; the answer's \<open>expiresAt\<close> is \<open>now + ttl\<close>
  as the source writes it.\<close>

definition createInvite :: "members_env \<Rightarrow> int \<Rightarrow> string option \<Rightarrow> string \<Rightarrow> string \<Rightarrow> int \<Rightarrow> string \<Rightarrow> string \<Rightarrow>
    members_db \<Rightarrow> (member_error + invite_model \<times> string) \<times> members_db" where
  "createInvite env now email rl createdBy ttl i token db =
     (case pinned_email email of
        Inl x \<Rightarrow> (Inl x, db)
      | Inr pinned \<Rightarrow>
          (let db1 = snd (purgeExpiredInvites now db);
               row = \<lparr>inId = i, inHash = hashInviteToken env token, inEmail = pinned,
                 inRole = role_of rl, inBy = createdBy, inCreatedAt = now,
                 inExpiresAt = now + max 60000 (if ttl = 0 then kDefaultInviteTtlMs else ttl),
                 inUsedAt = None, inUsedBy = None\<rparr> in
           (case insert_invite row db1 of
              None \<Rightarrow> (Inl ConstraintFails, db1)
            | Some db2 \<Rightarrow> (Inr (toInviteModel (row\<lparr>inExpiresAt := now + ttl\<rparr>), token), db2))))"

definition usable :: "int \<Rightarrow> string \<Rightarrow> invite \<Rightarrow> bool" where
  "usable now h r \<longleftrightarrow> inHash r = h \<and> inUsedAt r = None \<and> now < inExpiresAt r"

text \<open>The conditional \<open>UPDATE\<close> that decides the race.\<close>

definition burn_invite :: "int \<Rightarrow> string \<Rightarrow> members_db \<Rightarrow> bool \<times> members_db" where
  "burn_invite now h db =
     (sql_count (usable now h) (dbInvites db) = 1,
      db\<lparr>dbInvites := sql_update (usable now h) (\<lambda>r. r\<lparr>inUsedAt := Some now\<rparr>) (dbInvites db)\<rparr>)"

definition consumeInvite :: "members_env \<Rightarrow> int \<Rightarrow> string \<Rightarrow> members_db \<Rightarrow> invite_model option \<times> members_db" where
  "consumeInvite env now token db =
     (let h = hashInviteToken env token; (won, db') = burn_invite now h db in
      if \<not> won then (None, db')
      else (map_option toInviteModel (find (\<lambda>r. inHash r = h) (dbInvites db')), db'))"

definition set_used_by :: "string \<Rightarrow> string \<Rightarrow> members_db \<Rightarrow> members_db" where
  "set_used_by i m db = db\<lparr>dbInvites := sql_update (\<lambda>r. inId r = i)
     (\<lambda>r. r\<lparr>inUsedBy := Some m\<rparr>) (dbInvites db)\<rparr>"

definition error_code :: "member_error \<Rightarrow> string" where
  "error_code e = (case e of InvalidEmail \<Rightarrow> ''invalid_email'' | WeakPassword \<Rightarrow> ''weak_password''
     | EmailTaken \<Rightarrow> ''email_taken'' | MemberNotFound \<Rightarrow> ''member_not_found'' | LastAdmin \<Rightarrow> ''last_admin''
     | ConstraintFails \<Rightarrow> ''ERR_SQLITE_ERROR'')"

record accept_args =
  aaToken :: string
  aaEmail :: string
  aaPassword :: "string option"
  aaName :: string

datatype accept_result = Accepted member_model invite_model | NotAccepted string

text \<open>
  The clock is read for the peek, for the burn and for the new member: \<open>t1\<close>, \<open>t2\<close>, \<open>t3\<close>. A failure
  after \<open>BEGIN IMMEDIATE\<close> rolls back to the state before it.
\<close>

definition accept_commit :: "members_env \<Rightarrow> int \<Rightarrow> int \<Rightarrow> accept_args \<Rightarrow> member_fresh \<Rightarrow> invite_model \<Rightarrow> string \<Rightarrow>
    members_db \<Rightarrow> accept_result \<times> members_db" where
  "accept_commit env t2 t3 args fr invm email db =
     (let (won, db1) = burn_invite t2 (hashInviteToken env (aaToken args)) db in
      if \<not> won then (NotAccepted ''invite_invalid'', db)
      else (case createMember env t3 \<lparr>maEmail = email, maName = aaName args,
                   maRole = role_text (imRole invm), maPassword = aaPassword args\<rparr> fr db1 of
              (Inr (Some m), db2) \<Rightarrow> (Accepted m invm, set_used_by (imId invm) (mmId m) db2)
            | (Inr None, _) \<Rightarrow> (NotAccepted ''invite_failed'', db)
            | (Inl e, _) \<Rightarrow> (NotAccepted (error_code e), db)))"

definition acceptInvite :: "members_env \<Rightarrow> int \<Rightarrow> int \<Rightarrow> int \<Rightarrow> accept_args \<Rightarrow> member_fresh \<Rightarrow>
    members_db \<Rightarrow> accept_result \<times> members_db" where
  "acceptInvite env t1 t2 t3 args fr db =
     (case find (usable t1 (hashInviteToken env (aaToken args))) (dbInvites db) of
        None \<Rightarrow> (NotAccepted ''invite_invalid'', db)
      | Some peek \<Rightarrow>
          (let invm = toInviteModel peek;
               rawEmail = (case imEmail invm of None \<Rightarrow> aaEmail args | Some e \<Rightarrow> e) in
           if rawEmail = [] then (NotAccepted ''email_required'', db)
           else (case assertValidEmail rawEmail of
                   Inl e \<Rightarrow> (NotAccepted (error_code e), db)
                 | Inr email \<Rightarrow>
                     (if \<not> password_ok (aaPassword args) then (NotAccepted ''weak_password'', db)
                      else if getMemberRowByEmail email db \<noteq> None then (NotAccepted ''email_taken'', db)
                      else accept_commit env t2 t3 args fr invm email db))))"

definition markInviteUsedBy :: "string \<Rightarrow> string \<Rightarrow> members_db \<Rightarrow> members_db" where
  "markInviteUsedBy i m db = set_used_by i m db"

definition listInvites :: "bool \<Rightarrow> members_db \<Rightarrow> invite_model list" where
  "listInvites includeUsed db = map toInviteModel (sort_key (\<lambda>r. - inCreatedAt r)
     (if includeUsed then dbInvites db else filter (\<lambda>r. inUsedAt r = None) (dbInvites db)))"

definition deleteInvite :: "string \<Rightarrow> members_db \<Rightarrow> bool \<times> members_db" where
  "deleteInvite i db = (sql_count (\<lambda>r. inId r = i) (dbInvites db) = 1,
     db\<lparr>dbInvites := sql_delete (\<lambda>r. inId r = i) (dbInvites db)\<rparr>)"

section \<open>The store as a machine\<close>

datatype member_op =
    CreateMember int member_args member_fresh
  | RotateTokenSecret int string string
  | SetPassword int string "string option" string
  | UpdateMember int string "string option" "string option" "bool option"
  | RemoveMember string
  | CreateInvite int "string option" string string int string string
  | ConsumeInvite int string
  | AcceptInvite int int int accept_args member_fresh
  | MarkInviteUsedBy string string
  | DeleteInvite string
  | PurgeExpiredInvites int

fun members_step :: "members_env \<Rightarrow> members_db \<Rightarrow> member_op \<Rightarrow> members_db" where
  "members_step env db (CreateMember now args fr) = snd (createMember env now args fr db)"
| "members_step env db (RotateTokenSecret now i secret) = snd (rotateTokenSecret now i secret db)"
| "members_step env db (SetPassword now i pw salt) = snd (setPassword env now i pw salt db)"
| "members_step env db (UpdateMember now i rl name dis) = snd (updateMember now i rl name dis db)"
| "members_step env db (RemoveMember i) = snd (removeMember i db)"
| "members_step env db (CreateInvite now email rl createdBy ttl i token) =
     snd (createInvite env now email rl createdBy ttl i token db)"
| "members_step env db (ConsumeInvite now token) = snd (consumeInvite env now token db)"
| "members_step env db (AcceptInvite t1 t2 t3 args fr) = snd (acceptInvite env t1 t2 t3 args fr db)"
| "members_step env db (MarkInviteUsedBy i m) = markInviteUsedBy i m db"
| "members_step env db (DeleteInvite i) = snd (deleteInvite i db)"
| "members_step env db (PurgeExpiredInvites now) = snd (purgeExpiredInvites now db)"

section \<open>Well-formed tables\<close>

definition stored_email :: "string \<Rightarrow> bool" where
  "stored_email e \<longleftrightarrow> kEmailPattern e \<and> map to_lower e = e \<and> length e \<le> 254"

definition members_wf :: "members_db \<Rightarrow> bool" where
  "members_wf db \<longleftrightarrow> distinct (map mbId (dbMembers db)) \<and> distinct (map mbEmail (dbMembers db))
     \<and> list_all (stored_email \<circ> mbEmail) (dbMembers db)
     \<and> distinct (map inId (dbInvites db)) \<and> distinct (map inHash (dbInvites db))
     \<and> list_all (\<lambda>r. case inEmail r of None \<Rightarrow> True | Some e \<Rightarrow> stored_email e) (dbInvites db)"

definition active_admin :: "members_db \<Rightarrow> bool" where
  "active_admin db \<longleftrightarrow> list_ex active_admin_row (dbMembers db)"

lemma active_admin_count: "active_admin db \<longleftrightarrow> 0 < countActiveAdmins db"
proof -
  have "\<not> active_admin db \<longleftrightarrow> countActiveAdmins db = 0"
    by (simp add: active_admin_def countActiveAdmins_def sql_count_eq_0 list_ex_iff)
  then show ?thesis by auto
qed

text \<open>Lowercasing keeps an address valid: its characters are ASCII before and after.\<close>

lemma to_lower_at [simp]: "to_lower c = CHR ''@'' \<longleftrightarrow> c = CHR ''@''"
  by (auto simp: to_lower_def of_char_of take_bit_eq_mod dest: arg_cong [where f = "of_char :: char \<Rightarrow> nat"])

lemma to_lower_dot [simp]: "to_lower c = CHR ''.'' \<longleftrightarrow> c = CHR ''.''"
  by (auto simp: to_lower_def dest: arg_cong [where f = "of_char :: char \<Rightarrow> nat"])

lemma to_lower_idem [simp]: "to_lower (to_lower c) = to_lower c"
  by (simp add: to_lower_def)

lemma email_char_lower: "email_char c \<Longrightarrow> email_char (to_lower c)"
  by (auto simp: email_char_def to_lower_def)

lemma split_at_char_map:
  "(\<And>x. f x = c \<longleftrightarrow> x = c) \<Longrightarrow> split_at_char c (map f s) = map (map f) (split_at_char c s)"
  by (induction s) (auto split: list.splits)

text \<open>The language of the pattern: a local part, \<open>@\<close>, and two parts of a domain around a dot.\<close>

lemma email_char_not_at: "email_char c \<Longrightarrow> c \<noteq> CHR ''@''"
  by (auto simp: email_char_def)

lemma dot_inside: "CHR ''.'' \<in> set (butlast (tl d)) \<longleftrightarrow> (\<exists>a b. d = a @ CHR ''.'' # b \<and> a \<noteq> [] \<and> b \<noteq> [])"
proof
  assume "CHR ''.'' \<in> set (butlast (tl d))"
  then obtain x y where xy: "butlast (tl d) = x @ CHR ''.'' # y" by (auto simp: in_set_conv_decomp)
  then have "tl d \<noteq> []" by auto
  then have "tl d = butlast (tl d) @ [last (tl d)]" by simp
  then have "d = (hd d # x) @ CHR ''.'' # (y @ [last (tl d)])"
    using xy \<open>tl d \<noteq> []\<close> by (cases d) auto
  then show "\<exists>a b. d = a @ CHR ''.'' # b \<and> a \<noteq> [] \<and> b \<noteq> []" by blast
next
  assume "\<exists>a b. d = a @ CHR ''.'' # b \<and> a \<noteq> [] \<and> b \<noteq> []"
  then obtain a b where "d = a @ CHR ''.'' # b" "a \<noteq> []" "b \<noteq> []" by blast
  then show "CHR ''.'' \<in> set (butlast (tl d))" by (cases a) (auto simp: butlast_append)
qed

lemma kEmailPattern_iff:
  "kEmailPattern s \<longleftrightarrow> (\<exists>l d t. s = l @ CHR ''@'' # d @ CHR ''.'' # t \<and> l \<noteq> [] \<and> d \<noteq> [] \<and> t \<noteq> []
     \<and> list_all email_char (l @ d @ t))"
proof
  assume k: "kEmailPattern s"
  then obtain l d where sp: "split_at_char CHR ''@'' s = [l, d]"
    and p: "l \<noteq> []" "list_all email_char l" "list_all email_char d"
      "CHR ''.'' \<in> set (butlast (tl d))"
    by (auto simp: kEmailPattern_def split: list.splits)
  from p(4) obtain a b where d: "d = a @ CHR ''.'' # b" "a \<noteq> []" "b \<noteq> []"
    unfolding dot_inside by blast
  have "s = l @ CHR ''@'' # a @ CHR ''.'' # b" using split_at_char_join [OF sp] d(1) by simp
  moreover have "list_all email_char (l @ a @ b)" using p d(1) by simp
  ultimately show "\<exists>l d t. s = l @ CHR ''@'' # d @ CHR ''.'' # t \<and> l \<noteq> [] \<and> d \<noteq> [] \<and> t \<noteq> []
     \<and> list_all email_char (l @ d @ t)" using p(1) d(2,3) by blast
next
  assume "\<exists>l d t. s = l @ CHR ''@'' # d @ CHR ''.'' # t \<and> l \<noteq> [] \<and> d \<noteq> [] \<and> t \<noteq> []
     \<and> list_all email_char (l @ d @ t)"
  then obtain l d t where s: "s = l @ CHR ''@'' # (d @ CHR ''.'' # t)" and "l \<noteq> []" "d \<noteq> []" "t \<noteq> []"
    and all: "list_all email_char (l @ d @ t)" by blast
  have "CHR ''@'' \<notin> set l" "CHR ''@'' \<notin> set (d @ CHR ''.'' # t)"
    using all email_char_not_at by (fastforce simp: list_all_iff)+
  then have "split_at_char CHR ''@'' s = [l, d @ CHR ''.'' # t]"
    unfolding s by (simp add: split_at_char_append split_at_char_none)
  moreover have "email_char CHR ''.''" by (simp add: email_char_def)
  ultimately show "kEmailPattern s"
    using all dot_inside [of "d @ CHR ''.'' # t"] \<open>l \<noteq> []\<close> \<open>d \<noteq> []\<close> \<open>t \<noteq> []\<close>
    by (auto simp: kEmailPattern_def)
qed

lemma kEmailPattern_lower: "kEmailPattern s \<Longrightarrow> kEmailPattern (map to_lower s)"
proof -
  assume "kEmailPattern s"
  then obtain l d t where s: "s = l @ CHR ''@'' # d @ CHR ''.'' # t" "l \<noteq> []" "d \<noteq> []" "t \<noteq> []"
    "list_all email_char (l @ d @ t)" unfolding kEmailPattern_iff by blast
  have "map to_lower s = map to_lower l @ CHR ''@'' # map to_lower d @ CHR ''.'' # map to_lower t"
    using s(1) by (simp add: to_lower_def)
  moreover have "list_all email_char (map to_lower l @ map to_lower d @ map to_lower t)"
    using s(5) by (auto simp: list_all_iff intro: email_char_lower)
  ultimately show ?thesis unfolding kEmailPattern_iff using s(2,3,4) by blast
qed

lemma email_char_not_space: "email_char c \<Longrightarrow> \<not> js_space c"
  by (auto simp: email_char_def js_space_def)

lemma kEmailPattern_chars: "kEmailPattern s \<Longrightarrow> c \<in> set s \<Longrightarrow> \<not> js_space c"
  unfolding kEmailPattern_iff using email_char_not_space by (fastforce simp: list_all_iff js_space_def)

lemma dropWhile_none: "\<forall>c \<in> set s. \<not> p c \<Longrightarrow> dropWhile p s = s"
  by (cases s) auto

lemma js_trim_stored: "kEmailPattern e \<Longrightarrow> js_trim e = e"
  using kEmailPattern_chars [of e] by (simp add: js_trim_def dropWhile_none)

lemma assertValidEmail_stored: "assertValidEmail e = Inr v \<Longrightarrow> stored_email v"
  by (auto simp: assertValidEmail_def stored_email_def Let_def intro: kEmailPattern_lower split: if_splits)

lemma members_wf_update_members:
  assumes "members_wf db" and "\<And>r. mbId (f r) = mbId r" and "\<And>r. mbEmail (f r) = mbEmail r"
  shows "members_wf (db\<lparr>dbMembers := sql_update p f (dbMembers db)\<rparr>)"
  using assms by (simp add: members_wf_def map_sql_update_key list_all_iff ball_sql_update)

lemma members_wf_update_invites:
  assumes "members_wf db" and "\<And>r. inId (f r) = inId r" and "\<And>r. inHash (f r) = inHash r"
    and "\<And>r. inEmail (f r) = inEmail r"
  shows "members_wf (db\<lparr>dbInvites := sql_update p f (dbInvites db)\<rparr>)"
  using assms by (simp add: members_wf_def map_sql_update_key list_all_iff ball_sql_update)

lemma members_wf_delete_members: "members_wf db \<Longrightarrow> members_wf (db\<lparr>dbMembers := sql_delete p (dbMembers db)\<rparr>)"
  by (simp add: members_wf_def distinct_key_sql_delete list_all_iff ball_sql_delete)

lemma members_wf_delete_invites: "members_wf db \<Longrightarrow> members_wf (db\<lparr>dbInvites := sql_delete p (dbInvites db)\<rparr>)"
  by (simp add: members_wf_def distinct_key_sql_delete list_all_iff ball_sql_delete)

lemmas members_wf_sql = members_wf_update_members members_wf_update_invites
  members_wf_delete_members members_wf_delete_invites

lemma insert_member_wf:
  assumes wf: "members_wf db" and e: "stored_email (mbEmail r)" and i: "insert_member r db = Some db'"
  shows "members_wf db'"
proof -
  have fresh: "\<forall>q \<in> set (dbMembers db). mbId q \<noteq> mbId r \<and> map to_lower (mbEmail q) \<noteq> map to_lower (mbEmail r)"
    and db': "db' = db\<lparr>dbMembers := dbMembers db @ [r]\<rparr>"
    using i by (auto simp: insert_member_def list_ex_iff split: if_splits)
  then show ?thesis using wf e by (auto simp: members_wf_def image_iff)
qed

lemma insert_invite_wf:
  assumes "members_wf db" and "case inEmail r of None \<Rightarrow> True | Some e \<Rightarrow> stored_email e"
    and "insert_invite r db = Some db'"
  shows "members_wf db'"
proof -
  have "\<forall>q \<in> set (dbInvites db). inId q \<noteq> inId r \<and> inHash q \<noteq> inHash r"
    and "db' = db\<lparr>dbInvites := dbInvites db @ [r]\<rparr>"
    using assms(3) by (auto simp: insert_invite_def list_ex_iff split: if_splits)
  then show ?thesis using assms(1,2) by (auto simp: members_wf_def image_iff)
qed

text \<open>What \<open>createMember\<close> answers: an error and nothing changed, or the one new row.\<close>

lemma createMember_cases:
  assumes "createMember env now args fr db = (r, t)"
  obtains (error) e where "r = Inl e" "t = db"
  | (created) email pw where "assertValidEmail (maEmail args) = Inr email" "maPassword args = Some pw"
      "8 \<le> length pw" "getMemberRowByEmail email db = None"
      "insert_member (new_member env now args fr email pw) db = Some t"
      "t = db\<lparr>dbMembers := dbMembers db @ [new_member env now args fr email pw]\<rparr>"
      "r = Inr (Some (toMemberModel (new_member env now args fr email pw)))"
proof (cases "\<exists>e. r = Inl e")
  case True
  then show ?thesis using assms
    by (intro error [of "projl r"]) (auto simp: createMember_def split: sum.splits if_splits option.splits)
next
  case False
  then obtain email where e: "assertValidEmail (maEmail args) = Inr email" and pw: "password_ok (maPassword args)"
    and none: "getMemberRowByEmail email db = None"
    and ins: "insert_member (new_member env now args fr email (the (maPassword args))) db = Some t"
    and r: "r = Inr (map_option toMemberModel (getMemberRowById (mfId fr) t))"
    using assms by (auto simp: createMember_def split: sum.splits if_splits option.splits)
  from pw obtain p where p: "maPassword args = Some p" "8 \<le> length p"
    by (auto simp: password_ok_def split: option.splits)
  let ?row = "new_member env now args fr email p"
  have t: "t = db\<lparr>dbMembers := dbMembers db @ [?row]\<rparr>"
    and fresh: "\<forall>q \<in> set (dbMembers db). mbId q \<noteq> mfId fr"
    using ins p by (auto simp: insert_member_def list_ex_iff new_member_def split: if_splits)
  have "find (\<lambda>q. mbId q = mfId fr) (dbMembers db @ [?row]) = Some ?row"
    using fresh by (intro find_snoc) (auto simp: new_member_def)
  then have "getMemberRowById (mfId fr) t = Some ?row" by (simp add: getMemberRowById_def t)
  then show ?thesis using e p none ins t r by (intro created) auto
qed

lemma createMember_wf: "members_wf db \<Longrightarrow> createMember env now args fr db = (r, t) \<Longrightarrow> members_wf t"
proof (erule createMember_cases, simp)
  fix email pw
  assume wf: "members_wf db" and e: "assertValidEmail (maEmail args) = Inr email"
    and ins: "insert_member (new_member env now args fr email pw) db = Some t"
  show "members_wf t"
    by (rule insert_member_wf [OF wf _ ins]) (use assertValidEmail_stored [OF e] in \<open>simp add: new_member_def\<close>)
qed

lemma burn_invite_frame:
  assumes "burn_invite now h db = (b, t)"
  shows "members_wf db \<Longrightarrow> members_wf t" and "dbMembers t = dbMembers db"
    and "t = db\<lparr>dbInvites := sql_update (usable now h) (\<lambda>r. r\<lparr>inUsedAt := Some now\<rparr>) (dbInvites db)\<rparr>"
    and "b \<longleftrightarrow> sql_count (usable now h) (dbInvites db) = 1"
  using assms by (auto simp: burn_invite_def intro: members_wf_sql)

text \<open>What \<open>acceptInvite\<close> answers: a refusal that changed nothing, or one member for one invite.\<close>

lemma acceptInvite_cases:
  assumes "acceptInvite env t1 t2 t3 args fr db = (r, t)"
  obtains (refused) code where "r = NotAccepted code" "t = db"
  | (accepted) peek email pw db1 db2 margs where
      "find (usable t1 (hashInviteToken env (aaToken args))) (dbInvites db) = Some peek"
      "assertValidEmail (case inEmail peek of None \<Rightarrow> aaEmail args | Some e \<Rightarrow> e) = Inr email"
      "getMemberRowByEmail email db = None"
      "burn_invite t2 (hashInviteToken env (aaToken args)) db = (True, db1)"
      "margs = \<lparr>maEmail = email, maName = aaName args, maRole = role_text (inRole peek),
         maPassword = aaPassword args\<rparr>"
      "aaPassword args = Some pw" "8 \<le> length pw"
      "createMember env t3 margs fr db1 = (Inr (Some (toMemberModel (new_member env t3 margs fr email pw))), db2)"
      "db2 = db1\<lparr>dbMembers := dbMembers db @ [new_member env t3 margs fr email pw]\<rparr>"
      "insert_member (new_member env t3 margs fr email pw) db1 = Some db2"
      "t = set_used_by (inId peek) (mfId fr) db2"
      "r = Accepted (toMemberModel (new_member env t3 margs fr email pw)) (toInviteModel peek)"
proof (cases "\<exists>code. r = NotAccepted code")
  case True
  then show ?thesis using assms
    by (elim exE, intro refused)
      (auto simp: acceptInvite_def accept_commit_def Let_def split: sum.splits if_splits option.splits prod.splits)
next
  case False
  then obtain peek email where p: "find (usable t1 (hashInviteToken env (aaToken args))) (dbInvites db) = Some peek"
    and e: "assertValidEmail (case inEmail peek of None \<Rightarrow> aaEmail args | Some e \<Rightarrow> e) = Inr email"
    and n: "getMemberRowByEmail email db = None"
    and c: "accept_commit env t2 t3 args fr (toInviteModel peek) email db = (r, t)"
    using assms
    by (auto simp: acceptInvite_def Let_def toInviteModel_def split: sum.splits if_splits option.splits)
  obtain b db1 where b: "burn_invite t2 (hashInviteToken env (aaToken args)) db = (b, db1)" by fastforce
  define margs where "margs = \<lparr>maEmail = email, maName = aaName args, maRole = role_text (inRole peek),
         maPassword = aaPassword args\<rparr>"
  obtain q db2 where m: "createMember env t3 margs fr db1 = (q, db2)" by fastforce
  have sel: "imRole (toInviteModel peek) = inRole peek" "imId (toInviteModel peek) = inId peek"
    by (simp_all add: toInviteModel_def)
  have c': "(if \<not> b then (NotAccepted ''invite_invalid'', db)
      else (case (q, db2) of
              (Inr (Some m), db2) \<Rightarrow> (Accepted m (toInviteModel peek), set_used_by (inId peek) (mmId m) db2)
            | (Inr None, _) \<Rightarrow> (NotAccepted ''invite_failed'', db)
            | (Inl e, _) \<Rightarrow> (NotAccepted (error_code e), db))) = (r, t)"
    using c unfolding accept_commit_def b sel Let_def prod.case margs_def [symmetric] m .
  then have b': b and "\<exists>m. q = Inr (Some m)" using False
    by (auto split: if_splits sum.splits option.splits)
  then obtain mm where q: "q = Inr (Some mm)" by blast
  have r: "r = Accepted mm (toInviteModel peek)" "t = set_used_by (inId peek) (mmId mm) db2"
    using c' b' q by simp_all
  from m show ?thesis
  proof (cases rule: createMember_cases)
    case (created email' pw)
    have "stored_email email" using assertValidEmail_stored [OF e] .
    moreover have "assertValidEmail email = Inr email'" using created(1) by (simp add: margs_def)
    ultimately have "email' = email"
      by (auto simp: assertValidEmail_def stored_email_def Let_def js_trim_stored split: if_splits)
    then show ?thesis using p e n b b' created r q m burn_invite_frame(2) [OF b]
      by (intro accepted [OF p e n, of db1 margs pw db2])
        (auto simp: margs_def toMemberModel_def new_member_def)
  qed (use q in simp)
qed

section \<open>What every operation keeps\<close>

lemma set_used_by_wf: "members_wf db \<Longrightarrow> members_wf (set_used_by i m db)"
  unfolding set_used_by_def by (rule members_wf_sql) simp_all

lemma purge_wf: "members_wf db \<Longrightarrow> members_wf (snd (purgeExpiredInvites now db))"
  by (simp add: purgeExpiredInvites_def Let_def members_wf_sql)

lemma acceptInvite_wf:
  assumes "members_wf db" and "acceptInvite env t1 t2 t3 args fr db = (r, t)"
  shows "members_wf t"
  using assms(2)
proof (cases rule: acceptInvite_cases)
  case (accepted peek email pw db1 db2 margs)
  have "members_wf db1" using burn_invite_frame(1) [OF accepted(4)] assms(1) .
  then have "members_wf db2" using accepted(8) by (rule createMember_wf)
  then show ?thesis using accepted(11) set_used_by_wf by blast
qed (use assms in simp)

lemma pinned_email_stored: "pinned_email email = Inr p \<Longrightarrow> case p of None \<Rightarrow> True | Some e \<Rightarrow> stored_email e"
proof (cases email)
  case (Some e)
  assume "pinned_email email = Inr p"
  then show ?thesis using assertValidEmail_stored [of e]
    by (cases "assertValidEmail e") (auto simp: pinned_email_def Some split: if_splits)
qed (auto simp: pinned_email_def)

text \<open>How \<open>createInvite\<close> ends: the purge, and maybe one new invite.\<close>

lemma createInvite_cases:
  assumes "createInvite env now email rl by ttl i token db = (r, t)"
  obtains (invalid) "t = db"
  | (purged) "t = snd (purgeExpiredInvites now db)"
  | (minted) row where "insert_invite row (snd (purgeExpiredInvites now db)) = Some t"
      "inHash row = hashInviteToken env token" "inUsedAt row = None" "inRole row = role_of rl"
      "now + 60000 \<le> inExpiresAt row"
      "case inEmail row of None \<Rightarrow> True | Some e \<Rightarrow> stored_email e"
proof (cases "pinned_email email")
  case (Inl x)
  have "t = db" using assms unfolding createInvite_def Inl sum.case by (rule Pair_inject) simp
  then show ?thesis by (rule invalid)
next
  case p: (Inr pinned)
  then have ok: "case pinned of None \<Rightarrow> True | Some e \<Rightarrow> stored_email e" by (rule pinned_email_stored)
  let ?row = "\<lparr>inId = i, inHash = hashInviteToken env token, inEmail = pinned,
      inRole = role_of rl, inBy = by, inCreatedAt = now,
      inExpiresAt = now + max 60000 (if ttl = 0 then kDefaultInviteTtlMs else ttl),
      inUsedAt = None, inUsedBy = None\<rparr>"
  show ?thesis
  proof (cases "insert_invite ?row (snd (purgeExpiredInvites now db))")
    case None
    have "t = snd (purgeExpiredInvites now db)"
      using assms unfolding createInvite_def p sum.case Let_def None option.case by simp
    then show ?thesis by (rule purged)
  next
    case (Some u)
    have "u = t" using assms unfolding createInvite_def p sum.case Let_def Some option.case by simp
    then show ?thesis using Some ok by (intro minted [of ?row]) simp_all
  qed
qed

lemma createInvite_wf:
  assumes "members_wf db" and "createInvite env now email rl by ttl i token db = (r, t)"
  shows "members_wf t"
  using assms(2)
proof (cases rule: createInvite_cases)
  case (minted row)
  show ?thesis by (rule insert_invite_wf [OF purge_wf [OF assms(1)] minted(6) minted(1)])
qed (use assms purge_wf in auto)

lemma members_step_wf: "members_wf db \<Longrightarrow> members_wf (members_step env db a)"
proof (cases a)
  case (CreateMember now args fr)
  then show "members_wf db \<Longrightarrow> ?thesis" by (metis createMember_wf members_step.simps(1) prod.collapse)
next
  case (CreateInvite now email rl createdBy ttl i token)
  then show "members_wf db \<Longrightarrow> ?thesis" by (metis createInvite_wf members_step.simps(6) prod.collapse)
next
  case (AcceptInvite t1 t2 t3 args fr)
  then show "members_wf db \<Longrightarrow> ?thesis" by (metis acceptInvite_wf members_step.simps(8) prod.collapse)
qed (auto simp: rotateTokenSecret_def setPassword_def updateMember_def removeMember_def Let_def
    consumeInvite_def markInviteUsedBy_def deleteInvite_def
    intro: members_wf_sql set_used_by_wf burn_invite_frame purge_wf split: option.splits prod.splits)

lemma row_by_id_unique:
  assumes "members_wf db" and "getMemberRowById i db = Some row" and "r \<in> set (dbMembers db)" and "mbId r = i"
  shows "r = row"
proof -
  have "row \<in> set (dbMembers db)" "mbId row = i"
    using find_Some_set [OF assms(2) [unfolded getMemberRowById_def]] by auto
  moreover have "inj_on mbId (set (dbMembers db))" using assms(1) by (simp add: members_wf_def distinct_map)
  ultimately show ?thesis using assms(3,4) by (auto dest: inj_onD)
qed

lemma updateMember_keeps_admin:
  assumes wf: "members_wf db" and ad: "active_admin db"
  shows "active_admin (snd (updateMember now i rl name dis db))"
proof (cases "getMemberRowById i db")
  case (Some row)
  define nextRole where "nextRole = (case rl of None \<Rightarrow> mbRole row | Some r \<Rightarrow> role_of r)"
  define nextDis where "nextDis = (case dis of None \<Rightarrow> mbDisabled row | Some d \<Rightarrow> d)"
  define loses where "loses \<longleftrightarrow> active_admin_row row \<and> (nextRole \<noteq> AdminRole \<or> nextDis)"
  let ?f = "\<lambda>r. r\<lparr>mbRole := nextRole, mbName := (case name of None \<Rightarrow> mbName row | Some n \<Rightarrow> display_name n),
      mbDisabled := nextDis, mbUpdatedAt := now\<rparr>"
  let ?rows = "sql_update (\<lambda>r. mbId r = i) ?f (dbMembers db)"
  have up: "snd (updateMember now i rl name dis db)
      = (if loses \<and> countActiveAdmins db \<le> 1 then db else db\<lparr>dbMembers := ?rows\<rparr>)"
    unfolding updateMember_def Some option.case Let_def nextRole_def [symmetric] nextDis_def [symmetric]
      loses_def [symmetric] by (simp only: if_distrib [of snd] snd_conv)
  have "0 < sql_count active_admin_row ?rows" if "\<not> (loses \<and> countActiveAdmins db \<le> 1)"
  proof (cases loses)
    case True
    have "countActiveAdmins db \<le> sql_count active_admin_row ?rows + 1"
      using wf unfolding countActiveAdmins_def members_wf_def by (intro sql_count_update_key) simp
    then show ?thesis using that True by simp
  next
    case False
    have "sql_count active_admin_row (dbMembers db) \<le> sql_count active_admin_row ?rows"
    proof (rule sql_count_update_mono)
      fix r assume r: "r \<in> set (dbMembers db)" "active_admin_row r"
      show "active_admin_row (if mbId r = i then ?f r else r)"
      proof (cases "mbId r = i")
        case True
        then have "r = row" using row_by_id_unique [OF wf Some] r by simp
        then show ?thesis using r False True by (auto simp: loses_def active_admin_row_def)
      qed (use r in simp)
    qed
    then show ?thesis using ad by (simp add: active_admin_count countActiveAdmins_def)
  qed
  then show ?thesis using ad unfolding up by (simp add: active_admin_count countActiveAdmins_def)
qed (use ad in \<open>simp add: updateMember_def\<close>)

lemma removeMember_keeps_admin:
  assumes wf: "members_wf db" and ad: "active_admin db"
  shows "active_admin (snd (removeMember i db))"
proof (cases "getMemberRowById i db")
  case (Some row)
  let ?rows = "sql_delete (\<lambda>r. mbId r = i) (dbMembers db)"
  have rm: "snd (removeMember i db) = (if active_admin_row row \<and> countActiveAdmins db \<le> 1 then db
      else db\<lparr>dbMembers := ?rows\<rparr>)" by (simp add: removeMember_def Some)
  have "0 < sql_count active_admin_row ?rows" if no: "\<not> (active_admin_row row \<and> countActiveAdmins db \<le> 1)"
  proof (cases "active_admin_row row")
    case True
    have "countActiveAdmins db \<le> sql_count active_admin_row ?rows + 1"
      using wf unfolding countActiveAdmins_def members_wf_def by (intro sql_count_delete_key) simp
    then show ?thesis using no True by simp
  next
    case False
    obtain r where r: "r \<in> set (dbMembers db)" "active_admin_row r" using ad by (auto simp: active_admin_def list_ex_iff)
    then have "mbId r \<noteq> i" using row_by_id_unique [OF wf Some, of r] False by auto
    then show ?thesis using r by (intro sql_count_pos [of r]) (auto simp: set_sql_delete)
  qed
  then show ?thesis using ad unfolding rm by (simp add: active_admin_count countActiveAdmins_def)
qed (use ad in \<open>simp add: removeMember_def\<close>)

lemma active_admin_mono:
  "active_admin db \<Longrightarrow> set (dbMembers db) \<subseteq> set (dbMembers t) \<Longrightarrow> active_admin t"
  by (auto simp: active_admin_def list_ex_iff)

lemma active_admin_update:
  "active_admin db \<Longrightarrow> (\<And>r. active_admin_row (f r) = active_admin_row r) \<Longrightarrow>
     active_admin (db\<lparr>dbMembers := sql_update p f (dbMembers db)\<rparr>)"
  by (auto simp: active_admin_def list_ex_iff bex_sql_update split: if_splits)

lemma invites_only:
  "dbMembers (snd (purgeExpiredInvites now db)) = dbMembers db" "dbMembers (set_used_by i m db) = dbMembers db"
  "dbMembers (snd (deleteInvite i db)) = dbMembers db" "dbMembers (snd (consumeInvite env now tok db)) = dbMembers db"
  "dbMembers (snd (createInvite env now email rl by ttl i tok db)) = dbMembers db"
  by (auto simp: purgeExpiredInvites_def Let_def set_used_by_def deleteInvite_def consumeInvite_def
      burn_invite_def createInvite_def insert_invite_def split: sum.splits option.splits)

lemma members_step_admin: "members_wf db \<Longrightarrow> active_admin db \<Longrightarrow> active_admin (members_step env db a)"
proof (cases a)
  case (CreateMember now args fr)
  obtain r t where c: "createMember env now args fr db = (r, t)" by fastforce
  then have "set (dbMembers db) \<subseteq> set (dbMembers t)" by (cases rule: createMember_cases) auto
  then show "active_admin db \<Longrightarrow> ?thesis" unfolding CreateMember using c by (simp add: active_admin_mono)
next
  case (AcceptInvite t1 t2 t3 args fr)
  obtain r t where a: "acceptInvite env t1 t2 t3 args fr db = (r, t)" by fastforce
  then have "set (dbMembers db) \<subseteq> set (dbMembers t)"
    by (cases rule: acceptInvite_cases) (auto simp: invites_only)
  then show "active_admin db \<Longrightarrow> ?thesis" unfolding AcceptInvite using a by (simp add: active_admin_mono)
qed (auto simp: rotateTokenSecret_def setPassword_def markInviteUsedBy_def invites_only active_admin_row_def
    intro: active_admin_update active_admin_mono updateMember_keeps_admin removeMember_keeps_admin)

interpretation admins: machine "members_step env" "\<lambda>db. members_wf db \<and> active_admin db" "\<lambda>_. True" for env
  by unfold_locales (simp add: members_step_wf members_step_admin)

lemma all_allowed [simp]: "list_all (\<lambda>_. True) xs"
  by (simp add: list_all_iff)

section \<open>An invite is redeemed once\<close>

definition invite_live :: "members_db \<Rightarrow> string \<Rightarrow> bool" where
  "invite_live db h \<longleftrightarrow> list_ex (\<lambda>r. inHash r = h \<and> inUsedAt r = None) (dbInvites db)"

text \<open>The token hash an operation redeems, if it does.\<close>

fun redeemed_invite :: "members_env \<Rightarrow> members_db \<Rightarrow> member_op \<Rightarrow> string option" where
  "redeemed_invite env db (ConsumeInvite now token) =
     map_option (\<lambda>_. hashInviteToken env token) (fst (consumeInvite env now token db))"
| "redeemed_invite env db (AcceptInvite t1 t2 t3 args fr) =
     (case fst (acceptInvite env t1 t2 t3 args fr db) of
        Accepted _ _ \<Rightarrow> Some (hashInviteToken env (aaToken args)) | NotAccepted _ \<Rightarrow> None)"
| "redeemed_invite env db _ = None"

definition invite_act :: "members_env \<Rightarrow> members_db \<Rightarrow> member_op \<Rightarrow> members_db \<times> string option" where
  "invite_act env db a = (members_step env db a, redeemed_invite env db a)"

fun mints_invite :: "members_env \<Rightarrow> member_op \<Rightarrow> string list" where
  "mints_invite env (CreateInvite now email rl by ttl i token) = [hashInviteToken env token]"
| "mints_invite env _ = []"

lemma burn_spends:
  assumes wf: "members_wf db" and b: "burn_invite now h db = (b, t)"
  shows "invite_live t k \<Longrightarrow> invite_live db k" and "b \<Longrightarrow> invite_live db h \<and> \<not> invite_live t h"
proof -
  have t: "dbInvites t = sql_update (usable now h) (\<lambda>r. r\<lparr>inUsedAt := Some now\<rparr>) (dbInvites db)"
    using burn_invite_frame(3) [OF b] by simp
  show "invite_live t k \<Longrightarrow> invite_live db k"
    by (auto simp: invite_live_def list_ex_iff t bex_sql_update split: if_splits)
  assume b
  then have "sql_count (usable now h) (dbInvites db) \<noteq> 0" using burn_invite_frame(4) [OF b] by simp
  then obtain r where r: "r \<in> set (dbInvites db)" "usable now h r" unfolding sql_count_eq_0 by blast
  have "inj_on inHash (set (dbInvites db))" using wf by (simp add: members_wf_def distinct_map)
  then have "\<forall>q \<in> set (dbInvites db). inHash q = h \<longrightarrow> usable now h q"
    using r by (metis inj_onD usable_def)
  then show "invite_live db h \<and> \<not> invite_live t h" using r
    by (auto simp: invite_live_def list_ex_iff t bex_sql_update usable_def split: if_splits)
qed

lemma consumeInvite_redeems:
  "redeemed_invite env db (ConsumeInvite now tok) = Some h \<Longrightarrow>
     h = hashInviteToken env tok \<and> fst (burn_invite now h db)"
  by (auto simp: consumeInvite_def Let_def split: prod.splits if_splits)

lemma acceptInvite_redeems:
  assumes "redeemed_invite env db (AcceptInvite t1 t2 t3 args fr) = Some h"
  shows "h = hashInviteToken env (aaToken args) \<and> fst (burn_invite t2 h db)
     \<and> invite_live (snd (acceptInvite env t1 t2 t3 args fr db)) = invite_live (snd (burn_invite t2 h db))"
proof -
  obtain r t where a: "acceptInvite env t1 t2 t3 args fr db = (r, t)" by fastforce
  have r: "\<nexists>code. r = NotAccepted code" and h: "h = hashInviteToken env (aaToken args)"
    using assms by (auto simp: a split: accept_result.splits)
  from a show ?thesis
  proof (cases rule: acceptInvite_cases)
    case (accepted peek email pw db1 db2 margs)
    then have "invite_live t = invite_live db1"
      by (auto simp: fun_eq_iff invite_live_def list_ex_iff set_used_by_def bex_sql_update split: if_splits)
    then show ?thesis using accepted(4) h a by simp
  qed (use r in simp)
qed

lemma insert_invite_live:
  "insert_invite r db = Some t \<Longrightarrow> invite_live t k \<longleftrightarrow> invite_live db k \<or> (inHash r = k \<and> inUsedAt r = None)"
  by (auto simp: insert_invite_def invite_live_def split: if_splits)

lemma purge_live: "invite_live (snd (purgeExpiredInvites now db)) k \<Longrightarrow> invite_live db k"
  by (auto simp: purgeExpiredInvites_def Let_def invite_live_def list_ex_iff bex_sql_delete)

lemma createInvite_live:
  assumes "invite_live (snd (createInvite env now email rl by ttl i tok db)) k"
  shows "invite_live db k \<or> k = hashInviteToken env tok"
proof -
  obtain r t where c: "createInvite env now email rl by ttl i tok db = (r, t)" by fastforce
  then have "invite_live t k \<Longrightarrow> ?thesis"
    by (cases rule: createInvite_cases) (auto simp: insert_invite_live dest: purge_live)
  then show ?thesis using assms c by simp
qed

text \<open>Only \<open>createInvite\<close> makes a hash live, and only the hash it draws.\<close>

lemma members_step_live:
  assumes wf: "members_wf db" and live: "invite_live (members_step env db a) k"
  shows "invite_live db k \<or> k \<in> set (mints_invite env a)"
proof (cases a)
  case (CreateInvite now email rl createdBy ttl i token)
  then show ?thesis using live createInvite_live by fastforce
next
  case (ConsumeInvite now token)
  have "members_step env db a = snd (burn_invite now (hashInviteToken env token) db)"
    by (simp add: ConsumeInvite consumeInvite_def Let_def split: prod.splits)
  then show ?thesis using live burn_spends(1) [OF wf, of now "hashInviteToken env token"] by (metis prod.collapse)
next
  case (AcceptInvite t1 t2 t3 args fr)
  obtain r t where a: "acceptInvite env t1 t2 t3 args fr db = (r, t)" by fastforce
  then show ?thesis
  proof (cases rule: acceptInvite_cases)
    case (accepted peek email pw db1 db2 margs)
    then have "invite_live t = invite_live db1"
      by (auto simp: fun_eq_iff invite_live_def list_ex_iff set_used_by_def bex_sql_update split: if_splits)
    then show ?thesis using live burn_spends(1) [OF wf accepted(4)] a by (simp add: AcceptInvite)
  qed (use live a in \<open>simp add: AcceptInvite\<close>)
next
  case (PurgeExpiredInvites now)
  then show ?thesis using live purge_live by auto
next
  case (CreateMember now args fr)
  obtain r t where c: "createMember env now args fr db = (r, t)" by fastforce
  then have "dbInvites t = dbInvites db" by (cases rule: createMember_cases) auto
  then show ?thesis using live c by (simp add: CreateMember invite_live_def)
qed (use live in \<open>auto simp: rotateTokenSecret_def setPassword_def updateMember_def removeMember_def
      markInviteUsedBy_def set_used_by_def deleteInvite_def invite_live_def Let_def list_ex_iff bex_sql_delete
      bex_sql_update split: option.splits if_splits\<close>)

lemma members_step_redeems:
  assumes wf: "members_wf db" and r: "redeemed_invite env db a = Some k"
  shows "invite_live db k \<and> \<not> invite_live (members_step env db a) k"
proof (cases a)
  case (ConsumeInvite now token)
  obtain b t where bt: "burn_invite now k db = (b, t)" by fastforce
  have k: "k = hashInviteToken env token" and b using consumeInvite_redeems [OF r [unfolded ConsumeInvite]] bt by auto
  have "members_step env db a = t"
    using bt by (simp add: ConsumeInvite consumeInvite_def Let_def k split: prod.splits)
  then show ?thesis using burn_spends(2) [OF wf bt] \<open>b\<close> by simp
next
  case (AcceptInvite t1 t2 t3 args fr)
  obtain b t where bt: "burn_invite t2 k db = (b, t)" by fastforce
  have "b" and l: "invite_live (snd (acceptInvite env t1 t2 t3 args fr db)) = invite_live t"
    using acceptInvite_redeems [OF r [unfolded AcceptInvite]] by (simp_all add: bt)
  then show ?thesis using burn_spends(2) [OF wf bt] by (simp add: AcceptInvite l)
qed (use r in auto)

interpretation invites: single_use "invite_act env" invite_live "mints_invite env" members_wf for env
proof unfold_locales
  fix db t :: members_db and a :: member_op and r :: "string option" and k :: string
  assume wf: "members_wf db" and act: "invite_act env db a = (t, r)"
  then have t: "t = members_step env db a" and r: "r = redeemed_invite env db a"
    by (auto simp: invite_act_def)
  show "members_wf t" using wf by (simp add: t members_step_wf)
  show "of_bool (r = Some k) + of_bool (invite_live t k)
      \<le> (of_bool (invite_live db k) + count_list (mints_invite env a) k :: nat)"
  proof (cases "r = Some k")
    case True
    then show ?thesis using members_step_redeems [OF wf] by (simp add: t r)
  next
    case False
    moreover have "k \<in> set (mints_invite env a) \<Longrightarrow> 0 < count_list (mints_invite env a) k"
      using count_list_0_iff [of "mints_invite env a" k] by simp
    ultimately show ?thesis using members_step_live [OF wf, of env a k] by (auto simp: t of_bool_def)
  qed
qed

section \<open>Properties\<close>

text \<open>A sample store: an admin, a member, one open invite pinned to an address, one unpinned.\<close>

definition sample_menv :: members_env where
  "sample_menv = \<lparr>meScrypt = (\<lambda>pw salt _. ''h'' @ salt @ pw), meSha = (\<lambda>t. ''s'' @ t)\<rparr>"

definition sample_member :: "string \<Rightarrow> string \<Rightarrow> role \<Rightarrow> member" where
  "sample_member i e rl = \<lparr>mbId = i, mbEmail = e, mbName = [], mbRole = rl, mbHash = ''hsaltpassword'',
     mbSalt = ''salt'', mbParams = kScryptParams, mbSecret = ''secret'' @ i, mbDisabled = False,
     mbCreatedAt = 0, mbUpdatedAt = 0\<rparr>"

definition sample_invite :: "string \<Rightarrow> string \<Rightarrow> string option \<Rightarrow> invite" where
  "sample_invite i tok e = \<lparr>inId = i, inHash = ''s'' @ tok, inEmail = e, inRole = MemberRole, inBy = ''a'',
     inCreatedAt = 0, inExpiresAt = 60000, inUsedAt = None, inUsedBy = None\<rparr>"

definition sample_mdb :: members_db where
  "sample_mdb = \<lparr>dbMembers = [sample_member ''a'' ''root@x.io'' AdminRole, sample_member ''b'' ''bob@x.io'' MemberRole],
     dbInvites = [sample_invite ''i'' ''one'' (Some ''eve@x.io''), sample_invite ''j'' ''two'' None]\<rparr>"

lemma sample_emails: "stored_email ''root@x.io''" "stored_email ''bob@x.io''" "stored_email ''eve@x.io''"
  by (simp_all add: stored_email_def kEmailPattern_def email_char_def to_lower_def)

lemma sample_mdb_wf: "members_wf sample_mdb"
  using sample_emails by (simp add: sample_mdb_def sample_member_def sample_invite_def members_wf_def)

lemma sample_mdb_admin: "active_admin sample_mdb"
  by (simp add: sample_mdb_def sample_member_def active_admin_def active_admin_row_def)

text \<open>C3. The roster keeps an active admin. Once there is one, no sequence of store operations
  (updates, removals, invites, failed and successful accepts, in any order) leaves the roster
  without one, and ids, addresses and invite tokens stay unique and well formed throughout.\<close>

theorem last_admin_kept:
  assumes "members_wf db" and "active_admin db"
  shows "members_wf (run (members_step env) db ops) \<and> active_admin (run (members_step env) db ops)"
  using admins.run_inv [of db ops env] assms by simp

theorem last_admin_kept_witness:
  "active_admin (run (members_step sample_menv) sample_mdb
     [UpdateMember 5 ''a'' (Some ''member'') None None, RemoveMember ''a'', UpdateMember 6 ''b'' (Some ''admin'') None None,
      RemoveMember ''a''])"
  by (rule last_admin_kept [OF sample_mdb_wf sample_mdb_admin, THEN conjunct2])

text \<open>An invite works once. Over any sequence of operations from a well-formed store, a token's
  hash is redeemed, by a consume or by an accepted account, at most as often as it was open at the
  start plus the times it was drawn for a new invite; a fresh token therefore at most once.\<close>

lemma invites_single_use:
  assumes "members_wf db"
  shows "count_list (redeemed (invite_act env) db ops) h
     \<le> of_bool (invite_live db h) + count_list (concat (map (mints_invite env) ops)) h"
  using invites.redeemed_count [OF assms, of env ops h] by simp

lemma sql_update_usable:
  assumes wf: "members_wf db" and b: "burn_invite now h db = (True, t)" and p: "peek \<in> set (dbInvites db)"
    and h: "inHash peek = h"
  shows "dbInvites t = map (\<lambda>q. if inId q = inId peek then q\<lparr>inUsedAt := Some now\<rparr> else q) (dbInvites db)"
proof -
  have "sql_count (usable now h) (dbInvites db) \<noteq> 0" using burn_invite_frame(4) [OF b] by simp
  then obtain r where r: "r \<in> set (dbInvites db)" "usable now h r" unfolding sql_count_eq_0 by blast
  have inj: "inj_on inHash (set (dbInvites db))" "inj_on inId (set (dbInvites db))"
    using wf by (simp_all add: members_wf_def distinct_map)
  have "r = peek" using r p h inj(1) by (auto simp: usable_def dest: inj_onD)
  then have "usable now h q \<longleftrightarrow> inId q = inId peek" if "q \<in> set (dbInvites db)" for q
    using that r inj p h by (metis inj_onD usable_def)
  then show ?thesis using burn_invite_frame(3) [OF b] by (simp add: sql_update_def cong: map_cong)
qed

lemma normalizeEmail_stored: "stored_email e \<Longrightarrow> normalizeEmail e = e"
  by (simp add: normalizeEmail_def stored_email_def js_trim_stored)

lemma assertValidEmail_idem: "stored_email e \<Longrightarrow> assertValidEmail e = Inr e"
  by (auto simp: assertValidEmail_def stored_email_def js_trim_stored Let_def kEmailPattern_def)

lemma createMember_ok:
  assumes e: "stored_email email" and pw: "password_ok (maPassword args)" and a: "maEmail args = email"
    and none: "getMemberRowByEmail email db = None" and fresh: "mfId fr \<notin> mbId ` set (dbMembers db)"
  shows "\<exists>m t. createMember env now args fr db = (Inr (Some m), t)"
proof -
  let ?row = "new_member env now args fr email (the (maPassword args))"
  have "\<forall>q \<in> set (dbMembers db). map to_lower (mbEmail q) \<noteq> email"
    using none e by (auto simp: getMemberRowByEmail_def find_None_iff normalizeEmail_stored stored_email_def)
  moreover have ids: "\<forall>q \<in> set (dbMembers db). mbId q \<noteq> mfId fr" using fresh by (auto simp: image_iff)
  ultimately have "insert_member ?row db = Some (db\<lparr>dbMembers := dbMembers db @ [?row]\<rparr>)"
    using e by (simp add: insert_member_def list_ex_iff new_member_def stored_email_def)
  moreover have "getMemberRowById (mfId fr) (db\<lparr>dbMembers := dbMembers db @ [?row]\<rparr>) = Some ?row"
    using ids by (simp add: getMemberRowById_def find_snoc new_member_def)
  ultimately show ?thesis using pw none by (simp add: createMember_def a assertValidEmail_idem [OF e])
qed

lemma accept_commit_codes:
  assumes "stored_email email" and "password_ok (aaPassword args)" and "getMemberRowByEmail email db = None"
    and "mfId fr \<notin> mbId ` set (dbMembers db)"
    and "accept_commit env t2 t3 args fr invm email db = (NotAccepted code, t)"
  shows "code = ''invite_invalid''"
proof -
  obtain b db1 where b: "burn_invite t2 (hashInviteToken env (aaToken args)) db = (b, db1)" by fastforce
  have m: "dbMembers db1 = dbMembers db" using burn_invite_frame(2) [OF b] .
  let ?args = "\<lparr>maEmail = email, maName = aaName args, maRole = role_text (imRole invm),
      maPassword = aaPassword args\<rparr>"
  obtain q u where "createMember env t3 ?args fr db1 = (Inr (Some q), u)"
    using createMember_ok [of email ?args db1 fr env t3] assms(1-4)
    by (auto simp: m getMemberRowByEmail_def)
  then show ?thesis using assms(5) by (simp add: accept_commit_def b split: if_splits)
qed

lemma acceptInvite_codes:
  assumes "mfId fr \<notin> mbId ` set (dbMembers db)"
    and "acceptInvite env t1 t2 t3 args fr db = (NotAccepted code, t)"
  shows "code \<in> {''invite_invalid'', ''email_required'', ''invalid_email'', ''weak_password'', ''email_taken''}"
proof (cases "find (usable t1 (hashInviteToken env (aaToken args))) (dbInvites db)")
  case (Some peek)
  define raw where "raw = (case inEmail peek of None \<Rightarrow> aaEmail args | Some e \<Rightarrow> e)"
  have im: "imEmail (toInviteModel peek) = inEmail peek" by (simp add: toInviteModel_def)
  note a = assms(2) [unfolded acceptInvite_def Some option.case Let_def im raw_def [symmetric]]
  show ?thesis
  proof (cases "assertValidEmail raw")
    case (Inl e)
    then have "e = InvalidEmail" by (auto simp: assertValidEmail_def Let_def split: if_splits)
    then show ?thesis using a Inl by (cases "raw = []") (simp_all add: error_code_def)
  next
    case (Inr email)
    note c = accept_commit_codes [OF assertValidEmail_stored [OF Inr] _ _ assms(1)]
    show ?thesis
    proof (cases "raw = [] \<or> \<not> password_ok (aaPassword args) \<or> getMemberRowByEmail email db \<noteq> None")
      case True
      then show ?thesis using a
        by (cases "raw = []"; cases "password_ok (aaPassword args)") (simp_all add: Inr)
    next
      case False
      then have "accept_commit env t2 t3 args fr (toInviteModel peek) email db = (NotAccepted code, t)"
        using a by (simp add: Inr)
      with False have "code = ''invite_invalid''" by (intro c) simp_all
      then show ?thesis by simp
    qed
  qed
qed (use assms(2) in \<open>simp add: acceptInvite_def\<close>)

text \<open>Accepting an invite is all or nothing. With a fresh member id, an accept either refuses with
  one of five codes and leaves the store exactly as it was, so a failure burns no invite; or it adds
  one enabled member, with the invite's role and its pinned address, whose password is the one given,
  and marks that one invite as used by it.\<close>

lemma accept_all_or_nothing:
  assumes "members_wf db" and "mfId fr \<notin> mbId ` set (dbMembers db)"
    and "acceptInvite env t1 t2 t3 args fr db = (r, t)"
  shows "(\<exists>code \<in> {''invite_invalid'', ''email_required'', ''invalid_email'', ''weak_password'', ''email_taken''}.
            r = NotAccepted code \<and> t = db)
     \<or> (\<exists>row peek pw. r = Accepted (toMemberModel row) (toInviteModel peek) \<and>
            dbMembers t = dbMembers db @ [row] \<and> mbId row = mfId fr \<and> \<not> mbDisabled row \<and>
            mbRole row = inRole peek \<and> (\<forall>e. inEmail peek = Some e \<longrightarrow> mbEmail row = e) \<and>
            aaPassword args = Some pw \<and> mbHash row = meScrypt env pw (mbSalt row) (mbParams row) \<and>
            peek \<in> set (dbInvites db) \<and> usable t1 (hashInviteToken env (aaToken args)) peek \<and>
            dbInvites t = map (\<lambda>q. if inId q = inId peek
                then q\<lparr>inUsedAt := Some t2, inUsedBy := Some (mfId fr)\<rparr> else q) (dbInvites db))"
  using assms(3)
proof (cases rule: acceptInvite_cases)
  case (refused code)
  show ?thesis
    by (rule disjI1, rule bexI [OF _ acceptInvite_codes [OF assms(2) assms(3) [unfolded refused(1)]]])
      (simp add: refused)
next
  case (accepted peek email pw db1 db2 margs)
  let ?row = "new_member env t3 margs fr email pw"
  have pk: "peek \<in> set (dbInvites db)" "usable t1 (hashInviteToken env (aaToken args)) peek"
    using find_Some_set [OF accepted(1)] by auto
  have "dbInvites t = map (\<lambda>q. if inId q = inId peek
      then q\<lparr>inUsedAt := Some t2, inUsedBy := Some (mfId fr)\<rparr> else q) (dbInvites db)"
    using sql_update_usable [OF assms(1) accepted(4) pk(1)] pk(2) accepted(9,11)
    by (simp add: set_used_by_def sql_update_def usable_def)
  moreover have "inEmail peek = Some e \<Longrightarrow> email = e" for e
  proof -
    assume e: "inEmail peek = Some e"
    then have "stored_email e" using assms(1) pk(1) by (auto simp: members_wf_def list_all_iff)
    then show ?thesis using accepted(2) e
      by (auto simp: assertValidEmail_def stored_email_def Let_def js_trim_stored split: if_splits)
  qed
  moreover have "mbRole ?row = inRole peek"
    by (cases "inRole peek") (simp_all add: new_member_def accepted(5) role_of_def role_text_def)
  ultimately show ?thesis using accepted pk
    by (intro disjI2 exI [of _ ?row] exI [of _ peek] exI [of _ pw]) (auto simp: new_member_def set_used_by_def)
qed

definition sample_accept :: accept_args where
  "sample_accept = \<lparr>aaToken = ''one'', aaEmail = [], aaPassword = Some ''longpass'', aaName = ''Eve''\<rparr>"

definition sample_fresh :: member_fresh where
  "sample_fresh = \<lparr>mfId = ''c'', mfSalt = ''n'', mfSecret = ''k''\<rparr>"

lemma sample_accept_ok: "\<exists>m i t. acceptInvite sample_menv 5 6 7 sample_accept sample_fresh sample_mdb = (Accepted m i, t)"
proof -
  have v: "assertValidEmail ''eve@x.io'' = Inr ''eve@x.io''" by (rule assertValidEmail_idem [OF sample_emails(3)])
  have n: "normalizeEmail ''eve@x.io'' = ''eve@x.io''" by (rule normalizeEmail_stored [OF sample_emails(3)])
  show ?thesis
    by (simp add: acceptInvite_def accept_commit_def createMember_def burn_invite_def sample_mdb_def sample_member_def
        sample_invite_def sample_menv_def sample_accept_def sample_fresh_def usable_def hashInviteToken_def Let_def
        toInviteModel_def v n password_ok_def getMemberRowByEmail_def insert_member_def new_member_def
        getMemberRowById_def to_lower_def)
qed

text \<open>Passwords round-trip. After an account is created with a password, a login with any spelling
  of its address that normalizes to the same text answers that member exactly for the passwords
  the digest does not tell from it; for an injective digest, for that password alone.\<close>

lemma password_roundtrip:
  assumes "createMember env now args fr db = (Inr (Some m), t)"
    and "maPassword args = Some pw" and "normalizeEmail e = normalizeEmail (maEmail args)"
    and "\<And>p s. meScrypt env p s kScryptParams \<noteq> []"
  shows "verifyMemberPassword env e p t =
     (if meScrypt env p (mfSalt fr) kScryptParams = meScrypt env pw (mfSalt fr) kScryptParams then Some m else None)"
  using assms(1)
proof (cases rule: createMember_cases)
  case (created email q)
  let ?row = "new_member env now args fr email q"
  have q: "q = pw" using created(2) assms(2) by simp
  have em: "stored_email email" "email = map to_lower (js_trim (maEmail args))"
    using created(1) assertValidEmail_stored [OF created(1)]
    by (auto simp: assertValidEmail_def Let_def split: if_splits)
  have "map to_lower (normalizeEmail e) = email"
    using assms(3) em by (simp add: normalizeEmail_def o_def)
  moreover have "\<forall>q \<in> set (dbMembers db). map to_lower (mbEmail q) \<noteq> email"
    using created(4) em(1) by (auto simp: getMemberRowByEmail_def find_None_iff normalizeEmail_stored stored_email_def)
  ultimately have "getMemberRowByEmail e t = Some ?row"
    using em(1) by (simp add: getMemberRowByEmail_def created(6) find_snoc new_member_def stored_email_def)
  then show ?thesis using assms(4) created(7)
    by (simp add: verifyMemberPassword_def verifyPassword_def new_member_def timingSafeStringEqual_def q)
qed (use assms(1) in simp)

lemma sample_create: "createMember sample_menv 5
    \<lparr>maEmail = ''eve@x.io'', maName = [], maRole = ''member'', maPassword = Some ''longpass''\<rparr> sample_fresh sample_mdb
  = (Inr (Some \<lparr>mmId = ''c'', mmEmail = ''eve@x.io'', mmName = [], mmRole = MemberRole, mmDisabled = False,
       mmCreatedAt = 5, mmUpdatedAt = 5\<rparr>),
     sample_mdb\<lparr>dbMembers := dbMembers sample_mdb @ [new_member sample_menv 5
       \<lparr>maEmail = ''eve@x.io'', maName = [], maRole = ''member'', maPassword = Some ''longpass''\<rparr> sample_fresh
       ''eve@x.io'' ''longpass'']\<rparr>)"
proof -
  have v: "assertValidEmail ''eve@x.io'' = Inr ''eve@x.io''" by (rule assertValidEmail_idem [OF sample_emails(3)])
  have n: "normalizeEmail ''eve@x.io'' = ''eve@x.io''" by (rule normalizeEmail_stored [OF sample_emails(3)])
  show ?thesis
    by (simp add: createMember_def sample_mdb_def sample_member_def sample_menv_def sample_fresh_def v n password_ok_def
        getMemberRowByEmail_def insert_member_def new_member_def getMemberRowById_def to_lower_def toMemberModel_def
        display_name_def js_trim_def role_of_def)
qed

end
