(* ===== verification/Session_Auth.thy ===== *)
theory Session_Auth
  imports Members_Store Login_Throttle
begin

text \<open>
  Who a request is (\<open>lib/server/routes/auth.js\<close>): session tokens of members and of the owner, the
  cookie that carries them, login and invite acceptance behind the throttle of \<open>Login_Throttle\<close>, the
  agent's bearer token, \<open>requireAuth\<close> with its same-origin rule, the member scope, and logout.

  \<open>createHmac\<close>, the \<open>exp\<close> that \<open>JSON.parse\<close> reads from a decoded payload, the setup password and the
  emergency hatch are the fields of \<open>auth_env\<close>. What a request brings and what the settings file
  says at that moment are a \<open>request\<close> and an \<open>auth_ctx\<close>; \<open>classifyBrowserOrigin\<close>'s verdict is a field of
  the request. The session state file is \<open>auFile\<close>. Text is ASCII. HTTP formatting, audit logs and
  callbacks (presence, sockets) are not modelled.
\<close>

section \<open>Inputs and state\<close>

definition kSessionTtlMs :: int where "kSessionTtlMs = 7 * 24 * 60 * 60 * 1000"

record 's auth_env =
  aeMembers :: members_env
  aePassword :: string
  aeHmac :: "string \<Rightarrow> string \<Rightarrow> string"
  aeClaims :: "string \<Rightarrow> int option"
  aeHatch :: bool
  aeThrottle :: throttle_config
  aeAgentThrottle :: throttle_config
  aeStore :: "'s store_ops"

text \<open>What \<open>readTeamSettings\<close> does: it throws, answers nothing, or answers settings.\<close>

datatype team_read = ReadThrows | ReadNull
  | ReadSettings (configUnreadable: bool) (teamEnabled: bool) (disableLegacyLogin: bool)

record auth_ctx =
  cxNow :: int
  cxTeam :: team_read
  cxAgentEnabled :: bool
  cxAgentToken :: "string option"

record request =
  rqMethod :: string
  rqUrl :: string
  rqCookie :: "string option"
  rqAuthorization :: "string option"
  rqCross :: bool
  rqClient :: string

record 's auth =
  auMembers :: members_db
  auSecret :: string
  auEpoch :: nat
  auKey :: string
  auFile :: "(string \<times> nat) option"
  auThrottle :: 's
  auAgentThrottle :: 's

section \<open>Session payloads\<close>

definition b64_char :: "nat \<Rightarrow> char" where
  "b64_char n = (if n < 26 then char_of (65 + n) else if n < 52 then char_of (71 + n)
     else if n < 62 then char_of (n - 4) else if n = 62 then CHR ''-'' else CHR ''_'')"

text \<open>\<open>Buffer.from(text).toString("base64url")\<close>: no padding.\<close>

fun base64url :: "string \<Rightarrow> string" where
  "base64url [] = []"
| "base64url [a] = (let n = (of_char a :: nat) in [b64_char (n div 4), b64_char (n mod 4 * 16)])"
| "base64url [a, b] = (let m = (of_char a :: nat); n = (of_char b :: nat) in
     [b64_char (m div 4), b64_char (m mod 4 * 16 + n div 16), b64_char (n mod 16 * 4)])"
| "base64url (a # b # c # rest) = (let m = (of_char a :: nat); n = (of_char b :: nat); k = (of_char c :: nat) in
     [b64_char (m div 4), b64_char (m mod 4 * 16 + n div 16), b64_char (n mod 16 * 4 + k div 64), b64_char (k mod 64)]
     @ base64url rest)"

definition encodeSessionPayload :: "int \<Rightarrow> string \<Rightarrow> string" where
  "encodeSessionPayload now nonce = base64url
     (''{\"iat\":'' @ string_of_int now @ '',\"exp\":'' @ string_of_int (now + kSessionTtlMs)
      @ '',\"nonce\":\"'' @ nonce @ ''\"}'')"

definition parseSessionPayload :: "'s auth_env \<Rightarrow> int \<Rightarrow> string \<Rightarrow> bool" where
  "parseSessionPayload env now payload =
     (case aeClaims env payload of None \<Rightarrow> False | Some expiry \<Rightarrow> now < expiry)"

section \<open>Tokens\<close>

definition isLegacySessionState :: "string \<times> nat \<Rightarrow> bool" where
  "isLegacySessionState v \<longleftrightarrow> length (fst v) = 64 \<and>
     list_all (\<lambda>c. c \<in> set ''0123456789abcdef'') (fst v)"

definition deriveLegacySessionKey :: "'s auth_env \<Rightarrow> string \<Rightarrow> nat \<Rightarrow> string" where
  "deriveLegacySessionKey env secret epoch =
     aeHmac env secret (''alphaclaw-legacy-session|'' @ string_of_nat epoch @ ''|'' @ aePassword env)"

text \<open>A start of the process: the state of the file if it is well formed, else a fresh secret; \<open>saved\<close>
  is whether the file can be written.\<close>

definition registerAuthRoutes :: "'s auth_env \<Rightarrow> string \<Rightarrow> bool \<Rightarrow> 's auth \<Rightarrow> 's auth" where
  "registerAuthRoutes env fresh saved st =
     (let (keep, file) = (case auFile st of
            Some v \<Rightarrow> if isLegacySessionState v then (v, auFile st)
                      else ((fresh, 0), if saved then Some (fresh, 0) else auFile st)
          | None \<Rightarrow> ((fresh, 0), if saved then Some (fresh, 0) else None)) in
      st\<lparr>auSecret := fst keep, auEpoch := snd keep, auFile := file,
         auKey := deriveLegacySessionKey env (fst keep) (snd keep)\<rparr>)"

definition endLegacySessions :: "'s auth_env \<Rightarrow> bool \<Rightarrow> 's auth \<Rightarrow> bool \<times> 's auth" where
  "endLegacySessions env saved st =
     (let epoch = auEpoch st + 1 in
      (saved, st\<lparr>auEpoch := epoch, auKey := deriveLegacySessionKey env (auSecret st) epoch,
                 auFile := (if saved then Some (auSecret st, epoch) else auFile st)\<rparr>))"

definition createSessionToken :: "'s auth_env \<Rightarrow> int \<Rightarrow> string \<Rightarrow> 's auth \<Rightarrow> string" where
  "createSessionToken env now nonce st =
     (let payload = encodeSessionPayload now nonce in
      payload @ ''.'' @ aeHmac env (auKey st) payload)"

definition createMemberSessionToken :: "'s auth_env \<Rightarrow> int \<Rightarrow> string \<Rightarrow> string \<Rightarrow> 's auth \<Rightarrow> string option" where
  "createMemberSessionToken env now nonce memberId st =
     (case getTokenSecret memberId (auMembers st) of
        None \<Rightarrow> None
      | Some secret \<Rightarrow>
          (if secret = [] then None
           else (let payload = encodeSessionPayload now nonce in
                 Some (''v2.'' @ memberId @ ''.'' @ payload @ ''.''
                   @ aeHmac env secret (memberId @ ''.'' @ payload)))))"

definition verifySessionToken :: "'s auth_env \<Rightarrow> int \<Rightarrow> string \<Rightarrow> 's auth \<Rightarrow> bool" where
  "verifySessionToken env now token st =
     (if aePassword env = [] \<or> token = [] then False
      else (case split_at_char CHR ''.'' token of
              [payload, signature] \<Rightarrow>
                (if payload = [] \<or> signature = [] then False
                 else if \<not> timingSafeStringEqual (aeHmac env (auKey st) payload) signature then False
                 else parseSessionPayload env now payload)
            | _ \<Rightarrow> False))"

definition verifyMemberSessionToken :: "'s auth_env \<Rightarrow> int \<Rightarrow> string \<Rightarrow> 's auth \<Rightarrow> member_model option" where
  "verifyMemberSessionToken env now token st =
     (case split_at_char CHR ''.'' token of
        [v, memberId, payload, signature] \<Rightarrow>
          (if v \<noteq> ''v2'' then None
           else if memberId = [] \<or> payload = [] \<or> signature = [] then None
           else (case getTokenSecret memberId (auMembers st) of
                   None \<Rightarrow> None
                 | Some secret \<Rightarrow>
                     (if secret = [] then None
                      else if \<not> timingSafeStringEqual (aeHmac env secret (memberId @ ''.'' @ payload)) signature then None
                      else if \<not> parseSessionPayload env now payload then None
                      else (case getMember memberId (auMembers st) of
                              None \<Rightarrow> None
                            | Some m \<Rightarrow> if mmDisabled m then None else Some m))))
      | _ \<Rightarrow> None)"

section \<open>Who a request is\<close>

text \<open>Each part of the header is \<open>k=v\<close>; a later part wins.\<close>

definition cookie_pair :: "string \<Rightarrow> string \<times> string" where
  "cookie_pair c = (case split_at_char CHR ''='' (js_trim c) of
     [] \<Rightarrow> ([], []) | k # v \<Rightarrow> (k, join_with CHR ''='' v))"

definition cookieParser :: "request \<Rightarrow> string \<rightharpoonup> string" where
  "cookieParser req = (case rqCookie req of
       None \<Rightarrow> Map.empty
     | Some header \<Rightarrow> map_of (rev (filter (\<lambda>(k, v). k \<noteq> []) (map cookie_pair (split_at_char CHR '';'' header)))))"

definition readTeamSettingsSafe :: "auth_ctx \<Rightarrow> bool \<times> team_read" where
  "readTeamSettingsSafe cx = (case cxTeam cx of
       ReadThrows \<Rightarrow> (True, ReadNull)
     | ReadNull \<Rightarrow> (False, ReadNull)
     | ReadSettings u e d \<Rightarrow> (u, ReadSettings u e d))"

definition legacyLoginDisabled :: "'s auth_env \<Rightarrow> auth_ctx \<Rightarrow> bool" where
  "legacyLoginDisabled env cx =
     (if aeHatch env then False
      else (let (unreadable, settings) = readTeamSettingsSafe cx in
            if unreadable then True
            else (case settings of ReadSettings _ _ d \<Rightarrow> d | _ \<Rightarrow> False)))"

definition teamModeEnabled :: "auth_ctx \<Rightarrow> bool" where
  "teamModeEnabled cx =
     (let (unreadable, settings) = readTeamSettingsSafe cx in
      if unreadable then False else (case settings of ReadSettings _ e _ \<Rightarrow> e | _ \<Rightarrow> False))"

datatype identity =
    MemberIdentity (idMember: string) (idEmail: string) (idName: string) (idRole: role)
  | LegacyIdentity

definition resolveRequestIdentity :: "'s auth_env \<Rightarrow> auth_ctx \<Rightarrow> request \<Rightarrow> 's auth \<Rightarrow> identity option" where
  "resolveRequestIdentity env cx req st =
     (if aePassword env = [] then None
      else (case cookieParser req ''setup_token'' of
              None \<Rightarrow> None
            | Some token \<Rightarrow>
                (if token = [] then None
                 else if starts_with ''v2.'' token then
                   (if \<not> teamModeEnabled cx then None
                    else (case verifyMemberSessionToken env (cxNow cx) token st of
                            None \<Rightarrow> None
                          | Some m \<Rightarrow> Some (MemberIdentity (mmId m) (mmEmail m) (mmName m) (mmRole m))))
                 else if \<not> verifySessionToken env (cxNow cx) token st then None
                 else if legacyLoginDisabled env cx then None
                 else Some LegacyIdentity)))"

definition identity_role :: "identity \<Rightarrow> role" where
  "identity_role i = (case i of MemberIdentity _ _ _ r \<Rightarrow> r | LegacyIdentity \<Rightarrow> AdminRole)"

section \<open>Login\<close>

definition checkThrottle :: "'s auth_env \<Rightarrow> auth_ctx \<Rightarrow> request \<Rightarrow> 's auth \<Rightarrow>
    (int + login_bundle option) \<times> 's auth" where
  "checkThrottle env cx req st =
     (let (bundle, s1) = getOrCreateLoginAttemptState (aeThrottle env) (aeStore env) (auThrottle st)
             (rqClient req) (cxNow cx);
          ((throttle, bundle'), s2) = evaluateLoginThrottle (aeThrottle env) (aeStore env) s1 (Some bundle) (cxNow cx) in
      (if blocked throttle then Inl (retryAfterSec throttle) else Inr bundle', st\<lparr>auThrottle := s2\<rparr>))"

datatype login_answer =
    LoginMisconfigured
  | LoginConfigUnreadable
  | LoginBlocked int
  | LoginTeamDisabled
  | LoginRefused
  | LoginLocked int
  | LoginLegacyDisabled
  | LoginMember string member_model
  | LoginLegacy string

definition recordFailure :: "'s auth_env \<Rightarrow> int \<Rightarrow> login_bundle option \<Rightarrow> 's auth \<Rightarrow> login_answer \<times> 's auth" where
  "recordFailure env now bundle st =
     (let ((failure, _), s) = recordLoginFailure (aeThrottle env) (aeStore env) (auThrottle st) bundle now in
      (if locked failure then LoginLocked (max 1 (ceil_div (lockMs failure) 1000)) else LoginRefused,
       st\<lparr>auThrottle := s\<rparr>))"

definition recordSuccess :: "'s auth_env \<Rightarrow> request \<Rightarrow> 's auth \<Rightarrow> 's auth" where
  "recordSuccess env req st =
     st\<lparr>auThrottle := recordLoginSuccess (aeThrottle env) (aeStore env) (auThrottle st) (rqClient req)\<rparr>"

text \<open>Of the body: the trimmed email, whether the password is a string, and its text. \<open>nonce\<close> is the
  random part of the payload.\<close>

definition login_member :: "'s auth_env \<Rightarrow> auth_ctx \<Rightarrow> request \<Rightarrow> string \<Rightarrow> string \<Rightarrow> string \<Rightarrow>
    login_bundle option \<Rightarrow> 's auth \<Rightarrow> login_answer \<times> 's auth" where
  "login_member env cx req email password nonce bundle st =
     (if \<not> teamModeEnabled cx then (LoginTeamDisabled, st)
      else (case verifyMemberPassword (aeMembers env) email password (auMembers st) of
              None \<Rightarrow> recordFailure env (cxNow cx) bundle st
            | Some m \<Rightarrow>
                (case createMemberSessionToken env (cxNow cx) nonce (mmId m) st of
                   None \<Rightarrow> recordFailure env (cxNow cx) bundle st
                 | Some token \<Rightarrow> (LoginMember token m, recordSuccess env req st))))"

definition login_legacy :: "'s auth_env \<Rightarrow> auth_ctx \<Rightarrow> request \<Rightarrow> bool \<Rightarrow> string \<Rightarrow> string \<Rightarrow>
    login_bundle option \<Rightarrow> 's auth \<Rightarrow> login_answer \<times> 's auth" where
  "login_legacy env cx req isString password nonce bundle st =
     (if legacyLoginDisabled env cx then (LoginLegacyDisabled, st)
      else if \<not> isString \<or> \<not> timingSafeStringEqual password (aePassword env)
        then recordFailure env (cxNow cx) bundle st
      else (LoginLegacy (createSessionToken env (cxNow cx) nonce (recordSuccess env req st)),
            recordSuccess env req st))"

definition login :: "'s auth_env \<Rightarrow> auth_ctx \<Rightarrow> request \<Rightarrow> string \<Rightarrow> bool \<Rightarrow> string \<Rightarrow> string \<Rightarrow>
    's auth \<Rightarrow> login_answer \<times> 's auth" where
  "login env cx req email isString password nonce st =
     (if aePassword env = [] then (LoginMisconfigured, st)
      else if \<not> aeHatch env \<and> fst (readTeamSettingsSafe cx) then (LoginConfigUnreadable, st)
      else (case checkThrottle env cx req st of
              (Inl sec, st1) \<Rightarrow> (LoginBlocked sec, st1)
            | (Inr bundle, st1) \<Rightarrow>
                (if js_trim email \<noteq> [] then login_member env cx req (js_trim email) password nonce bundle st1
                 else login_legacy env cx req isString password nonce bundle st1)))"

section \<open>Accepting an invite\<close>

datatype accept_answer =
    AcceptTeamDisabled
  | AcceptBlocked int
  | AcceptNoToken
  | AcceptWeakPassword
  | AcceptRefused string
  | AcceptDone member_model

text \<open>Up to the roster change, which the route awaits; the session token is made after it
  (\<open>accept_session\<close>).\<close>

definition accept_invite :: "'s auth_env \<Rightarrow> auth_ctx \<Rightarrow> request \<Rightarrow> int \<Rightarrow> int \<Rightarrow> int \<Rightarrow> accept_args \<Rightarrow> member_fresh \<Rightarrow>
    's auth \<Rightarrow> accept_answer \<times> 's auth" where
  "accept_invite env cx req t1 t2 t3 args fr st =
     (if \<not> teamModeEnabled cx then (AcceptTeamDisabled, st)
      else (case checkThrottle env cx req st of
              (Inl sec, st1) \<Rightarrow> (AcceptBlocked sec, st1)
            | (Inr bundle, st1) \<Rightarrow>
                (let args = args\<lparr>aaToken := js_trim (aaToken args), aaEmail := js_trim (aaEmail args),
                       aaName := js_trim (aaName args)\<rparr> in
                 if aaToken args = [] then (AcceptNoToken, st1)
                 else if \<not> password_ok (aaPassword args) then (AcceptWeakPassword, st1)
                 else (case acceptInvite (aeMembers env) t1 t2 t3 args fr (auMembers st1) of
                         (NotAccepted code, db) \<Rightarrow>
                           (AcceptRefused code, snd (recordFailure env (cxNow cx) bundle (st1\<lparr>auMembers := db\<rparr>)))
                       | (Accepted m _, db) \<Rightarrow>
                           (AcceptDone m, recordSuccess env req (st1\<lparr>auMembers := db\<rparr>))))))"

definition accept_session :: "'s auth_env \<Rightarrow> int \<Rightarrow> string \<Rightarrow> member_model \<Rightarrow> 's auth \<Rightarrow> string option" where
  "accept_session env now nonce m st = createMemberSessionToken env now nonce (mmId m) st"

section \<open>The agent's bearer token\<close>

text \<open>\<open>/^Bearer\\s+(.+)$/i\<close> and a trim; an empty token counts as none.\<close>

definition extractBearerToken :: "request \<Rightarrow> string option" where
  "extractBearerToken req = (case rqAuthorization req of
       None \<Rightarrow> None
     | Some header \<Rightarrow>
         (let rest = drop 6 header in
          if map to_lower (take 6 header) = ''bearer'' \<and> rest \<noteq> [] \<and> js_space (hd rest) \<and> js_trim rest \<noteq> []
          then Some (js_trim rest) else None))"

definition isValidAgentBearer :: "auth_ctx \<Rightarrow> request \<Rightarrow> bool" where
  "isValidAgentBearer cx req =
     (if \<not> cxAgentEnabled cx then False
      else (case extractBearerToken req of
              None \<Rightarrow> False
            | Some bearer \<Rightarrow> (case cxAgentToken cx of
                None \<Rightarrow> False | Some stored \<Rightarrow> timingSafeStringEqual bearer stored)))"

definition kAgentTokenPattern :: "string \<Rightarrow> bool" where
  "kAgentTokenPattern s \<longleftrightarrow> length s = 64 \<and> list_all (\<lambda>c. c \<in> set ''0123456789abcdef'') s"

datatype bearer_answer = BearerOk | BearerDisabled | BearerLimited int | BearerUnauthorized | BearerUnavailable

definition authorizeAgentBearer :: "'s auth_env \<Rightarrow> auth_ctx \<Rightarrow> request \<Rightarrow> string \<Rightarrow> 's auth \<Rightarrow>
    bearer_answer \<times> 's auth" where
  "authorizeAgentBearer env cx req bearer st =
     (if \<not> cxAgentEnabled cx then (BearerDisabled, st)
      else
        (let cfg = aeAgentThrottle env; ops = aeStore env; now = cxNow cx;
             (bundle, s1) = getOrCreateLoginAttemptState cfg ops (auAgentThrottle st) (rqClient req) now;
             ((evaluated, bundle'), s2) = evaluateLoginThrottle cfg ops s1 (Some bundle) now in
         if blocked evaluated then (BearerLimited (retryAfterSec evaluated), st\<lparr>auAgentThrottle := s2\<rparr>)
         else if \<not> kAgentTokenPattern bearer then (BearerUnauthorized, st\<lparr>auAgentThrottle := s2\<rparr>)
         else (case cxAgentToken cx of
                 None \<Rightarrow> (BearerUnavailable, st\<lparr>auAgentThrottle := s2\<rparr>)
               | Some stored \<Rightarrow>
                   (if timingSafeStringEqual bearer stored then
                      (BearerOk, st\<lparr>auAgentThrottle := recordLoginSuccess cfg ops s2 (rqClient req)\<rparr>)
                    else
                      (let ((failure, _), s3) = recordLoginFailure cfg ops s2 bundle' now in
                       (if locked failure then BearerLimited (max 1 (ceil_div (lockMs failure) 1000))
                        else BearerUnauthorized, st\<lparr>auAgentThrottle := s3\<rparr>))))))"

section \<open>The gates of a request\<close>

definition kSafeMethods :: "string list" where "kSafeMethods = [''GET'', ''HEAD'', ''OPTIONS'']"

definition refuseCrossOriginWrite :: "request \<Rightarrow> bool" where
  "refuseCrossOriginWrite req =
     (if \<not> starts_with ''/api/'' (map to_lower (rqUrl req)) then False
      else if map to_upper (rqMethod req) \<in> set kSafeMethods then False
      else rqCross req)"

datatype auth_answer =
    AuthMisconfigured
  | AuthExempt
  | AuthIdentity identity
  | AuthCrossOrigin
  | AuthAgent
  | AuthBearer bearer_answer
  | AuthUnauthorized
  | AuthLoginPage

definition pathname :: "string \<Rightarrow> string" where
  "pathname url = hd (split_at_char CHR ''?'' url)"

definition requireAuth :: "'s auth_env \<Rightarrow> auth_ctx \<Rightarrow> request \<Rightarrow> 's auth \<Rightarrow> auth_answer \<times> 's auth" where
  "requireAuth env cx req st =
     (if aePassword env = [] then (AuthMisconfigured, st)
      else if pathname (rqUrl req) \<in> {''/auth/google/callback'', ''/auth/codex/callback''} then (AuthExempt, st)
      else (case resolveRequestIdentity env cx req st of
              Some i \<Rightarrow> (if refuseCrossOriginWrite req then AuthCrossOrigin else AuthIdentity i, st)
            | None \<Rightarrow>
                (if starts_with ''/api/'' (rqUrl req) then
                   (case extractBearerToken req of
                      None \<Rightarrow> (AuthUnauthorized, st)
                    | Some bearer \<Rightarrow>
                        (case authorizeAgentBearer env cx req bearer st of
                           (BearerOk, st1) \<Rightarrow> (AuthAgent, st1)
                         | (answer, st1) \<Rightarrow> (AuthBearer answer, st1)))
                 else (AuthLoginPage, st))))"

definition kMemberApiReadPrefixes :: "string list" where
  "kMemberApiReadPrefixes = [''/api/auth'', ''/api/status'', ''/api/events'', ''/api/gateway-status'',
     ''/api/restart-status'', ''/api/onboard'', ''/api/usage'', ''/api/cron'', ''/api/chat'', ''/api/models'',
     ''/api/team'']"

definition kMemberApiWritePaths :: "string list" where "kMemberApiWritePaths = [''/api/auth/logout'']"

definition kMemberApiReadDenyPrefixes :: "string list" where
  "kMemberApiReadDenyPrefixes = [''/api/models/config'', ''/api/models/auth'']"

definition under :: "string \<Rightarrow> string \<Rightarrow> bool" where
  "under prefix path \<longleftrightarrow> path = prefix \<or> starts_with (prefix @ ''/'') path"

text \<open>Whether the request goes on; \<open>path\<close> is \<open>baseUrl\<close> and \<open>path\<close> of the request.\<close>

definition requireMemberScope :: "identity option \<Rightarrow> string \<Rightarrow> string \<Rightarrow> bool" where
  "requireMemberScope i method path =
     (case i of
        None \<Rightarrow> True
      | Some i \<Rightarrow>
          (if identity_role i = AdminRole then True
           else (let fullPath = map to_lower path; m = map to_upper method in
                 if m \<in> {''GET'', ''HEAD''} \<and> list_ex (\<lambda>p. under p fullPath) kMemberApiReadDenyPrefixes then False
                 else if m \<in> {''GET'', ''HEAD''} \<and> list_ex (\<lambda>p. under p fullPath) kMemberApiReadPrefixes then True
                 else fullPath \<in> set kMemberApiWritePaths)))"

text \<open>\<open>granted\<close>: the enforcement grant is attached and still describes the request.\<close>

definition requireAdmin :: "identity option \<Rightarrow> bool \<Rightarrow> bool \<Rightarrow> bool" where
  "requireAdmin i isAgent granted \<longleftrightarrow>
     (case i of Some i \<Rightarrow> identity_role i = AdminRole | None \<Rightarrow> False) \<or> (isAgent \<and> granted)"

definition isAuthorizedRequest :: "'s auth_env \<Rightarrow> auth_ctx \<Rightarrow> request \<Rightarrow> bool \<Rightarrow> 's auth \<Rightarrow> bool" where
  "isAuthorizedRequest env cx req allowBearer st =
     (if aePassword env = [] then False
      else if resolveRequestIdentity env cx req st \<noteq> None then True
      else allowBearer \<and> isValidAgentBearer cx req)"

definition resolveProxyIdentity :: "'s auth_env \<Rightarrow> auth_ctx \<Rightarrow> request \<Rightarrow> identity option \<Rightarrow> 's auth \<Rightarrow> identity option" where
  "resolveProxyIdentity env cx req known st =
     (case cxTeam cx of
        ReadSettings _ True _ \<Rightarrow>
          (case (case known of Some i \<Rightarrow> Some i | None \<Rightarrow> resolveRequestIdentity env cx req st) of
             Some (MemberIdentity i e n r) \<Rightarrow> Some (MemberIdentity i e n r)
           | _ \<Rightarrow> None)
      | _ \<Rightarrow> None)"

section \<open>Logout\<close>

datatype logout_answer = LogoutCrossOrigin | LogoutDone | LogoutNotSaved

text \<open>\<open>saved\<close>: the session state file can be written; \<open>secret\<close> is the member's next secret.\<close>

definition logout :: "'s auth_env \<Rightarrow> auth_ctx \<Rightarrow> request \<Rightarrow> bool \<Rightarrow> string \<Rightarrow> 's auth \<Rightarrow> logout_answer \<times> 's auth" where
  "logout env cx req saved secret st =
     (if refuseCrossOriginWrite req then (LogoutCrossOrigin, st)
      else (case cookieParser req ''setup_token'' of
              None \<Rightarrow> (LogoutDone, st)
            | Some token \<Rightarrow>
                (if starts_with ''v2.'' token then
                   (case verifyMemberSessionToken env (cxNow cx) token st of
                      None \<Rightarrow> (LogoutDone, st)
                    | Some m \<Rightarrow> (LogoutDone,
                        st\<lparr>auMembers := snd (rotateTokenSecret (cxNow cx) (mmId m) secret (auMembers st))\<rparr>))
                 else if verifySessionToken env (cxNow cx) token st then
                   (let (ok, st1) = endLegacySessions env saved st in
                    (if ok then LogoutDone else LogoutNotSaved, st1))
                 else (LogoutDone, st))))"

section \<open>Characters of tokens\<close>

definition b64_ok :: "char \<Rightarrow> bool" where
  "b64_ok c \<longleftrightarrow> (let n = (of_char c :: nat) in
     (65 \<le> n \<and> n \<le> 90) \<or> (97 \<le> n \<and> n \<le> 122) \<or> (48 \<le> n \<and> n \<le> 57) \<or> n = 45 \<or> n = 95)"


lemma b64_bits: "m < 256 \<Longrightarrow> m div 4 < (64 :: nat)" "m mod 4 * 16 < (64 :: nat)" "m mod 16 * 4 < (64 :: nat)"
  "n < 256 \<Longrightarrow> m mod 4 * 16 + n div 16 < (64 :: nat)" "n < 256 \<Longrightarrow> m mod 16 * 4 + n div 64 < (64 :: nat)"
proof -
  have a: "m mod 4 < 4" "m mod 16 < 16" by simp_all
  show "m mod 4 * 16 < 64" "m mod 16 * 4 < 64" using a by linarith+
  show "m < 256 \<Longrightarrow> m div 4 < 64" by linarith
  show "n < 256 \<Longrightarrow> m mod 4 * 16 + n div 16 < 64" using a by linarith
  show "n < 256 \<Longrightarrow> m mod 16 * 4 + n div 64 < 64" using a by linarith
qed

lemma b64_char_ok: "n < 64 \<Longrightarrow> b64_ok (b64_char n)"
  by (auto simp: b64_char_def b64_ok_def Let_def)

lemma base64url_ok: "list_all b64_ok (base64url s)"
proof (induction s rule: base64url.induct)
  case (4 a b c rest)
  then have "list_all b64_ok (base64url rest)" by blast
  then show ?case by (simp add: Let_def b64_char_ok b64_bits)
qed (simp_all add: Let_def b64_char_ok b64_bits)

lemma base64url_Nil: "base64url s = [] \<longleftrightarrow> s = []"
  by (cases s rule: base64url.cases) (simp_all add: Let_def)

lemma payload_ok: "list_all b64_ok (encodeSessionPayload now nonce)" "encodeSessionPayload now nonce \<noteq> []"
  unfolding encodeSessionPayload_def base64url_Nil by (rule base64url_ok, simp)

lemma b64_ok_not: "list_all b64_ok s \<Longrightarrow> c \<in> {CHR ''.'', CHR '';'', CHR ''='', CHR '' ''} \<Longrightarrow> c \<notin> set s"
  by (auto simp: list_all_iff b64_ok_def Let_def)

lemma b64_ok_not_space: "b64_ok c \<Longrightarrow> \<not> js_space c"
  by (auto simp: b64_ok_def js_space_def Let_def)

lemma split_two: "list_all b64_ok p \<Longrightarrow> list_all b64_ok s \<Longrightarrow>
    split_at_char CHR ''.'' (p @ CHR ''.'' # s) = [p, s]"
  using b64_ok_not by (simp add: split_at_char_append split_at_char_none)

lemma split_four: "list_all b64_ok i \<Longrightarrow> list_all b64_ok p \<Longrightarrow> list_all b64_ok s \<Longrightarrow>
    split_at_char CHR ''.'' (''v2.'' @ i @ ''.'' @ p @ ''.'' @ s) = [''v2'', i, p, s]"
proof -
  assume a: "list_all b64_ok i" "list_all b64_ok p" "list_all b64_ok s"
  have "split_at_char CHR ''.'' (''v2'' @ CHR ''.'' # i @ CHR ''.'' # p @ CHR ''.'' # s) = [''v2'', i, p, s]"
    using a b64_ok_not by (simp add: split_at_char_append split_at_char_none)
  then show ?thesis by simp
qed

text \<open>A header that carries just the session cookie.\<close>

definition token_char :: "char \<Rightarrow> bool" where
  "token_char c \<longleftrightarrow> b64_ok c \<or> c = CHR ''.''"

lemma cookie_header:
  assumes "rqCookie req = Some (''setup_token='' @ tok)" and "list_all token_char tok"
  shows "cookieParser req ''setup_token'' = Some tok"
proof -
  have no: "CHR '';'' \<notin> set tok" "CHR ''='' \<notin> set tok" and sp: "\<forall>c \<in> set tok. \<not> js_space c"
    using assms(2) by (auto simp: list_all_iff token_char_def b64_ok_def Let_def js_space_def)
  have "CHR '';'' \<notin> set (''setup_token='' @ tok)" using no by simp
  then have s1: "split_at_char CHR '';'' (''setup_token='' @ tok) = [''setup_token='' @ tok]"
    by (rule split_at_char_none)
  have "\<forall>c \<in> set (''setup_token='' @ tok). \<not> js_space c" using sp by (auto simp: js_space_def)
  then have tr: "js_trim (''setup_token='' @ tok) = ''setup_token='' @ tok"
    unfolding js_trim_def by (metis dropWhile_none rev_rev_ident set_rev)
  have "split_at_char CHR ''='' (''setup_token'' @ CHR ''='' # tok) = [''setup_token'', tok]"
    using no by (simp add: split_at_char_append split_at_char_none)
  then have "cookie_pair (''setup_token='' @ tok) = (''setup_token'', tok)"
    unfolding cookie_pair_def tr by simp
  then show ?thesis by (simp add: cookieParser_def assms(1) s1 del: append.simps)
qed

section \<open>Tokens verify\<close>

definition hmac_ok :: "'s auth_env \<Rightarrow> bool" where
  "hmac_ok env \<longleftrightarrow> (\<forall>k p. aeHmac env k p \<noteq> [] \<and> list_all b64_ok (aeHmac env k p))"

definition ids_ok :: "members_db \<Rightarrow> bool" where
  "ids_ok db \<longleftrightarrow> list_all (\<lambda>r. mbId r \<noteq> [] \<and> list_all b64_ok (mbId r)) (dbMembers db)"

lemma parse_payload: "aeClaims env (encodeSessionPayload now nonce) = Some (now + kSessionTtlMs) \<Longrightarrow>
    parseSessionPayload env t (encodeSessionPayload now nonce) \<longleftrightarrow> t < now + kSessionTtlMs"
  by (simp add: parseSessionPayload_def)

lemma session_token_verifies:
  assumes "hmac_ok env" and "aeClaims env (encodeSessionPayload now nonce) = Some (now + kSessionTtlMs)"
    and "aePassword env \<noteq> []" and "auKey st' = auKey st"
  shows "verifySessionToken env t (createSessionToken env now nonce st) st' \<longleftrightarrow> t < now + kSessionTtlMs"
proof -
  let ?p = "encodeSessionPayload now nonce"
  have sg: "aeHmac env (auKey st) ?p \<noteq> []" "list_all b64_ok (aeHmac env (auKey st) ?p)"
    using assms(1) by (simp_all add: hmac_ok_def)
  have "split_at_char CHR ''.'' (createSessionToken env now nonce st) = [?p, aeHmac env (auKey st) ?p]"
    by (simp add: createSessionToken_def Let_def split_two payload_ok sg)
  moreover have "createSessionToken env now nonce st \<noteq> []" by (simp add: createSessionToken_def Let_def)
  ultimately show ?thesis using assms sg payload_ok(2)
    by (simp add: verifySessionToken_def timingSafeStringEqual_def parse_payload)
qed

lemma member_token_verifies:
  assumes "hmac_ok env" and "aeClaims env (encodeSessionPayload now nonce) = Some (now + kSessionTtlMs)"
    and tok: "createMemberSessionToken env now nonce i st = Some tok"
    and "auMembers st' = auMembers st" and i: "i \<noteq> []" "list_all b64_ok i"
  shows "verifyMemberSessionToken env t tok st'
      = (if t < now + kSessionTtlMs then getMember i (auMembers st) else None)"
proof -
  let ?p = "encodeSessionPayload now nonce"
  obtain secret where sec: "getTokenSecret i (auMembers st) = Some secret" "secret \<noteq> []"
    and tk: "tok = ''v2.'' @ i @ ''.'' @ ?p @ ''.'' @ aeHmac env secret (i @ ''.'' @ ?p)"
    using tok by (auto simp: createMemberSessionToken_def Let_def split: option.splits if_splits)
  obtain row where row: "getMemberRowById i (auMembers st) = Some row" "\<not> mbDisabled row"
    using sec(1) by (auto simp: getTokenSecret_def split: option.splits if_splits)
  have sg: "aeHmac env secret (i @ ''.'' @ ?p) \<noteq> []" "list_all b64_ok (aeHmac env secret (i @ ''.'' @ ?p))"
    using assms(1) by (simp_all add: hmac_ok_def)
  have "split_at_char CHR ''.'' tok = [''v2'', i, ?p, aeHmac env secret (i @ ''.'' @ ?p)]"
    unfolding tk by (rule split_four [OF i(2) payload_ok(1) sg(2)])
  then show ?thesis using assms(2,4) i(1) sec sg payload_ok(2) row
    by (simp add: verifyMemberSessionToken_def timingSafeStringEqual_def parse_payload getMember_def toMemberModel_def)
qed

lemma b64_vs: "b64_ok CHR ''v''" "b64_ok CHR ''2''"
  by (simp_all add: b64_ok_def)

lemma member_token_chars:
  "hmac_ok env \<Longrightarrow> createMemberSessionToken env now nonce i st = Some tok \<Longrightarrow> list_all b64_ok i \<Longrightarrow>
     list_all token_char tok \<and> starts_with ''v2.'' tok"
  using payload_ok(1) [of now nonce] b64_vs
  by (auto simp: createMemberSessionToken_def Let_def hmac_ok_def list_all_iff token_char_def starts_with_def
      split: option.splits if_splits)

lemma session_token_chars:
  "hmac_ok env \<Longrightarrow> list_all token_char (createSessionToken env now nonce st)"
  using payload_ok(1) [of now nonce] by (auto simp: createSessionToken_def Let_def hmac_ok_def list_all_iff token_char_def)

text \<open>No owner token looks like a member's: its first dot comes after a whole payload.\<close>

lemma encode_length: "3 \<le> length (encodeSessionPayload now nonce)"
proof -
  have "3 \<le> length (base64url (a # b # c # s))" for a b c s by (simp add: Let_def)
  then show ?thesis by (simp add: encodeSessionPayload_def del: base64url.simps)
qed

lemma session_token_not_v2: "\<not> starts_with ''v2.'' (createSessionToken env now nonce st)"
proof
  let ?p = "encodeSessionPayload now nonce"
  assume "starts_with ''v2.'' (createSessionToken env now nonce st)"
  then have "take 3 ?p = ''v2.''" using encode_length [of now nonce]
    by (simp add: starts_with_def createSessionToken_def Let_def numeral_3_eq_3)
  then have "CHR ''.'' \<in> set (take 3 ?p)" by simp
  then have "CHR ''.'' \<in> set ?p" by (rule in_set_takeD)
  then show False using b64_ok_not payload_ok(1) by fastforce
qed

section \<open>What a login does\<close>

text \<open>The throttle keeps everything else of the state.\<close>

definition same_sessions :: "'s auth \<Rightarrow> 's auth \<Rightarrow> bool" where
  "same_sessions st t \<longleftrightarrow> auMembers t = auMembers st \<and> auSecret t = auSecret st \<and> auEpoch t = auEpoch st
     \<and> auKey t = auKey st \<and> auFile t = auFile st"

lemma same_sessions_refl [simp]: "same_sessions st st"
  by (simp add: same_sessions_def)

lemma same_sessions_trans: "same_sessions a b \<Longrightarrow> same_sessions b c \<Longrightarrow> same_sessions a c"
  by (simp add: same_sessions_def)

lemma checkThrottle_same: "same_sessions st (snd (checkThrottle env cx req st))"
  by (simp add: checkThrottle_def same_sessions_def Let_def split: prod.splits)

lemma recordFailure_same: "same_sessions st (snd (recordFailure env now b st))"
  by (simp add: recordFailure_def same_sessions_def Let_def split: prod.splits)

lemma recordSuccess_same: "same_sessions st (recordSuccess env req st)"
  by (simp add: recordSuccess_def same_sessions_def)

lemma recordFailure_refuses:
  "fst (recordFailure env now b st) \<noteq> LoginMember tok m" "fst (recordFailure env now b st) \<noteq> LoginLegacy tok"
  by (simp_all add: recordFailure_def Let_def split: prod.splits)

lemma token_same: "same_sessions st t \<Longrightarrow> createSessionToken env now nonce t = createSessionToken env now nonce st"
  "same_sessions st t \<Longrightarrow> createMemberSessionToken env now nonce i t = createMemberSessionToken env now nonce i st"
  by (simp_all add: same_sessions_def createSessionToken_def createMemberSessionToken_def)

lemma login_member_cases:
  assumes "login_member env cx req email pw nonce b st = (r, t)"
  shows "same_sessions st t \<and> (\<forall>tok. r \<noteq> LoginLegacy tok) \<and>
     (\<forall>tok m. r = LoginMember tok m \<longrightarrow> teamModeEnabled cx \<and>
        verifyMemberPassword (aeMembers env) email pw (auMembers st) = Some m \<and>
        createMemberSessionToken env (cxNow cx) nonce (mmId m) st = Some tok)"
  using assms recordFailure_same [of st env "cxNow cx" b] recordFailure_refuses [of env "cxNow cx" b st]
    recordSuccess_same [of st env req]
  by (auto simp: login_member_def split: if_splits option.splits)

lemma login_legacy_cases:
  assumes "login_legacy env cx req isString pw nonce b st = (r, t)"
  shows "same_sessions st t \<and> (\<forall>tok m. r \<noteq> LoginMember tok m) \<and>
     (\<forall>tok. r = LoginLegacy tok \<longrightarrow> \<not> legacyLoginDisabled env cx \<and> isString \<and>
        timingSafeStringEqual pw (aePassword env) \<and> tok = createSessionToken env (cxNow cx) nonce st)"
  using assms recordFailure_same [of st env "cxNow cx" b] recordFailure_refuses [of env "cxNow cx" b st]
    recordSuccess_same [of st env req] token_same(1) [OF recordSuccess_same]
  by (auto simp: login_legacy_def split: if_splits)

lemma login_cases:
  assumes l: "login env cx req email isString pw nonce st = (r, t)"
  shows "same_sessions st t"
    and "r = LoginMember tok m \<Longrightarrow> teamModeEnabled cx \<and>
        verifyMemberPassword (aeMembers env) (js_trim email) pw (auMembers st) = Some m \<and>
        createMemberSessionToken env (cxNow cx) nonce (mmId m) st = Some tok"
    and "r = LoginLegacy tok \<Longrightarrow> \<not> legacyLoginDisabled env cx \<and> isString \<and>
        timingSafeStringEqual pw (aePassword env) \<and> tok = createSessionToken env (cxNow cx) nonce st"
proof -
  obtain g st1 where g: "checkThrottle env cx req st = (g, st1)" by fastforce
  then have s1: "same_sessions st st1" using checkThrottle_same [of st env cx req] by simp
  then have m1: "auMembers st1 = auMembers st" by (simp add: same_sessions_def)
  consider (early) "t = st \<or> t = st1" "\<And>tok m. r \<noteq> LoginMember tok m" "\<And>tok. r \<noteq> LoginLegacy tok"
    | (member) b where "login_member env cx req (js_trim email) pw nonce b st1 = (r, t)"
    | (legacy) b where "login_legacy env cx req isString pw nonce b st1 = (r, t)"
    using l by (auto simp: login_def g split: if_splits sum.splits)
  note ways = this
  show "same_sessions st t"
    using ways
  proof cases
    case (member b)
    then show ?thesis using login_member_cases [OF member] same_sessions_trans [OF s1] by simp
  next
    case (legacy b)
    then show ?thesis using login_legacy_cases [OF legacy] same_sessions_trans [OF s1] by simp
  qed (use s1 in auto)
  show "r = LoginMember tok m \<Longrightarrow> teamModeEnabled cx \<and>
        verifyMemberPassword (aeMembers env) (js_trim email) pw (auMembers st) = Some m \<and>
        createMemberSessionToken env (cxNow cx) nonce (mmId m) st = Some tok"
    using ways
  proof cases
    case (member b)
    show "r = LoginMember tok m \<Longrightarrow> ?thesis"
      using login_member_cases [OF member] token_same(2) [OF s1] by (simp add: m1)
  next
    case (legacy b)
    show "r = LoginMember tok m \<Longrightarrow> ?thesis" using login_legacy_cases [OF legacy] by simp
  qed simp
  show "r = LoginLegacy tok \<Longrightarrow> \<not> legacyLoginDisabled env cx \<and> isString \<and>
        timingSafeStringEqual pw (aePassword env) \<and> tok = createSessionToken env (cxNow cx) nonce st"
    using ways
  proof cases
    case (legacy b)
    show "r = LoginLegacy tok \<Longrightarrow> ?thesis"
      using login_legacy_cases [OF legacy] token_same(1) [OF s1] by simp
  next
    case (member b)
    show "r = LoginLegacy tok \<Longrightarrow> ?thesis" using login_member_cases [OF member] by simp
  qed simp
qed

lemma verified_member_row:
  assumes "members_wf db" and "verifyMemberPassword env e pw db = Some m"
  shows "getMember (mmId m) db = Some m \<and> \<not> mmDisabled m \<and> (\<exists>r \<in> set (dbMembers db). mbId r = mmId m)"
proof -
  obtain row where row: "getMemberRowByEmail e db = Some row" "\<not> mbDisabled row" "m = toMemberModel row"
    using assms(2) by (auto simp: verifyMemberPassword_def split: option.splits if_splits)
  have r: "row \<in> set (dbMembers db)" using find_Some_set [OF row(1) [unfolded getMemberRowByEmail_def]] by blast
  then obtain q where q: "getMemberRowById (mbId row) db = Some q"
    by (cases "getMemberRowById (mbId row) db") (auto simp: getMemberRowById_def find_None_iff)
  then have "row = q" using row_by_id_unique [OF assms(1) q r] by simp
  then show ?thesis using q row r by (auto simp: getMember_def toMemberModel_def)
qed

section \<open>The service as a machine\<close>

datatype auth_op =
    Login auth_ctx request string bool string string
  | Accept auth_ctx request int int int accept_args member_fresh
  | Authorize auth_ctx request
  | Logout auth_ctx request bool string
  | MemberOp member_op
  | Restart string bool

fun auth_step :: "'s auth_env \<Rightarrow> 's auth \<Rightarrow> auth_op \<Rightarrow> 's auth" where
  "auth_step env st (Login cx req email isString pw nonce) = snd (login env cx req email isString pw nonce st)"
| "auth_step env st (Accept cx req t1 t2 t3 args fr) = snd (accept_invite env cx req t1 t2 t3 args fr st)"
| "auth_step env st (Authorize cx req) = snd (requireAuth env cx req st)"
| "auth_step env st (Logout cx req saved secret) = snd (logout env cx req saved secret st)"
| "auth_step env st (MemberOp a) = st\<lparr>auMembers := members_step (aeMembers env) (auMembers st) a\<rparr>"
| "auth_step env st (Restart fresh saved) = registerAuthRoutes env fresh saved st"

text \<open>The session secrets an operation draws at random.\<close>

fun member_draws :: "member_op \<Rightarrow> string list" where
  "member_draws (CreateMember _ _ fr) = [mfSecret fr]"
| "member_draws (RotateTokenSecret _ _ secret) = [secret]"
| "member_draws (AcceptInvite _ _ _ _ fr) = [mfSecret fr]"
| "member_draws _ = []"

fun draws :: "auth_op \<Rightarrow> string list" where
  "draws (Accept _ _ _ _ _ _ fr) = [mfSecret fr]"
| "draws (Logout _ _ _ secret) = [secret]"
| "draws (MemberOp a) = member_draws a"
| "draws (Restart fresh _) = [fresh]"
| "draws _ = []"

text \<open>A member's secret that is gone stays gone until it is drawn again.\<close>

definition secret_gone :: "string \<Rightarrow> string \<Rightarrow> members_db \<Rightarrow> bool" where
  "secret_gone i sec db \<longleftrightarrow> (\<forall>r \<in> set (dbMembers db). mbId r = i \<longrightarrow> mbSecret r \<noteq> sec)"

lemma secret_gone_update:
  "secret_gone i sec db \<Longrightarrow> (\<And>r. mbId (f r) = mbId r) \<Longrightarrow> (\<And>r. mbSecret (f r) = mbSecret r \<or> mbSecret (f r) \<noteq> sec) \<Longrightarrow>
     secret_gone i sec (db\<lparr>dbMembers := sql_update p f (dbMembers db)\<rparr>)"
  by (auto simp: secret_gone_def ball_sql_update split: if_splits) metis

lemma secret_gone_members: "dbMembers t = dbMembers db \<Longrightarrow> secret_gone i sec t = secret_gone i sec db"
  by (simp add: secret_gone_def)

lemma secret_gone_snoc: "secret_gone i sec db \<Longrightarrow> mbSecret r \<noteq> sec \<Longrightarrow> dbMembers t = dbMembers db @ [r] \<Longrightarrow> secret_gone i sec t"
  by (auto simp: secret_gone_def)

lemma acceptInvite_secret:
  assumes "secret_gone i sec db" and "mfSecret fr \<noteq> sec" and "acceptInvite env t1 t2 t3 args fr db = (r, t)"
  shows "secret_gone i sec t"
  using assms(3)
proof (cases rule: acceptInvite_cases)
  case (accepted peek email pw db1 db2 margs)
  have "dbMembers t = dbMembers db @ [new_member env t3 margs fr email pw]"
    using accepted(9,11) by (simp add: invites_only)
  then show ?thesis using assms(1,2) by (rule_tac secret_gone_snoc) (simp_all add: new_member_def)
qed (use assms in simp)

lemma members_step_secret:
  assumes "secret_gone i sec db" and "sec \<notin> set (member_draws a)"
  shows "secret_gone i sec (members_step env db a)"
proof (cases a)
  case (CreateMember now args fr)
  obtain r t where c: "createMember env now args fr db = (r, t)" by fastforce
  then have "secret_gone i sec t"
    by (cases rule: createMember_cases)
      (use assms in \<open>auto simp: CreateMember secret_gone_def new_member_def\<close>)
  then show ?thesis by (simp add: CreateMember c)
next
  case (AcceptInvite t1 t2 t3 args fr)
  obtain r t where a: "acceptInvite env t1 t2 t3 args fr db = (r, t)" by fastforce
  have "mfSecret fr \<noteq> sec" using assms(2) by (simp add: AcceptInvite)
  from acceptInvite_secret [OF assms(1) this a] show ?thesis by (simp add: AcceptInvite a)
next
  case (UpdateMember now j rl name dis)
  then show ?thesis using assms
    by (auto simp: updateMember_def Let_def intro: secret_gone_update split: option.splits)
next
  case (RemoveMember j)
  then show ?thesis using assms
    by (auto simp: removeMember_def secret_gone_def set_sql_delete split: option.splits)
next
  case (RotateTokenSecret now j secret)
  have "secret \<noteq> sec" using assms(2) by (simp add: RotateTokenSecret)
  then show ?thesis using assms(1) by (simp add: RotateTokenSecret rotateTokenSecret_def secret_gone_update)
next
  case (SetPassword now j pw salt)
  then show ?thesis using assms(1) by (simp add: setPassword_def secret_gone_update)
qed (use assms(1) in \<open>simp_all add: markInviteUsedBy_def invites_only secret_gone_def\<close>)

lemma accept_invite_cases:
  assumes "accept_invite env cx req t1 t2 t3 args fr st = (r, t)"
  shows "auSecret t = auSecret st \<and> auEpoch t = auEpoch st \<and> auKey t = auKey st \<and> auFile t = auFile st \<and>
    (auMembers t = auMembers st \<or> (\<exists>args'. auMembers t = snd (acceptInvite (aeMembers env) t1 t2 t3 args' fr (auMembers st))))"
proof -
  obtain g st1 where g: "checkThrottle env cx req st = (g, st1)" by fastforce
  then have s1: "same_sessions st st1" using checkThrottle_same [of st env cx req] by simp
  let ?args = "args\<lparr>aaToken := js_trim (aaToken args), aaEmail := js_trim (aaEmail args), aaName := js_trim (aaName args)\<rparr>"
  obtain q db where q: "acceptInvite (aeMembers env) t1 t2 t3 ?args fr (auMembers st1) = (q, db)" by fastforce
  have f: "same_sessions (st1\<lparr>auMembers := db\<rparr>) (snd (recordFailure env (cxNow cx) b (st1\<lparr>auMembers := db\<rparr>)))" for b
    by (rule recordFailure_same)
  have "t \<in> {st, st1} \<or> same_sessions (st1\<lparr>auMembers := db\<rparr>) t"
    using assms f recordSuccess_same [of "st1\<lparr>auMembers := db\<rparr>" env req]
    by (auto simp: accept_invite_def g Let_def q split: if_splits sum.splits accept_result.splits)
  then show ?thesis
  proof (elim disjE)
    assume "same_sessions (st1\<lparr>auMembers := db\<rparr>) t"
    moreover have "db = snd (acceptInvite (aeMembers env) t1 t2 t3 ?args fr (auMembers st))"
      using q s1 by (simp add: same_sessions_def)
    ultimately show ?thesis using s1 unfolding same_sessions_def by (auto intro: exI [of _ ?args])
  qed (use s1 in \<open>auto simp: same_sessions_def\<close>)
qed

lemma requireAuth_same: "same_sessions st (snd (requireAuth env cx req st))"
proof -
  have "same_sessions st (snd (authorizeAgentBearer env cx req b st))" for b
    by (simp add: authorizeAgentBearer_def same_sessions_def Let_def split: prod.splits option.splits)
  then show ?thesis
    by (auto simp: requireAuth_def split: option.splits prod.splits bearer_answer.splits)
      (metis snd_conv)+
qed

lemma logout_cases:
  assumes "logout env cx req saved secret st = (r, t)"
  obtains (nothing) "t = st"
  | (member) tok m where "cookieParser req ''setup_token'' = Some tok" "starts_with ''v2.'' tok"
      "verifyMemberSessionToken env (cxNow cx) tok st = Some m" "r = LogoutDone"
      "t = st\<lparr>auMembers := snd (rotateTokenSecret (cxNow cx) (mmId m) secret (auMembers st))\<rparr>"
  | (legacy) tok where "cookieParser req ''setup_token'' = Some tok" "\<not> starts_with ''v2.'' tok"
      "verifySessionToken env (cxNow cx) tok st" "endLegacySessions env saved st = (saved, t)"
      "r = (if saved then LogoutDone else LogoutNotSaved)"
proof (cases "refuseCrossOriginWrite req")
  case True
  then have "t = st" using assms by (simp add: logout_def)
  then show ?thesis by (rule nothing)
next
  case no: False
  show ?thesis
  proof (cases "cookieParser req ''setup_token''")
    case None
    then have "t = st" using assms no by (simp add: logout_def)
    then show ?thesis by (rule nothing)
  next
    case (Some tok)
    note l = assms [unfolded logout_def Some option.case if_not_P [OF no]]
    show ?thesis
    proof (cases "starts_with ''v2.'' tok")
      case v2: True
      show ?thesis
      proof (cases "verifyMemberSessionToken env (cxNow cx) tok st")
        case None
        then have "t = st" using l v2 by simp
        then show ?thesis by (rule nothing)
      next
        case m: (Some m)
        show ?thesis by (rule member [OF Some v2 m]) (use l v2 m in simp_all)
      qed
    next
      case v1: False
      show ?thesis
      proof (cases "verifySessionToken env (cxNow cx) tok st")
        case True
        obtain ok t1 where e: "endLegacySessions env saved st = (ok, t1)" by fastforce
        then have "ok = saved" by (simp add: endLegacySessions_def Let_def)
        then show ?thesis by (intro legacy [OF Some v1 True]) (use l v1 True e in simp_all)
      next
        case False
        then have "t = st" using l v1 by simp
        then show ?thesis by (rule nothing)
      qed
    qed
  qed
qed

lemma rotate_secret_gone: "secret_gone i sec db \<Longrightarrow> secret \<noteq> sec \<Longrightarrow> secret_gone i sec (snd (rotateTokenSecret now j secret db))"
  by (auto simp: rotateTokenSecret_def intro!: secret_gone_update)

lemma auth_step_secret:
  assumes "secret_gone i sec (auMembers st)" and "sec \<notin> set (draws a)"
  shows "secret_gone i sec (auMembers (auth_step env st a))"
proof (cases a)
  case (Login cx req email isString pw nonce)
  obtain r t where l: "login env cx req email isString pw nonce st = (r, t)" by fastforce
  then show ?thesis using login_cases(1) [OF l] assms(1) by (simp add: Login same_sessions_def)
next
  case (Accept cx req t1 t2 t3 args fr)
  obtain r t where a: "accept_invite env cx req t1 t2 t3 args fr st = (r, t)" by fastforce
  have "mfSecret fr \<noteq> sec" using assms(2) by (simp add: Accept)
  then have "secret_gone i sec (snd (acceptInvite (aeMembers env) t1 t2 t3 args' fr (auMembers st)))" for args'
    using acceptInvite_secret [OF assms(1)] by (metis prod.collapse)
  then show ?thesis using accept_invite_cases [OF a] assms(1) by (auto simp: Accept a)
next
  case (Authorize cx req)
  then show ?thesis using requireAuth_same [of st env cx req] assms(1) by (simp add: same_sessions_def)
next
  case (Logout cx req saved secret)
  obtain r t where l: "logout env cx req saved secret st = (r, t)" by fastforce
  then have "secret_gone i sec (auMembers t)"
    by (cases rule: logout_cases)
      (use assms in \<open>auto simp: Logout endLegacySessions_def Let_def intro: rotate_secret_gone\<close>)
  then show ?thesis by (simp add: Logout l)
next
  case (MemberOp b)
  then show ?thesis using members_step_secret [OF assms(1)] assms(2) by simp
next
  case (Restart fresh saved)
  then show ?thesis using assms(1) by (simp add: registerAuthRoutes_def Let_def split: prod.splits)
qed

interpretation member_secrets: machine "auth_step env" "\<lambda>st. secret_gone i sec (auMembers st)"
    "\<lambda>a. sec \<notin> set (draws a)" for env i sec
  by unfold_locales (rule auth_step_secret)

text \<open>An owner key that is gone stays gone: the epoch only grows, in the process and in the file.\<close>

definition hmac_inj :: "'s auth_env \<Rightarrow> bool" where
  "hmac_inj env \<longleftrightarrow> (\<forall>k p k' p'. aeHmac env k p = aeHmac env k' p' \<longrightarrow> k = k' \<and> p = p')"

definition key_wf :: "'s auth_env \<Rightarrow> 's auth \<Rightarrow> bool" where
  "key_wf env st \<longleftrightarrow> auKey st = deriveLegacySessionKey env (auSecret st) (auEpoch st)"

definition key_gone :: "string \<Rightarrow> nat \<Rightarrow> 's auth \<Rightarrow> bool" where
  "key_gone s e st \<longleftrightarrow> \<not> (auSecret st = s \<and> auEpoch st \<le> e)
     \<and> (case auFile st of None \<Rightarrow> True | Some v \<Rightarrow> \<not> (fst v = s \<and> snd v \<le> e))"

lemma hmac_injD: "hmac_inj env \<Longrightarrow> aeHmac env k p = aeHmac env k' p' \<Longrightarrow> k = k' \<and> p = p'"
  unfolding hmac_inj_def by blast

lemma derive_inj:
  assumes "hmac_inj env" and "deriveLegacySessionKey env s e = deriveLegacySessionKey env s' e'"
  shows "s = s' \<and> e = e'"
proof -
  have "s = s' \<and> ''alphaclaw-legacy-session|'' @ string_of_nat e @ ''|'' @ aePassword env
      = ''alphaclaw-legacy-session|'' @ string_of_nat e' @ ''|'' @ aePassword env"
    by (rule hmac_injD [OF assms(1) assms(2) [unfolded deriveLegacySessionKey_def]])
  then have "s = s'" and "string_of_nat e = string_of_nat e'" by simp_all
  then show ?thesis using string_of_nat_inj [of e e'] by blast
qed

lemma key_gone_same: "same_sessions st t \<Longrightarrow> key_wf env t = key_wf env st \<and> key_gone s e t = key_gone s e st"
  by (simp add: same_sessions_def key_wf_def key_gone_def)

lemma auth_step_key:
  assumes "key_wf env st \<and> key_gone s e st" and "s \<notin> set (draws a)"
  shows "key_wf env (auth_step env st a) \<and> key_gone s e (auth_step env st a)"
proof (cases a)
  case (Login cx req email isString pw nonce)
  obtain r t where l: "login env cx req email isString pw nonce st = (r, t)" by fastforce
  then show ?thesis using key_gone_same [OF login_cases(1) [OF l]] assms(1) by (simp add: Login)
next
  case (Accept cx req t1 t2 t3 args fr)
  obtain r t where a: "accept_invite env cx req t1 t2 t3 args fr st = (r, t)" by fastforce
  then show ?thesis using accept_invite_cases [OF a] assms(1) by (simp add: Accept key_wf_def key_gone_def)
next
  case (Authorize cx req)
  then show ?thesis using assms(1) by (simp add: key_gone_same [OF requireAuth_same])
next
  case (Logout cx req saved secret)
  obtain r t where l: "logout env cx req saved secret st = (r, t)" by fastforce
  then have "key_wf env t \<and> key_gone s e t"
  proof (cases rule: logout_cases)
    case (legacy tok)
    then show ?thesis using assms(1)
      by (cases saved) (auto simp: endLegacySessions_def Let_def key_wf_def key_gone_def split: option.splits)
  qed (use assms(1) in \<open>simp_all add: key_wf_def key_gone_def\<close>)
  then show ?thesis by (simp add: Logout l)
next
  case (Restart fresh saved)
  then have "fresh \<noteq> s" using assms(2) by auto
  then show ?thesis using assms(1)
    by (auto simp: Restart registerAuthRoutes_def key_wf_def key_gone_def split: option.splits)
qed (use assms(1) in \<open>simp add: key_wf_def key_gone_def\<close>)

interpretation owner_keys: machine "auth_step env" "\<lambda>st. key_wf env st \<and> key_gone s e st" "\<lambda>a. s \<notin> set (draws a)"
    for env s e
  by unfold_locales (rule auth_step_key)

text \<open>A token that verifies carries the current signature.\<close>

lemma member_token_signed:
  assumes "verifyMemberSessionToken env n tok st = Some m"
  obtains p sg secret row where "split_at_char CHR ''.'' tok = [''v2'', mmId m, p, sg]"
    "sg = aeHmac env secret (mmId m @ ''.'' @ p)" "row \<in> set (dbMembers (auMembers st))" "mbId row = mmId m"
    "mbSecret row = secret"
proof -
  obtain v i p sg where sp: "split_at_char CHR ''.'' tok = [v, i, p, sg]"
    using assms by (auto simp: verifyMemberSessionToken_def split: list.splits)
  obtain secret where v: "v = ''v2''" and sec: "getTokenSecret i (auMembers st) = Some secret"
    and sg: "sg = aeHmac env secret (i @ ''.'' @ p)" and gm: "getMember i (auMembers st) = Some m"
    using assms by (auto simp: verifyMemberSessionToken_def sp timingSafeStringEqual_def split: if_splits option.splits)
  obtain row where row: "getMemberRowById i (auMembers st) = Some row" "m = toMemberModel row" "mbSecret row = secret"
    using sec gm by (auto simp: getTokenSecret_def getMember_def split: option.splits if_splits)
  have "row \<in> set (dbMembers (auMembers st))" "mbId row = i"
    using find_Some_set [OF row(1) [unfolded getMemberRowById_def]] by auto
  moreover have "mmId m = i" using calculation row(2) by (simp add: toMemberModel_def)
  ultimately show ?thesis using that sp v sg row(3) by simp
qed

lemma member_token_ended:
  assumes inj: "hmac_inj env" and v: "verifyMemberSessionToken env n tok st = Some m"
    and row: "members_wf (auMembers st)" "row \<in> set (dbMembers (auMembers st))" "mbId row = mmId m"
    and gone: "secret_gone (mmId m) (mbSecret row) (auMembers t)"
  shows "verifyMemberSessionToken env n' tok t = None"
proof (rule ccontr)
  assume "verifyMemberSessionToken env n' tok t \<noteq> None"
  then obtain m' where v': "verifyMemberSessionToken env n' tok t = Some m'" by auto
  from v obtain p sg sec r where a: "split_at_char CHR ''.'' tok = [''v2'', mmId m, p, sg]"
      "sg = aeHmac env sec (mmId m @ ''.'' @ p)" "r \<in> set (dbMembers (auMembers st))" "mbId r = mmId m" "mbSecret r = sec"
    by (rule member_token_signed)
  from v' obtain p' sg' sec' r' where b: "split_at_char CHR ''.'' tok = [''v2'', mmId m', p', sg']"
      "sg' = aeHmac env sec' (mmId m' @ ''.'' @ p')" "r' \<in> set (dbMembers (auMembers t))" "mbId r' = mmId m'" "mbSecret r' = sec'"
    by (rule member_token_signed)
  have m': "mmId m' = mmId m" "sg' = sg" using a(1) b(1) by simp_all
  then have "sec' = sec" using hmac_injD [OF inj, of sec' _ sec] a(2) b(2) by metis
  moreover have "r = row"
    using row(1) inj_onD [of mbId "set (dbMembers (auMembers st))" r row] a(3,4) row(2,3)
    by (simp add: members_wf_def distinct_map)
  ultimately show False using gone b(3,4,5) a(5) m'(1) by (simp add: secret_gone_def)
qed

lemma owner_token_ended:
  assumes "hmac_inj env" and "verifySessionToken env n tok st" and "auKey t \<noteq> auKey st"
  shows "\<not> verifySessionToken env n' tok t"
proof
  assume v': "verifySessionToken env n' tok t"
  have sg: "\<exists>p sg. split_at_char CHR ''.'' tok = [p, sg] \<and> sg = aeHmac env (auKey u) p"
    if "verifySessionToken env k tok u" for k and u :: "'a auth"
    using that by (auto simp: verifySessionToken_def timingSafeStringEqual_def split: list.splits if_splits)
  from sg [OF assms(2)] sg [OF v'] obtain p where "aeHmac env (auKey t) p = aeHmac env (auKey st) p" by auto
  then show False using hmac_injD [OF assms(1)] assms(3) by blast
qed

section \<open>A locked bucket stops every entrance\<close>

definition bucket_locked :: "throttle_config \<Rightarrow> string \<Rightarrow> int \<Rightarrow> (string \<rightharpoonup> login_state) \<Rightarrow> bool" where
  "bucket_locked cfg c now m \<longleftrightarrow>
     (\<exists>T > now. locked_until T m (getClientStateKey c (scope cfg)) \<or> locked_until T m (getGlobalStateKey (scope cfg)))"

lemma evaluateLogin_client_blocked:
  assumes "locked_until T m ck" and "now < T" and "fst (bundle_keys cfg b) = ck"
    and "evaluateLoginThrottle cfg map_ops m b now = ((r, b'), m')"
  shows "blocked r"
proof -
  obtain gk where keys: "bundle_keys cfg b = (ck, gk)" using assms(3) by (cases "bundle_keys cfg b") simp
  obtain c m1 where e1: "evaluateState map_ops m ck now (windowMs (clientLimits cfg))
      = ((c, \<lparr>blocked = True, retryAfterSec = retry_seconds (T - now)\<rparr>), m1)"
    using evaluate_blocked [OF assms(1,2)] by blast
  obtain g gr m2 where e2: "evaluateState map_ops m1 gk now (windowMs (globalLimits cfg)) = ((g, gr), m2)"
    by (metis prod.exhaust)
  show ?thesis using assms(4) by (auto simp: evaluateLoginThrottle_def keys e1 e2 chooseThrottleResult_def Let_def)
qed

lemma map_gate_blocked:
  assumes "bucket_locked cfg c now m" and g: "getOrCreateLoginAttemptState cfg map_ops m c now = (b, m1)"
    and e: "evaluateLoginThrottle cfg map_ops m1 (Some b) now = ((r, b'), m2)"
  shows "blocked r"
proof -
  obtain T k where T: "now < T" and k: "k = getClientStateKey c (scope cfg) \<or> k = getGlobalStateKey (scope cfg)"
    and l: "locked_until T m k" using assms(1) by (auto simp: bucket_locked_def)
  obtain c0 g0 u where u: "getOrCreateState map_ops m (getClientStateKey c (scope cfg)) now = (c0, u)"
      and v: "getOrCreateState map_ops u (getGlobalStateKey (scope cfg)) now = (g0, m1)"
      and b: "b = \<lparr>bundleClientKey = c, clientStateKey = getClientStateKey c (scope cfg),
        globalStateKey = getGlobalStateKey (scope cfg), bundleClient = c0, bundleGlobal = g0\<rparr>"
    using g by (auto simp: getOrCreateLoginAttemptState_def Let_def split: prod.splits)
  have "locked_until T m1 k" using getOrCreate_lock [OF l u] getOrCreate_lock [OF _ v] by blast
  moreover have "bundle_keys cfg (Some b) = (getClientStateKey c (scope cfg), getGlobalStateKey (scope cfg))"
    by (simp add: bundle_keys_def b)
  ultimately show ?thesis using k
    by (auto intro: evaluateLogin_client_blocked [OF _ T _ e] evaluateLogin_global_blocked [OF _ T _ e, THEN conjunct1])
qed

context throttle_store
begin

lemma gate_blocked:
  assumes "invar s" and "bucket_locked cfg c now (store_get ops s)"
    and g: "getOrCreateLoginAttemptState cfg ops s c now = (b, s1)"
    and e: "evaluateLoginThrottle cfg ops s1 (Some b) now = ((r, b'), s2)"
  shows "blocked r"
proof -
  have "throttle_step cfg ops s (OpenBundle c now) = (BundleResponse b, s1)" by (simp add: g)
  from step_refines [OF assms(1) this] have s1: "invar s1"
    and m1: "getOrCreateLoginAttemptState cfg map_ops (store_get ops s) c now = (b, store_get ops s1)"
    by (cases "getOrCreateLoginAttemptState cfg map_ops (store_get ops s) c now"; simp)+
  have "throttle_step cfg ops s1 (CheckLogin (Some b) now) = (CheckResponse r b', s2)" by (simp add: e)
  from step_refines [OF s1 this]
  have "evaluateLoginThrottle cfg map_ops (store_get ops s1) (Some b) now = ((r, b'), store_get ops s2)"
    by (cases "evaluateLoginThrottle cfg map_ops (store_get ops s1) (Some b) now") (auto split: prod.splits)
  from map_gate_blocked [OF assms(2) m1 this] show ?thesis .
qed

lemma checkThrottle_blocked:
  assumes "aeStore env = ops" and "invar (auThrottle st)"
    and "bucket_locked (aeThrottle env) (rqClient req) (cxNow cx) (store_get ops (auThrottle st))"
  shows "\<exists>sec. fst (checkThrottle env cx req st) = Inl sec"
proof -
  obtain b s1 where g: "getOrCreateLoginAttemptState (aeThrottle env) ops (auThrottle st) (rqClient req) (cxNow cx) = (b, s1)"
    by fastforce
  obtain r b' s2 where e: "evaluateLoginThrottle (aeThrottle env) ops s1 (Some b) (cxNow cx) = ((r, b'), s2)"
    by (metis prod.exhaust)
  show ?thesis using gate_blocked [OF assms(2,3) g e] by (simp add: checkThrottle_def assms(1) g e)
qed

lemma bearer_blocked:
  assumes "aeStore env = ops" and "invar (auAgentThrottle st)"
    and "bucket_locked (aeAgentThrottle env) (rqClient req) (cxNow cx) (store_get ops (auAgentThrottle st))"
  shows "fst (authorizeAgentBearer env cx req bearer st) \<noteq> BearerOk"
proof -
  obtain b s1 where g: "getOrCreateLoginAttemptState (aeAgentThrottle env) ops (auAgentThrottle st) (rqClient req) (cxNow cx) = (b, s1)"
    by fastforce
  obtain r b' s2 where e: "evaluateLoginThrottle (aeAgentThrottle env) ops s1 (Some b) (cxNow cx) = ((r, b'), s2)"
    by (metis prod.exhaust)
  show ?thesis using gate_blocked [OF assms(2,3) g e] by (simp add: authorizeAgentBearer_def assms(1) g e)
qed

end

section \<open>Properties\<close>

text \<open>A session round-trips. The cookie a login sets identifies its later requests, through the
  cookie header, the token format, the signature and the payload, exactly until seven days after the
  login: a member login as that member while team mode is on, a shared-password login as the owner
  while that login is not disabled. \<open>JSON.parse\<close> reading back the \<open>exp\<close> that was written and the
  alphabet of \<open>digest("base64url")\<close> are the hypotheses about the standard library.\<close>

lemma session_roundtrip:
  assumes "hmac_ok env" and "aeClaims env (encodeSessionPayload (cxNow cx) nonce) = Some (cxNow cx + kSessionTtlMs)"
    and "aePassword env \<noteq> []" and "members_wf (auMembers st)" and "ids_ok (auMembers st)"
    and "login env cx req email isString pw nonce st = (r, st')"
    and "rqCookie req' = Some (''setup_token='' @ tok)"
  shows "(r = LoginMember tok m \<longrightarrow> resolveRequestIdentity env cx' req' st' =
       (if teamModeEnabled cx' \<and> cxNow cx' < cxNow cx + kSessionTtlMs
        then Some (MemberIdentity (mmId m) (mmEmail m) (mmName m) (mmRole m)) else None))
   \<and> (r = LoginLegacy tok \<longrightarrow> resolveRequestIdentity env cx' req' st' =
       (if \<not> legacyLoginDisabled env cx' \<and> cxNow cx' < cxNow cx + kSessionTtlMs
        then Some LegacyIdentity else None))"
proof (intro conjI impI)
  have sm: "auMembers st' = auMembers st" "auKey st' = auKey st"
    using login_cases(1) [OF assms(6)] by (simp_all add: same_sessions_def)
  show "r = LoginMember tok m \<Longrightarrow> resolveRequestIdentity env cx' req' st' =
       (if teamModeEnabled cx' \<and> cxNow cx' < cxNow cx + kSessionTtlMs
        then Some (MemberIdentity (mmId m) (mmEmail m) (mmName m) (mmRole m)) else None)"
  proof -
    assume "r = LoginMember tok m"
    note l = login_cases(2) [OF assms(6) this]
    have gm: "getMember (mmId m) (auMembers st) = Some m" and i: "mmId m \<noteq> []" "list_all b64_ok (mmId m)"
      using verified_member_row [OF assms(4)] l assms(5) by (fastforce simp: ids_ok_def list_all_iff)+
    have c: "list_all token_char tok" "starts_with ''v2.'' tok"
      using member_token_chars [OF assms(1)] l i(2) by blast+
    have "verifyMemberSessionToken env (cxNow cx') tok st' = (if cxNow cx' < cxNow cx + kSessionTtlMs then Some m else None)"
      using member_token_verifies [OF assms(1,2) _ sm(1) i] l gm by simp
    then show ?thesis using assms(3) cookie_header [OF assms(7) c(1)] c(2)
      by (auto simp: resolveRequestIdentity_def starts_with_def)
  qed
  show "r = LoginLegacy tok \<Longrightarrow> resolveRequestIdentity env cx' req' st' =
       (if \<not> legacyLoginDisabled env cx' \<and> cxNow cx' < cxNow cx + kSessionTtlMs
        then Some LegacyIdentity else None)"
  proof -
    assume "r = LoginLegacy tok"
    then have tok: "tok = createSessionToken env (cxNow cx) nonce st" using login_cases(3) [OF assms(6)] by simp
    have "tok \<noteq> []" by (simp add: tok createSessionToken_def Let_def)
    moreover have "verifySessionToken env (cxNow cx') tok st' \<longleftrightarrow> cxNow cx' < cxNow cx + kSessionTtlMs"
      unfolding tok using session_token_verifies [OF assms(1-3) sm(2)] .
    ultimately show ?thesis
      using assms(3) cookie_header [OF assms(7)] session_token_chars [OF assms(1)]
      by (simp add: resolveRequestIdentity_def tok session_token_not_v2)
  qed
qed

definition sample_tcfg :: throttle_config where
  "sample_tcfg = \<lparr>scope = ''login'', clientLimits = \<lparr>windowMs = 600000, maxAttempts = 5, baseLockMs = 60000, maxLockMs = 900000\<rparr>,
     globalLimits = \<lparr>windowMs = 600000, maxAttempts = 50, baseLockMs = 60000, maxLockMs = 900000\<rparr>, stateTtlMs = 3600000\<rparr>"

definition sample_aenv :: "memory_states auth_env" where
  "sample_aenv = \<lparr>aeMembers = sample_menv, aePassword = ''owner'', aeHmac = (\<lambda>k p. ''A''),
     aeClaims = (\<lambda>p. if p = encodeSessionPayload 5 ''n'' then Some (5 + kSessionTtlMs) else None),
     aeHatch = False, aeThrottle = sample_tcfg, aeAgentThrottle = sample_tcfg,
     aeStore = createMemoryLoginThrottleStore\<rparr>"

definition sample_auth :: "memory_states auth" where
  "sample_auth = \<lparr>auMembers = sample_mdb, auSecret = ''s'', auEpoch = 0, auKey = ''k'', auFile = None,
     auThrottle = [], auAgentThrottle = []\<rparr>"

definition sample_ctx :: "int \<Rightarrow> auth_ctx" where
  "sample_ctx now = \<lparr>cxNow = now, cxTeam = ReadSettings False True False, cxAgentEnabled = False, cxAgentToken = None\<rparr>"

definition sample_req :: "string option \<Rightarrow> request" where
  "sample_req c = \<lparr>rqMethod = ''GET'', rqUrl = ''/api/status'', rqCookie = c, rqAuthorization = None, rqCross = False,
     rqClient = ''1.2.3.4''\<rparr>"

lemma sample_aenv_ok: "hmac_ok sample_aenv" "aePassword sample_aenv \<noteq> []"
  "aeClaims sample_aenv (encodeSessionPayload 5 ''n'') = Some (5 + kSessionTtlMs)"
  by (simp_all add: hmac_ok_def sample_aenv_def b64_ok_def)

lemma sample_auth_ok: "members_wf (auMembers sample_auth)" "ids_ok (auMembers sample_auth)"
  using sample_mdb_wf
  by (simp_all add: sample_auth_def ids_ok_def sample_mdb_def sample_member_def b64_ok_def)

lemma sample_verify: "verifyMemberPassword sample_menv ''bob@x.io'' ''password'' sample_mdb
    = Some (toMemberModel (sample_member ''b'' ''bob@x.io'' MemberRole))"
proof -
  have "normalizeEmail ''bob@x.io'' = ''bob@x.io''" by (rule normalizeEmail_stored [OF sample_emails(2)])
  then show ?thesis
    by (simp add: verifyMemberPassword_def getMemberRowByEmail_def sample_mdb_def sample_member_def to_lower_def
        verifyPassword_def sample_menv_def timingSafeStringEqual_def)
qed

lemma sample_login: "\<exists>tok st'. login sample_aenv (sample_ctx 5) (sample_req None) ''bob@x.io'' True ''password'' ''n'' sample_auth
    = (LoginMember tok (toMemberModel (sample_member ''b'' ''bob@x.io'' MemberRole)), st')"
proof -
  obtain g st1 where g: "checkThrottle sample_aenv (sample_ctx 5) (sample_req None) sample_auth = (g, st1)" by fastforce
  then have m: "auMembers st1 = sample_mdb"
    using checkThrottle_same [of sample_auth sample_aenv "sample_ctx 5" "sample_req None"]
    by (simp add: same_sessions_def sample_auth_def)
  obtain b where b: "g = Inr b"
    using g by (simp add: checkThrottle_def sample_aenv_def sample_ctx_def sample_req_def sample_auth_def
        getOrCreateLoginAttemptState_def getOrCreateState_def evaluateLoginThrottle_def evaluateState_def
        createMemoryLoginThrottleStore_def sample_tcfg_def Let_def bundle_keys_def chooseThrottleResult_def
        getClientStateKey_def getGlobalStateKey_def kLoginThrottleScope_def createLoginAttemptState_def
        normalizeState_def split: if_splits) blast
  have t: "js_trim ''bob@x.io'' = ''bob@x.io''" by (simp add: js_trim_def js_space_def)
  have s: "getTokenSecret ''b'' sample_mdb = Some ''secretb''"
    by (simp add: getTokenSecret_def getMemberRowById_def sample_mdb_def sample_member_def)
  obtain tok where tok: "createMemberSessionToken sample_aenv 5 ''n'' ''b'' st1 = Some tok"
    by (simp add: createMemberSessionToken_def m s Let_def)
  have cx: "teamModeEnabled (sample_ctx 5)" "cxNow (sample_ctx 5) = 5" "\<not> fst (readTeamSettingsSafe (sample_ctx 5))"
    by (simp_all add: sample_ctx_def teamModeEnabled_def readTeamSettingsSafe_def)
  have e: "aeMembers sample_aenv = sample_menv" by (simp add: sample_aenv_def)
  have i: "mmId (toMemberModel (sample_member ''b'' ''bob@x.io'' MemberRole)) = ''b''"
    by (simp add: toMemberModel_def sample_member_def)
  show ?thesis
    by (simp add: login_def g b t login_member_def m cx e i tok sample_verify sample_aenv_ok(2))
qed

definition fresh_draws :: "'s auth \<Rightarrow> string list \<Rightarrow> bool" where
  "fresh_draws st ds \<longleftrightarrow> auSecret st \<notin> set ds \<and> (\<forall>r \<in> set (dbMembers (auMembers st)). mbSecret r \<notin> set ds)"

lemma logout_ends_member:
  assumes inj: "hmac_inj env" and wf: "members_wf (auMembers st)" and v: "verifyMemberSessionToken env n tok st = Some m"
    and fresh: "fresh_draws st (secret # concat (map draws ops))"
    and st1: "st1 = st\<lparr>auMembers := snd (rotateTokenSecret now (mmId m) secret (auMembers st))\<rparr>"
  shows "verifyMemberSessionToken env n' tok (run (auth_step env) st1 ops) = None"
proof -
  from v obtain p sg sec row where row: "row \<in> set (dbMembers (auMembers st))" "mbId row = mmId m" "mbSecret row = sec"
    by (rule member_token_signed)
  then have sec: "mbSecret row \<noteq> secret" "\<forall>a \<in> set ops. mbSecret row \<notin> set (draws a)"
    using fresh by (auto simp: fresh_draws_def)
  have "secret_gone (mmId m) (mbSecret row) (auMembers st1)"
    using sec(1) by (auto simp: st1 secret_gone_def rotateTokenSecret_def ball_sql_update)
  then have "secret_gone (mmId m) (mbSecret row) (auMembers (run (auth_step env) st1 ops))"
    by (rule member_secrets.run_inv) (use sec(2) in \<open>simp add: list_all_iff\<close>)
  then show ?thesis by (rule member_token_ended [OF inj v wf row(1,2)])
qed

lemma logout_ends_owner:
  assumes inj: "hmac_inj env" and wf: "key_wf env st" and v: "verifySessionToken env n tok st"
    and fresh: "fresh_draws st (secret # concat (map draws ops))"
    and st1: "endLegacySessions env True st = (True, st1)"
  shows "\<not> verifySessionToken env n' tok (run (auth_step env) st1 ops)"
proof (rule owner_token_ended [OF inj v])
  have "key_wf env st1 \<and> key_gone (auSecret st) (auEpoch st) st1"
    using st1 by (auto simp: endLegacySessions_def Let_def key_wf_def key_gone_def)
  then have "key_wf env (run (auth_step env) st1 ops) \<and> key_gone (auSecret st) (auEpoch st) (run (auth_step env) st1 ops)"
    by (rule owner_keys.run_inv) (use fresh in \<open>auto simp: fresh_draws_def list_all_iff\<close>)
  then show "auKey (run (auth_step env) st1 ops) \<noteq> auKey st"
    using wf derive_inj [OF inj, of "auSecret (run (auth_step env) st1 ops)"
      "auEpoch (run (auth_step env) st1 ops)" "auSecret st" "auEpoch st"]
    by (auto simp: key_wf_def key_gone_def)
qed

text \<open>C8. Logging out ends every session of that person. After a logout with a member's session, no
  token that was valid for that member, on any device, is valid again; after a saved logout with the
  owner's session, no owner token that was valid before is. This holds whatever follows: logins,
  invites, roster changes, other logouts, restarts. The random draws are assumed new and the HMAC
  free of collisions.\<close>

theorem logout_ends_sessions:
  assumes "hmac_inj env" and "members_wf (auMembers st)" and "key_wf env st"
    and "logout env cx req saved secret st = (LogoutDone, st1)"
    and "cookieParser req ''setup_token'' = Some tok"
    and "fresh_draws st (secret # concat (map draws ops))"
  shows "(\<forall>m n n' tok' m'. starts_with ''v2.'' tok \<longrightarrow> verifyMemberSessionToken env (cxNow cx) tok st = Some m \<longrightarrow>
       verifyMemberSessionToken env n tok' st = Some m' \<longrightarrow> mmId m' = mmId m \<longrightarrow>
       verifyMemberSessionToken env n' tok' (run (auth_step env) st1 ops) = None)
   \<and> (\<forall>n n' tok'. \<not> starts_with ''v2.'' tok \<longrightarrow> verifySessionToken env (cxNow cx) tok st \<longrightarrow>
       verifySessionToken env n tok' st \<longrightarrow> \<not> verifySessionToken env n' tok' (run (auth_step env) st1 ops))"
proof -
  have nx: "\<not> refuseCrossOriginWrite req" using assms(4) by (auto simp: logout_def)
  show ?thesis
  proof (intro conjI allI impI)
    fix m n n' tok' m'
    assume v2: "starts_with ''v2.'' tok" and m: "verifyMemberSessionToken env (cxNow cx) tok st = Some m"
      and v: "verifyMemberSessionToken env n tok' st = Some m'" and i: "mmId m' = mmId m"
    have "st1 = st\<lparr>auMembers := snd (rotateTokenSecret (cxNow cx) (mmId m') secret (auMembers st))\<rparr>"
      using assms(4) by (simp add: logout_def nx assms(5) v2 m i)
    then show "verifyMemberSessionToken env n' tok' (run (auth_step env) st1 ops) = None"
      by (rule logout_ends_member [OF assms(1,2) v assms(6)])
  next
    fix n n' tok'
    assume v1: "\<not> starts_with ''v2.'' tok" "verifySessionToken env (cxNow cx) tok st"
      and v: "verifySessionToken env n tok' st"
    obtain ok t where e: "endLegacySessions env saved st = (ok, t)" by fastforce
    then have "saved" "endLegacySessions env True st = (True, st1)"
      using assms(4) by (auto simp: logout_def nx assms(5) v1 endLegacySessions_def Let_def split: if_splits)
    then show "\<not> verifySessionToken env n' tok' (run (auth_step env) st1 ops)"
      by (intro logout_ends_owner [OF assms(1,3) v assms(6)]) simp
  qed
qed

text \<open>An injective HMAC over the alphabet, for the samples: every character as two letters.\<close>

definition hex_pair :: "char \<Rightarrow> string" where
  "hex_pair c = [char_of (65 + (of_char c :: nat) div 16), char_of (65 + (of_char c :: nat) mod 16)]"

definition sample_hmac :: "string \<Rightarrow> string \<Rightarrow> string" where
  "sample_hmac k p = concat (map hex_pair k) @ ''-'' @ concat (map hex_pair p)"

lemma hex_pair_ok: "list_all b64_ok (hex_pair c)" "CHR ''-'' \<notin> set (hex_pair c)"
proof -
  have "(of_char c :: nat) div 16 < 16" "(of_char c :: nat) mod 16 < 16"
    using nat_of_char_less_256 [of c] by linarith+
  moreover have "a < 16 \<Longrightarrow> b64_ok (char_of (65 + a)) \<and> CHR ''-'' \<noteq> char_of (65 + a)" for a :: nat
    by (auto simp: b64_ok_def Let_def dest: arg_cong [where f = "of_char :: char \<Rightarrow> nat"])
  ultimately show "list_all b64_ok (hex_pair c)" "CHR ''-'' \<notin> set (hex_pair c)" by (auto simp: hex_pair_def)
qed

lemma hex_pair_inj: "hex_pair c = hex_pair d \<Longrightarrow> c = d"
proof -
  assume "hex_pair c = hex_pair d"
  then have e: "char_of (65 + (of_char c :: nat) div 16) = (char_of (65 + (of_char d :: nat) div 16) :: char)"
    "char_of (65 + (of_char c :: nat) mod 16) = (char_of (65 + (of_char d :: nat) mod 16) :: char)"
    by (simp_all add: hex_pair_def)
  have b: "(of_char c :: nat) < 256" "(of_char d :: nat) < 256" by simp_all
  have "(65 + (of_char c :: nat) div 16) mod 256 = (65 + (of_char d :: nat) div 16) mod 256"
    "(65 + (of_char c :: nat) mod 16) mod 256 = (65 + (of_char d :: nat) mod 16) mod 256"
    using e [THEN arg_cong [where f = "of_char :: char \<Rightarrow> nat"]] by (simp_all only: of_char_of)
  then have "(of_char c :: nat) div 16 = of_char d div 16" "(of_char c :: nat) mod 16 = of_char d mod 16"
    using b by (simp_all add: mod_less)
  then have "(of_char c :: nat) = of_char d" by (metis div_mult_mod_eq)
  then show "c = d" by (metis char_of_char)
qed

lemma hex_pairs_inj: "concat (map hex_pair s) = concat (map hex_pair t) \<Longrightarrow> s = t"
proof (induction s arbitrary: t)
  case Nil
  then show ?case by (cases t) (simp_all add: hex_pair_def)
next
  case (Cons c s)
  then obtain d u where t: "t = d # u" by (cases t) (simp_all add: hex_pair_def)
  have "length (hex_pair c) = length (hex_pair d)" by (simp add: hex_pair_def)
  then have "hex_pair c = hex_pair d \<and> concat (map hex_pair s) = concat (map hex_pair u)"
    using Cons.prems by (simp add: t)
  then show ?case using Cons.IH hex_pair_inj t by simp
qed

lemma sample_hmac_inj: "sample_hmac k p = sample_hmac k' p' \<Longrightarrow> k = k' \<and> p = p'"
proof -
  assume e: "sample_hmac k p = sample_hmac k' p'"
  have no: "CHR ''-'' \<notin> set (concat (map hex_pair s))" for s using hex_pair_ok(2) by auto
  have "split_at_char CHR ''-'' (sample_hmac k p) = [concat (map hex_pair k), concat (map hex_pair p)]" for k p
    using no by (simp add: sample_hmac_def split_at_char_append split_at_char_none)
  then have "concat (map hex_pair k) = concat (map hex_pair k') \<and> concat (map hex_pair p) = concat (map hex_pair p')"
    using arg_cong [OF e, of "split_at_char CHR ''-''"] by simp
  then show ?thesis using hex_pairs_inj by blast
qed

definition sample_aenv2 :: "memory_states auth_env" where
  "sample_aenv2 = sample_aenv\<lparr>aeHmac := sample_hmac\<rparr>"

definition sample_auth2 :: "memory_states auth" where
  "sample_auth2 = sample_auth\<lparr>auKey := deriveLegacySessionKey sample_aenv2 ''s'' 0\<rparr>"

lemma sample_aenv2_ok: "hmac_ok sample_aenv2" "hmac_inj sample_aenv2" "aePassword sample_aenv2 \<noteq> []"
    "aeClaims sample_aenv2 (encodeSessionPayload 5 ''n'') = Some (5 + kSessionTtlMs)"
proof -
  have h: "aeHmac sample_aenv2 = sample_hmac" by (simp add: sample_aenv2_def)
  have "b64_ok CHR ''-''" by (simp add: b64_ok_def)
  then have "list_all b64_ok (sample_hmac k p)" "sample_hmac k p \<noteq> []" for k p
    using hex_pair_ok(1) by (auto simp: sample_hmac_def list_all_iff)
  then show "hmac_ok sample_aenv2" unfolding hmac_ok_def h by blast
  show "hmac_inj sample_aenv2" unfolding hmac_inj_def h using sample_hmac_inj by blast
qed (simp_all add: sample_aenv2_def sample_aenv_def)

theorem logout_ends_sessions_witness:
  "verifySessionToken sample_aenv2 6 (createSessionToken sample_aenv2 5 ''n'' sample_auth2) sample_auth2 \<and>
   \<not> verifySessionToken sample_aenv2 7 (createSessionToken sample_aenv2 5 ''n'' sample_auth2)
      (run (auth_step sample_aenv2)
         (snd (logout sample_aenv2 (sample_ctx 6)
            (sample_req (Some (''setup_token='' @ createSessionToken sample_aenv2 5 ''n'' sample_auth2))) True ''fresh'' sample_auth2))
         [Restart ''later'' True])"
proof -
  let ?tok = "createSessionToken sample_aenv2 5 ''n'' sample_auth2"
  define req where "req = sample_req (Some (''setup_token='' @ ?tok))"
  have v: "verifySessionToken sample_aenv2 6 ?tok sample_auth2"
    using session_token_verifies [OF sample_aenv2_ok(1,4,3) refl, of 6 sample_auth2] by (simp add: kSessionTtlMs_def)
  have c: "cookieParser req ''setup_token'' = Some ?tok"
    by (rule cookie_header [OF _ session_token_chars [OF sample_aenv2_ok(1)]]) (simp add: req_def sample_req_def)
  have n: "\<not> refuseCrossOriginWrite req" "cxNow (sample_ctx 6) = 6"
    by (simp_all add: refuseCrossOriginWrite_def req_def sample_req_def sample_ctx_def)
  obtain st1 where st1: "endLegacySessions sample_aenv2 True sample_auth2 = (True, st1)"
    by (simp add: endLegacySessions_def Let_def)
  have l: "logout sample_aenv2 (sample_ctx 6) req True ''fresh'' sample_auth2 = (LogoutDone, st1)"
    unfolding logout_def using n v by (simp add: c session_token_not_v2 st1)
  have w: "members_wf (auMembers sample_auth2)" "key_wf sample_aenv2 sample_auth2"
      "fresh_draws sample_auth2 (''fresh'' # concat (map draws [Restart ''later'' True]))"
    using sample_mdb_wf
    by (simp_all add: sample_auth2_def sample_auth_def key_wf_def fresh_draws_def sample_mdb_def sample_member_def)
  have v6: "verifySessionToken sample_aenv2 (cxNow (sample_ctx 6)) ?tok sample_auth2" using v n(2) by simp
  have "\<not> verifySessionToken sample_aenv2 7 ?tok (run (auth_step sample_aenv2) st1 [Restart ''later'' True])"
    by (rule logout_ends_sessions [OF sample_aenv2_ok(2) w(1,2) l c w(3), THEN conjunct2, rule_format,
          OF session_token_not_v2 v6 v])
  then show ?thesis unfolding req_def [symmetric] l snd_conv using v by blast
qed

lemma requireAuth_agent:
  assumes "fst (requireAuth env cx req st) = AuthAgent"
  obtains bearer where "extractBearerToken req = Some bearer" "fst (authorizeAgentBearer env cx req bearer st) = BearerOk"
    "resolveRequestIdentity env cx req st = None" "starts_with ''/api/'' (rqUrl req)"
proof -
  have none: "resolveRequestIdentity env cx req st = None" and api: "starts_with ''/api/'' (rqUrl req)"
    using assms by (simp_all add: requireAuth_def split: if_splits option.splits)
  obtain bearer where b: "extractBearerToken req = Some bearer"
    using assms none api by (cases "extractBearerToken req") (simp_all add: requireAuth_def split: if_splits)
  have "fst (authorizeAgentBearer env cx req bearer st) = BearerOk"
    using assms none api b
    by (cases "authorizeAgentBearer env cx req bearer st"; cases "fst (authorizeAgentBearer env cx req bearer st)")
      (simp_all add: requireAuth_def split: if_splits)
  then show ?thesis using that b none api by blast
qed

lemma requireAuth_identity:
  assumes "fst (requireAuth env cx req st) = AuthIdentity i"
  shows "resolveRequestIdentity env cx req st = Some i \<and> \<not> refuseCrossOriginWrite req \<and> aePassword env \<noteq> []"
proof (cases "resolveRequestIdentity env cx req st")
  case None
  then show ?thesis using assms
    by (cases "extractBearerToken req")
      (auto simp: requireAuth_def split: if_splits prod.splits bearer_answer.splits)
next
  case (Some j)
  then show ?thesis using assms by (simp add: requireAuth_def split: if_splits)
qed

text \<open>A lockout stops every way in. While the client's bucket or the global bucket is locked, a
  login or an invite opens no session and changes neither the roster nor the session keys, whatever
  credentials come with it; and while the agent's bucket is locked, no bearer token, the right one
  included, is let through. This holds over any store that keeps the throttle's contract.\<close>

lemma lockout_stops_sign_in:
  assumes store: "throttle_store (aeStore env) invar" and i: "invar (auThrottle st)" "invar (auAgentThrottle st)"
  shows "(bucket_locked (aeThrottle env) (rqClient req) (cxNow cx) (store_get (aeStore env) (auThrottle st)) \<longrightarrow>
      (\<forall>tok m. fst (login env cx req email isString pw nonce st) \<notin> {LoginMember tok m, LoginLegacy tok}) \<and>
      same_sessions st (snd (login env cx req email isString pw nonce st)) \<and>
      (\<forall>m. fst (accept_invite env cx req t1 t2 t3 args fr st) \<noteq> AcceptDone m) \<and>
      same_sessions st (snd (accept_invite env cx req t1 t2 t3 args fr st)))
   \<and> (bucket_locked (aeAgentThrottle env) (rqClient req) (cxNow cx) (store_get (aeStore env) (auAgentThrottle st)) \<longrightarrow>
      fst (requireAuth env cx req st) \<noteq> AuthAgent)"
proof (intro conjI impI)
  assume b: "bucket_locked (aeThrottle env) (rqClient req) (cxNow cx) (store_get (aeStore env) (auThrottle st))"
  obtain sec st1 where g: "checkThrottle env cx req st = (Inl sec, st1)"
    using throttle_store.checkThrottle_blocked [OF store refl i(1) b] by (metis prod.collapse)
  have same: "same_sessions st st1" using checkThrottle_same [of st env cx req] by (simp add: g)
  show "\<forall>tok m. fst (login env cx req email isString pw nonce st) \<notin> {LoginMember tok m, LoginLegacy tok}"
    "same_sessions st (snd (login env cx req email isString pw nonce st))"
    using same by (simp_all add: login_def g)
  show "\<forall>m. fst (accept_invite env cx req t1 t2 t3 args fr st) \<noteq> AcceptDone m"
    "same_sessions st (snd (accept_invite env cx req t1 t2 t3 args fr st))"
    using same by (simp_all add: accept_invite_def g)
next
  assume b: "bucket_locked (aeAgentThrottle env) (rqClient req) (cxNow cx) (store_get (aeStore env) (auAgentThrottle st))"
  show "fst (requireAuth env cx req st) \<noteq> AuthAgent"
  proof
    assume "fst (requireAuth env cx req st) = AuthAgent"
    then obtain bearer where "fst (authorizeAgentBearer env cx req bearer st) = BearerOk"
      by (rule requireAuth_agent)
    then show False using throttle_store.bearer_blocked [OF store refl i(2) b] by blast
  qed
qed

definition sample_locked :: "memory_states auth" where
  "sample_locked = sample_auth\<lparr>auThrottle := [(''client:1.2.3.4'', \<lparr>attempts = 0, windowStart = 1, lockUntil = 99,
     failStreak = 1, lastSeenAt = 1\<rparr>)]\<rparr>"

text \<open>What the two verifiers accept, spelled out: the token's own text, under the secret of the row (or the
  owner's key), with claims that have not expired.\<close>

lemma member_token_spelled:
  assumes "verifyMemberSessionToken env now tok st = Some m"
  shows "\<exists>row \<in> set (dbMembers (auMembers st)). mbId row = mmId m \<and> mbEmail row = mmEmail m \<and> mbRole row = mmRole m
    \<and> \<not> mbDisabled row \<and> mbSecret row \<noteq> []
    \<and> (\<exists>p t. tok = ''v2.'' @ mmId m @ ''.'' @ p @ ''.'' @ aeHmac env (mbSecret row) (mmId m @ ''.'' @ p)
         \<and> aeClaims env p = Some t \<and> now < t)"
proof -
  obtain v i p sg where sp: "split_at_char CHR ''.'' tok = [v, i, p, sg]"
    using assms by (auto simp: verifyMemberSessionToken_def split: list.splits)
  obtain secret where ok: "v = ''v2''" "getTokenSecret i (auMembers st) = Some secret" "secret \<noteq> []"
      "sg = aeHmac env secret (i @ ''.'' @ p)" "parseSessionPayload env now p" "getMember i (auMembers st) = Some m"
      "\<not> mmDisabled m"
    using assms by (auto simp: verifyMemberSessionToken_def sp timingSafeStringEqual_def split: if_splits option.splits)
  obtain row where row: "getMemberRowById i (auMembers st) = Some row" "m = toMemberModel row" "mbSecret row = secret"
    using ok(2,6) by (auto simp: getTokenSecret_def getMember_def split: option.splits if_splits)
  then have "row \<in> set (dbMembers (auMembers st))" "mbId row = i"
    using find_Some_set [OF row(1) [unfolded getMemberRowById_def]] by auto
  moreover have "tok = ''v2.'' @ i @ ''.'' @ p @ ''.'' @ sg" using split_at_char_join [OF sp] ok(1) by simp
  moreover obtain t where "aeClaims env p = Some t" "now < t"
    using ok(5) by (auto simp: parseSessionPayload_def split: option.splits)
  ultimately show ?thesis using ok(3,4,7) row(2,3) by (intro bexI [of _ row]) (auto simp: toMemberModel_def)
qed

lemma owner_token_spelled:
  assumes "verifySessionToken env now tok st"
  shows "\<exists>p t. tok = p @ ''.'' @ aeHmac env (auKey st) p \<and> aeClaims env p = Some t \<and> now < t"
proof -
  obtain p sg where sp: "split_at_char CHR ''.'' tok = [p, sg]" and ok: "sg = aeHmac env (auKey st) p" "parseSessionPayload env now p"
    using assms by (auto simp: verifySessionToken_def timingSafeStringEqual_def split: list.splits if_splits)
  then show ?thesis using split_at_char_join [OF sp]
    by (auto simp: parseSessionPayload_def split: option.splits)
qed

lemma teamMode_readable: "teamModeEnabled cx \<Longrightarrow> cxTeam cx \<in> {ReadSettings False True False, ReadSettings False True True}"
  by (cases "cxTeam cx") (auto simp: teamModeEnabled_def readTeamSettingsSafe_def split: if_splits)

lemma legacy_allowed:
  "\<not> legacyLoginDisabled env cx \<Longrightarrow>
     aeHatch env \<or> cxTeam cx \<noteq> ReadThrows \<and> (\<forall>u t d. cxTeam cx = ReadSettings u t d \<longrightarrow> \<not> u \<and> \<not> d)"
  by (cases "cxTeam cx") (auto simp: legacyLoginDisabled_def readTeamSettingsSafe_def split: if_splits)

lemma resolve_member:
  assumes "resolveRequestIdentity env cx req st = Some (MemberIdentity j e n r)"
  obtains tok m where "cookieParser req ''setup_token'' = Some tok" "teamModeEnabled cx"
    "verifyMemberSessionToken env (cxNow cx) tok st = Some m" "j = mmId m" "e = mmEmail m" "r = mmRole m"
  using assms that by (auto simp: resolveRequestIdentity_def split: if_splits option.splits)

lemma resolve_owner:
  assumes "resolveRequestIdentity env cx req st = Some LegacyIdentity"
  obtains tok where "cookieParser req ''setup_token'' = Some tok" "verifySessionToken env (cxNow cx) tok st"
    "\<not> legacyLoginDisabled env cx"
  using assms that by (auto simp: resolveRequestIdentity_def split: if_splits option.splits)

lemma member_scope_limits:
  "requireMemberScope (Some (MemberIdentity j e n MemberRole)) meth path \<Longrightarrow>
     map to_lower path = ''/api/auth/logout'' \<or>
     map to_upper meth \<in> {''GET'', ''HEAD''} \<and> \<not> under ''/api/models/config'' (map to_lower path)
     \<and> \<not> under ''/api/models/auth'' (map to_lower path)"
  by (auto simp: requireMemberScope_def identity_role_def Let_def kMemberApiWritePaths_def
      kMemberApiReadDenyPrefixes_def split: if_splits)

lemma requireAuth_exempt:
  "fst (requireAuth env cx req st) = AuthExempt \<Longrightarrow>
     pathname (rqUrl req) \<in> {''/auth/google/callback'', ''/auth/codex/callback''}"
  by (auto simp: requireAuth_def split: if_splits option.splits prod.splits bearer_answer.splits)

lemma bearer_ok: "fst (authorizeAgentBearer env cx req bearer st) = BearerOk \<Longrightarrow>
    cxAgentEnabled cx \<and> cxAgentToken cx = Some bearer"
  by (auto simp: authorizeAgentBearer_def Let_def timingSafeStringEqual_def split: if_splits prod.splits option.splits)

text \<open>C9. The gates fail closed. Whoever \<open>requireAuth\<close> lets through as a person presents, in the session
  cookie, a token spelled as the server spells it and signed for this moment: a member's under the
  secret of an enabled account that still has that id, address and role, while team mode is readable
  and on; the owner's under the current owner key, only while shared-password login is allowed; in both
  the claims have not expired. On a session a cross-origin write is refused. The agent passes only on
  \<open>/api/\<close>, while enabled, with its stored token and without a session (its header, unlike a cookie, is
  not subject to the cross-origin rule); nothing else passes but the two OAuth callback paths. A plain
  member then gets no further than reads outside the credential editors and the logout.\<close>

theorem gates_fail_closed:
  assumes "requireAuth env cx req st = (a, st')"
  shows "(\<forall>i. a = AuthIdentity i \<longrightarrow> \<not> refuseCrossOriginWrite req \<and> aePassword env \<noteq> [] \<and>
        (case i of
           MemberIdentity j e n r \<Rightarrow> cxTeam cx \<in> {ReadSettings False True False, ReadSettings False True True} \<and>
             (\<exists>row \<in> set (dbMembers (auMembers st)). mbId row = j \<and> mbEmail row = e \<and> mbRole row = r \<and> \<not> mbDisabled row \<and>
                mbSecret row \<noteq> [] \<and>
                (\<exists>p t. cookieParser req ''setup_token'' =
                     Some (''v2.'' @ j @ ''.'' @ p @ ''.'' @ aeHmac env (mbSecret row) (j @ ''.'' @ p)) \<and>
                   aeClaims env p = Some t \<and> cxNow cx < t)) \<and>
             (r = MemberRole \<and> requireMemberScope (Some i) (rqMethod req) path \<longrightarrow>
                map to_lower path = ''/api/auth/logout'' \<or>
                (map to_upper (rqMethod req) \<in> {''GET'', ''HEAD''} \<and> \<not> under ''/api/models/config'' (map to_lower path)
                 \<and> \<not> under ''/api/models/auth'' (map to_lower path)))
         | LegacyIdentity \<Rightarrow>
             (\<exists>p t. cookieParser req ''setup_token'' = Some (p @ ''.'' @ aeHmac env (auKey st) p) \<and>
                aeClaims env p = Some t \<and> cxNow cx < t) \<and>
             (aeHatch env \<or> (cxTeam cx \<noteq> ReadThrows \<and>
                (\<forall>u t d. cxTeam cx = ReadSettings u t d \<longrightarrow> \<not> u \<and> \<not> d)))))
   \<and> (a = AuthAgent \<longrightarrow> starts_with ''/api/'' (rqUrl req) \<and> cxAgentEnabled cx \<and> extractBearerToken req \<noteq> None \<and>
        extractBearerToken req = cxAgentToken cx \<and> resolveRequestIdentity env cx req st = None)
   \<and> (a = AuthExempt \<longrightarrow> pathname (rqUrl req) \<in> {''/auth/google/callback'', ''/auth/codex/callback''})"
    (is "(\<forall>i. _ i \<longrightarrow> _ \<and> _ \<and> ?session i) \<and> (_ \<longrightarrow> ?agent) \<and> _")
proof (intro conjI allI impI)
  fix i assume "a = AuthIdentity i"
  then have r: "resolveRequestIdentity env cx req st = Some i" and nc: "\<not> refuseCrossOriginWrite req" "aePassword env \<noteq> []"
    using requireAuth_identity [of env cx req st i] assms by simp_all
  show "\<not> refuseCrossOriginWrite req" "aePassword env \<noteq> []" by fact+
  show "?session i"
  proof (cases i)
    case (MemberIdentity j e n rl)
    obtain tok m where m: "cookieParser req ''setup_token'' = Some tok" "teamModeEnabled cx"
        "verifyMemberSessionToken env (cxNow cx) tok st = Some m" "j = mmId m" "e = mmEmail m" "rl = mmRole m"
      using r unfolding MemberIdentity by (rule resolve_member)
    then show ?thesis unfolding MemberIdentity identity.case
      using teamMode_readable [OF m(2)] member_token_spelled [OF m(3)] member_scope_limits by blast
  next
    case LegacyIdentity
    obtain tok where own: "cookieParser req ''setup_token'' = Some tok" "verifySessionToken env (cxNow cx) tok st"
        "\<not> legacyLoginDisabled env cx"
      using r unfolding LegacyIdentity by (rule resolve_owner)
    then show ?thesis unfolding LegacyIdentity identity.case
      using owner_token_spelled [OF own(2)] legacy_allowed [OF own(3)] by blast
  qed
next
  assume "a = AuthAgent"
  then have "fst (requireAuth env cx req st) = AuthAgent" using assms by simp
  then obtain bearer where b: "extractBearerToken req = Some bearer" "fst (authorizeAgentBearer env cx req bearer st) = BearerOk"
    "resolveRequestIdentity env cx req st = None" "starts_with ''/api/'' (rqUrl req)" by (rule requireAuth_agent)
  have "cxAgentEnabled cx \<and> cxAgentToken cx = Some bearer" using b(2) by (rule bearer_ok)
  then show "starts_with ''/api/'' (rqUrl req)" "cxAgentEnabled cx" "extractBearerToken req \<noteq> None"
    "extractBearerToken req = cxAgentToken cx" "resolveRequestIdentity env cx req st = None" using b by simp_all
next
  assume "a = AuthExempt"
  then show "pathname (rqUrl req) \<in> {''/auth/google/callback'', ''/auth/codex/callback''}"
    using requireAuth_exempt [of env cx req st] assms by simp
qed

theorem gates_fail_closed_witness:
  "\<exists>tok. requireAuth sample_aenv (sample_ctx 6) (sample_req (Some (''setup_token='' @ tok))) sample_auth
       = (AuthIdentity (MemberIdentity ''b'' ''bob@x.io'' [] MemberRole), sample_auth) \<and>
     (\<exists>row \<in> set (dbMembers (auMembers sample_auth)). mbId row = ''b'' \<and> mbRole row = MemberRole \<and> \<not> mbDisabled row)"
proof -
  have s: "getTokenSecret ''b'' (auMembers sample_auth) = Some ''secretb''"
    and g: "getMember ''b'' (auMembers sample_auth) = Some (toMemberModel (sample_member ''b'' ''bob@x.io'' MemberRole))"
    by (simp_all add: getTokenSecret_def getMember_def getMemberRowById_def sample_auth_def sample_mdb_def sample_member_def)
  obtain tok where tok: "createMemberSessionToken sample_aenv 5 ''n'' ''b'' sample_auth = Some tok"
    by (simp add: createMemberSessionToken_def s Let_def)
  have b: "list_all b64_ok ''b''" by (simp add: b64_ok_def)
  define req where "req = sample_req (Some (''setup_token='' @ tok))"
  have c: "list_all token_char tok" "starts_with ''v2.'' tok"
    using member_token_chars [OF sample_aenv_ok(1) tok b] by simp_all
  have "cookieParser req ''setup_token'' = Some tok"
    by (rule cookie_header [OF _ c(1)]) (simp add: req_def sample_req_def)
  moreover have "verifyMemberSessionToken sample_aenv 6 tok sample_auth
      = Some (toMemberModel (sample_member ''b'' ''bob@x.io'' MemberRole))"
    using member_token_verifies [OF sample_aenv_ok(1,3) tok refl _ b, of 6] g by (simp add: kSessionTtlMs_def)
  moreover have "cxNow (sample_ctx 6) = 6" "teamModeEnabled (sample_ctx 6)" "tok \<noteq> []"
    using c(2) by (auto simp: sample_ctx_def teamModeEnabled_def readTeamSettingsSafe_def starts_with_def)
  ultimately have r: "resolveRequestIdentity sample_aenv (sample_ctx 6) req sample_auth
      = Some (MemberIdentity ''b'' ''bob@x.io'' [] MemberRole)"
    using sample_aenv_ok(2) c(2) by (simp add: resolveRequestIdentity_def toMemberModel_def sample_member_def)
  have q: "requireAuth sample_aenv (sample_ctx 6) req sample_auth
      = (AuthIdentity (MemberIdentity ''b'' ''bob@x.io'' [] MemberRole), sample_auth)"
    using sample_aenv_ok(2)
    by (simp add: requireAuth_def r) (simp add: req_def sample_req_def refuseCrossOriginWrite_def pathname_def)
  then show ?thesis using gates_fail_closed [OF q] unfolding req_def by (intro exI [of _ tok]) auto
qed

end
