(* ===== verification/Chat_Runs.thy ===== *)
theory Chat_Runs
  imports Prelude "HOL-Library.Sublist"
begin

text \<open>
  The durable outcomes of chat sends (\<open>lib/server/db/chat-runs/index.js\<close> over its \<open>schema.js\<close>):
  one row per logical message, keyed by the session and the client's message id. The table is the
  list of its rows in the order of their AUTOINCREMENT ids; a NULL column is \<open>None\<close>. The clock
  (milliseconds) is an input. Whether a statement throws is an input of the caller, in
  \<open>Chat_Send\<close>: a call that throws leaves the rows as they were. Text is ASCII; the two messages
  the boot writes are abbreviated to their first clause.
\<close>

section \<open>The table\<close>

datatype run_status = RunPending | RunRunning | RunDone | RunStopped | RunInterrupted | RunError
  | RunUnknown

datatype submission = SubUnknown | SubPossibly | SubSubmitted | SubNotSubmitted

definition kTerminalStatuses :: "run_status list" where
  "kTerminalStatuses = [RunDone, RunStopped, RunInterrupted, RunError, RunUnknown]"

definition kMarkerStatuses :: "run_status list" where
  "kMarkerStatuses = [RunStopped, RunInterrupted, RunError, RunUnknown]"

definition kPruneKeepPerSession :: nat where "kPruneKeepPerSession = 200"
definition kPruneMaxAgeMs :: int where "kPruneMaxAgeMs = 90 * 24 * 60 * 60 * 1000"
definition kPruneKeepGlobal :: nat where "kPruneKeepGlobal = 5000"
definition kMaxStoredErrorLength :: nat where "kMaxStoredErrorLength = 500"

record chat_row =
  crId :: nat
  crMsg :: string
  crRunId :: "string option"
  crMessageId :: "string option"
  crLastSeq :: "nat option"
  crSession :: string
  crStatus :: run_status
  crSubmission :: submission
  crConfidence :: "string option"
  crStopConfirmed :: "int option"
  crErrorCode :: "string option"
  crError :: "string option"
  crCreatedAt :: int
  crStartedAt :: "int option"
  crStopRequestedAt :: "int option"
  crEndedAt :: "int option"

text \<open>\<open>insertsSincePrune\<close> lives in memory: a rolled-back transaction does not restore it.\<close>

record runs_store =
  rsRows :: "chat_row list"
  rsNextId :: nat
  rsInserts :: nat

definition row_key :: "chat_row \<Rightarrow> string \<times> string" where
  "row_key r = (crSession r, crMsg r)"

definition terminal_row :: "chat_row \<Rightarrow> bool" where
  "terminal_row r \<longleftrightarrow> crStatus r \<in> set kTerminalStatuses"

record run_model =
  rmSession :: string
  rmMsg :: string
  rmRunId :: string
  rmMessageId :: string
  rmLastSeq :: nat
  rmStatus :: run_status
  rmSubmission :: submission
  rmConfidence :: string
  rmStopConfirmed :: "int option"
  rmErrorCode :: string
  rmError :: string
  rmCreatedAt :: int
  rmEndedAt :: int

definition text_or_empty :: "string option \<Rightarrow> string" where
  "text_or_empty t = (case t of None \<Rightarrow> [] | Some s \<Rightarrow> s)"

definition toRowModel :: "chat_row \<Rightarrow> run_model" where
  "toRowModel r = \<lparr>rmSession = crSession r, rmMsg = crMsg r, rmRunId = text_or_empty (crRunId r),
     rmMessageId = text_or_empty (crMessageId r),
     rmLastSeq = (case crLastSeq r of None \<Rightarrow> 0 | Some n \<Rightarrow> n), rmStatus = crStatus r,
     rmSubmission = crSubmission r, rmConfidence = text_or_empty (crConfidence r),
     rmStopConfirmed = crStopConfirmed r, rmErrorCode = text_or_empty (crErrorCode r),
     rmError = text_or_empty (crError r), rmCreatedAt = crCreatedAt r,
     rmEndedAt = (case crEndedAt r of None \<Rightarrow> 0 | Some t \<Rightarrow> t)\<rparr>"

section \<open>Boot, retention\<close>

definition reconcileInterruptedRuns :: "int \<Rightarrow> chat_row list \<Rightarrow> chat_row list" where
  "reconcileInterruptedRuns now rows =
     sql_update (\<lambda>r. crStatus r = RunRunning)
       (\<lambda>r. r\<lparr>crStatus := RunInterrupted, crConfidence := Some ''unconfirmed'',
            crError := Some ''AlphaClaw restarted mid-run'', crEndedAt := Some now\<rparr>)
       (sql_update (\<lambda>r. crStatus r = RunPending)
          (\<lambda>r. r\<lparr>crStatus := RunUnknown, crConfidence := Some ''unconfirmed'',
               crErrorCode := Some ''unknown_outcome'',
               crError := Some ''AlphaClaw restarted before this send was confirmed'',
               crEndedAt := Some now\<rparr>) rows)"

text \<open>\<open>ROW_NUMBER() OVER (.. ORDER BY (status NOT IN terminal) DESC, id DESC)\<close>: live rows come
  first, then the newest.\<close>

definition outranks :: "chat_row \<Rightarrow> chat_row \<Rightarrow> bool" where
  "outranks q r \<longleftrightarrow> (\<not> terminal_row q \<and> terminal_row r)
     \<or> (terminal_row q = terminal_row r \<and> crId r < crId q)"

definition row_number :: "(chat_row \<Rightarrow> bool) \<Rightarrow> chat_row list \<Rightarrow> chat_row \<Rightarrow> nat" where
  "row_number part rows r = Suc (sql_count (\<lambda>q. part q \<and> outranks q r) rows)"

definition prune_session :: "chat_row list \<Rightarrow> chat_row list" where
  "prune_session rows = sql_delete (\<lambda>r. terminal_row r
     \<and> kPruneKeepPerSession < row_number (\<lambda>q. crSession q = crSession r) rows r) rows"

definition prune_global :: "chat_row list \<Rightarrow> chat_row list" where
  "prune_global rows = sql_delete (\<lambda>r. terminal_row r
     \<and> kPruneKeepGlobal < row_number (\<lambda>q. True) rows r) rows"

definition pruneChatRuns :: "int \<Rightarrow> chat_row list \<Rightarrow> chat_row list" where
  "pruneChatRuns now rows = prune_global (prune_session
     (sql_delete (\<lambda>r. terminal_row r \<and> crCreatedAt r < now - kPruneMaxAgeMs) rows))"

definition initChatRunsDb :: "int \<Rightarrow> bool \<Rightarrow> chat_row list \<Rightarrow> nat \<Rightarrow> runs_store" where
  "initChatRunsDb now markInterruptedRuns rows nextId =
     \<lparr>rsRows = pruneChatRuns now (if markInterruptedRuns then reconcileInterruptedRuns now rows else rows),
      rsNextId = nextId, rsInserts = 0\<rparr>"

section \<open>Claims and outcomes\<close>

definition find_row :: "string \<Rightarrow> string \<Rightarrow> chat_row list \<Rightarrow> chat_row option" where
  "find_row session msg rows = find (\<lambda>r. row_key r = (session, msg)) rows"

definition findRun :: "string \<Rightarrow> string \<Rightarrow> runs_store \<Rightarrow> run_model option" where
  "findRun session msg st = map_option toRowModel (find_row session msg (rsRows st))"

definition proven_unsent :: "run_model \<Rightarrow> bool" where
  "proven_unsent m \<longleftrightarrow> rmStatus m = RunError \<and> rmSubmission m = SubNotSubmitted"

definition row_unsent :: "chat_row \<Rightarrow> bool" where
  "row_unsent r \<longleftrightarrow> crStatus r = RunError \<and> crSubmission r = SubNotSubmitted"

text \<open>\<open>DELETE .. WHERE id IN (SELECT id .. ORDER BY id LIMIT n)\<close>: the first \<open>n\<close> rows with \<open>p\<close>.\<close>

fun delete_oldest :: "nat \<Rightarrow> (chat_row \<Rightarrow> bool) \<Rightarrow> chat_row list \<Rightarrow> chat_row list" where
  "delete_oldest n p [] = []"
| "delete_oldest n p (r # rows) =
     (if p r \<and> 0 < n then delete_oldest (n - 1) p rows else r # delete_oldest n p rows)"

definition makeRoom :: "(chat_row \<Rightarrow> bool) \<Rightarrow> nat \<Rightarrow> chat_row list \<Rightarrow> bool \<times> chat_row list" where
  "makeRoom p cap rows =
     (let count = sql_count p rows in
      if count < cap then (True, rows)
      else (let rows' = delete_oldest (count - cap + 1) (\<lambda>r. p r \<and> terminal_row r) rows
            in (sql_count p rows' < cap, rows')))"

definition new_row :: "int \<Rightarrow> string \<Rightarrow> string \<Rightarrow> string \<Rightarrow> nat \<Rightarrow> chat_row" where
  "new_row now session msg messageId i =
     \<lparr>crId = i, crMsg = msg, crRunId = None, crMessageId = Some messageId, crLastSeq = None,
      crSession = session, crStatus = RunPending, crSubmission = SubPossibly,
      crConfidence = None, crStopConfirmed = None, crErrorCode = None, crError = None,
      crCreatedAt = now, crStartedAt = None, crStopRequestedAt = None, crEndedAt = None\<rparr>"

definition reset_row :: "int \<Rightarrow> string \<Rightarrow> chat_row \<Rightarrow> chat_row" where
  "reset_row now messageId r =
     r\<lparr>crMessageId := Some messageId, crRunId := None, crLastSeq := None, crStatus := RunPending,
       crSubmission := SubPossibly, crConfidence := None, crStopConfirmed := None,
       crErrorCode := None, crError := None, crCreatedAt := now, crStartedAt := None,
       crStopRequestedAt := None, crEndedAt := None\<rparr>"

datatype claim = Claimed | AlreadyThere run_model | ClaimUnknownOutcome | ClaimTooMany

definition claim_new :: "int \<Rightarrow> string \<Rightarrow> string \<Rightarrow> string \<Rightarrow> runs_store \<Rightarrow> claim \<times> runs_store" where
  "claim_new now session msg messageId st =
     (let inserts = Suc (rsInserts st);
          due = 500 \<le> inserts;
          rows = (if due then pruneChatRuns now (rsRows st) else rsRows st);
          counter = (if due then 0 else inserts);
          (room1, rows1) = makeRoom (\<lambda>r. crSession r = session) kPruneKeepPerSession rows;
          (room2, rows2) = (if room1 then makeRoom (\<lambda>r. True) kPruneKeepGlobal rows1 else (False, rows1))
      in if \<not> room2 then (ClaimTooMany, st\<lparr>rsInserts := counter\<rparr>)
         else (Claimed, \<lparr>rsRows = rows2 @ [new_row now session msg messageId (rsNextId st)],
                         rsNextId = Suc (rsNextId st), rsInserts = counter\<rparr>))"

definition claimSend :: "int \<Rightarrow> string \<Rightarrow> string \<Rightarrow> string \<Rightarrow> bool \<Rightarrow> runs_store \<Rightarrow> claim \<times> runs_store" where
  "claimSend now session msg messageId retry st =
     (case findRun session msg st of
        Some m \<Rightarrow>
          (if \<not> proven_unsent m then (AlreadyThere m, st)
           else (Claimed, st\<lparr>rsRows := sql_update (\<lambda>r. row_key r = (session, msg) \<and> row_unsent r)
                              (reset_row now messageId) (rsRows st)\<rparr>))
      | None \<Rightarrow> if retry then (ClaimUnknownOutcome, st) else claim_new now session msg messageId st)"

definition markRunning :: "int \<Rightarrow> string \<Rightarrow> string \<Rightarrow> string \<Rightarrow> runs_store \<Rightarrow> runs_store" where
  "markRunning now session msg runId st =
     st\<lparr>rsRows := sql_update (\<lambda>r. row_key r = (session, msg))
          (\<lambda>r. r\<lparr>crStatus := RunRunning, crSubmission := SubSubmitted, crRunId := Some runId,
               crStartedAt := Some now\<rparr>) (rsRows st)\<rparr>"

definition markStopRequested :: "int \<Rightarrow> string \<Rightarrow> string \<Rightarrow> runs_store \<Rightarrow> runs_store" where
  "markStopRequested now session msg st =
     st\<lparr>rsRows := sql_update (\<lambda>r. row_key r = (session, msg))
          (\<lambda>r. r\<lparr>crStopRequestedAt := Some now\<rparr>) (rsRows st)\<rparr>"

record outcome =
  ocStatus :: run_status
  ocConfidence :: string
  ocStopConfirmed :: "int option"
  ocErrorCode :: string
  ocError :: string
  ocLastSeq :: nat
  ocMessageId :: string
  ocRunId :: string
  ocNotSubmitted :: bool

text \<open>\<open>COALESCE(NULLIF(v, ''), old)\<close>\<close>

definition coalesce_text :: "string \<Rightarrow> string option \<Rightarrow> string option" where
  "coalesce_text v old = (if v = [] then old else Some v)"

definition set_outcome :: "int \<Rightarrow> outcome \<Rightarrow> chat_row \<Rightarrow> chat_row" where
  "set_outcome now oc r =
     r\<lparr>crStatus := ocStatus oc,
       crSubmission := (if ocNotSubmitted oc \<and> crRunId r = None \<and> ocStatus oc = RunError
                        then SubNotSubmitted else crSubmission r),
       crConfidence := Some (ocConfidence oc), crStopConfirmed := ocStopConfirmed oc,
       crErrorCode := Some (ocErrorCode oc),
       crError := Some (take kMaxStoredErrorLength (ocError oc)),
       crLastSeq := Some (ocLastSeq oc),
       crMessageId := coalesce_text (ocMessageId oc) (crMessageId r),
       crRunId := coalesce_text (ocRunId oc) (crRunId r),
       crEndedAt := Some now\<rparr>"

definition markTerminal :: "int \<Rightarrow> string \<Rightarrow> string \<Rightarrow> outcome \<Rightarrow> runs_store \<Rightarrow> runs_store" where
  "markTerminal now session msg oc st =
     st\<lparr>rsRows := sql_update (\<lambda>r. row_key r = (session, msg)) (set_outcome now oc) (rsRows st)\<rparr>"

definition findRecentTerminal :: "string \<Rightarrow> string \<Rightarrow> runs_store \<Rightarrow> run_model option" where
  "findRecentTerminal session msg st =
     (case findRun session msg st of
        None \<Rightarrow> None
      | Some m \<Rightarrow> if rmStatus m \<in> set kTerminalStatuses then Some m else None)"

text \<open>The newest \<open>limit\<close> markers of a session, oldest first.\<close>

definition listMarkers :: "string \<Rightarrow> nat \<Rightarrow> runs_store \<Rightarrow> run_model list" where
  "listMarkers session limit st =
     rev (map toRowModel (take (if limit = 0 then 50 else limit)
       (rev (filter (\<lambda>r. crSession r = session \<and> crStatus r \<in> set kMarkerStatuses) (rsRows st)))))"

datatype runs_op = OpClaim int string string string bool | OpRunning int string string string
  | OpStop int string string | OpTerminal int string string outcome
  | OpRestart int | OpPrune int

definition runs_step :: "runs_store \<Rightarrow> runs_op \<Rightarrow> runs_store" where
  "runs_step st p =
     (case p of
        OpClaim now s m mid retry \<Rightarrow> snd (claimSend now s m mid retry st)
      | OpRunning now s m r \<Rightarrow> markRunning now s m r st
      | OpStop now s m \<Rightarrow> markStopRequested now s m st
      | OpTerminal now s m oc \<Rightarrow> markTerminal now s m oc st
      | OpRestart now \<Rightarrow> initChatRunsDb now True (rsRows st) (rsNextId st)
      | OpPrune now \<Rightarrow> st\<lparr>rsRows := pruneChatRuns now (rsRows st)\<rparr>)"

section \<open>The table stays well formed\<close>

lemma subseq_set_subset: "subseq xs ys \<Longrightarrow> set xs \<subseteq> set ys"
  by (induction rule: list_emb.induct) auto

lemma subseq_sorted_wrt: "subseq xs ys \<Longrightarrow> sorted_wrt P ys \<Longrightarrow> sorted_wrt P xs"
proof (induction rule: list_emb.induct)
  case (list_emb_Cons2 x y xs ys)
  then show ?case using subseq_set_subset [of xs ys] by auto
qed auto

lemma subseq_distinct_map: "subseq xs ys \<Longrightarrow> distinct (map f ys) \<Longrightarrow> distinct (map f xs)"
proof (induction rule: list_emb.induct)
  case (list_emb_Cons2 x y xs ys)
  then show ?case using subseq_set_subset [of xs ys] by auto
qed auto

lemma subseq_sql_count: "subseq xs ys \<Longrightarrow> sql_count p xs \<le> sql_count p ys"
  by (induction rule: list_emb.induct) auto

lemma subseq_sql_delete: "subseq (sql_delete p rows) rows"
  by (simp add: sql_delete_def)

lemma subseq_delete_oldest: "subseq (delete_oldest n p rows) rows"
  by (induction n p rows rule: delete_oldest.induct) auto

lemma delete_oldest_keeps: "r \<in> set rows \<Longrightarrow> \<not> p r \<Longrightarrow> r \<in> set (delete_oldest n p rows)"
  by (induction n p rows rule: delete_oldest.induct) auto

lemma makeRoom_subseq: "makeRoom p cap rows = (room, rows') \<Longrightarrow> subseq rows' rows"
  by (auto simp: makeRoom_def Let_def subseq_delete_oldest split: if_splits)

lemma makeRoom_room: "makeRoom p cap rows = (True, rows') \<Longrightarrow> sql_count p rows' < cap"
  by (auto simp: makeRoom_def Let_def split: if_splits)

lemma makeRoom_keeps: "makeRoom p cap rows = (room, rows') \<Longrightarrow> r \<in> set rows \<Longrightarrow> \<not> terminal_row r \<Longrightarrow>
    r \<in> set rows'"
  by (auto simp: makeRoom_def Let_def delete_oldest_keeps split: if_splits)

lemma prune_subseq: "subseq (pruneChatRuns now rows) rows"
  unfolding pruneChatRuns_def prune_global_def prune_session_def
  by (meson subseq_sql_delete subseq_order.trans)

lemma prune_keeps: "r \<in> set rows \<Longrightarrow> \<not> terminal_row r \<Longrightarrow> r \<in> set (pruneChatRuns now rows)"
  by (simp add: pruneChatRuns_def prune_global_def prune_session_def set_sql_delete)

text \<open>What the schema guarantees of any table.\<close>

definition table_wf :: "chat_row list \<Rightarrow> nat \<Rightarrow> bool" where
  "table_wf rows n \<longleftrightarrow> distinct (map row_key rows) \<and> sorted_wrt (<) (map crId rows)
     \<and> (\<forall>r \<in> set rows. crId r < n)"

lemma table_wf_subseq: "table_wf rows n \<Longrightarrow> subseq rows' rows \<Longrightarrow> table_wf rows' n"
proof -
  assume wf: "table_wf rows n" and s: "subseq rows' rows"
  have "sorted_wrt (\<lambda>a b. crId a < crId b) rows'"
    by (rule subseq_sorted_wrt [OF s]) (use wf in \<open>simp add: table_wf_def sorted_wrt_map\<close>)
  moreover have "distinct (map row_key rows')"
    by (rule subseq_distinct_map [OF s]) (use wf in \<open>simp add: table_wf_def\<close>)
  ultimately show ?thesis
    using wf subseq_set_subset [OF s] by (auto simp: table_wf_def sorted_wrt_map)
qed

lemma table_wf_update:
  assumes "table_wf rows n" and "\<And>r. row_key (f r) = row_key r" and "\<And>r. crId (f r) = crId r"
  shows "table_wf (sql_update p f rows) n"
proof -
  have "map row_key (sql_update p f rows) = map row_key rows"
    and ids: "map crId (sql_update p f rows) = map crId rows"
    by (simp_all add: map_sql_update_key assms)
  moreover have "\<forall>r \<in> set (sql_update p f rows). crId r < n"
    using assms(1) by (auto simp: table_wf_def sql_update_def assms(3))
  ultimately show ?thesis using assms(1) by (simp add: table_wf_def)
qed

lemma table_wf_append:
  "table_wf rows n \<Longrightarrow> \<forall>r \<in> set rows. row_key r \<noteq> row_key x \<Longrightarrow> crId x = n \<Longrightarrow> table_wf (rows @ [x]) (Suc n)"
  by (auto simp: table_wf_def sorted_wrt_append)

lemma row_keys [simp]:
  "row_key (reset_row now m r) = row_key r" "crId (reset_row now m r) = crId r"
  "row_key (set_outcome now oc r) = row_key r" "crId (set_outcome now oc r) = crId r"
  "row_key (new_row now s m mid i) = (s, m)" "crId (new_row now s m mid i) = i"
  "crSession (new_row now s m mid i) = s"
  by (simp_all add: row_key_def reset_row_def set_outcome_def new_row_def)

lemma key_updates [simp]:
  "row_key (r\<lparr>crStatus := a\<rparr>) = row_key r" "row_key (r\<lparr>crConfidence := b\<rparr>) = row_key r"
  "row_key (r\<lparr>crErrorCode := c\<rparr>) = row_key r" "row_key (r\<lparr>crError := d\<rparr>) = row_key r"
  "row_key (r\<lparr>crEndedAt := e\<rparr>) = row_key r" "row_key (r\<lparr>crSubmission := f\<rparr>) = row_key r"
  "row_key (r\<lparr>crRunId := g\<rparr>) = row_key r" "row_key (r\<lparr>crStartedAt := h\<rparr>) = row_key r"
  "row_key (r\<lparr>crStopRequestedAt := i\<rparr>) = row_key r"
  by (simp_all add: row_key_def)

lemma find_row_None: "find_row s m rows = None \<longleftrightarrow> (\<forall>r \<in> set rows. row_key r \<noteq> (s, m))"
  by (auto simp: find_row_def find_None_iff)

lemma find_row_Some: "find_row s m rows = Some r \<Longrightarrow> r \<in> set rows \<and> row_key r = (s, m)"
  unfolding find_row_def by (drule find_Some_set) simp

lemma proven_row [simp]: "proven_unsent (toRowModel r) = row_unsent r"
  by (simp add: proven_unsent_def row_unsent_def toRowModel_def)

section \<open>The caps\<close>

lemma sql_count_card: "distinct rows \<Longrightarrow> sql_count p rows = card {r \<in> set rows. p r}"
  by (simp add: sql_count_def distinct_length_filter Collect_conj_eq Int_commute)

text \<open>Keeping the first \<open>cap\<close> rows of a ranking in which live rows come first leaves at most \<open>cap\<close>
  rows, provided the live ones alone fit.\<close>

lemma ranked_kept:
  assumes wf: "table_wf rows n" and cap: "0 < cap"
    and live: "sql_count (\<lambda>r. part r \<and> \<not> terminal_row r) rows \<le> cap"
  shows "sql_count part (sql_delete (\<lambda>r. terminal_row r \<and> cap < row_number part rows r) rows) \<le> cap"
proof (rule ccontr)
  let ?kept = "sql_delete (\<lambda>r. terminal_row r \<and> cap < row_number part rows r) rows"
  let ?K = "{r \<in> set ?kept. part r}"
  assume many: "\<not> ?thesis"
  have dist: "distinct rows" using wf by (simp add: table_wf_def distinct_map)
  then have "distinct ?kept" by (simp add: sql_delete_def)
  then have K: "cap < card ?K" using many by (simp add: sql_count_card)
  have sub: "?K \<subseteq> {r \<in> set rows. part r}" by (auto simp: set_sql_delete)
  let ?T = "{r \<in> ?K. terminal_row r}"
  have "?T \<noteq> {}"
  proof
    assume "?T = {}"
    then have "?K \<subseteq> {r \<in> set rows. part r \<and> \<not> terminal_row r}" using sub by auto
    then have "card ?K \<le> card {r \<in> set rows. part r \<and> \<not> terminal_row r}" by (rule card_mono [rotated]) simp
    then show False using K live by (simp add: sql_count_card [OF dist])
  qed
  then have "Min (crId ` ?T) \<in> crId ` ?T" by (intro Min_in) auto
  then obtain x where m: "Min (crId ` ?T) = crId x" and x: "x \<in> ?T" by (rule imageE)
  have ids: "inj_on crId (set rows)"
    using wf by (auto simp: table_wf_def strict_sorted_iff distinct_map)
  have least: "crId x < crId y" if "y \<in> ?T" "y \<noteq> x" for y
  proof -
    have "crId x \<le> crId y" unfolding m [symmetric] by (rule Min_le) (use that in auto)
    moreover have "x \<in> set rows" "y \<in> set rows" using x that sub by auto
    then have "crId x \<noteq> crId y" using inj_onD [OF ids, of x y] that by auto
    ultimately show ?thesis by simp
  qed
  have "?K - {x} \<subseteq> {q \<in> set rows. part q \<and> outranks q x}"
    using sub x least by (auto simp: outranks_def)
  then have "card (?K - {x}) \<le> card {q \<in> set rows. part q \<and> outranks q x}"
    by (rule card_mono [rotated]) simp
  then have "card ?K - 1 \<le> sql_count (\<lambda>q. part q \<and> outranks q x) rows"
    using x by (simp add: sql_count_card [OF dist])
  then have "cap < row_number part rows x" using K by (simp add: row_number_def)
  then show False using x by (auto simp: set_sql_delete)
qed

text \<open>The invariant: the schema's constraints and the two caps.\<close>

definition caps_ok :: "chat_row list \<Rightarrow> bool" where
  "caps_ok rows \<longleftrightarrow> (\<forall>s. sql_count (\<lambda>r. crSession r = s) rows \<le> kPruneKeepPerSession)
     \<and> length rows \<le> kPruneKeepGlobal"

definition runs_ok :: "runs_store \<Rightarrow> bool" where
  "runs_ok st \<longleftrightarrow> table_wf (rsRows st) (rsNextId st) \<and> caps_ok (rsRows st)"

lemma sql_count_all [simp]: "sql_count (\<lambda>r. True) rows = length rows"
  by (simp add: sql_count_def)

lemma caps_ok_subseq: "caps_ok rows \<Longrightarrow> subseq rows' rows \<Longrightarrow> caps_ok rows'"
  unfolding caps_ok_def by (meson le_trans subseq_sql_count list_emb_length)

lemma caps_ok_update: "caps_ok rows \<Longrightarrow> (\<And>r. row_key (f r) = row_key r) \<Longrightarrow>
    caps_ok (sql_update p f rows)"
  by (simp add: caps_ok_def sql_count_update_same row_key_def)

lemma reconcile_terminal: "r \<in> set (reconcileInterruptedRuns now rows) \<Longrightarrow> terminal_row r"
proof -
  have "\<forall>r \<in> set (reconcileInterruptedRuns now rows). terminal_row r"
    unfolding reconcileInterruptedRuns_def ball_sql_update
    using run_status.exhaust by (auto simp: terminal_row_def kTerminalStatuses_def)
  then show "r \<in> set (reconcileInterruptedRuns now rows) \<Longrightarrow> terminal_row r" by blast
qed

lemma reconcile_wf: "table_wf rows n \<Longrightarrow> table_wf (reconcileInterruptedRuns now rows) n"
  unfolding reconcileInterruptedRuns_def by (intro table_wf_update) simp_all

text \<open>Pruning a table without live rows establishes the caps.\<close>

lemma prune_caps:
  assumes wf: "table_wf rows n" and settled: "\<forall>r \<in> set rows. terminal_row r"
  shows "caps_ok (pruneChatRuns now rows)"
proof -
  let ?aged = "sql_delete (\<lambda>r. terminal_row r \<and> crCreatedAt r < now - kPruneMaxAgeMs) rows"
  have wf1: "table_wf ?aged n" by (rule table_wf_subseq [OF wf subseq_sql_delete])
  have none: "sql_count (\<lambda>r. p r \<and> \<not> terminal_row r) xs = 0" if "subseq xs rows" for p xs
    using settled subseq_set_subset [OF that] by (auto simp: sql_count_eq_0)
  have "sql_count (\<lambda>r. crSession r = s) (prune_session ?aged) \<le> kPruneKeepPerSession" for s
  proof -
    have "sql_count (\<lambda>r. crSession r = s) (prune_session ?aged)
        = sql_count (\<lambda>r. crSession r = s) (sql_delete (\<lambda>r. terminal_row r
            \<and> kPruneKeepPerSession < row_number (\<lambda>q. crSession q = s) ?aged r) ?aged)"
      unfolding prune_session_def sql_count_def sql_delete_def filter_filter
      by (intro arg_cong [where f = length] filter_cong) auto
    also have "\<dots> \<le> kPruneKeepPerSession"
      by (rule ranked_kept [OF wf1]) (simp_all add: none [OF subseq_sql_delete] kPruneKeepPerSession_def)
    finally show ?thesis .
  qed
  moreover have "subseq (prune_session ?aged) rows"
    unfolding prune_session_def by (meson subseq_sql_delete subseq_order.trans)
  then have "table_wf (prune_session ?aged) n"
    and live: "sql_count (\<lambda>r. True \<and> \<not> terminal_row r) (prune_session ?aged) = 0"
    by (rule table_wf_subseq [OF wf], rule none)
  then have "sql_count (\<lambda>r. True) (prune_global (prune_session ?aged)) \<le> kPruneKeepGlobal"
    unfolding prune_global_def by (intro ranked_kept) (simp_all add: kPruneKeepGlobal_def)
  then have "length (prune_global (prune_session ?aged)) \<le> kPruneKeepGlobal"
    by (simp only: sql_count_all)
  moreover have "subseq (prune_global (prune_session ?aged)) (prune_session ?aged)"
    unfolding prune_global_def by (rule subseq_sql_delete)
  ultimately show ?thesis
    unfolding caps_ok_def pruneChatRuns_def by (meson le_trans subseq_sql_count)
qed

lemma init_ok: "table_wf rows n \<Longrightarrow> runs_ok (initChatRunsDb now True rows n)"
  using table_wf_subseq [OF reconcile_wf prune_subseq] prune_caps [OF reconcile_wf] reconcile_terminal
  by (auto simp: runs_ok_def initChatRunsDb_def)

section \<open>Claims\<close>

text \<open>What a claim for a new message does to the table.\<close>

lemma claim_new_cases:
  assumes "claim_new now s m mid st = (c, st')"
  obtains (refused) k where "c = ClaimTooMany" and "st' = st\<lparr>rsInserts := k\<rparr>"
  | (inserted) rows k where "c = Claimed" and "subseq rows (rsRows st)"
      and "\<forall>r \<in> set (rsRows st). \<not> terminal_row r \<longrightarrow> r \<in> set rows"
      and "sql_count (\<lambda>r. crSession r = s) rows < kPruneKeepPerSession"
      and "length rows < kPruneKeepGlobal"
      and "st' = \<lparr>rsRows = rows @ [new_row now s m mid (rsNextId st)],
                 rsNextId = Suc (rsNextId st), rsInserts = k\<rparr>"
proof -
  define rows where "rows = (if 500 \<le> Suc (rsInserts st) then pruneChatRuns now (rsRows st) else rsRows st)"
  define k where "k = (if 500 \<le> Suc (rsInserts st) then 0 else Suc (rsInserts st))"
  have sub0: "subseq rows (rsRows st)" by (simp add: rows_def prune_subseq)
  have keep0: "\<forall>r \<in> set (rsRows st). \<not> terminal_row r \<longrightarrow> r \<in> set rows"
    by (simp add: rows_def prune_keeps)
  obtain room1 rows1 where r1: "makeRoom (\<lambda>r. crSession r = s) kPruneKeepPerSession rows = (room1, rows1)"
    by (cases "makeRoom (\<lambda>r. crSession r = s) kPruneKeepPerSession rows")
  obtain room2 rows2 where r2: "makeRoom (\<lambda>r. True) kPruneKeepGlobal rows1 = (room2, rows2)"
    by (cases "makeRoom (\<lambda>r. True) kPruneKeepGlobal rows1")
  have claim: "(c, st') = (if \<not> (room1 \<and> room2) then (ClaimTooMany, st\<lparr>rsInserts := k\<rparr>)
      else (Claimed, \<lparr>rsRows = rows2 @ [new_row now s m mid (rsNextId st)],
                      rsNextId = Suc (rsNextId st), rsInserts = k\<rparr>))"
    using assms r1 r2 unfolding claim_new_def Let_def rows_def k_def by (auto split: if_splits)
  show thesis
  proof (cases "room1 \<and> room2")
    case True
    have "subseq rows2 (rsRows st)"
      using makeRoom_subseq [OF r1] makeRoom_subseq [OF r2] sub0 by (meson subseq_order.trans)
    moreover have "\<forall>r \<in> set (rsRows st). \<not> terminal_row r \<longrightarrow> r \<in> set rows2"
      using keep0 makeRoom_keeps [OF r1] makeRoom_keeps [OF r2] by blast
    moreover have "sql_count (\<lambda>r. crSession r = s) rows2 < kPruneKeepPerSession"
      by (rule le_less_trans [OF subseq_sql_count [OF makeRoom_subseq [OF r2]] makeRoom_room])
        (use r1 True in simp)
    moreover have "length rows2 < kPruneKeepGlobal"
      using r2 True makeRoom_room [of "\<lambda>r. True" kPruneKeepGlobal rows1 rows2] by simp
    ultimately show thesis using claim True inserted by simp
  next
    case False
    then show thesis using claim refused by simp
  qed
qed

lemma claimSend_cases:
  assumes "claimSend now s m mid retry st = (c, st')"
  obtains (there) r where "find_row s m (rsRows st) = Some r" and "\<not> row_unsent r"
      and "c = AlreadyThere (toRowModel r)" and "st' = st"
  | (again) r where "find_row s m (rsRows st) = Some r" and "row_unsent r" and "c = Claimed"
      and "st' = st\<lparr>rsRows := sql_update (\<lambda>r. row_key r = (s, m) \<and> row_unsent r)
                              (reset_row now mid) (rsRows st)\<rparr>"
  | (unknown) "find_row s m (rsRows st) = None" and "retry" and "c = ClaimUnknownOutcome" and "st' = st"
  | (new) "find_row s m (rsRows st) = None" and "\<not> retry" and "claim_new now s m mid st = (c, st')"
proof (cases "find_row s m (rsRows st)")
  case None
  then show thesis using assms unknown new by (auto simp: claimSend_def findRun_def split: if_splits)
next
  case (Some r)
  then show thesis
    using assms there again by (auto simp: claimSend_def findRun_def split: if_splits)
qed

lemma claimSend_ok:
  assumes ok: "runs_ok st" and c: "claimSend now s m mid retry st = (c, st')"
  shows "runs_ok st'"
  using c
proof (cases rule: claimSend_cases)
  case again
  then show ?thesis using ok by (auto simp: runs_ok_def table_wf_update caps_ok_update)
next
  case new
  from new(3) show ?thesis
  proof (cases rule: claim_new_cases)
    case (inserted rows k)
    have "table_wf rows (rsNextId st)" using ok table_wf_subseq inserted(2) by (auto simp: runs_ok_def)
    moreover have "\<forall>r \<in> set rows. row_key r \<noteq> (s, m)"
      using new(1) subseq_set_subset [OF inserted(2)] by (auto simp: find_row_None)
    moreover have "caps_ok rows" using ok caps_ok_subseq inserted(2) by (auto simp: runs_ok_def)
    ultimately show ?thesis
      using inserted(4-6) by (simp add: runs_ok_def table_wf_append caps_ok_def)
  qed (use ok in \<open>simp add: runs_ok_def\<close>)
qed (use ok in simp_all)

lemma claimSend_keeps_live:
  assumes c: "claimSend now s m mid retry st = (c, st')" and r: "r \<in> set (rsRows st)" "\<not> terminal_row r"
  shows "r \<in> set (rsRows st')"
  using c
proof (cases rule: claimSend_cases)
  case again
  have "\<not> row_unsent r" using r(2) by (auto simp: row_unsent_def terminal_row_def kTerminalStatuses_def)
  then show ?thesis using again(4) r(1) by (simp add: set_sql_update)
next
  case new
  from new(3) show ?thesis by (cases rule: claim_new_cases) (use r in auto)
qed (use r in simp_all)

lemma runs_step_ok: "runs_ok st \<Longrightarrow> runs_ok (runs_step st p)"
proof -
  assume ok: "runs_ok st"
  then have wf: "table_wf (rsRows st) (rsNextId st)" and caps: "caps_ok (rsRows st)"
    by (simp_all add: runs_ok_def)
  show "runs_ok (runs_step st p)"
  proof (cases p)
    case (OpClaim now s m mid retry)
    then show ?thesis
      using claimSend_ok [OF ok surjective_pairing] by (simp add: runs_step_def)
  next
    case (OpRestart now)
    then show ?thesis using init_ok [OF wf] by (simp add: runs_step_def)
  next
    case (OpPrune now)
    then show ?thesis
      using table_wf_subseq [OF wf prune_subseq] caps_ok_subseq [OF caps prune_subseq]
      by (simp add: runs_step_def runs_ok_def)
  qed (use wf caps in \<open>simp_all add: runs_step_def runs_ok_def markRunning_def markStopRequested_def
         markTerminal_def table_wf_update caps_ok_update\<close>)
qed

interpretation runs: machine runs_step runs_ok "\<lambda>p. True"
  by unfold_locales (rule runs_step_ok)

text \<open>What a claim leaves behind, and when one succeeds: the facts the send path rests on.\<close>

definition claimable :: "string \<Rightarrow> string \<Rightarrow> bool \<Rightarrow> runs_store \<Rightarrow> bool" where
  "claimable session msg retry st \<longleftrightarrow>
     (case find_row session msg (rsRows st) of None \<Rightarrow> \<not> retry | Some r \<Rightarrow> row_unsent r)"

lemma find_row_append: "find_row s m (rows @ [r]) =
    (case find_row s m rows of None \<Rightarrow> (if row_key r = (s, m) then Some r else None) | Some q \<Rightarrow> Some q)"
  by (induction rows) (auto simp: find_row_def)

lemma find_row_update: "(\<And>r. row_key (f r) = row_key r) \<Longrightarrow>
    find_row s m (sql_update p f rows) = map_option (\<lambda>r. if p r then f r else r) (find_row s m rows)"
  by (induction rows) (auto simp: find_row_def)

lemma find_row_subseq_None: "subseq rows' rows \<Longrightarrow> find_row s m rows = None \<Longrightarrow> find_row s m rows' = None"
  using subseq_set_subset by (fastforce simp: find_row_None)

lemma claimed_needs: "claimSend now s m mid retry st = (Claimed, st') \<Longrightarrow> claimable s m retry st"
  by (erule claimSend_cases) (auto simp: claimable_def)

lemma claimed_row:
  assumes c: "claimSend now s m mid retry st = (Claimed, st')"
  obtains r where "find_row s m (rsRows st') = Some r" and "\<not> row_unsent r" and "crStatus r = RunPending"
    and "crRunId r = None" and "crSubmission r = SubPossibly"
  using c
proof (cases rule: claimSend_cases)
  case (again r)
  have "find_row s m (rsRows st') = Some (reset_row now mid r)"
    using again(1,2,4) find_row_Some [OF again(1)] by (simp add: find_row_update)
  then show thesis by (rule that) (simp_all add: reset_row_def row_unsent_def)
next
  case new
  from new(3) show thesis
  proof (cases rule: claim_new_cases)
    case (inserted rows k)
    have "find_row s m rows = None" by (rule find_row_subseq_None [OF inserted(2) new(1)])
    then have "find_row s m (rsRows st') = Some (new_row now s m mid (rsNextId st))"
      using inserted(6) by (simp add: find_row_append)
    then show thesis by (rule that) (simp_all add: new_row_def row_unsent_def)
  qed simp
qed simp_all

text \<open>Another message's row either stays as it is or leaves the table.\<close>

lemma find_row_subseq_Some:
  assumes "table_wf rows n" and "subseq rows' rows" and "find_row s m rows' = Some q"
  shows "find_row s m rows = Some q"
proof -
  have q: "q \<in> set rows" "row_key q = (s, m)"
    using find_row_Some [OF assms(3)] subseq_set_subset [OF assms(2)] by auto
  have inj: "inj_on row_key (set rows)" using assms(1) by (simp add: table_wf_def distinct_map)
  obtain r where r: "find_row s m rows = Some r"
    using q by (cases "find_row s m rows") (auto simp: find_row_None)
  then have "r = q" using find_row_Some [OF r] q inj_onD [OF inj, of r q] by simp
  then show ?thesis using r by simp
qed

lemma claim_other:
  assumes ok: "runs_ok st" and c: "claimSend now s m mid retry st = (c, st')" and k: "(s', m') \<noteq> (s, m)"
    and q: "find_row s' m' (rsRows st') = Some q"
  shows "find_row s' m' (rsRows st) = Some q"
  using c
proof (cases rule: claimSend_cases)
  case (again r)
  then obtain p where p: "find_row s' m' (rsRows st) = Some p"
    and pq: "q = (if row_key p = (s, m) \<and> row_unsent p then reset_row now mid p else p)"
    using q by (auto simp: find_row_update)
  have "row_key p \<noteq> (s, m)" using find_row_Some [OF p] k by auto
  then show ?thesis using p pq by simp
next
  case new
  from new(3) show ?thesis
  proof (cases rule: claim_new_cases)
    case (inserted rows i)
    then have "find_row s' m' rows = Some q"
      using q k by (auto simp: find_row_append split: option.splits if_splits)
    then show ?thesis
      using find_row_subseq_Some [OF _ inserted(2)] ok by (auto simp: runs_ok_def)
  qed (use q in simp)
qed (use q in simp_all)

section \<open>The properties\<close>

lemma reconcile_find:
  "find_row s m (reconcileInterruptedRuns now rows) = map_option (\<lambda>r.
     if crStatus r = RunPending then r\<lparr>crStatus := RunUnknown, crConfidence := Some ''unconfirmed'',
       crErrorCode := Some ''unknown_outcome'',
       crError := Some ''AlphaClaw restarted before this send was confirmed'', crEndedAt := Some now\<rparr>
     else if crStatus r = RunRunning then r\<lparr>crStatus := RunInterrupted,
       crConfidence := Some ''unconfirmed'', crError := Some ''AlphaClaw restarted mid-run'',
       crEndedAt := Some now\<rparr>
     else r) (find_row s m rows)"
  unfolding reconcileInterruptedRuns_def
  by (subst find_row_update, simp, subst find_row_update, simp)
    (auto simp: option.map_comp o_def intro!: option.map_cong)

lemma reconciled_in_flight:
  assumes wf: "table_wf rows n" and r: "r \<in> set rows" "\<not> terminal_row r"
    and q: "find_row (crSession r) (crMsg r) (pruneChatRuns now (reconcileInterruptedRuns now rows)) = Some q"
  shows "crStatus q = (if crStatus r = RunPending then RunUnknown else RunInterrupted)"
proof -
  have "find_row (crSession r) (crMsg r) (reconcileInterruptedRuns now rows) = Some q"
    by (rule find_row_subseq_Some [OF reconcile_wf [OF wf] prune_subseq q])
  moreover have "find_row (crSession r) (crMsg r) rows = Some r"
  proof -
    have inj: "inj_on row_key (set rows)" using wf by (simp add: table_wf_def distinct_map)
    have key: "row_key r = (crSession r, crMsg r)" by (simp add: row_key_def)
    obtain p where p: "find_row (crSession r) (crMsg r) rows = Some p"
      using r(1) key by (cases "find_row (crSession r) (crMsg r) rows") (auto simp: find_row_None)
    show ?thesis using p find_row_Some [OF p] r(1) key inj_onD [OF inj, of p r] by simp
  qed
  moreover have "crStatus r = RunPending \<or> crStatus r = RunRunning"
    using r(2) by (cases "crStatus r") (simp_all add: terminal_row_def kTerminalStatuses_def)
  ultimately show ?thesis by (auto simp: reconcile_find)
qed

text \<open>The table of chat runs stays bounded whatever a client sends: from any table the schema
  admits, after a boot and any sequence of operations and restarts, a session holds at most 200 rows
  and the table at most 5000, keys stay unique, and no claim ever evicts a row still in flight.\<close>

lemma chat_runs_bounded:
  assumes "table_wf rows n"
  shows "let st = run runs_step (initChatRunsDb now True rows n) ops in
     (\<forall>s. sql_count (\<lambda>r. crSession r = s) (rsRows st) \<le> 200) \<and> length (rsRows st) \<le> 5000
     \<and> distinct (map row_key (rsRows st))
     \<and> (\<forall>t s m mid retry. \<forall>r \<in> set (rsRows st).
          terminal_row r \<or> r \<in> set (rsRows (snd (claimSend t s m mid retry st))))"
proof -
  let ?st = "run runs_step (initChatRunsDb now True rows n) ops"
  have "runs_ok ?st" by (rule runs.run_inv [OF init_ok [OF assms]]) (simp add: list_all_iff)
  then have "table_wf (rsRows ?st) (rsNextId ?st)" "caps_ok (rsRows ?st)" by (simp_all add: runs_ok_def)
  moreover have "terminal_row r \<or> r \<in> set (rsRows (snd (claimSend t s m mid retry ?st)))"
    if "r \<in> set (rsRows ?st)" for t s m mid retry r
    using claimSend_keeps_live [OF surjective_pairing that] by blast
  ultimately show ?thesis
    by (simp add: Let_def table_wf_def caps_ok_def kPruneKeepPerSession_def kPruneKeepGlobal_def)
qed

text \<open>Boot reconciliation settles every row honestly: after a start no row is in flight; a message
  that was pending at the crash is unknown and one that was running is interrupted, unless retention
  dropped its row; and a retry of either is never claimed for another send.\<close>

lemma boot_settles_runs:
  assumes wf: "table_wf rows n"
  shows "let st = initChatRunsDb now True rows n in
     (\<forall>r \<in> set (rsRows st). terminal_row r)
     \<and> (\<forall>r \<in> set rows. terminal_row r \<or>
          (case findRun (crSession r) (crMsg r) st of None \<Rightarrow> True
           | Some m \<Rightarrow> rmStatus m = (if crStatus r = RunPending then RunUnknown else RunInterrupted)))
     \<and> (\<forall>r \<in> set rows. terminal_row r \<or>
          (\<forall>t mid. fst (claimSend t (crSession r) (crMsg r) mid True st) \<noteq> Claimed))"
proof -
  let ?st = "initChatRunsDb now True rows n"
  have all: "\<forall>r \<in> set (rsRows ?st). terminal_row r"
    using subseq_set_subset [OF prune_subseq] reconcile_terminal by (fastforce simp: initChatRunsDb_def)
  have status: "crStatus q = (if crStatus r = RunPending then RunUnknown else RunInterrupted)"
    if "r \<in> set rows" "\<not> terminal_row r" "find_row (crSession r) (crMsg r) (rsRows ?st) = Some q" for r q
    using reconciled_in_flight [OF wf that(1,2)] that(3) by (simp add: initChatRunsDb_def)
  have refused: "fst (claimSend t (crSession r) (crMsg r) mid True ?st) \<noteq> Claimed"
    if r: "r \<in> set rows" "\<not> terminal_row r" for r t mid
  proof
    assume "fst (claimSend t (crSession r) (crMsg r) mid True ?st) = Claimed"
    then have "claimable (crSession r) (crMsg r) True ?st"
      by (intro claimed_needs [where st' = "snd (claimSend t (crSession r) (crMsg r) mid True ?st)"])
        (simp add: prod_eq_iff)
    then show False
      using status [OF r] by (auto simp: claimable_def row_unsent_def split: option.splits if_splits)
  qed
  have answer: "case findRun (crSession r) (crMsg r) ?st of None \<Rightarrow> True
      | Some m \<Rightarrow> rmStatus m = (if crStatus r = RunPending then RunUnknown else RunInterrupted)"
    if r: "r \<in> set rows" "\<not> terminal_row r" for r
    using status [OF r] by (cases "find_row (crSession r) (crMsg r) (rsRows ?st)")
      (simp_all add: findRun_def toRowModel_def)
  show ?thesis unfolding Let_def using all answer refused by blast
qed

definition sample_rows :: "chat_row list" where
  "sample_rows = [new_row 10 ''s'' ''a'' ''x'' 1,
     (new_row 20 ''s'' ''b'' ''y'' 2)\<lparr>crStatus := RunRunning, crSubmission := SubSubmitted, crRunId := Some ''r''\<rparr>]"

lemma sample_rows_wf: "table_wf sample_rows 3"
  by (simp add: table_wf_def sample_rows_def new_row_def row_key_def)

lemma chat_runs_bounded_witness:
  "length (rsRows (run runs_step (initChatRunsDb 30 True sample_rows 3) [OpClaim 40 ''s'' ''c'' ''z'' False])) \<le> 5000"
  using chat_runs_bounded [OF sample_rows_wf, of 30 "[OpClaim 40 ''s'' ''c'' ''z'' False]"]
  by (simp add: Let_def)

lemma boot_settles_runs_witness:
  "fst (claimSend 40 ''s'' ''a'' ''z'' True (initChatRunsDb 30 True sample_rows 3)) \<noteq> Claimed"
proof -
  have "new_row 10 ''s'' ''a'' ''x'' 1 \<in> set sample_rows" by (simp add: sample_rows_def)
  moreover have "\<not> terminal_row (new_row 10 ''s'' ''a'' ''x'' 1)"
    by (simp add: terminal_row_def kTerminalStatuses_def new_row_def)
  moreover have "crSession (new_row 10 ''s'' ''a'' ''x'' 1) = ''s''" "crMsg (new_row 10 ''s'' ''a'' ''x'' 1) = ''a''"
    by (simp_all add: new_row_def)
  ultimately show ?thesis
    using boot_settles_runs [OF sample_rows_wf, of 30, unfolded Let_def, THEN conjunct2, THEN conjunct2]
    by fastforce
qed

end
