(* ===== verification/Chat_Registry.thy ===== *)
theory Chat_Registry
  imports Prelude "HOL-Library.AList"
begin

text \<open>
  The in-memory run registry of the chat bridge (\<open>lib/server/chat/run-registry.js\<close>). A record is an
  object shared by several maps, so records live in a heap and the maps hold references: positions
  in the heap. A JavaScript \<open>Map\<close> is an association list in insertion order (\<open>AList.update\<close> keeps
  the place of a key that is there), a \<open>Set\<close> a list without repetitions. Sockets are numbers.
  \<open>browserRecords\<close> is only ever written and is left out; a timer handle is the flag that it is armed.
  Byte lengths of serialised frames and events are inputs.
\<close>

section \<open>Records\<close>

definition kMaxBufferedRuns :: nat where "kMaxBufferedRuns = 64"
definition kMaxEventsPerRun :: nat where "kMaxEventsPerRun = 200"
definition kMaxBufferedBytesPerRun :: nat where "kMaxBufferedBytesPerRun = 256 * 1024"

datatype run_state = StPending | StRunning | StStopping

text \<open>The stream frames of a run, without the session key, message id and \<open>seq\<close> they all carry:
  \<open>Started\<close> has the client's message id and the run id, \<open>Part\<close> is a chunk or tool frame with its
  serialised content, \<open>Done\<close> has the run id, reason, confidence, the stopped flag and the detail.\<close>

datatype stream_body = Started string string | Part string | Done string string string bool string

record replay_entry =
  reSeq :: nat
  reSize :: nat
  reFrame :: stream_body

record chat_record =
  rcMsg :: string
  rcSession :: string
  rcSockets :: "nat list"
  rcMessageId :: string
  rcRunId :: string
  rcState :: run_state
  rcWritten :: bool
  rcFinalized :: bool
  rcStopRequested :: bool
  rcStopTimer :: bool
  rcCreatedAt :: int
  rcLastEventAt :: int
  rcLastSeq :: nat
  rcReplay :: "replay_entry list"
  rcReplayBytes :: nat
  rcReplayGap :: bool
  rcResumable :: bool
  rcGrace :: bool
  rcOrigin :: nat
  rcLegacy :: bool

text \<open>A gateway event after \<open>resolveRunIdFromPayload\<close> and \<open>resolveSessionKeyFromPayload\<close>: what its
  payload names, its serialised size, and what the payload scanners find in it. \<open>GwAgent\<close> carries
  the frames of an agent event and whether it is a lifecycle end.\<close>

datatype gw_kind = GwAgent "stream_body list" bool | GwAgentRetrying string | GwChatError | GwChat
  | GwOther

record gw_event =
  geRunId :: string
  geSession :: string
  geBytes :: nat
  geKind :: gw_kind

record buffered_run =
  bfList :: "gw_event list"
  bfBytes :: nat

record registry =
  rgHeap :: "chat_record list"
  rgByKey :: "(string \<times> nat) list"
  rgByRunId :: "(string \<times> nat) list"
  rgActive :: "(string \<times> nat) list"
  rgOriginated :: "(nat \<times> nat list) list"
  rgBuffered :: "(string \<times> buffered_run) list"

definition createRunRegistry :: registry where
  "createRunRegistry = \<lparr>rgHeap = [], rgByKey = [], rgByRunId = [], rgActive = [], rgOriginated = [],
     rgBuffered = []\<rparr>"

definition recordKey :: "string \<Rightarrow> string \<Rightarrow> string" where
  "recordKey session msg = session @ CHR 0x0A # msg"

definition the_record :: "registry \<Rightarrow> nat \<Rightarrow> chat_record" where
  "the_record reg i = rgHeap reg ! i"

definition put_record :: "nat \<Rightarrow> (chat_record \<Rightarrow> chat_record) \<Rightarrow> registry \<Rightarrow> registry" where
  "put_record i f reg = reg\<lparr>rgHeap := (rgHeap reg)[i := f (rgHeap reg ! i)]\<rparr>"

section \<open>Lookups\<close>

definition originated :: "nat \<Rightarrow> registry \<Rightarrow> nat list" where
  "originated ws reg = (case map_of (rgOriginated reg) ws of None \<Rightarrow> [] | Some s \<Rightarrow> s)"

definition countForBrowser :: "nat \<Rightarrow> registry \<Rightarrow> nat" where
  "countForBrowser ws reg = length (originated ws reg)"

definition getByKey :: "string \<Rightarrow> string \<Rightarrow> registry \<Rightarrow> nat option" where
  "getByKey session msg reg = map_of (rgByKey reg) (recordKey session msg)"

definition getByRunId :: "string \<Rightarrow> registry \<Rightarrow> nat option" where
  "getByRunId runId reg = map_of (rgByRunId reg) runId"

definition getActiveForSession :: "string \<Rightarrow> registry \<Rightarrow> nat option" where
  "getActiveForSession session reg = map_of (rgActive reg) session"

definition liveRecords :: "registry \<Rightarrow> nat list" where
  "liveRecords reg = map snd (rgByKey reg)"

definition startedRecords :: "registry \<Rightarrow> nat list" where
  "startedRecords reg = map snd (rgByRunId reg)"

definition soloStartedRecord :: "registry \<Rightarrow> nat option" where
  "soloStartedRecord reg = (case rgByRunId reg of [(k, i)] \<Rightarrow> Some i | _ \<Rightarrow> None)"

definition stats_live :: "registry \<Rightarrow> nat" where
  "stats_live reg = length (rgByKey reg)"

section \<open>Operations\<close>

definition set_add :: "'a \<Rightarrow> 'a list \<Rightarrow> 'a list" where
  "set_add x xs = (if x \<in> set xs then xs else xs @ [x])"

definition new_record :: "string \<Rightarrow> string \<Rightarrow> nat \<Rightarrow> string \<Rightarrow> int \<Rightarrow> chat_record" where
  "new_record msg session ws messageId now =
     \<lparr>rcMsg = msg, rcSession = session, rcSockets = [ws], rcMessageId = messageId, rcRunId = [],
      rcState = StPending, rcWritten = False, rcFinalized = False, rcStopRequested = False,
      rcStopTimer = False, rcCreatedAt = now, rcLastEventAt = now, rcLastSeq = 0, rcReplay = [],
      rcReplayBytes = 0, rcReplayGap = False, rcResumable = True, rcGrace = False, rcOrigin = ws,
      rcLegacy = False\<rparr>"

definition createRecord :: "string \<Rightarrow> string \<Rightarrow> nat \<Rightarrow> string \<Rightarrow> int \<Rightarrow> registry \<Rightarrow> nat \<times> registry" where
  "createRecord msg session ws messageId now reg =
     (let i = length (rgHeap reg) in
      (i, reg\<lparr>rgHeap := rgHeap reg @ [new_record msg session ws messageId now],
            rgByKey := AList.update (recordKey session msg) i (rgByKey reg),
            rgActive := AList.update session i (rgActive reg),
            rgOriginated := AList.update ws (set_add i (originated ws reg)) (rgOriginated reg)\<rparr>))"

definition promote :: "nat \<Rightarrow> string \<Rightarrow> registry \<Rightarrow> registry" where
  "promote i runId reg =
     (let reg1 = put_record i (\<lambda>r. r\<lparr>rcRunId := runId,
            rcState := (if rcState r = StStopping then StStopping else StRunning)\<rparr>) reg
      in if runId = [] then reg1 else reg1\<lparr>rgByRunId := AList.update runId i (rgByRunId reg1)\<rparr>)"

definition drop_originated :: "nat \<Rightarrow> nat \<Rightarrow> registry \<Rightarrow> (nat \<times> nat list) list" where
  "drop_originated i ws reg =
     (case map_of (rgOriginated reg) ws of
        None \<Rightarrow> rgOriginated reg
      | Some s \<Rightarrow> (let s' = removeAll i s in
          if s' = [] then AList.delete ws (rgOriginated reg) else AList.update ws s' (rgOriginated reg)))"

definition finalize :: "nat \<Rightarrow> registry \<Rightarrow> bool \<times> registry" where
  "finalize i reg =
     (let r = the_record reg i in
      if rcFinalized r then (False, reg)
      else
        (let reg1 = put_record i (\<lambda>r. r\<lparr>rcFinalized := True, rcReplay := [], rcReplayBytes := 0,
               rcResumable := False, rcStopTimer := False, rcGrace := False\<rparr>) reg;
             byKey = AList.delete (recordKey (rcSession r) (rcMsg r)) (rgByKey reg);
             byRunId = (if rcRunId r \<noteq> [] \<and> map_of (rgByRunId reg) (rcRunId r) = Some i
                        then AList.delete (rcRunId r) (rgByRunId reg) else rgByRunId reg);
             active = (if map_of (rgActive reg) (rcSession r) = Some i
                       then AList.delete (rcSession r) (rgActive reg) else rgActive reg)
         in (True, reg1\<lparr>rgByKey := byKey, rgByRunId := byRunId, rgActive := active,
               rgOriginated := drop_originated i (rcOrigin r) reg,
               rgBuffered := (if byKey = [] then [] else rgBuffered reg)\<rparr>)))"

definition detachSocket :: "nat \<Rightarrow> registry \<Rightarrow> nat list \<times> registry" where
  "detachSocket ws reg =
     (let holding = filter (\<lambda>i. ws \<in> set (rcSockets (the_record reg i))) (liveRecords reg);
          reg' = fold (\<lambda>i. put_record i (\<lambda>r. r\<lparr>rcSockets := removeAll ws (rcSockets r)\<rparr>)) holding reg
      in (filter (\<lambda>i. rcSockets (the_record reg' i) = []) holding, reg'))"

definition attachSocket :: "nat \<Rightarrow> nat \<Rightarrow> registry \<Rightarrow> registry" where
  "attachSocket i ws reg =
     (if rcFinalized (the_record reg i) then reg
      else put_record i (\<lambda>r. r\<lparr>rcSockets := set_add ws (rcSockets r), rcGrace := False\<rparr>) reg)"

definition add_event :: "gw_event \<Rightarrow> buffered_run \<Rightarrow> buffered_run" where
  "add_event e entry =
     (if length (bfList entry) < kMaxEventsPerRun \<and> bfBytes entry + geBytes e \<le> kMaxBufferedBytesPerRun
      then \<lparr>bfList = bfList entry @ [e], bfBytes = bfBytes entry + geBytes e\<rparr> else entry)"

definition bufferEvent :: "string \<Rightarrow> gw_event \<Rightarrow> registry \<Rightarrow> registry" where
  "bufferEvent runId e reg =
     (if runId = [] \<or> map_of (rgByRunId reg) runId \<noteq> None then reg
      else
        (let entry = (case map_of (rgBuffered reg) runId of None \<Rightarrow> \<lparr>bfList = [], bfBytes = 0\<rparr> | Some b \<Rightarrow> b);
             buffered = AList.update runId (add_event e entry) (rgBuffered reg);
             oldest = fst (hd buffered)
         in reg\<lparr>rgBuffered := (if kMaxBufferedRuns < length buffered \<and> oldest \<noteq> runId
                               then AList.delete oldest buffered else buffered)\<rparr>))"

definition drainBufferedEvents :: "string \<Rightarrow> registry \<Rightarrow> gw_event list \<times> registry" where
  "drainBufferedEvents runId reg =
     (case map_of (rgBuffered reg) runId of
        None \<Rightarrow> ([], reg)
      | Some entry \<Rightarrow> (if bfList entry = [] then ([], reg)
          else (bfList entry, reg\<lparr>rgBuffered := AList.delete runId (rgBuffered reg)\<rparr>)))"

definition clearAllBuffers :: "registry \<Rightarrow> registry" where
  "clearAllBuffers reg = reg\<lparr>rgBuffered := []\<rparr>"

definition buffer_stats :: "registry \<Rightarrow> nat \<times> nat" where
  "buffer_stats reg = (length (rgBuffered reg), sum_list (map (length \<circ> bfList \<circ> snd) (rgBuffered reg)))"

section \<open>The registry as the set of live runs\<close>

definition rec_live :: "registry \<Rightarrow> nat \<Rightarrow> bool" where
  "rec_live reg i \<longleftrightarrow> i < length (rgHeap reg) \<and> \<not> rcFinalized (the_record reg i)"

definition valid_session :: "string \<Rightarrow> bool" where
  "valid_session s \<longleftrightarrow> CHR 0x0A \<notin> set s"

text \<open>Every map is a view of the live records.\<close>

definition reg_ok :: "registry \<Rightarrow> bool" where
  "reg_ok reg \<longleftrightarrow>
     distinct (map fst (rgByKey reg)) \<and> distinct (map fst (rgByRunId reg))
     \<and> (\<forall>k i. map_of (rgByKey reg) k = Some i \<longleftrightarrow>
          rec_live reg i \<and> k = recordKey (rcSession (the_record reg i)) (rcMsg (the_record reg i)))
     \<and> (\<forall>s i. map_of (rgActive reg) s = Some i \<longleftrightarrow> rec_live reg i \<and> s = rcSession (the_record reg i))
     \<and> (\<forall>k i. map_of (rgByRunId reg) k = Some i \<longrightarrow> rec_live reg i \<and> k = rcRunId (the_record reg i) \<and> k \<noteq> [])
     \<and> (\<forall>ws. distinct (originated ws reg)
          \<and> set (originated ws reg) = {i. rec_live reg i \<and> rcOrigin (the_record reg i) = ws})
     \<and> (\<forall>i. rec_live reg i \<longrightarrow> valid_session (rcSession (the_record reg i)))"

lemma reg_okD:
  assumes "reg_ok reg"
  shows "distinct (map fst (rgByKey reg))" and "distinct (map fst (rgByRunId reg))"
    and "map_of (rgByKey reg) k = Some i \<longleftrightarrow>
          rec_live reg i \<and> k = recordKey (rcSession (the_record reg i)) (rcMsg (the_record reg i))"
    and "map_of (rgActive reg) s = Some i \<longleftrightarrow> rec_live reg i \<and> s = rcSession (the_record reg i)"
    and "map_of (rgByRunId reg) k = Some i \<Longrightarrow> rec_live reg i"
    and "map_of (rgByRunId reg) k = Some i \<Longrightarrow> rcRunId (the_record reg i) = k"
    and "map_of (rgByRunId reg) k = Some i \<Longrightarrow> k \<noteq> []"
    and "distinct (originated ws reg)"
    and "set (originated ws reg) = {i. rec_live reg i \<and> rcOrigin (the_record reg i) = ws}"
    and "rec_live reg i \<Longrightarrow> valid_session (rcSession (the_record reg i))"
  using assms unfolding reg_ok_def by blast+

lemma reg_okI:
  assumes "distinct (map fst (rgByKey reg))" and "distinct (map fst (rgByRunId reg))"
    and "\<And>k i. map_of (rgByKey reg) k = Some i \<longleftrightarrow>
          rec_live reg i \<and> k = recordKey (rcSession (the_record reg i)) (rcMsg (the_record reg i))"
    and "\<And>s i. map_of (rgActive reg) s = Some i \<longleftrightarrow> rec_live reg i \<and> s = rcSession (the_record reg i)"
    and "\<And>k i. map_of (rgByRunId reg) k = Some i \<Longrightarrow>
          rec_live reg i \<and> rcRunId (the_record reg i) = k \<and> k \<noteq> []"
    and "\<And>ws. distinct (originated ws reg)"
    and "\<And>ws. set (originated ws reg) = {i. rec_live reg i \<and> rcOrigin (the_record reg i) = ws}"
    and "\<And>i. rec_live reg i \<Longrightarrow> valid_session (rcSession (the_record reg i))"
  shows "reg_ok reg"
  using assms unfolding reg_ok_def by blast

lemma recordKey_inj: "valid_session s \<Longrightarrow> valid_session s' \<Longrightarrow> recordKey s m = recordKey s' m' \<longleftrightarrow> s = s' \<and> m = m'"
proof
  assume v: "valid_session s" "valid_session s'" and eq: "recordKey s m = recordKey s' m'"
  have "takeWhile (\<lambda>c. c \<noteq> CHR 0x0A) (recordKey s m) = s" if "valid_session s" for s m
    unfolding recordKey_def by (subst takeWhile_append2) (use that in \<open>auto simp: valid_session_def\<close>)
  then have "s = s'" using v eq by metis
  then show "s = s' \<and> m = m'" using eq by (simp add: recordKey_def)
qed simp

lemma the_record_put: "i < length (rgHeap reg) \<Longrightarrow>
    the_record (put_record i f reg) j = (if j = i then f (the_record reg i) else the_record reg j)"
  by (simp add: the_record_def put_record_def)

lemma put_record_fields [simp]:
  "length (rgHeap (put_record i f reg)) = length (rgHeap reg)"
  "rgByKey (put_record i f reg) = rgByKey reg" "rgByRunId (put_record i f reg) = rgByRunId reg"
  "rgActive (put_record i f reg) = rgActive reg" "rgOriginated (put_record i f reg) = rgOriginated reg"
  "rgBuffered (put_record i f reg) = rgBuffered reg" "originated ws (put_record i f reg) = originated ws reg"
  by (simp_all add: put_record_def originated_def)

lemma the_record_other [simp]:
  "the_record (reg\<lparr>rgByKey := a\<rparr>) i = the_record reg i" "the_record (reg\<lparr>rgByRunId := a\<rparr>) i = the_record reg i"
  "the_record (reg\<lparr>rgActive := a\<rparr>) i = the_record reg i" "the_record (reg\<lparr>rgOriginated := b\<rparr>) i = the_record reg i"
  "the_record (reg\<lparr>rgBuffered := c\<rparr>) i = the_record reg i"
  by (simp_all add: the_record_def)

text \<open>A function that keeps what the maps are keyed by.\<close>

definition keeps_identity :: "(chat_record \<Rightarrow> chat_record) \<Rightarrow> bool" where
  "keeps_identity f \<longleftrightarrow> (\<forall>r. rcMsg (f r) = rcMsg r \<and> rcSession (f r) = rcSession r
     \<and> rcOrigin (f r) = rcOrigin r \<and> rcRunId (f r) = rcRunId r \<and> rcFinalized (f r) = rcFinalized r)"

lemma put_record_beyond: "\<not> i < length (rgHeap reg) \<Longrightarrow> put_record i f reg = reg"
  by (cases reg) (simp add: put_record_def list_update_beyond)

lemma identity_put:
  assumes "keeps_identity f"
  shows "rcMsg (the_record (put_record i f reg) j) = rcMsg (the_record reg j)"
    and "rcSession (the_record (put_record i f reg) j) = rcSession (the_record reg j)"
    and "rcOrigin (the_record (put_record i f reg) j) = rcOrigin (the_record reg j)"
    and "rcRunId (the_record (put_record i f reg) j) = rcRunId (the_record reg j)"
    and "rcFinalized (the_record (put_record i f reg) j) = rcFinalized (the_record reg j)"
  using assms
  by (cases "i < length (rgHeap reg)"; simp add: the_record_put keeps_identity_def put_record_beyond)+

lemma rec_live_put: "keeps_identity f \<Longrightarrow> rec_live (put_record i f reg) j = rec_live reg j"
  by (simp add: rec_live_def identity_put)

lemma reg_ok_put: "keeps_identity f \<Longrightarrow> reg_ok (put_record i f reg) = reg_ok reg"
  unfolding reg_ok_def put_record_fields by (simp only: rec_live_put identity_put simp_thms)

lemma reg_ok_buffered: "reg_ok (reg\<lparr>rgBuffered := b\<rparr>) = reg_ok reg"
  by (simp add: reg_ok_def rec_live_def originated_def)

lemma createRecord_live:
  assumes "createRecord m s ws mid now reg = (i, reg')"
  shows "i = length (rgHeap reg)" and "length (rgHeap reg') = Suc i"
    and "the_record reg' i = new_record m s ws mid now"
    and "j < i \<Longrightarrow> the_record reg' j = the_record reg j"
    and "rec_live reg' j \<longleftrightarrow> j = i \<or> rec_live reg j"
  using assms by (auto simp: createRecord_def the_record_def rec_live_def nth_append new_record_def Let_def
      less_Suc_eq)

lemma originated_update:
  "originated ws (reg\<lparr>rgOriginated := AList.update ws' l (rgOriginated reg)\<rparr>) =
     (if ws = ws' then l else originated ws reg)"
  by (simp add: originated_def update_conv')

lemma createRecord_ok:
  assumes ok: "reg_ok reg" and v: "valid_session s"
    and free: "getByKey s m reg = None" "getActiveForSession s reg = None"
    and c: "createRecord m s ws mid now reg = (i, reg')"
  shows "reg_ok reg'"
proof -
  note live = createRecord_live [OF c]
  have rec: "the_record reg' j = the_record reg j" if "rec_live reg j" for j
    using that live(1,4) by (simp add: rec_live_def)
  have new: "rcSession (the_record reg' i) = s" "rcMsg (the_record reg' i) = m" "rcOrigin (the_record reg' i) = ws"
    by (simp_all add: live(3) new_record_def)
  have notlive: "\<not> rec_live reg i" using live(1) by (simp add: rec_live_def)
  have maps: "rgByKey reg' = AList.update (recordKey s m) i (rgByKey reg)"
    "rgActive reg' = AList.update s i (rgActive reg)" "rgByRunId reg' = rgByRunId reg"
    "originated w reg' = (if w = ws then set_add i (originated ws reg) else originated w reg)" for w
    using c by (auto simp: createRecord_def Let_def originated_def update_conv')
  have keys: "map_of (rgByKey reg') k = Some j \<longleftrightarrow>
      rec_live reg' j \<and> k = recordKey (rcSession (the_record reg' j)) (rcMsg (the_record reg' j))" for k j
  proof (cases "j = i")
    case True
    then show ?thesis using reg_okD(3) [OF ok, of k j] notlive
      by (simp add: maps update_conv' live(5) new)
  next
    case False
    have "map_of (rgByKey reg) k = Some j \<Longrightarrow> k \<noteq> recordKey s m" using free(1) by (auto simp: getByKey_def)
    then show ?thesis using reg_okD(3) [OF ok, of k j] rec [of j] False
      by (auto simp: maps update_conv' live(5))
  qed
  have active: "map_of (rgActive reg') k = Some j \<longleftrightarrow> rec_live reg' j \<and> k = rcSession (the_record reg' j)" for k j
  proof (cases "j = i")
    case True
    then show ?thesis using reg_okD(4) [OF ok, of k j] notlive
      by (simp add: maps update_conv' live(5) new)
  next
    case False
    have "map_of (rgActive reg) k = Some j \<Longrightarrow> k \<noteq> s" using free(2) by (auto simp: getActiveForSession_def)
    then show ?thesis using reg_okD(4) [OF ok, of k j] rec [of j] False
      by (auto simp: maps update_conv' live(5))
  qed
  have runs: "rec_live reg' j \<and> k = rcRunId (the_record reg' j) \<and> k \<noteq> []"
    if "map_of (rgByRunId reg') k = Some j" for k j
    using reg_okD(5-7) [OF ok that [unfolded maps]] rec live(5) by auto
  have orig: "distinct (originated w reg') \<and> set (originated w reg') = {j. rec_live reg' j \<and> rcOrigin (the_record reg' j) = w}" for w
  proof -
    have "{j. rec_live reg' j \<and> rcOrigin (the_record reg' j) = w} =
        (if w = ws then insert i (set (originated w reg)) else set (originated w reg))"
      using rec notlive by (auto simp: live(5) new reg_okD(9) [OF ok])
    moreover have "distinct (originated w reg)" by (rule reg_okD(8) [OF ok])
    ultimately show ?thesis by (auto simp: maps set_add_def)
  qed
  have sess: "valid_session (rcSession (the_record reg' j))" if "rec_live reg' j" for j
    using that rec reg_okD(10) [OF ok] v by (auto simp: live(5) new)
  show ?thesis
    unfolding reg_ok_def using keys active runs orig sess reg_okD(1,2) [OF ok]
    by (simp add: maps distinct_update)
qed

lemma promote_ok:
  assumes ok: "reg_ok reg" and live: "rec_live reg i" and fresh: "rcRunId (the_record reg i) = []"
  shows "reg_ok (promote i runId reg)"
proof -
  define reg1 where "reg1 = put_record i (\<lambda>r. r\<lparr>rcRunId := runId,
      rcState := (if rcState r = StStopping then StStopping else StRunning)\<rparr>) reg"
  have i: "i < length (rgHeap reg)" using live by (simp add: rec_live_def)
  have rec: "rcSession (the_record reg1 j) = rcSession (the_record reg j)"
    "rcMsg (the_record reg1 j) = rcMsg (the_record reg j)"
    "rcOrigin (the_record reg1 j) = rcOrigin (the_record reg j)"
    "rcFinalized (the_record reg1 j) = rcFinalized (the_record reg j)"
    "rcRunId (the_record reg1 j) = (if j = i then runId else rcRunId (the_record reg j))" for j
    by (simp_all add: reg1_def the_record_put [OF i])
  have "length (rgHeap reg1) = length (rgHeap reg)" by (simp add: reg1_def)
  then have lv: "rec_live reg1 j = rec_live reg j" for j by (simp add: rec_live_def rec)
  have maps: "rgByKey reg1 = rgByKey reg" "rgByRunId reg1 = rgByRunId reg" "rgActive reg1 = rgActive reg"
    "originated ws reg1 = originated ws reg" for ws
    by (simp_all add: reg1_def)
  have "map_of (rgByRunId reg) k \<noteq> Some i" for k
    using reg_okD(6,7) [OF ok, of k i] fresh by auto
  then have run1: "rcRunId (the_record reg1 j) = k" if "map_of (rgByRunId reg) k = Some j" for k j
    using reg_okD(6) [OF ok that] that by (auto simp: rec)
  have ok1: "reg_ok reg1"
  proof (rule reg_okI; (unfold maps rec(1-3) lv)?)
    show "rec_live reg j \<and> rcRunId (the_record reg1 j) = k \<and> k \<noteq> []"
      if "map_of (rgByRunId reg) k = Some j" for k j
      using run1 [OF that] reg_okD(5,7) [OF ok that] by simp
  qed (rule reg_okD [OF ok]; assumption?)+
  show ?thesis
  proof (cases "runId = []")
    case True
    then show ?thesis using ok1 by (simp add: promote_def Let_def reg1_def)
  next
    case False
    let ?reg = "reg1\<lparr>rgByRunId := AList.update runId i (rgByRunId reg1)\<rparr>"
    have same: "rec_live ?reg j = rec_live reg1 j" "originated ws ?reg = originated ws reg1" for j ws
      by (simp_all add: rec_live_def originated_def)
    have "reg_ok ?reg"
    proof (rule reg_okI; (unfold the_record_other same)?)
      show "rec_live reg1 j \<and> rcRunId (the_record reg1 j) = k \<and> k \<noteq> []"
        if "map_of (rgByRunId ?reg) k = Some j" for k j
      proof (cases "k = runId")
        case True
        then show ?thesis using that rec(5) [of i] live lv False by (simp add: update_conv')
      next
        case False
        then have "map_of (rgByRunId reg1) k = Some j" using that by (simp add: update_conv')
        from reg_okD(5-7) [OF ok1 this] show ?thesis by simp
      qed
    qed (use reg_okD [OF ok1] in \<open>simp_all add: distinct_update\<close>)
    then show ?thesis using False by (simp add: promote_def Let_def reg1_def)
  qed
qed

lemma finalize_again: "rcFinalized (the_record reg i) \<Longrightarrow> finalize i reg = (False, reg)"
  by (simp add: finalize_def)

text \<open>The first finalize of a record wins and takes it out of every map.\<close>

lemma finalize_first:
  assumes live: "rec_live reg i" and f: "finalize i reg = (won, reg')"
  shows "won" and "rec_live reg' j \<longleftrightarrow> rec_live reg j \<and> j \<noteq> i"
    and "length (rgHeap reg') = length (rgHeap reg)"
    and "j \<noteq> i \<Longrightarrow> the_record reg' j = the_record reg j"
    and "the_record reg' i = (the_record reg i)\<lparr>rcFinalized := True, rcReplay := [], rcReplayBytes := 0,
           rcResumable := False, rcStopTimer := False, rcGrace := False\<rparr>"
    and "rgByKey reg' = AList.delete (recordKey (rcSession (the_record reg i)) (rcMsg (the_record reg i))) (rgByKey reg)"
    and "rgByRunId reg' = (if rcRunId (the_record reg i) \<noteq> [] \<and>
           map_of (rgByRunId reg) (rcRunId (the_record reg i)) = Some i
         then AList.delete (rcRunId (the_record reg i)) (rgByRunId reg) else rgByRunId reg)"
    and "rgActive reg' = (if map_of (rgActive reg) (rcSession (the_record reg i)) = Some i
         then AList.delete (rcSession (the_record reg i)) (rgActive reg) else rgActive reg)"
    and "rgOriginated reg' = drop_originated i (rcOrigin (the_record reg i)) reg"
proof -
  have i: "i < length (rgHeap reg)" and nf: "\<not> rcFinalized (the_record reg i)"
    using live by (simp_all add: rec_live_def)
  let ?reg1 = "put_record i (\<lambda>r. r\<lparr>rcFinalized := True, rcReplay := [], rcReplayBytes := 0,
               rcResumable := False, rcStopTimer := False, rcGrace := False\<rparr>) reg"
  have heap: "rgHeap reg' = rgHeap ?reg1" and w: "won"
    using f nf by (auto simp: finalize_def Let_def)
  then have rec: "the_record reg' j = the_record ?reg1 j" for j by (simp add: the_record_def)
  show "won" by (rule w)
  show "length (rgHeap reg') = length (rgHeap reg)" by (simp add: heap)
  show "rec_live reg' j \<longleftrightarrow> rec_live reg j \<and> j \<noteq> i"
    using i by (auto simp: rec_live_def rec heap the_record_put)
  show "j \<noteq> i \<Longrightarrow> the_record reg' j = the_record reg j" using i by (simp add: rec the_record_put)
  show "the_record reg' i = (the_record reg i)\<lparr>rcFinalized := True, rcReplay := [], rcReplayBytes := 0,
           rcResumable := False, rcStopTimer := False, rcGrace := False\<rparr>"
    using i by (simp add: rec the_record_put)
qed (use f live in \<open>auto simp: finalize_def Let_def rec_live_def\<close>)

lemma drop_originated_lookup: "distinct (originated ws reg) \<Longrightarrow> rgOriginated reg' = drop_originated i ws reg \<Longrightarrow>
    originated w reg' = (if w = ws then removeAll i (originated ws reg) else originated w reg)"
  by (auto simp: originated_def drop_originated_def Let_def update_conv' delete_conv' split: option.splits)

lemma finalize_ok:
  assumes ok: "reg_ok reg" and live: "rec_live reg i" and f: "finalize i reg = (won, reg')"
  shows "reg_ok reg'"
proof -
  note fin = finalize_first [OF live f]
  let ?r = "the_record reg i"
  have orig: "originated w reg' = (if w = rcOrigin ?r then removeAll i (originated w reg) else originated w reg)" for w
    using drop_originated_lookup [OF reg_okD(8) [OF ok] fin(9)] by auto
  have act: "map_of (rgActive reg) (rcSession ?r) = Some i" using live reg_okD(4) [OF ok] by simp
  have key: "map_of (rgByKey reg) (recordKey (rcSession ?r) (rcMsg ?r)) = Some i"
    using live reg_okD(3) [OF ok] by simp
  have notrun: "map_of (rgByRunId reg') k \<noteq> Some i" for k
    using reg_okD(6,7) [OF ok, of k i] by (auto simp: fin(7) delete_conv' split: if_splits)
  show ?thesis
  proof (rule reg_okI)
    show "map_of (rgByKey reg') k = Some j \<longleftrightarrow>
        rec_live reg' j \<and> k = recordKey (rcSession (the_record reg' j)) (rcMsg (the_record reg' j))" for k j
    proof (cases "j = i")
      case True
      then show ?thesis using reg_okD(3) [OF ok, of k i] key
        by (simp add: fin(2) fin(6) delete_conv')
    next
      case False
      have "map_of (rgByKey reg) k = Some j \<Longrightarrow> k \<noteq> recordKey (rcSession ?r) (rcMsg ?r)"
        using key False by auto
      then show ?thesis using reg_okD(3) [OF ok, of k j] fin(4) [OF False] False
        by (auto simp only: fin(2) fin(6) delete_conv' fun_upd_apply split: if_splits)
    qed
    show "map_of (rgActive reg') k = Some j \<longleftrightarrow> rec_live reg' j \<and> k = rcSession (the_record reg' j)" for k j
    proof (cases "j = i")
      case True
      then show ?thesis using reg_okD(4) [OF ok, of k i] act
        by (simp add: fin(2) fin(8) delete_conv')
    next
      case False
      have "map_of (rgActive reg) k = Some j \<Longrightarrow> k \<noteq> rcSession ?r" using act False by auto
      then show ?thesis using reg_okD(4) [OF ok, of k j] fin(4) [OF False] False act
        by (auto simp only: fin(2) fin(8) delete_conv' fun_upd_apply split: if_splits)
    qed
    show "rec_live reg' j \<and> rcRunId (the_record reg' j) = k \<and> k \<noteq> []"
      if "map_of (rgByRunId reg') k = Some j" for k j
    proof -
      have "map_of (rgByRunId reg) k = Some j" using that by (auto simp: fin(7) delete_conv' split: if_splits)
      moreover have "j \<noteq> i" using that notrun by auto
      ultimately show ?thesis using reg_okD(5-7) [OF ok] fin(4) [of j] by (simp add: fin(2))
    qed
    show "set (originated ws reg') = {j. rec_live reg' j \<and> rcOrigin (the_record reg' j) = ws}" for ws
    proof -
      have "rcOrigin (the_record reg' j) = rcOrigin (the_record reg j)" for j
        using fin(4) [of j] fin(5) by (cases "j = i") simp_all
      then show ?thesis using reg_okD(9) [OF ok, of ws] by (auto simp: orig fin(2))
    qed
    show "valid_session (rcSession (the_record reg' j))" if "rec_live reg' j" for j
      using that fin(4) [of j] reg_okD(10) [OF ok] by (auto simp: fin(2))
  qed (use reg_okD(1,2,8) [OF ok] in \<open>simp_all add: fin(6,7) orig distinct_delete distinct_removeAll\<close>)
qed

lemma keeps_identity_sockets [simp]:
  "keeps_identity (\<lambda>r. r\<lparr>rcSockets := f (rcSockets r)\<rparr>)"
  "keeps_identity (\<lambda>r. r\<lparr>rcSockets := f (rcSockets r), rcGrace := b\<rparr>)"
  by (simp_all add: keeps_identity_def)

lemma fold_put_ok: "keeps_identity f \<Longrightarrow> reg_ok (fold (\<lambda>i. put_record i f) is reg) = reg_ok reg"
  by (induction "is" arbitrary: reg) (simp_all add: reg_ok_put)

lemma fold_put_live: "keeps_identity f \<Longrightarrow> rec_live (fold (\<lambda>i. put_record i f) is reg) j = rec_live reg j"
  by (induction "is" arbitrary: reg) (simp_all add: rec_live_put)

lemma fold_put_length [simp]: "length (rgHeap (fold (\<lambda>i. put_record i f) is reg)) = length (rgHeap reg)"
  by (induction "is" arbitrary: reg) simp_all

lemma fold_put_record: "distinct is \<Longrightarrow> list_all (\<lambda>i. i < length (rgHeap reg)) is \<Longrightarrow>
    the_record (fold (\<lambda>i. put_record i f) is reg) j = (if j \<in> set is then f (the_record reg j) else the_record reg j)"
  by (induction "is" arbitrary: reg) (auto simp: the_record_put)

lemma liveRecords_set: "reg_ok reg \<Longrightarrow> set (liveRecords reg) = {i. rec_live reg i}"
proof -
  assume ok: "reg_ok reg"
  have "i \<in> set (liveRecords reg) \<longleftrightarrow> (\<exists>k. map_of (rgByKey reg) k = Some i)" for i
    using map_of_eq_Some_iff [OF reg_okD(1) [OF ok]] by (force simp: liveRecords_def)
  then show ?thesis using reg_okD(3) [OF ok] by auto
qed

lemma startedRecords_live: "reg_ok reg \<Longrightarrow> i \<in> set (startedRecords reg) \<Longrightarrow>
    rec_live reg i \<and> rcRunId (the_record reg i) \<noteq> []"
proof -
  assume ok: "reg_ok reg" and "i \<in> set (startedRecords reg)"
  then obtain k where "map_of (rgByRunId reg) k = Some i"
    using map_of_eq_Some_iff [OF reg_okD(2) [OF ok]] by (force simp: startedRecords_def)
  then show ?thesis using reg_okD(5-7) [OF ok] by metis
qed

lemma liveRecords_distinct: "reg_ok reg \<Longrightarrow> distinct (liveRecords reg)"
  unfolding liveRecords_def distinct_map
proof
  assume ok: "reg_ok reg"
  note d = reg_okD(1) [OF ok]
  show "distinct (rgByKey reg)" using d by (simp add: distinct_map)
  show "inj_on snd (set (rgByKey reg))"
  proof (rule inj_onI)
    fix x y assume "x \<in> set (rgByKey reg)" "y \<in> set (rgByKey reg)" "snd x = snd y"
    then have "map_of (rgByKey reg) (fst x) = Some (snd x)" "map_of (rgByKey reg) (fst y) = Some (snd x)"
      using map_of_eq_Some_iff [OF d] by (metis prod.collapse)+
    then have "fst x = fst y" using reg_okD(3) [OF ok] by simp
    then show "x = y" using \<open>snd x = snd y\<close> by (simp add: prod_eq_iff)
  qed
qed

lemma stats_live_card: "reg_ok reg \<Longrightarrow> stats_live reg = card {i. rec_live reg i}"
proof -
  assume ok: "reg_ok reg"
  have "stats_live reg = length (liveRecords reg)" by (simp add: stats_live_def liveRecords_def)
  then show ?thesis using distinct_card [OF liveRecords_distinct [OF ok]] by (simp add: liveRecords_set [OF ok])
qed

lemma countForBrowser_card: "reg_ok reg \<Longrightarrow>
    countForBrowser ws reg = card {i. rec_live reg i \<and> rcOrigin (the_record reg i) = ws}"
  unfolding countForBrowser_def
  by (subst reg_okD(9) [symmetric], assumption) (simp only: distinct_card [OF reg_okD(8)])

lemma detachSocket_record:
  assumes ok: "reg_ok reg" and d: "detachSocket ws reg = (emptied, reg')"
  shows "rec_live reg i \<Longrightarrow> the_record reg' i = (the_record reg i)\<lparr>rcSockets := removeAll ws (rcSockets (the_record reg i))\<rparr>"
    and "\<not> rec_live reg i \<Longrightarrow> the_record reg' i = the_record reg i"
    and "rec_live reg' i = rec_live reg i" and "length (rgHeap reg') = length (rgHeap reg)"
    and "reg_ok reg'" and "rgBuffered reg' = rgBuffered reg"
proof -
  define holding where "holding = filter (\<lambda>i. ws \<in> set (rcSockets (the_record reg i))) (liveRecords reg)"
  define f :: "chat_record \<Rightarrow> chat_record" where "f = (\<lambda>r. r\<lparr>rcSockets := removeAll ws (rcSockets r)\<rparr>)"
  have reg': "reg' = fold (\<lambda>i. put_record i f) holding reg"
    using d by (simp add: detachSocket_def holding_def f_def Let_def)
  have h: "distinct holding" "set holding = {i. rec_live reg i \<and> ws \<in> set (rcSockets (the_record reg i))}"
    using liveRecords_distinct [OF ok] liveRecords_set [OF ok] by (auto simp: holding_def)
  then have "list_all (\<lambda>i. i < length (rgHeap reg)) holding" by (auto simp: list_all_iff rec_live_def)
  note rec = fold_put_record [OF h(1) this, of f]
  have id: "keeps_identity f" by (simp add: f_def)
  show "rec_live reg i \<Longrightarrow> the_record reg' i = (the_record reg i)\<lparr>rcSockets := removeAll ws (rcSockets (the_record reg i))\<rparr>"
    unfolding reg' rec h(2) by (simp add: f_def)
  show "\<not> rec_live reg i \<Longrightarrow> the_record reg' i = the_record reg i" unfolding reg' rec h(2) by simp
  show "rec_live reg' i = rec_live reg i" by (simp add: reg' fold_put_live id)
  show "reg_ok reg'" using ok by (simp add: reg' fold_put_ok id)
  have "rgBuffered (fold (\<lambda>i. put_record i f) is r) = rgBuffered r" for "is" r
    by (induction "is" arbitrary: r) simp_all
  then show "rgBuffered reg' = rgBuffered reg" by (simp add: reg')
qed (use d in \<open>auto simp: detachSocket_def Let_def\<close>)

lemma attachSocket_ok: "reg_ok reg \<Longrightarrow> reg_ok (attachSocket i ws reg)"
  by (simp add: attachSocket_def reg_ok_put)

lemma bufferEvent_ok: "reg_ok (bufferEvent runId e reg) = reg_ok reg"
  by (simp add: bufferEvent_def Let_def reg_ok_buffered)

lemma drainBufferedEvents_ok: "reg_ok (snd (drainBufferedEvents runId reg)) = reg_ok reg"
  by (simp add: drainBufferedEvents_def reg_ok_buffered split: option.splits)

text \<open>The abstract registry: the next reference, and the live runs.\<close>

record live_run =
  lrSession :: string
  lrMsg :: string
  lrOrigin :: nat
  lrRunId :: string
  lrSockets :: "nat set"

type_synonym live_runs = "nat \<times> (nat \<Rightarrow> live_run option)"

definition run_of :: "chat_record \<Rightarrow> live_run" where
  "run_of r = \<lparr>lrSession = rcSession r, lrMsg = rcMsg r, lrOrigin = rcOrigin r, lrRunId = rcRunId r,
     lrSockets = set (rcSockets r)\<rparr>"

definition live_view :: "registry \<Rightarrow> live_runs" where
  "live_view reg = (length (rgHeap reg),
     \<lambda>i. if rec_live reg i then Some (run_of (the_record reg i)) else None)"

text \<open>The calls, made as the send service makes them: a record is created for a session that has
  none, promoted once while it lives.\<close>

datatype reg_op = RgCreate string string nat string int | RgPromote nat string | RgFinalize nat
  | RgDetach nat | RgAttach nat nat | RgBuffer string gw_event | RgDrain string | RgClear

definition reg_step :: "registry \<Rightarrow> reg_op \<Rightarrow> registry" where
  "reg_step reg p =
     (case p of
        RgCreate m s ws mid now \<Rightarrow>
          if valid_session s \<and> getByKey s m reg = None \<and> getActiveForSession s reg = None
          then snd (createRecord m s ws mid now reg) else reg
      | RgPromote i runId \<Rightarrow>
          if rec_live reg i \<and> rcRunId (the_record reg i) = [] then promote i runId reg else reg
      | RgFinalize i \<Rightarrow> if i < length (rgHeap reg) then snd (finalize i reg) else reg
      | RgDetach ws \<Rightarrow> snd (detachSocket ws reg)
      | RgAttach i ws \<Rightarrow> if i < length (rgHeap reg) then attachSocket i ws reg else reg
      | RgBuffer runId e \<Rightarrow> bufferEvent runId e reg
      | RgDrain runId \<Rightarrow> snd (drainBufferedEvents runId reg)
      | RgClear \<Rightarrow> clearAllBuffers reg)"

definition spec_step :: "live_runs \<Rightarrow> reg_op \<Rightarrow> live_runs" where
  "spec_step st p = (case st of (n, m) \<Rightarrow>
     (case p of
        RgCreate msg s ws mid now \<Rightarrow>
          if valid_session s \<and> \<not> (\<exists>r \<in> ran m. lrSession r = s)
          then (Suc n, m(n \<mapsto> \<lparr>lrSession = s, lrMsg = msg, lrOrigin = ws, lrRunId = [], lrSockets = {ws}\<rparr>))
          else (n, m)
      | RgPromote i runId \<Rightarrow> (n, case m i of None \<Rightarrow> m | Some r \<Rightarrow>
          if lrRunId r = [] then m(i \<mapsto> r\<lparr>lrRunId := runId\<rparr>) else m)
      | RgFinalize i \<Rightarrow> (n, m(i := None))
      | RgDetach ws \<Rightarrow> (n, \<lambda>i. map_option (\<lambda>r. r\<lparr>lrSockets := lrSockets r - {ws}\<rparr>) (m i))
      | RgAttach i ws \<Rightarrow> (n, case m i of None \<Rightarrow> m | Some r \<Rightarrow> m(i \<mapsto> r\<lparr>lrSockets := insert ws (lrSockets r)\<rparr>))
      | _ \<Rightarrow> (n, m)))"

lemma getActive_iff: "reg_ok reg \<Longrightarrow> getActiveForSession s reg = Some i \<longleftrightarrow>
    rec_live reg i \<and> rcSession (the_record reg i) = s"
  by (auto simp: getActiveForSession_def reg_okD(4))

lemma getByKey_iff: "reg_ok reg \<Longrightarrow> valid_session s \<Longrightarrow> getByKey s m reg = Some i \<longleftrightarrow>
    rec_live reg i \<and> rcSession (the_record reg i) = s \<and> rcMsg (the_record reg i) = m"
proof -
  assume ok: "reg_ok reg" and v: "valid_session s"
  have "recordKey s m = recordKey (rcSession (the_record reg i)) (rcMsg (the_record reg i))
      \<longleftrightarrow> rcSession (the_record reg i) = s \<and> rcMsg (the_record reg i) = m" if "rec_live reg i"
    using recordKey_inj [OF v reg_okD(10) [OF ok that]] by auto
  then show ?thesis unfolding getByKey_def reg_okD(3) [OF ok] by blast
qed

lemma getByKey_active: "reg_ok reg \<Longrightarrow> valid_session s \<Longrightarrow> getActiveForSession s reg = None \<Longrightarrow>
    getByKey s m reg = None"
  by (metis getActive_iff getByKey_iff not_Some_eq)

lemma reg_step_ok: "reg_ok reg \<Longrightarrow> reg_ok (reg_step reg p)"
proof -
  assume ok: "reg_ok reg"
  show ?thesis
  proof (cases p)
    case (RgCreate m s ws mid now)
    then show ?thesis
      using ok createRecord_ok [OF ok _ _ _ surjective_pairing] by (auto simp: reg_step_def)
  next
    case (RgFinalize i)
    then show ?thesis
      using ok finalize_ok [OF ok _ surjective_pairing] finalize_again [of reg i]
      by (cases "rec_live reg i") (auto simp: reg_step_def rec_live_def)
  next
    case (RgDetach ws)
    then show ?thesis using detachSocket_record(5) [OF ok surjective_pairing] by (simp add: reg_step_def)
  qed (use ok in \<open>auto simp: reg_step_def promote_ok attachSocket_ok bufferEvent_ok drainBufferedEvents_ok
        clearAllBuffers_def reg_ok_buffered\<close>)
qed

lemma live_view_put:
  assumes "\<And>r. rcFinalized (f r) = rcFinalized r" and "rec_live reg i"
  shows "live_view (put_record i f reg) = (length (rgHeap reg),
      (snd (live_view reg))(i \<mapsto> run_of (f (the_record reg i))))"
  using assms by (auto simp: live_view_def rec_live_def the_record_put fun_eq_iff)

lemma live_view_other [simp]:
  "live_view (reg\<lparr>rgByRunId := a\<rparr>) = live_view reg" "live_view (reg\<lparr>rgBuffered := b\<rparr>) = live_view reg"
  by (auto simp: live_view_def rec_live_def fun_eq_iff)

lemma fst_live_view [simp]: "fst (live_view reg) = length (rgHeap reg)"
  by (simp add: live_view_def)

lemma live_view_at: "snd (live_view reg) i = (if rec_live reg i then Some (run_of (the_record reg i)) else None)"
  by (simp add: live_view_def)

lemma live_view_ran: "(\<exists>r \<in> ran (snd (live_view reg)). lrSession r = s) \<longleftrightarrow>
    (\<exists>i. rec_live reg i \<and> rcSession (the_record reg i) = s)"
  by (force simp: live_view_def ran_def run_of_def split: if_splits)

lemma view_create:
  assumes ok: "reg_ok reg"
  shows "live_view (reg_step reg (RgCreate m s ws mid now)) = spec_step (live_view reg) (RgCreate m s ws mid now)"
proof -
  have free: "valid_session s \<and> getByKey s m reg = None \<and> getActiveForSession s reg = None
      \<longleftrightarrow> valid_session s \<and> \<not> (\<exists>r \<in> ran (snd (live_view reg)). lrSession r = s)"
    unfolding live_view_ran using getByKey_active [OF ok] getActive_iff [OF ok] by (metis not_Some_eq)
  obtain i reg' where c: "createRecord m s ws mid now reg = (i, reg')" by (cases "createRecord m s ws mid now reg")
  note live = createRecord_live [OF c]
  have rec: "the_record reg' j = the_record reg j" if "rec_live reg j" for j
    using that live(1,4) by (simp add: rec_live_def)
  have "live_view reg' = (Suc (length (rgHeap reg)), (snd (live_view reg))(length (rgHeap reg) \<mapsto>
      \<lparr>lrSession = s, lrMsg = m, lrOrigin = ws, lrRunId = [], lrSockets = {ws}\<rparr>))"
    using live(1-3,5) rec by (auto simp: live_view_def fun_eq_iff run_of_def new_record_def)
  then show ?thesis
    using free c by (auto simp: reg_step_def spec_step_def split_beta prod_eq_iff)
qed

lemma view_finalize:
  "live_view (reg_step reg (RgFinalize i)) = spec_step (live_view reg) (RgFinalize i)"
proof (cases "rec_live reg i")
  case True
  obtain won reg' where f: "finalize i reg = (won, reg')" by (cases "finalize i reg")
  note fin = finalize_first [OF True f]
  have "live_view reg' = (length (rgHeap reg), (snd (live_view reg))(i := None))"
    using fin(2-4) by (auto simp: live_view_def fun_eq_iff)
  then show ?thesis using True f by (simp add: reg_step_def spec_step_def split_beta) (simp add: rec_live_def)
next
  case False
  then have "reg_step reg (RgFinalize i) = reg"
    using finalize_again [of reg i] by (auto simp: reg_step_def rec_live_def)
  then show ?thesis using False by (auto simp: spec_step_def split_beta prod_eq_iff live_view_at fun_eq_iff)
qed

lemma view_simulates:
  assumes ok: "reg_ok reg"
  shows "live_view (reg_step reg p) = spec_step (live_view reg) p"
proof (cases p)
  case (RgPromote i runId)
  show ?thesis
  proof (cases "rec_live reg i \<and> rcRunId (the_record reg i) = []")
    case True
    have "live_view (promote i runId reg) = (length (rgHeap reg), (snd (live_view reg))(i \<mapsto>
        (run_of (the_record reg i))\<lparr>lrRunId := runId\<rparr>))"
      using True by (simp add: promote_def Let_def live_view_put run_of_def)
    then show ?thesis using True RgPromote
      by (simp add: reg_step_def spec_step_def split_beta live_view_at run_of_def)
  next
    case False
    then have "reg_step reg p = reg" by (auto simp: reg_step_def RgPromote)
    then show ?thesis using False RgPromote
      by (auto simp: spec_step_def split_beta prod_eq_iff live_view_at run_of_def)
  qed
next
  case (RgDetach ws)
  obtain emptied reg' where d: "detachSocket ws reg = (emptied, reg')" by (cases "detachSocket ws reg")
  note det = detachSocket_record [OF ok d]
  have "live_view reg' = (length (rgHeap reg),
      \<lambda>i. map_option (\<lambda>r. r\<lparr>lrSockets := lrSockets r - {ws}\<rparr>) (snd (live_view reg) i))"
    using det by (auto simp: live_view_def fun_eq_iff run_of_def)
  then show ?thesis using d RgDetach by (simp add: reg_step_def spec_step_def split_beta)
next
  case (RgAttach i ws)
  show ?thesis
  proof (cases "rec_live reg i")
    case True
    then have "live_view (attachSocket i ws reg) = (length (rgHeap reg), (snd (live_view reg))(i \<mapsto>
        (run_of (the_record reg i))\<lparr>lrSockets := insert ws (set (rcSockets (the_record reg i)))\<rparr>))"
      by (auto simp: attachSocket_def live_view_put run_of_def set_add_def rec_live_def)
    then show ?thesis using True RgAttach
      by (simp add: reg_step_def spec_step_def split_beta live_view_at run_of_def) (simp add: rec_live_def)
  next
    case False
    then have "reg_step reg p = reg" by (auto simp: reg_step_def RgAttach attachSocket_def rec_live_def)
    then show ?thesis using False RgAttach by (simp add: spec_step_def split_beta prod_eq_iff live_view_at)
  qed
qed (use ok view_create view_finalize in \<open>auto simp: reg_step_def spec_step_def bufferEvent_def Let_def
      drainBufferedEvents_def clearAllBuffers_def split: option.splits prod.splits\<close>)

interpretation registry: refinement reg_step reg_ok "\<lambda>p. True" live_view spec_step
  by unfold_locales (auto intro: reg_step_ok view_simulates)

section \<open>The buffered events stay bounded\<close>

definition fine_buffer :: "buffered_run \<Rightarrow> bool" where
  "fine_buffer b \<longleftrightarrow> length (bfList b) \<le> kMaxEventsPerRun
     \<and> bfBytes b = sum_list (map geBytes (bfList b)) \<and> bfBytes b \<le> kMaxBufferedBytesPerRun"

definition buffers_ok :: "registry \<Rightarrow> bool" where
  "buffers_ok reg \<longleftrightarrow> length (rgBuffered reg) \<le> kMaxBufferedRuns \<and> distinct (map fst (rgBuffered reg))
     \<and> (\<forall>b \<in> snd ` set (rgBuffered reg). fine_buffer b)"

lemma snd_set_update: "b \<in> snd ` set (AList.update k v al) \<Longrightarrow> b = v \<or> b \<in> snd ` set al"
  by (induction al) (auto split: if_splits)

lemma length_alist_update: "length (AList.update k v al) \<le> Suc (length al)"
  by (induction al) auto

lemma length_alist_delete: "k \<in> fst ` set al \<Longrightarrow> length (AList.delete k al) < length al"
  by (induction al) (auto simp: AList.delete_eq intro: le_imp_less_Suc length_filter_le)

lemma bufferEvent_bounded:
  assumes "buffers_ok reg"
  shows "buffers_ok (bufferEvent runId e reg)"
proof (cases "runId = [] \<or> map_of (rgByRunId reg) runId \<noteq> None")
  case True
  then show ?thesis using assms by (simp add: bufferEvent_def)
next
  case False
  let ?fine = fine_buffer
  define entry where "entry = (case map_of (rgBuffered reg) runId of None \<Rightarrow> \<lparr>bfList = [], bfBytes = 0\<rparr> | Some b \<Rightarrow> b)"
  define buffered where "buffered = AList.update runId (add_event e entry) (rgBuffered reg)"
  have all: "\<forall>b \<in> snd ` set (rgBuffered reg). ?fine b" using assms unfolding buffers_ok_def by blast
  have "?fine entry"
  proof (cases "map_of (rgBuffered reg) runId")
    case (Some b)
    then have "b \<in> snd ` set (rgBuffered reg)" by (metis image_eqI map_of_SomeD snd_conv)
    then have "?fine b" using all by blast
    then show ?thesis using Some by (simp add: entry_def)
  qed (simp add: entry_def fine_buffer_def)
  then have "?fine (add_event e entry)" by (simp add: add_event_def fine_buffer_def)
  have fine: "\<forall>b \<in> snd ` set buffered. ?fine b"
  proof
    fix b assume "b \<in> snd ` set buffered"
    then have "b = add_event e entry \<or> b \<in> snd ` set (rgBuffered reg)"
      unfolding buffered_def by (rule snd_set_update)
    then show "?fine b" using all \<open>?fine (add_event e entry)\<close> by blast
  qed
  have dist: "distinct (map fst buffered)"
    using assms by (simp add: buffers_ok_def buffered_def distinct_update)
  have len: "length buffered \<le> Suc kMaxBufferedRuns"
    using length_alist_update [of runId "add_event e entry" "rgBuffered reg"] assms
    by (simp add: buffers_ok_def buffered_def)
  have "length buffered \<le> kMaxBufferedRuns" if "fst (hd buffered) = runId"
  proof (cases "rgBuffered reg")
    case (Cons p ps)
    then have "fst p = runId" using that by (auto simp: buffered_def split: if_splits)
    then have "length buffered = length (rgBuffered reg)" using Cons by (auto simp: buffered_def)
    then show ?thesis using assms by (simp add: buffers_ok_def)
  qed (simp add: buffered_def kMaxBufferedRuns_def)
  moreover have "length (AList.delete (fst (hd buffered)) buffered) \<le> kMaxBufferedRuns"
  proof -
    have "buffered \<noteq> []" by (cases "rgBuffered reg") (auto simp: buffered_def)
    then have "fst (hd buffered) \<in> fst ` set buffered" by simp
    from length_alist_delete [OF this] show ?thesis using len by simp
  qed
  moreover have "set (AList.delete (fst (hd buffered)) buffered) \<subseteq> set buffered"
    by (auto simp: AList.delete_eq)
  moreover have "rgBuffered (bufferEvent runId e reg) = (if kMaxBufferedRuns < length buffered \<and> fst (hd buffered) \<noteq> runId
      then AList.delete (fst (hd buffered)) buffered else buffered)"
    using False by (simp add: bufferEvent_def Let_def buffered_def entry_def)
  ultimately show ?thesis
    using fine dist unfolding buffers_ok_def by (auto simp: distinct_delete)
qed

lemma drainBufferedEvents_bounded: "buffers_ok reg \<Longrightarrow> buffers_ok (snd (drainBufferedEvents runId reg))"
proof -
  assume ok: "buffers_ok reg"
  have "length (AList.delete runId (rgBuffered reg)) \<le> kMaxBufferedRuns"
    by (rule le_trans [OF length_delete_le]) (use ok in \<open>simp add: buffers_ok_def\<close>)
  moreover have "set (AList.delete runId (rgBuffered reg)) \<subseteq> set (rgBuffered reg)" by (auto simp: AList.delete_eq)
  ultimately show ?thesis using ok
    by (auto simp: drainBufferedEvents_def buffers_ok_def distinct_delete split: option.splits)
qed

lemma buffers_ok_cong: "rgBuffered reg' = rgBuffered reg \<or> rgBuffered reg' = [] \<Longrightarrow> buffers_ok reg \<Longrightarrow> buffers_ok reg'"
  by (auto simp: buffers_ok_def)

section \<open>The property\<close>

lemma createRunRegistry_ok: "reg_ok createRunRegistry" "live_view createRunRegistry = (0, \<lambda>i. None)"
  by (simp_all add: reg_ok_def createRunRegistry_def rec_live_def originated_def live_view_def)

text \<open>C5. The registry's maps, counters and flags are views of one set of live runs: after any
  sequence of its operations the live records are those the abstract registry holds, and every
  lookup (by message, by session, by run id) and count answers from that set, so that a session has
  one active run, a finished run is found by nobody, and no message is mistaken for another's.\<close>

theorem registry_refines_live_runs:
  assumes "valid_session session"
  shows "let reg = run reg_step createRunRegistry ops; live = snd (run spec_step (0, \<lambda>i. None) ops) in
     live_view reg = run spec_step (0, \<lambda>i. None) ops
     \<and> (getByKey session msg reg = Some i \<longleftrightarrow> (\<exists>r. live i = Some r \<and> lrSession r = session \<and> lrMsg r = msg))
     \<and> (getActiveForSession session reg = Some i \<longleftrightarrow> (\<exists>r. live i = Some r \<and> lrSession r = session))
     \<and> (getByRunId runId reg \<noteq> Some i \<or> (\<exists>r. live i = Some r \<and> lrRunId r = runId \<and> runId \<noteq> []))
     \<and> stats_live reg = card (dom live)
     \<and> countForBrowser ws reg = card {j. \<exists>r. live j = Some r \<and> lrOrigin r = ws}"
proof -
  define reg where "reg = run reg_step createRunRegistry ops"
  have all: "list_all (\<lambda>p. True) ops" by (simp add: list_all_iff)
  have ok: "reg_ok reg" unfolding reg_def by (rule registry.run_inv [OF createRunRegistry_ok(1) all])
  have view: "live_view reg = run spec_step (0, \<lambda>i. None) ops"
    unfolding reg_def createRunRegistry_ok(2) [symmetric]
    by (rule registry.run_simulates [OF createRunRegistry_ok(1) all])
  have at: "snd (live_view reg) j = Some r \<longleftrightarrow> rec_live reg j \<and> r = run_of (the_record reg j)" for j r
    by (auto simp: live_view_at)
  have "getByKey session msg reg = Some i \<longleftrightarrow>
      (\<exists>r. snd (live_view reg) i = Some r \<and> lrSession r = session \<and> lrMsg r = msg)"
    by (auto simp: getByKey_iff [OF ok assms] at run_of_def)
  moreover have "getActiveForSession session reg = Some i \<longleftrightarrow>
      (\<exists>r. snd (live_view reg) i = Some r \<and> lrSession r = session)"
    by (auto simp: getActive_iff [OF ok] at run_of_def)
  moreover have "getByRunId runId reg \<noteq> Some i \<or>
      (\<exists>r. snd (live_view reg) i = Some r \<and> lrRunId r = runId \<and> runId \<noteq> [])"
    using reg_okD(5-7) [OF ok, of runId i] by (auto simp: getByRunId_def at run_of_def)
  moreover have "dom (snd (live_view reg)) = {j. rec_live reg j}" by (auto simp: dom_def at)
  then have "stats_live reg = card (dom (snd (live_view reg)))" by (simp add: stats_live_card [OF ok])
  moreover have "{j. \<exists>r. snd (live_view reg) j = Some r \<and> lrOrigin r = ws}
      = {j. rec_live reg j \<and> rcOrigin (the_record reg j) = ws}" by (auto simp: at run_of_def)
  then have "countForBrowser ws reg = card {j. \<exists>r. snd (live_view reg) j = Some r \<and> lrOrigin r = ws}"
    by (simp add: countForBrowser_card [OF ok])
  ultimately show ?thesis unfolding Let_def reg_def [symmetric] view [symmetric] by blast
qed

lemma registry_refines_live_runs_witness:
  "stats_live (run reg_step createRunRegistry [RgCreate ''m'' ''s'' 1 ''x'' 5])
     = card (dom (snd (run spec_step (0, \<lambda>i. None) [RgCreate ''m'' ''s'' 1 ''x'' 5])))"
proof -
  have "valid_session ''s''" by (simp add: valid_session_def)
  from registry_refines_live_runs [OF this, of "[RgCreate ''m'' ''s'' 1 ''x'' 5]"]
  show ?thesis unfolding Let_def by blast
qed

end
