(* ===== verification/Chat_Send.thy ===== *)
theory Chat_Send
  imports Chat_Runs Chat_Registry
begin

text \<open>
  The send path of the chat bridge: the browser-frame handlers and gateway-event routing of
  \<open>lib/server/chat/send-service.js\<close>, with the stream delivery, socket close and grace window of
  \<open>chat/index.js\<close> and the frame validation of \<open>chat/protocol.js\<close>, over the registry
  (\<open>Chat_Registry\<close>) and the durable store (\<open>Chat_Runs\<close>).

  An operation is a function from the state to the frames and RPCs it emits, in order, and the next
  state. A handler that awaits is split there: what it awaits (a session policy, a \<open>chat.send\<close>, a
  \<open>chat.abort\<close>) is a task of the state, and its answer an event, so events of other handlers come in
  between. The clock, random ids, which sockets are open and how full they are, the sizes of
  serialised frames and which store calls throw are inputs of each step. Of the log only the
  terminal line is kept. Text is ASCII; messages for people are abbreviated.
\<close>

section \<open>Frames, tasks and state\<close>

definition kMaxContentBytes :: nat where "kMaxContentBytes = 1024 * 1024"
definition kMaxIdLength :: nat where "kMaxIdLength = 128"
definition kMaxLiveRecordsGlobal :: nat where "kMaxLiveRecordsGlobal = 128"
definition kMaxLiveRecordsPerBrowser :: nat where "kMaxLiveRecordsPerBrowser = 32"
definition kMaxBufferedAmountBytes :: nat where "kMaxBufferedAmountBytes = 4 * 1024 * 1024"
definition kRunStallMs :: int where "kRunStallMs = 5 * 60 * 1000"
definition kReplayBufferMaxBytes :: nat where "kReplayBufferMaxBytes = 256 * 1024"

text \<open>\<open>FStream\<close> has the session key, message id, body and \<open>seq\<close>; \<open>FSendFailed\<close> the message id of the
  client, session key, code, retryable, notSubmitted and the message; \<open>FDone\<close> a terminal sent
  outside a stream: session, run id, message id, reason, confidence, stopped, detail and seq.\<close>

datatype chat_frame =
    FAck string string
  | FStream string string stream_body nat
  | FSendFailed string string string bool bool string
  | FError string string string
  | FStopping string string
  | FStopFailed string string string
  | FRunStatus string string string
  | FDesync string
  | FResumed string string string nat nat bool
  | FResumeFailed string string
  | FDone string string string string string bool string "nat option"

datatype chat_out =
    ToSocket nat chat_frame
  | RpcSend string string string
  | RpcAbort string
  | LogTerminal nat run_status
  | Unrouted gw_event
  | StallEvent string string string int

datatype store_call = CallFindRun | CallClaim | CallRunning | CallStop | CallTerminal

record chat_ctx =
  cxNow :: int
  cxOpen :: "nat \<Rightarrow> bool"
  cxBuffered :: "nat \<Rightarrow> nat"
  cxSize :: "stream_body \<Rightarrow> nat \<Rightarrow> nat"
  cxThrows :: "store_call \<Rightarrow> bool"
  cxMessageId :: string
  cxClientId :: string

datatype id_field = IdAbsent | IdText string | IdOther string
datatype retry_field = RetryAbsent | RetryBool bool | RetryOther

record message_payload =
  mpSession :: string
  mpContent :: string
  mpClient :: id_field
  mpRetry :: retry_field

record send_task =
  tkWs :: nat
  tkSession :: string
  tkContent :: string
  tkClient :: string
  tkMessageId :: string
  tkLegacy :: bool
  tkRetry :: bool

record chat_state =
  csReg :: registry
  csStore :: runs_store
  csPolicy :: "send_task list"
  csSends :: "nat list"
  csAborts :: "nat list"
  csSessionAborts :: "(nat \<times> string) list"
  csDesync :: "(nat \<times> string list) list"
  csDropped :: nat

text \<open>A classified error (\<open>classifyError\<close> of \<open>chat/errors.js\<close>, a table of substrings) and whether the
  gateway itself answered.\<close>

record rpc_error =
  erCode :: string
  erRetryable :: bool
  erMessage :: string
  erResponded :: bool

type_synonym chat_act = "chat_state \<Rightarrow> chat_out list \<times> chat_state"

definition emit :: "chat_out list \<Rightarrow> chat_act" where
  "emit os st = (os, st)"

definition modify :: "(chat_state \<Rightarrow> chat_state) \<Rightarrow> chat_act" where
  "modify f st = ([], f st)"

definition then_act :: "chat_act \<Rightarrow> chat_act \<Rightarrow> chat_act" where
  "then_act a b st = (case a st of (os, st1) \<Rightarrow> (case b st1 of (os', st2) \<Rightarrow> (os @ os', st2)))"

definition ask :: "(chat_state \<Rightarrow> chat_act) \<Rightarrow> chat_act" where
  "ask f st = f st st"

definition skip :: chat_act where "skip = emit []"

primrec seq_acts :: "chat_act list \<Rightarrow> chat_act" where
  "seq_acts [] = skip"
| "seq_acts (a # as) = then_act a (seq_acts as)"

definition on_reg :: "(registry \<Rightarrow> registry) \<Rightarrow> chat_act" where
  "on_reg f = modify (\<lambda>st. st\<lparr>csReg := f (csReg st)\<rparr>)"

definition on_store :: "(runs_store \<Rightarrow> runs_store) \<Rightarrow> chat_act" where
  "on_store f = modify (\<lambda>st. st\<lparr>csStore := f (csStore st)\<rparr>)"

definition chat_rec :: "chat_state \<Rightarrow> nat \<Rightarrow> chat_record" where
  "chat_rec st i = the_record (csReg st) i"

section \<open>Validation (\<open>protocol.js\<close>)\<close>

definition control_char :: "char \<Rightarrow> bool" where
  "control_char c \<longleftrightarrow> (of_char c :: nat) < 32 \<or> (of_char c :: nat) = 127"

definition isValidId :: "string \<Rightarrow> bool" where
  "isValidId v \<longleftrightarrow> v \<noteq> [] \<and> length v \<le> kMaxIdLength \<and> \<not> list_ex control_char v"

definition isValidOptionalId :: "id_field \<Rightarrow> bool" where
  "isValidOptionalId f = (case f of IdAbsent \<Rightarrow> True | IdText v \<Rightarrow> v = [] \<or> isValidId v | IdOther v \<Rightarrow> False)"

definition id_text :: "id_field \<Rightarrow> string" where
  "id_text f = (case f of IdAbsent \<Rightarrow> [] | IdText v \<Rightarrow> v | IdOther v \<Rightarrow> v)"

text \<open>\<open>None\<close>, or the code and message of the refusal.\<close>

definition validateMessageFrame :: "message_payload \<Rightarrow> (string \<times> string) option" where
  "validateMessageFrame p =
     (let sessionKey = js_trim (mpSession p); content = js_trim (mpContent p) in
      if sessionKey = [] \<or> content = [] then Some (''protocol_invalid'', ''sessionKey and content are required'')
      else if \<not> isValidId sessionKey then Some (''protocol_invalid'', ''sessionKey is invalid'')
      else if \<not> isValidOptionalId (mpClient p) then Some (''protocol_invalid'', ''clientMsgId is invalid'')
      else if mpRetry p = RetryOther then Some (''protocol_invalid'', ''retry must be a boolean'')
      else if kMaxContentBytes < length content then Some (''payload_too_large'', ''message is too large'')
      else None)"

section \<open>Delivery (\<open>index.js\<close>)\<close>

definition sendJson :: "chat_ctx \<Rightarrow> nat \<Rightarrow> chat_frame \<Rightarrow> chat_out list" where
  "sendJson cx ws f = (if cxOpen cx ws then [ToSocket ws f] else [])"

definition desync_of :: "nat \<Rightarrow> chat_state \<Rightarrow> string list" where
  "desync_of ws st = (case map_of (csDesync st) ws of None \<Rightarrow> [] | Some l \<Rightarrow> l)"

definition flushDesync :: "chat_ctx \<Rightarrow> nat \<Rightarrow> chat_act" where
  "flushDesync cx ws = ask (\<lambda>st.
     if desync_of ws st = [] \<or> \<not> cxOpen cx ws \<or> kMaxBufferedAmountBytes < cxBuffered cx ws then skip
     else then_act (emit (map (\<lambda>s. ToSocket ws (FDesync s)) (desync_of ws st)))
       (modify (\<lambda>st. st\<lparr>csDesync := AList.update ws [] (csDesync st)\<rparr>)))"

definition deliverToSocket :: "chat_ctx \<Rightarrow> string \<Rightarrow> chat_frame \<Rightarrow> bool \<Rightarrow> nat \<Rightarrow> chat_act" where
  "deliverToSocket cx session f droppable ws =
     (if \<not> cxOpen cx ws then skip
      else if droppable \<and> kMaxBufferedAmountBytes < cxBuffered cx ws then
        modify (\<lambda>st. st\<lparr>csDropped := Suc (csDropped st),
                      csDesync := AList.update ws (set_add session (desync_of ws st)) (csDesync st)\<rparr>)
      else then_act (flushDesync cx ws) (emit [ToSocket ws f]))"

fun trim_replay :: "nat \<Rightarrow> bool \<Rightarrow> replay_entry list \<Rightarrow> replay_entry list \<times> nat \<times> bool" where
  "trim_replay bytes gap [] = ([], bytes, gap)"
| "trim_replay bytes gap (e # es) =
     (if kReplayBufferMaxBytes < bytes then trim_replay (bytes - reSize e) True es
      else (e # es, bytes, gap))"

text \<open>The next seq, and the frame's copy in the replay buffer.\<close>

definition push_replay :: "stream_body \<Rightarrow> nat \<Rightarrow> chat_record \<Rightarrow> chat_record" where
  "push_replay body sz r =
     (let seq = Suc (rcLastSeq r); r1 = r\<lparr>rcLastSeq := seq\<rparr> in
      if rcFinalized r \<or> \<not> rcResumable r then r1
      else (case trim_replay (rcReplayBytes r + sz) (rcReplayGap r)
                   (rcReplay r @ [\<lparr>reSeq = seq, reSize = sz, reFrame = body\<rparr>]) of
              (replay, bytes, gap) \<Rightarrow>
                r1\<lparr>rcReplay := replay, rcReplayBytes := bytes, rcReplayGap := gap\<rparr>))"

definition is_done :: "stream_body \<Rightarrow> bool" where
  "is_done body = (case body of Done _ _ _ _ _ \<Rightarrow> True | _ \<Rightarrow> False)"

definition sendStream :: "chat_ctx \<Rightarrow> nat \<Rightarrow> stream_body \<Rightarrow> chat_act" where
  "sendStream cx i body = then_act
     (ask (\<lambda>st. on_reg (put_record i (push_replay body (cxSize cx body (Suc (rcLastSeq (chat_rec st i))))))))
     (ask (\<lambda>st. let r = chat_rec st i in
        seq_acts (map (deliverToSocket cx (rcSession r)
          (FStream (rcSession r) (rcMessageId r) body (rcLastSeq r)) (\<not> is_done body)) (rcSockets r))))"

definition sendControl :: "chat_ctx \<Rightarrow> nat \<Rightarrow> (chat_record \<Rightarrow> chat_frame) \<Rightarrow> chat_act" where
  "sendControl cx i f = ask (\<lambda>st. let r = chat_rec st i in
     emit (concat (map (\<lambda>ws. sendJson cx ws (f r)) (rcSockets r))))"

section \<open>The terminal path\<close>

definition sendSendFailure :: "chat_ctx \<Rightarrow> nat \<Rightarrow> bool \<Rightarrow> string \<Rightarrow> string \<Rightarrow> string \<Rightarrow>
    string \<Rightarrow> bool \<Rightarrow> bool \<Rightarrow> string \<Rightarrow> chat_out list" where
  "sendSendFailure cx ws legacy clientMsgId sessionKey messageId code retryable notSubmitted message =
     (if legacy then sendJson cx ws (FError message messageId sessionKey)
      else sendJson cx ws (FSendFailed clientMsgId sessionKey code retryable notSubmitted message))"

datatype fin_reason = Complete | Stopped | Interrupted | Failed

record fin_args =
  faReason :: fin_reason
  faConfidence :: string
  faDetail :: string
  faErrorCode :: string
  faStopConfirmed :: "int option"
  faLegacyError :: string
  faRetryable :: bool
  faStoreStatus :: "run_status option"
  faNotSubmitted :: bool

definition fin_default :: "fin_reason \<Rightarrow> string \<Rightarrow> fin_args" where
  "fin_default reason confidence = \<lparr>faReason = reason, faConfidence = confidence, faDetail = [],
     faErrorCode = [], faStopConfirmed = None, faLegacyError = [], faRetryable = False,
     faStoreStatus = None, faNotSubmitted = False\<rparr>"

definition reason_status :: "fin_reason \<Rightarrow> run_status" where
  "reason_status r = (case r of Complete \<Rightarrow> RunDone | Stopped \<Rightarrow> RunStopped
     | Interrupted \<Rightarrow> RunInterrupted | Failed \<Rightarrow> RunError)"

definition reason_text :: "fin_reason \<Rightarrow> string" where
  "reason_text r = (case r of Complete \<Rightarrow> ''complete'' | Stopped \<Rightarrow> ''stopped''
     | Interrupted \<Rightarrow> ''interrupted'' | Failed \<Rightarrow> ''error'')"

definition kUnknownOutcomeMessage :: string where
  "kUnknownOutcomeMessage = ''This message may have been sent''"

definition fin_status :: "fin_args \<Rightarrow> run_status" where
  "fin_status a = (case faStoreStatus a of Some s \<Rightarrow> s | None \<Rightarrow> reason_status (faReason a))"

definition fin_outcome :: "chat_record \<Rightarrow> fin_args \<Rightarrow> outcome" where
  "fin_outcome r a = \<lparr>ocStatus = fin_status a, ocConfidence = faConfidence a,
     ocStopConfirmed = faStopConfirmed a, ocErrorCode = faErrorCode a, ocError = faDetail a,
     ocLastSeq = rcLastSeq r, ocMessageId = rcMessageId r, ocRunId = rcRunId r,
     ocNotSubmitted = faNotSubmitted a\<rparr>"

text \<open>What the catch block does when the terminal does not reach the disk.\<close>

definition unpersisted :: "chat_record \<Rightarrow> fin_args \<Rightarrow> fin_args" where
  "unpersisted r a =
     (if rcRunId r = [] then a\<lparr>faErrorCode := ''unknown_outcome'', faDetail := kUnknownOutcomeMessage,
        faRetryable := False, faNotSubmitted := False\<rparr>
      else a\<lparr>faNotSubmitted := False\<rparr>)"

definition fin_frames :: "chat_ctx \<Rightarrow> nat \<Rightarrow> fin_args \<Rightarrow> chat_act" where
  "fin_frames cx i a = ask (\<lambda>st. let r = chat_rec st i in then_act
     (if faLegacyError a = [] then skip
      else sendControl cx i (\<lambda>r. FError (faLegacyError a) (rcMessageId r) (rcSession r)))
     (if rcRunId r \<noteq> [] \<or> faReason a = Stopped then
        sendStream cx i (Done (rcRunId r) (reason_text (faReason a)) (faConfidence a)
          (faReason a = Stopped) (faDetail a))
      else emit (concat (map (\<lambda>ws. sendSendFailure cx ws (rcLegacy r \<and> faLegacyError a = [])
          (rcMsg r) (rcSession r) (rcMessageId r)
          (if faErrorCode a = [] then ''run_failed'' else faErrorCode a)
          (faRetryable a) (faNotSubmitted a)
          (if faDetail a = [] then ''Something went wrong. Please try again.'' else faDetail a))
        (rcSockets r)))))"

definition finalizeAndEmit :: "chat_ctx \<Rightarrow> nat \<Rightarrow> fin_args \<Rightarrow> chat_act" where
  "finalizeAndEmit cx i a = ask (\<lambda>st. let r = chat_rec st i in
     if rcFinalized r then skip
     else seq_acts
       [on_reg (\<lambda>reg. snd (finalize i reg)),
        emit [LogTerminal i (fin_status a)],
        (if cxThrows cx CallTerminal then skip
         else on_store (markTerminal (cxNow cx) (rcSession r) (rcMsg r) (fin_outcome r a))),
        fin_frames cx i (if cxThrows cx CallTerminal then unpersisted r a else a)])"

definition replayTerminalFromRow :: "chat_ctx \<Rightarrow> nat \<Rightarrow> run_model \<Rightarrow> chat_out list" where
  "replayTerminalFromRow cx ws row =
     (if rmRunId row = [] \<and> (rmStatus row = RunError \<or> rmStatus row = RunUnknown) then
        sendJson cx ws (FSendFailed (rmMsg row) (rmSession row)
          (if rmStatus row = RunUnknown then ''unknown_outcome''
           else if rmErrorCode row = [] then ''run_failed'' else rmErrorCode row) False False
          (if rmStatus row = RunUnknown then kUnknownOutcomeMessage
           else if rmError row = [] then ''The previous attempt for this message failed.'' else rmError row))
      else sendJson cx ws (FDone (rmSession row) (rmRunId row) (rmMessageId row)
          (case rmStatus row of RunDone \<Rightarrow> ''complete'' | RunStopped \<Rightarrow> ''stopped''
             | RunInterrupted \<Rightarrow> ''interrupted'' | RunError \<Rightarrow> ''error'' | RunUnknown \<Rightarrow> ''unknown''
             | RunPending \<Rightarrow> ''pending'' | RunRunning \<Rightarrow> ''running'')
          (if rmConfidence row = [] then ''confirmed'' else rmConfidence row)
          (rmStatus row = RunStopped) (rmError row) (Some (rmLastSeq row))))"

section \<open>Stop\<close>

definition begin_abort :: "nat \<Rightarrow> chat_act" where
  "begin_abort i = ask (\<lambda>st. then_act (emit [RpcAbort (rcSession (chat_rec st i))])
     (modify (\<lambda>st. st\<lparr>csAborts := csAborts st @ [i]\<rparr>)))"

definition abort_failed :: "chat_ctx \<Rightarrow> nat \<Rightarrow> string \<Rightarrow> chat_act" where
  "abort_failed cx i code = ask (\<lambda>st.
     if rcFinalized (chat_rec st i) then skip
     else then_act
       (on_reg (put_record i (\<lambda>r. r\<lparr>rcState := (if rcRunId r = [] then StPending else StRunning),
          rcStopRequested := False\<rparr>)))
       (sendControl cx i (\<lambda>r. FStopFailed (rcSession r) (rcRunId r) code)))"

definition abort_done :: "nat \<Rightarrow> chat_act" where
  "abort_done i = ask (\<lambda>st.
     if rcFinalized (chat_rec st i) \<or> rcStopTimer (chat_rec st i) then skip
     else on_reg (put_record i (\<lambda>r. r\<lparr>rcStopTimer := True\<rparr>)))"

definition stop_timer_fires :: "chat_ctx \<Rightarrow> nat \<Rightarrow> chat_act" where
  "stop_timer_fires cx i = ask (\<lambda>st.
     if \<not> rcStopTimer (chat_rec st i) then skip
     else then_act (on_reg (put_record i (\<lambda>r. r\<lparr>rcStopTimer := False\<rparr>)))
       (finalizeAndEmit cx i ((fin_default Stopped ''unconfirmed'')\<lparr>faStopConfirmed := Some 0\<rparr>)))"

definition stop_record :: "chat_ctx \<Rightarrow> nat \<Rightarrow> chat_act" where
  "stop_record cx i = ask (\<lambda>st. let r = chat_rec st i; stopping = sendControl cx i (\<lambda>r. FStopping (rcSession r) (rcRunId r)) in
     if rcState r = StStopping then stopping
     else seq_acts
       [on_reg (put_record i (\<lambda>r. r\<lparr>rcStopRequested := True, rcState := StStopping\<rparr>)),
        (if cxThrows cx CallStop then skip
         else on_store (markStopRequested (cxNow cx) (rcSession r) (rcMsg r))),
        stopping, begin_abort i])"

definition handleStop :: "chat_ctx \<Rightarrow> nat \<Rightarrow> string \<Rightarrow> id_field \<Rightarrow> chat_act" where
  "handleStop cx ws session runId = ask (\<lambda>st.
     let sessionKey = js_trim session; requested = js_trim (id_text runId) in
     if sessionKey = [] then emit (sendJson cx ws (FError ''sessionKey is required'' [] []))
     else if \<not> isValidId sessionKey \<or> \<not> isValidOptionalId runId
     then emit (sendJson cx ws (FError ''sessionKey is invalid'' [] []))
     else
       (let byRun = (if requested = [] then None else getByRunId requested (csReg st));
            gone = (requested \<noteq> [] \<and> (case byRun of None \<Rightarrow> True
                      | Some i \<Rightarrow> rcSession (chat_rec st i) \<noteq> sessionKey))
        in if gone then
             emit (sendJson cx ws (FDone sessionKey requested [] ''stopped'' ''confirmed'' True [] None))
           else
             (case (case byRun of Some i \<Rightarrow> Some i | None \<Rightarrow> getActiveForSession sessionKey (csReg st)) of
                Some i \<Rightarrow> stop_record cx i
              | None \<Rightarrow> then_act (emit [RpcAbort sessionKey])
                  (modify (\<lambda>st. st\<lparr>csSessionAborts := csSessionAborts st @ [(ws, sessionKey)]\<rparr>)))))"

definition session_abort_answer :: "chat_ctx \<Rightarrow> nat \<times> string \<Rightarrow> string option \<Rightarrow> chat_act" where
  "session_abort_answer cx task failed = (case task of (ws, sessionKey) \<Rightarrow>
     emit (sendJson cx ws (case failed of
         None \<Rightarrow> FDone sessionKey [] [] ''stopped'' [] True [] None
       | Some message \<Rightarrow> FError message (cxMessageId cx) sessionKey)))"

section \<open>Gateway events\<close>

text \<open>\<open>resolveTargetRecord\<close>: the record, and whether the event is buffered.\<close>

definition resolveTargetRecord :: "gw_event \<Rightarrow> registry \<Rightarrow> nat option \<times> registry" where
  "resolveTargetRecord e reg =
     (if geRunId e \<noteq> [] then
        (case getByRunId (geRunId e) reg of
           Some i \<Rightarrow> (Some i, reg)
         | None \<Rightarrow> (None, bufferEvent (geRunId e) e reg))
      else if geSession e \<noteq> [] then (getActiveForSession (geSession e) reg, reg)
      else (soloStartedRecord reg, reg))"

definition touch :: "int \<Rightarrow> nat \<Rightarrow> chat_act" where
  "touch now i = on_reg (put_record i (\<lambda>r. r\<lparr>rcLastEventAt := now\<rparr>))"

definition lifecycle_end :: "chat_ctx \<Rightarrow> nat \<Rightarrow> chat_act" where
  "lifecycle_end cx i = ask (\<lambda>st. let r = chat_rec st i in
     if rcRunId r = [] then skip
     else if rcState r = StStopping then
       finalizeAndEmit cx i ((fin_default Stopped ''confirmed'')\<lparr>faStopConfirmed := Some 1\<rparr>)
     else finalizeAndEmit cx i (fin_default Complete ''confirmed''))"

definition chat_error :: "chat_ctx \<Rightarrow> nat \<Rightarrow> chat_act" where
  "chat_error cx i = ask (\<lambda>st.
     if rcRunId (chat_rec st i) = [] then skip
     else finalizeAndEmit cx i ((fin_default Failed ''confirmed'')\<lparr>faErrorCode := ''run_failed'',
       faDetail := ''Something went wrong connecting to the agent.'',
       faLegacyError := ''Something went wrong connecting to the agent.''\<rparr>))"

definition routed_event :: "chat_ctx \<Rightarrow> gw_event \<Rightarrow> nat \<Rightarrow> chat_act" where
  "routed_event cx e i = then_act (touch (cxNow cx) i)
     (case geKind e of
        GwAgentRetrying message \<Rightarrow> sendControl cx i (\<lambda>r. FRunStatus (rcSession r) (rcRunId r) message)
      | GwAgent frames ends \<Rightarrow> then_act (seq_acts (map (sendStream cx i) frames))
          (if ends then lifecycle_end cx i else skip)
      | GwChatError \<Rightarrow> chat_error cx i
      | _ \<Rightarrow> skip)"

definition handleGatewayEvent :: "chat_ctx \<Rightarrow> gw_event \<Rightarrow> chat_act" where
  "handleGatewayEvent cx e = ask (\<lambda>st.
     if geKind e = GwOther then skip
     else (case resolveTargetRecord e (csReg st) of (target, reg) \<Rightarrow>
       then_act (on_reg (\<lambda>_. reg))
         (case target of None \<Rightarrow> emit [Unrouted e] | Some i \<Rightarrow> routed_event cx e i)))"

definition settle_all :: "chat_ctx \<Rightarrow> fin_args \<Rightarrow> nat list \<Rightarrow> chat_act" where
  "settle_all cx a is = seq_acts (map (\<lambda>i. finalizeAndEmit cx i a) is)"

definition onGatewayDisconnect :: "chat_ctx \<Rightarrow> chat_act" where
  "onGatewayDisconnect cx = ask (\<lambda>st. then_act
     (settle_all cx ((fin_default Interrupted ''unconfirmed'')\<lparr>faDetail := ''Connection to the agent was lost''\<rparr>)
        (startedRecords (csReg st)))
     (on_reg clearAllBuffers))"

definition sweep_record :: "chat_ctx \<Rightarrow> nat \<Rightarrow> chat_act" where
  "sweep_record cx i = ask (\<lambda>st. let r = chat_rec st i; silent = cxNow cx - rcLastEventAt r in
     if silent \<le> kRunStallMs then skip
     else then_act
       (finalizeAndEmit cx i ((fin_default Interrupted ''unconfirmed'')\<lparr>faDetail := ''No output for 5+ minutes''\<rparr>))
       (if rcFinalized r then skip
        else emit [StallEvent (rcSession r) (rcRunId r) (rcMsg r) silent]))"

definition sweepStalledRuns :: "chat_ctx \<Rightarrow> chat_act" where
  "sweepStalledRuns cx = ask (\<lambda>st. seq_acts (map (sweep_record cx) (startedRecords (csReg st))))"

section \<open>Messages\<close>

definition no_client :: "id_field \<Rightarrow> bool" where
  "no_client f \<longleftrightarrow> f = IdAbsent \<or> f = IdText []"

definition previouslySubmitted :: "chat_ctx \<Rightarrow> string \<Rightarrow> string \<Rightarrow> chat_state \<Rightarrow> bool" where
  "previouslySubmitted cx session msg st \<longleftrightarrow>
     getByKey session msg (csReg st) \<noteq> None \<or> cxThrows cx CallFindRun
     \<or> (case findRun session msg (csStore st) of None \<Rightarrow> False | Some row \<Rightarrow> \<not> proven_unsent row)"

definition task_failure :: "chat_ctx \<Rightarrow> send_task \<Rightarrow> string \<Rightarrow> bool \<Rightarrow> bool \<Rightarrow> string \<Rightarrow> chat_out list" where
  "task_failure cx t code retryable notSubmitted message =
     sendSendFailure cx (tkWs t) (tkLegacy t) (tkClient t) (tkSession t) (tkMessageId t)
       code retryable notSubmitted message"

definition failAdmission :: "chat_ctx \<Rightarrow> send_task \<Rightarrow> string \<Rightarrow> bool \<Rightarrow> chat_act" where
  "failAdmission cx t code notSubmitted = emit (task_failure cx t code notSubmitted notSubmitted
     (if code = ''unknown_outcome'' then kUnknownOutcomeMessage
      else if code = ''too_many_pending'' then ''Too many chat runs are pending.''
      else ''Chat storage is unavailable. This message was not sent.''))"

definition replayOrUnknown :: "chat_ctx \<Rightarrow> send_task \<Rightarrow> run_model option \<Rightarrow> chat_act" where
  "replayOrUnknown cx t row =
     (case row of
        None \<Rightarrow> failAdmission cx t ''unknown_outcome'' False
      | Some m \<Rightarrow>
          if rmStatus m \<in> set kTerminalStatuses
          then emit (sendJson cx (tkWs t) (FAck (tkClient t) (tkSession t)) @ replayTerminalFromRow cx (tkWs t) m)
          else failAdmission cx t ''unknown_outcome'' False)"

definition replay_frames :: "chat_ctx \<Rightarrow> nat \<Rightarrow> chat_record \<Rightarrow> replay_entry list \<Rightarrow> chat_out list" where
  "replay_frames cx ws r es = concat (map (\<lambda>e. sendJson cx ws
     (FStream (rcSession r) (rcMessageId r) (reFrame e) (reSeq e))) es)"

definition reattach :: "chat_ctx \<Rightarrow> send_task \<Rightarrow> nat \<Rightarrow> chat_act" where
  "reattach cx t i = ask (\<lambda>st. let r = chat_rec st i; ws = tkWs t; isNew = (ws \<notin> set (rcSockets r)) in
     then_act (on_reg (attachSocket i ws))
       (emit (sendJson cx ws (FAck (tkClient t) (tkSession t)) @
         (if rcRunId r = [] then []
          else if isNew \<and> rcReplay r \<noteq> [] then
            replay_frames cx ws r (rcReplay r) @
              (if rcReplayGap r then sendJson cx ws (FDesync (tkSession t)) else [])
          else sendJson cx ws (FStream (tkSession t) (rcMessageId r) (Started (tkClient t) (rcRunId r))
                 (if rcLastSeq r = 0 then 1 else rcLastSeq r))))))"

definition start_send :: "chat_ctx \<Rightarrow> send_task \<Rightarrow> chat_act" where
  "start_send cx t = ask (\<lambda>st.
     case createRecord (tkClient t) (tkSession t) (tkWs t) (tkMessageId t) (cxNow cx) (csReg st) of (i, reg) \<Rightarrow>
       seq_acts [on_reg (\<lambda>_. put_record i (\<lambda>r. r\<lparr>rcLegacy := tkLegacy t\<rparr>) reg),
         emit (sendJson cx (tkWs t) (FAck (tkClient t) (tkSession t))),
         emit [RpcSend (tkSession t) (tkContent t) (tkClient t)],
         modify (\<lambda>st. st\<lparr>csSends := csSends st @ [i]\<rparr>)])"

definition claim_and_send :: "chat_ctx \<Rightarrow> send_task \<Rightarrow> chat_act" where
  "claim_and_send cx t = ask (\<lambda>st.
     if cxThrows cx CallClaim then
       failAdmission cx t (if tkRetry t then ''unknown_outcome'' else ''storage_unavailable'') (\<not> tkRetry t)
     else (case claimSend (cxNow cx) (tkSession t) (tkClient t) (tkMessageId t) (tkRetry t) (csStore st) of
       (answer, store) \<Rightarrow> then_act (on_store (\<lambda>_. store))
         (case answer of
            Claimed \<Rightarrow> start_send cx t
          | ClaimTooMany \<Rightarrow> failAdmission cx t ''too_many_pending'' True
          | AlreadyThere m \<Rightarrow> replayOrUnknown cx t (Some m)
          | ClaimUnknownOutcome \<Rightarrow> replayOrUnknown cx t None)))"

definition admit_new :: "chat_ctx \<Rightarrow> send_task \<Rightarrow> chat_act" where
  "admit_new cx t = ask (\<lambda>st.
     case getActiveForSession (tkSession t) (csReg st) of
       Some j \<Rightarrow> then_act (on_reg (attachSocket j (tkWs t)))
         (emit (task_failure cx t ''session_busy'' True True ''Another message is still running in this session.''))
     | None \<Rightarrow>
         if kMaxLiveRecordsPerBrowser \<le> countForBrowser (tkWs t) (csReg st)
            \<or> kMaxLiveRecordsGlobal \<le> stats_live (csReg st)
         then emit (task_failure cx t ''too_many_pending'' True True ''Too many messages are in flight from this window.'')
         else claim_and_send cx t)"

text \<open>\<open>handleMessage\<close> from the dedupe to the \<open>chat.send\<close> RPC: no await in between.\<close>

definition admit :: "chat_ctx \<Rightarrow> send_task \<Rightarrow> chat_act" where
  "admit cx t = ask (\<lambda>st.
     case getByKey (tkSession t) (tkClient t) (csReg st) of
       Some i \<Rightarrow> reattach cx t i
     | None \<Rightarrow>
         if cxThrows cx CallFindRun then failAdmission cx t ''unknown_outcome'' False
         else (case findRun (tkSession t) (tkClient t) (csStore st) of
             Some row \<Rightarrow> if proven_unsent row then admit_new cx t else replayOrUnknown cx t (Some row)
           | None \<Rightarrow> if tkRetry t then failAdmission cx t ''unknown_outcome'' False else admit_new cx t))"

definition message_task :: "chat_ctx \<Rightarrow> nat \<Rightarrow> message_payload \<Rightarrow> send_task" where
  "message_task cx ws p = \<lparr>tkWs = ws, tkSession = js_trim (mpSession p), tkContent = js_trim (mpContent p),
     tkClient = (if no_client (mpClient p) then cxClientId cx else id_text (mpClient p)),
     tkMessageId = cxMessageId cx, tkLegacy = no_client (mpClient p), tkRetry = (mpRetry p = RetryBool True)\<rparr>"

definition handleMessage :: "chat_ctx \<Rightarrow> nat \<Rightarrow> message_payload \<Rightarrow> chat_act" where
  "handleMessage cx ws p = ask (\<lambda>st.
     case validateMessageFrame p of
       Some (code, message) \<Rightarrow> emit (sendSendFailure cx ws (no_client (mpClient p)) (id_text (mpClient p))
         (js_trim (mpSession p)) (cxMessageId cx) code False True message)
     | None \<Rightarrow>
         (let t = message_task cx ws p in
          if previouslySubmitted cx (tkSession t) (tkClient t) st then admit cx t
          else modify (\<lambda>st. st\<lparr>csPolicy := csPolicy st @ [t]\<rparr>)))"

text \<open>The answer to \<open>getSessionPolicy\<close>: writable, read-only with a message, or rejected.\<close>

datatype policy_answer = PolicyWritable | PolicyReadOnly string | PolicyRejected string

definition policy_answered :: "chat_ctx \<Rightarrow> send_task \<Rightarrow> policy_answer \<Rightarrow> chat_act" where
  "policy_answered cx t answer =
     (case answer of
        PolicyWritable \<Rightarrow> admit cx t
      | PolicyReadOnly message \<Rightarrow> emit (task_failure cx t ''read_only_session'' False True
          (if message = [] then ''This conversation is read-only here.'' else message))
      | PolicyRejected message \<Rightarrow> emit (sendJson cx (tkWs t) (FError message (cxMessageId cx) (tkSession t))))"

definition send_rejected :: "chat_ctx \<Rightarrow> nat \<Rightarrow> rpc_error \<Rightarrow> chat_act" where
  "send_rejected cx i err = ask (\<lambda>st. let r = chat_rec st i in
     if rcFinalized r then skip
     else if rcWritten r \<and> \<not> erResponded err then
       finalizeAndEmit cx i ((fin_default Failed ''unconfirmed'')\<lparr>faStoreStatus := Some RunUnknown,
         faErrorCode := ''unknown_outcome'', faDetail := kUnknownOutcomeMessage\<rparr>)
     else finalizeAndEmit cx i ((fin_default Failed ''confirmed'')\<lparr>faErrorCode := erCode err,
         faDetail := take kMaxStoredErrorLength (erMessage err), faRetryable := erRetryable err,
         faNotSubmitted := True\<rparr>))"

definition run_started :: "chat_ctx \<Rightarrow> nat \<Rightarrow> string \<Rightarrow> chat_act" where
  "run_started cx i runId = ask (\<lambda>st. let r = chat_rec st i in
     seq_acts
       [on_reg (promote i runId),
        (if cxThrows cx CallRunning then skip
         else on_store (markRunning (cxNow cx) (rcSession r) (rcMsg r) runId)),
        sendStream cx i (Started (rcMsg r) runId),
        ask (\<lambda>st. case drainBufferedEvents runId (csReg st) of (events, reg) \<Rightarrow>
          then_act (on_reg (\<lambda>_. reg)) (seq_acts (map (handleGatewayEvent cx) events))),
        ask (\<lambda>st. if rcStopRequested (chat_rec st i) \<and> \<not> rcFinalized (chat_rec st i)
          then begin_abort i else skip)])"

definition send_resolved :: "chat_ctx \<Rightarrow> nat \<Rightarrow> string \<Rightarrow> chat_act" where
  "send_resolved cx i result = ask (\<lambda>st. let r = chat_rec st i; runId = js_trim result in
     if rcFinalized r then (if runId = [] then skip else emit [RpcAbort (rcSession r)])
     else if runId = [] then finalizeAndEmit cx i ((fin_default Failed ''confirmed'')\<lparr>faErrorCode := ''run_failed'',
       faDetail := ''Something went wrong connecting to the agent.''\<rparr>)
     else run_started cx i runId)"

section \<open>Resume and socket close\<close>

definition resume_gap :: "nat \<Rightarrow> chat_record \<Rightarrow> bool" where
  "resume_gap afterSeq r =
     (let buffered = filter (\<lambda>e. afterSeq < reSeq e) (rcReplay r) in
      if rcLastSeq r < afterSeq then True
      else (case buffered of [] \<Rightarrow> afterSeq < rcLastSeq r | e # _ \<Rightarrow> afterSeq + 1 < reSeq e))"

definition handleResume :: "chat_ctx \<Rightarrow> nat \<Rightarrow> string \<Rightarrow> string \<Rightarrow> nat \<Rightarrow> chat_act" where
  "handleResume cx ws session runText afterSeq = ask (\<lambda>st.
     let sessionKey = js_trim session; runId = js_trim runText;
         unknown = emit (sendJson cx ws (FResumeFailed sessionKey runId)) in
     if \<not> isValidId sessionKey \<or> \<not> isValidId runId then unknown
     else (case getByRunId runId (csReg st) of
         None \<Rightarrow> unknown
       | Some i \<Rightarrow>
           (let r = chat_rec st i; buffered = filter (\<lambda>e. afterSeq < reSeq e) (rcReplay r) in
            if rcSession r \<noteq> sessionKey \<or> \<not> rcResumable r then unknown
            else then_act (on_reg (attachSocket i ws))
              (emit (replay_frames cx ws r buffered @
                 sendJson cx ws (FResumed sessionKey runId (rcMessageId r)
                   (case buffered of [] \<Rightarrow> afterSeq + 1 | e # _ \<Rightarrow> reSeq e) (rcLastSeq r)
                   (resume_gap afterSeq r)))))))"

definition socket_closed :: "nat \<Rightarrow> chat_act" where
  "socket_closed ws = ask (\<lambda>st. case detachSocket ws (csReg st) of (emptied, reg) \<Rightarrow>
     on_reg (\<lambda>_. fold (\<lambda>i. put_record i (\<lambda>r. if rcFinalized r then r else r\<lparr>rcGrace := True\<rparr>)) emptied reg))"

definition grace_expired :: "nat \<Rightarrow> chat_act" where
  "grace_expired i = ask (\<lambda>st. if \<not> rcGrace (chat_rec st i) then skip
     else on_reg (put_record i (\<lambda>r. r\<lparr>rcGrace := False, rcResumable := False, rcReplay := [],
       rcReplayBytes := 0, rcReplayGap := False\<rparr>)))"

section \<open>The bridge as a machine\<close>

datatype chat_event =
    EvMessage nat message_payload
  | EvPolicy nat policy_answer
  | EvWritten nat
  | EvRejected nat rpc_error
  | EvResolved nat string
  | EvStop nat string id_field
  | EvAbortFailed nat string
  | EvAbortDone nat
  | EvSessionAbort nat "string option"
  | EvStopTimer nat
  | EvGateway gw_event
  | EvDisconnect
  | EvSweep
  | EvResume nat string string nat
  | EvClose nat
  | EvGrace nat
  | EvRestart

definition remove_at :: "nat \<Rightarrow> 'a list \<Rightarrow> 'a list" where
  "remove_at n xs = take n xs @ drop (Suc n) xs"

text \<open>A task is answered once; an answer without its task does nothing. A restart loses the memory
  and reopens the store.\<close>

definition chat_step :: "chat_ctx \<Rightarrow> chat_event \<Rightarrow> chat_act" where
  "chat_step cx e =
     (case e of
        EvMessage ws p \<Rightarrow> handleMessage cx ws p
      | EvPolicy n answer \<Rightarrow> ask (\<lambda>st. if n < length (csPolicy st)
          then then_act (modify (\<lambda>st. st\<lparr>csPolicy := remove_at n (csPolicy st)\<rparr>))
                 (policy_answered cx (csPolicy st ! n) answer)
          else skip)
      | EvWritten i \<Rightarrow> ask (\<lambda>st. if i \<in> set (csSends st)
          then on_reg (put_record i (\<lambda>r. r\<lparr>rcWritten := True\<rparr>)) else skip)
      | EvRejected i err \<Rightarrow> ask (\<lambda>st. if i \<in> set (csSends st)
          then then_act (modify (\<lambda>st. st\<lparr>csSends := remove1 i (csSends st)\<rparr>)) (send_rejected cx i err)
          else skip)
      | EvResolved i result \<Rightarrow> ask (\<lambda>st. if i \<in> set (csSends st)
          then then_act (modify (\<lambda>st. st\<lparr>csSends := remove1 i (csSends st)\<rparr>)) (send_resolved cx i result)
          else skip)
      | EvStop ws session runId \<Rightarrow> handleStop cx ws session runId
      | EvAbortFailed i code \<Rightarrow> ask (\<lambda>st. if i \<in> set (csAborts st)
          then then_act (modify (\<lambda>st. st\<lparr>csAborts := remove1 i (csAborts st)\<rparr>)) (abort_failed cx i code)
          else skip)
      | EvAbortDone i \<Rightarrow> ask (\<lambda>st. if i \<in> set (csAborts st)
          then then_act (modify (\<lambda>st. st\<lparr>csAborts := remove1 i (csAborts st)\<rparr>)) (abort_done i)
          else skip)
      | EvSessionAbort n failed \<Rightarrow> ask (\<lambda>st. if n < length (csSessionAborts st)
          then then_act (modify (\<lambda>st. st\<lparr>csSessionAborts := remove_at n (csSessionAborts st)\<rparr>))
                 (session_abort_answer cx (csSessionAborts st ! n) failed)
          else skip)
      | EvStopTimer i \<Rightarrow> ask (\<lambda>st. if i < length (rgHeap (csReg st)) then stop_timer_fires cx i else skip)
      | EvGateway ev \<Rightarrow> handleGatewayEvent cx ev
      | EvDisconnect \<Rightarrow> onGatewayDisconnect cx
      | EvSweep \<Rightarrow> sweepStalledRuns cx
      | EvResume ws session runText afterSeq \<Rightarrow> handleResume cx ws session runText afterSeq
      | EvClose ws \<Rightarrow> socket_closed ws
      | EvGrace i \<Rightarrow> ask (\<lambda>st. if i < length (rgHeap (csReg st)) then grace_expired i else skip)
      | EvRestart \<Rightarrow> modify (\<lambda>st. \<lparr>csReg = createRunRegistry,
          csStore = initChatRunsDb (cxNow cx) True (rsRows (csStore st)) (rsNextId (csStore st)),
          csPolicy = [], csSends = [], csAborts = [], csSessionAborts = [], csDesync = [], csDropped = 0\<rparr>))"

definition chat_init :: "int \<Rightarrow> chat_row list \<Rightarrow> nat \<Rightarrow> chat_state" where
  "chat_init now rows nextId = \<lparr>csReg = createRunRegistry, csStore = initChatRunsDb now True rows nextId,
     csPolicy = [], csSends = [], csAborts = [], csSessionAborts = [], csDesync = [], csDropped = 0\<rparr>"

text \<open>A run of the bridge, with the state each event finds and what it emits.\<close>

fun chat_trace :: "chat_state \<Rightarrow> (chat_ctx \<times> chat_event) list \<Rightarrow>
    (chat_state \<times> (chat_ctx \<times> chat_event) \<times> chat_out list) list" where
  "chat_trace st [] = []"
| "chat_trace st ((cx, e) # es) =
     (case chat_step cx e st of (os, st') \<Rightarrow> (st, (cx, e), os) # chat_trace st' es)"

section \<open>The replay buffer\<close>

text \<open>A record's buffer holds its last frames, without a hole, up to its current seq, within the byte
  cap; the gap flag of a resumable record tells whether anything was dropped.\<close>

definition replay_ok :: "chat_record \<Rightarrow> bool" where
  "replay_ok r \<longleftrightarrow> length (rcReplay r) \<le> rcLastSeq r
     \<and> map reSeq (rcReplay r) = [Suc (rcLastSeq r) - length (rcReplay r)..<Suc (rcLastSeq r)]
     \<and> rcReplayBytes r = sum_list (map reSize (rcReplay r)) \<and> rcReplayBytes r \<le> kReplayBufferMaxBytes
     \<and> (rcFinalized r \<or> \<not> rcResumable r \<longrightarrow> rcReplay r = [])
     \<and> (\<not> rcFinalized r \<and> rcResumable r \<longrightarrow> (rcReplayGap r \<longleftrightarrow> length (rcReplay r) < rcLastSeq r))"

lemma trim_replay_drop:
  assumes "trim_replay bytes gap es = (es', bytes', gap')" and "bytes = sum_list (map reSize es)"
  shows "\<exists>k \<le> length es. es' = drop k es \<and> bytes' = sum_list (map reSize es')
    \<and> bytes' \<le> kReplayBufferMaxBytes \<and> (gap' \<longleftrightarrow> gap \<or> 0 < k)"
  using assms
proof (induction bytes gap es rule: trim_replay.induct)
  case (1 bytes gap)
  then show ?case by auto
next
  case (2 bytes gap e es)
  show ?case
  proof (cases "kReplayBufferMaxBytes < bytes")
    case True
    then obtain k where "k \<le> length es" and "es' = drop k es" and "bytes' = sum_list (map reSize es')"
      and "bytes' \<le> kReplayBufferMaxBytes" and "gap'"
      using 2 by auto
    then show ?thesis by (intro exI [of _ "Suc k"]) simp
  next
    case False
    then show ?thesis using 2 by (intro exI [of _ 0]) auto
  qed
qed

lemma push_replay_fields [simp]:
  "rcMsg (push_replay body sz r) = rcMsg r" "rcSession (push_replay body sz r) = rcSession r"
  "rcOrigin (push_replay body sz r) = rcOrigin r" "rcRunId (push_replay body sz r) = rcRunId r"
  "rcFinalized (push_replay body sz r) = rcFinalized r" "rcResumable (push_replay body sz r) = rcResumable r"
  "rcLastSeq (push_replay body sz r) = Suc (rcLastSeq r)"
  by (simp_all add: push_replay_def Let_def split: prod.splits)

lemma push_replay_ok:
  assumes ok: "replay_ok r"
  shows "replay_ok (push_replay body sz r)"
proof (cases "rcFinalized r \<or> \<not> rcResumable r")
  case True
  then show ?thesis using ok by (auto simp: replay_ok_def push_replay_def Let_def)
next
  case False
  define es where "es = rcReplay r @ [\<lparr>reSeq = Suc (rcLastSeq r), reSize = sz, reFrame = body\<rparr>]"
  obtain es' bytes' gap' where t: "trim_replay (rcReplayBytes r + sz) (rcReplayGap r) es = (es', bytes', gap')"
    by (cases "trim_replay (rcReplayBytes r + sz) (rcReplayGap r) es")
  have sum: "rcReplayBytes r + sz = sum_list (map reSize es)" using ok by (simp add: replay_ok_def es_def)
  obtain k where k: "k \<le> length es" "es' = drop k es" "bytes' = sum_list (map reSize es')"
    "bytes' \<le> kReplayBufferMaxBytes" "gap' \<longleftrightarrow> rcReplayGap r \<or> 0 < k"
    using trim_replay_drop [OF t sum] by blast
  have len: "length (rcReplay r) \<le> rcLastSeq r" using ok by (simp add: replay_ok_def)
  have "map reSeq es = [Suc (rcLastSeq r) - length (rcReplay r)..<Suc (Suc (rcLastSeq r))]"
    using ok len by (simp add: replay_ok_def es_def)
  then have "map reSeq es' = drop k [Suc (rcLastSeq r) - length (rcReplay r)..<Suc (Suc (rcLastSeq r))]"
    by (simp only: k(2) drop_map [symmetric])
  also have "\<dots> = [Suc (rcLastSeq r) - length (rcReplay r) + k..<Suc (Suc (rcLastSeq r))]"
    by (rule drop_upt)
  also have "Suc (rcLastSeq r) - length (rcReplay r) + k = Suc (Suc (rcLastSeq r)) - length es'"
    using k(1) len by (simp add: k(2) es_def)
  finally have "map reSeq es' = [Suc (Suc (rcLastSeq r)) - length es'..<Suc (Suc (rcLastSeq r))]" .
  moreover have "gap' \<longleftrightarrow> length es' < Suc (rcLastSeq r)"
    using k(1,2,5) ok False len by (auto simp: replay_ok_def es_def)
  moreover have "push_replay body sz r = r\<lparr>rcLastSeq := Suc (rcLastSeq r), rcReplay := es', rcReplayBytes := bytes', rcReplayGap := gap'\<rparr>"
    using False t by (simp add: push_replay_def Let_def es_def)
  ultimately show ?thesis
    using k(1-4) len False by (auto simp: replay_ok_def es_def)
qed

lemma new_record_replay: "replay_ok (new_record m s ws mid now)"
  by (simp add: replay_ok_def new_record_def)

lemma replay_ok_legacy [simp]: "replay_ok (r\<lparr>rcLegacy := b\<rparr>) = replay_ok r"
  by (simp add: replay_ok_def)

text \<open>What a resume sends.\<close>

lemma whole_no_gap:
  assumes "n \<le> rcLastSeq r" and "map reSeq (filter (\<lambda>e. n < reSeq e) (rcReplay r)) = [Suc n..<Suc (rcLastSeq r)]"
  shows "\<not> resume_gap n r"
proof (cases "filter (\<lambda>e. n < reSeq e) (rcReplay r)")
  case Nil
  then have "[Suc n..<Suc (rcLastSeq r)] = []" using assms(2) by simp
  then show ?thesis using assms(1) Nil by (auto simp: resume_gap_def upt_eq_Nil_conv simp del: upt_Suc)
next
  case (Cons e es)
  then have "[Suc n..<Suc (rcLastSeq r)] = reSeq e # map reSeq es" using assms(2) by simp
  then have "reSeq e = Suc n" by (simp only: upt_eq_Cons_conv)
  then show ?thesis using assms(1) Cons by (simp add: resume_gap_def)
qed

lemma buffered_from:
  assumes "replay_ok r"
  shows "map reSeq (filter (\<lambda>e. n < reSeq e) (rcReplay r))
    = [max (Suc (rcLastSeq r) - length (rcReplay r)) (Suc n)..<Suc (rcLastSeq r)]"
proof -
  have upt: "filter (\<lambda>s. n < s) [k..<l] = [max k (Suc n)..<l]" for k l :: nat
    by (induction l) (auto simp: max_def)
  have "map reSeq (filter (\<lambda>e. n < reSeq e) (rcReplay r)) = filter (\<lambda>s. n < s) (map reSeq (rcReplay r))"
    by (simp add: filter_map o_def)
  also have "\<dots> = filter (\<lambda>s. n < s) [Suc (rcLastSeq r) - length (rcReplay r)..<Suc (rcLastSeq r)]"
    using assms by (simp add: replay_ok_def)
  finally show ?thesis using upt by metis
qed

text \<open>What a cursor leaves of the buffer runs without a break up to the present.\<close>

lemma buffered_seqs:
  fixes n :: nat
  assumes "replay_ok r"
  defines "es \<equiv> filter (\<lambda>e. n < reSeq e) (rcReplay r)"
  shows "map reSeq es = [Suc (rcLastSeq r) - length es..<Suc (rcLastSeq r)]"
proof -
  have upt: "[m..<l] = [l - (l - m)..<l]" for m l :: nat by (cases "m \<le> l") simp_all
  have seqs: "map reSeq es = [max (Suc (rcLastSeq r) - length (rcReplay r)) (Suc n)..<Suc (rcLastSeq r)]"
    unfolding es_def by (rule buffered_from [OF assms(1)])
  then have "length es = Suc (rcLastSeq r) - max (Suc (rcLastSeq r) - length (rcReplay r)) (Suc n)"
    by (metis length_map length_upt)
  then show ?thesis using seqs upt by metis
qed

lemma resume_exact:
  assumes ok: "replay_ok r" and live: "\<not> rcFinalized r" "rcResumable r" and gap: "\<not> resume_gap n r"
  shows "map reSeq (filter (\<lambda>e. n < reSeq e) (rcReplay r)) = [Suc n..<Suc (rcLastSeq r)]"
proof -
  let ?k = "Suc (rcLastSeq r) - length (rcReplay r)" and ?b = "filter (\<lambda>e. n < reSeq e) (rcReplay r)"
  note seqs = buffered_from [OF ok, of n]
  show ?thesis
  proof (cases ?b)
    case Nil
    then show ?thesis using gap by (auto simp: resume_gap_def Let_def split: if_splits)
  next
    case (Cons e es)
    then have "reSeq e \<le> Suc n" using gap by (auto simp: resume_gap_def Let_def split: if_splits)
    moreover have "max ?k (Suc n) < Suc (rcLastSeq r)" using seqs Cons by (cases "max ?k (Suc n) < Suc (rcLastSeq r)") auto
    then have "reSeq e = max ?k (Suc n)"
      using seqs unfolding Cons by (subst (asm) upt_conv_Cons) simp_all
    ultimately have "max ?k (Suc n) = Suc n" by simp
    then show ?thesis using seqs by simp
  qed
qed

section \<open>The invariant\<close>

definition heap_size :: "chat_state \<Rightarrow> nat" where "heap_size st = length (rgHeap (csReg st))"

definition chat_ok :: "chat_state \<Rightarrow> bool" where
  "chat_ok st \<longleftrightarrow> reg_ok (csReg st) \<and> runs_ok (csStore st) \<and> buffers_ok (csReg st)
     \<and> stats_live (csReg st) \<le> kMaxLiveRecordsGlobal
     \<and> (\<forall>ws. countForBrowser ws (csReg st) \<le> kMaxLiveRecordsPerBrowser)
     \<and> (\<forall>i < heap_size st. replay_ok (chat_rec st i))
     \<and> (\<forall>t \<in> set (csPolicy st). valid_session (tkSession t))
     \<and> distinct (csSends st) \<and> (\<forall>i \<in> set (csSends st). i < heap_size st \<and> rcRunId (chat_rec st i) = [])
     \<and> (\<forall>i \<in> set (csAborts st). i < heap_size st)"

lemma chat_okD:
  assumes "chat_ok st"
  shows "reg_ok (csReg st)" and "runs_ok (csStore st)" and "buffers_ok (csReg st)"
    and "stats_live (csReg st) \<le> kMaxLiveRecordsGlobal"
    and "countForBrowser ws (csReg st) \<le> kMaxLiveRecordsPerBrowser"
    and "i < heap_size st \<Longrightarrow> replay_ok (chat_rec st i)"
    and "t \<in> set (csPolicy st) \<Longrightarrow> valid_session (tkSession t)"
    and "distinct (csSends st)" and "i \<in> set (csSends st) \<Longrightarrow> i < heap_size st"
    and "i \<in> set (csSends st) \<Longrightarrow> rcRunId (chat_rec st i) = []"
    and "i \<in> set (csAborts st) \<Longrightarrow> i < heap_size st"
  using assms unfolding chat_ok_def by blast+

text \<open>A step that changes neither the store nor which records exist, whose they are and whether they
  are finished.\<close>

definition quiet :: "chat_state \<Rightarrow> chat_state \<Rightarrow> bool" where
  "quiet s t \<longleftrightarrow> csStore t = csStore s \<and> heap_size t = heap_size s
     \<and> (\<forall>i < heap_size s. rcFinalized (chat_rec t i) = rcFinalized (chat_rec s i)
          \<and> rcSession (chat_rec t i) = rcSession (chat_rec s i) \<and> rcMsg (chat_rec t i) = rcMsg (chat_rec s i))"

definition harmless :: "chat_out \<Rightarrow> bool" where
  "harmless x = (case x of RpcSend _ _ _ \<Rightarrow> False | LogTerminal _ _ \<Rightarrow> False | _ \<Rightarrow> True)"

definition refs_in :: "nat set \<Rightarrow> chat_state \<Rightarrow> bool" where
  "refs_in V st \<longleftrightarrow> (\<forall>i \<in> V. i < heap_size st)"

lemma refs_in_simps [simp]:
  "refs_in {} st" "refs_in (insert i V) st \<longleftrightarrow> i < heap_size st \<and> refs_in V st"
  by (auto simp: refs_in_def)

lemma refs_in_mono: "refs_in V s \<Longrightarrow> heap_size s \<le> heap_size t \<Longrightarrow> refs_in V t"
  by (auto simp: refs_in_def)

text \<open>A relation between states across the frames emitted, closed under sequencing, that holds of the
  program's primitive effects. What it says of them it says of every handler without a claim and
  without a proof of non-submission.\<close>

locale chat_relation =
  fixes R :: "chat_state \<Rightarrow> chat_out list \<Rightarrow> chat_state \<Rightarrow> bool"
  assumes R_trans: "R s os t \<Longrightarrow> R t os' u \<Longrightarrow> R s (os @ os') u"
    and R_emit: "list_all harmless os \<Longrightarrow> R s os s"
    and R_quiet: "quiet s t \<Longrightarrow> R s [] t"
    and R_final: "chat_ok s \<Longrightarrow> i < heap_size s \<Longrightarrow> \<not> rcFinalized (chat_rec s i) \<Longrightarrow> \<not> faNotSubmitted a \<Longrightarrow>
      st' = csStore s \<or> st' = markTerminal now (rcSession (chat_rec s i)) (rcMsg (chat_rec s i))
        (fin_outcome (chat_rec s i) a) (csStore s) \<Longrightarrow>
      R s [LogTerminal i (fin_status a)] (s\<lparr>csReg := snd (finalize i (csReg s)), csStore := st'\<rparr>)"
    and R_mark: "chat_ok s \<Longrightarrow> st' = markRunning now session msg runId (csStore s)
        \<or> st' = markStopRequested now session msg (csStore s) \<Longrightarrow> R s [] (s\<lparr>csStore := st'\<rparr>)"
begin

definition act_at :: "chat_act \<Rightarrow> chat_state \<Rightarrow> bool" where
  "act_at a s \<longleftrightarrow> chat_ok (snd (a s)) \<and> heap_size s \<le> heap_size (snd (a s)) \<and> R s (fst (a s)) (snd (a s))"

definition act_ok :: "nat set \<Rightarrow> chat_act \<Rightarrow> bool" where
  "act_ok V a \<longleftrightarrow> (\<forall>s. chat_ok s \<longrightarrow> refs_in V s \<longrightarrow> act_at a s)"

lemma act_okD: "act_ok V a \<Longrightarrow> chat_ok s \<Longrightarrow> refs_in V s \<Longrightarrow> act_at a s"
  by (simp add: act_ok_def)

lemma act_okI: "(\<And>s. chat_ok s \<Longrightarrow> refs_in V s \<Longrightarrow> act_at a s) \<Longrightarrow> act_ok V a"
  by (simp add: act_ok_def)

lemma at_then: "act_at a s \<Longrightarrow> act_at b (snd (a s)) \<Longrightarrow> act_at (then_act a b) s"
  by (auto simp: act_at_def then_act_def split_beta intro: R_trans)

lemma at_then_ok: "act_at a s \<Longrightarrow> refs_in V s \<Longrightarrow> act_ok V b \<Longrightarrow> act_at (then_act a b) s"
  by (rule at_then, assumption, rule act_okD) (auto simp: act_at_def intro: refs_in_mono)

lemma ok_then: "act_ok V a \<Longrightarrow> act_ok V b \<Longrightarrow> act_ok V (then_act a b)"
  by (rule act_okI) (rule at_then_ok [OF act_okD, where V1 = V and V = V])

lemma ok_ask: "(\<And>s. chat_ok s \<Longrightarrow> refs_in V s \<Longrightarrow> act_at (f s) s) \<Longrightarrow> act_ok V (ask f)"
  by (simp add: act_ok_def act_at_def ask_def)

lemma ok_emit: "list_all harmless os \<Longrightarrow> act_ok V (emit os)"
  by (simp add: act_ok_def act_at_def emit_def R_emit)

lemma ok_skip: "act_ok V skip"
  by (simp add: skip_def ok_emit)

lemma ok_seq: "list_all (act_ok V) as \<Longrightarrow> act_ok V (seq_acts as)"
  by (induction as) (simp_all add: ok_skip ok_then)

lemma ok_mono: "act_ok V a \<Longrightarrow> V \<subseteq> W \<Longrightarrow> act_ok W a"
  by (auto simp: act_ok_def refs_in_def)

lemma at_modify: "chat_ok (f s) \<Longrightarrow> quiet s (f s) \<Longrightarrow> act_at (modify f) s"
  by (simp add: act_at_def modify_def quiet_def [of s "f s"] R_quiet)

end

section \<open>The primitive effects keep the invariant\<close>

lemma live_counts_mono:
  assumes "reg_ok reg" and "reg_ok reg'"
    and sub: "\<And>i. rec_live reg' i \<Longrightarrow> rec_live reg i \<and> rcOrigin (the_record reg' i) = rcOrigin (the_record reg i)"
  shows "stats_live reg' \<le> stats_live reg" and "countForBrowser ws reg' \<le> countForBrowser ws reg"
proof -
  have fin: "finite {i. rec_live reg i}" by (rule finite_subset [of _ "{..<length (rgHeap reg)}"]) (auto simp: rec_live_def)
  show "stats_live reg' \<le> stats_live reg"
    unfolding stats_live_card [OF assms(1)] stats_live_card [OF assms(2)]
    by (rule card_mono [OF fin]) (use sub in auto)
  have fin2: "finite {i. rec_live reg i \<and> rcOrigin (the_record reg i) = ws}"
    by (rule finite_subset [OF _ fin]) auto
  show "countForBrowser ws reg' \<le> countForBrowser ws reg"
    unfolding countForBrowser_card [OF assms(1)] countForBrowser_card [OF assms(2)]
    by (rule card_mono [OF fin2]) (use sub in force)
qed

lemma chat_ok_reg:
  assumes ok: "chat_ok s" and reg: "reg_ok reg'" "buffers_ok reg'" and len: "length (rgHeap reg') = heap_size s"
    and sub: "\<And>i. rec_live reg' i \<Longrightarrow> rec_live (csReg s) i \<and> rcOrigin (the_record reg' i) = rcOrigin (the_record (csReg s) i)"
    and replay: "\<And>i. i < heap_size s \<Longrightarrow> replay_ok (the_record reg' i)"
    and sends: "\<And>i. i \<in> set (csSends s) \<Longrightarrow> rcRunId (the_record reg' i) = []"
  shows "chat_ok (s\<lparr>csReg := reg'\<rparr>)"
proof -
  note d = chat_okD [OF ok]
  have "stats_live reg' \<le> kMaxLiveRecordsGlobal"
    using live_counts_mono(1) [OF d(1) reg(1) sub] d(4) by simp
  moreover have "countForBrowser ws reg' \<le> kMaxLiveRecordsPerBrowser" for ws
    using live_counts_mono(2) [OF d(1) reg(1) sub] d(5) by (rule le_trans)
  moreover have "heap_size (s\<lparr>csReg := reg'\<rparr>) = heap_size s" by (simp add: heap_size_def [of "s\<lparr>csReg := reg'\<rparr>"] len)
  moreover have "chat_rec (s\<lparr>csReg := reg'\<rparr>) i = the_record reg' i" for i by (simp add: chat_rec_def)
  ultimately show ?thesis
    unfolding chat_ok_def using d reg replay sends by simp
qed

lemma chat_ok_put:
  assumes ok: "chat_ok s" and f: "keeps_identity f" and r: "\<And>r. replay_ok r \<Longrightarrow> replay_ok (f r)"
  shows "chat_ok (s\<lparr>csReg := put_record i f (csReg s)\<rparr>)"
proof (rule chat_ok_reg [OF ok])
  note d = chat_okD [OF ok]
  show "reg_ok (put_record i f (csReg s))" using d(1) f by (simp add: reg_ok_put)
  show "buffers_ok (put_record i f (csReg s))" by (rule buffers_ok_cong [OF _ d(3)]) simp
  show "rec_live (csReg s) j \<and> rcOrigin (the_record (put_record i f (csReg s)) j) = rcOrigin (the_record (csReg s) j)"
    if "rec_live (put_record i f (csReg s)) j" for j
    using that by (simp add: rec_live_put f identity_put)
  show "replay_ok (the_record (put_record i f (csReg s)) j)" if "j < heap_size s" for j
    using d(6) [OF that] r by (cases "i < length (rgHeap (csReg s))")
      (auto simp: the_record_put put_record_beyond chat_rec_def)
  show "rcRunId (the_record (put_record i f (csReg s)) j) = []" if "j \<in> set (csSends s)" for j
    using d(10) [OF that] by (simp add: identity_put f chat_rec_def)
qed (simp add: heap_size_def)

lemma quiet_put: "keeps_identity f \<Longrightarrow> quiet s (s\<lparr>csReg := put_record i f (csReg s)\<rparr>)"
  by (simp add: quiet_def heap_size_def chat_rec_def identity_put)

lemma chat_ok_finalize:
  assumes ok: "chat_ok s" and i: "i < heap_size s"
  shows "chat_ok (s\<lparr>csReg := snd (finalize i (csReg s))\<rparr>)"
proof (cases "rcFinalized (chat_rec s i)")
  case True
  then show ?thesis using ok by (simp add: finalize_again chat_rec_def)
next
  case False
  note d = chat_okD [OF ok]
  have live: "rec_live (csReg s) i" using i False by (simp add: rec_live_def heap_size_def chat_rec_def)
  note fin = finalize_first [OF live surjective_pairing]
  show ?thesis
  proof (rule chat_ok_reg [OF ok])
    show "reg_ok (snd (finalize i (csReg s)))" by (rule finalize_ok [OF d(1) live surjective_pairing])
    show "buffers_ok (snd (finalize i (csReg s)))"
      by (rule buffers_ok_cong [OF _ d(3)]) (auto simp: finalize_def Let_def)
    show "rec_live (csReg s) j \<and> rcOrigin (the_record (snd (finalize i (csReg s))) j) = rcOrigin (the_record (csReg s) j)"
      if "rec_live (snd (finalize i (csReg s))) j" for j
      using that fin(4) [of j] by (simp add: fin(2))
    show "replay_ok (the_record (snd (finalize i (csReg s))) j)" if j: "j < heap_size s" for j
      using d(6) [OF j] fin(4) [of j] by (cases "j = i") (simp_all add: chat_rec_def fin(5) replay_ok_def)
    show "rcRunId (the_record (snd (finalize i (csReg s))) j) = []" if "j \<in> set (csSends s)" for j
      using d(10) [OF that] fin(4) [of j] by (cases "j = i") (simp_all add: chat_rec_def fin(5))
  qed (simp add: fin(3) heap_size_def)
qed

lemma chat_ok_promote:
  assumes ok: "chat_ok s" and live: "rec_live (csReg s) i" and fresh: "rcRunId (chat_rec s i) = []"
    and answered: "i \<notin> set (csSends s)"
  shows "chat_ok (s\<lparr>csReg := promote i runId (csReg s)\<rparr>)" and "quiet s (s\<lparr>csReg := promote i runId (csReg s)\<rparr>)"
proof -
  note d = chat_okD [OF ok]
  have i: "i < length (rgHeap (csReg s))" using live by (simp add: rec_live_def)
  define f :: "chat_record \<Rightarrow> chat_record" where "f = (\<lambda>r. r\<lparr>rcRunId := runId, rcState := (if rcState r = StStopping then StStopping else StRunning)\<rparr>)"
  have rec: "the_record (promote i runId (csReg s)) j = (if j = i then f (the_record (csReg s) i) else the_record (csReg s) j)" for j
    by (simp add: promote_def Let_def the_record_put [OF i] f_def)
  have len: "length (rgHeap (promote i runId (csReg s))) = heap_size s"
    by (simp add: promote_def Let_def heap_size_def)
  have lv: "rec_live (promote i runId (csReg s)) j = rec_live (csReg s) j" for j
    using len by (simp add: rec_live_def rec heap_size_def f_def)
  show "chat_ok (s\<lparr>csReg := promote i runId (csReg s)\<rparr>)"
  proof (rule chat_ok_reg [OF ok _ _ len])
    show "reg_ok (promote i runId (csReg s))"
      by (rule promote_ok [OF d(1) live]) (use fresh in \<open>simp add: chat_rec_def\<close>)
    show "buffers_ok (promote i runId (csReg s))"
      by (rule buffers_ok_cong [OF _ d(3)]) (simp add: promote_def Let_def)
    show "replay_ok (the_record (promote i runId (csReg s)) j)" if "j < heap_size s" for j
      using d(6) [OF that] by (auto simp: rec chat_rec_def f_def replay_ok_def)
    show "rcRunId (the_record (promote i runId (csReg s)) j) = []" if "j \<in> set (csSends s)" for j
      using d(10) [OF that] that answered by (auto simp: rec chat_rec_def)
  qed (simp add: lv rec f_def)
  show "quiet s (s\<lparr>csReg := promote i runId (csReg s)\<rparr>)"
    using len by (simp add: quiet_def heap_size_def chat_rec_def rec f_def)
qed

lemma chat_ok_buffers:
  "chat_ok s \<Longrightarrow> buffers_ok ((csReg s)\<lparr>rgBuffered := b\<rparr>) \<Longrightarrow> chat_ok (s\<lparr>csReg := (csReg s)\<lparr>rgBuffered := b\<rparr>\<rparr>)"
  by (rule chat_ok_reg) (auto simp: chat_ok_def reg_ok_buffered heap_size_def rec_live_def chat_rec_def)

lemma quiet_buffers: "quiet s (s\<lparr>csReg := (csReg s)\<lparr>rgBuffered := b\<rparr>\<rparr>)"
  by (simp add: quiet_def heap_size_def chat_rec_def)

lemma chat_ok_store: "chat_ok s \<Longrightarrow> runs_ok st' \<Longrightarrow> chat_ok (s\<lparr>csStore := st'\<rparr>)"
  by (simp add: chat_ok_def heap_size_def chat_rec_def)

lemma marks_ok:
  assumes "runs_ok st"
  shows "runs_ok (markRunning now s m r st)" and "runs_ok (markStopRequested now s m st)"
    and "runs_ok (markTerminal now s m oc st)"
  using runs_step_ok [OF assms, of "OpRunning now s m r"] runs_step_ok [OF assms, of "OpStop now s m"]
    runs_step_ok [OF assms, of "OpTerminal now s m oc"] by (simp_all add: runs_step_def)

definition fin_core :: "chat_ctx \<Rightarrow> nat \<Rightarrow> fin_args \<Rightarrow> chat_act" where
  "fin_core cx i a s = ([LogTerminal i (fin_status a)],
     s\<lparr>csReg := snd (finalize i (csReg s)),
       csStore := (if cxThrows cx CallTerminal then csStore s
         else markTerminal (cxNow cx) (rcSession (chat_rec s i)) (rcMsg (chat_rec s i))
                (fin_outcome (chat_rec s i) a) (csStore s))\<rparr>)"

lemma finalizeAndEmit_split: "finalizeAndEmit cx i a s =
    (if rcFinalized (chat_rec s i) then ([], s)
     else then_act (fin_core cx i a)
       (fin_frames cx i (if cxThrows cx CallTerminal then unpersisted (chat_rec s i) a else a)) s)"
  by (simp add: finalizeAndEmit_def ask_def skip_def emit_def then_act_def fin_core_def Let_def on_reg_def
      on_store_def modify_def split: prod.splits)

lemma fin_core_ok: "chat_ok s \<Longrightarrow> i < heap_size s \<Longrightarrow> chat_ok (snd (fin_core cx i a s))"
proof -
  assume ok: "chat_ok s" and i: "i < heap_size s"
  have "runs_ok (csStore (snd (fin_core cx i a s)))"
    using chat_okD(2) [OF ok] marks_ok(3) by (simp add: fin_core_def)
  then show ?thesis using chat_ok_store [OF chat_ok_finalize [OF ok i]] by (simp add: fin_core_def)
qed

lemma finalize_length: "length (rgHeap (snd (finalize i reg))) = length (rgHeap reg)"
  by (simp add: finalize_def Let_def)

lemma fin_core_heap: "heap_size (snd (fin_core cx i a s)) = heap_size s"
  by (simp add: fin_core_def heap_size_def finalize_length)

lemma harmless_simps [simp]:
  "harmless (ToSocket ws f)" "harmless (RpcAbort s)" "harmless (Unrouted e)" "harmless (StallEvent a b c d)"
  "\<not> harmless (RpcSend a b c)" "\<not> harmless (LogTerminal i st)"
  by (simp_all add: harmless_def)

lemma harmless_sendJson [simp]: "list_all harmless (sendJson cx ws f)"
  by (simp add: sendJson_def)

lemma harmless_failure [simp]:
  "list_all harmless (sendSendFailure cx ws legacy c s m code re ns message)"
  "list_all harmless (task_failure cx t code re ns message)"
  by (simp_all add: task_failure_def sendSendFailure_def)

lemma harmless_concat [simp]: "(\<And>x. list_all harmless (f x)) \<Longrightarrow> list_all harmless (concat (map f xs))"
  by (induction xs) simp_all

lemma harmless_replay [simp]:
  "list_all harmless (replay_frames cx ws r es)" "list_all harmless (replayTerminalFromRow cx ws m)"
  by (simp_all add: replay_frames_def replayTerminalFromRow_def)

lemma keeps_identity_simps [simp]:
  "keeps_identity (push_replay body sz)" "keeps_identity (\<lambda>r. r\<lparr>rcLastEventAt := n\<rparr>)"
  "keeps_identity (\<lambda>r. r\<lparr>rcWritten := b\<rparr>)" "keeps_identity (\<lambda>r. r\<lparr>rcStopTimer := b\<rparr>)"
  "keeps_identity (\<lambda>r. r\<lparr>rcState := g r, rcStopRequested := b\<rparr>)"
  "keeps_identity (\<lambda>r. r\<lparr>rcStopRequested := b, rcState := st\<rparr>)"
  "keeps_identity (\<lambda>r. r\<lparr>rcGrace := b, rcResumable := b, rcReplay := es, rcReplayBytes := n', rcReplayGap := b\<rparr>)"
  "keeps_identity (\<lambda>r. if rcFinalized r then r else r\<lparr>rcGrace := b\<rparr>)"
  "keeps_identity (\<lambda>r. r\<lparr>rcLegacy := b\<rparr>)"
  by (simp_all add: keeps_identity_def)

lemma chat_ok_misc:
  "chat_ok (s\<lparr>csDesync := d\<rparr>) = chat_ok s" "chat_ok (s\<lparr>csDropped := k\<rparr>) = chat_ok s"
  "chat_ok (s\<lparr>csSessionAborts := l\<rparr>) = chat_ok s"
  "quiet s (s\<lparr>csDesync := d\<rparr>)" "quiet s (s\<lparr>csDropped := k, csDesync := d\<rparr>)" "quiet s (s\<lparr>csSessionAborts := l\<rparr>)"
  "quiet s (s\<lparr>csAborts := r\<rparr>)" "quiet s (s\<lparr>csSends := r\<rparr>)" "quiet s (s\<lparr>csPolicy := p\<rparr>)"
  by (simp_all add: chat_ok_def quiet_def heap_size_def chat_rec_def)

lemma chat_ok_tasks:
  "chat_ok s \<Longrightarrow> \<forall>i \<in> set l. i < heap_size s \<Longrightarrow> chat_ok (s\<lparr>csAborts := l\<rparr>)"
  "chat_ok s \<Longrightarrow> chat_ok (s\<lparr>csSends := remove1 i (csSends s)\<rparr>)"
  "chat_ok s \<Longrightarrow> \<forall>t \<in> set p. valid_session (tkSession t) \<Longrightarrow> chat_ok (s\<lparr>csPolicy := p\<rparr>)"
  by (auto simp: chat_ok_def heap_size_def chat_rec_def dest: in_set_remove1 notin_set_remove1 set_remove1_subset [THEN subsetD])

section \<open>The handlers, once for every relation\<close>

context chat_relation begin

lemma ok_put: "keeps_identity f \<Longrightarrow> (\<And>r. replay_ok r \<Longrightarrow> replay_ok (f r)) \<Longrightarrow> act_ok V (on_reg (put_record i f))"
  unfolding on_reg_def by (rule act_okI, rule at_modify) (rule chat_ok_put quiet_put; assumption)+

lemma ok_modify: "(\<And>s. chat_ok s \<Longrightarrow> refs_in V s \<Longrightarrow> chat_ok (f s)) \<Longrightarrow> (\<And>s. quiet s (f s)) \<Longrightarrow> act_ok V (modify f)"
  by (rule act_okI) (rule at_modify)

lemma ok_flushDesync: "act_ok V (flushDesync cx ws)"
  unfolding flushDesync_def
  by (rule ok_ask, rule act_okD [of V])
    (auto simp: chat_ok_misc intro!: ok_skip ok_then ok_emit ok_modify simp: list_all_iff)

lemma ok_deliver: "act_ok V (deliverToSocket cx session f droppable ws)"
  unfolding deliverToSocket_def
  by (auto simp: chat_ok_misc intro!: ok_skip ok_then ok_emit ok_modify ok_flushDesync)

lemma ok_sendStream: "act_ok V (sendStream cx i body)"
  unfolding sendStream_def
proof (rule ok_then)
  show "act_ok V (ask (\<lambda>st. on_reg (put_record i (push_replay body (cxSize cx body (Suc (rcLastSeq (chat_rec st i))))))))"
    by (rule ok_ask, rule act_okD [of V]) (auto intro!: ok_put push_replay_ok)
  show "act_ok V (ask (\<lambda>st. let r = chat_rec st i in seq_acts (map (deliverToSocket cx (rcSession r)
      (FStream (rcSession r) (rcMessageId r) body (rcLastSeq r)) (\<not> is_done body)) (rcSockets r))))"
    by (rule ok_ask, rule act_okD [of V]) (auto simp: Let_def list_all_iff intro!: ok_seq ok_deliver)
qed

lemma ok_sendControl: "act_ok V (sendControl cx i f)"
  unfolding sendControl_def by (rule ok_ask, rule act_okD [of V]) (auto simp: Let_def intro!: ok_emit)

lemma ok_fin_frames: "act_ok V (fin_frames cx i a)"
  unfolding fin_frames_def
  by (rule ok_ask, rule act_okD [of V])
    (auto simp: Let_def intro!: ok_then ok_skip ok_sendControl ok_sendStream ok_emit)

lemma at_finalize_core:
  assumes ok: "chat_ok s" and i: "i < heap_size s"
    and core: "\<not> rcFinalized (chat_rec s i) \<Longrightarrow> R s (fst (fin_core cx i a s)) (snd (fin_core cx i a s))"
  shows "act_at (finalizeAndEmit cx i a) s"
proof (cases "rcFinalized (chat_rec s i)")
  case True
  then show ?thesis using ok R_emit [of "[]"] by (simp add: finalizeAndEmit_split act_at_def)
next
  case False
  have "act_at (fin_core cx i a) s"
    unfolding act_at_def using core [OF False] fin_core_ok [OF ok i] by (simp add: fin_core_heap)
  then have "act_at (then_act (fin_core cx i a)
      (fin_frames cx i (if cxThrows cx CallTerminal then unpersisted (chat_rec s i) a else a))) s"
    by (rule at_then_ok [where V = "{}"]) (simp_all add: ok_fin_frames)
  then show ?thesis using False by (simp add: act_at_def finalizeAndEmit_split)
qed

lemma at_finalize:
  assumes ok: "chat_ok s" and i: "i < heap_size s" and a: "\<not> faNotSubmitted a"
  shows "act_at (finalizeAndEmit cx i a) s"
proof (rule at_finalize_core [OF ok i])
  assume live: "\<not> rcFinalized (chat_rec s i)"
  show "R s (fst (fin_core cx i a s)) (snd (fin_core cx i a s))"
    unfolding fin_core_def fst_conv snd_conv by (rule R_final [OF ok i live a, where now = "cxNow cx"]) auto
qed

lemma ok_finalize: "\<not> faNotSubmitted a \<Longrightarrow> i \<in> V \<Longrightarrow> act_ok V (finalizeAndEmit cx i a)"
  by (rule act_okI, rule at_finalize) (auto simp: refs_in_def)

end

lemma started_in_heap: "chat_ok s \<Longrightarrow> i \<in> set (startedRecords (csReg s)) \<Longrightarrow> i < heap_size s"
  using startedRecords_live [OF chat_okD(1)] by (auto simp: rec_live_def heap_size_def)

lemma active_in_heap: "chat_ok s \<Longrightarrow> getActiveForSession k (csReg s) = Some i \<Longrightarrow> i < heap_size s"
  using getActive_iff [OF chat_okD(1)] by (auto simp: rec_live_def heap_size_def)

lemma byRunId_live: "chat_ok s \<Longrightarrow> getByRunId k (csReg s) = Some i \<Longrightarrow> i < heap_size s \<and> \<not> rcFinalized (chat_rec s i)"
  using reg_okD(5) [OF chat_okD(1)] by (auto simp: getByRunId_def rec_live_def heap_size_def chat_rec_def)

lemma solo_in_heap: "chat_ok s \<Longrightarrow> soloStartedRecord (csReg s) = Some i \<Longrightarrow> i < heap_size s"
  using started_in_heap by (fastforce simp: soloStartedRecord_def startedRecords_def split: list.splits prod.splits)

lemma resolved_in_heap: "chat_ok s \<Longrightarrow> resolveTargetRecord e (csReg s) = (Some i, reg) \<Longrightarrow> i < heap_size s"
  using byRunId_live active_in_heap solo_in_heap
  by (auto simp: resolveTargetRecord_def split: if_splits option.splits)

lemma bufferEvent_buffers: "\<exists>b. bufferEvent k e reg = reg\<lparr>rgBuffered := b\<rparr>"
proof -
  have "reg = reg\<lparr>rgBuffered := rgBuffered reg\<rparr>" by simp
  then show ?thesis unfolding bufferEvent_def Let_def by metis
qed

lemma drain_buffers: "\<exists>b. snd (drainBufferedEvents k reg) = reg\<lparr>rgBuffered := b\<rparr>"
proof -
  have "reg = reg\<lparr>rgBuffered := rgBuffered reg\<rparr>" by simp
  then show ?thesis
    unfolding drainBufferedEvents_def by (auto split: option.splits intro: exI [of _ "rgBuffered reg"])
qed

lemma resolved_buffers: "resolveTargetRecord e reg = (target, reg') \<Longrightarrow> \<exists>b. reg' = reg\<lparr>rgBuffered := b\<rparr>"
proof -
  assume r: "resolveTargetRecord e reg = (target, reg')"
  have "reg = reg\<lparr>rgBuffered := rgBuffered reg\<rparr>" by simp
  moreover have "reg' = reg \<or> reg' = bufferEvent (geRunId e) e reg"
    using r by (auto simp: resolveTargetRecord_def split: if_splits option.splits)
  ultimately show ?thesis using bufferEvent_buffers by metis
qed

lemma resolved_bounded: "buffers_ok reg \<Longrightarrow> resolveTargetRecord e reg = (target, reg') \<Longrightarrow> buffers_ok reg'"
  using bufferEvent_bounded by (auto simp: resolveTargetRecord_def split: if_splits option.splits)

context chat_relation begin

lemma ok_finalize_default [intro]: "i \<in> V \<Longrightarrow> act_ok V (finalizeAndEmit cx i (fin_default reason conf))"
  by (rule ok_finalize) (simp_all add: fin_default_def)

lemma ok_settle_all: "\<not> faNotSubmitted a \<Longrightarrow> set is \<subseteq> V \<Longrightarrow> act_ok V (settle_all cx a is)"
  unfolding settle_all_def by (rule ok_seq) (auto simp: list_all_iff intro: ok_finalize)

lemma at_buffers: "chat_ok s \<Longrightarrow> buffers_ok ((csReg s)\<lparr>rgBuffered := b\<rparr>) \<Longrightarrow>
    act_at (on_reg (\<lambda>_. (csReg s)\<lparr>rgBuffered := b\<rparr>)) s"
  unfolding on_reg_def by (rule at_modify) (auto intro: chat_ok_buffers quiet_buffers)

lemma ok_disconnect: "act_ok V (onGatewayDisconnect cx)"
  unfolding onGatewayDisconnect_def
proof (rule ok_ask)
  fix s assume ok: "chat_ok s" and "refs_in V s"
  have "act_ok W (on_reg clearAllBuffers)" for W
  proof (rule act_okI)
    fix s assume "chat_ok s"
    then show "act_at (on_reg clearAllBuffers) s"
      using chat_ok_buffers [of s "[]"] quiet_buffers [of s "[]"]
      by (simp add: on_reg_def at_modify clearAllBuffers_def buffers_ok_def)
  qed
  moreover have "act_ok (set (startedRecords (csReg s))) (settle_all cx
      ((fin_default Interrupted ''unconfirmed'')\<lparr>faDetail := ''Connection to the agent was lost''\<rparr>) (startedRecords (csReg s)))"
    by (rule ok_settle_all) (simp_all add: fin_default_def)
  ultimately show "act_at (then_act (settle_all cx ((fin_default Interrupted ''unconfirmed'')
      \<lparr>faDetail := ''Connection to the agent was lost''\<rparr>) (startedRecords (csReg s))) (on_reg clearAllBuffers)) s"
    using ok started_in_heap [OF ok]
    by (intro act_okD [OF ok_then [where V = "set (startedRecords (csReg s))"]]) (auto simp: refs_in_def)
qed

lemma ok_sweep_record: "i \<in> V \<Longrightarrow> act_ok V (sweep_record cx i)"
  unfolding sweep_record_def
  by (rule ok_ask, rule act_okD [of V])
    (auto simp: Let_def fin_default_def intro!: ok_then ok_skip ok_emit ok_finalize)

lemma ok_sweep: "act_ok V (sweepStalledRuns cx)"
  unfolding sweepStalledRuns_def
proof (rule ok_ask)
  fix s assume ok: "chat_ok s" and "refs_in V s"
  have "act_ok (set (startedRecords (csReg s))) (seq_acts (map (sweep_record cx) (startedRecords (csReg s))))"
    by (rule ok_seq) (simp add: list_all_iff ok_sweep_record)
  then show "act_at (seq_acts (map (sweep_record cx) (startedRecords (csReg s)))) s"
    using ok started_in_heap [OF ok] by (intro act_okD) (auto simp: refs_in_def)
qed

lemma ok_lifecycle_end: "i \<in> V \<Longrightarrow> act_ok V (lifecycle_end cx i)"
  unfolding lifecycle_end_def
  by (rule ok_ask, rule act_okD [of V]) (auto simp: Let_def fin_default_def intro!: ok_skip ok_finalize)

lemma ok_chat_error: "i \<in> V \<Longrightarrow> act_ok V (chat_error cx i)"
  unfolding chat_error_def
  by (rule ok_ask, rule act_okD [of V]) (auto simp: Let_def fin_default_def intro!: ok_skip ok_finalize)

lemma ok_routed: "i \<in> V \<Longrightarrow> act_ok V (routed_event cx e i)"
  unfolding routed_event_def touch_def
  by (cases "geKind e") (auto simp: list_all_iff replay_ok_def
      intro!: ok_then ok_put ok_seq ok_sendStream ok_lifecycle_end ok_skip ok_chat_error ok_sendControl)

lemma ok_gateway: "act_ok V (handleGatewayEvent cx e)"
  unfolding handleGatewayEvent_def
proof (rule ok_ask)
  fix s assume ok: "chat_ok s" and "refs_in V s"
  obtain target reg where r: "resolveTargetRecord e (csReg s) = (target, reg)"
    by (cases "resolveTargetRecord e (csReg s)")
  obtain b where b: "reg = (csReg s)\<lparr>rgBuffered := b\<rparr>" using resolved_buffers [OF r] by blast
  have buf: "act_at (on_reg (\<lambda>_. reg)) s"
    using at_buffers [OF ok] resolved_bounded [OF chat_okD(3) [OF ok] r] by (simp add: b)
  have "act_at (then_act (on_reg (\<lambda>_. reg)) (case target of None \<Rightarrow> emit [Unrouted e] | Some i \<Rightarrow> routed_event cx e i)) s"
  proof (cases target)
    case None
    then show ?thesis using buf by (auto intro!: at_then_ok [where V = "{}"] ok_emit)
  next
    case (Some i)
    then have "i < heap_size s" using resolved_in_heap ok r by blast
    then show ?thesis using buf Some by (auto intro!: at_then_ok [where V = "{i}"] ok_routed)
  qed
  then show "act_at (if geKind e = GwOther then skip
     else (case resolveTargetRecord e (csReg s) of (target, reg) \<Rightarrow>
       then_act (on_reg (\<lambda>_. reg)) (case target of None \<Rightarrow> emit [Unrouted e] | Some i \<Rightarrow> routed_event cx e i))) s"
    using act_okD [OF ok_skip ok, of "{}"] r by simp
qed

end

lemma attach_put: "attachSocket i ws reg = put_record i (\<lambda>r. if rcFinalized r then r
    else r\<lparr>rcSockets := set_add ws (rcSockets r), rcGrace := False\<rparr>) reg"
proof (cases "i < length (rgHeap reg)")
  case True
  then show ?thesis by (cases reg) (auto simp: attachSocket_def put_record_def the_record_def list_update_id)
next
  case False
  then show ?thesis by (simp add: attachSocket_def put_record_beyond)
qed

lemma attach_identity [simp]:
  "keeps_identity (\<lambda>r. if rcFinalized r then r else r\<lparr>rcSockets := g r, rcGrace := b\<rparr>)"
  by (simp add: keeps_identity_def)

lemma detach_chat_ok:
  assumes ok: "chat_ok s" and d: "detachSocket ws (csReg s) = (emptied, reg)"
  shows "chat_ok (s\<lparr>csReg := reg\<rparr>)" and "quiet s (s\<lparr>csReg := reg\<rparr>)"
proof -
  note det = detachSocket_record [OF chat_okD(1) [OF ok] d]
  have rec: "rcSession (the_record reg i) = rcSession (chat_rec s i)" "rcMsg (the_record reg i) = rcMsg (chat_rec s i)"
    "rcOrigin (the_record reg i) = rcOrigin (chat_rec s i)" "rcRunId (the_record reg i) = rcRunId (chat_rec s i)"
    "rcFinalized (the_record reg i) = rcFinalized (chat_rec s i)"
    "replay_ok (chat_rec s i) \<Longrightarrow> replay_ok (the_record reg i)" for i
    using det(1,2) [of i] by (cases "rec_live (csReg s) i"; simp add: chat_rec_def replay_ok_def)+
  show "chat_ok (s\<lparr>csReg := reg\<rparr>)"
  proof (rule chat_ok_reg [OF ok det(5)])
    show "buffers_ok reg" by (rule buffers_ok_cong [OF _ chat_okD(3) [OF ok]]) (simp add: det(6))
  qed (use det(3,4) rec chat_okD [OF ok] in \<open>auto simp: heap_size_def chat_rec_def\<close>)
  show "quiet s (s\<lparr>csReg := reg\<rparr>)"
    using det(4) by (simp add: quiet_def heap_size_def rec) (simp add: chat_rec_def rec)
qed

lemma fold_put_replay: "(\<And>r. replay_ok r \<Longrightarrow> replay_ok (f r)) \<Longrightarrow> keeps_identity f \<Longrightarrow> chat_ok s \<Longrightarrow>
    chat_ok (s\<lparr>csReg := fold (\<lambda>i. put_record i f) is (csReg s)\<rparr>)
    \<and> quiet s (s\<lparr>csReg := fold (\<lambda>i. put_record i f) is (csReg s)\<rparr>)"
proof (induction "is" arbitrary: s)
  case Nil
  then show ?case by (simp add: quiet_def)
next
  case (Cons i "is")
  let ?s = "s\<lparr>csReg := put_record i f (csReg s)\<rparr>"
  have "chat_ok ?s" by (rule chat_ok_put) (use Cons.prems in auto)
  then have "chat_ok (?s\<lparr>csReg := fold (\<lambda>i. put_record i f) is (csReg ?s)\<rparr>)
      \<and> quiet ?s (?s\<lparr>csReg := fold (\<lambda>i. put_record i f) is (csReg ?s)\<rparr>)"
    using Cons.IH [of ?s] Cons.prems(1,2) by blast
  moreover have "quiet s ?s" by (rule quiet_put [OF Cons.prems(2)])
  ultimately show ?case by (simp add: quiet_def)
qed

context chat_relation begin

lemma ok_attach: "act_ok V (on_reg (attachSocket i ws))"
  unfolding attach_put by (rule ok_put) (auto simp: replay_ok_def)

lemma ok_begin_abort: "i \<in> V \<Longrightarrow> act_ok V (begin_abort i)"
  unfolding begin_abort_def
  by (rule ok_ask, rule act_okD [of V])
    (auto simp: chat_ok_misc refs_in_def intro!: ok_then ok_emit ok_modify chat_ok_tasks dest: chat_okD(11))

lemma ok_store_mark:
  assumes "\<And>st. \<exists>now s m r. f st = markRunning now s m r st \<or> f st = markStopRequested now s m st"
  shows "act_ok V (on_store f)"
proof (rule act_okI)
  fix s assume ok: "chat_ok s"
  obtain now k m r where f: "f (csStore s) = markRunning now k m r (csStore s)
      \<or> f (csStore s) = markStopRequested now k m (csStore s)" using assms by blast
  have "runs_ok (f (csStore s))" using f marks_ok(1,2) [OF chat_okD(2) [OF ok]] by auto
  then show "act_at (on_store f) s"
    using R_mark [OF ok f] chat_ok_store [OF ok]
    by (simp add: act_at_def on_store_def modify_def heap_size_def)
qed

lemma ok_stop_record: "i \<in> V \<Longrightarrow> act_ok V (stop_record cx i)"
  unfolding stop_record_def
  by (rule ok_ask, rule act_okD [of V])
    (auto simp: Let_def replay_ok_def intro!: ok_sendControl ok_then ok_put ok_begin_abort ok_skip ok_store_mark)

lemma ok_stop: "act_ok V (handleStop cx ws session runId)"
  unfolding handleStop_def
proof (rule ok_ask)
  fix s assume ok: "chat_ok s" and V: "refs_in V s"
  have stop: "act_at (stop_record cx i) s" if "i < heap_size s" for i
    by (rule act_okD [OF ok_stop_record [of i "{i}"] ok]) (use that in auto)
  have emits: "act_at (emit os) s" if "list_all harmless os" for os
    by (rule act_okD [OF ok_emit [OF that] ok V])
  have session: "act_at (then_act (emit [RpcAbort k]) (modify (\<lambda>st. st\<lparr>csSessionAborts := csSessionAborts st @ [(ws, k)]\<rparr>))) s" for k
    by (rule act_okD [OF _ ok V]) (auto simp: chat_ok_misc intro!: ok_then ok_emit ok_modify)
  show "act_at (let sessionKey = js_trim session; requested = js_trim (id_text runId) in
     if sessionKey = [] then emit (sendJson cx ws (FError ''sessionKey is required'' [] []))
     else if \<not> isValidId sessionKey \<or> \<not> isValidOptionalId runId
     then emit (sendJson cx ws (FError ''sessionKey is invalid'' [] []))
     else
       (let byRun = (if requested = [] then None else getByRunId requested (csReg s));
            gone = (requested \<noteq> [] \<and> (case byRun of None \<Rightarrow> True
                      | Some i \<Rightarrow> rcSession (chat_rec s i) \<noteq> sessionKey))
        in if gone then
             emit (sendJson cx ws (FDone sessionKey requested [] ''stopped'' ''confirmed'' True [] None))
           else
             (case (case byRun of Some i \<Rightarrow> Some i | None \<Rightarrow> getActiveForSession sessionKey (csReg s)) of
                Some i \<Rightarrow> stop_record cx i
              | None \<Rightarrow> then_act (emit [RpcAbort sessionKey])
                  (modify (\<lambda>st. st\<lparr>csSessionAborts := csSessionAborts st @ [(ws, sessionKey)]\<rparr>))))) s"
    using byRunId_live [OF ok] active_in_heap [OF ok]
    by (auto simp: Let_def stop emits session split: option.splits)
qed

lemma ok_abort_failed: "act_ok V (abort_failed cx i code)"
  unfolding abort_failed_def
  by (rule ok_ask, rule act_okD [of V]) (auto simp: replay_ok_def intro!: ok_skip ok_then ok_put ok_sendControl)

lemma ok_abort_done: "act_ok V (abort_done i)"
  unfolding abort_done_def
  by (rule ok_ask, rule act_okD [of V]) (auto simp: replay_ok_def intro!: ok_skip ok_put)

lemma ok_stop_timer: "i \<in> V \<Longrightarrow> act_ok V (stop_timer_fires cx i)"
  unfolding stop_timer_fires_def
  by (rule ok_ask, rule act_okD [of V])
    (auto simp: replay_ok_def fin_default_def intro!: ok_skip ok_then ok_put ok_finalize)

lemma ok_session_abort: "act_ok V (session_abort_answer cx task failed)"
  unfolding session_abort_answer_def by (cases task) (simp add: ok_emit)

lemma ok_resume: "act_ok V (handleResume cx ws session runText afterSeq)"
  unfolding handleResume_def
  by (rule ok_ask, rule act_okD [of V])
    (auto simp: Let_def split: option.splits intro!: ok_emit ok_then ok_attach)

lemma ok_close: "act_ok V (socket_closed ws)"
  unfolding socket_closed_def
proof (rule ok_ask)
  fix s assume ok: "chat_ok s"
  obtain emptied reg where d: "detachSocket ws (csReg s) = (emptied, reg)" by (cases "detachSocket ws (csReg s)")
  note det = detach_chat_ok [OF ok d]
  let ?f = "\<lambda>r. if rcFinalized r then r else r\<lparr>rcGrace := True\<rparr>"
  have "chat_ok ((s\<lparr>csReg := reg\<rparr>)\<lparr>csReg := fold (\<lambda>i. put_record i ?f) emptied (csReg (s\<lparr>csReg := reg\<rparr>))\<rparr>)
      \<and> quiet (s\<lparr>csReg := reg\<rparr>) ((s\<lparr>csReg := reg\<rparr>)\<lparr>csReg := fold (\<lambda>i. put_record i ?f) emptied (csReg (s\<lparr>csReg := reg\<rparr>))\<rparr>)"
    by (rule fold_put_replay [OF _ _ det(1)]) (auto simp: replay_ok_def)
  then have "act_at (on_reg (\<lambda>_. fold (\<lambda>i. put_record i ?f) emptied reg)) s"
    unfolding on_reg_def using det(2) by (intro at_modify) (auto simp: quiet_def)
  then show "act_at (case detachSocket ws (csReg s) of (emptied, reg) \<Rightarrow>
      on_reg (\<lambda>_. fold (\<lambda>i. put_record i (\<lambda>r. if rcFinalized r then r else r\<lparr>rcGrace := True\<rparr>)) emptied reg)) s"
    by (simp add: d)
qed

lemma ok_grace: "act_ok V (grace_expired i)"
  unfolding grace_expired_def
  by (rule ok_ask, rule act_okD [of V]) (auto simp: replay_ok_def keeps_identity_def intro!: ok_skip ok_put)

end

section \<open>Starting a run\<close>

context chat_relation begin

lemma ok_drained: "act_ok V (ask (\<lambda>st. case drainBufferedEvents runId (csReg st) of (events, reg) \<Rightarrow>
    then_act (on_reg (\<lambda>_. reg)) (seq_acts (map (handleGatewayEvent cx) events))))"
proof (rule ok_ask)
  fix s assume ok: "chat_ok s"
  obtain events reg where d: "drainBufferedEvents runId (csReg s) = (events, reg)"
    by (cases "drainBufferedEvents runId (csReg s)")
  obtain b where b: "reg = (csReg s)\<lparr>rgBuffered := b\<rparr>" using drain_buffers [of runId "csReg s"] d by auto
  have "buffers_ok reg" using drainBufferedEvents_bounded [OF chat_okD(3) [OF ok], of runId] d by simp
  then have "act_at (on_reg (\<lambda>_. reg)) s" using at_buffers [OF ok] by (simp add: b)
  then have "act_at (then_act (on_reg (\<lambda>_. reg)) (seq_acts (map (handleGatewayEvent cx) events))) s"
    by (rule at_then_ok [where V = "{}"]) (simp_all add: ok_seq list_all_iff ok_gateway)
  then show "act_at (case drainBufferedEvents runId (csReg s) of (events, reg) \<Rightarrow>
      then_act (on_reg (\<lambda>_. reg)) (seq_acts (map (handleGatewayEvent cx) events))) s" by (simp add: d)
qed

lemma at_run_started:
  assumes ok: "chat_ok s" and i: "i < heap_size s" and live: "\<not> rcFinalized (chat_rec s i)"
    and fresh: "rcRunId (chat_rec s i) = []" and answered: "i \<notin> set (csSends s)"
  shows "act_at (run_started cx i runId) s"
proof -
  have "rec_live (csReg s) i" using i live by (simp add: rec_live_def heap_size_def chat_rec_def)
  note pr = chat_ok_promote [OF ok this fresh answered, of runId]
  have first: "act_at (on_reg (promote i runId)) s" unfolding on_reg_def by (rule at_modify) (rule pr)+
  define rest where "rest = seq_acts [if cxThrows cx CallRunning then skip
      else on_store (markRunning (cxNow cx) (rcSession (chat_rec s i)) (rcMsg (chat_rec s i)) runId),
      sendStream cx i (Started (rcMsg (chat_rec s i)) runId),
      ask (\<lambda>st. case drainBufferedEvents runId (csReg st) of (events, reg) \<Rightarrow>
          then_act (on_reg (\<lambda>_. reg)) (seq_acts (map (handleGatewayEvent cx) events))),
      ask (\<lambda>st. if rcStopRequested (chat_rec st i) \<and> \<not> rcFinalized (chat_rec st i)
          then begin_abort i else skip)]"
  have "act_ok {i} (ask (\<lambda>st. if rcStopRequested (chat_rec st i) \<and> \<not> rcFinalized (chat_rec st i)
      then begin_abort i else skip))"
    by (rule ok_ask, rule act_okD [of "{i}"]) (auto intro: ok_begin_abort ok_skip)
  then have "act_ok {i} rest"
    unfolding rest_def by (intro ok_seq) (auto intro!: ok_skip ok_store_mark ok_sendStream ok_drained)
  from at_then_ok [OF first _ this] have "act_at (then_act (on_reg (promote i runId)) rest) s" using i by simp
  then show ?thesis unfolding run_started_def Let_def rest_def by (simp add: act_at_def ask_def)
qed

lemma at_resolved:
  assumes ok: "chat_ok s" and i: "i < heap_size s" and fresh: "rcRunId (chat_rec s i) = []"
    and answered: "i \<notin> set (csSends s)"
  shows "act_at (send_resolved cx i result) s"
proof -
  have "act_at (emit [RpcAbort k]) s" for k by (rule act_okD [OF ok_emit ok, of _ "{}"]) simp_all
  moreover have "act_at skip s" by (rule act_okD [OF ok_skip ok, of "{}"]) simp
  moreover have "act_at (finalizeAndEmit cx i ((fin_default Failed ''confirmed'')\<lparr>faErrorCode := ''run_failed'',
       faDetail := ''Something went wrong connecting to the agent.''\<rparr>)) s"
    by (rule at_finalize [OF ok i]) (simp add: fin_default_def)
  ultimately have "act_at (let r = chat_rec s i; runId = js_trim result in
     if rcFinalized r then (if runId = [] then skip else emit [RpcAbort (rcSession r)])
     else if runId = [] then finalizeAndEmit cx i ((fin_default Failed ''confirmed'')\<lparr>faErrorCode := ''run_failed'',
       faDetail := ''Something went wrong connecting to the agent.''\<rparr>)
     else run_started cx i runId) s"
    using at_run_started [OF ok i _ fresh answered] by (simp add: Let_def)
  then show ?thesis unfolding send_resolved_def by (simp add: act_at_def ask_def)
qed

lemma ok_failAdmission: "act_ok V (failAdmission cx t code ns)"
  by (simp add: failAdmission_def ok_emit)

lemma ok_replayOrUnknown: "act_ok V (replayOrUnknown cx t row)"
  by (cases row) (simp_all add: replayOrUnknown_def ok_failAdmission ok_emit)

lemma ok_reattach: "act_ok V (reattach cx t i)"
  unfolding reattach_def
  by (rule ok_ask, rule act_okD [of V]) (auto simp: Let_def intro!: ok_then ok_attach ok_emit)

text \<open>\<open>admit\<close>, up to its claim.\<close>

lemma at_admit:
  assumes ok: "chat_ok s"
    and claim: "getActiveForSession (tkSession t) (csReg s) = None \<Longrightarrow>
      countForBrowser (tkWs t) (csReg s) < kMaxLiveRecordsPerBrowser \<Longrightarrow>
      stats_live (csReg s) < kMaxLiveRecordsGlobal \<Longrightarrow> \<not> cxThrows cx CallFindRun \<Longrightarrow>
      (case findRun (tkSession t) (tkClient t) (csStore s) of None \<Rightarrow> \<not> tkRetry t | Some m \<Rightarrow> proven_unsent m) \<Longrightarrow>
      act_at (claim_and_send cx t) s"
  shows "act_at (admit cx t) s"
proof -
  have at: "act_at a s" if "act_ok {} a" for a by (rule act_okD [OF that ok]) simp
  have new: "act_at (admit_new cx t) s" if "\<not> cxThrows cx CallFindRun"
    "case findRun (tkSession t) (tkClient t) (csStore s) of None \<Rightarrow> \<not> tkRetry t | Some m \<Rightarrow> proven_unsent m"
  proof -
    have "act_at (case getActiveForSession (tkSession t) (csReg s) of
       Some j \<Rightarrow> then_act (on_reg (attachSocket j (tkWs t)))
         (emit (task_failure cx t ''session_busy'' True True ''Another message is still running in this session.''))
     | None \<Rightarrow>
         if kMaxLiveRecordsPerBrowser \<le> countForBrowser (tkWs t) (csReg s)
            \<or> kMaxLiveRecordsGlobal \<le> stats_live (csReg s)
         then emit (task_failure cx t ''too_many_pending'' True True ''Too many messages are in flight from this window.'')
         else claim_and_send cx t) s"
      using claim that by (auto split: option.splits intro!: at ok_then ok_attach ok_emit)
    then show ?thesis unfolding admit_new_def by (simp add: act_at_def ask_def)
  qed
  have "act_at (case getByKey (tkSession t) (tkClient t) (csReg s) of
       Some i \<Rightarrow> reattach cx t i
     | None \<Rightarrow>
         if cxThrows cx CallFindRun then failAdmission cx t ''unknown_outcome'' False
         else (case findRun (tkSession t) (tkClient t) (csStore s) of
             Some row \<Rightarrow> if proven_unsent row then admit_new cx t else replayOrUnknown cx t (Some row)
           | None \<Rightarrow> if tkRetry t then failAdmission cx t ''unknown_outcome'' False else admit_new cx t)) s"
    using new at [OF ok_reattach] at [OF ok_failAdmission] at [OF ok_replayOrUnknown] by (auto split: option.splits)
  then show ?thesis unfolding admit_def by (simp add: act_at_def ask_def)
qed

end

lemma isValidId_session: "isValidId k \<Longrightarrow> valid_session k"
proof -
  have "control_char CHR 0x0A" by (simp add: control_char_def)
  then show "isValidId k \<Longrightarrow> valid_session k" by (auto simp: isValidId_def valid_session_def list_ex_iff)
qed

lemma validated_session: "validateMessageFrame p = None \<Longrightarrow> valid_session (tkSession (message_task cx ws p))"
  by (simp add: validateMessageFrame_def Let_def message_task_def isValidId_session split: if_splits)

definition created :: "chat_ctx \<Rightarrow> send_task \<Rightarrow> chat_state \<Rightarrow> chat_state" where
  "created cx t s = s\<lparr>csReg := put_record (heap_size s) (\<lambda>r. r\<lparr>rcLegacy := tkLegacy t\<rparr>)
     (snd (createRecord (tkClient t) (tkSession t) (tkWs t) (tkMessageId t) (cxNow cx) (csReg s))),
     csSends := csSends s @ [heap_size s]\<rparr>"

lemma start_send_split: "start_send cx t s =
    (sendJson cx (tkWs t) (FAck (tkClient t) (tkSession t)) @ [RpcSend (tkSession t) (tkContent t) (tkClient t)],
     created cx t s)"
  by (simp add: start_send_def ask_def createRecord_def Let_def then_act_def on_reg_def modify_def emit_def
      skip_def created_def heap_size_def)

lemma created_records:
  shows "heap_size (created cx t s) = Suc (heap_size s)" and "csStore (created cx t s) = csStore s"
    and "i < heap_size s \<Longrightarrow> chat_rec (created cx t s) i = chat_rec s i"
    and "chat_rec (created cx t s) (heap_size s) =
      (new_record (tkClient t) (tkSession t) (tkWs t) (tkMessageId t) (cxNow cx))\<lparr>rcLegacy := tkLegacy t\<rparr>"
proof -
  let ?create = "createRecord (tkClient t) (tkSession t) (tkWs t) (tkMessageId t) (cxNow cx) (csReg s)"
  obtain k reg where e: "?create = (k, reg)" by (cases ?create)
  note c = createRecord_live [OF e]
  have k: "k = heap_size s" using c(1) by (simp add: heap_size_def)
  have reg': "csReg (created cx t s) = put_record k (\<lambda>r. r\<lparr>rcLegacy := tkLegacy t\<rparr>) reg"
    by (simp add: created_def e k)
  show "heap_size (created cx t s) = Suc (heap_size s)" using c(2) k by (simp add: heap_size_def reg')
  show "csStore (created cx t s) = csStore s" by (simp add: created_def)
  show "i < heap_size s \<Longrightarrow> chat_rec (created cx t s) i = chat_rec s i"
    using c(2) c(4) [of i] k by (simp add: chat_rec_def reg' the_record_put)
  show "chat_rec (created cx t s) (heap_size s) =
      (new_record (tkClient t) (tkSession t) (tkWs t) (tkMessageId t) (cxNow cx))\<lparr>rcLegacy := tkLegacy t\<rparr>"
    using c(2,3) k by (simp add: chat_rec_def reg' the_record_put)
qed

lemma created_ok:
  assumes ok: "chat_ok s" and v: "valid_session (tkSession t)"
    and free: "getActiveForSession (tkSession t) (csReg s) = None"
    and caps: "countForBrowser (tkWs t) (csReg s) < kMaxLiveRecordsPerBrowser" "stats_live (csReg s) < kMaxLiveRecordsGlobal"
  shows "chat_ok (created cx t s)"
proof -
  note d = chat_okD [OF ok]
  obtain i reg where c: "createRecord (tkClient t) (tkSession t) (tkWs t) (tkMessageId t) (cxNow cx) (csReg s) = (i, reg)"
    by (cases "createRecord (tkClient t) (tkSession t) (tkWs t) (tkMessageId t) (cxNow cx) (csReg s)")
  note live = createRecord_live [OF c] and rec = created_records [where cx = cx and t = t and s = s]
  have i: "i = heap_size s" using live(1) by (simp add: heap_size_def)
  have reg: "reg_ok reg" by (rule createRecord_ok [OF d(1) v getByKey_active [OF d(1) v free] free c])
  have cs: "csReg (created cx t s) = put_record i (\<lambda>r. r\<lparr>rcLegacy := tkLegacy t\<rparr>) reg"
    by (simp add: created_def c i)
  have counts: "stats_live reg = Suc (stats_live (csReg s))"
    "countForBrowser ws reg = (if ws = tkWs t then Suc (countForBrowser ws (csReg s)) else countForBrowser ws (csReg s))" for ws
  proof -
    have fin: "finite {j. rec_live (csReg s) j}"
      by (rule finite_subset [of _ "{..<heap_size s}"]) (auto simp: rec_live_def heap_size_def)
    have new: "i \<notin> {j. rec_live (csReg s) j}" by (simp add: i rec_live_def heap_size_def)
    have "{j. rec_live reg j} = insert i {j. rec_live (csReg s) j}" by (auto simp: live(5))
    then show "stats_live reg = Suc (stats_live (csReg s))"
      using fin new by (simp add: stats_live_card [OF reg] stats_live_card [OF d(1)])
    have old: "the_record reg j = the_record (csReg s) j" if "rec_live (csReg s) j" for j
      using that live(1,4) by (simp add: rec_live_def)
    let ?own = "{j. rec_live (csReg s) j \<and> rcOrigin (the_record (csReg s) j) = ws}"
    have own: "finite ?own" "i \<notin> ?own" using new by (auto intro: finite_subset [OF _ fin])
    have "{j. rec_live reg j \<and> rcOrigin (the_record reg j) = ws} = (if ws = tkWs t then insert i ?own else ?own)"
      using old new by (auto simp: live(3,5) new_record_def)
    then show "countForBrowser ws reg = (if ws = tkWs t then Suc (countForBrowser ws (csReg s)) else countForBrowser ws (csReg s))"
      unfolding countForBrowser_card [OF reg] countForBrowser_card [OF d(1)]
      using card_insert_disjoint [OF own] by (simp split: if_splits)
  qed
  have sends: "i \<notin> set (csSends s)" using d(9) i by blast
  have "buffers_ok (csReg (created cx t s))"
    using c by (intro buffers_ok_cong [OF _ d(3)]) (auto simp: cs createRecord_def Let_def)
  moreover have "stats_live (csReg (created cx t s)) \<le> kMaxLiveRecordsGlobal"
    using counts(1) caps(2) by (simp add: cs stats_live_def)
  moreover have "countForBrowser ws (csReg (created cx t s)) \<le> kMaxLiveRecordsPerBrowser" for ws
    using counts(2) [of ws] caps(1) d(5) [of ws] by (simp add: cs countForBrowser_def split: if_splits)
  moreover have "replay_ok (chat_rec (created cx t s) j)" if "j < Suc (heap_size s)" for j
    using that d(6) [of j] rec(3) [of j] by (cases "j = heap_size s") (simp_all add: rec(4) new_record_replay)
  moreover have "rcRunId (chat_rec (created cx t s) j) = []" if "j \<in> set (csSends s)" for j
    using d(9,10) [OF that] rec(3) by simp
  moreover have "rcRunId (chat_rec (created cx t s) (heap_size s)) = []" by (simp add: rec(4) new_record_def)
  moreover have "reg_ok (csReg (created cx t s))" using reg by (simp add: cs reg_ok_put)
  moreover have "csSends (created cx t s) = csSends s @ [heap_size s]"
    "csAborts (created cx t s) = csAborts s" "csPolicy (created cx t s) = csPolicy s"
    by (simp_all add: created_def)
  ultimately show ?thesis
    unfolding chat_ok_def rec(1,2) using d sends i by (auto intro: less_SucI)
qed

section \<open>Every step\<close>

locale claim_relation = chat_relation +
  assumes R_claim: "chat_ok s \<Longrightarrow> claimSend now k m mid retry (csStore s) = (c, st') \<Longrightarrow>
      R s [] (s\<lparr>csStore := st'\<rparr>)"
    and R_create: "chat_ok s \<Longrightarrow> R s [RpcSend (tkSession t) (tkContent t) (tkClient t)] (created cx t s)"
begin

lemma at_start_send:
  assumes ok: "chat_ok s" and v: "valid_session (tkSession t)"
    and free: "getActiveForSession (tkSession t) (csReg s) = None"
    and caps: "countForBrowser (tkWs t) (csReg s) < kMaxLiveRecordsPerBrowser" "stats_live (csReg s) < kMaxLiveRecordsGlobal"
  shows "act_at (start_send cx t) s"
proof -
  have "R s (sendJson cx (tkWs t) (FAck (tkClient t) (tkSession t)) @ [RpcSend (tkSession t) (tkContent t) (tkClient t)])
      (created cx t s)"
    by (rule R_trans [OF R_emit R_create [OF ok]]) simp
  then show ?thesis
    using created_ok [OF assms] by (simp add: act_at_def start_send_split created_records(1))
qed

lemma at_claim:
  assumes ok: "chat_ok s" and v: "valid_session (tkSession t)"
    and free: "getActiveForSession (tkSession t) (csReg s) = None"
    and caps: "countForBrowser (tkWs t) (csReg s) < kMaxLiveRecordsPerBrowser" "stats_live (csReg s) < kMaxLiveRecordsGlobal"
  shows "act_at (claim_and_send cx t) s"
proof -
  have fail: "act_at (failAdmission cx t code ns) s" for code ns
    by (rule act_okD [OF ok_failAdmission ok, of "{}"]) simp
  obtain c st' where claim: "claimSend (cxNow cx) (tkSession t) (tkClient t) (tkMessageId t) (tkRetry t) (csStore s) = (c, st')"
    by (cases "claimSend (cxNow cx) (tkSession t) (tkClient t) (tkMessageId t) (tkRetry t) (csStore s)")
  let ?s = "s\<lparr>csStore := st'\<rparr>"
  have ok': "chat_ok ?s" by (rule chat_ok_store [OF ok claimSend_ok [OF chat_okD(2) [OF ok] claim]])
  have store: "act_at (on_store (\<lambda>_. st')) s"
    using ok' R_claim [OF ok claim] by (simp add: act_at_def on_store_def modify_def heap_size_def)
  have "act_at (case c of Claimed \<Rightarrow> start_send cx t
          | ClaimTooMany \<Rightarrow> failAdmission cx t ''too_many_pending'' True
          | AlreadyThere m \<Rightarrow> replayOrUnknown cx t (Some m)
          | ClaimUnknownOutcome \<Rightarrow> replayOrUnknown cx t None) ?s"
    using at_start_send [OF ok' v] free caps act_okD [OF ok_failAdmission ok', of "{}"]
      act_okD [OF ok_replayOrUnknown ok', of "{}"]
    by (cases c) simp_all
  then have "act_at (then_act (on_store (\<lambda>_. st')) (case c of Claimed \<Rightarrow> start_send cx t
          | ClaimTooMany \<Rightarrow> failAdmission cx t ''too_many_pending'' True
          | AlreadyThere m \<Rightarrow> replayOrUnknown cx t (Some m)
          | ClaimUnknownOutcome \<Rightarrow> replayOrUnknown cx t None)) s"
    by (intro at_then [OF store]) (simp add: on_store_def modify_def)
  then show ?thesis
    using fail by (simp add: claim_and_send_def act_at_def ask_def claim)
qed

lemma at_admitted: "chat_ok s \<Longrightarrow> valid_session (tkSession t) \<Longrightarrow> act_at (admit cx t) s"
  by (rule at_admit) (auto intro: at_claim)

lemma ok_message: "act_ok V (handleMessage cx ws p)"
  unfolding handleMessage_def
proof (rule ok_ask)
  fix s assume ok: "chat_ok s"
  have queue: "act_at (modify (\<lambda>st. st\<lparr>csPolicy := csPolicy st @ [t]\<rparr>)) s" if "valid_session (tkSession t)" for t
    by (rule at_modify) (use that chat_okD(7) [OF ok] in \<open>auto simp: chat_ok_misc intro!: chat_ok_tasks ok\<close>)
  have emits: "act_at (emit os) s" if "list_all harmless os" for os
    by (rule act_okD [OF ok_emit [OF that] ok, of "{}"]) simp
  show "act_at (case validateMessageFrame p of
       Some (code, message) \<Rightarrow> emit (sendSendFailure cx ws (no_client (mpClient p)) (id_text (mpClient p))
         (js_trim (mpSession p)) (cxMessageId cx) code False True message)
     | None \<Rightarrow>
         (let t = message_task cx ws p in
          if previouslySubmitted cx (tkSession t) (tkClient t) s then admit cx t
          else modify (\<lambda>st. st\<lparr>csPolicy := csPolicy st @ [t]\<rparr>))) s"
    using emits queue at_admitted [OF ok] validated_session [of p cx ws] by (simp add: Let_def split: option.splits)
qed

lemma at_policy: "chat_ok s \<Longrightarrow> valid_session (tkSession t) \<Longrightarrow> act_at (policy_answered cx t answer) s"
  by (cases answer) (auto simp: policy_answered_def at_admitted intro!: act_okD [OF ok_emit, of _ s "{}"])

lemma set_remove_at: "set (remove_at n xs) \<subseteq> set xs"
  by (auto simp: remove_at_def dest: in_set_takeD in_set_dropD)

lemma at_policy_step:
  assumes ok: "chat_ok s"
  shows "act_at (chat_step cx (EvPolicy n answer)) s"
proof (cases "n < length (csPolicy s)")
  case True
  let ?f = "\<lambda>st. st\<lparr>csPolicy := remove_at n (csPolicy st)\<rparr>"
  have "valid_session (tkSession (csPolicy s ! n))" using chat_okD(7) [OF ok] True by simp
  moreover have ok': "chat_ok (?f s)"
    using set_remove_at [of n "csPolicy s"] chat_okD(7) [OF ok] by (intro chat_ok_tasks ok) auto
  ultimately have "act_at (policy_answered cx (csPolicy s ! n) answer) (?f s)" by (intro at_policy)
  then have "act_at (then_act (modify ?f) (policy_answered cx (csPolicy s ! n) answer)) s"
    by (intro at_then at_modify ok') (simp_all add: chat_ok_misc modify_def)
  then show ?thesis using True by (simp add: chat_step_def act_at_def ask_def)
next
  case False
  then show ?thesis
    using act_okD [OF ok_skip ok, of "{}"] by (simp add: chat_step_def act_at_def ask_def)
qed

end

locale reject_relation = chat_relation +
  assumes R_final_any: "chat_ok s \<Longrightarrow> i < heap_size s \<Longrightarrow> \<not> rcFinalized (chat_rec s i) \<Longrightarrow>
      st' = csStore s \<or> st' = markTerminal now (rcSession (chat_rec s i)) (rcMsg (chat_rec s i))
        (fin_outcome (chat_rec s i) a) (csStore s) \<Longrightarrow>
      R s [LogTerminal i (fin_status a)] (s\<lparr>csReg := snd (finalize i (csReg s)), csStore := st'\<rparr>)"
begin

lemma ok_finalize_any: "i \<in> V \<Longrightarrow> act_ok V (finalizeAndEmit cx i a)"
proof (rule act_okI)
  fix s assume V: "i \<in> V" "refs_in V s" and ok: "chat_ok s"
  then have i: "i < heap_size s" by (simp add: refs_in_def)
  show "act_at (finalizeAndEmit cx i a) s"
  proof (rule at_finalize_core [OF ok i])
    assume live: "\<not> rcFinalized (chat_rec s i)"
    show "R s (fst (fin_core cx i a s)) (snd (fin_core cx i a s))"
      unfolding fin_core_def fst_conv snd_conv by (rule R_final_any [OF ok i live, where now = "cxNow cx"]) auto
  qed
qed

lemma ok_rejected: "i \<in> V \<Longrightarrow> act_ok V (send_rejected cx i err)"
  unfolding send_rejected_def
  by (rule ok_ask, rule act_okD [of V]) (auto simp: Let_def intro!: ok_skip ok_finalize_any)

end

context chat_relation begin

lemma at_guarded: "(b s \<Longrightarrow> act_at (f s) s) \<Longrightarrow> chat_ok s \<Longrightarrow> act_at (ask (\<lambda>st. if b st then f st else skip)) s"
  using act_okD [OF ok_skip, of s "{}"] by (simp add: act_at_def ask_def)

lemma at_answered:
  assumes ok: "chat_ok s" and q: "quiet s (f s)" "chat_ok (f s)" and a: "act_at a (f s)"
  shows "act_at (then_act (modify f) a) s"
  by (rule at_then) (use at_modify q a in \<open>simp_all add: modify_def\<close>)

end

lemma answered_sends:
  assumes ok: "chat_ok s" and i: "i \<in> set (csSends s)"
  shows "chat_ok (s\<lparr>csSends := remove1 i (csSends s)\<rparr>)" and "i < heap_size s" and "rcRunId (chat_rec s i) = []"
    and "i \<notin> set (csSends (s\<lparr>csSends := remove1 i (csSends s)\<rparr>))"
proof -
  have "distinct (csSends s)" by (rule chat_okD(8) [OF ok])
  then show "i \<notin> set (csSends (s\<lparr>csSends := remove1 i (csSends s)\<rparr>))" by simp
qed (use chat_ok_tasks(2) [OF ok] chat_okD(9,10) [OF ok i] in simp_all)

lemma heap_size_tasks [simp]:
  "heap_size (s\<lparr>csSends := l\<rparr>) = heap_size s" "heap_size (s\<lparr>csAborts := l\<rparr>) = heap_size s"
  "chat_rec (s\<lparr>csSends := l\<rparr>) i = chat_rec s i"
  by (simp_all add: heap_size_def chat_rec_def)

context chat_relation begin

lemma at_resolved_step: "chat_ok s \<Longrightarrow> act_at (chat_step cx (EvResolved i result)) s"
  unfolding chat_step_def chat_event.case
proof (rule at_guarded)
  assume ok: "chat_ok s" and i: "i \<in> set (csSends s)"
  note ans = answered_sends [OF ok i]
  show "act_at (then_act (modify (\<lambda>st. st\<lparr>csSends := remove1 i (csSends st)\<rparr>)) (send_resolved cx i result)) s"
  proof (rule at_answered [OF ok])
    show "act_at (send_resolved cx i result) (s\<lparr>csSends := remove1 i (csSends s)\<rparr>)"
      by (rule at_resolved [OF ans(1) _ _ ans(4)]) (use ans in simp_all)
  qed (use ans in \<open>simp_all add: chat_ok_misc\<close>)
qed

lemma at_abort_steps:
  assumes ok: "chat_ok s"
  shows "act_at (chat_step cx (EvAbortFailed i code)) s" and "act_at (chat_step cx (EvAbortDone i)) s"
proof -
  have "chat_ok (s\<lparr>csAborts := remove1 i (csAborts s)\<rparr>)"
    using chat_okD(11) [OF ok] by (intro chat_ok_tasks ok) (auto dest: notin_set_remove1 set_remove1_subset [THEN subsetD])
  then have answer: "act_at (then_act (modify (\<lambda>st. st\<lparr>csAborts := remove1 i (csAborts st)\<rparr>)) a) s" if "act_ok {} a" for a
    using that by (intro at_answered ok) (auto simp: chat_ok_misc intro: act_okD)
  show "act_at (chat_step cx (EvAbortFailed i code)) s"
    unfolding chat_step_def chat_event.case by (rule at_guarded [OF answer ok]) (rule ok_abort_failed)
  show "act_at (chat_step cx (EvAbortDone i)) s"
    unfolding chat_step_def chat_event.case by (rule at_guarded [OF answer ok]) (rule ok_abort_done)
qed

lemma at_base_step:
  assumes ok: "chat_ok s"
    and e: "case e of EvMessage ws p \<Rightarrow> False | EvPolicy n a \<Rightarrow> False | EvRejected i err \<Rightarrow> False
      | EvRestart \<Rightarrow> False | _ \<Rightarrow> True"
  shows "act_at (chat_step cx e) s"
proof (cases e)
  case (EvWritten i)
  show ?thesis unfolding EvWritten chat_step_def chat_event.case
    by (rule at_guarded [OF _ ok], rule act_okD [OF ok_put ok, of _ "{}"]) (auto simp: replay_ok_def)
next
  case (EvSessionAbort n failed)
  show ?thesis unfolding EvSessionAbort chat_step_def chat_event.case
    by (rule at_guarded [OF _ ok], rule at_answered [OF ok])
      (auto simp: chat_ok_misc ok intro!: act_okD [OF ok_session_abort, of _ "{}"])
next
  case (EvStopTimer i)
  show ?thesis unfolding EvStopTimer chat_step_def chat_event.case
    by (rule at_guarded [OF _ ok], rule act_okD [OF ok_stop_timer [of i "{i}"] ok]) (simp_all add: heap_size_def)
next
  case (EvGrace i)
  show ?thesis unfolding EvGrace chat_step_def chat_event.case
    by (rule at_guarded [OF _ ok], rule act_okD [OF ok_grace ok, of "{}"]) simp
qed (use e at_resolved_step [OF ok] at_abort_steps [OF ok] in \<open>auto simp: chat_step_def chat_event.case
      intro!: act_okD [OF _ ok, of "{}"] ok_stop ok_gateway ok_disconnect ok_sweep ok_resume ok_close\<close>)

end

context reject_relation begin

lemma at_rejected_step: "chat_ok s \<Longrightarrow> act_at (chat_step cx (EvRejected i err)) s"
  unfolding chat_step_def chat_event.case
proof (rule at_guarded)
  assume ok: "chat_ok s" and i: "i \<in> set (csSends s)"
  show "act_at (then_act (modify (\<lambda>st. st\<lparr>csSends := remove1 i (csSends st)\<rparr>)) (send_rejected cx i err)) s"
  proof (rule at_answered [OF ok])
    show "act_at (send_rejected cx i err) (s\<lparr>csSends := remove1 i (csSends s)\<rparr>)"
      by (rule act_okD [OF ok_rejected [of i "{i}"]]) (use answered_sends [OF ok i] in simp_all)
  qed (use answered_sends [OF ok i] in \<open>simp_all add: chat_ok_misc\<close>)
qed

end

text \<open>The invariant itself is such a relation's shadow.\<close>

interpretation any: chat_relation "\<lambda>s os t. True" by unfold_locales simp_all
interpretation any_claim: claim_relation "\<lambda>s os t. True" by unfold_locales simp_all
interpretation any_reject: reject_relation "\<lambda>s os t. True" by unfold_locales simp_all

lemma chat_init_ok:
  assumes "table_wf rows n"
  shows "chat_ok (chat_init now rows n)"
  using init_ok [OF assms, of now] createRunRegistry_ok(1)
  by (simp add: chat_ok_def chat_init_def heap_size_def)
    (simp add: createRunRegistry_def stats_live_def countForBrowser_def originated_def buffers_ok_def)

lemma restart_init: "snd (chat_step cx EvRestart s) = chat_init (cxNow cx) (rsRows (csStore s)) (rsNextId (csStore s))"
  by (simp add: chat_step_def modify_def chat_init_def)

lemma chat_step_ok: "chat_ok s \<Longrightarrow> chat_ok (snd (chat_step cx e s))"
proof -
  assume ok: "chat_ok s"
  show ?thesis
  proof (cases e)
    case (EvMessage ws p)
    then show ?thesis using any.act_okD [OF any_claim.ok_message ok, of "{}" cx ws p]
      by (simp add: chat_step_def any.act_at_def)
  next
    case (EvPolicy n a)
    then show ?thesis using any_claim.at_policy_step [OF ok, of cx n a] by (simp add: any.act_at_def)
  next
    case (EvRejected i err)
    then show ?thesis using any_reject.at_rejected_step [OF ok, of cx i err] by (simp add: any.act_at_def)
  next
    case EvRestart
    then show ?thesis using chat_okD(2) [OF ok] chat_init_ok by (simp add: restart_init runs_ok_def)
  qed (use any.at_base_step [OF ok, of e cx] in \<open>simp_all add: any.act_at_def\<close>)
qed

lemma chat_trace_ok: "chat_ok st \<Longrightarrow> (s, e, os) \<in> set (chat_trace st es) \<Longrightarrow> chat_ok s"
proof (induction st es rule: chat_trace.induct)
  case (2 st cx e es)
  obtain os' st' where step: "chat_step cx e st = (os', st')" by (cases "chat_step cx e st")
  then have "chat_ok st'" using chat_step_ok [OF 2(2), of cx e] by simp
  then show ?case using 2 step by auto
qed simp

section \<open>One terminal per run\<close>

definition is_finished :: "chat_state \<Rightarrow> nat \<Rightarrow> bool" where
  "is_finished st i \<longleftrightarrow> i < heap_size st \<and> rcFinalized (chat_rec st i)"

fun terminals :: "chat_out list \<Rightarrow> nat list" where
  "terminals [] = []"
| "terminals (LogTerminal i st # os) = i # terminals os"
| "terminals (_ # os) = terminals os"

lemma terminals_append [simp]: "terminals (xs @ ys) = terminals xs @ terminals ys"
  by (induction xs rule: terminals.induct) auto

lemma terminals_harmless: "list_all harmless os \<Longrightarrow> terminals os = []"
  by (induction os rule: terminals.induct) auto

definition terminal_once :: "chat_state \<Rightarrow> chat_out list \<Rightarrow> chat_state \<Rightarrow> bool" where
  "terminal_once s os t \<longleftrightarrow>
     (\<forall>i. count_list (terminals os) i + of_bool (is_finished s i) = (of_bool (is_finished t i) :: nat))"

lemma terminal_final:
  assumes ok: "chat_ok s" and i: "i < heap_size s" and live: "\<not> rcFinalized (chat_rec s i)"
  shows "terminal_once s [LogTerminal i st] (s\<lparr>csReg := snd (finalize i (csReg s)), csStore := st'\<rparr>)"
proof -
  have lv: "rec_live (csReg s) i" using i live by (simp add: rec_live_def heap_size_def chat_rec_def)
  note fin = finalize_first [OF lv surjective_pairing]
  have "is_finished (s\<lparr>csReg := snd (finalize i (csReg s)), csStore := st'\<rparr>) j \<longleftrightarrow> j = i \<or> is_finished s j" for j
    using i fin(3) fin(4) [of j] fin(5) by (cases "j = i") (simp_all add: is_finished_def heap_size_def chat_rec_def)
  then show ?thesis using live by (auto simp: terminal_once_def is_finished_def)
qed

lemma terminal_created: "terminal_once s [RpcSend a b c] (created cx t s)"
proof -
  note rec = created_records [where cx = cx and t = t and s = s]
  have "is_finished (created cx t s) i = is_finished s i" for i
    using rec(3) [of i] rec(4) by (cases "i = heap_size s") (auto simp: is_finished_def rec(1) new_record_def less_Suc_eq)
  then show ?thesis by (simp add: terminal_once_def)
qed

lemma terminal_same: "csReg t = csReg s \<Longrightarrow> terminal_once s [] t"
  by (simp add: terminal_once_def is_finished_def heap_size_def chat_rec_def)

interpretation once: chat_relation terminal_once
proof
  fix s os t os' u assume a: "terminal_once s os t" "terminal_once t os' u"
  have "count_list (terminals (os @ os')) i + of_bool (is_finished s i) = (of_bool (is_finished u i) :: nat)" for i
    using a [unfolded terminal_once_def, THEN spec, of i] by simp
  then show "terminal_once s (os @ os') u" by (simp add: terminal_once_def)
next
  fix os s assume "list_all harmless os"
  then show "terminal_once s os s" by (simp add: terminal_once_def terminals_harmless)
next
  fix s t assume "quiet s t"
  then have "is_finished t i = is_finished s i" for i by (auto simp: quiet_def is_finished_def)
  then show "terminal_once s [] t" by (simp add: terminal_once_def)
qed (auto intro: terminal_final terminal_same)

interpretation once_claim: claim_relation terminal_once
  by unfold_locales (auto intro: terminal_created terminal_same)

interpretation once_reject: reject_relation terminal_once
  by unfold_locales (rule terminal_final)

lemma step_terminal_once:
  assumes ok: "chat_ok s" and e: "e \<noteq> EvRestart"
  shows "terminal_once s (fst (chat_step cx e s)) (snd (chat_step cx e s))"
proof (cases e)
  case (EvMessage ws p)
  then show ?thesis using once.act_okD [OF once_claim.ok_message ok, of "{}" cx ws p]
    by (simp add: chat_step_def once.act_at_def)
next
  case (EvPolicy n a)
  then show ?thesis using once_claim.at_policy_step [OF ok, of cx n a] by (simp add: once.act_at_def)
next
  case (EvRejected i err)
  then show ?thesis using once_reject.at_rejected_step [OF ok, of cx i err] by (simp add: once.act_at_def)
qed (use e once.at_base_step [OF ok, of e cx] in \<open>simp_all add: once.act_at_def\<close>)

fun chat_run :: "chat_state \<Rightarrow> (chat_ctx \<times> chat_event) list \<Rightarrow> chat_out list \<times> chat_state" where
  "chat_run st [] = ([], st)"
| "chat_run st ((cx, e) # es) =
     (case chat_step cx e st of (os, st') \<Rightarrow> (case chat_run st' es of (os', st'') \<Rightarrow> (os @ os', st'')))"

lemma chat_run_ok: "chat_ok st \<Longrightarrow> chat_ok (snd (chat_run st es))"
proof (induction st es rule: chat_run.induct)
  case (2 st cx e es)
  obtain os st' where step: "chat_step cx e st = (os, st')" by (cases "chat_step cx e st")
  then have "chat_ok st'" using chat_step_ok [OF 2(2), of cx e] by simp
  then show ?case using 2(1) step by (simp split: prod.splits) (metis snd_conv)
qed simp

lemma run_terminal_once:
  "chat_ok st \<Longrightarrow> list_all (\<lambda>(cx, e). e \<noteq> EvRestart) es \<Longrightarrow>
     terminal_once st (fst (chat_run st es)) (snd (chat_run st es))"
proof (induction st es rule: chat_run.induct)
  case (1 st)
  then show ?case by (simp add: terminal_same)
next
  case (2 st cx e es)
  obtain os st' where step: "chat_step cx e st = (os, st')" by (cases "chat_step cx e st")
  have ok': "chat_ok st'" using chat_step_ok [OF 2(2), of cx e] step by simp
  have head: "terminal_once st os st'" using step_terminal_once [OF 2(2), of e cx] 2(3) step by simp
  have tail: "terminal_once st' (fst (chat_run st' es)) (snd (chat_run st' es))"
    using 2(1) [OF step [symmetric] ok'] 2(3) by simp
  show ?case using once.R_trans [OF head tail] step by (simp add: split_beta)
qed

lemma once_finished: "terminal_once s os t \<Longrightarrow> is_finished s i \<Longrightarrow> is_finished t i"
proof (rule ccontr)
  assume "terminal_once s os t" and i: "is_finished s i" "\<not> is_finished t i"
  then have "count_list (terminals os) i + of_bool (is_finished s i) = (of_bool (is_finished t i) :: nat)"
    unfolding terminal_once_def by blast
  then show False using i by simp
qed

lemma run_keeps_finished:
  "chat_ok st \<Longrightarrow> list_all (\<lambda>(cx, e). e \<noteq> EvRestart) es \<Longrightarrow> is_finished st i \<Longrightarrow> is_finished (snd (chat_run st es)) i"
  using once_finished run_terminal_once by blast

lemma chat_run_append: "chat_run st (es @ es') =
    (case chat_run st es of (os, st1) \<Rightarrow> case chat_run st1 es' of (os', st2) \<Rightarrow> (os @ os', st2))"
  by (induction st es rule: chat_run.induct) (simp_all split: prod.splits)

section \<open>A stop that gave up\<close>

lemma timer_settles:
  assumes ok: "chat_ok st" and i: "i < heap_size st" and timer: "rcStopTimer (chat_rec st i)"
  shows "is_finished (snd (chat_step cx (EvStopTimer i) st)) i"
proof -
  have step: "terminal_once st (fst (chat_step cx (EvStopTimer i) st)) (snd (chat_step cx (EvStopTimer i) st))"
    by (rule step_terminal_once [OF ok]) simp
  then have once: "count_list (terminals (fst (chat_step cx (EvStopTimer i) st))) i + of_bool (is_finished st i)
      = (of_bool (is_finished (snd (chat_step cx (EvStopTimer i) st)) i) :: nat)"
    unfolding terminal_once_def by blast
  show ?thesis
  proof (cases "is_finished st i")
    case True
    then show ?thesis by (rule once_finished [OF step])
  next
    case False
    let ?a = "(fin_default Stopped ''unconfirmed'')\<lparr>faStopConfirmed := Some 0\<rparr>"
    define s1 where "s1 = st\<lparr>csReg := put_record i (\<lambda>r. r\<lparr>rcStopTimer := False\<rparr>) (csReg st)\<rparr>"
    have live: "\<not> rcFinalized (chat_rec s1 i)"
      using False i by (simp add: s1_def is_finished_def chat_rec_def the_record_def put_record_def heap_size_def)
    have "chat_step cx (EvStopTimer i) st = finalizeAndEmit cx i ?a s1"
      using i timer by (simp add: chat_step_def ask_def stop_timer_fires_def then_act_def on_reg_def modify_def s1_def heap_size_def)
    then have "i \<in> set (terminals (fst (chat_step cx (EvStopTimer i) st)))"
      using live by (simp add: finalizeAndEmit_split then_act_def fin_core_def split: prod.split)
    then show ?thesis using once by (metis add_is_0 count_list_0_iff of_bool_eq_0_iff)
  qed
qed

lemma late_answer:
  assumes "i \<in> set (csSends st)" and "rcFinalized (chat_rec st i)" and "js_trim runId \<noteq> []"
  shows "chat_step cx (EvResolved i runId) st = ([RpcAbort (rcSession (chat_rec st i))], st\<lparr>csSends := remove1 i (csSends st)\<rparr>)"
  using assms by (simp add: chat_step_def ask_def then_act_def modify_def send_resolved_def emit_def chat_rec_def Let_def)

section \<open>No second send without a proof\<close>

text \<open>The row of a message, where there is one, does not say it was not submitted.\<close>

definition unproven :: "string \<Rightarrow> string \<Rightarrow> chat_state \<Rightarrow> bool" where
  "unproven k m st \<longleftrightarrow>
     (case find_row k m (rsRows (csStore st)) of None \<Rightarrow> True | Some r \<Rightarrow> crSubmission r \<noteq> SubNotSubmitted)"

definition stays_unproven :: "string \<Rightarrow> string \<Rightarrow> chat_state \<Rightarrow> chat_out list \<Rightarrow> chat_state \<Rightarrow> bool" where
  "stays_unproven k m s os t \<longleftrightarrow> unproven k m s \<longrightarrow> unproven k m t"

lemma unproven_same: "csStore t = csStore s \<Longrightarrow> unproven k m t = unproven k m s"
  by (simp add: unproven_def)

lemma unproven_update:
  assumes "unproven k m s" and "\<And>r. row_key (f r) = row_key r"
    and "\<And>r. p r \<Longrightarrow> row_key r = (k, m) \<Longrightarrow> crSubmission r \<noteq> SubNotSubmitted \<Longrightarrow> crSubmission (f r) \<noteq> SubNotSubmitted"
  shows "unproven k m (s\<lparr>csStore := st\<lparr>rsRows := sql_update p f (rsRows (csStore s))\<rparr>\<rparr>)"
  using assms(1) find_row_Some [of k m "rsRows (csStore s)"] assms(3)
  by (auto simp: unproven_def find_row_update assms(2) split: option.splits)

lemma unproven_mark:
  assumes "st' = markRunning now s' m' r (csStore s) \<or> st' = markStopRequested now s' m' (csStore s)"
  shows "stays_unproven k m s [] (s\<lparr>csStore := st'\<rparr>)"
  unfolding stays_unproven_def
proof
  assume "unproven k m s"
  then show "unproven k m (s\<lparr>csStore := st'\<rparr>)"
    using assms by (auto simp: markRunning_def markStopRequested_def intro!: unproven_update)
qed

lemma unproven_terminal:
  assumes "\<not> ocNotSubmitted oc \<or> (k', m') \<noteq> (k, m)" and "unproven k m s"
  shows "unproven k m (s\<lparr>csStore := markTerminal now k' m' oc (csStore s)\<rparr>)"
  unfolding markTerminal_def
  by (rule unproven_update [OF assms(2)]) (use assms(1) in \<open>auto simp: set_outcome_def row_key_def\<close>)

lemma unproven_claim:
  assumes ok: "chat_ok s" and c: "claimSend now k' m' mid retry (csStore s) = (c, st')" and u: "unproven k m s"
  shows "unproven k m (s\<lparr>csStore := st'\<rparr>)"
proof (cases "(k, m) = (k', m')")
  case False
  show ?thesis
    using claim_other [OF chat_okD(2) [OF ok] c False] u by (auto simp: unproven_def split: option.splits)
next
  case True
  show ?thesis
  proof (cases "c = Claimed")
    case claimed: True
    obtain r where "find_row k' m' (rsRows st') = Some r" "crSubmission r = SubPossibly"
      using claimed_row [OF c [unfolded claimed]] by blast
    then show ?thesis using True by (simp add: unproven_def)
  next
    case False
    from c have "rsRows st' = rsRows (csStore s)"
    proof (cases rule: claimSend_cases)
      case new
      from new(3) show ?thesis by (cases rule: claim_new_cases) (use False in simp_all)
    qed (use False in simp_all)
    then show ?thesis using u by (simp add: unproven_def)
  qed
qed

lemma unproven_final:
  assumes "\<not> ocNotSubmitted oc \<or> (k', m') \<noteq> (k, m)" and "st' = csStore s \<or> st' = markTerminal now k' m' oc (csStore s)"
  shows "stays_unproven k m s os (s\<lparr>csStore := st'\<rparr>)"
  using assms(2)
proof
  assume "st' = csStore s"
  then show ?thesis by (simp add: stays_unproven_def unproven_def)
next
  assume "st' = markTerminal now k' m' oc (csStore s)"
  then show ?thesis unfolding stays_unproven_def using unproven_terminal [OF assms(1)] by blast
qed

lemma unproven_outcome: "stays_unproven k m s os
    (s\<lparr>csReg := r, csStore := st'\<rparr>) = stays_unproven k m s os (s\<lparr>csStore := st'\<rparr>)"
  by (simp add: stays_unproven_def unproven_def)

interpretation row: claim_relation "stays_unproven k m" for k m
proof
  fix s i a st' now
  assume a: "\<not> faNotSubmitted a" and st': "st' = csStore s \<or> st' = markTerminal now (rcSession (chat_rec s i))
      (rcMsg (chat_rec s i)) (fin_outcome (chat_rec s i) a) (csStore s)"
  show "stays_unproven k m s [LogTerminal i (fin_status a)] (s\<lparr>csReg := snd (finalize i (csReg s)), csStore := st'\<rparr>)"
    unfolding unproven_outcome by (rule unproven_final) (use a st' in \<open>auto simp: fin_outcome_def\<close>)
next
  fix s now k' m' mid retry c st'
  assume "chat_ok s" and "claimSend now k' m' mid retry (csStore s) = (c, st')"
  then show "stays_unproven k m s [] (s\<lparr>csStore := st'\<rparr>)" using unproven_claim by (simp add: stays_unproven_def)
next
  fix s :: chat_state and st' now session msg runId
  assume "st' = markRunning now session msg runId (csStore s) \<or> st' = markStopRequested now session msg (csStore s)"
  then show "stays_unproven k m s [] (s\<lparr>csStore := st'\<rparr>)" by (rule unproven_mark)
next
  fix s t assume "quiet s t"
  then have "csStore t = csStore s" by (simp add: quiet_def)
  from unproven_same [OF this] show "stays_unproven k m s [] t" by (simp add: stays_unproven_def)
next
  fix s :: chat_state and t cx
  show "stays_unproven k m s [RpcSend (tkSession t) (tkContent t) (tkClient t)] (created cx t s)"
    by (simp add: stays_unproven_def unproven_same [OF created_records(2)])
qed (simp_all add: stays_unproven_def)

text \<open>The event that proves a message was not submitted: its \<open>chat.send\<close> is rejected before the frame
  was written, or by an answer of the gateway.\<close>

definition proves_unsent :: "string \<Rightarrow> string \<Rightarrow> chat_state \<Rightarrow> chat_event \<Rightarrow> bool" where
  "proves_unsent k m s e =
     (case e of
        EvRejected i err \<Rightarrow> i \<in> set (csSends s) \<and> \<not> rcFinalized (chat_rec s i)
          \<and> rcSession (chat_rec s i) = k \<and> rcMsg (chat_rec s i) = m
          \<and> (\<not> rcWritten (chat_rec s i) \<or> erResponded err)
      | _ \<Rightarrow> False)"

lemma rejected_unproven:
  assumes ok: "chat_ok s" and i: "i < heap_size s"
    and np: "\<not> (\<not> rcFinalized (chat_rec s i) \<and> rcSession (chat_rec s i) = k \<and> rcMsg (chat_rec s i) = m
      \<and> (\<not> rcWritten (chat_rec s i) \<or> erResponded err))"
  shows "row.act_at k m (send_rejected cx i err) s"
proof -
  let ?r = "chat_rec s i"
  have skip: "row.act_at k m skip s" by (rule row.act_okD [OF row.ok_skip ok, of "{}"]) simp
  have unknown: "row.act_at k m (finalizeAndEmit cx i ((fin_default Failed ''unconfirmed'')\<lparr>faStoreStatus := Some RunUnknown,
         faErrorCode := ''unknown_outcome'', faDetail := kUnknownOutcomeMessage\<rparr>)) s"
    by (rule row.at_finalize [OF ok i]) (simp add: fin_default_def)
  have other: "row.act_at k m (finalizeAndEmit cx i a) s" if "(rcSession ?r, rcMsg ?r) \<noteq> (k, m)" for a
  proof (rule row.at_finalize_core [OF ok i])
    show "stays_unproven k m s (fst (fin_core cx i a s)) (snd (fin_core cx i a s))"
      unfolding fin_core_def fst_conv snd_conv unproven_outcome
      by (rule unproven_final [where k' = "rcSession ?r" and m' = "rcMsg ?r" and now = "cxNow cx"
            and oc = "fin_outcome ?r a"]) (use that in auto)
  qed
  have "row.act_at k m (let r = ?r in
     if rcFinalized r then skip
     else if rcWritten r \<and> \<not> erResponded err then
       finalizeAndEmit cx i ((fin_default Failed ''unconfirmed'')\<lparr>faStoreStatus := Some RunUnknown,
         faErrorCode := ''unknown_outcome'', faDetail := kUnknownOutcomeMessage\<rparr>)
     else finalizeAndEmit cx i ((fin_default Failed ''confirmed'')\<lparr>faErrorCode := erCode err,
         faDetail := take kMaxStoredErrorLength (erMessage err), faRetryable := erRetryable err,
         faNotSubmitted := True\<rparr>)) s"
    using skip unknown other np unfolding Let_def by (auto split: if_split)
  then show ?thesis unfolding send_rejected_def by (simp add: row.act_at_def ask_def)
qed

lemma step_unproven:
  assumes ok: "chat_ok s" and np: "\<not> proves_unsent k m s e" and u: "unproven k m s"
  shows "unproven k m (snd (chat_step cx e s))"
proof (cases e)
  case (EvMessage ws p)
  then show ?thesis using row.act_okD [OF row.ok_message ok, of "{}" k m cx ws p] u
    by (simp add: chat_step_def row.act_at_def stays_unproven_def)
next
  case (EvPolicy n a)
  then show ?thesis using row.at_policy_step [OF ok, of k m cx n a] u by (simp add: row.act_at_def stays_unproven_def)
next
  case (EvRejected i err)
  show ?thesis
  proof (cases "i \<in> set (csSends s)")
    case True
    note ans = answered_sends [OF ok True]
    let ?s = "s\<lparr>csSends := remove1 i (csSends s)\<rparr>"
    have "row.act_at k m (send_rejected cx i err) ?s"
      by (rule rejected_unproven [OF ans(1)]) (use ans(2) np True EvRejected in \<open>auto simp: proves_unsent_def\<close>)
    then show ?thesis using u True EvRejected
      by (simp add: chat_step_def ask_def then_act_def modify_def row.act_at_def stays_unproven_def unproven_same [of ?s s]
          split: prod.splits)
  qed (use u EvRejected in \<open>simp add: chat_step_def ask_def skip_def emit_def\<close>)
next
  case EvRestart
  have wf: "table_wf (rsRows (csStore s)) (rsNextId (csStore s))" using chat_okD(2) [OF ok] by (simp add: runs_ok_def)
  have "crSubmission q \<noteq> SubNotSubmitted"
    if "find_row k m (pruneChatRuns now (reconcileInterruptedRuns now (rsRows (csStore s)))) = Some q" for q now
    using find_row_subseq_Some [OF reconcile_wf [OF wf] prune_subseq that] u
    by (auto simp: reconcile_find unproven_def split: if_splits)
  then show ?thesis using EvRestart
    by (simp add: restart_init chat_init_def unproven_def initChatRunsDb_def split: option.splits)
qed (use row.at_base_step [OF ok, of e k m cx] u in \<open>simp_all add: row.act_at_def stays_unproven_def\<close>)

definition sends :: "string \<Rightarrow> string \<Rightarrow> chat_out list \<Rightarrow> bool" where
  "sends k m os \<longleftrightarrow> (\<exists>content. RpcSend k content m \<in> set os)"

definition no_sends :: "chat_state \<Rightarrow> chat_out list \<Rightarrow> chat_state \<Rightarrow> bool" where
  "no_sends s os t \<longleftrightarrow> (\<forall>k m. \<not> sends k m os)"

lemma no_sends_simps [simp]: "\<not> sends k m []" "sends k m (xs @ ys) \<longleftrightarrow> sends k m xs \<or> sends k m ys"
  by (auto simp: sends_def)

lemma harmless_sends: "list_all harmless os \<Longrightarrow> \<not> sends k m os"
  by (auto simp: sends_def list_all_iff harmless_def)

interpretation silent: reject_relation no_sends
  by unfold_locales (simp_all add: no_sends_def harmless_sends, simp_all add: sends_def)

lemma sends_start: "sends k m (fst (start_send cx t s)) \<longleftrightarrow> k = tkSession t \<and> m = tkClient t"
  by (auto simp: start_send_split sends_def sendJson_def)

lemma silent_at: "silent.act_at a s \<Longrightarrow> \<not> sends k m (fst (a s))"
  by (simp add: silent.act_at_def no_sends_def)

lemma claim_and_send_split: "\<not> cxThrows cx CallClaim \<Longrightarrow>
    claimSend (cxNow cx) (tkSession t) (tkClient t) (tkMessageId t) (tkRetry t) (csStore s) = (c, st') \<Longrightarrow>
    claim_and_send cx t s = (case c of Claimed \<Rightarrow> start_send cx t
          | ClaimTooMany \<Rightarrow> failAdmission cx t ''too_many_pending'' True
          | AlreadyThere m \<Rightarrow> replayOrUnknown cx t (Some m)
          | ClaimUnknownOutcome \<Rightarrow> replayOrUnknown cx t None) (s\<lparr>csStore := st'\<rparr>)"
  by (simp add: claim_and_send_def ask_def then_act_def on_store_def modify_def split_beta)

lemma sends_claim:
  assumes ok: "chat_ok s" and sent: "sends k m (fst (claim_and_send cx t s))"
  shows "k = tkSession t" and "m = tkClient t" and "claimable k m (tkRetry t) (csStore s)"
    and "unproven k m (snd (claim_and_send cx t s))"
proof -
  have fail: "\<not> sends k m (fst (failAdmission cx t code ns s'))" for code ns s'
    by (simp add: failAdmission_def emit_def harmless_sends)
  have replay: "\<not> sends k m (fst (replayOrUnknown cx t row s'))" for row s'
    using fail by (auto simp: replayOrUnknown_def emit_def harmless_sends split: option.splits)
  have nt: "\<not> cxThrows cx CallClaim" using sent fail by (auto simp: claim_and_send_def ask_def)
  obtain c st' where claim: "claimSend (cxNow cx) (tkSession t) (tkClient t) (tkMessageId t) (tkRetry t) (csStore s) = (c, st')"
    by (cases "claimSend (cxNow cx) (tkSession t) (tkClient t) (tkMessageId t) (tkRetry t) (csStore s)")
  note split = claim_and_send_split [OF nt claim]
  have c: "c = Claimed" using sent fail replay by (cases c) (auto simp: split)
  then have start: "claim_and_send cx t s = start_send cx t (s\<lparr>csStore := st'\<rparr>)" by (simp add: split)
  then show k: "k = tkSession t" and m: "m = tkClient t" using sent by (simp_all add: sends_start)
  show "claimable k m (tkRetry t) (csStore s)" using claimed_needs claim c k m by simp
  obtain r where "find_row k m (rsRows st') = Some r" "crSubmission r = SubPossibly"
    using claimed_row claim c k m by metis
  then show "unproven k m (snd (claim_and_send cx t s))"
    by (simp add: start start_send_split unproven_def created_records(2))
qed

lemma sends_admit:
  assumes ok: "chat_ok s" and sent: "sends k m (fst (admit cx t s))"
  shows "k = tkSession t \<and> m = tkClient t \<and> claimable k m (tkRetry t) (csStore s) \<and> unproven k m (snd (admit cx t s))"
proof -
  have silent: "\<not> sends k m (fst (a s))" if "silent.act_ok {} a" for a
    by (rule silent_at, rule silent.act_okD [OF that ok]) simp
  note quiet_acts = silent [OF silent.ok_reattach] silent [OF silent.ok_failAdmission] silent [OF silent.ok_replayOrUnknown]
  have new: "admit cx t s = admit_new cx t s"
    using sent quiet_acts by (auto simp: admit_def ask_def split: option.splits if_splits)
  have "silent.act_ok {} (then_act (on_reg (attachSocket j (tkWs t)))
         (emit (task_failure cx t ''session_busy'' True True ''Another message is still running in this session.'')))" for j
    by (intro silent.ok_then silent.ok_attach silent.ok_emit) simp
  note busy = silent [OF this]
  have "silent.act_ok {} (emit (task_failure cx t ''too_many_pending'' True True ''Too many messages are in flight from this window.''))"
    by (intro silent.ok_emit) simp
  note many = silent [OF this]
  have "admit cx t s = claim_and_send cx t s"
    using sent busy many unfolding new by (auto simp: admit_new_def ask_def split: option.splits if_splits)
  then show ?thesis using sends_claim [OF ok, of k m cx t] sent by auto
qed

text \<open>The message an event may start, and whether it is a retry.\<close>

definition event_retry :: "chat_state \<Rightarrow> chat_event \<Rightarrow> bool" where
  "event_retry s e =
     (case e of EvMessage ws p \<Rightarrow> mpRetry p = RetryBool True
      | EvPolicy n a \<Rightarrow> tkRetry (csPolicy s ! n) | _ \<Rightarrow> False)"

lemma step_sends:
  assumes ok: "chat_ok s" and sent: "sends k m (fst (chat_step cx e s))"
  shows "claimable k m (event_retry s e) (csStore s)" and "unproven k m (snd (chat_step cx e s))"
proof -
  have "claimable k m (event_retry s e) (csStore s) \<and> unproven k m (snd (chat_step cx e s))"
  proof (cases e)
    case (EvMessage ws p)
    let ?t = "message_task cx ws p"
    have step: "chat_step cx e s = admit cx ?t s"
      using sent by (auto simp: EvMessage chat_step_def handleMessage_def ask_def Let_def emit_def modify_def
          harmless_sends split: option.splits if_splits)
    have retry: "tkRetry ?t = event_retry s e" by (simp add: message_task_def event_retry_def EvMessage)
    have "sends k m (fst (admit cx ?t s))" using sent by (simp only: step)
    note admitted = sends_admit [OF ok this]
    show ?thesis unfolding step using admitted unfolding retry by blast
  next
    case (EvPolicy n a)
    then have n: "n < length (csPolicy s)"
      using sent by (auto simp: chat_step_def ask_def skip_def emit_def split: if_splits)
    let ?t = "csPolicy s ! n" and ?s = "s\<lparr>csPolicy := remove_at n (csPolicy s)\<rparr>"
    have ok': "chat_ok ?s"
      using any_claim.set_remove_at [of n "csPolicy s"] chat_okD(7) [OF ok] by (intro chat_ok_tasks ok) auto
    have step: "chat_step cx e s = policy_answered cx ?t a ?s"
      using n by (simp add: EvPolicy chat_step_def ask_def then_act_def modify_def split_beta)
    then have "policy_answered cx ?t a = admit cx ?t"
      using sent by (cases a) (auto simp: policy_answered_def emit_def harmless_sends)
    then have step': "chat_step cx e s = admit cx ?t ?s" using step by simp
    have retry: "tkRetry ?t = event_retry s e" by (simp add: event_retry_def EvPolicy)
    have "sends k m (fst (admit cx ?t ?s))" using sent by (simp only: step')
    note admitted = sends_admit [OF ok' this]
    have "csStore ?s = csStore s" by simp
    then show ?thesis unfolding step' using admitted unfolding retry by metis
  next
    case (EvRejected i err)
    then show ?thesis using silent_at [OF silent.at_rejected_step [OF ok, of cx i err]] sent by simp
  next
    case EvRestart
    then show ?thesis using sent by (simp add: chat_step_def modify_def)
  qed (use silent_at [OF silent.at_base_step [OF ok, of e cx]] sent in simp_all)
  then show "claimable k m (event_retry s e) (csStore s)" and "unproven k m (snd (chat_step cx e s))" by simp_all
qed

lemma claimable_unproven: "claimable k m retry (csStore s) \<Longrightarrow> unproven k m s \<Longrightarrow>
    find_row k m (rsRows (csStore s)) = None \<and> \<not> retry"
  by (auto simp: claimable_def unproven_def row_unsent_def split: option.splits)

lemma trace_suffix: "chat_trace st es = pre @ rest \<Longrightarrow> chat_ok st \<Longrightarrow>
    \<exists>st' es'. chat_trace st' es' = rest \<and> chat_ok st'"
proof (induction pre arbitrary: st es)
  case (Cons x pre)
  then obtain cx e es' where es: "es = (cx, e) # es'" by (cases es) auto
  obtain os st' where step: "chat_step cx e st = (os, st')" by (cases "chat_step cx e st")
  then have "chat_ok st'" using chat_step_ok [OF Cons.prems(2), of cx e] by simp
  then show ?case using Cons es step by auto
qed auto

lemma trace_unproven:
  "chat_trace st es = mid @ (sb, eb, ob) # post \<Longrightarrow> chat_ok st \<Longrightarrow> unproven k m st \<Longrightarrow>
     \<forall>(s, e, os) \<in> set mid. \<not> proves_unsent k m s (snd e) \<Longrightarrow> chat_ok sb \<and> unproven k m sb
       \<and> fst (chat_step (fst eb) (snd eb) sb) = ob"
proof (induction mid arbitrary: st es)
  case Nil
  then obtain cx e es' where "es = (cx, e) # es'" by (cases es) auto
  then show ?case using Nil by (auto split: prod.splits)
next
  case (Cons x mid)
  then obtain cx e es' where es: "es = (cx, e) # es'" by (cases es) auto
  obtain os st' where step: "chat_step cx e st = (os, st')" by (cases "chat_step cx e st")
  have "unproven k m st'"
    using step_unproven [OF Cons.prems(2) _ Cons.prems(3), of e cx] Cons.prems(1,4) es step by auto
  moreover have "chat_ok st'" using chat_step_ok [OF Cons.prems(2), of cx e] step by simp
  ultimately show ?case using Cons.IH [of st' es'] Cons.prems(1,4) es step by auto
qed

section \<open>The properties\<close>

text \<open>Runs the statements are tried on.\<close>

definition quiet_ctx :: "string \<Rightarrow> string \<Rightarrow> chat_ctx" where
  "quiet_ctx mid cid = \<lparr>cxNow = 1000, cxOpen = (\<lambda>ws. True), cxBuffered = (\<lambda>ws. 0), cxSize = (\<lambda>b s. 10),
     cxThrows = (\<lambda>c. False), cxMessageId = mid, cxClientId = cid\<rparr>"

definition sample_message :: "string \<Rightarrow> chat_event" where
  "sample_message c = EvMessage 1 \<lparr>mpSession = ''s'', mpContent = ''hi'', mpClient = IdText c, mpRetry = RetryAbsent\<rparr>"

definition retry_run :: "(chat_ctx \<times> chat_event) list" where
  "retry_run = [(quiet_ctx ''m1'' ''c'', sample_message ''a''), (quiet_ctx ''m1'' ''c'', EvPolicy 0 PolicyWritable),
     (quiet_ctx ''m2'' ''c'', EvRejected 0 \<lparr>erCode = ''gateway_unavailable'', erRetryable = True, erMessage = ''down'', erResponded = False\<rparr>),
     (quiet_ctx ''m3'' ''c'', sample_message ''a''), (quiet_ctx ''m3'' ''c'', EvPolicy 0 PolicyWritable)]"

definition late_run :: "(chat_ctx \<times> chat_event) list" where
  "late_run = [(quiet_ctx ''m1'' ''c'', sample_message ''a''), (quiet_ctx ''m1'' ''c'', EvPolicy 0 PolicyWritable),
     (quiet_ctx ''m1'' ''c'', EvWritten 0), (quiet_ctx ''m1'' ''c'', EvStop 1 ''s'' IdAbsent), (quiet_ctx ''m1'' ''c'', EvAbortDone 0), 
     (quiet_ctx ''m1'' ''c'', EvStopTimer 0),
     (quiet_ctx ''m3'' ''c'', sample_message ''b''), (quiet_ctx ''m3'' ''c'', EvPolicy 0 PolicyWritable),
     (quiet_ctx ''m3'' ''c'', EvWritten 1), (quiet_ctx ''m3'' ''c'', EvResolved 1 ''r''), (quiet_ctx ''m3'' ''c'', EvResolved 0 ''q'')]"

lemmas chat_eval = chat_step_def handleMessage_def validateMessageFrame_def message_task_def previouslySubmitted_def
  policy_answered_def admit_def admit_new_def claim_and_send_def start_send_def then_act_def ask_def emit_def modify_def skip_def
  on_reg_def on_store_def send_rejected_def finalizeAndEmit_def fin_frames_def sendControl_def sendSendFailure_def sendJson_def
  chat_rec_def createRecord_def getByKey_def getActiveForSession_def the_record_def put_record_def stats_live_def countForBrowser_def originated_def
  fin_default_def fin_status_def fin_outcome_def reason_status_def set_add_def new_record_def findRun_def find_row_def claimSend_def claim_new_def
  makeRoom_def row_key_def new_row_def markTerminal_def set_outcome_def coalesce_text_def toRowModel_def proven_unsent_def row_unsent_def
  reset_row_def sql_update_def sql_count_def finalize_def drop_originated_def remove_at_def no_client_def id_text_def
  chat_init_def initChatRunsDb_def createRunRegistry_def quiet_ctx_def sample_message_def 
  kPruneKeepPerSession_def kPruneKeepGlobal_def kMaxLiveRecordsGlobal_def kMaxLiveRecordsPerBrowser_def kMaxContentBytes_def kMaxIdLength_def Let_def

lemmas chat_eval2 = stop_record_def handleStop_def begin_abort_def abort_done_def stop_timer_fires_def send_resolved_def run_started_def promote_def
  sendStream_def push_replay_def deliverToSocket_def flushDesync_def desync_of_def markRunning_def markStopRequested_def drainBufferedEvents_def is_done_def isValidOptionalId_def
  kMaxBufferedAmountBytes_def kReplayBufferMaxBytes_def kMaxStoredErrorLength_def getByRunId_def reason_text_def

lemma sample_prune: "pruneChatRuns now (reconcileInterruptedRuns now []) = []"
  by (simp add: pruneChatRuns_def reconcileInterruptedRuns_def prune_global_def prune_session_def)

lemma sample_trim: "js_trim ''s'' = ''s''" "js_trim ''hi'' = ''hi''" "js_trim ''r'' = ''r''" "js_trim ''q'' = ''q''"
  "js_trim [] = []"
  by (simp_all add: js_trim_def js_space_def)

lemma sample_ids: "isValidId ''s''" "isValidId ''a''" "isValidId ''b''" "isValidId ''r''"
  by (simp_all add: isValidId_def kMaxIdLength_def control_char_def)

lemma table_wf_empty: "table_wf [] n"
  by (simp add: table_wf_def)

text \<open>C1. A message is sent to the gateway a second time only on proof that the first send did not
  reach it: between any two \<open>chat.send\<close> RPCs of one message of a session (across stops, disconnects,
  store failures and restarts of the server) its RPC was rejected before the frame was written or by
  an answer of the gateway; otherwise its row had left the table by retention and the second frame
  was not marked as a retry.\<close>

theorem no_resend_without_proof:
  assumes wf: "table_wf rows n"
    and tr: "chat_trace (chat_init now rows n) es = pre @ (sa, ea, oa) # mid @ (sb, eb, ob) # post"
    and sent: "sends k m oa" "sends k m ob"
  shows "(\<exists>(s, e, os) \<in> set mid. proves_unsent k m s (snd e))
    \<or> find_row k m (rsRows (csStore sb)) = None \<and> \<not> event_retry sb (snd eb)"
proof (rule disjCI, rule ccontr)
  assume seen: "\<not> (find_row k m (rsRows (csStore sb)) = None \<and> \<not> event_retry sb (snd eb))"
    and none: "\<not> (\<exists>(s, e, os) \<in> set mid. proves_unsent k m s (snd e))"
  obtain st es' where st: "chat_trace st es' = (sa, ea, oa) # mid @ (sb, eb, ob) # post" "chat_ok st"
    using trace_suffix [OF tr chat_init_ok [OF wf]] by blast
  obtain cx e es'' where es: "es' = (cx, e) # es''" using st(1) by (cases es') auto
  then have sa: "sa = st" "ea = (cx, e)" "oa = fst (chat_step cx e st)"
    and rest: "chat_trace (snd (chat_step cx e st)) es'' = mid @ (sb, eb, ob) # post"
    using st(1) by (auto split: prod.splits)
  have "unproven k m (snd (chat_step cx e st))" by (rule step_sends(2) [OF st(2)]) (use sent(1) sa in simp)
  then have "chat_ok sb \<and> unproven k m sb \<and> fst (chat_step (fst eb) (snd eb) sb) = ob"
    using trace_unproven [OF rest chat_step_ok [OF st(2)]] none by fast
  then show False using claimable_unproven step_sends(1) sent(2) seen by metis
qed

text \<open>C10. Every run ends once: in one life of the server, whatever the order of stops, timers, lifecycle
  ends, errors, disconnects, stalls and answers, a record logs, stores and announces a terminal at
  most once, and exactly once when it is finished.\<close>

theorem one_terminal_per_run:
  assumes "table_wf rows n" and "list_all (\<lambda>(cx, e). e \<noteq> EvRestart) es"
  shows "let (os, st) = chat_run (chat_init now rows n) es in
    count_list (terminals os) i = of_bool (i < heap_size st \<and> rcFinalized (chat_rec st i))"
proof -
  have "\<not> is_finished (chat_init now rows n) i"
    by (simp add: is_finished_def chat_init_def heap_size_def createRunRegistry_def)
  then show ?thesis
    using run_terminal_once [OF chat_init_ok [OF assms(1)] assms(2), of now, unfolded terminal_once_def, THEN spec, of i]
    by (simp add: split_beta Let_def is_finished_def [of "snd (chat_run (chat_init now rows n) es)"])
qed

text \<open>C25. The bridge's memory is bounded whatever its clients and the gateway send: at most 128 live
  runs, 32 per browser socket, one per session, at most 64 buffered foreign runs of at most 200 events
  and 256 KiB, and a replay buffer of at most 256 KiB per record.\<close>

theorem chat_memory_bounded:
  assumes "table_wf rows n"
  shows "let st = snd (chat_run (chat_init now rows n) es); reg = csReg st in
    card {i. rec_live reg i} \<le> 128 \<and> card {i. rec_live reg i \<and> rcOrigin (the_record reg i) = ws} \<le> 32
    \<and> card {i. rec_live reg i \<and> rcSession (the_record reg i) = session} \<le> 1
    \<and> length (rgBuffered reg) \<le> 64
    \<and> list_all (\<lambda>(runId, b). length (bfList b) \<le> 200 \<and> sum_list (map geBytes (bfList b)) \<le> 262144) (rgBuffered reg)
    \<and> list_all (\<lambda>r. sum_list (map reSize (rcReplay r)) \<le> 262144) (rgHeap reg)"
proof -
  define st where "st = snd (chat_run (chat_init now rows n) es)"
  have ok: "chat_ok st" unfolding st_def by (rule chat_run_ok [OF chat_init_ok [OF assms]])
  note d = chat_okD [OF ok]
  have one: "i = j" if "rec_live (csReg st) i \<and> rcSession (the_record (csReg st) i) = session"
    "rec_live (csReg st) j \<and> rcSession (the_record (csReg st) j) = session" for i j
    using that [folded getActive_iff [OF d(1)]] by simp
  have "finite {i. rec_live (csReg st) i \<and> rcSession (the_record (csReg st) i) = session}"
    by (rule finite_subset [of _ "{..<heap_size st}"]) (auto simp: rec_live_def heap_size_def)
  then have "card {i. rec_live (csReg st) i \<and> rcSession (the_record (csReg st) i) = session} \<le> 1"
    using one by (simp add: card_le_Suc0_iff_eq)
  moreover have "card {i. rec_live (csReg st) i} \<le> 128"
    using d(4) by (simp add: stats_live_card [OF d(1)] kMaxLiveRecordsGlobal_def)
  moreover have "card {i. rec_live (csReg st) i \<and> rcOrigin (the_record (csReg st) i) = ws} \<le> 32"
    using d(5) [of ws] by (simp add: countForBrowser_card [OF d(1)] kMaxLiveRecordsPerBrowser_def)
  moreover have fine: "length (bfList b) \<le> 200 \<and> sum_list (map geBytes (bfList b)) \<le> 262144" if "fine_buffer b" for b
    using that by (simp add: fine_buffer_def kMaxEventsPerRun_def kMaxBufferedBytesPerRun_def)
  have "fine_buffer b" if "(k, b) \<in> set (rgBuffered (csReg st))" for k b
    using d(3) that unfolding buffers_ok_def by (metis image_eqI snd_conv)
  then have "list_all (\<lambda>(runId, b). length (bfList b) \<le> 200 \<and> sum_list (map geBytes (bfList b)) \<le> 262144) (rgBuffered (csReg st))"
    using fine unfolding list_all_iff by fast
  moreover have "length (rgBuffered (csReg st)) \<le> 64"
    using d(3) by (simp add: buffers_ok_def kMaxBufferedRuns_def)
  moreover have "list_all (\<lambda>r. sum_list (map reSize (rcReplay r)) \<le> 262144) (rgHeap (csReg st))"
  proof -
    have "sum_list (map reSize (rcReplay r)) \<le> 262144" if "replay_ok r" for r
      using that by (simp add: replay_ok_def kReplayBufferMaxBytes_def)
    then show ?thesis using d(6) by (simp add: list_all_length heap_size_def chat_rec_def the_record_def)
  qed
  ultimately show ?thesis unfolding Let_def st_def [symmetric] by blast
qed

text \<open>C26. A resume is exact: it replays every retained stream frame of the run after the client's cursor
  and no other, once each and in order, with consecutive numbers up to the present one; and its answer
  reports a gap unless the cursor is one of this run's and the frames replayed are every frame from
  the cursor to the present, so that anything the bounded buffer lost is reported.\<close>

theorem resume_replays_exactly:
  assumes "table_wf rows n"
  assumes st_def: "st = snd (chat_run (chat_init now rows n) es)"
    and "getByRunId (js_trim runText) (csReg st) = Some i" and "cxOpen cx ws"
    and "isValidId (js_trim session)" and "isValidId (js_trim runText)"
    and "rcSession (chat_rec st i) = js_trim session" and "rcResumable (chat_rec st i)"
  shows "let r = chat_rec st i; os = fst (handleResume cx ws session runText afterSeq st) in
    (\<exists>frames fromSeq gap. os = frames @ [ToSocket ws (FResumed (rcSession r) (js_trim runText) (rcMessageId r) fromSeq (rcLastSeq r) gap)]
      \<and> (\<exists>es. frames = map (\<lambda>e. ToSocket ws (FStream (rcSession r) (rcMessageId r) (reFrame e) (reSeq e))) es
           \<and> set es = {e \<in> set (rcReplay r). afterSeq < reSeq e}
           \<and> map reSeq es = [Suc (rcLastSeq r) - length es..<Suc (rcLastSeq r)]
           \<and> (gap \<longleftrightarrow> rcLastSeq r < afterSeq \<or> map reSeq es \<noteq> [Suc afterSeq..<Suc (rcLastSeq r)])))"
proof -
  define r where "r = chat_rec st i"
  have ok: "chat_ok st" unfolding st_def by (rule chat_run_ok [OF chat_init_ok [OF assms(1)]])
  have live: "i < heap_size st" "\<not> rcFinalized r" using byRunId_live [OF ok assms(3)] by (simp_all add: r_def)
  define buffered where "buffered = filter (\<lambda>e. afterSeq < reSeq e) (rcReplay r)"
  have "replay_ok r" using chat_okD(6) [OF ok live(1)] by (simp add: r_def)
  note seqs = buffered_seqs [OF this, of afterSeq, folded buffered_def]
  have exact: "resume_gap afterSeq r \<longleftrightarrow>
      rcLastSeq r < afterSeq \<or> map reSeq buffered \<noteq> [Suc afterSeq..<Suc (rcLastSeq r)]"
  proof (cases "rcLastSeq r < afterSeq")
    case True
    then show ?thesis by (simp add: resume_gap_def)
  next
    case False
    then show ?thesis
      using resume_exact [OF \<open>replay_ok r\<close> live(2), of afterSeq] assms(8) whole_no_gap [of afterSeq r]
      unfolding r_def buffered_def by linarith
  qed
  have frames: "replay_frames cx ws r buffered =
      map (\<lambda>e. ToSocket ws (FStream (rcSession r) (rcMessageId r) (reFrame e) (reSeq e))) buffered"
    using assms(4) by (induction buffered) (simp_all add: replay_frames_def sendJson_def)
  have "fst (handleResume cx ws session runText afterSeq st) =
      replay_frames cx ws r buffered @ [ToSocket ws (FResumed (rcSession r) (js_trim runText) (rcMessageId r)
        (case buffered of [] \<Rightarrow> afterSeq + 1 | e # _ \<Rightarrow> reSeq e) (rcLastSeq r) (resume_gap afterSeq r))]"
    using assms(3-8) by (simp add: handleResume_def ask_def Let_def then_act_def on_reg_def modify_def emit_def
        sendJson_def r_def buffered_def)
  then show ?thesis
    unfolding Let_def r_def [symmetric] frames using exact seqs
    by (intro exI [of _ buffered] exI conjI) (auto simp: buffered_def)
qed

text \<open>C27. A stop that gave up still aborts. In any run of the bridge whose stop timer for a record fires, if
  later in that life of the server the record's \<open>chat.send\<close>, in flight all along, is answered with a run
  id while some run is active in its session, then that run is another one, the answer aborts the whole
  session, whether or not anybody stopped that run, and leaves the registry as it is, with that run active.\<close>

theorem late_answer_aborts_next_run:
  assumes "table_wf rows n"
    and "st0 = snd (chat_run (chat_init now rows n) es1)" and "i < heap_size st0" and "rcStopTimer (chat_rec st0 i)"
    and "st = snd (chat_run (chat_init now rows n) (es1 @ (cx, EvStopTimer i) # es2))"
    and "list_all (\<lambda>(cx, e). e \<noteq> EvRestart) es2"
    and "i \<in> set (csSends st)" and "js_trim runId \<noteq> []"
    and "getActiveForSession (rcSession (chat_rec st i)) (csReg st) = Some j"
  shows "j \<noteq> i \<and> fst (chat_step cx' (EvResolved i runId) st) = [RpcAbort (rcSession (chat_rec st j))]
    \<and> csReg (snd (chat_step cx' (EvResolved i runId) st)) = csReg st \<and> \<not> rcFinalized (chat_rec st j)"
proof -
  define st1 where "st1 = snd (chat_step cx (EvStopTimer i) st0)"
  have ok0: "chat_ok st0" unfolding assms(2) by (rule chat_run_ok [OF chat_init_ok [OF assms(1)]])
  have ok1: "chat_ok st1" unfolding st1_def by (rule chat_step_ok [OF ok0])
  have st: "st = snd (chat_run st1 es2)"
    unfolding assms(5) st1_def assms(2) by (simp add: chat_run_append split_beta)
  have "is_finished st1 i" unfolding st1_def by (rule timer_settles [OF ok0 assms(3,4)])
  then have settled: "rcFinalized (chat_rec st i)"
    using run_keeps_finished [OF ok1 assms(6)] unfolding st is_finished_def by blast
  have "rec_live (csReg st) j" "rcSession (chat_rec st j) = rcSession (chat_rec st i)"
    using assms(9) chat_okD(1) [OF chat_run_ok [OF ok1, of es2, folded st]] by (simp_all add: getActive_iff chat_rec_def)
  then show ?thesis
    using settled late_answer [OF assms(7) settled assms(8), of cx'] by (auto simp: rec_live_def chat_rec_def)
qed

lemma no_resend_without_proof_witness:
  "let tr = chat_trace (chat_init 0 [] 1) retry_run in
     sends ''s'' ''a'' (snd (snd (tr ! 1))) \<and> sends ''s'' ''a'' (snd (snd (tr ! 4)))
     \<and> ((\<exists>(s, e, os) \<in> set [tr ! 2, tr ! 3]. proves_unsent ''s'' ''a'' s (snd e))
        \<or> find_row ''s'' ''a'' (rsRows (csStore (fst (tr ! 4)))) = None \<and> \<not> event_retry (fst (tr ! 4)) (snd (fst (snd (tr ! 4)))))"
proof -
  define tr where "tr = chat_trace (chat_init 0 [] 1) retry_run"
  have sent: "sends ''s'' ''a'' (snd (snd (tr ! 1)))" "sends ''s'' ''a'' (snd (snd (tr ! 4)))"
    unfolding tr_def
    by (simp_all add: retry_run_def chat_eval chat_eval2 sample_prune sample_trim sample_ids sends_def)
  have "length (chat_trace st es) = length es" for st es
    by (induction st es rule: chat_trace.induct) (auto split: prod.splits)
  then have "length tr = length retry_run" unfolding tr_def by blast
  then have "length tr = 5" by (simp add: retry_run_def)
  then have "tr = [tr ! 0] @ (fst (tr ! 1), fst (snd (tr ! 1)), snd (snd (tr ! 1))) # [tr ! 2, tr ! 3]
      @ (fst (tr ! 4), fst (snd (tr ! 4)), snd (snd (tr ! 4))) # []"
    by (intro nth_equalityI) (auto simp: less_Suc_eq numeral_eq_Suc)
  from no_resend_without_proof [OF table_wf_empty this [unfolded tr_def], folded tr_def, OF sent] sent
  show ?thesis unfolding Let_def tr_def [symmetric] by blast
qed

lemma one_terminal_per_run_witness:
  "let (os, st) = chat_run (chat_init 0 [] 1) late_run in
     count_list (terminals os) 0 = of_bool (0 < heap_size st \<and> rcFinalized (chat_rec st 0))"
  by (rule one_terminal_per_run [OF table_wf_empty]) (simp add: late_run_def sample_message_def)

lemma chat_memory_bounded_witness:
  "card {i. rec_live (csReg (snd (chat_run (chat_init 0 [] 1) late_run))) i} \<le> 128"
  using chat_memory_bounded [OF table_wf_empty, of 0 1 late_run] by (simp only: Let_def simp_thms)

definition resumed_state :: chat_state where
  "resumed_state = snd (chat_run (chat_init 0 [] 1) (butlast late_run))"

lemma resumed_facts:
  "getByRunId (js_trim ''r'') (csReg resumed_state) = Some 1" "rcSession (chat_rec resumed_state 1) = ''s''"
  "rcResumable (chat_rec resumed_state 1)"
  unfolding resumed_state_def
  by (simp_all add: late_run_def chat_eval chat_eval2 sample_prune sample_trim sample_ids)

text \<open>The stop of the first message times out, a second message starts, then the first send is answered.\<close>

lemma late_facts:
  "0 < heap_size (snd (chat_run (chat_init 0 [] 1) (take 5 late_run)))"
  "rcStopTimer (chat_rec (snd (chat_run (chat_init 0 [] 1) (take 5 late_run))) 0)"
  by (simp_all add: late_run_def chat_eval chat_eval2 sample_prune sample_trim sample_ids heap_size_def)

lemma overtaken_facts:
  "0 \<in> set (csSends resumed_state)" "rcSession (chat_rec resumed_state 0) = ''s''"
  "getActiveForSession ''s'' (csReg resumed_state) = Some 1" "\<not> rcStopRequested (chat_rec resumed_state 1)"
  unfolding resumed_state_def
  by (simp_all add: late_run_def chat_eval chat_eval2 sample_prune sample_trim sample_ids)

lemma late_answer_aborts_next_run_witness:
  "fst (chat_step (quiet_ctx ''m3'' ''c'') (EvResolved 0 ''q'') resumed_state) = [RpcAbort ''s'']
   \<and> \<not> rcFinalized (chat_rec resumed_state 1) \<and> \<not> rcStopRequested (chat_rec resumed_state 1)"
proof -
  let ?es2 = "drop 6 (butlast late_run)"
  have st: "resumed_state = snd (chat_run (chat_init 0 [] 1) (take 5 late_run @ (quiet_ctx ''m1'' ''c'', EvStopTimer 0) # ?es2))"
    unfolding resumed_state_def late_run_def by simp
  have "list_all (\<lambda>(cx, e). e \<noteq> EvRestart) ?es2" by (simp add: late_run_def sample_message_def)
  from late_answer_aborts_next_run [OF table_wf_empty refl late_facts st this overtaken_facts(1), of "''q''" 1 "quiet_ctx ''m3'' ''c''"]
  show ?thesis using overtaken_facts(2-4) resumed_facts(2) by (simp add: sample_trim)
qed

lemma resume_replays_exactly_witness:
  "\<exists>frames fromSeq gap. fst (handleResume (quiet_ctx ''m'' ''c'') 2 ''s'' ''r'' 0 resumed_state) = frames @
     [ToSocket 2 (FResumed ''s'' ''r'' (rcMessageId (chat_rec resumed_state 1)) fromSeq (rcLastSeq (chat_rec resumed_state 1)) gap)]"
  using resume_replays_exactly [OF table_wf_empty resumed_state_def resumed_facts(1), of "quiet_ctx ''m'' ''c''" 2 "''s''" 0]
    resumed_facts(2,3) by (simp only: Let_def sample_trim sample_ids quiet_ctx_def chat_ctx.simps simp_thms) blast

end
