(* ===== verification/Engines_Range.thy ===== *)
theory Engines_Range
  imports Prelude
begin

text \<open>
  \<open>lib/engines-range.js\<close> and \<open>lib/node-runtime.js\<close>: the evaluator of \<open>engines.node\<close> ranges and the floor
  AlphaClaw sets for its own runtime. A sticky regular expression scans one comparator at a time; it
  is deterministic (each part is greedy and the next one starts with another character), so it is a
  function from the text to the scanned parts and the rest of the text. \<open>\s\<close> is read over ASCII;
  \<open>Number\<close> of a digit string is exact (a \<open>nat\<close>), as it is in the source below \<open>2^53\<close>.

  The lemmas: the scanner consumes, so the loop ends; it reads back every spelling of a comparator;
  expanded comparators mean what npm says of partial versions, stated over the whole version line.
\<close>

section \<open>Versions\<close>

text \<open>A parsed \<open>[major, minor, patch]\<close> and its comparison.\<close>

datatype triple = Triple nat nat nat

fun compareTriples :: "triple \<Rightarrow> triple \<Rightarrow> int" where
  "compareTriples (Triple a b c) (Triple a' b' c') =
     (if a \<noteq> a' then if a > a' then 1 else -1
      else if b \<noteq> b' then if b > b' then 1 else -1
      else if c \<noteq> c' then if c > c' then 1 else -1
      else 0)"

instantiation triple :: linorder
begin

definition less_eq_triple :: "triple \<Rightarrow> triple \<Rightarrow> bool" where
  "less_eq_triple v w \<longleftrightarrow> compareTriples v w \<le> 0"

definition less_triple :: "triple \<Rightarrow> triple \<Rightarrow> bool" where
  "less_triple v w \<longleftrightarrow> compareTriples v w < 0"

instance
proof
  fix u v w :: triple
  show "v < w \<longleftrightarrow> v \<le> w \<and> \<not> w \<le> v"
    by (cases v; cases w) (auto simp: less_eq_triple_def less_triple_def)
  show "v \<le> v" by (cases v) (simp add: less_eq_triple_def)
  show "u \<le> v \<Longrightarrow> v \<le> w \<Longrightarrow> u \<le> w"
    by (cases u; cases v; cases w) (auto simp: less_eq_triple_def split: if_splits)
  show "v \<le> w \<Longrightarrow> w \<le> v \<Longrightarrow> v = w"
    by (cases v; cases w) (auto simp: less_eq_triple_def split: if_splits)
  show "v \<le> w \<or> w \<le> v" by (cases v; cases w) (auto simp: less_eq_triple_def)
qed

end

lemma less_eq_triple [simp]: "Triple a b c \<le> Triple a' b' c' \<longleftrightarrow> a < a' \<or> a = a' \<and> (b < b' \<or> b = b' \<and> c \<le> c')"
  by (auto simp: less_eq_triple_def)

lemma less_triple [simp]: "Triple a b c < Triple a' b' c' \<longleftrightarrow> a < a' \<or> a = a' \<and> (b < b' \<or> b = b' \<and> c < c')"
  by (auto simp: less_triple_def)

lemma compare_sign:
  "0 \<le> compareTriples v w \<longleftrightarrow> w \<le> v" "0 < compareTriples v w \<longleftrightarrow> w < v" "compareTriples v w = 0 \<longleftrightarrow> v = w"
  "compareTriples v w \<le> 0 \<longleftrightarrow> v \<le> w" "compareTriples v w < 0 \<longleftrightarrow> v < w"
  by (cases v; cases w; auto)+

section \<open>Scanning\<close>

definition digit :: "char \<Rightarrow> bool" where
  "digit c \<longleftrightarrow> 48 \<le> (of_char c :: nat) \<and> (of_char c :: nat) \<le> 57"

text \<open>\<open>Number(text)\<close> of a text of digits.\<close>

definition js_number :: "string \<Rightarrow> nat" where
  "js_number s = foldl (\<lambda>a c. 10 * a + ((of_char c :: nat) - 48)) 0 s"

text \<open>\<open>(\d+)\<close> at the head of a text, and \<open>(?:\.(\d+))?\<close>.\<close>

definition scan_digits :: "string \<Rightarrow> (nat \<times> string) option" where
  "scan_digits s = (if takeWhile digit s = [] then None
     else Some (js_number (takeWhile digit s), dropWhile digit s))"

definition scan_part :: "string \<Rightarrow> nat option \<times> string" where
  "scan_part s = (case s of [] \<Rightarrow> (None, s)
     | c # r \<Rightarrow> if c = CHR ''.'' then (case scan_digits r of None \<Rightarrow> (None, s) | Some (n, r') \<Rightarrow> (Some n, r'))
               else (None, s))"

datatype cmp_op = OpGe | OpGt | OpLe | OpLt | OpEq

record comparator_token =
  ctOp :: cmp_op
  ctMajor :: nat
  ctMinor :: "nat option"
  ctPatch :: "nat option"

definition scan_op :: "string \<Rightarrow> cmp_op option \<times> string" where
  "scan_op s =
     (if starts_with ''>='' s then (Some OpGe, drop 2 s)
      else if starts_with ''<='' s then (Some OpLe, drop 2 s)
      else if starts_with ''>'' s then (Some OpGt, drop 1 s)
      else if starts_with ''<'' s then (Some OpLt, drop 1 s)
      else if starts_with ''='' s then (Some OpEq, drop 1 s)
      else (None, s))"

definition skip_v :: "string \<Rightarrow> string" where
  "skip_v s = (case s of [] \<Rightarrow> [] | c # r \<Rightarrow> if c = CHR ''v'' then r else s)"

definition kComparatorScanner :: "string \<Rightarrow> (comparator_token \<times> string) option" where
  "kComparatorScanner text =
     (case scan_op (dropWhile js_space text) of (op', s1) \<Rightarrow>
      case scan_digits (skip_v (dropWhile js_space s1)) of None \<Rightarrow> None
      | Some (major, s2) \<Rightarrow>
          (case scan_part s2 of (minor, s3) \<Rightarrow>
           case scan_part s3 of (patch, s4) \<Rightarrow>
             Some (\<lparr>ctOp = (case op' of None \<Rightarrow> OpEq | Some p \<Rightarrow> p), ctMajor = major, ctMinor = minor,
                     ctPatch = patch\<rparr>, dropWhile js_space s4)))"

record comparator =
  cmOp :: cmp_op
  cmVersion :: triple

definition or_zero :: "nat option \<Rightarrow> nat" where
  "or_zero x = (case x of None \<Rightarrow> 0 | Some n \<Rightarrow> n)"

text \<open>The first version past the line of a partial version, if it is partial.\<close>

definition next_line :: "comparator_token \<Rightarrow> triple option" where
  "next_line t = (case ctMinor t of None \<Rightarrow> Some (Triple (ctMajor t + 1) 0 0)
     | Some minor \<Rightarrow> (case ctPatch t of None \<Rightarrow> Some (Triple (ctMajor t) (minor + 1) 0) | Some _ \<Rightarrow> None))"

definition expandComparator :: "comparator_token \<Rightarrow> comparator list" where
  "expandComparator t =
     (let full = Triple (ctMajor t) (or_zero (ctMinor t)) (or_zero (ctPatch t)) in
      case ctOp t of
        OpGe \<Rightarrow> [\<lparr>cmOp = OpGe, cmVersion = full\<rparr>]
      | OpLt \<Rightarrow> [\<lparr>cmOp = OpLt, cmVersion = full\<rparr>]
      | OpGt \<Rightarrow> (case next_line t of Some n \<Rightarrow> [\<lparr>cmOp = OpGe, cmVersion = n\<rparr>] | None \<Rightarrow> [\<lparr>cmOp = OpGt, cmVersion = full\<rparr>])
      | OpLe \<Rightarrow> (case next_line t of Some n \<Rightarrow> [\<lparr>cmOp = OpLt, cmVersion = n\<rparr>] | None \<Rightarrow> [\<lparr>cmOp = OpLe, cmVersion = full\<rparr>])
      | OpEq \<Rightarrow> (case next_line t of
            Some n \<Rightarrow> [\<lparr>cmOp = OpGe, cmVersion = full\<rparr>, \<lparr>cmOp = OpLt, cmVersion = n\<rparr>]
          | None \<Rightarrow> [\<lparr>cmOp = OpEq, cmVersion = full\<rparr>]))"

text \<open>The scanner consumes at least one character, so the loop of \<open>parseAlternative\<close> ends.\<close>

lemma length_dropWhile: "length (dropWhile P xs) \<le> length xs"
  by (induction xs) auto

lemma scan_digits_shorter: "scan_digits s = Some (n, r) \<Longrightarrow> length r < length s"
proof -
  assume "scan_digits s = Some (n, r)"
  then have "takeWhile digit s \<noteq> []" "r = dropWhile digit s" by (auto simp: scan_digits_def split: if_splits)
  then show ?thesis using takeWhile_dropWhile_id [of digit s] by (metis length_append length_greater_0_conv less_add_same_cancel2)
qed

lemma scan_part_shorter: "length (snd (scan_part s)) \<le> length s"
  using scan_digits_shorter by (auto simp: scan_part_def split: list.splits option.splits) fastforce

lemma scan_op_shorter: "length (snd (scan_op s)) \<le> length s"
  by (auto simp: scan_op_def)

lemma skip_v_shorter: "length (skip_v s) \<le> length s"
  by (auto simp: skip_v_def split: list.splits)

lemma scanner_shorter:
  assumes "kComparatorScanner text = Some (t, rest)" shows "length rest < length text"
proof -
  let ?s1 = "snd (scan_op (dropWhile js_space text))"
  obtain major s2 where d: "scan_digits (skip_v (dropWhile js_space ?s1)) = Some (major, s2)"
    and rest: "rest = dropWhile js_space (snd (scan_part (snd (scan_part s2))))"
    using assms by (auto simp: kComparatorScanner_def split: prod.splits option.splits)
  have "length rest \<le> length s2"
    unfolding rest using length_dropWhile scan_part_shorter by (meson order_trans)
  also have "\<dots> < length (skip_v (dropWhile js_space ?s1))" by (rule scan_digits_shorter [OF d])
  also have "\<dots> \<le> length text"
    using skip_v_shorter length_dropWhile scan_op_shorter by (meson order_trans)
  finally show ?thesis .
qed

function (sequential) parse_comparators :: "string \<Rightarrow> comparator list \<Rightarrow> comparator list option" where
  "parse_comparators [] comparators = (if comparators \<noteq> [] then Some comparators else None)"
| "parse_comparators text comparators =
     (case kComparatorScanner text of
        None \<Rightarrow> if list_all js_space text \<and> comparators \<noteq> [] then Some comparators else None
      | Some (t, rest) \<Rightarrow> parse_comparators rest (comparators @ expandComparator t))"
  by pat_completeness auto
termination by (relation "measure (\<lambda>(text, comparators). length text)") (auto dest: scanner_shorter)

definition parseAlternative :: "string \<Rightarrow> comparator list option" where
  "parseAlternative alternative = parse_comparators alternative []"

text \<open>\<open>text.split("||")\<close>.\<close>

fun split_bars :: "string \<Rightarrow> string list" where
  "split_bars [] = [[]]"
| "split_bars [c] = [[c]]"
| "split_bars (c # d # s) =
     (if c = CHR ''|'' \<and> d = CHR ''|'' then [] # split_bars s
      else (case split_bars (d # s) of [] \<Rightarrow> [[c]] | p # ps \<Rightarrow> (c # p) # ps))"

primrec parse_alternatives :: "string list \<Rightarrow> comparator list list option" where
  "parse_alternatives [] = Some []"
| "parse_alternatives (a # as) = (case parseAlternative a of None \<Rightarrow> None
     | Some comparators \<Rightarrow> map_option ((#) comparators) (parse_alternatives as))"

definition parseEngineRange :: "string \<Rightarrow> comparator list list option" where
  "parseEngineRange spec =
     (if js_trim spec = [] then None else parse_alternatives (split_bars (js_trim spec)))"

section \<open>Satisfaction\<close>

text \<open>\<open>/^v?(\d+)\.(\d+)\.(\d+)(-[0-9A-Za-z.-]+)?/\<close>: the triple and whether a prerelease follows.\<close>

definition scan_triple :: "string \<Rightarrow> (triple \<times> string) option" where
  "scan_triple s = (case scan_digits s of None \<Rightarrow> None
     | Some (major, s1) \<Rightarrow> (case scan_part s1 of (None, _) \<Rightarrow> None
       | (Some minor, s2) \<Rightarrow> (case scan_part s2 of (None, _) \<Rightarrow> None
         | (Some patch, s3) \<Rightarrow> Some (Triple major minor patch, s3))))"

definition prerelease_char :: "char \<Rightarrow> bool" where
  "prerelease_char c \<longleftrightarrow> digit c \<or> 65 \<le> (of_char c :: nat) \<and> (of_char c :: nat) \<le> 90
     \<or> 97 \<le> (of_char c :: nat) \<and> (of_char c :: nat) \<le> 122 \<or> c = CHR ''.'' \<or> c = CHR ''-''"

definition parseRuntimeVersion :: "string \<Rightarrow> (triple \<times> bool) option" where
  "parseRuntimeVersion value = map_option
     (\<lambda>(v, rest). (v, case rest of c # d # _ \<Rightarrow> c = CHR ''-'' \<and> prerelease_char d | _ \<Rightarrow> False))
     (scan_triple (skip_v (js_trim value)))"

definition parseVersionTriple :: "string \<Rightarrow> triple option" where
  "parseVersionTriple value = map_option fst (scan_triple (skip_v (js_trim value)))"

definition comparatorHolds :: "comparator \<Rightarrow> triple \<Rightarrow> bool" where
  "comparatorHolds c runtime = (let cmp = compareTriples runtime (cmVersion c) in
     case cmOp c of OpGe \<Rightarrow> 0 \<le> cmp | OpGt \<Rightarrow> 0 < cmp | OpLe \<Rightarrow> cmp \<le> 0 | OpLt \<Rightarrow> cmp < 0 | OpEq \<Rightarrow> cmp = 0)"

definition satisfiesEngines :: "string \<Rightarrow> string \<Rightarrow> bool" where
  "satisfiesEngines spec version = (case parseEngineRange spec of None \<Rightarrow> True
     | Some alternatives \<Rightarrow> (case parseRuntimeVersion version of None \<Rightarrow> True
       | Some (runtime, prerelease) \<Rightarrow> if prerelease then False
           else list_ex (\<lambda>alternative. list_all (\<lambda>c. comparatorHolds c runtime) alternative) alternatives))"

text \<open>The floor of AlphaClaw's own runtime: \<open>parseNodeVersion\<close> has no \<open>v\<close>, and a version it cannot read is
  not supported.\<close>

definition kAlphaclawNodeEngines :: string where
  "kAlphaclawNodeEngines = ''>=24.22.1 <25 || >=26.12.1''"

definition parseNodeVersion :: "string \<Rightarrow> triple option" where
  "parseNodeVersion value = map_option fst (scan_triple (js_trim value))"

definition isSupportedNodeVersion :: "string \<Rightarrow> bool" where
  "isSupportedNodeVersion value =
     (if parseNodeVersion value = None then False else satisfiesEngines kAlphaclawNodeEngines value)"

section \<open>What a range means\<close>

text \<open>The line of a comparator: all versions that agree with the parts it names. The operators speak
  of the whole line, as npm's partial versions do.\<close>

fun in_line :: "comparator_token \<Rightarrow> triple \<Rightarrow> bool" where
  "in_line t (Triple a b c) \<longleftrightarrow> a = ctMajor t \<and> (ctMinor t = None \<or> ctMinor t = Some b)
     \<and> (ctPatch t = None \<or> ctPatch t = Some c)"

definition npm_allows :: "comparator_token \<Rightarrow> triple \<Rightarrow> bool" where
  "npm_allows t v = (case ctOp t of
       OpGe \<Rightarrow> \<exists>w. in_line t w \<and> w \<le> v
     | OpGt \<Rightarrow> \<forall>w. in_line t w \<longrightarrow> w < v
     | OpLe \<Rightarrow> \<exists>w. in_line t w \<and> v \<le> w
     | OpLt \<Rightarrow> \<forall>w. in_line t w \<longrightarrow> v < w
     | OpEq \<Rightarrow> in_line t v)"

definition token_ok :: "comparator_token \<Rightarrow> bool" where
  "token_ok t \<longleftrightarrow> ctMinor t = None \<longrightarrow> ctPatch t = None"

definition full_version :: "comparator_token \<Rightarrow> triple" where
  "full_version t = Triple (ctMajor t) (or_zero (ctMinor t)) (or_zero (ctPatch t))"

definition before_end :: "comparator_token \<Rightarrow> triple \<Rightarrow> bool" where
  "before_end t v = (case next_line t of Some n \<Rightarrow> v < n | None \<Rightarrow> v \<le> full_version t)"

lemma in_line_iff: "token_ok t \<Longrightarrow> in_line t v \<longleftrightarrow> full_version t \<le> v \<and> before_end t v"
  by (cases v; cases "ctMinor t"; cases "ctPatch t")
    (auto simp: full_version_def before_end_def next_line_def or_zero_def token_ok_def)

lemma full_in_line: "token_ok t \<Longrightarrow> in_line t (full_version t)"
  by (auto simp: full_version_def or_zero_def split: option.splits)

lemma before_end_down: "before_end t w \<Longrightarrow> v \<le> w \<Longrightarrow> before_end t v"
  by (auto simp: before_end_def split: option.splits)

lemma line_bounds:
  assumes "token_ok t"
  shows "(\<exists>w. in_line t w \<and> w \<le> v) \<longleftrightarrow> full_version t \<le> v"
    and "(\<forall>w. in_line t w \<longrightarrow> v < w) \<longleftrightarrow> v < full_version t"
    and "(\<exists>w. in_line t w \<and> v \<le> w) \<longleftrightarrow> before_end t v"
    and "(\<forall>w. in_line t w \<longrightarrow> w < v) \<longleftrightarrow> \<not> before_end t v"
proof -
  note line = in_line_iff [OF assms] and full = full_in_line [OF assms]
  show "(\<exists>w. in_line t w \<and> w \<le> v) \<longleftrightarrow> full_version t \<le> v" using line full order_trans by blast
  then show "(\<forall>w. in_line t w \<longrightarrow> v < w) \<longleftrightarrow> v < full_version t" by (meson leD leI)
  show up: "(\<exists>w. in_line t w \<and> v \<le> w) \<longleftrightarrow> before_end t v"
    using line full before_end_down by (metis linear)
  then show "(\<forall>w. in_line t w \<longrightarrow> w < v) \<longleftrightarrow> \<not> before_end t v" by (meson leD leI)
qed

lemma expand_allows:
  assumes "token_ok t"
  shows "list_all (\<lambda>c. comparatorHolds c v) (expandComparator t) \<longleftrightarrow> npm_allows t v"
proof -
  have "npm_allows t v \<longleftrightarrow> (case ctOp t of OpGe \<Rightarrow> full_version t \<le> v | OpGt \<Rightarrow> \<not> before_end t v
      | OpLe \<Rightarrow> before_end t v | OpLt \<Rightarrow> v < full_version t | OpEq \<Rightarrow> full_version t \<le> v \<and> before_end t v)"
    unfolding npm_allows_def line_bounds [OF assms] by (cases "ctOp t") (simp_all add: in_line_iff [OF assms])
  then show ?thesis
    by (cases "ctOp t"; cases "next_line t")
      (auto simp: expandComparator_def comparatorHolds_def compare_sign before_end_def Let_def
        full_version_def [symmetric])
qed

section \<open>Spellings\<close>

text \<open>How a comparator may be written: white space before it and after its operator, an optional
  operator and \<open>v\<close>, one to three parts. Two comparators must not run together.\<close>

record spelling =
  spLead :: string
  spOp :: "cmp_op option"
  spMid :: string
  spV :: bool
  spMajor :: string
  spMinor :: "string option"
  spPatch :: "string option"

definition op_text :: "cmp_op option \<Rightarrow> string" where
  "op_text p = (case p of None \<Rightarrow> [] | Some OpGe \<Rightarrow> ''>='' | Some OpGt \<Rightarrow> ''>'' | Some OpLe \<Rightarrow> ''<=''
     | Some OpLt \<Rightarrow> ''<'' | Some OpEq \<Rightarrow> ''='')"

definition part_text :: "string option \<Rightarrow> string" where
  "part_text p = (case p of None \<Rightarrow> [] | Some ds \<Rightarrow> CHR ''.'' # ds)"

definition spell :: "spelling \<Rightarrow> string" where
  "spell sp = spLead sp @ op_text (spOp sp) @ spMid sp @ (if spV sp then ''v'' else []) @ spMajor sp
     @ part_text (spMinor sp) @ part_text (spPatch sp)"

definition digits :: "string \<Rightarrow> bool" where
  "digits ds \<longleftrightarrow> ds \<noteq> [] \<and> list_all digit ds"

definition spelling_ok :: "spelling \<Rightarrow> bool" where
  "spelling_ok sp \<longleftrightarrow> list_all js_space (spLead sp) \<and> list_all js_space (spMid sp) \<and> digits (spMajor sp)
     \<and> pred_option digits (spMinor sp) \<and> pred_option digits (spPatch sp) \<and> (spMinor sp = None \<longrightarrow> spPatch sp = None)"

definition set_apart :: "spelling \<Rightarrow> bool" where
  "set_apart sp \<longleftrightarrow> spLead sp \<noteq> [] \<or> spOp sp \<noteq> None \<or> spV sp"

definition token_of :: "spelling \<Rightarrow> comparator_token" where
  "token_of sp = \<lparr>ctOp = (case spOp sp of None \<Rightarrow> OpEq | Some p \<Rightarrow> p), ctMajor = js_number (spMajor sp),
     ctMinor = map_option js_number (spMinor sp), ctPatch = map_option js_number (spPatch sp)\<rparr>"

definition ends_token :: "string \<Rightarrow> bool" where
  "ends_token u \<longleftrightarrow> (case u of [] \<Rightarrow> True | c # _ \<Rightarrow> \<not> digit c \<and> c \<noteq> CHR ''.'')"

lemma scan_digits_text:
  assumes "digits ds" and "case u of [] \<Rightarrow> True | c # _ \<Rightarrow> \<not> digit c"
  shows "scan_digits (ds @ u) = Some (js_number ds, u)"
proof -
  have "takeWhile digit (ds @ u) = ds" "dropWhile digit (ds @ u) = u"
    using assms by (auto simp: digits_def takeWhile_append2 dropWhile_append2 list_all_iff split: list.splits)
  then show ?thesis using assms(1) by (simp add: scan_digits_def digits_def)
qed

lemma scan_part_text:
  assumes "pred_option digits p" and "ends_token u"
  shows "scan_part (part_text p @ u) = (map_option js_number p, u)"
proof (cases p)
  case None
  then show ?thesis using assms(2) by (auto simp: part_text_def scan_part_def ends_token_def split: list.splits)
next
  case (Some ds)
  then have "scan_digits (ds @ u) = Some (js_number ds, u)"
    using assms by (intro scan_digits_text) (auto simp: ends_token_def split: list.splits)
  then show ?thesis by (simp add: Some part_text_def scan_part_def)
qed

lemma scan_parts_text:
  assumes "pred_option digits minor" "pred_option digits patch" "minor = None \<longrightarrow> patch = None" "ends_token u"
  shows "scan_part (part_text minor @ part_text patch @ u) = (map_option js_number minor, part_text patch @ u)"
proof (cases minor)
  case None
  then show ?thesis using scan_part_text [OF assms(1,4)] assms(3) by (simp add: part_text_def)
next
  case (Some ds)
  have "case part_text patch @ u of [] \<Rightarrow> True | c # _ \<Rightarrow> \<not> digit c"
    using assms(4) by (auto simp: part_text_def digit_def ends_token_def split: option.splits list.splits)
  then have "scan_digits (ds @ part_text patch @ u) = Some (js_number ds, part_text patch @ u)"
    using assms(1) Some by (intro scan_digits_text) auto
  then show ?thesis by (simp add: Some part_text_def [of "Some ds"] scan_part_def)
qed

text \<open>The characters of a number are none of those around it.\<close>

lemma digit_not: "digit c \<Longrightarrow> \<not> js_space c" "digit c \<Longrightarrow> c \<notin> set ''>=<v.|''"
  by (auto simp: digit_def js_space_def)

lemma drop_spaces: "list_all js_space ws \<Longrightarrow> dropWhile js_space (ws @ s) = dropWhile js_space s"
  by (induction ws) auto

lemma head_stays: "s \<noteq> [] \<Longrightarrow> \<not> js_space (hd s) \<Longrightarrow> dropWhile js_space (s @ u) = s @ u"
  by (cases s) auto

definition number_text :: "spelling \<Rightarrow> string \<Rightarrow> string" where
  "number_text sp u = (if spV sp then ''v'' else []) @ spMajor sp @ part_text (spMinor sp) @ part_text (spPatch sp) @ u"

lemma number_head:
  assumes "spelling_ok sp"
  obtains c r where "number_text sp u = c # r" "c = CHR ''v'' \<or> digit c"
  using that assms by (cases "spMajor sp"; cases "spV sp") (auto simp: number_text_def spelling_ok_def digits_def)

lemma scan_number:
  assumes "spelling_ok sp" and "ends_token u"
  shows "scan_digits (skip_v (number_text sp u)) =
    Some (js_number (spMajor sp), part_text (spMinor sp) @ part_text (spPatch sp) @ u)"
proof -
  let ?rest = "part_text (spMinor sp) @ part_text (spPatch sp) @ u"
  have ok: "digits (spMajor sp)" using assms(1) by (simp add: spelling_ok_def)
  then obtain c r where "spMajor sp = c # r" "digit c" by (cases "spMajor sp") (auto simp: digits_def)
  then have "skip_v (number_text sp u) = spMajor sp @ ?rest"
    using digit_not(2) [of c] by (auto simp: number_text_def skip_v_def)
  moreover have "case ?rest of [] \<Rightarrow> True | c # _ \<Rightarrow> \<not> digit c"
    using assms(2) by (auto simp: part_text_def digit_def ends_token_def split: option.splits list.splits)
  ultimately show ?thesis using scan_digits_text [OF ok] by simp
qed

lemma scan_op_text:
  assumes "case s of [] \<Rightarrow> True | c # _ \<Rightarrow> c \<noteq> CHR ''='' \<and> (p = None \<longrightarrow> c \<noteq> CHR ''>'' \<and> c \<noteq> CHR ''<'')"
  shows "scan_op (op_text p @ s) = (p, s)"
  using assms by (cases p) (auto simp: scan_op_def op_text_def starts_with_def numeral_2_eq_2 split: list.splits cmp_op.splits)

lemma scan_spelling:
  assumes "spelling_ok sp" and "ends_token u"
  shows "kComparatorScanner (spell sp @ u) = Some (token_of sp, dropWhile js_space u)"
proof -
  obtain c r where n: "number_text sp u = c # r" "c = CHR ''v'' \<or> digit c" by (rule number_head [OF assms(1)])
  have sp: "list_all js_space (spLead sp)" "list_all js_space (spMid sp)" "pred_option digits (spMinor sp)"
    "pred_option digits (spPatch sp)" "spMinor sp = None \<longrightarrow> spPatch sp = None"
    using assms(1) by (simp_all add: spelling_ok_def)
  have c: "\<not> js_space c" "c \<noteq> CHR ''=''" "c \<noteq> CHR ''>''" "c \<noteq> CHR ''<''"
    using n(2) digit_not [of c] by (auto simp: js_space_def)
  have mid: "dropWhile js_space (spMid sp @ number_text sp u) = number_text sp u"
    using drop_spaces [OF sp(2)] n(1) c(1) by simp
  have shown: "spell sp @ u = spLead sp @ op_text (spOp sp) @ spMid sp @ number_text sp u"
    by (simp add: spell_def number_text_def)
  obtain s1 where s1: "scan_op (dropWhile js_space (spell sp @ u)) = (spOp sp, s1)"
    "dropWhile js_space s1 = number_text sp u"
  proof (cases "spOp sp")
    case None
    have "scan_op (op_text None @ number_text sp u) = (None, number_text sp u)"
      by (rule scan_op_text) (use n(1) c in simp)
    then show ?thesis using that [of "number_text sp u"] drop_spaces [OF sp(1)] drop_spaces [OF sp(2)] n(1) c(1)
      by (simp add: shown None op_text_def)
  next
    case (Some p)
    have "dropWhile js_space (op_text (Some p) @ t) = op_text (Some p) @ t" for t
      by (cases p) (simp_all add: op_text_def js_space_def)
    moreover have "scan_op (op_text (Some p) @ spMid sp @ number_text sp u) = (Some p, spMid sp @ number_text sp u)"
      by (rule scan_op_text, cases "spMid sp") (use n(1) c sp(2) in \<open>auto simp: js_space_def\<close>)
    ultimately show ?thesis using that drop_spaces [OF sp(1)] mid by (simp add: shown Some)
  qed
  show ?thesis
    using s1 scan_number [OF assms] scan_parts_text [OF sp(3-5) assms(2)] scan_part_text [OF sp(4) assms(2)]
    by (simp add: kComparatorScanner_def token_of_def)
qed

section \<open>Spelled ranges\<close>

text \<open>An alternative is a non-empty list of comparators set apart and white space at its end; a range is
  its alternatives between bars.\<close>

type_synonym alternative = "spelling list \<times> string"

definition alternative_text :: "alternative \<Rightarrow> string" where
  "alternative_text a = (case a of (sps, trail) \<Rightarrow> concat (map spell sps) @ trail)"

definition alternative_ok :: "alternative \<Rightarrow> bool" where
  "alternative_ok a = (case a of (sps, trail) \<Rightarrow>
     sps \<noteq> [] \<and> list_all spelling_ok sps \<and> list_all set_apart (tl sps) \<and> list_all js_space trail)"

fun range_text :: "alternative list \<Rightarrow> string" where
  "range_text [] = []"
| "range_text [a] = alternative_text a"
| "range_text (a # b # as) = alternative_text a @ ''||'' @ range_text (b # as)"

lemma ends_token_spelling: "spelling_ok sp \<Longrightarrow> set_apart sp \<Longrightarrow> ends_token (spell sp @ u)"
  using digit_not
  by (cases "spLead sp"; cases "spOp sp"; cases "spMid sp")
    (auto simp: ends_token_def spell_def set_apart_def op_text_def spelling_ok_def js_space_def digit_def
      split: cmp_op.splits)

lemma ends_token_spaces: "list_all js_space u \<Longrightarrow> ends_token u"
  by (cases u) (auto simp: ends_token_def js_space_def digit_def)

lemma ends_token_spellings:
  assumes "list_all spelling_ok sps" "list_all set_apart sps" "list_all js_space trail"
  shows "ends_token (concat (map spell sps) @ trail)"
  using assms by (cases sps) (simp_all add: ends_token_spelling ends_token_spaces)

lemma parse_step:
  assumes "kComparatorScanner s = Some (t, rest)"
  shows "parse_comparators s cs = parse_comparators rest (cs @ expandComparator t)"
  using assms scanner_shorter [OF assms] by (cases s) simp_all

lemma scanner_trims: "kComparatorScanner (dropWhile js_space s) = kComparatorScanner s"
  by (simp add: kComparatorScanner_def dropWhile_idem)

lemma expand_ne: "expandComparator t \<noteq> []"
  by (auto simp: expandComparator_def Let_def split: cmp_op.splits option.splits)

lemma parse_spelled:
  assumes "list_all spelling_ok sps" "list_all set_apart sps" "list_all js_space trail" "cs \<noteq> []"
  shows "parse_comparators (dropWhile js_space (concat (map spell sps) @ trail)) cs =
    Some (cs @ concat (map (\<lambda>sp. expandComparator (token_of sp)) sps))"
  using assms
proof (induction sps arbitrary: cs)
  case Nil
  then have none: "dropWhile js_space trail = []" by (simp add: list_all_iff)
  show ?case unfolding map_concat list.map concat.simps append_Nil none using Nil.prems(4) by simp
next
  case (Cons sp sps)
  let ?u = "concat (map spell sps) @ trail"
  have "ends_token ?u"
    using Cons.prems by (intro ends_token_spellings) auto
  then have "kComparatorScanner (dropWhile js_space (spell sp @ ?u)) = Some (token_of sp, dropWhile js_space ?u)"
    using Cons.prems(1) by (simp add: scanner_trims scan_spelling)
  then have "parse_comparators (dropWhile js_space (spell sp @ ?u)) cs =
      parse_comparators (dropWhile js_space ?u) (cs @ expandComparator (token_of sp))" by (rule parse_step)
  also have "\<dots> = Some ((cs @ expandComparator (token_of sp)) @ concat (map (\<lambda>sp. expandComparator (token_of sp)) sps))"
    by (rule Cons.IH) (use Cons.prems in auto)
  finally show ?case by simp
qed

lemma parseAlternative_spelled:
  assumes "alternative_ok (sps, trail)"
  shows "parseAlternative (alternative_text (sps, trail)) = Some (concat (map (\<lambda>sp. expandComparator (token_of sp)) sps))"
proof -
  obtain sp rest where sps: "sps = sp # rest" using assms by (cases sps) (auto simp: alternative_ok_def)
  let ?u = "concat (map spell rest) @ trail"
  have ok: "spelling_ok sp" "list_all spelling_ok rest" "list_all set_apart rest" "list_all js_space trail"
    using assms by (simp_all add: alternative_ok_def sps)
  have "ends_token ?u" by (rule ends_token_spellings [OF ok(2-4)])
  then have "kComparatorScanner (spell sp @ ?u) = Some (token_of sp, dropWhile js_space ?u)"
    using ok(1) by (simp add: scan_spelling)
  then have "parseAlternative (spell sp @ ?u) = parse_comparators (dropWhile js_space ?u) (expandComparator (token_of sp))"
    unfolding parseAlternative_def using parse_step by fastforce
  also have "\<dots> = Some (expandComparator (token_of sp) @ concat (map (\<lambda>sp. expandComparator (token_of sp)) rest))"
    by (rule parse_spelled [OF ok(2-4) expand_ne])
  finally show ?thesis by (simp add: alternative_text_def sps)
qed

lemma split_bars_plain: "CHR ''|'' \<notin> set s \<Longrightarrow> split_bars s = [s]"
  by (induction s rule: split_bars.induct) auto

lemma split_bars_append: "CHR ''|'' \<notin> set s \<Longrightarrow> split_bars (s @ ''||'' @ t) = s # split_bars t"
proof (induction s)
  case (Cons c s)
  then obtain d r where "s @ ''||'' @ t = d # r" by (cases s) auto
  then show ?case using Cons by (auto split: list.splits)
qed simp

lemma spaces_no_bar: "list_all js_space ws \<Longrightarrow> CHR ''|'' \<notin> set ws"
  by (induction ws) (auto simp: js_space_def)

lemma digits_no_bar: "digits ds \<Longrightarrow> CHR ''|'' \<notin> set ds"
  by (auto simp: digits_def list_all_iff digit_def)

lemma part_no_bar: "pred_option digits p \<Longrightarrow> CHR ''|'' \<notin> set (part_text p)"
  using digits_no_bar by (cases p) (auto simp: part_text_def)

lemma spell_no_bar: "spelling_ok sp \<Longrightarrow> CHR ''|'' \<notin> set (spell sp)"
  using spaces_no_bar [of "spLead sp"] spaces_no_bar [of "spMid sp"] digits_no_bar [of "spMajor sp"]
    part_no_bar [of "spMinor sp"] part_no_bar [of "spPatch sp"]
  by (auto simp: spelling_ok_def spell_def op_text_def split: option.splits cmp_op.splits if_splits)

lemma alternative_no_bar: "alternative_ok a \<Longrightarrow> CHR ''|'' \<notin> set (alternative_text a)"
  using spell_no_bar spaces_no_bar by (cases a) (fastforce simp: alternative_ok_def alternative_text_def list_all_iff)

lemma split_range_text:
  "as \<noteq> [] \<Longrightarrow> list_all alternative_ok as \<Longrightarrow> split_bars (range_text as) = map alternative_text as"
  by (induction as rule: range_text.induct)
    (use split_bars_append alternative_no_bar in \<open>auto simp: split_bars_plain alternative_no_bar\<close>)

lemma parse_alternatives_spelled:
  "list_all alternative_ok as \<Longrightarrow> parse_alternatives (map alternative_text as) =
     Some (map (\<lambda>a. concat (map (\<lambda>sp. expandComparator (token_of sp)) (fst a))) as)"
  by (induction as) (auto simp: parseAlternative_spelled)

lemma token_of_ok: "spelling_ok sp \<Longrightarrow> token_ok (token_of sp)"
  by (simp add: spelling_ok_def token_ok_def token_of_def)

lemma spell_nonempty: "spelling_ok sp \<Longrightarrow> spell sp \<noteq> []"
  by (auto simp: spelling_ok_def spell_def digits_def)

lemma range_text_nonempty: "as \<noteq> [] \<Longrightarrow> list_all alternative_ok as \<Longrightarrow> range_text as \<noteq> []"
  using spell_nonempty
  by (induction as rule: range_text.induct)
    (fastforce simp: alternative_ok_def alternative_text_def neq_Nil_conv)+

lemma list_all_concat: "list_all P (concat xss) \<longleftrightarrow> list_all (list_all P) xss"
  by (auto simp: list_all_iff)

lemma alternative_holds:
  assumes "list_all spelling_ok sps"
  shows "list_all (\<lambda>c. comparatorHolds c v) (concat (map (\<lambda>sp. expandComparator (token_of sp)) sps))
    \<longleftrightarrow> list_all (\<lambda>sp. npm_allows (token_of sp) v) sps"
  using assms by (induction sps) (simp_all add: expand_allows token_of_ok)

text \<open>The rounds of the loop of \<open>parseAlternative\<close>: each scans one comparator.\<close>

inductive scans :: "string \<Rightarrow> comparator_token list \<Rightarrow> string \<Rightarrow> bool" where
  scans_stop: "scans s [] s"
| scans_round: "kComparatorScanner s = Some (t, s') \<Longrightarrow> scans s' ts rest \<Longrightarrow> scans s (t # ts) rest"

lemma scans_length: "scans s ts rest \<Longrightarrow> length ts + length rest \<le> length s"
  by (induction rule: scans.induct) (auto dest: scanner_shorter)

lemma scans_parse:
  "\<exists>ts rest. scans s ts rest \<and> kComparatorScanner rest = None
     \<and> parse_comparators s cs = (if list_all js_space rest \<and> cs @ concat (map expandComparator ts) \<noteq> []
       then Some (cs @ concat (map expandComparator ts)) else None)"
proof (induction s cs rule: parse_comparators.induct)
  case (1 cs)
  have "kComparatorScanner [] = None"
    by (simp add: kComparatorScanner_def scan_op_def starts_with_def scan_digits_def skip_v_def)
  then show ?case by (intro exI [of _ "[]"] conjI scans_stop) auto
next
  case (2 c s cs)
  show ?case
  proof (cases "kComparatorScanner (c # s)")
    case None
    then show ?thesis by (intro exI [of _ "[]"] exI [of _ "c # s"] conjI scans_stop) auto
  next
    case (Some p)
    then obtain t r where p: "kComparatorScanner (c # s) = Some (t, r)" by (cases p) auto
    obtain ts rest where ih: "scans r ts rest" "kComparatorScanner rest = None"
      "parse_comparators r (cs @ expandComparator t) =
        (if list_all js_space rest \<and> (cs @ expandComparator t) @ concat (map expandComparator ts) \<noteq> []
         then Some ((cs @ expandComparator t) @ concat (map expandComparator ts)) else None)"
      using 2 [OF p] by blast
    show ?thesis
      by (rule exI [of _ "t # ts"], rule exI [of _ rest], intro conjI scans_round [OF p ih(1)] ih(2))
        (use ih(3) p in simp)
  qed
qed

lemma scanner_rest: "kComparatorScanner s = Some (t, rest) \<Longrightarrow> rest = [] \<or> \<not> js_space (hd rest)"
proof -
  assume "kComparatorScanner s = Some (t, rest)"
  then obtain u where "rest = dropWhile js_space u"
    by (auto simp: kComparatorScanner_def split: prod.splits option.splits)
  then show ?thesis using hd_dropWhile [of js_space u] by auto
qed

lemma scans_rest: "scans s ts rest \<Longrightarrow> ts \<noteq> [] \<Longrightarrow> rest = [] \<or> \<not> js_space (hd rest)"
  by (induction rule: scans.induct) (metis list.simps(3) scanner_rest scans.cases)+

lemmas range_eval = parseEngineRange_def parseAlternative_def kComparatorScanner_def scan_op_def starts_with_def
  scan_digits_def skip_v_def scan_part_def expandComparator_def next_line_def or_zero_def js_space_def js_trim_def
  digit_def js_number_def

lemma floor_range: "parseEngineRange kAlphaclawNodeEngines =
   Some [[\<lparr>cmOp = OpGe, cmVersion = Triple 24 22 1\<rparr>, \<lparr>cmOp = OpLt, cmVersion = Triple 25 0 0\<rparr>],
         [\<lparr>cmOp = OpGe, cmVersion = Triple 26 12 1\<rparr>]]"
  by (simp add: kAlphaclawNodeEngines_def range_eval)

lemma skip_v_digits: "scan_digits s = Some x \<Longrightarrow> skip_v s = s"
  by (cases s) (auto simp: scan_digits_def skip_v_def digit_def split: if_splits)

lemma scan_triple_digits: "scan_triple s = Some x \<Longrightarrow> skip_v s = s"
  using skip_v_digits by (auto simp: scan_triple_def split: option.splits)

section \<open>Properties\<close>

text \<open>C28. A spelled range means what npm's partial versions mean: however its comparators are written
  (white space, \<open>v\<close>, one to three parts, comparators without a blank between them), a readable version
  satisfies it exactly when it is a release and some alternative's comparators all admit it, where an
  operator compares with the whole line of versions its comparator names.\<close>

theorem engines_semantics:
  assumes "js_trim spec = range_text alternatives" "alternatives \<noteq> []" "list_all alternative_ok alternatives"
    and "parseRuntimeVersion version = Some (v, prerelease)"
  shows "satisfiesEngines spec version \<longleftrightarrow>
    \<not> prerelease \<and> (\<exists>a \<in> set alternatives. \<forall>sp \<in> set (fst a). npm_allows (token_of sp) v)"
proof -
  have range: "parseEngineRange spec =
      Some (map (\<lambda>a. concat (map (\<lambda>sp. expandComparator (token_of sp)) (fst a))) alternatives)"
    using assms(1-3) by (simp add: parseEngineRange_def range_text_nonempty split_range_text parse_alternatives_spelled)
  have holds: "list_all (\<lambda>c. comparatorHolds c v) (concat (map (\<lambda>sp. expandComparator (token_of sp)) (fst a)))
      \<longleftrightarrow> (\<forall>sp \<in> set (fst a). npm_allows (token_of sp) v)" if "a \<in> set alternatives" for a
    using alternative_holds [of "fst a" v] assms(3) that by (auto simp: list_all_iff alternative_ok_def)
  show ?thesis
    unfolding satisfiesEngines_def range assms(4) using holds by (auto simp: list_ex_iff)
qed

text \<open>C29. The parser of an alternative ends: each round of its loop scans one comparator and consumes
  text, so there are at most as many rounds as characters; the answer is the comparators of all
  rounds when they read the whole text, and nothing otherwise (the branch for trailing white space
  is never taken, the scanner has consumed it).\<close>

theorem parser_terminates:
  "\<exists>ts rest. scans alternative ts rest \<and> kComparatorScanner rest = None \<and> length ts + length rest \<le> length alternative
     \<and> parseAlternative alternative = (if ts \<noteq> [] \<and> rest = [] then Some (concat (map expandComparator ts)) else None)"
proof -
  obtain ts rest where s: "scans alternative ts rest" "kComparatorScanner rest = None"
    "parseAlternative alternative = (if list_all js_space rest \<and> concat (map expandComparator ts) \<noteq> []
      then Some (concat (map expandComparator ts)) else None)"
    using scans_parse [of alternative "[]"] by (auto simp: parseAlternative_def)
  have some: "concat (map expandComparator ts) \<noteq> [] \<longleftrightarrow> ts \<noteq> []" by (cases ts) (simp_all add: expand_ne)
  have whole: "list_all js_space rest \<longleftrightarrow> rest = []" if "ts \<noteq> []"
    using scans_rest [OF s(1) that] by (cases rest) simp_all
  have "parseAlternative alternative = (if ts \<noteq> [] \<and> rest = [] then Some (concat (map expandComparator ts)) else None)"
    unfolding s(3) some using whole by presburger
  then show ?thesis using s(1,2) scans_length [OF s(1)] by blast
qed

text \<open>The floor of AlphaClaw's own runtime fails closed: a Node version is supported exactly when it
  reads as a release on the 24 line from 24.22.1, or from 26.12.1 on; 25, prereleases and anything
  unreadable are not.\<close>

lemma node_floor:
  "isSupportedNodeVersion value \<longleftrightarrow> (\<exists>a b c rest. scan_triple (js_trim value) = Some (Triple a b c, rest)
     \<and> \<not> (\<exists>d s. rest = CHR ''-'' # d # s \<and> prerelease_char d)
     \<and> (a = 24 \<and> (22 < b \<or> b = 22 \<and> 1 \<le> c) \<or> 26 < a \<or> a = 26 \<and> (12 < b \<or> b = 12 \<and> 1 \<le> c)))"
proof (cases "scan_triple (js_trim value)")
  case None
  then show ?thesis by (simp add: isSupportedNodeVersion_def parseNodeVersion_def)
next
  case (Some p)
  obtain a b c rest where p: "p = (Triple a b c, rest)" by (metis surj_pair triple.exhaust)
  define pre where "pre \<longleftrightarrow> (case rest of c # d # _ \<Rightarrow> c = CHR ''-'' \<and> prerelease_char d | _ \<Rightarrow> False)"
  have pre: "pre \<longleftrightarrow> (\<exists>d s. rest = CHR ''-'' # d # s \<and> prerelease_char d)"
    by (auto simp: pre_def split: list.splits)
  have scan: "scan_triple (js_trim value) = Some (Triple a b c, rest)" using Some p by simp
  have read: "parseRuntimeVersion value = Some (Triple a b c, pre)" "parseNodeVersion value \<noteq> None"
    by (simp_all add: parseRuntimeVersion_def scan_triple_digits [OF scan] scan pre_def parseNodeVersion_def)
  have "isSupportedNodeVersion value \<longleftrightarrow> \<not> pre
      \<and> (Triple 24 22 1 \<le> Triple a b c \<and> Triple a b c < Triple 25 0 0 \<or> Triple 26 12 1 \<le> Triple a b c)"
    unfolding isSupportedNodeVersion_def satisfiesEngines_def floor_range read(1) option.case prod.case
    using read(2) by (simp del: less_eq_triple less_triple compareTriples.simps not_None_eq
        add: comparatorHolds_def compare_sign Let_def)
  then show ?thesis unfolding scan pre by auto
qed

definition sample_range :: "alternative list" where
  "sample_range =
     [([\<lparr>spLead = [], spOp = Some OpGe, spMid = '' '', spV = True, spMajor = ''24'', spMinor = Some ''16'', spPatch = None\<rparr>,
        \<lparr>spLead = [], spOp = Some OpLe, spMid = [], spV = False, spMajor = ''24'', spMinor = None, spPatch = None\<rparr>], '' ''),
      ([\<lparr>spLead = '' '', spOp = None, spMid = [], spV = False, spMajor = ''26'', spMinor = None, spPatch = None\<rparr>], [])]"

lemma engines_semantics_witness:
  "satisfiesEngines '' >= v24.16<=24 || 26'' ''24.17.3'' \<longleftrightarrow>
     \<not> False \<and> (\<exists>a \<in> set sample_range. \<forall>sp \<in> set (fst a). npm_allows (token_of sp) (Triple 24 17 3))"
  by (rule engines_semantics)
    (simp_all add: sample_range_def range_eval alternative_text_def spell_def op_text_def part_text_def
      alternative_ok_def spelling_ok_def set_apart_def digits_def parseRuntimeVersion_def scan_triple_def)

end
