(* ===== verification/Incident_Ledger.thy ===== *)
theory Incident_Ledger
  imports Prelude "HOL-Library.AList"
begin

text \<open>
  \<open>watchdog-incidents.js\<close> over the incident part of \<open>db/watchdog/index.js\<close>: the tracker that wraps the
  watchdog's event sink and derives incidents from the events that pass through it. The tables are
  lists of rows in id order; the tracker is the closure's two variables. Every call of the database
  may throw: which ones do is an input of each step, as are the clock, the redaction of details and
  the memory episode of the resource sample. The status snapshot and the log lines are not modelled.

  The lemmas: the ledger stays well-formed whatever throws; an event is written once; severity only
  rises; without faults the whole is an automaton over one optional open incident.
\<close>

section \<open>Events and rows\<close>

text \<open>The fields of \<open>details\<close> the tracker and the insert read: flags by truthiness, texts only when they
  are strings (\<open>edReason\<close>, \<open>edId\<close>, \<open>edAttempt\<close> and \<open>edState\<close> empty when absent). \<open>None\<close> for details that are
  no object.\<close>

record event_details =
  edSkipped :: bool
  edReadinessPending :: bool
  edReplacementPending :: bool
  edRecovered :: bool
  edReason :: string
  edFingerprint :: "string option"
  edCause :: "string option"
  edCorroborated :: bool
  edBy :: "string option"
  edSuspected :: "string option"
  edPid :: "int option"
  edId :: string
  edAttempt :: string
  edState :: string

record wd_event =
  evType :: string
  evSource :: string
  evStatus :: string
  evDetails :: "event_details option"

definition no_details :: event_details where
  "no_details = \<lparr>edSkipped = False, edReadinessPending = False, edReplacementPending = False, edRecovered = False,
     edReason = [], edFingerprint = None, edCause = None, edCorroborated = False, edBy = None, edSuspected = None,
     edPid = None, edId = [], edAttempt = [], edState = []\<rparr>"

definition details_of :: "wd_event \<Rightarrow> event_details" where
  "details_of ev = (case evDetails ev of None \<Rightarrow> no_details | Some d \<Rightarrow> d)"

record event_row =
  vrId :: nat
  vrEvent :: wd_event
  vrIncident :: "nat option"
  vrCreated :: int

datatype severity = Warning | Critical
datatype incident_status = IsOpen | IsResolved | IsAbandoned

record crash_cause =
  ccCause :: string
  ccFingerprint :: "string option"
  ccCorroborated :: bool
  ccBy :: "string option"
  ccSuspected :: "string option"
  ccAt :: int

text \<open>The last memory episode of a resource sample: when it ended, the process it was about, and the
  worker its evidence names.\<close>

record episode =
  epEnded :: "int option"
  epPid :: "int option"
  epWorker :: "int option"

record rollup =
  roTrigger :: string
  roOpenedAt :: int
  roCounts :: "(string \<times> nat) list"
  roActions :: "string list"
  roSeverity :: severity
  roDetail :: "string option"
  roFingerprints :: "(string \<times> nat) list"
  roCause :: "crash_cause option"
  roPids :: "int list"

record incident_summary =
  smRollup :: rollup
  smResolvedAt :: int
  smDurationMs :: int
  smEpisode :: "episode option"

record incident_row =
  irId :: nat
  irKey :: string
  irStatus :: incident_status
  irOpened :: int
  irResolved :: "int option"
  irSummary :: "incident_summary option"
  irCause :: "crash_cause option"
  irSeverity :: "severity option"

record ledger =
  ldIncidents :: "incident_row list"
  ldNextIncident :: nat
  ldEvents :: "event_row list"
  ldNextEvent :: nat

datatype db_call = CallGetOpen | CallCounts | CallBegin | CallInsertIncident | CallInsertOpening | CallCommit
  | CallInsertStamped | CallInsertPlain | CallSeverity | CallSetCause | CallGetById | CallResolve | CallAbandon

record ledger_ctx =
  lxNow :: int
  lxFault :: "db_call \<Rightarrow> bool"
  lxRedact :: "event_details \<Rightarrow> event_details"
  lxEpisode :: "episode option"

section \<open>The database\<close>

text \<open>\<open>insertWatchdogEvent\<close>: two kinds of events are written once per identity.\<close>

definition already_written :: "wd_event \<Rightarrow> event_row list \<Rightarrow> bool" where
  "already_written ev rows =
     (let d = details_of ev in
      if evType ev = ''notification_expired'' \<and> evSource ev = ''notify-outbox'' \<and> edId d \<noteq> [] then
        list_ex (\<lambda>r. evType (vrEvent r) = ''notification_expired'' \<and> evSource (vrEvent r) = ''notify-outbox''
          \<and> edId (details_of (vrEvent r)) = edId d) rows
      else if evType ev = ''managed_update'' \<and> evSource ev = ''alphaclaw_update'' \<and> edAttempt d \<noteq> [] \<and> edState d \<noteq> [] then
        list_ex (\<lambda>r. evType (vrEvent r) = ''managed_update'' \<and> evSource (vrEvent r) = ''alphaclaw_update''
          \<and> edAttempt (details_of (vrEvent r)) = edAttempt d \<and> edState (details_of (vrEvent r)) = edState d) rows
      else False)"

definition stored_event :: "ledger_ctx \<Rightarrow> wd_event \<Rightarrow> wd_event" where
  "stored_event cx ev = ev\<lparr>evStatus := (if evStatus ev = [] then ''failed'' else evStatus ev),
     evDetails := map_option (lxRedact cx) (evDetails ev)\<rparr>"

definition insertWatchdogEvent :: "ledger_ctx \<Rightarrow> wd_event \<Rightarrow> nat option \<Rightarrow> ledger \<Rightarrow> nat \<times> ledger" where
  "insertWatchdogEvent cx ev incident db =
     (if already_written ev (ldEvents db) then (0, db)
      else (ldNextEvent db,
        db\<lparr>ldEvents := ldEvents db @ [\<lparr>vrId = ldNextEvent db, vrEvent = stored_event cx ev, vrIncident = incident,
               vrCreated = lxNow cx\<rparr>],
           ldNextEvent := Suc (ldNextEvent db)\<rparr>))"

definition getOpenIncident :: "ledger \<Rightarrow> incident_row option" where
  "getOpenIncident db = find (\<lambda>r. irStatus r = IsOpen) (ldIncidents db)"

text \<open>\<open>GROUP BY event_type\<close>; SQL leaves the order of the groups open.\<close>

definition getIncidentEventTypeCounts :: "nat \<Rightarrow> ledger \<Rightarrow> (string \<times> nat) list" where
  "getIncidentEventTypeCounts i db =
     (let types = map (\<lambda>r. evType (vrEvent r)) (filter (\<lambda>r. vrIncident r = Some i) (ldEvents db)) in
      map (\<lambda>t. (t, count_list types t)) (remdups types))"

text \<open>\<open>INSERT\<close> of an open incident; the partial unique index refuses a second one.\<close>

definition insertIncident :: "ledger_ctx \<Rightarrow> string \<Rightarrow> ledger \<Rightarrow> (nat \<times> ledger) option" where
  "insertIncident cx key db =
     (if list_ex (\<lambda>r. irStatus r = IsOpen) (ldIncidents db) then None
      else Some (ldNextIncident db,
        db\<lparr>ldIncidents := ldIncidents db @ [\<lparr>irId = ldNextIncident db, irKey = key, irStatus = IsOpen, irOpened = lxNow cx,
               irResolved = None, irSummary = None, irCause = None, irSeverity = None\<rparr>],
           ldNextIncident := Suc (ldNextIncident db)\<rparr>))"

definition update_incidents :: "(incident_row \<Rightarrow> bool) \<Rightarrow> (incident_row \<Rightarrow> incident_row) \<Rightarrow> ledger \<Rightarrow> ledger" where
  "update_incidents p f db = db\<lparr>ldIncidents := sql_update p f (ldIncidents db)\<rparr>"

definition resolveIncident :: "ledger_ctx \<Rightarrow> nat \<Rightarrow> incident_summary \<Rightarrow> ledger \<Rightarrow> ledger" where
  "resolveIncident cx i summary = update_incidents (\<lambda>r. irId r = i \<and> irStatus r = IsOpen)
     (\<lambda>r. r\<lparr>irStatus := IsResolved, irResolved := Some (lxNow cx), irSummary := Some summary\<rparr>)"

definition updateIncidentCause :: "nat \<Rightarrow> crash_cause \<Rightarrow> ledger \<Rightarrow> ledger" where
  "updateIncidentCause i cause = update_incidents (\<lambda>r. irId r = i) (\<lambda>r. r\<lparr>irCause := Some cause\<rparr>)"

definition updateIncidentSeverity :: "nat \<Rightarrow> severity \<Rightarrow> ledger \<Rightarrow> ledger" where
  "updateIncidentSeverity i sev = update_incidents (\<lambda>r. irId r = i) (\<lambda>r. r\<lparr>irSeverity := Some sev\<rparr>)"

definition getIncidentById :: "nat \<Rightarrow> ledger \<Rightarrow> incident_row option" where
  "getIncidentById i db = find (\<lambda>r. irId r = i) (ldIncidents db)"

definition kOverseerReviewEventType :: string where "kOverseerReviewEventType = ''overseer_review''"

definition abandon_time :: "ledger \<Rightarrow> incident_row \<Rightarrow> int" where
  "abandon_time db r =
     (let times = map vrCreated (filter (\<lambda>v. vrIncident v = Some (irId r)
            \<and> evType (vrEvent v) \<noteq> kOverseerReviewEventType) (ldEvents db)) in
      case times of [] \<Rightarrow> irOpened r | t # ts \<Rightarrow> fold max ts t)"

definition abandonOpenIncidents :: "ledger \<Rightarrow> ledger" where
  "abandonOpenIncidents db = update_incidents (\<lambda>r. irStatus r = IsOpen)
     (\<lambda>r. r\<lparr>irStatus := IsAbandoned, irResolved := Some (abandon_time db r)\<rparr>) db"

definition kDayMs :: int where "kDayMs = 24 * 60 * 60 * 1000"

definition safe_days :: "int \<Rightarrow> int" where "safe_days days = (if days = 0 then 30 else max 1 days)"

definition pruneWatchdogEvents :: "int \<Rightarrow> int \<Rightarrow> ledger \<Rightarrow> ledger" where
  "pruneWatchdogEvents now days db =
     db\<lparr>ldEvents := sql_delete (\<lambda>r. vrCreated r < now - safe_days days * kDayMs) (ldEvents db)\<rparr>"

definition pruneWatchdogIncidents :: "int \<Rightarrow> int \<Rightarrow> ledger \<Rightarrow> ledger" where
  "pruneWatchdogIncidents now days db =
     db\<lparr>ldIncidents := sql_delete (\<lambda>r. irStatus r \<noteq> IsOpen \<and> irOpened r < now - safe_days days * kDayMs) (ldIncidents db)\<rparr>"

section \<open>The tracker\<close>

datatype decision = DOpen | DClose | DCloseSafe | DAppend

definition classifyEvent :: "wd_event \<Rightarrow> decision" where
  "classifyEvent ev =
     (let t = evType ev; status = evStatus ev; d = details_of ev in
      if t \<in> {''crash'', ''config_error'', ''version_mismatch''} then DOpen
      else if t = ''readiness_degraded'' then (if status = ''failed'' then DOpen else DAppend)
      else if t = ''health_check'' then
        (if status = ''failed'' then DOpen
         else if status = ''ok'' \<and> (edReadinessPending d \<or> edReplacementPending d) then DAppend
         else if status = ''ok'' \<and> \<not> edSkipped d then DClose
         else DAppend)
      else if t = ''safe_mode'' then (if edRecovered d then DCloseSafe else DOpen)
      else if t = ''recovery'' then DClose
      else DAppend)"

definition kCriticalEventTypes :: "string set" where
  "kCriticalEventTypes = {''crash_loop'', ''config_error'', ''version_mismatch'', ''auto_repair_paused''}"

definition kEscalationEventTypes :: "string set" where
  "kEscalationEventTypes = {''crash_loop'', ''version_mismatch'', ''auto_repair_paused''}"

definition kActionEventTypes :: "string set" where
  "kActionEventTypes = {''repair'', ''restart'', ''safe_mode_resume''}"

definition kFingerprintCriticalCount :: nat where "kFingerprintCriticalCount = 3"

definition kFingerprintPattern :: "string \<Rightarrow> bool" where
  "kFingerprintPattern s \<longleftrightarrow> 6 \<le> length s \<and> length s \<le> 64
     \<and> list_all (\<lambda>c. let k = (of_char c :: nat) in 97 \<le> k \<and> k \<le> 102 \<or> 48 \<le> k \<and> k \<le> 57) s"

definition kIncidentKeyByTrigger :: "string \<Rightarrow> string option" where
  "kIncidentKeyByTrigger = map_of [(''crash'', ''gateway_crash''), (''health_check'', ''gateway_degraded''),
     (''readiness_degraded'', ''gateway_readiness''), (''config_error'', ''config_error''),
     (''safe_mode'', ''safe_mode''), (''crash_loop'', ''crash_loop''), (''version_mismatch'', ''version_mismatch'')]"

definition incident_key :: "wd_event \<Rightarrow> string" where
  "incident_key ev = (case kIncidentKeyByTrigger (evType ev) of None \<Rightarrow> ''gateway_degraded'' | Some k \<Rightarrow> k)"

definition kEpisodeCorrelationLeadMs :: int where "kEpisodeCorrelationLeadMs = 10 * 60 * 1000"

datatype activity = ActivityOpen string "nat option" | ActivityEscalation string "nat option"

record tracker =
  trActive :: "nat option"
  trRollup :: "rollup option"

definition startRollup :: "ledger_ctx \<Rightarrow> wd_event \<Rightarrow> rollup" where
  "startRollup cx ev = \<lparr>roTrigger = incident_key ev, roOpenedAt = lxNow cx, roCounts = [], roActions = [],
     roSeverity = Warning,
     roDetail = (case evDetails ev of None \<Rightarrow> None | Some d \<Rightarrow> if edReason d = [] then None else Some (take 200 (edReason d))),
     roFingerprints = [], roCause = None, roPids = []\<rparr>"

definition count_of :: "string \<Rightarrow> (string \<times> nat) list \<Rightarrow> nat" where
  "count_of k m = (case map_of m k of None \<Rightarrow> 0 | Some n \<Rightarrow> n)"

text \<open>The tracker's steps read and write the rollup and the open row: an incident id, the rollup and the
  database; \<open>escalateSeverity\<close> also answers whether the severity changed.\<close>

definition escalateSeverity :: "ledger_ctx \<Rightarrow> nat option \<Rightarrow> severity \<Rightarrow> rollup \<times> ledger \<Rightarrow> bool \<times> rollup \<times> ledger" where
  "escalateSeverity cx i sev p = (case p of (ro, db) \<Rightarrow>
     if roSeverity ro = sev then (False, ro, db)
     else (True, ro\<lparr>roSeverity := sev\<rparr>,
       case i of None \<Rightarrow> db | Some k \<Rightarrow> if lxFault cx CallSeverity then db else updateIncidentSeverity k sev db))"

definition trackFingerprint :: "ledger_ctx \<Rightarrow> nat option \<Rightarrow> event_details \<Rightarrow> rollup \<times> ledger \<Rightarrow> bool \<times> rollup \<times> ledger" where
  "trackFingerprint cx i d p = (case p of (ro, db) \<Rightarrow>
     (case edFingerprint d of
        None \<Rightarrow> (False, ro, db)
      | Some f \<Rightarrow>
          if \<not> kFingerprintPattern f then (False, ro, db)
          else let n = count_of f (roFingerprints ro) + 1;
                   ro1 = ro\<lparr>roFingerprints := AList.update f n (roFingerprints ro)\<rparr> in
               if n < kFingerprintCriticalCount then (False, ro1, db) else escalateSeverity cx i Critical (ro1, db)))"

definition trackCause :: "ledger_ctx \<Rightarrow> nat option \<Rightarrow> event_details \<Rightarrow> rollup \<times> ledger \<Rightarrow> rollup \<times> ledger" where
  "trackCause cx i d p = (case p of (ro, db) \<Rightarrow>
     (case edCause d of
        None \<Rightarrow> (ro, db)
      | Some cause \<Rightarrow>
          if cause = [] then (ro, db)
          else let new = \<lparr>ccCause = take 64 cause, ccFingerprint = map_option (take 64) (edFingerprint d),
                     ccCorroborated = edCorroborated d, ccBy = map_option (take 64) (edBy d),
                     ccSuspected = map_option (take 64) (edSuspected d), ccAt = lxNow cx\<rparr> in
               if (\<exists>c. roCause ro = Some c \<and> ccCorroborated c) \<and> \<not> ccCorroborated new then (ro, db)
               else (ro\<lparr>roCause := Some new\<rparr>,
                 case i of None \<Rightarrow> db | Some k \<Rightarrow> if lxFault cx CallSetCause then db else updateIncidentCause k new db)))"

definition track_pid :: "wd_event \<Rightarrow> rollup \<Rightarrow> rollup" where
  "track_pid ev ro =
     (case (evType ev = ''crash'', edPid (details_of ev)) of
        (True, Some pid) \<Rightarrow>
          if 0 < pid \<and> pid \<notin> set (roPids ro) \<and> length (roPids ro) < 20 then ro\<lparr>roPids := roPids ro @ [pid]\<rparr> else ro
      | _ \<Rightarrow> ro)"

definition count_event :: "wd_event \<Rightarrow> rollup \<Rightarrow> rollup" where
  "count_event ev ro = ro\<lparr>roCounts := AList.update (evType ev) (count_of (evType ev) (roCounts ro) + 1) (roCounts ro)\<rparr>"

definition note_action :: "string \<Rightarrow> rollup \<Rightarrow> rollup" where
  "note_action t ro = (if t \<in> kActionEventTypes \<and> t \<notin> set (roActions ro) then ro\<lparr>roActions := roActions ro @ [t]\<rparr> else ro)"

definition trackEvent :: "ledger_ctx \<Rightarrow> nat option \<Rightarrow> wd_event \<Rightarrow> rollup \<times> ledger \<Rightarrow> bool \<times> rollup \<times> ledger" where
  "trackEvent cx i ev p = (case p of (ro, db) \<Rightarrow>
     let ro1 = count_event ev ro in
     case (if evType ev \<in> kCriticalEventTypes then escalateSeverity cx i Critical (ro1, db) else (False, ro1, db))
     of (esc1, ro2, db2) \<Rightarrow>
     case trackFingerprint cx i (details_of ev) (note_action (evType ev) ro2, db2) of (esc2, ro3, db3) \<Rightarrow>
     case trackCause cx i (details_of ev) (ro3, db3) of (ro4, db4) \<Rightarrow>
       (esc1 \<or> esc2, track_pid ev ro4, db4))"

definition empty_rollup :: rollup where
  "empty_rollup = \<lparr>roTrigger = ''gateway_degraded'', roOpenedAt = 0, roCounts = [], roActions = [], roSeverity = Warning,
     roDetail = None, roFingerprints = [], roCause = None, roPids = []\<rparr>"

text \<open>The episode kept as evidence: it ended in the incident's window, and where both sides know the
  process, it is one that crashed.\<close>

definition correlate_episode :: "int \<Rightarrow> rollup \<Rightarrow> episode \<Rightarrow> episode option" where
  "correlate_episode now ro e =
     (let in_window = (case epEnded e of None \<Rightarrow> False
            | Some t \<Rightarrow> roOpenedAt ro - kEpisodeCorrelationLeadMs \<le> t \<and> t \<le> now);
          mismatch = (roPids ro \<noteq> []
            \<and> (case epPid e of None \<Rightarrow> False | Some pid \<Rightarrow> 0 < pid \<and> pid \<notin> set (roPids ro))
            \<and> \<not> (case epWorker e of None \<Rightarrow> False | Some w \<Rightarrow> 0 < w \<and> w \<in> set (roPids ro))) in
      if \<not> in_window \<or> mismatch then None else Some e)"

definition buildCloseSummary :: "ledger_ctx \<Rightarrow> nat \<Rightarrow> rollup \<Rightarrow> ledger \<Rightarrow> incident_summary" where
  "buildCloseSummary cx i ro db =
     (let persisted = (if lxFault cx CallGetById then None else Option.bind (getIncidentById i db) irSeverity) in
      \<lparr>smRollup = (if persisted = Some Critical then ro\<lparr>roSeverity := Critical\<rparr> else ro),
       smResolvedAt = lxNow cx, smDurationMs = max 0 (lxNow cx - roOpenedAt ro),
       smEpisode = Option.bind (lxEpisode cx) (correlate_episode (lxNow cx) ro)\<rparr>)"

text \<open>An adopted orphan: its key, start, severity and cause, and the counts of its stamped events.\<close>

definition reseed :: "(string \<times> nat) list \<Rightarrow> rollup \<Rightarrow> rollup" where
  "reseed counts ro = foldl (\<lambda>ro (t, total).
     note_action t (let ro1 = ro\<lparr>roCounts := AList.update t (count_of t (roCounts ro) + total) (roCounts ro)\<rparr> in
       if t \<in> kCriticalEventTypes then ro1\<lparr>roSeverity := Critical\<rparr> else ro1)) ro counts"

definition adopt :: "ledger_ctx \<Rightarrow> wd_event \<Rightarrow> incident_row \<Rightarrow> ledger \<Rightarrow> rollup" where
  "adopt cx ev orphan db =
     (let ro = (startRollup cx ev)
            \<lparr>roTrigger := (if irKey orphan = [] then incident_key ev else irKey orphan), roOpenedAt := irOpened orphan,
             roSeverity := (if irSeverity orphan = Some Critical then Critical else Warning),
             roCause := irCause orphan\<rparr> in
      if lxFault cx CallCounts then ro else reseed (getIncidentEventTypeCounts (irId orphan) db) ro)"

definition no_tracker :: tracker where "no_tracker = \<lparr>trActive = None, trRollup = None\<rparr>"

type_synonym ledger_state = "tracker \<times> ledger"
type_synonym sink_answer = "nat \<times> activity list \<times> ledger_state"

definition plain_insert :: "ledger_ctx \<Rightarrow> wd_event \<Rightarrow> ledger \<Rightarrow> nat \<times> ledger" where
  "plain_insert cx ev db = (if lxFault cx CallInsertPlain then (0, db) else insertWatchdogEvent cx ev None db)"

text \<open>The transaction of an open: the incident row, its rollup and its event, or nothing.\<close>

definition open_incident :: "ledger_ctx \<Rightarrow> wd_event \<Rightarrow> ledger \<Rightarrow> (nat \<times> tracker \<times> ledger) option" where
  "open_incident cx ev db =
     (if lxFault cx CallBegin \<or> lxFault cx CallInsertIncident then None
      else case insertIncident cx (incident_key ev) db of None \<Rightarrow> None
      | Some (i, db1) \<Rightarrow>
          (case trackEvent cx (Some i) ev (startRollup cx ev, db1) of (_, ro, db2) \<Rightarrow>
             if lxFault cx CallInsertOpening then None
             else (case insertWatchdogEvent cx ev (Some i) db2 of (v, db3) \<Rightarrow>
               if lxFault cx CallCommit then None else Some (v, \<lparr>trActive = Some i, trRollup = Some ro\<rparr>, db3))))"

definition closes :: "decision \<Rightarrow> rollup option \<Rightarrow> bool" where
  "closes decision ro \<longleftrightarrow> decision = DClose \<and> map_option roTrigger ro \<noteq> Some ''safe_mode''
     \<or> decision = DCloseSafe \<and> map_option roTrigger ro = Some ''safe_mode''"

text \<open>An event while an incident is active: the stamped insert, then severity, cause and transition.\<close>

definition stamped_insert :: "ledger_ctx \<Rightarrow> wd_event \<Rightarrow> nat \<Rightarrow> rollup option \<Rightarrow> ledger \<Rightarrow> sink_answer" where
  "stamped_insert cx ev i ro db =
     (if lxFault cx CallInsertStamped then
        (case plain_insert cx ev db of (v, db1) \<Rightarrow> (v, [], (\<lparr>trActive = Some i, trRollup = ro\<rparr>, db1)))
      else case insertWatchdogEvent cx ev (Some i) db of (v, db1) \<Rightarrow>
        (case (case ro of None \<Rightarrow> (False, None, db1)
             | Some r \<Rightarrow> (case trackEvent cx (Some i) ev (r, db1) of (esc, r2, db2) \<Rightarrow> (esc, Some r2, db2)))
         of (esc, ro2, db2) \<Rightarrow>
           let acts = (if evType ev \<in> kEscalationEventTypes \<or> esc then [ActivityEscalation (evType ev) (Some i)] else []) in
           if closes (classifyEvent ev) ro2 \<and> \<not> lxFault cx CallResolve then
             (v, acts, (no_tracker,
                resolveIncident cx i (buildCloseSummary cx i (case ro2 of None \<Rightarrow> empty_rollup | Some r \<Rightarrow> r) db2) db2))
           else (v, acts, (\<lparr>trActive = Some i, trRollup = ro2\<rparr>, db2))))"

definition wrapInsertEvent :: "ledger_ctx \<Rightarrow> wd_event \<Rightarrow> ledger_state \<Rightarrow> sink_answer" where
  "wrapInsertEvent cx ev st = (case st of (tr, db) \<Rightarrow>
     let failed = (case plain_insert cx ev db of (v, db1) \<Rightarrow> (v, [], (no_tracker, db1))) in
     case trActive tr of
       Some i \<Rightarrow> stamped_insert cx ev i (trRollup tr) db
     | None \<Rightarrow>
         if classifyEvent ev = DOpen then
           if lxFault cx CallGetOpen then failed
           else (case getOpenIncident db of
               Some orphan \<Rightarrow>
                 (case stamped_insert cx ev (irId orphan) (Some (adopt cx ev orphan db)) db of (v, acts, st1) \<Rightarrow>
                    (v, ActivityOpen (evType ev) (Some (irId orphan)) # acts, st1))
             | None \<Rightarrow>
                 (case open_incident cx ev db of
                    None \<Rightarrow> failed
                  | Some (v, tr1, db1) \<Rightarrow> (v, [ActivityOpen (evType ev) (trActive tr1)], (tr1, db1))))
         else (case plain_insert cx ev db of (v, db1) \<Rightarrow> (v, [], (tr, db1))))"

text \<open>The sink, the writers that bypass it, the prune timer, and a restart of the process: the database
  is opened and pruned, a new tracker abandons what the old one left open.\<close>

datatype ledger_op = LedgerEvent ledger_ctx wd_event | LedgerForeign ledger_ctx wd_event | LedgerPrune int int
  | LedgerBoot ledger_ctx int

definition prune_ledger :: "int \<Rightarrow> int \<Rightarrow> ledger \<Rightarrow> ledger" where
  "prune_ledger now days db = pruneWatchdogIncidents now days (pruneWatchdogEvents now days db)"

definition abandonDanglingOnBoot :: "ledger_ctx \<Rightarrow> ledger \<Rightarrow> ledger" where
  "abandonDanglingOnBoot cx db = (if lxFault cx CallAbandon then db else abandonOpenIncidents db)"

definition ledger_step :: "ledger_state \<Rightarrow> ledger_op \<Rightarrow> ledger_state" where
  "ledger_step st x = (case x of
       LedgerEvent cx ev \<Rightarrow> snd (snd (wrapInsertEvent cx ev st))
     | LedgerForeign cx ev \<Rightarrow> (fst st, snd (plain_insert cx ev (snd st)))
     | LedgerPrune now days \<Rightarrow> (fst st, prune_ledger now days (snd st))
     | LedgerBoot cx days \<Rightarrow> (no_tracker, abandonDanglingOnBoot cx (prune_ledger (lxNow cx) days (snd st))))"

definition empty_ledger :: ledger where
  "empty_ledger = \<lparr>ldIncidents = [], ldNextIncident = 1, ldEvents = [], ldNextEvent = 1\<rparr>"

section \<open>Well-formed ledgers\<close>

definition row_ok :: "incident_row \<Rightarrow> bool" where
  "row_ok r \<longleftrightarrow> (irStatus r = IsOpen \<longleftrightarrow> irResolved r = None) \<and> (irSummary r \<noteq> None \<longrightarrow> irStatus r = IsResolved)
     \<and> irKey r \<noteq> []"

definition is_open :: "incident_row \<Rightarrow> bool" where "is_open r \<longleftrightarrow> irStatus r = IsOpen"

definition incidents_wf :: "nat \<Rightarrow> incident_row list \<Rightarrow> bool" where
  "incidents_wf n rows \<longleftrightarrow> sorted_wrt (<) (map irId rows) \<and> (\<forall>r \<in> set rows. irId r < n \<and> row_ok r)
     \<and> sql_count is_open rows \<le> 1"

definition events_wf :: "nat \<Rightarrow> nat \<Rightarrow> event_row list \<Rightarrow> bool" where
  "events_wf n m rows \<longleftrightarrow> sorted_wrt (<) (map vrId rows)
     \<and> (\<forall>v \<in> set rows. vrId v < m \<and> pred_option (\<lambda>i. i < n) (vrIncident v))"

definition ledger_wf :: "ledger \<Rightarrow> bool" where
  "ledger_wf db \<longleftrightarrow> incidents_wf (ldNextIncident db) (ldIncidents db)
     \<and> events_wf (ldNextIncident db) (ldNextEvent db) (ldEvents db)"

text \<open>The open rows, as id and key.\<close>

definition open_rows :: "ledger \<Rightarrow> (nat \<times> string) list" where
  "open_rows db = map (\<lambda>r. (irId r, irKey r)) (filter is_open (ldIncidents db))"

text \<open>The tracker is idle, or follows an open row under its key.\<close>

definition tracker_ok :: "tracker \<Rightarrow> ledger \<Rightarrow> bool" where
  "tracker_ok tr db \<longleftrightarrow> (case (trActive tr, trRollup tr) of
       (None, None) \<Rightarrow> True
     | (Some i, Some ro) \<Rightarrow> (i, roTrigger ro) \<in> set (open_rows db)
     | _ \<Rightarrow> False)"

definition ledger_ok :: "ledger_state \<Rightarrow> bool" where
  "ledger_ok st \<longleftrightarrow> (case st of (tr, db) \<Rightarrow> ledger_wf db \<and> tracker_ok tr db)"

text \<open>The tracker only decorates rows: cause and severity change, the rest stays, critical stays.\<close>

definition row_decorates :: "incident_row \<Rightarrow> incident_row \<Rightarrow> bool" where
  "row_decorates r s \<longleftrightarrow> irId s = irId r \<and> irKey s = irKey r \<and> irStatus s = irStatus r \<and> irOpened s = irOpened r
     \<and> irResolved s = irResolved r \<and> irSummary s = irSummary r
     \<and> (irSeverity r = Some Critical \<longrightarrow> irSeverity s = Some Critical)"

definition decorates :: "ledger \<Rightarrow> ledger \<Rightarrow> bool" where
  "decorates db db' \<longleftrightarrow> ldEvents db' = ldEvents db \<and> ldNextEvent db' = ldNextEvent db \<and> ldNextIncident db' = ldNextIncident db
     \<and> list_all2 row_decorates (ldIncidents db) (ldIncidents db')"

lemma decorates_refl: "decorates db db"
  by (simp add: decorates_def list_all2_same row_decorates_def)

lemma row_decorates_trans: "row_decorates r s \<Longrightarrow> row_decorates s t \<Longrightarrow> row_decorates r t"
  by (simp add: row_decorates_def)

lemma decorates_trans:
  assumes "decorates a b" "decorates b c" shows "decorates a c"
proof -
  have "list_all2 row_decorates (ldIncidents a) (ldIncidents c)"
    by (rule list_all2_trans [of row_decorates row_decorates row_decorates "ldIncidents a" "ldIncidents b"])
      (use assms row_decorates_trans in \<open>simp_all add: decorates_def\<close>)
  then show ?thesis using assms by (simp add: decorates_def)
qed

lemma decorates_severity: "decorates db (updateIncidentSeverity i Critical db)"
  by (auto simp: decorates_def updateIncidentSeverity_def update_incidents_def sql_update_def list_all2_conv_all_nth row_decorates_def)

lemma decorates_cause: "decorates db (updateIncidentCause i c db)"
  by (auto simp: decorates_def updateIncidentCause_def update_incidents_def sql_update_def list_all2_conv_all_nth row_decorates_def)

lemma escalate_decorates:
  assumes "escalateSeverity cx i Critical (ro, db) = (esc, ro', db')"
  shows "decorates db db'" "roTrigger ro' = roTrigger ro" "roSeverity ro' = Critical"
  using assms decorates_refl decorates_severity
  by (auto simp: escalateSeverity_def split: if_splits option.splits)

lemma fingerprint_decorates:
  assumes "trackFingerprint cx i d (ro, db) = (esc, ro', db')"
  shows "decorates db db'" "roTrigger ro' = roTrigger ro" "roSeverity ro = Critical \<longrightarrow> roSeverity ro' = Critical"
  using assms decorates_refl escalate_decorates(1) escalate_decorates(2) escalate_decorates(3)
  by (fastforce simp: trackFingerprint_def Let_def split: if_splits option.splits)+

lemma cause_decorates:
  assumes "trackCause cx i d (ro, db) = (ro', db')"
  shows "decorates db db'" "roTrigger ro' = roTrigger ro" "roSeverity ro' = roSeverity ro"
  using assms decorates_refl decorates_cause
  by (auto simp: trackCause_def Let_def split: if_splits option.splits)

lemma track_simps [simp]:
  "roTrigger (count_event ev ro) = roTrigger ro" "roSeverity (count_event ev ro) = roSeverity ro"
  "roTrigger (note_action t ro) = roTrigger ro" "roSeverity (note_action t ro) = roSeverity ro"
  "roTrigger (track_pid ev ro) = roTrigger ro" "roSeverity (track_pid ev ro) = roSeverity ro"
  by (simp_all add: count_event_def note_action_def track_pid_def split: option.split bool.split)

lemma trackEvent_decorates:
  assumes "trackEvent cx i ev (ro, db) = (esc, ro', db')"
  shows "decorates db db'" "roTrigger ro' = roTrigger ro" "roSeverity ro = Critical \<longrightarrow> roSeverity ro' = Critical"
proof -
  obtain esc1 ro2 db2 where a: "(if evType ev \<in> kCriticalEventTypes then escalateSeverity cx i Critical (count_event ev ro, db)
      else (False, count_event ev ro, db)) = (esc1, ro2, db2)" by (metis prod_cases3)
  obtain esc2 ro3 db3 where b: "trackFingerprint cx i (details_of ev) (note_action (evType ev) ro2, db2) = (esc2, ro3, db3)"
    by (metis prod_cases3)
  obtain ro4 db4 where c: "trackCause cx i (details_of ev) (ro3, db3) = (ro4, db4)" by (metis surj_pair)
  have r: "ro' = track_pid ev ro4" "db' = db4" using assms a b c by (simp_all add: trackEvent_def Let_def)
  have "decorates db db2 \<and> roTrigger ro2 = roTrigger ro \<and> (roSeverity ro = Critical \<longrightarrow> roSeverity ro2 = Critical)"
    using a decorates_refl escalate_decorates by (auto split: if_splits)
  then show "decorates db db'" "roTrigger ro' = roTrigger ro" "roSeverity ro = Critical \<longrightarrow> roSeverity ro' = Critical"
    using fingerprint_decorates [OF b] cause_decorates [OF c] decorates_trans unfolding r by (auto intro: decorates_trans)
qed

lemma count_open_rows: "sql_count is_open (ldIncidents db) = length (open_rows db)"
  by (simp add: sql_count_def open_rows_def)

lemma getOpen_None: "getOpenIncident db = None \<longleftrightarrow> open_rows db = []"
  by (auto simp: getOpenIncident_def open_rows_def find_None_iff filter_empty_conv is_open_def)

lemma getOpen_Some:
  assumes "getOpenIncident db = Some r" shows "(irId r, irKey r) \<in> set (open_rows db)" "r \<in> set (ldIncidents db)"
  using assms by (auto simp: getOpenIncident_def open_rows_def find_Some_iff is_open_def)

lemma insertIncident_iff: "insertIncident cx k db = None \<longleftrightarrow> open_rows db \<noteq> []"
  by (auto simp: insertIncident_def open_rows_def list_ex_iff filter_empty_conv is_open_def)

lemma decorated_rows:
  assumes "list_all2 row_decorates rs ss"
  shows "map irId ss = map irId rs" "(\<forall>r \<in> set ss. irId r < n \<and> row_ok r) \<longleftrightarrow> (\<forall>r \<in> set rs. irId r < n \<and> row_ok r)"
    "map (\<lambda>r. (irId r, irKey r)) (filter is_open ss) = map (\<lambda>r. (irId r, irKey r)) (filter is_open rs)"
    "sql_count is_open ss = sql_count is_open rs"
  using assms by (induction rule: list_all2_induct) (auto simp: row_decorates_def row_ok_def is_open_def)

lemma decorates_open: "decorates db db' \<Longrightarrow> open_rows db' = open_rows db"
  using decorated_rows(3) by (simp add: decorates_def open_rows_def)

lemma decorates_wf:
  assumes "decorates db db'" "ledger_wf db" shows "ledger_wf db'"
proof -
  have rows: "list_all2 row_decorates (ldIncidents db) (ldIncidents db')" using assms(1) by (simp add: decorates_def)
  have "incidents_wf (ldNextIncident db) (ldIncidents db')"
    using assms(2) unfolding ledger_wf_def incidents_wf_def decorated_rows(1,2,4) [OF rows] by blast
  then show ?thesis using assms by (simp add: ledger_wf_def decorates_def)
qed

lemma insert_event_cases:
  obtains "already_written ev (ldEvents db)" "insertWatchdogEvent cx ev i db = (0, db)"
  | "\<not> already_written ev (ldEvents db)" "insertWatchdogEvent cx ev i db = (ldNextEvent db,
        db\<lparr>ldEvents := ldEvents db @ [\<lparr>vrId = ldNextEvent db, vrEvent = stored_event cx ev, vrIncident = i,
               vrCreated = lxNow cx\<rparr>], ldNextEvent := Suc (ldNextEvent db)\<rparr>)"
  by (cases "already_written ev (ldEvents db)") (simp_all add: insertWatchdogEvent_def)

lemma events_wf_append:
  assumes "events_wf n m rows" "pred_option (\<lambda>k. k < n) i"
  shows "events_wf n (Suc m) (rows @ [\<lparr>vrId = m, vrEvent = ev, vrIncident = i, vrCreated = t\<rparr>])"
  using assms by (auto simp: events_wf_def sorted_wrt_append less_Suc_eq)

lemma insert_event_frame:
  assumes "insertWatchdogEvent cx ev i db = (v, db')"
  shows "ldIncidents db' = ldIncidents db" "ldNextIncident db' = ldNextIncident db" "open_rows db' = open_rows db"
    "ledger_wf db \<Longrightarrow> pred_option (\<lambda>k. k < ldNextIncident db) i \<Longrightarrow> ledger_wf db'"
  using assms events_wf_append by (cases rule: insert_event_cases [of ev db cx i]; simp add: open_rows_def ledger_wf_def)+

lemma insert_incident_frame:
  assumes "insertIncident cx k db = Some (i, db')"
  shows "open_rows db = []" "open_rows db' = [(i, k)]" "i = ldNextIncident db" "ldNextIncident db' = Suc i"
    "ldEvents db' = ldEvents db" "ldNextEvent db' = ldNextEvent db" "ledger_wf db \<Longrightarrow> k \<noteq> [] \<Longrightarrow> ledger_wf db'"
proof -
  show none: "open_rows db = []" using assms insertIncident_iff [of cx k db] by simp
  have db': "i = ldNextIncident db" "db' = db\<lparr>ldIncidents := ldIncidents db @ [\<lparr>irId = i, irKey = k, irStatus = IsOpen,
      irOpened = lxNow cx, irResolved = None, irSummary = None, irCause = None, irSeverity = None\<rparr>], ldNextIncident := Suc i\<rparr>"
    using assms by (auto simp: insertIncident_def split: if_splits)
  then show "i = ldNextIncident db" "ldNextIncident db' = Suc i" "ldEvents db' = ldEvents db" "ldNextEvent db' = ldNextEvent db"
    by simp_all
  show one: "open_rows db' = [(i, k)]" using none by (simp add: open_rows_def db'(2) is_open_def)
  assume wf: "ledger_wf db" and key: "k \<noteq> []"
  have "sql_count is_open (ldIncidents db) = 0" using none count_open_rows [of db] by simp
  then have "incidents_wf (Suc i) (ldIncidents db')"
    using wf key by (auto simp: ledger_wf_def incidents_wf_def db' row_ok_def sorted_wrt_append is_open_def less_Suc_eq)
  moreover have "events_wf (Suc i) (ldNextEvent db) (ldEvents db)"
    using wf by (auto simp: ledger_wf_def events_wf_def db'(1) less_Suc_eq elim!: option.pred_mono_strong)
  ultimately show "ledger_wf db'" by (simp add: ledger_wf_def db')
qed

lemma wf_update:
  assumes "ledger_wf db" and keep: "\<And>r. irId (f r) = irId r" "\<And>r. row_ok r \<Longrightarrow> p r \<Longrightarrow> row_ok (f r)"
    and shut: "\<And>r. \<not> is_open (f r)"
  shows "ledger_wf (update_incidents p f db)"
    "open_rows (update_incidents p f db) = map (\<lambda>r. (irId r, irKey r)) (filter (\<lambda>r. is_open r \<and> \<not> p r) (ldIncidents db))"
proof -
  have ids: "map irId (sql_update p f rows) = map irId rows" for rows
    by (simp add: sql_update_def keep(1))
  have opens: "filter is_open (sql_update p f rows) = filter (\<lambda>r. is_open r \<and> \<not> p r) rows" for rows
    by (induction rows) (simp_all add: shut)
  then show "open_rows (update_incidents p f db) = map (\<lambda>r. (irId r, irKey r)) (filter (\<lambda>r. is_open r \<and> \<not> p r) (ldIncidents db))"
    by (simp add: open_rows_def update_incidents_def)
  have "sql_count is_open (sql_update p f rows) \<le> sql_count is_open rows" for rows
    by (induction rows) (auto simp: shut)
  then have "sql_count is_open (sql_update p f (ldIncidents db)) \<le> 1"
    using assms(1) le_trans unfolding ledger_wf_def incidents_wf_def by blast
  moreover have "\<forall>r \<in> set rows. irId r < n \<and> row_ok r \<Longrightarrow> \<forall>r \<in> set (sql_update p f rows). irId r < n \<and> row_ok r" for n rows
    unfolding ball_sql_update by (simp add: keep)
  ultimately have "incidents_wf (ldNextIncident db) (sql_update p f (ldIncidents db))"
    using assms(1) unfolding ledger_wf_def incidents_wf_def ids by blast
  then show "ledger_wf (update_incidents p f db)" using assms(1) by (simp add: ledger_wf_def update_incidents_def)
qed

lemma ledger_wf_open: "ledger_wf db \<Longrightarrow> (i, k) \<in> set (open_rows db) \<Longrightarrow> open_rows db = [(i, k)]"
  unfolding ledger_wf_def incidents_wf_def count_open_rows by (cases "open_rows db") auto

lemma open_row_id: "ledger_wf db \<Longrightarrow> (i, k) \<in> set (open_rows db) \<Longrightarrow> i < ldNextIncident db \<and> k \<noteq> []"
  by (auto simp: ledger_wf_def incidents_wf_def open_rows_def row_ok_def)

lemma resolve_frame:
  assumes "ledger_wf db"
  shows "ledger_wf (resolveIncident cx i summary db)"
    "open_rows (resolveIncident cx i summary db) = filter (\<lambda>(j, k). j \<noteq> i) (open_rows db)"
    "ldEvents (resolveIncident cx i summary db) = ldEvents db"
proof -
  let ?f = "\<lambda>r. r\<lparr>irStatus := IsResolved, irResolved := Some (lxNow cx), irSummary := Some summary\<rparr>"
  note u = wf_update [where f = ?f and p = "\<lambda>r. irId r = i \<and> irStatus r = IsOpen", OF assms]
  show "ledger_wf (resolveIncident cx i summary db)"
    unfolding resolveIncident_def by (rule u(1)) (simp_all add: row_ok_def is_open_def)
  have "open_rows (resolveIncident cx i summary db) =
      map (\<lambda>r. (irId r, irKey r)) (filter (\<lambda>r. is_open r \<and> \<not> (irId r = i \<and> irStatus r = IsOpen)) (ldIncidents db))"
    unfolding resolveIncident_def by (rule u(2)) (simp_all add: row_ok_def is_open_def)
  then show "open_rows (resolveIncident cx i summary db) = filter (\<lambda>(j, k). j \<noteq> i) (open_rows db)"
    by (simp add: open_rows_def filter_map filter_filter o_def is_open_def conj_commute cong: conj_cong)
  show "ldEvents (resolveIncident cx i summary db) = ldEvents db" by (simp add: resolveIncident_def update_incidents_def)
qed

lemma abandon_frame:
  assumes "ledger_wf db"
  shows "ledger_wf (abandonOpenIncidents db)" "open_rows (abandonOpenIncidents db) = []"
proof -
  let ?f = "\<lambda>r. r\<lparr>irStatus := IsAbandoned, irResolved := Some (abandon_time db r)\<rparr>"
  note u = wf_update [where f = ?f and p = "\<lambda>r. irStatus r = IsOpen", OF assms]
  show "ledger_wf (abandonOpenIncidents db)"
    unfolding abandonOpenIncidents_def by (rule u(1)) (auto simp: row_ok_def is_open_def)
  have "open_rows (abandonOpenIncidents db) =
      map (\<lambda>r. (irId r, irKey r)) (filter (\<lambda>r. is_open r \<and> \<not> irStatus r = IsOpen) (ldIncidents db))"
    unfolding abandonOpenIncidents_def by (rule u(2)) (auto simp: row_ok_def is_open_def)
  then show "open_rows (abandonOpenIncidents db) = []" by (simp add: is_open_def)
qed

lemma sorted_wrt_map_filter: "sorted_wrt R (map f xs) \<Longrightarrow> sorted_wrt R (map f (filter p xs))"
  by (induction xs) auto

lemma prune_frame:
  assumes "ledger_wf db"
  shows "ledger_wf (prune_ledger now days db)" "open_rows (prune_ledger now days db) = open_rows db"
proof -
  have opens: "filter is_open (sql_delete (\<lambda>r. irStatus r \<noteq> IsOpen \<and> q r) rows) = filter is_open rows" for q and rows :: "incident_row list"
    by (induction rows) (auto simp: is_open_def)
  show open_same: "open_rows (prune_ledger now days db) = open_rows db"
    by (simp add: prune_ledger_def pruneWatchdogIncidents_def pruneWatchdogEvents_def open_rows_def opens)
  have "sql_count is_open (ldIncidents (prune_ledger now days db)) \<le> 1"
    using assms unfolding count_open_rows open_same by (simp add: ledger_wf_def incidents_wf_def count_open_rows)
  then show "ledger_wf (prune_ledger now days db)"
    using assms by (auto simp: ledger_wf_def incidents_wf_def events_wf_def prune_ledger_def pruneWatchdogIncidents_def
        pruneWatchdogEvents_def sql_delete_def sorted_wrt_map_filter)
qed

lemma plain_frame:
  assumes "plain_insert cx ev db = (v, db')"
  shows "open_rows db' = open_rows db" "ldIncidents db' = ldIncidents db" "ledger_wf db \<Longrightarrow> ledger_wf db'"
  using assms insert_event_frame [of cx ev None db v db'] by (auto simp: plain_insert_def split: if_splits)

text \<open>The event row a sink call leaves: one, under the next id, or none when the row exists already or
  even the plain insert failed.\<close>

definition written :: "ledger_ctx \<Rightarrow> wd_event \<Rightarrow> ledger \<Rightarrow> nat \<Rightarrow> ledger \<Rightarrow> bool" where
  "written cx ev db v db1 \<longleftrightarrow>
     v = 0 \<and> ldEvents db1 = ldEvents db \<and> (already_written ev (ldEvents db) \<or> lxFault cx CallInsertPlain)
     \<or> v = ldNextEvent db \<and> \<not> already_written ev (ldEvents db)
       \<and> (\<exists>i. ldEvents db1 = ldEvents db @ [\<lparr>vrId = v, vrEvent = stored_event cx ev, vrIncident = i, vrCreated = lxNow cx\<rparr>])"

text \<open>The row is stamped with an incident.\<close>

definition stamped :: "ledger_ctx \<Rightarrow> wd_event \<Rightarrow> ledger \<Rightarrow> nat \<Rightarrow> ledger \<Rightarrow> bool" where
  "stamped cx ev db i db1 \<longleftrightarrow> already_written ev (ldEvents db)
     \<or> ldEvents db1 = ldEvents db @ [\<lparr>vrId = ldNextEvent db, vrEvent = stored_event cx ev, vrIncident = Some i, vrCreated = lxNow cx\<rparr>]"

lemma plain_written: "plain_insert cx ev db = (v, db1) \<Longrightarrow> written cx ev db v db1"
  by (auto simp: plain_insert_def written_def insertWatchdogEvent_def split: if_splits)

lemma insert_written:
  assumes "insertWatchdogEvent cx ev (Some i) db = (v, db0)" "ldEvents db1 = ldEvents db0"
  shows "written cx ev db v db1" "stamped cx ev db i db1"
  using assms by (auto simp: written_def stamped_def insertWatchdogEvent_def split: if_splits)

lemma stamped_shape:
  assumes wf: "ledger_wf db" and row: "(i, roTrigger ro) \<in> set (open_rows db)"
    and run: "stamped_insert cx ev i (Some ro) db = (v, acts, (tr, db1))"
  shows "ledger_wf db1 \<and> tracker_ok tr db1 \<and> written cx ev db v db1
    \<and> (\<not> lxFault cx CallInsertStamped \<longrightarrow> stamped cx ev db i db1)
    \<and> open_rows db1 = (if closes (classifyEvent ev) (Some ro) \<and> \<not> lxFault cx CallInsertStamped \<and> \<not> lxFault cx CallResolve
         then [] else [(i, roTrigger ro)])
    \<and> (open_rows db1 = [] \<longleftrightarrow> trActive tr = None)"
proof (cases "lxFault cx CallInsertStamped")
  case True
  obtain u dbp where p: "plain_insert cx ev db = (u, dbp)" by (metis surj_pair)
  then have "ledger_wf dbp" "open_rows dbp = [(i, roTrigger ro)]" "written cx ev db u dbp"
    using plain_frame [OF p] wf ledger_wf_open [OF wf row] plain_written by simp_all
  moreover have "v = u" "tr = \<lparr>trActive = Some i, trRollup = Some ro\<rparr>" "db1 = dbp"
    using run True p by (auto simp: stamped_insert_def)
  ultimately show ?thesis using True by (simp add: tracker_ok_def)
next
  case False
  obtain u db0 where ins: "insertWatchdogEvent cx ev (Some i) db = (u, db0)" by (metis surj_pair)
  obtain esc r2 db2 where t: "trackEvent cx (Some i) ev (ro, db0) = (esc, r2, db2)" by (metis prod_cases3)
  have d: "decorates db0 db2" "roTrigger r2 = roTrigger ro" using trackEvent_decorates [OF t] by blast+
  have wf0: "ledger_wf db0" using insert_event_frame(4) [OF ins wf] open_row_id [OF wf row] by simp
  have o0: "open_rows db0 = [(i, roTrigger ro)]" using insert_event_frame(3) [OF ins] ledger_wf_open [OF wf row] by simp
  have wf2: "ledger_wf db2" "open_rows db2 = [(i, roTrigger ro)]" "ldEvents db2 = ldEvents db0"
    using decorates_wf [OF d(1) wf0] decorates_open [OF d(1)] o0 d(1) by (simp_all add: decorates_def)
  have cl: "closes (classifyEvent ev) (Some r2) = closes (classifyEvent ev) (Some ro)" by (simp add: closes_def d(2))
  note out = insert_written [OF ins]
  show ?thesis
  proof (cases "closes (classifyEvent ev) (Some ro) \<and> \<not> lxFault cx CallResolve")
    case True
    note res = resolve_frame [OF wf2(1), of cx i "buildCloseSummary cx i r2 db2"]
    have "v = u" "tr = no_tracker" "db1 = resolveIncident cx i (buildCloseSummary cx i r2 db2) db2"
      using run False ins t True cl by (auto simp: stamped_insert_def)
    then show ?thesis using out [of db1] res wf2(2,3) True False by (simp add: tracker_ok_def no_tracker_def)
  next
    case not: False
    have "v = u" "tr = \<lparr>trActive = Some i, trRollup = Some r2\<rparr>" "db1 = db2"
      using run False ins t not cl by (auto simp: stamped_insert_def Let_def split: if_splits)
    then show ?thesis using out [of db2] wf2 d(2) not False by (auto simp: tracker_ok_def)
  qed
qed

lemma incident_key_ne: "incident_key ev \<noteq> []"
  by (auto simp: incident_key_def kIncidentKeyByTrigger_def split: if_splits)

lemma open_shape:
  assumes wf: "ledger_wf db" and run: "open_incident cx ev db = Some (v, tr, db1)"
  shows "ledger_wf db1 \<and> tracker_ok tr db1 \<and> written cx ev db v db1 \<and> trActive tr = Some (ldNextIncident db)
    \<and> stamped cx ev db (ldNextIncident db) db1 \<and> open_rows db1 = [(ldNextIncident db, incident_key ev)]"
proof -
  obtain i db0 where ins: "insertIncident cx (incident_key ev) db = Some (i, db0)"
    using run by (auto simp: open_incident_def split: if_splits option.splits)
  note new = insert_incident_frame [OF ins]
  obtain esc ro db2 where t: "trackEvent cx (Some i) ev (startRollup cx ev, db0) = (esc, ro, db2)" by (metis prod_cases3)
  obtain v' db3 where w: "insertWatchdogEvent cx ev (Some i) db2 = (v', db3)" by (metis surj_pair)
  have out: "v = v'" "tr = \<lparr>trActive = Some i, trRollup = Some ro\<rparr>" "db1 = db3"
    using run ins t w by (auto simp: open_incident_def split: if_splits)
  have d: "decorates db0 db2" "roTrigger ro = incident_key ev"
    using trackEvent_decorates [OF t] by (simp_all add: startRollup_def)
  have wf2: "ledger_wf db2" "open_rows db2 = [(i, incident_key ev)]" "ldEvents db2 = ldEvents db"
    "ldNextEvent db2 = ldNextEvent db" "ldNextIncident db2 = Suc i"
    using decorates_wf [OF d(1) new(7) [OF wf incident_key_ne]] decorates_open [OF d(1)] new d(1) by (simp_all add: decorates_def)
  have "written cx ev db v db1" "stamped cx ev db i db1"
    using insert_written [OF w, of db1] wf2(3,4) out by (simp_all add: written_def stamped_def)
  moreover have "ledger_wf db3" "open_rows db3 = [(i, incident_key ev)]"
    using insert_event_frame(3,4) [OF w] wf2 by simp_all
  ultimately show ?thesis using out d(2) new(3) by (simp add: tracker_ok_def)
qed

lemma note_action_trigger: "roTrigger (reseed counts ro) = roTrigger ro"
  unfolding reseed_def by (induction counts arbitrary: ro) (auto simp: Let_def)

lemma adopt_trigger: "irKey orphan \<noteq> [] \<Longrightarrow> roTrigger (adopt cx ev orphan db) = irKey orphan"
  by (simp add: adopt_def Let_def note_action_trigger)

text \<open>The sink takes one of three paths.\<close>

lemma sink_cases:
  assumes ok: "ledger_ok (tr, db)" and run: "wrapInsertEvent cx ev (tr, db) = (v, acts, (tr1, db1))"
  obtains (stamp) i ro as where "(i, roTrigger ro) \<in> set (open_rows db)"
      "stamped_insert cx ev i (Some ro) db = (v, as, (tr1, db1))"
      "trActive tr = Some i \<or> tr = no_tracker \<and> classifyEvent ev = DOpen \<and> \<not> lxFault cx CallGetOpen"
    | (opened) "tr = no_tracker" "classifyEvent ev = DOpen" "open_rows db = []" "open_incident cx ev db = Some (v, tr1, db1)"
    | (plain) "tr = no_tracker" "tr1 = no_tracker" "plain_insert cx ev db = (v, db1)"
      "classifyEvent ev \<noteq> DOpen \<or> lxFault cx CallGetOpen \<or> open_rows db = [] \<and> open_incident cx ev db = None"
proof (cases "trActive tr")
  case (Some i)
  then obtain ro where ro: "trRollup tr = Some ro" "(i, roTrigger ro) \<in> set (open_rows db)"
    using ok by (auto simp: ledger_ok_def tracker_ok_def split: option.splits)
  have "stamped_insert cx ev i (Some ro) db = (v, acts, (tr1, db1))"
    using run Some ro(1) by (simp add: wrapInsertEvent_def)
  then show ?thesis using stamp ro(2) Some by blast
next
  case None
  then have tr: "tr = no_tracker" using ok by (cases tr) (auto simp: ledger_ok_def tracker_ok_def no_tracker_def split: option.splits)
  obtain u dbp where p: "plain_insert cx ev db = (u, dbp)" by (metis surj_pair)
  show ?thesis
  proof (cases "classifyEvent ev = DOpen \<and> \<not> lxFault cx CallGetOpen")
    case False
    then have "(v, tr1, db1) = (u, no_tracker, dbp)"
      using run p tr by (auto simp: wrapInsertEvent_def no_tracker_def Let_def split: if_splits)
    then show ?thesis using plain tr p False by blast
  next
    case go: True
    show ?thesis
    proof (cases "getOpenIncident db")
      case (Some orphan)
      then have "irKey orphan \<noteq> []" using ok getOpen_Some(2) [OF Some] by (simp add: ledger_ok_def ledger_wf_def incidents_wf_def row_ok_def)
      then have "(irId orphan, roTrigger (adopt cx ev orphan db)) \<in> set (open_rows db)"
        using getOpen_Some(1) [OF Some] by (simp add: adopt_trigger)
      moreover obtain as where "stamped_insert cx ev (irId orphan) (Some (adopt cx ev orphan db)) db = (v, as, (tr1, db1))"
        using run None go Some by (auto simp: wrapInsertEvent_def Let_def split: prod.splits)
      ultimately show ?thesis using stamp tr go by blast
    next
      case fresh: None
      then have none: "open_rows db = []" by (simp add: getOpen_None)
      show ?thesis
      proof (cases "open_incident cx ev db")
        case miss: None
        then have "(v, tr1, db1) = (u, no_tracker, dbp)" using run None p go fresh by (auto simp: wrapInsertEvent_def Let_def)
        then show ?thesis using plain tr p none miss by blast
      next
        case (Some q)
        then have "q = (v, tr1, db1)" using run None go fresh by (auto simp: wrapInsertEvent_def Let_def split: prod.splits)
        then show ?thesis using opened tr go none Some by blast
      qed
    qed
  qed
qed

lemma tracker_ok_cong: "open_rows db' = open_rows db \<Longrightarrow> tracker_ok tr db' = tracker_ok tr db"
  by (simp add: tracker_ok_def split: option.split)

lemma sink_ok:
  assumes ok: "ledger_ok (tr, db)" and run: "wrapInsertEvent cx ev (tr, db) = (v, acts, (tr1, db1))"
  shows "ledger_ok (tr1, db1) \<and> written cx ev db v db1"
proof -
  have wf: "ledger_wf db" using ok by (simp add: ledger_ok_def)
  from ok run show ?thesis
  proof (cases rule: sink_cases)
    case (stamp i ro as)
    then show ?thesis using stamped_shape [OF wf stamp(1,2)] by (simp add: ledger_ok_def)
  next
    case opened
    then show ?thesis using open_shape [OF wf opened(4)] by (simp add: ledger_ok_def)
  next
    case plain
    then show ?thesis using plain_frame [OF plain(3)] plain_written [OF plain(3)] wf
      by (simp add: ledger_ok_def tracker_ok_def no_tracker_def)
  qed
qed

lemma ledger_step_ok: "ledger_ok st \<Longrightarrow> ledger_ok (ledger_step st x)"
proof (cases x)
  case (LedgerEvent cx ev)
  assume ok: "ledger_ok st"
  obtain tr db where st: "st = (tr, db)" by (cases st)
  obtain v acts tr1 db1 where run: "wrapInsertEvent cx ev (tr, db) = (v, acts, (tr1, db1))" by (metis prod_cases4)
  show ?thesis using sink_ok [OF ok [unfolded st] run] run by (simp add: LedgerEvent ledger_step_def st)
next
  case (LedgerForeign cx ev)
  assume ok: "ledger_ok st"
  then show ?thesis
    using plain_frame [of cx ev "snd st", OF surjective_pairing] tracker_ok_cong [of "snd (plain_insert cx ev (snd st))" "snd st"]
    by (cases st) (simp add: LedgerForeign ledger_step_def ledger_ok_def)
next
  case (LedgerPrune now days)
  assume "ledger_ok st"
  then show ?thesis
    using prune_frame [of "snd st" now days] tracker_ok_cong [of "prune_ledger now days (snd st)" "snd st"]
    by (cases st) (simp add: LedgerPrune ledger_step_def ledger_ok_def)
next
  case (LedgerBoot cx days)
  assume "ledger_ok st"
  then have "ledger_wf (prune_ledger (lxNow cx) days (snd st))" using prune_frame(1) by (cases st) (simp add: ledger_ok_def)
  then show ?thesis using abandon_frame(1)
    by (simp add: LedgerBoot ledger_step_def ledger_ok_def abandonDanglingOnBoot_def tracker_ok_def no_tracker_def)
qed

interpretation ledger: machine ledger_step ledger_ok "\<lambda>x. True"
  by unfold_locales (rule ledger_step_ok)

section \<open>The incident automaton\<close>

text \<open>What the tracker is for: one optional open incident, by its key. The transition table the file
  opens with is written here on its own, without the code's classification: the trouble an event
  reports, if any, with the key of the incident it opens, and the events that end one. A recovery and
  a healthy probe with no qualification end an incident, except that one opened by safe mode ends only
  when safe mode is left, and only such an incident does then.\<close>

definition trouble :: "wd_event \<Rightarrow> string option" where
  "trouble ev =
     (if evType ev = ''crash'' then Some ''gateway_crash''
      else if evType ev = ''config_error'' then Some ''config_error''
      else if evType ev = ''version_mismatch'' then Some ''version_mismatch''
      else if evType ev = ''readiness_degraded'' \<and> evStatus ev = ''failed'' then Some ''gateway_readiness''
      else if evType ev = ''health_check'' \<and> evStatus ev = ''failed'' then Some ''gateway_degraded''
      else if evType ev = ''safe_mode'' \<and> \<not> edRecovered (details_of ev) then Some ''safe_mode''
      else None)"

definition healthy :: "wd_event \<Rightarrow> bool" where
  "healthy ev \<longleftrightarrow> evType ev = ''recovery''
     \<or> evType ev = ''health_check'' \<and> evStatus ev = ''ok'' \<and> \<not> edSkipped (details_of ev)
       \<and> \<not> edReadinessPending (details_of ev) \<and> \<not> edReplacementPending (details_of ev)"

definition leaves_safe_mode :: "wd_event \<Rightarrow> bool" where
  "leaves_safe_mode ev \<longleftrightarrow> evType ev = ''safe_mode'' \<and> edRecovered (details_of ev)"

definition automaton :: "wd_event \<Rightarrow> string option \<Rightarrow> string option" where
  "automaton ev s = (case s of
       None \<Rightarrow> trouble ev
     | Some k \<Rightarrow> if (if k = ''safe_mode'' then leaves_safe_mode ev else healthy ev) then None else Some k)"

text \<open>The code's classification and its keys implement that table.\<close>

lemma classify_table:
  shows classify_opens: "trouble ev = (if classifyEvent ev = DOpen then Some (incident_key ev) else None)"
    and classify_heals: "healthy ev \<longleftrightarrow> classifyEvent ev = DClose"
    and classify_leaves: "leaves_safe_mode ev \<longleftrightarrow> classifyEvent ev = DCloseSafe"
  by (auto simp: trouble_def healthy_def leaves_safe_mode_def classifyEvent_def incident_key_def kIncidentKeyByTrigger_def Let_def)

lemma automaton_step:
  "automaton ev s = (case s of
       None \<Rightarrow> if classifyEvent ev = DOpen then Some (incident_key ev) else None
     | Some k \<Rightarrow> if classifyEvent ev = DClose \<and> k \<noteq> ''safe_mode'' \<or> classifyEvent ev = DCloseSafe \<and> k = ''safe_mode''
         then None else Some k)"
  by (simp add: automaton_def classify_table split: option.split)

definition ledger_spec :: "string option \<Rightarrow> ledger_op \<Rightarrow> string option" where
  "ledger_spec s x = (case x of LedgerEvent cx ev \<Rightarrow> automaton ev s | LedgerBoot _ _ \<Rightarrow> None | _ \<Rightarrow> s)"

definition open_key :: "ledger_state \<Rightarrow> string option" where
  "open_key st = (case open_rows (snd st) of [] \<Rightarrow> None | (i, k) # _ \<Rightarrow> Some k)"

text \<open>An operation of which no database call throws.\<close>

definition calm :: "ledger_op \<Rightarrow> bool" where
  "calm x = (case x of LedgerEvent cx ev \<Rightarrow> lxFault cx = (\<lambda>_. False) | LedgerBoot cx _ \<Rightarrow> \<not> lxFault cx CallAbandon | _ \<Rightarrow> True)"

definition synced :: "ledger_state \<Rightarrow> bool" where
  "synced st \<longleftrightarrow> ledger_ok st \<and> (trActive (fst st) = None \<longleftrightarrow> open_rows (snd st) = [])"

lemma calm_open:
  assumes "lxFault cx = (\<lambda>_. False)" "open_rows db = []" shows "open_incident cx ev db \<noteq> None"
  using assms insertIncident_iff [of cx "incident_key ev" db]
  by (auto simp: open_incident_def split: prod.splits option.splits)

lemma calm_sink:
  assumes ok: "ledger_ok (tr, db)" and calm: "lxFault cx = (\<lambda>_. False)" and synced: "synced (tr, db) \<or> classifyEvent ev = DOpen"
    and run: "wrapInsertEvent cx ev (tr, db) = (v, acts, (tr1, db1))"
  shows "synced (tr1, db1) \<and> open_key (tr1, db1) = automaton ev (open_key (tr, db))
    \<and> (classifyEvent ev = DOpen \<longrightarrow> (\<exists>i k. open_rows db1 = [(i, k)] \<and> trActive tr1 = Some i \<and> stamped cx ev db i db1))"
proof -
  have wf: "ledger_wf db" using ok by (simp add: ledger_ok_def)
  have ok1: "ledger_ok (tr1, db1)" using sink_ok [OF ok run] by blast
  from ok run show ?thesis
  proof (cases rule: sink_cases)
    case (stamp i ro as)
    have rows: "open_rows db = [(i, roTrigger ro)]" by (rule ledger_wf_open [OF wf stamp(1)])
    note shape = stamped_shape [OF wf stamp(1,2)]
    show ?thesis
    proof (cases "closes (classifyEvent ev) (Some ro)")
      case True
      then show ?thesis using shape ok1 calm rows by (auto simp: synced_def open_key_def automaton_step closes_def)
    next
      case False
      have one: "open_rows db1 = [(i, roTrigger ro)]" "stamped cx ev db i db1" using shape False calm by simp_all
      then have "trActive tr1 = Some i"
        using ok1 by (auto simp: ledger_ok_def tracker_ok_def shape split: option.splits) (use shape one in auto)
      then show ?thesis using ok1 one rows False by (auto simp: synced_def open_key_def automaton_step closes_def)
    qed
  next
    case opened
    then show ?thesis using open_shape [OF wf opened(4)] ok1 by (auto simp: synced_def open_key_def automaton_step)
  next
    case plain
    have "classifyEvent ev \<noteq> DOpen" using plain(4) calm calm_open [OF calm, of db ev] by auto
    moreover have "open_rows db = []" using synced plain(1) calculation by (simp add: synced_def no_tracker_def)
    ultimately show ?thesis using ok1 plain(2) plain_frame(1) [OF plain(3)]
      by (simp add: synced_def open_key_def automaton_step no_tracker_def)
  qed
qed

lemma calm_step:
  assumes synced: "synced st" and calm: "calm x"
  shows "synced (ledger_step st x) \<and> open_key (ledger_step st x) = ledger_spec (open_key st) x"
proof -
  obtain tr db where st: "st = (tr, db)" by (cases st)
  have ok: "ledger_ok (ledger_step st x)" using ledger_step_ok synced by (simp add: synced_def)
  show ?thesis
  proof (cases x)
    case (LedgerEvent cx ev)
    obtain v acts tr1 db1 where run: "wrapInsertEvent cx ev (tr, db) = (v, acts, (tr1, db1))" by (metis prod_cases4)
    have "ledger_ok (tr, db)" "lxFault cx = (\<lambda>_. False)" using synced calm by (simp_all add: synced_def st LedgerEvent calm_def)
    from calm_sink [OF this _ run] show ?thesis
      using synced run by (simp add: LedgerEvent st ledger_step_def ledger_spec_def)
  next
    case (LedgerForeign cx ev)
    then show ?thesis using ok synced plain_frame(1) [of cx ev db, OF surjective_pairing]
      by (simp add: st ledger_step_def synced_def open_key_def ledger_spec_def)
  next
    case (LedgerPrune now days)
    then show ?thesis using ok synced prune_frame(2) [of db now days]
      by (simp add: st ledger_step_def synced_def ledger_ok_def open_key_def ledger_spec_def)
  next
    case (LedgerBoot cx days)
    have "ledger_wf (prune_ledger (lxNow cx) days db)" using synced prune_frame(1) by (simp add: st synced_def ledger_ok_def)
    then show ?thesis using ok calm abandon_frame(2)
      by (simp add: LedgerBoot st ledger_step_def synced_def open_key_def ledger_spec_def calm_def abandonDanglingOnBoot_def
          no_tracker_def)
  qed
qed

interpretation incidents: refinement ledger_step synced calm open_key ledger_spec
  by unfold_locales (simp_all add: calm_step)

section \<open>Severity\<close>

text \<open>No step lowers the severity of a row, and a row that is critical when it is resolved has a critical
  summary, if the read at the close does not throw.\<close>

definition severe :: "nat \<Rightarrow> ledger \<Rightarrow> bool" where
  "severe j db \<longleftrightarrow> j < ldNextIncident db \<and> (\<forall>r \<in> set (ldIncidents db). irId r = j \<longrightarrow>
     irSeverity r = Some Critical \<and> pred_option (\<lambda>sm. roSeverity (smRollup sm) = Critical) (irSummary r))"

definition reads_back :: "ledger_op \<Rightarrow> bool" where
  "reads_back x = (case x of LedgerEvent cx ev \<Rightarrow> \<not> lxFault cx CallGetById | _ \<Rightarrow> True)"

lemma severe_cong: "ldIncidents db' = ldIncidents db \<Longrightarrow> ldNextIncident db' = ldNextIncident db \<Longrightarrow> severe j db' = severe j db"
  by (simp add: severe_def)

lemma severe_decorates:
  assumes "decorates db db'" "severe j db" shows "severe j db'"
proof -
  have "list_all2 row_decorates (ldIncidents db) (ldIncidents db')" "ldNextIncident db' = ldNextIncident db"
    using assms(1) by (simp_all add: decorates_def)
  then show ?thesis using assms(2) unfolding severe_def
    by (auto simp: list_all2_conv_all_nth in_set_conv_nth row_decorates_def) (metis nth_mem)+
qed

lemma severe_plain: "severe j db \<Longrightarrow> severe j (snd (plain_insert cx ev db))"
  using plain_frame(2) [of cx ev db, OF surjective_pairing] insert_event_frame(2) [of cx ev None db, OF surjective_pairing]
  by (cases "lxFault cx CallInsertPlain") (simp_all add: plain_insert_def severe_def)

lemma severe_insert: "insertWatchdogEvent cx ev i db = (v, db') \<Longrightarrow> severe j db \<Longrightarrow> severe j db'"
  using insert_event_frame(1,2) [of cx ev i db v db'] severe_cong [of db' db j] by simp

lemma severe_resolve:
  assumes "severe j db" "\<not> lxFault cx CallGetById" "(i, k) \<in> set (open_rows db)"
  shows "severe j (resolveIncident cx i (buildCloseSummary cx i ro db) db)"
proof (cases "i = j")
  case True
  obtain r where r: "getIncidentById i db = Some r"
    using assms(3) by (cases "getIncidentById i db") (auto simp: getIncidentById_def open_rows_def find_None_iff)
  then have "irSeverity r = Some Critical"
    using assms(1) True by (auto simp: getIncidentById_def find_Some_iff severe_def)
  then have "roSeverity (smRollup (buildCloseSummary cx i ro db)) = Critical"
    using assms(2) r by (simp add: buildCloseSummary_def)
  then show ?thesis using assms(1)
    by (auto simp: severe_def resolveIncident_def update_incidents_def sql_update_def)
next
  case False
  then show ?thesis using assms(1) by (auto simp: severe_def resolveIncident_def update_incidents_def sql_update_def)
qed

lemma severe_stamped:
  assumes "severe j db" "\<not> lxFault cx CallGetById" "(i, roTrigger ro) \<in> set (open_rows db)"
    and run: "stamped_insert cx ev i (Some ro) db = (v, acts, (tr, db1))"
  shows "severe j db1"
proof (cases "lxFault cx CallInsertStamped")
  case True
  then have "db1 = snd (plain_insert cx ev db)" using run by (auto simp: stamped_insert_def split: prod.splits)
  then show ?thesis using severe_plain assms(1) by simp
next
  case False
  obtain u db0 where ins: "insertWatchdogEvent cx ev (Some i) db = (u, db0)" by (metis surj_pair)
  obtain esc r2 db2 where t: "trackEvent cx (Some i) ev (ro, db0) = (esc, r2, db2)" by (metis prod_cases3)
  have s2: "severe j db2" using severe_decorates [OF trackEvent_decorates(1) [OF t]] severe_insert [OF ins assms(1)] by blast
  have "open_rows db2 = open_rows db" using decorates_open [OF trackEvent_decorates(1) [OF t]] insert_event_frame(3) [OF ins] by simp
  then have "severe j (resolveIncident cx i (buildCloseSummary cx i r2 db2) db2)"
    using severe_resolve [OF s2 assms(2), of i "roTrigger ro"] assms(3) by simp
  moreover have "db1 = db2 \<or> db1 = resolveIncident cx i (buildCloseSummary cx i r2 db2) db2"
    using run False ins t by (auto simp: stamped_insert_def Let_def split: if_splits)
  ultimately show ?thesis using s2 by blast
qed

lemma severe_open:
  assumes "ledger_wf db" "severe j db" "open_incident cx ev db = Some (v, tr, db1)"
  shows "severe j db1"
proof -
  obtain i db0 where ins: "insertIncident cx (incident_key ev) db = Some (i, db0)"
    using assms(3) by (auto simp: open_incident_def split: if_splits option.splits)
  obtain esc ro db2 where t: "trackEvent cx (Some i) ev (startRollup cx ev, db0) = (esc, ro, db2)" by (metis prod_cases3)
  obtain v' db3 where w: "insertWatchdogEvent cx ev (Some i) db2 = (v', db3)" by (metis surj_pair)
  have "severe j db0" using assms(2) ins by (auto simp: insertIncident_def severe_def split: if_splits)
  then have "severe j db3" using severe_insert [OF w] severe_decorates [OF trackEvent_decorates(1) [OF t]] by blast
  moreover have "db1 = db3" using assms(3) ins t w by (auto simp: open_incident_def split: if_splits)
  ultimately show ?thesis by simp
qed

lemma severe_step:
  assumes ok: "ledger_ok st" and sev: "severe j (snd st)" and reads: "reads_back x"
  shows "severe j (snd (ledger_step st x))"
proof -
  obtain tr db where st: "st = (tr, db)" by (cases st)
  have wf: "ledger_wf db" and sev': "severe j db" using ok sev by (simp_all add: ledger_ok_def st)
  show ?thesis
  proof (cases x)
    case (LedgerEvent cx ev)
    obtain v acts tr1 db1 where run: "wrapInsertEvent cx ev (tr, db) = (v, acts, (tr1, db1))" by (metis prod_cases4)
    have read: "\<not> lxFault cx CallGetById" using reads by (simp add: LedgerEvent reads_back_def)
    from ok [unfolded st] run have "severe j db1"
    proof (cases rule: sink_cases)
      case (stamp i ro as)
      then show ?thesis using severe_stamped [OF sev' read stamp(1,2)] by blast
    next
      case opened
      then show ?thesis using severe_open [OF wf sev' opened(4)] by blast
    next
      case plain
      then show ?thesis using severe_plain [OF sev', of cx ev] by simp
    qed
    then show ?thesis using run by (simp add: LedgerEvent st ledger_step_def)
  next
    case (LedgerForeign cx ev)
    then show ?thesis using severe_plain [OF sev'] by (simp add: st ledger_step_def)
  next
    case (LedgerPrune now days)
    then show ?thesis using sev' by (simp add: st ledger_step_def severe_def prune_ledger_def pruneWatchdogIncidents_def
          pruneWatchdogEvents_def sql_delete_def)
  next
    case (LedgerBoot cx days)
    then show ?thesis using sev' by (auto simp: st ledger_step_def severe_def prune_ledger_def pruneWatchdogIncidents_def
          pruneWatchdogEvents_def sql_delete_def abandonDanglingOnBoot_def abandonOpenIncidents_def update_incidents_def sql_update_def)
  qed
qed

interpretation severity: machine ledger_step "\<lambda>st. ledger_ok st \<and> severe j (snd st)" reads_back for j
  by unfold_locales (blast intro: ledger_step_ok severe_step)

section \<open>Properties\<close>

definition sample_ctx :: "int \<Rightarrow> ledger_ctx" where
  "sample_ctx t = \<lparr>lxNow = t, lxFault = (\<lambda>_. False), lxRedact = id, lxEpisode = None\<rparr>"

definition sample_event :: "string \<Rightarrow> string \<Rightarrow> wd_event" where
  "sample_event t status = \<lparr>evType = t, evSource = ''watchdog'', evStatus = status, evDetails = None\<rparr>"

text \<open>A healthy probe answered inside a grace window.\<close>

definition skipped_probe :: wd_event where
  "skipped_probe = (sample_event ''health_check'' ''ok'')\<lparr>evDetails := Some (no_details\<lparr>edSkipped := True\<rparr>)\<rparr>"

text \<open>A crash whose stamped insert throws and whose close then throws.\<close>

definition sample_faulty :: "ledger_op list" where
  "sample_faulty =
     [LedgerEvent ((sample_ctx 10)\<lparr>lxFault := (\<lambda>c. c = CallCommit)\<rparr>) (sample_event ''crash'' ''failed''),
      LedgerEvent (sample_ctx 20) (sample_event ''crash'' ''failed''),
      LedgerEvent ((sample_ctx 30)\<lparr>lxFault := (\<lambda>c. c = CallResolve)\<rparr>) (sample_event ''recovery'' ''ok''),
      LedgerBoot ((sample_ctx 40)\<lparr>lxFault := (\<lambda>c. c = CallAbandon)\<rparr>) 30]"

lemma empty_ledger_wf: "ledger_wf empty_ledger" "open_rows empty_ledger = []"
  by (simp_all add: empty_ledger_def ledger_wf_def incidents_wf_def events_wf_def open_rows_def)

lemma idle_ok: "ledger_wf db \<Longrightarrow> ledger_ok (no_tracker, db)"
  by (simp add: ledger_ok_def tracker_ok_def no_tracker_def)

text \<open>C30. The incident ledger stays well-formed whatever the database does: over any events, foreign
  writes, prunes and restarts, with any of its calls throwing, ids of both tables increase, a row is
  open exactly while it has no end, only a resolved one has a summary, at most one is open, an event
  is stamped only with an incident that existed, and the tracker is idle or follows that open row.\<close>

theorem ledger_well_formed:
  assumes "ledger_wf db"
  shows "case run ledger_step (no_tracker, db) ops of (tr, db1) \<Rightarrow>
    sorted_wrt (<) (map irId (ldIncidents db1)) \<and> sorted_wrt (<) (map vrId (ldEvents db1))
    \<and> (\<forall>r \<in> set (ldIncidents db1). (irStatus r = IsOpen \<longleftrightarrow> irResolved r = None)
         \<and> (irSummary r = None \<or> irStatus r = IsResolved))
    \<and> sql_count (\<lambda>r. irStatus r = IsOpen) (ldIncidents db1) \<le> 1
    \<and> (\<forall>v \<in> set (ldEvents db1). pred_option (\<lambda>i. i < ldNextIncident db1) (vrIncident v))
    \<and> pred_option (\<lambda>i. \<exists>r \<in> set (ldIncidents db1). irId r = i \<and> irStatus r = IsOpen) (trActive tr)"
proof -
  obtain tr db1 where st: "run ledger_step (no_tracker, db) ops = (tr, db1)" by (metis surj_pair)
  have ok: "ledger_ok (tr, db1)" using ledger.run_inv [OF idle_ok [OF assms], of ops] by (simp add: st list_all_iff)
  then have "pred_option (\<lambda>i. \<exists>r \<in> set (ldIncidents db1). irId r = i \<and> irStatus r = IsOpen) (trActive tr)"
    by (auto simp: ledger_ok_def tracker_ok_def open_rows_def is_open_def split: option.splits)
  moreover have "is_open = (\<lambda>r. irStatus r = IsOpen)" by (rule ext) (simp add: is_open_def)
  ultimately show ?thesis using ok
    by (auto simp: st ledger_ok_def ledger_wf_def incidents_wf_def events_wf_def row_ok_def)
qed

text \<open>C2. The tracker never loses or doubles an event: in every reachable state, whichever database
  calls throw, a call of the sink adds at most one event row, the one its answer names; it adds none
  only when the row exists already (the two kinds written once) or even the plain insert threw.\<close>

theorem event_written_once:
  assumes "ledger_wf db" and "run ledger_step (no_tracker, db) ops = (tr, db1)"
    and "wrapInsertEvent cx ev (tr, db1) = (v, acts, (tr2, db2))"
  shows "ldEvents db2 = ldEvents db1 \<and> v = 0 \<and> (already_written ev (ldEvents db1) \<or> lxFault cx CallInsertPlain)
    \<or> v = ldNextEvent db1 \<and> (\<exists>i. ldEvents db2 = ldEvents db1 @
        [\<lparr>vrId = v, vrEvent = stored_event cx ev, vrIncident = i, vrCreated = lxNow cx\<rparr>])"
proof -
  have "ledger_ok (tr, db1)" using ledger.run_inv [OF idle_ok [OF assms(1)], of ops] assms(2) by (simp add: list_all_iff)
  from sink_ok [OF this assms(3)] show ?thesis unfolding written_def by blast
qed

text \<open>C6. While no database call throws, tracker and table together implement one optional open incident:
  its key after any events, foreign writes, prunes and restarts is that of the automaton, whose events
  are those of the transition table, spelled out on the event's type, status and details; and the
  tracker follows exactly that row. So only a recovery or a healthy probe that was neither skipped nor
  pending closes an incident, and one opened by safe mode closes only on leaving safe mode.\<close>

theorem ledger_refines_automaton:
  assumes "ledger_wf db" "open_rows db = []" "list_all calm ops"
  shows "case run ledger_step (no_tracker, db) ops of (tr, db1) \<Rightarrow>
    map snd (open_rows db1) = (case run ledger_spec None ops of None \<Rightarrow> [] | Some k \<Rightarrow> [k])
    \<and> map fst (open_rows db1) = (case trActive tr of None \<Rightarrow> [] | Some i \<Rightarrow> [i])"
proof -
  obtain tr db1 where st: "run ledger_step (no_tracker, db) ops = (tr, db1)" by (metis surj_pair)
  have start: "synced (no_tracker, db)" "open_key (no_tracker, db) = None"
    using idle_ok [OF assms(1)] assms(2) by (simp_all add: synced_def open_key_def no_tracker_def)
  have inv: "synced (tr, db1)" using incidents.run_inv [OF start(1) assms(3)] by (simp add: st)
  have key: "open_key (tr, db1) = run ledger_spec None ops"
    using incidents.run_simulates [OF start(1) assms(3)] start(2) by (simp add: st)
  show ?thesis
  proof (cases "open_rows db1")
    case Nil
    then show ?thesis using key inv by (simp add: st open_key_def synced_def flip: key)
  next
    case (Cons p ps)
    obtain i k where p: "p = (i, k)" by (cases p)
    have one: "open_rows db1 = [(i, k)]" using ledger_wf_open [of db1 i k] inv Cons p by (simp add: synced_def ledger_ok_def)
    then have "trActive tr = Some i"
      using inv by (auto simp: synced_def ledger_ok_def tracker_ok_def split: option.splits)
    then show ?thesis using key one by (simp add: st open_key_def flip: key)
  qed
qed

text \<open>C12. Faults never disable the tracker: after any history in which any database calls threw, one
  opening event without a fault leaves exactly one open incident, tracked, and stamped on that event's
  row; from there on, while no call throws, the ledger is the automaton again.\<close>

theorem ledger_heals:
  assumes "ledger_wf db" and "classifyEvent ev = DOpen" "\<not> already_written ev (ldEvents (snd (run ledger_step (no_tracker, db) ops)))"
    and "lxFault cx = (\<lambda>_. False)" "list_all calm later"
  shows "case run ledger_step (no_tracker, db) (ops @ [LedgerEvent cx ev]) of (tr, db1) \<Rightarrow>
    (\<exists>i k. open_rows db1 = [(i, k)] \<and> trActive tr = Some i \<and> vrIncident (last (ldEvents db1)) = Some i
       \<and> vrEvent (last (ldEvents db1)) = stored_event cx ev
       \<and> open_key (run ledger_step (tr, db1) later) = run ledger_spec (Some k) later)"
proof -
  obtain tr0 db0 where st0: "run ledger_step (no_tracker, db) ops = (tr0, db0)" by (metis surj_pair)
  have ok: "ledger_ok (tr0, db0)" using ledger.run_inv [OF idle_ok [OF assms(1)], of ops] by (simp add: st0 list_all_iff)
  obtain v acts tr db1 where w: "wrapInsertEvent cx ev (tr0, db0) = (v, acts, (tr, db1))" by (metis prod_cases4)
  have st1: "run ledger_step (no_tracker, db) (ops @ [LedgerEvent cx ev]) = (tr, db1)"
    by (simp add: run_append st0 ledger_step_def w)
  note sink = calm_sink [OF ok assms(4) _ w]
  obtain i k where one: "open_rows db1 = [(i, k)]" "trActive tr = Some i" "stamped cx ev db0 i db1"
    using sink assms(2) by blast
  have "synced (tr, db1)" using sink assms(2) by blast
  from incidents.run_simulates [OF this assms(5)] show ?thesis
    using one assms(3) by (simp add: st1 st0 stamped_def open_key_def)
qed

text \<open>Severity never falls: a row that is critical stays critical through every later event, fault,
  prune and restart, and the summary it is resolved with is critical too, provided the read of the row
  at the close does not throw.\<close>

lemma critical_never_demoted:
  assumes "ledger_wf db" and "run ledger_step (no_tracker, db) ops = (tr, db1)" and "list_all reads_back later"
    and "r \<in> set (ldIncidents db1)" "irSeverity r = Some Critical" "irSummary r = None"
    and "s \<in> set (ldIncidents (snd (run ledger_step (tr, db1) later)))" "irId s = irId r"
  shows "irSeverity s = Some Critical \<and> pred_option (\<lambda>sm. roSeverity (smRollup sm) = Critical) (irSummary s)"
proof -
  have ok: "ledger_ok (tr, db1)" using ledger.run_inv [OF idle_ok [OF assms(1)], of ops] assms(2) by (simp add: list_all_iff)
  then have wf: "incidents_wf (ldNextIncident db1) (ldIncidents db1)" by (simp add: ledger_ok_def ledger_wf_def)
  then have "distinct (map irId (ldIncidents db1))" by (simp add: incidents_wf_def strict_sorted_iff)
  then have same: "q = r" if "q \<in> set (ldIncidents db1)" "irId q = irId r" for q
    using that assms(4) by (auto simp: distinct_map inj_on_def)
  have "pred_option (\<lambda>sm. roSeverity (smRollup sm) = Critical) (irSummary r)" using assms(6) by simp
  then have "severe (irId r) db1" using wf assms(4,5) same unfolding severe_def incidents_wf_def by blast
  then have "severe (irId r) (snd (run ledger_step (tr, db1) later))"
    using severity.run_inv [of "(tr, db1)" "irId r" later] ok assms(3) by simp
  then show ?thesis using assms(7,8) by (simp add: severe_def)
qed

lemmas ledger_eval = run_append ledger_step_def wrapInsertEvent_def plain_insert_def insertWatchdogEvent_def already_written_def
  stored_event_def open_incident_def insertIncident_def trackEvent_def escalateSeverity_def trackFingerprint_def trackCause_def
  track_pid_def count_event_def note_action_def startRollup_def incident_key_def kIncidentKeyByTrigger_def classifyEvent_def
  details_of_def no_details_def count_of_def no_tracker_def stamped_insert_def closes_def kCriticalEventTypes_def
  kActionEventTypes_def kEscalationEventTypes_def prune_ledger_def pruneWatchdogEvents_def pruneWatchdogIncidents_def
  abandonDanglingOnBoot_def safe_days_def kDayMs_def sql_delete_def getOpenIncident_def adopt_def reseed_def
  getIncidentEventTypeCounts_def updateIncidentSeverity_def update_incidents_def sql_update_def
  sample_ctx_def sample_event_def empty_ledger_def

lemma ledger_well_formed_witness:
  "case run ledger_step (no_tracker, empty_ledger) sample_faulty of (tr, db1) \<Rightarrow>
     sorted_wrt (<) (map irId (ldIncidents db1)) \<and> sql_count (\<lambda>r. irStatus r = IsOpen) (ldIncidents db1) \<le> 1"
  using ledger_well_formed [OF empty_ledger_wf(1), of sample_faulty] by (simp add: split_beta)

lemma event_written_once_witness:
  "let (v, acts, (tr2, db2)) = wrapInsertEvent (sample_ctx 50) (sample_event ''crash'' ''failed'')
        (run ledger_step (no_tracker, empty_ledger) sample_faulty);
       db1 = snd (run ledger_step (no_tracker, empty_ledger) sample_faulty) in
   ldEvents db2 = ldEvents db1 \<and> v = 0
     \<and> (already_written (sample_event ''crash'' ''failed'') (ldEvents db1) \<or> lxFault (sample_ctx 50) CallInsertPlain)
   \<or> v = ldNextEvent db1 \<and> (\<exists>i. ldEvents db2 = ldEvents db1 @ [\<lparr>vrId = v,
        vrEvent = stored_event (sample_ctx 50) (sample_event ''crash'' ''failed''), vrIncident = i, vrCreated = lxNow (sample_ctx 50)\<rparr>])"
proof -
  obtain tr db1 where st: "run ledger_step (no_tracker, empty_ledger) sample_faulty = (tr, db1)" by (metis surj_pair)
  obtain v acts tr2 db2 where w: "wrapInsertEvent (sample_ctx 50) (sample_event ''crash'' ''failed'') (tr, db1) = (v, acts, (tr2, db2))"
    by (metis prod_cases4)
  show ?thesis unfolding Let_def st w prod.case snd_conv by (rule event_written_once [OF empty_ledger_wf(1) st w])
qed

lemma ledger_refines_automaton_witness:
  "case run ledger_step (no_tracker, empty_ledger) [LedgerEvent (sample_ctx 10) (sample_event ''crash'' ''failed''),
        LedgerEvent (sample_ctx 20) skipped_probe] of (tr, db1) \<Rightarrow>
     map snd (open_rows db1) = [''gateway_crash''] \<and> trActive tr \<noteq> None"
proof -
  define ops where "ops = [LedgerEvent (sample_ctx 10) (sample_event ''crash'' ''failed''),
    LedgerEvent (sample_ctx 20) skipped_probe]"
  have "list_all calm ops" by (simp add: ops_def calm_def sample_ctx_def)
  moreover have "run ledger_spec None ops = Some ''gateway_crash''"
    by (simp add: ops_def ledger_spec_def automaton_def trouble_def healthy_def details_of_def no_details_def sample_event_def
        skipped_probe_def)
  ultimately show ?thesis
    using ledger_refines_automaton [OF empty_ledger_wf, of ops] unfolding ops_def [symmetric]
    by (auto split: prod.splits option.splits)
qed

lemma ledger_heals_witness:
  "case run ledger_step (no_tracker, empty_ledger) (sample_faulty @ [LedgerEvent (sample_ctx 50) (sample_event ''crash'' ''failed'')])
   of (tr, db1) \<Rightarrow> \<exists>i k. open_rows db1 = [(i, k)] \<and> trActive tr = Some i \<and> vrIncident (last (ldEvents db1)) = Some i"
  using ledger_heals [OF empty_ledger_wf(1), of "sample_event ''crash'' ''failed''" sample_faulty "sample_ctx 50" "[]"]
  by (simp add: sample_event_def sample_ctx_def classifyEvent_def already_written_def split_beta) blast

end
