(* ===== verification/Sidecar_Supervisor.thy ===== *)
theory Sidecar_Supervisor
  imports Prelude
begin

text \<open>
  The supervisor of one operator sidecar (\<open>lib/server/sidecars/supervisor.js\<close>): launch, watch, restart
  with backoff, crash-loop episodes, stop and restart, for the three types of sidecar.

  The closure's \<open>state\<close> is the first part of the record \<open>sup\<close>. The children it spawned are a list, in
  spawn order, so that a handle is an index; what an async function waits for is an element of
  \<open>suOps\<close>, a timer armed by \<open>timer\<close> an element of \<open>suTimers\<close>; what it asks of the system (spawns,
  commands, signals, events) is appended to \<open>suOut\<close>. Every stretch between two awaits is one step, and
  reads the clock once. The results of commands, the exits of children, what \<open>prepare\<close> and \<open>spawn\<close>
  answer are inputs. Log lines are left out.
\<close>

section \<open>State\<close>

datatype sidecar_type = Simple | Forking | Oneshot

datatype restart_policy = Restart_always | Restart_on_failure | Restart_never

text \<open>The fields of a registry entry the supervisor branches on; \<open>enStop\<close> and \<open>enAnnounce\<close> say whether
  the command is there.\<close>

record sidecar_entry =
  enType :: sidecar_type
  enEnabled :: bool
  enRestart :: restart_policy
  enStop :: bool
  enAnnounce :: bool
  enCheckIntervalSeconds :: int

datatype sidecar_status = S_idle | S_disabled | S_starting | S_running | S_exited | S_failed
  | S_stopped | S_backoff | S_stopping

text \<open>\<open>{ code, signal, error }\<close>.\<close>

record run_result =
  rrCode :: "int option"
  rrSignal :: "string option"
  rrError :: "string option"

record last_exit =
  leCode :: "int option"
  leSignal :: "string option"
  leAt :: int
  leRunMs :: int
  leError :: "string option"

datatype sidecar_event =
    Ev_started (stPid: "int option") (stAdopted: bool)
  | Ev_exited (exCode: "int option") (exSignal: "string option") (exRunMs: int) (exError: "string option")
  | Ev_crash_loop (clExits: nat) (clWindowMs: int) (clLastExit: string) (clHint: bool)
  | Ev_recovered (rvStableMs: int) (rvSince: int)
  | Ev_stopped (spPid: int) (spExitObserved: bool)

datatype argv_name = Check_argv | Command_argv | Stop_argv | Announce_argv

datatype kill_signal = SIGTERM | SIGKILL

text \<open>What the supervisor asks of the system. A signal goes to a process group; the child whose pid it
  was read from is kept beside it.\<close>

datatype sidecar_out =
    Out_spawn nat "int option"
  | Out_run argv_name
  | Out_signal nat int kill_signal
  | Out_event sidecar_event

text \<open>A child the supervisor spawned and holds a handle of: \<open>chSettled\<close> is the local \<open>exited\<close> of the
  launch, \<open>chGone\<close> says that \<open>exitCode\<close> or \<open>signalCode\<close> is set.\<close>

record sidecar_child =
  chPid :: "int option"
  chSeq :: nat
  chStartedAt :: int
  chSettled :: bool
  chGone :: bool

datatype timer_fn = Relaunch | Recovery nat | Check nat

text \<open>An await in progress, with what the code after it still needs. A \<open>True\<close> in the last place means
  that the stop was called by \<open>restart\<close>.\<close>

datatype sidecar_op =
    Precheck nat int
  | Main_command nat int
  | Periodic_check nat
  | Check_stop nat run_result
  | Stop_command bool
  | Term_wait nat int bool
  | Kill_wait nat int bool
  | Restart_resume

record sup =
  suStatus :: sidecar_status
  suWanted :: bool
  suChild :: "nat option"
  suPid :: "int option"
  suStartedAt :: "int option"
  suLastExit :: "last_exit option"
  suLastError :: "string option"
  suStarts :: nat
  suAttempt :: nat
  suExits :: "int list"
  suCrashLoop :: "(int \<times> nat) option"
  suNextStartAt :: "int option"
  suAdopted :: bool
  suLastCheckAt :: "int option"
  suTimers :: "(timer_fn \<times> int) list"
  suRunSeq :: nat
  suChildren :: "sidecar_child list"
  suOps :: "sidecar_op list"
  suOut :: "sidecar_out list"

definition sup_init :: "sidecar_entry \<Rightarrow> sup" where
  "sup_init en = \<lparr>suStatus = (if enEnabled en then S_idle else S_disabled), suWanted = False,
     suChild = None, suPid = None, suStartedAt = None, suLastExit = None, suLastError = None,
     suStarts = 0, suAttempt = 0, suExits = [], suCrashLoop = None, suNextStartAt = None,
     suAdopted = False, suLastCheckAt = None, suTimers = [], suRunSeq = 0, suChildren = [],
     suOps = [], suOut = []\<rparr>"

definition kBackoffMs :: "int list" where
  "kBackoffMs = [1000, 2000, 4000, 8000, 16000, 32000, 60000, 120000, 300000]"

definition kStableRunMs :: int where
  "kStableRunMs = 60 * 1000"

definition kCrashLoopThreshold :: nat where
  "kCrashLoopThreshold = 5"

definition kCrashLoopWindowMs :: int where
  "kCrashLoopWindowMs = 10 * 60 * 1000"

definition kRecoveryStableMs :: int where
  "kRecoveryStableMs = 10 * 60 * 1000"

definition kQuickExitMs :: int where
  "kQuickExitMs = 3000"

definition kFirstCheckDelayMs :: int where
  "kFirstCheckDelayMs = 2000"

section \<open>Operations\<close>

definition out :: "sidecar_out \<Rightarrow> sup \<Rightarrow> sup" where
  "out x s = s\<lparr>suOut := suOut s @ [x]\<rparr>"

definition emit_event :: "sidecar_event \<Rightarrow> sup \<Rightarrow> sup" where
  "emit_event e s = out (Out_event e) s"

definition arm :: "timer_fn \<Rightarrow> int \<Rightarrow> sup \<Rightarrow> sup" where
  "arm f ms s = s\<lparr>suTimers := suTimers s @ [(f, ms)]\<rparr>"

text \<open>\<open>clearTimers\<close> of one supervisor.\<close>

definition sup_clearTimers :: "sup \<Rightarrow> sup" where
  "sup_clearTimers s = s\<lparr>suTimers := []\<rparr>"

definition await :: "sidecar_op \<Rightarrow> sup \<Rightarrow> sup" where
  "await p s = s\<lparr>suOps := suOps s @ [p]\<rparr>"

text \<open>\<open>await runToCompletion(argv, ..)\<close>: the command is asked for and its result awaited.\<close>

definition runToCompletion :: "argv_name \<Rightarrow> sidecar_op \<Rightarrow> sup \<Rightarrow> sup" where
  "runToCompletion argv p s = await p (out (Out_run argv) s)"

definition failed_with :: "string \<Rightarrow> run_result" where
  "failed_with e = \<lparr>rrCode = None, rrSignal = None, rrError = Some e\<rparr>"

definition run_ok :: "run_result \<Rightarrow> bool" where
  "run_ok r \<longleftrightarrow> rrError r = None \<and> rrCode r = Some 0"

definition describeExit :: "run_result \<Rightarrow> string" where
  "describeExit r = (case rrSignal r of Some g \<Rightarrow> ''signal '' @ g
     | None \<Rightarrow> ''exit code '' @ (case rrCode r of Some c \<Rightarrow> string_of_int c | None \<Rightarrow> ''null''))"

definition or_null :: "string option \<Rightarrow> string option" where
  "or_null e = (if e = Some [] then None else e)"

definition restart_delay :: "nat \<Rightarrow> int" where
  "restart_delay attempt = kBackoffMs ! min attempt (length kBackoffMs - 1)"

definition exit_success :: "run_result \<Rightarrow> bool" where
  "exit_success r \<longleftrightarrow> run_ok r \<and> rrSignal r = None"

definition quickDaemonize :: "sidecar_entry \<Rightarrow> run_result \<Rightarrow> int \<Rightarrow> bool" where
  "quickDaemonize en r runMs \<longleftrightarrow> enType en = Simple \<and> exit_success r \<and> runMs < kQuickExitMs"

definition stays :: "sidecar_entry \<Rightarrow> run_result \<Rightarrow> int \<Rightarrow> sup \<Rightarrow> bool" where
  "stays en r runMs s \<longleftrightarrow> \<not> suWanted s \<or> enRestart en = Restart_never
     \<or> (enRestart en = Restart_on_failure \<and> exit_success r \<and> \<not> quickDaemonize en r runMs)"

text \<open>The bookkeeping of an exit, and what follows it: staying down, or the crash-loop episode and the
  timer of the next start.\<close>

definition note_exit :: "int \<Rightarrow> run_result \<Rightarrow> int \<Rightarrow> sup \<Rightarrow> sup" where
  "note_exit at r runMs s =
     emit_event (Ev_exited (rrCode r) (rrSignal r) runMs (or_null (rrError r)))
       (s\<lparr>suChild := None, suPid := None, suAdopted := False,
          suLastExit := Some \<lparr>leCode = rrCode r, leSignal = rrSignal r, leAt = at, leRunMs = runMs,
            leError = or_null (rrError r)\<rparr>\<rparr>)"

definition open_episode :: "int \<Rightarrow> run_result \<Rightarrow> bool \<Rightarrow> sup \<Rightarrow> sup" where
  "open_episode at r quick s =
     (if suCrashLoop s = None \<and> kCrashLoopThreshold \<le> length (suExits s)
      then emit_event (Ev_crash_loop (length (suExits s)) kCrashLoopWindowMs
             (case rrError r of Some e \<Rightarrow> ''failed to start ('' @ e @ '')'' | None \<Rightarrow> describeExit r) quick)
           (s\<lparr>suCrashLoop := Some (at, length (suExits s))\<rparr>)
      else s)"

definition scheduleRestart :: "int \<Rightarrow> run_result \<Rightarrow> int \<Rightarrow> bool \<Rightarrow> sup \<Rightarrow> sup" where
  "scheduleRestart at r runMs quick s =
     (let attempt = (if kStableRunMs \<le> runMs then 0 else suAttempt s);
          exits = filter (\<lambda>t. at - t \<le> kCrashLoopWindowMs) (suExits s) @ [at];
          s1 = open_episode at r quick (s\<lparr>suAttempt := attempt, suExits := exits\<rparr>);
          delay = restart_delay attempt
      in arm Relaunch delay
           (s1\<lparr>suAttempt := attempt + 1, suStatus := S_backoff, suNextStartAt := Some (at + delay)\<rparr>))"

definition recordExitAndScheduleRestart :: "sidecar_entry \<Rightarrow> int \<Rightarrow> run_result \<Rightarrow> int \<Rightarrow> sup \<Rightarrow> sup" where
  "recordExitAndScheduleRestart en at r runMs s =
     (let s1 = note_exit at r runMs s in
      if stays en r runMs s1
      then s1\<lparr>suStatus := (if suWanted s1 \<and> exit_success r then S_exited
             else if suWanted s1 then S_failed else S_stopped)\<rparr>
      else scheduleRestart at r runMs (quickDaemonize en r runMs) s1)"

definition armRecovery :: "nat \<Rightarrow> sup \<Rightarrow> sup" where
  "armRecovery q s = arm (Recovery q) kRecoveryStableMs s"

definition recovery_fires :: "nat \<Rightarrow> sup \<Rightarrow> sup" where
  "recovery_fires q s =
     (if suRunSeq s \<noteq> q \<or> suStatus s \<noteq> S_running then s
      else (let s1 = s\<lparr>suExits := [], suAttempt := 0\<rparr> in
        case suCrashLoop s1 of None \<Rightarrow> s1
        | Some (since, n) \<Rightarrow> emit_event (Ev_recovered kRecoveryStableMs since) (s1\<lparr>suCrashLoop := None\<rparr>)))"

definition scheduleCheck :: "nat \<Rightarrow> int \<Rightarrow> sup \<Rightarrow> sup" where
  "scheduleCheck q delayMs s = arm (Check q) delayMs s"

definition stale :: "nat \<Rightarrow> sup \<Rightarrow> bool" where
  "stale q s \<longleftrightarrow> suRunSeq s \<noteq> q \<or> \<not> suWanted s"

definition check_fires :: "nat \<Rightarrow> sup \<Rightarrow> sup" where
  "check_fires q s = (if stale q s then s else runToCompletion Check_argv (Periodic_check q) s)"

definition check_failed :: "sidecar_entry \<Rightarrow> int \<Rightarrow> nat \<Rightarrow> run_result \<Rightarrow> sup \<Rightarrow> sup" where
  "check_failed en at q r s =
     (if stale q s then s
      else recordExitAndScheduleRestart en at r
             (at - (case suStartedAt s of Some t \<Rightarrow> t | None \<Rightarrow> 0)) (s\<lparr>suRunSeq := suRunSeq s + 1\<rparr>))"

definition check_done :: "sidecar_entry \<Rightarrow> int \<Rightarrow> nat \<Rightarrow> run_result \<Rightarrow> sup \<Rightarrow> sup" where
  "check_done en at q r s =
     (if stale q s then s
      else (let s1 = s\<lparr>suLastCheckAt := Some at\<rparr> in
        if run_ok r then scheduleCheck q (enCheckIntervalSeconds en * 1000) s1
        else if enStop en then runToCompletion Stop_argv (Check_stop q r) s1
        else check_failed en at q r s1))"

text \<open>What a launch finds: what \<open>prepare\<close> answers (an error or nothing), and what \<open>spawn\<close> does: it
  throws, or answers a child, with no pid when the program could not be started.\<close>

datatype spawn_result = Spawn_throws string | Spawned "int option"

record launch_input =
  liPrepare :: "string option"
  liSpawn :: spawn_result

definition launch_child :: "int \<Rightarrow> nat \<Rightarrow> int option \<Rightarrow> sup \<Rightarrow> sup" where
  "launch_child at q pid s =
     (let i = length (suChildren s);
          s1 = out (Out_spawn i pid) (s\<lparr>suChild := Some i, suChildren := suChildren s @
            [\<lparr>chPid = pid, chSeq = q, chStartedAt = at, chSettled = False, chGone = False\<rparr>]\<rparr>)
      in case pid of None \<Rightarrow> s1
         | Some p \<Rightarrow> armRecovery q (emit_event (Ev_started (Some p) False)
             (s1\<lparr>suPid := Some p, suStatus := S_running\<rparr>)))"

definition begin_run :: "int \<Rightarrow> sup \<Rightarrow> sup" where
  "begin_run at s = s\<lparr>suRunSeq := suRunSeq s + 1, suStatus := S_starting, suLastError := None,
     suStartedAt := Some at\<rparr>"

definition launch :: "sidecar_entry \<Rightarrow> int \<Rightarrow> launch_input \<Rightarrow> sup \<Rightarrow> sup" where
  "launch en at li s =
     (if \<not> suWanted s then s
      else (let s1 = begin_run at s; q = suRunSeq s1
        in case liPrepare li of
             Some e \<Rightarrow> recordExitAndScheduleRestart en at (failed_with e) 0 (s1\<lparr>suLastError := Some e\<rparr>)
           | None \<Rightarrow> (let s2 = s1\<lparr>suStarts := suStarts s1 + 1\<rparr> in
               if enType en = Forking then runToCompletion Check_argv (Precheck q at) s2
               else (case liSpawn li of
                   Spawn_throws e \<Rightarrow> recordExitAndScheduleRestart en at (failed_with e) 0 s2
                 | Spawned pid \<Rightarrow> launch_child at q pid s2))))"

definition forking_running :: "nat \<Rightarrow> bool \<Rightarrow> int \<Rightarrow> sup \<Rightarrow> sup" where
  "forking_running q adopted delay s =
     armRecovery q (scheduleCheck q delay (emit_event (Ev_started None adopted)
       (s\<lparr>suStatus := S_running, suAdopted := (if adopted then True else suAdopted s)\<rparr>)))"

definition precheck_done :: "sidecar_entry \<Rightarrow> nat \<Rightarrow> int \<Rightarrow> run_result \<Rightarrow> sup \<Rightarrow> sup" where
  "precheck_done en q startedAt r s =
     (if stale q s then s
      else if run_ok r then forking_running q True (enCheckIntervalSeconds en * 1000) s
      else runToCompletion Command_argv (Main_command q startedAt) s)"

definition command_done :: "sidecar_entry \<Rightarrow> int \<Rightarrow> nat \<Rightarrow> int \<Rightarrow> run_result \<Rightarrow> sup \<Rightarrow> sup" where
  "command_done en at q startedAt r s =
     (if stale q s then s
      else if run_ok r then forking_running q False kFirstCheckDelayMs s
      else recordExitAndScheduleRestart en at r (at - startedAt) s)"

text \<open>The handlers of a child: an error (the program could not be started), an exit.\<close>

definition set_child :: "nat \<Rightarrow> (sidecar_child \<Rightarrow> sidecar_child) \<Rightarrow> sup \<Rightarrow> sup" where
  "set_child i f s = s\<lparr>suChildren := (suChildren s)[i := f (suChildren s ! i)]\<rparr>"

definition child_settles :: "sidecar_entry \<Rightarrow> int \<Rightarrow> nat \<Rightarrow> run_result \<Rightarrow> sup \<Rightarrow> sup" where
  "child_settles en at i r s =
     (let c = suChildren s ! i in
      if chSettled c then s
      else (let s1 = set_child i (chSettled_update (\<lambda>_. True)) s in
        if suRunSeq s1 \<noteq> chSeq c then s1
        else recordExitAndScheduleRestart en at r (at - chStartedAt c) s1))"

definition child_errors :: "sidecar_entry \<Rightarrow> int \<Rightarrow> nat \<Rightarrow> string \<Rightarrow> sup \<Rightarrow> sup" where
  "child_errors en at i e s = child_settles en at i (failed_with e) s"

definition child_exits :: "sidecar_entry \<Rightarrow> int \<Rightarrow> nat \<Rightarrow> int option \<Rightarrow> string option \<Rightarrow> sup \<Rightarrow> sup" where
  "child_exits en at i c g s =
     child_settles en at i \<lparr>rrCode = c, rrSignal = g, rrError = None\<rparr> (set_child i (chGone_update (\<lambda>_. True)) s)"

definition start :: "sidecar_entry \<Rightarrow> int \<Rightarrow> launch_input \<Rightarrow> sup \<Rightarrow> sup" where
  "start en at li s =
     (if \<not> enEnabled en then s
      else if suWanted s \<and> suStatus s \<noteq> S_exited \<and> suStatus s \<noteq> S_failed then s
      else launch en at li (s\<lparr>suWanted := True\<rparr>))"

text \<open>\<open>stop\<close>, up to each of its awaits. The function that \<open>restart\<close> called resumes it.\<close>

definition signalGroup :: "nat \<Rightarrow> int \<Rightarrow> kill_signal \<Rightarrow> sup \<Rightarrow> sup" where
  "signalGroup i p g s = out (Out_signal i p g) s"

definition stop_returns :: "bool \<Rightarrow> sup \<Rightarrow> sup" where
  "stop_returns restart s = (if restart then await Restart_resume s else s)"

definition stopped_forking :: "sidecar_entry \<Rightarrow> bool \<Rightarrow> sup \<Rightarrow> sup" where
  "stopped_forking en restart s = stop_returns restart
     (s\<lparr>suAdopted := False, suStatus := (if enEnabled en then S_stopped else suStatus s)\<rparr>)"

definition stopped_child :: "nat \<Rightarrow> int \<Rightarrow> bool \<Rightarrow> bool \<Rightarrow> sup \<Rightarrow> sup" where
  "stopped_child i p gone restart s = stop_returns restart (emit_event (Ev_stopped p gone)
     ((signalGroup i p SIGKILL s)\<lparr>suChild := None, suPid := None, suStatus := S_stopped\<rparr>))"

definition term_waited :: "nat \<Rightarrow> int \<Rightarrow> bool \<Rightarrow> bool \<Rightarrow> sup \<Rightarrow> sup" where
  "term_waited i p gone restart s =
     (if gone then stopped_child i p gone restart s
      else await (Kill_wait i p restart) (signalGroup i p SIGKILL s))"

definition stop :: "sidecar_entry \<Rightarrow> bool \<Rightarrow> bool \<Rightarrow> sup \<Rightarrow> sup" where
  "stop en prepared restart s =
     (let s1 = (sup_clearTimers s)\<lparr>suWanted := False, suNextStartAt := None, suRunSeq := suRunSeq s + 1\<rparr> in
      if enType en = Forking
      then (if suWanted s \<and> enStop en \<and> (suStatus s = S_running \<or> suStatus s = S_starting)
            then (let s2 = s1\<lparr>suStatus := S_stopping\<rparr> in
              if prepared then runToCompletion Stop_argv (Stop_command restart) s2
              else stopped_forking en restart s2)
            else stopped_forking en restart s1)
      else (case (suChild s1, suPid s1) of
          (Some i, Some p) \<Rightarrow> await (Term_wait i p restart) (signalGroup i p SIGTERM (s1\<lparr>suStatus := S_stopping\<rparr>))
        | _ \<Rightarrow> stop_returns restart (s1\<lparr>suStatus := (if enEnabled en then S_stopped else suStatus s1)\<rparr>)))"

definition restart_resumes :: "sidecar_entry \<Rightarrow> int \<Rightarrow> launch_input \<Rightarrow> sup \<Rightarrow> sup" where
  "restart_resumes en at li s = start en at li (s\<lparr>suAttempt := 0, suExits := [], suCrashLoop := None\<rparr>)"

text \<open>\<open>announce\<close> runs a command whose result never changes the sidecar.\<close>

definition announce :: "sidecar_entry \<Rightarrow> bool \<Rightarrow> sup \<Rightarrow> sup" where
  "announce en prepared s =
     (if \<not> enAnnounce en \<or> \<not> suWanted s \<or> suStatus s \<noteq> S_running \<or> \<not> prepared then s
      else out (Out_run Announce_argv) s)"

section \<open>Steps\<close>

datatype sidecar_call =
    Start_call launch_input
  | Stop_call bool
  | Restart_call bool
  | Announce_call bool
  | Child_exits nat "int option" "string option"
  | Child_errors nat string
  | Timer_fires nat launch_input
  | Op_resolves nat run_result bool launch_input

definition remove_at :: "nat \<Rightarrow> 'a list \<Rightarrow> 'a list" where
  "remove_at k xs = take k xs @ drop (Suc k) xs"

definition timer_fires :: "sidecar_entry \<Rightarrow> int \<Rightarrow> timer_fn \<Rightarrow> launch_input \<Rightarrow> sup \<Rightarrow> sup" where
  "timer_fires en at f li s = (case f of
     Relaunch \<Rightarrow> launch en at li (s\<lparr>suNextStartAt := None\<rparr>)
   | Recovery q \<Rightarrow> recovery_fires q s
   | Check q \<Rightarrow> check_fires q s)"

text \<open>The rest of the function that waited. A wait for an exit is \<open>gone\<close> or timed out.\<close>

definition op_resumes :: "sidecar_entry \<Rightarrow> int \<Rightarrow> sidecar_op \<Rightarrow> run_result \<Rightarrow> bool \<Rightarrow> launch_input \<Rightarrow> sup \<Rightarrow> sup" where
  "op_resumes en at p r gone li s = (case p of
     Precheck q t \<Rightarrow> precheck_done en q t r s
   | Main_command q t \<Rightarrow> command_done en at q t r s
   | Periodic_check q \<Rightarrow> check_done en at q r s
   | Check_stop q r0 \<Rightarrow> check_failed en at q r0 s
   | Stop_command restart \<Rightarrow> stopped_forking en restart s
   | Term_wait i pid restart \<Rightarrow> term_waited i pid gone restart s
   | Kill_wait i pid restart \<Rightarrow> stopped_child i pid gone restart s
   | Restart_resume \<Rightarrow> restart_resumes en at li s)"

text \<open>What the system can do in a state: an error event comes from a child that was not started, an
  exit once from one that was; a wait for an exit is over as \<open>gone\<close> only when the child is gone.\<close>

definition op_child :: "sidecar_op \<Rightarrow> nat option" where
  "op_child p = (case p of Term_wait i _ _ \<Rightarrow> Some i | Kill_wait i _ _ \<Rightarrow> Some i | _ \<Rightarrow> None)"

definition possible :: "sup \<Rightarrow> sidecar_call \<Rightarrow> bool" where
  "possible s c = (case c of
     Child_exits i _ _ \<Rightarrow> i < length (suChildren s) \<and> chPid (suChildren s ! i) \<noteq> None \<and> \<not> chGone (suChildren s ! i)
   | Child_errors i _ \<Rightarrow> i < length (suChildren s) \<and> chPid (suChildren s ! i) = None
   | Timer_fires k _ \<Rightarrow> k < length (suTimers s)
   | Op_resolves k _ gone _ \<Rightarrow> k < length (suOps s) \<and>
       (gone \<longrightarrow> (case op_child (suOps s ! k) of Some i \<Rightarrow> chGone (suChildren s ! i) | None \<Rightarrow> True))
   | _ \<Rightarrow> True)"

definition sidecar_do :: "sidecar_entry \<Rightarrow> int \<Rightarrow> sidecar_call \<Rightarrow> sup \<Rightarrow> sup" where
  "sidecar_do en at c s = (case c of
     Start_call li \<Rightarrow> start en at li s
   | Stop_call prepared \<Rightarrow> stop en prepared False s
   | Restart_call prepared \<Rightarrow> stop en prepared True s
   | Announce_call prepared \<Rightarrow> announce en prepared s
   | Child_exits i c g \<Rightarrow> child_exits en at i c g s
   | Child_errors i e \<Rightarrow> child_errors en at i e s
   | Timer_fires k li \<Rightarrow> timer_fires en at (fst (suTimers s ! k)) li (s\<lparr>suTimers := remove_at k (suTimers s)\<rparr>)
   | Op_resolves k r gone li \<Rightarrow> op_resumes en at (suOps s ! k) r gone li (s\<lparr>suOps := remove_at k (suOps s)\<rparr>))"

definition sidecar_step :: "sidecar_entry \<Rightarrow> sup \<Rightarrow> int \<times> sidecar_call \<Rightarrow> sup" where
  "sidecar_step en s e = (if possible s (snd e) then sidecar_do en (fst e) (snd e) s else s)"

section \<open>What a run leaves behind\<close>

text \<open>
  A run is a value of \<open>runSeq\<close>. What can still act for it: its child's handlers, its await, its check
  timer; the timer of the next start acts for whatever run comes. \<open>run_tokens\<close> counts them.
\<close>

definition timer_token :: "nat \<Rightarrow> timer_fn \<times> int \<Rightarrow> bool" where
  "timer_token q t = (case fst t of Relaunch \<Rightarrow> True | Check q' \<Rightarrow> q' = q | Recovery _ \<Rightarrow> False)"

definition child_token :: "nat \<Rightarrow> sidecar_child \<Rightarrow> bool" where
  "child_token q c \<longleftrightarrow> \<not> chSettled c \<and> chSeq c = q"

definition op_run :: "sidecar_op \<Rightarrow> nat option" where
  "op_run p = (case p of Precheck q _ \<Rightarrow> Some q | Main_command q _ \<Rightarrow> Some q | Periodic_check q \<Rightarrow> Some q
     | Check_stop q _ \<Rightarrow> Some q | _ \<Rightarrow> None)"

definition op_token :: "nat \<Rightarrow> sidecar_op \<Rightarrow> bool" where
  "op_token q p \<longleftrightarrow> op_run p = Some q"

definition run_tokens :: "sup \<Rightarrow> nat" where
  "run_tokens s = sql_count (timer_token (suRunSeq s)) (suTimers s)
     + sql_count (child_token (suRunSeq s)) (suChildren s) + sql_count (op_token (suRunSeq s)) (suOps s)"

definition over :: "sidecar_status \<Rightarrow> bool" where
  "over st \<longleftrightarrow> st = S_exited \<or> st = S_failed"

definition stop_op :: "sidecar_op \<Rightarrow> bool" where
  "stop_op p \<longleftrightarrow> op_child p \<noteq> None \<or> (\<exists>r. p = Stop_command r)"

definition stopping :: "sup \<Rightarrow> bool" where
  "stopping s \<longleftrightarrow> list_ex stop_op (suOps s)"

definition child_alive :: "sidecar_child \<Rightarrow> bool" where
  "child_alive c \<longleftrightarrow> chPid c \<noteq> None \<and> \<not> chGone c"

definition alive :: "sup \<Rightarrow> nat \<Rightarrow> bool" where
  "alive s i \<longleftrightarrow> i < length (suChildren s) \<and> child_alive (suChildren s ! i)"

definition kill_sent :: "sup \<Rightarrow> nat \<Rightarrow> bool" where
  "kill_sent s i \<longleftrightarrow> (\<exists>p. Out_signal i p SIGKILL \<in> set (suOut s))"

text \<open>A run in which no start falls into a stop that has not returned.\<close>

definition orderly :: "sup \<Rightarrow> sidecar_call \<Rightarrow> bool" where
  "orderly s c = (case c of Start_call _ \<Rightarrow> \<not> stopping s
     | Op_resolves k _ _ _ \<Rightarrow> suOps s ! k = Restart_resume \<longrightarrow> \<not> stopping s
     | _ \<Rightarrow> True)"

inductive orderly_step :: "sidecar_entry \<Rightarrow> sup \<Rightarrow> sup \<Rightarrow> bool" for en where
  "possible s c \<Longrightarrow> orderly s c \<Longrightarrow> orderly_step en s (sidecar_do en at c s)"

section \<open>The invariant\<close>

definition seqs_ok :: "sup \<Rightarrow> bool" where
  "seqs_ok s \<longleftrightarrow> (\<forall>c \<in> set (suChildren s). chSeq c \<le> suRunSeq s)
     \<and> (\<forall>p \<in> set (suOps s). \<forall>q. op_run p = Some q \<longrightarrow> q \<le> suRunSeq s)
     \<and> (\<forall>t \<in> set (suTimers s). \<forall>q. fst t = Check q \<longrightarrow> q \<le> suRunSeq s)"

definition tokens_ok :: "sup \<Rightarrow> bool" where
  "tokens_ok s \<longleftrightarrow> run_tokens s = of_bool (suWanted s \<and> \<not> over (suStatus s))"

definition kids_ok :: "sup \<Rightarrow> bool" where
  "kids_ok s \<longleftrightarrow> (\<forall>c \<in> set (suChildren s). chPid c \<noteq> None \<longrightarrow> chSettled c = chGone c)
     \<and> (\<forall>i. alive s i \<longrightarrow> (suChild s = Some i \<and> suPid s = chPid (suChildren s ! i)) \<or> kill_sent s i)
     \<and> (\<forall>i. suChild s = Some i \<longrightarrow> alive s i \<longrightarrow> \<not> kill_sent s i \<longrightarrow>
          (if suWanted s then chSeq (suChildren s ! i) = suRunSeq s
           else suPid s \<noteq> None \<longrightarrow> (\<exists>p \<in> set (suOps s). op_child p = Some i)))"

definition stops_ok :: "sup \<Rightarrow> bool" where
  "stops_ok s \<longleftrightarrow> (\<forall>p \<in> set (suOps s). stop_op p \<longrightarrow> \<not> suWanted s)
     \<and> (\<forall>p \<in> set (suOps s). \<forall>i. op_child p = Some i \<longrightarrow>
          (\<forall>j. suChild s = Some j \<longrightarrow> alive s j \<longrightarrow> j = i))"

definition sup_ok :: "sup \<Rightarrow> bool" where
  "sup_ok s \<longleftrightarrow> seqs_ok s \<and> kids_ok s \<and> stops_ok s"

lemma run_tokens_bump:
  assumes "seqs_ok s" and "suRunSeq s < suRunSeq t"
    and "suTimers t = suTimers s" and "suChildren t = suChildren s" and "suOps t = suOps s"
  shows "run_tokens t = sql_count (\<lambda>x. fst x = Relaunch) (suTimers s)"
proof -
  have "sql_count (child_token (suRunSeq t)) (suChildren s) = 0"
    using assms(1,2) by (fastforce simp: sql_count_eq_0 seqs_ok_def child_token_def)
  moreover have "sql_count (op_token (suRunSeq t)) (suOps s) = 0"
    using assms(1,2) by (fastforce simp: sql_count_eq_0 seqs_ok_def op_token_def)
  moreover have "timer_token (suRunSeq t) x = (fst x = Relaunch)" if "x \<in> set (suTimers s)" for x
    using assms(1,2) that by (fastforce simp: seqs_ok_def timer_token_def split: timer_fn.splits)
  then have "sql_count (timer_token (suRunSeq t)) (suTimers s) = sql_count (\<lambda>x. fst x = Relaunch) (suTimers s)"
    unfolding sql_count_def by (metis (mono_tags, lifting) filter_cong)
  ultimately show ?thesis using assms(3-5) by (simp add: run_tokens_def)
qed

lemma relaunches_le: "sql_count (\<lambda>x. fst x = Relaunch) (suTimers s) \<le> run_tokens s"
proof -
  have "sql_count (\<lambda>x. fst x = Relaunch) xs \<le> sql_count (timer_token q) xs" for q xs
    by (induction xs) (auto simp: timer_token_def)
  then show ?thesis by (simp add: run_tokens_def trans_le_add1)
qed

lemma sql_count_remove_at: "k < length xs \<Longrightarrow> sql_count p xs = of_bool (p (xs ! k)) + sql_count p (remove_at k xs)"
  by (subst id_take_nth_drop [of k xs]) (simp_all add: remove_at_def)

lemma sidecar_set_remove_at: "set (remove_at k xs) \<subseteq> set xs"
  by (auto simp: remove_at_def dest: in_set_takeD in_set_dropD)

lemma sql_count_list_update: "i < length xs \<Longrightarrow>
    sql_count p (xs[i := x]) + of_bool (p (xs ! i)) = sql_count p xs + of_bool (p x)"
proof (induction xs arbitrary: i)
  case (Cons y xs)
  then show ?case
  proof (cases i)
    case (Suc j)
    then have "sql_count p (xs[j := x]) + of_bool (p (xs ! j)) = sql_count p xs + of_bool (p x)"
      using Cons by simp
    then show ?thesis using Suc by simp
  qed simp
qed simp

text \<open>A wanted sidecar without a token has no child it would lose sight of.\<close>

lemma tokenless_free:
  assumes "sup_ok s" and "suWanted s" and "run_tokens s = 0" and "alive s i"
  shows "kill_sent s i"
proof (rule ccontr)
  assume nk: "\<not> kill_sent s i"
  then have c: "suChild s = Some i" using assms(1,4) by (auto simp: sup_ok_def kids_ok_def)
  then have q: "chSeq (suChildren s ! i) = suRunSeq s" using assms nk by (auto simp: sup_ok_def kids_ok_def)
  have i: "suChildren s ! i \<in> set (suChildren s)" using assms(4) by (simp add: alive_def)
  then have "\<not> chSettled (suChildren s ! i)"
    using assms(1,4) by (auto simp: sup_ok_def kids_ok_def alive_def child_alive_def)
  then have "child_token (suRunSeq s) (suChildren s ! i)" using q by (simp add: child_token_def)
  then show False using assms(3) i sql_count_pos by (fastforce simp: run_tokens_def)
qed

section \<open>Frames\<close>

lemmas sup_acts = out_def emit_event_def arm_def sup_clearTimers_def await_def runToCompletion_def
  armRecovery_def scheduleCheck_def signalGroup_def stop_returns_def

lemma note_exit_frame [simp]:
  "suWanted (note_exit at r ms s) = suWanted s" "suRunSeq (note_exit at r ms s) = suRunSeq s"
  "suTimers (note_exit at r ms s) = suTimers s" "suChildren (note_exit at r ms s) = suChildren s"
  "suOps (note_exit at r ms s) = suOps s" "suChild (note_exit at r ms s) = None"
  "suPid (note_exit at r ms s) = None" "suAttempt (note_exit at r ms s) = suAttempt s"
  "suExits (note_exit at r ms s) = suExits s" "suCrashLoop (note_exit at r ms s) = suCrashLoop s"
  by (simp_all add: note_exit_def sup_acts)

lemma open_episode_frame [simp]:
  "suWanted (open_episode at r b s) = suWanted s" "suRunSeq (open_episode at r b s) = suRunSeq s"
  "suTimers (open_episode at r b s) = suTimers s" "suChildren (open_episode at r b s) = suChildren s"
  "suOps (open_episode at r b s) = suOps s" "suChild (open_episode at r b s) = suChild s"
  "suPid (open_episode at r b s) = suPid s" "suExits (open_episode at r b s) = suExits s"
  by (simp_all add: open_episode_def sup_acts)

lemma record_frame [simp]:
  "suWanted (recordExitAndScheduleRestart en at r ms s) = suWanted s"
  "suRunSeq (recordExitAndScheduleRestart en at r ms s) = suRunSeq s"
  "suChildren (recordExitAndScheduleRestart en at r ms s) = suChildren s"
  "suOps (recordExitAndScheduleRestart en at r ms s) = suOps s"
  "suChild (recordExitAndScheduleRestart en at r ms s) = None"
  "suPid (recordExitAndScheduleRestart en at r ms s) = None"
  by (simp_all add: recordExitAndScheduleRestart_def scheduleRestart_def sup_acts Let_def)

lemma record_timers: "suTimers (recordExitAndScheduleRestart en at r ms s) = suTimers s @
    (if stays en r ms s then []
     else [(Relaunch, restart_delay (if kStableRunMs \<le> ms then 0 else suAttempt s))])"
  by (simp add: recordExitAndScheduleRestart_def scheduleRestart_def sup_acts Let_def stays_def)

lemma record_status: "suWanted s \<Longrightarrow>
    over (suStatus (recordExitAndScheduleRestart en at r ms s)) \<longleftrightarrow> stays en r ms s"
  by (simp add: recordExitAndScheduleRestart_def scheduleRestart_def sup_acts Let_def stays_def over_def)

lemma record_kills [simp]: "kill_sent (recordExitAndScheduleRestart en at r ms s) i = kill_sent s i"
  by (simp add: recordExitAndScheduleRestart_def scheduleRestart_def open_episode_def note_exit_def
      sup_acts Let_def kill_sent_def)

section \<open>The invariant is kept\<close>

lemma alive_cong: "suChildren t = suChildren s \<Longrightarrow> alive t = alive s"
  by (simp add: alive_def fun_eq_iff)

lemma record_ok:
  assumes "sup_ok s" and "suWanted s" and "run_tokens s = 0"
  shows "sup_ok (recordExitAndScheduleRestart en at r ms s)"
    and "tokens_ok (recordExitAndScheduleRestart en at r ms s)"
proof -
  let ?t = "recordExitAndScheduleRestart en at r ms s"
  have al: "alive ?t = alive s" by (rule alive_cong) simp
  have "seqs_ok ?t" using assms(1) by (auto simp: sup_ok_def seqs_ok_def record_timers)
  moreover have "kids_ok ?t"
    using assms(1) tokenless_free [OF assms] by (simp add: kids_ok_def al sup_ok_def)
  moreover have "stops_ok ?t" using assms(1) by (simp add: stops_ok_def sup_ok_def)
  ultimately show "sup_ok ?t" by (simp add: sup_ok_def)
  show "tokens_ok ?t"
    using assms(2,3) record_status [OF assms(2), of en at r ms]
    by (simp add: tokens_ok_def run_tokens_def record_timers timer_token_def)
qed

lemma tokens_wanted: "tokens_ok s \<Longrightarrow> 0 < run_tokens s \<Longrightarrow> suWanted s \<and> \<not> over (suStatus s) \<and> run_tokens s = 1"
  by (simp add: tokens_ok_def of_bool_def split: if_splits)

text \<open>What changes neither runs, children, awaits nor timers changes the invariant nowhere.\<close>

lemma sup_ok_cong:
  assumes "suWanted t = suWanted s" and "suRunSeq t = suRunSeq s" and "suTimers t = suTimers s"
    and "suChildren t = suChildren s" and "suOps t = suOps s" and "suChild t = suChild s"
    and "suPid t = suPid s" and "set (suOut s) \<subseteq> set (suOut t)"
  shows "sup_ok s \<Longrightarrow> sup_ok t" and "run_tokens t = run_tokens s"
proof -
  have "alive t = alive s" by (rule alive_cong) (rule assms(4))
  moreover have "kill_sent s i \<Longrightarrow> kill_sent t i" for i using assms(8) by (auto simp: kill_sent_def)
  ultimately show "sup_ok s \<Longrightarrow> sup_ok t"
    unfolding sup_ok_def seqs_ok_def kids_ok_def stops_ok_def using assms(1-7) by auto
  show "run_tokens t = run_tokens s" using assms(1-5) by (simp add: run_tokens_def)
qed

text \<open>Arming a timer or starting to wait is the token of the run it is for.\<close>

lemma sup_ok_arm:
  assumes "sup_ok s" and "\<And>q. f = Check q \<Longrightarrow> q \<le> suRunSeq s"
  shows "sup_ok (arm f ms s)" and "run_tokens (arm f ms s) = run_tokens s + of_bool (timer_token (suRunSeq s) (f, ms))"
proof -
  have "alive (arm f ms s) = alive s" by (rule alive_cong) (simp add: arm_def)
  moreover have "kill_sent (arm f ms s) = kill_sent s" by (simp add: fun_eq_iff kill_sent_def arm_def)
  ultimately show "sup_ok (arm f ms s)"
    using assms by (auto simp: sup_ok_def seqs_ok_def kids_ok_def stops_ok_def arm_def)
qed (simp add: run_tokens_def arm_def)

lemma sup_ok_await:
  assumes "sup_ok s" and "\<And>q. op_run p = Some q \<Longrightarrow> q \<le> suRunSeq s"
    and "stop_op p \<Longrightarrow> \<not> suWanted s"
    and "\<And>i j. op_child p = Some i \<Longrightarrow> suChild s = Some j \<Longrightarrow> alive s j \<Longrightarrow> j = i"
  shows "sup_ok (await p s)" and "run_tokens (await p s) = run_tokens s + of_bool (op_token (suRunSeq s) p)"
proof -
  have al: "alive (await p s) = alive s" by (rule alive_cong) (simp add: await_def)
  have ki: "kill_sent (await p s) = kill_sent s" by (simp add: fun_eq_iff kill_sent_def await_def)
  have "seqs_ok (await p s)" using assms(1,2) by (auto simp: sup_ok_def seqs_ok_def await_def)
  moreover have "kids_ok (await p s)"
    using assms(1) by (auto simp: sup_ok_def kids_ok_def al ki) (auto simp: await_def split: if_splits)
  moreover have "stops_ok (await p s)"
    using assms(1,3,4) by (auto simp: sup_ok_def stops_ok_def al) (auto simp: await_def)
  ultimately show "sup_ok (await p s)" by (simp add: sup_ok_def)
qed (simp add: run_tokens_def await_def)

section \<open>Launches\<close>

text \<open>No child alive would be lost: every one has been sent its SIGKILL.\<close>

definition none_lost :: "sup \<Rightarrow> bool" where
  "none_lost s \<longleftrightarrow> (\<forall>i. alive s i \<longrightarrow> kill_sent s i)"

lemma new_run_ok:
  assumes "sup_ok s" and "none_lost s" and "\<not> stopping s"
    and "suRunSeq s \<le> suRunSeq t" and "suTimers t = suTimers s"
    and "suChildren t = suChildren s" and "suOps t = suOps s" and "suOut t = suOut s"
  shows "sup_ok t" and "none_lost t"
proof -
  have al: "alive t = alive s" by (rule alive_cong) (rule assms(6))
  have ki: "kill_sent t = kill_sent s" using assms(8) by (simp add: kill_sent_def fun_eq_iff)
  have no: "\<not> stop_op p" if "p \<in> set (suOps s)" for p
    using assms(3) that by (auto simp: stopping_def list_ex_iff)
  then have no': "op_child p \<noteq> Some i" if "p \<in> set (suOps s)" for p i
    using that by (auto simp: stop_op_def)
  have "seqs_ok t" using assms(1,4-7) by (fastforce simp: sup_ok_def seqs_ok_def)
  moreover have "kids_ok t" using assms(1,2,6) by (simp add: sup_ok_def kids_ok_def none_lost_def al ki)
  moreover have "stops_ok t" using no no' by (simp add: stops_ok_def assms(7))
  ultimately show "sup_ok t" by (simp add: sup_ok_def)
  show "none_lost t" using assms(2) by (simp add: none_lost_def al ki)
qed

lemma launch_child_ok:
  assumes "sup_ok s" and "suWanted s" and "none_lost s" and "\<not> stopping s" and "run_tokens s = 0"
    and "suStatus s = S_starting"
  shows "sup_ok (launch_child at (suRunSeq s) pid s)" and "tokens_ok (launch_child at (suRunSeq s) pid s)"
proof -
  let ?c = "\<lparr>chPid = pid, chSeq = suRunSeq s, chStartedAt = at, chSettled = False, chGone = False\<rparr>"
  let ?i = "length (suChildren s)"
  define t where "t = s\<lparr>suChild := Some ?i, suChildren := suChildren s @ [?c],
    suPid := (if pid = None then suPid s else pid), suStatus := (if pid = None then S_starting else S_running),
    suOut := suOut s @ Out_spawn ?i pid # (if pid = None then [] else [Out_event (Ev_started pid False)])\<rparr>"
  have eq: "launch_child at (suRunSeq s) pid s
      = (if pid = None then t else armRecovery (suRunSeq s) t)"
    using assms(6) by (auto simp: launch_child_def t_def sup_acts Let_def split: option.split)
  have al: "alive t j \<longleftrightarrow> alive s j \<or> (j = ?i \<and> pid \<noteq> None)" for j
    by (auto simp: alive_def child_alive_def t_def nth_append less_Suc_eq)
  have ki: "kill_sent t = kill_sent s" by (simp add: kill_sent_def fun_eq_iff t_def)
  have no: "\<not> stop_op p" if "p \<in> set (suOps s)" for p
    using assms(4) that by (auto simp: stopping_def list_ex_iff)
  then have no': "op_child p \<noteq> Some i" if "p \<in> set (suOps s)" for p i
    using that by (auto simp: stop_op_def)
  have "seqs_ok t" using assms(1) by (auto simp: sup_ok_def seqs_ok_def t_def)
  moreover have "kids_ok t"
    using assms(1-3) unfolding kids_ok_def al ki sup_ok_def none_lost_def
    by (auto simp: t_def nth_append)
  moreover have "stops_ok t" using no no' by (simp add: stops_ok_def t_def)
  ultimately have ok: "sup_ok t" by (simp add: sup_ok_def)
  have tok: "run_tokens t = 1" using assms(5) by (simp add: run_tokens_def t_def child_token_def)
  have "suRunSeq t = suRunSeq s" and "suWanted t" and "\<not> over (suStatus t)"
    using assms(2) by (simp_all add: t_def over_def)
  then show "sup_ok (launch_child at (suRunSeq s) pid s)" and "tokens_ok (launch_child at (suRunSeq s) pid s)"
    using ok tok sup_ok_arm [of t "Recovery (suRunSeq s)" kRecoveryStableMs]
    by (simp_all add: eq armRecovery_def tokens_ok_def timer_token_def arm_def)
qed

lemma sup_ok_run:
  assumes "sup_ok s" and "\<And>q. op_run p = Some q \<Longrightarrow> q \<le> suRunSeq s"
    and "stop_op p \<Longrightarrow> \<not> suWanted s" and "op_child p = None"
  shows "sup_ok (runToCompletion argv p s)"
    and "run_tokens (runToCompletion argv p s) = run_tokens s + of_bool (op_token (suRunSeq s) p)"
proof -
  let ?v = "out (Out_run argv) s"
  have v: "sup_ok ?v" "run_tokens ?v = run_tokens s" "suRunSeq ?v = suRunSeq s" "suWanted ?v = suWanted s"
    using sup_ok_cong [of ?v s] assms(1) by (simp_all add: out_def subset_insertI)
  then show "sup_ok (runToCompletion argv p s)"
    and "run_tokens (runToCompletion argv p s) = run_tokens s + of_bool (op_token (suRunSeq s) p)"
    using sup_ok_await [of ?v p] assms(2-4) by (simp_all add: runToCompletion_def)
qed

lemma run_frame [simp]: "suWanted (runToCompletion argv p s) = suWanted s"
  "suStatus (runToCompletion argv p s) = suStatus s" "suRunSeq (runToCompletion argv p s) = suRunSeq s"
  by (simp_all add: sup_acts)

lemma launch_ok:
  assumes "sup_ok s" and "suWanted s" and "none_lost s" and "\<not> stopping s"
    and "sql_count (\<lambda>x. fst x = Relaunch) (suTimers s) = 0"
  shows "sup_ok (launch en at li s) \<and> tokens_ok (launch en at li s)"
proof -
  define t where "t = (begin_run at s)\<lparr>suStarts := Suc (suStarts s)\<rparr>"
  have new: "sup_ok u \<and> none_lost u \<and> suWanted u \<and> \<not> stopping u \<and> run_tokens u = 0"
    if "u = t \<or> (\<exists>e. u = (begin_run at s)\<lparr>suLastError := e\<rparr>)" for u
  proof -
    have f: "suRunSeq u = suRunSeq s + 1" "suTimers u = suTimers s" "suChildren u = suChildren s"
      "suOps u = suOps s" "suOut u = suOut s" "suWanted u" using that assms(2) by (auto simp: t_def begin_run_def)
    moreover have "run_tokens u = 0"
      using run_tokens_bump [of s u] assms(1,5) f by (simp add: sup_ok_def)
    ultimately show ?thesis
      using new_run_ok [OF assms(1,3,4), of u] assms(4) by (simp add: stopping_def)
  qed
  then have t: "sup_ok t" "none_lost t" "suWanted t" "\<not> stopping t" "run_tokens t = 0" by simp_all
  have st: "suStatus t = S_starting" and seq: "suRunSeq (begin_run at s) = suRunSeq t"
    and starts: "suStarts (begin_run at s) = suStarts s" by (simp_all add: t_def begin_run_def)
  have "sup_ok (runToCompletion Check_argv (Precheck (suRunSeq t) at) t)
      \<and> tokens_ok (runToCompletion Check_argv (Precheck (suRunSeq t) at) t)"
    using sup_ok_run [OF t(1), of "Precheck (suRunSeq t) at"] t(3,5) st
    by (simp add: tokens_ok_def op_run_def op_token_def stop_op_def op_child_def over_def)
  moreover have "sup_ok (recordExitAndScheduleRestart en at r ms t) \<and> tokens_ok (recordExitAndScheduleRestart en at r ms t)"
    for r ms using t record_ok [of t] by blast
  moreover have "sup_ok (recordExitAndScheduleRestart en at r ms ((begin_run at s)\<lparr>suLastError := e\<rparr>))
      \<and> tokens_ok (recordExitAndScheduleRestart en at r ms ((begin_run at s)\<lparr>suLastError := e\<rparr>))"
    for r ms e using new [of "(begin_run at s)\<lparr>suLastError := e\<rparr>"] record_ok by blast
  moreover have "launch en at li s = (case liPrepare li of
      Some e \<Rightarrow> recordExitAndScheduleRestart en at (failed_with e) 0 ((begin_run at s)\<lparr>suLastError := Some e\<rparr>)
    | None \<Rightarrow> if enType en = Forking then runToCompletion Check_argv (Precheck (suRunSeq t) at) t
        else (case liSpawn li of Spawn_throws e \<Rightarrow> recordExitAndScheduleRestart en at (failed_with e) 0 t
          | Spawned pid \<Rightarrow> launch_child at (suRunSeq t) pid t))"
    using assms(2) by (cases "liPrepare li"; cases "liSpawn li") (simp_all add: launch_def Let_def seq starts flip: t_def)
  ultimately show ?thesis
    using launch_child_ok [OF t(1,3,2,4,5) st] by (simp split: option.split spawn_result.split)
qed

section \<open>Every step keeps it\<close>

definition sup_inv :: "sidecar_entry \<Rightarrow> sup \<Rightarrow> bool" where
  "sup_inv en s \<longleftrightarrow> sup_ok s \<and> tokens_ok s \<and> (enType en = Forking \<longrightarrow> suChildren s = [])"

text \<open>The state after the token of the current run was taken, before its code goes on.\<close>

definition taken :: "sup \<Rightarrow> bool" where
  "taken s \<longleftrightarrow> sup_ok s \<and> suWanted s \<and> \<not> over (suStatus s) \<and> run_tokens s = 0"

lemma take_token:
  assumes "tokens_ok s" and "run_tokens s = of_bool b + run_tokens t" and "sup_ok t"
    and "suWanted t = suWanted s" and "suStatus t = suStatus s"
  shows "if b then taken t else tokens_ok t"
proof (cases b)
  case True
  then have "0 < run_tokens s" using assms(2) by simp
  then have "suWanted s \<and> \<not> over (suStatus s) \<and> run_tokens s = 1" by (rule tokens_wanted [OF assms(1)])
  then show ?thesis using True assms(2-5) by (simp add: taken_def)
next
  case False
  then show ?thesis using assms(1,2,4,5) by (simp add: tokens_ok_def)
qed

lemma taken_stale:
  assumes "tokens_ok s" and "run_tokens s = of_bool (q = suRunSeq s) + run_tokens t" and "sup_ok t"
    and "suWanted t = suWanted s" and "suStatus t = suStatus s" and "suRunSeq t = suRunSeq s"
  shows "if stale q t then tokens_ok t else taken t \<and> q = suRunSeq t"
proof -
  have t: "if q = suRunSeq s then taken t else tokens_ok t" by (rule take_token [OF assms(1-5)])
  show ?thesis
  proof (cases "q = suRunSeq s")
    case True
    then have "taken t" using t by simp
    then show ?thesis using True assms(6) by (simp add: stale_def taken_def)
  next
    case False
    then show ?thesis using t assms(6) by (simp add: stale_def)
  qed
qed

lemma taken_record: "taken s \<Longrightarrow> sup_ok (recordExitAndScheduleRestart en at r ms s)
    \<and> tokens_ok (recordExitAndScheduleRestart en at r ms s)"
  using record_ok by (simp add: taken_def)

lemma taken_run:
  assumes "taken s" and "op_run p = Some (suRunSeq s)"
  shows "sup_ok (runToCompletion argv p s) \<and> tokens_ok (runToCompletion argv p s)"
proof -
  have "\<not> stop_op p" and "op_child p = None"
    using assms(2) by (auto simp: stop_op_def op_child_def op_run_def split: sidecar_op.splits)
  then show ?thesis
    using assms sup_ok_run [of s p argv] by (simp add: taken_def tokens_ok_def op_token_def)
qed

lemma taken_check:
  assumes "taken s"
  shows "sup_ok (scheduleCheck (suRunSeq s) ms s) \<and> tokens_ok (scheduleCheck (suRunSeq s) ms s)"
  using assms sup_ok_arm [of s "Check (suRunSeq s)" ms]
  by (simp add: taken_def tokens_ok_def scheduleCheck_def timer_token_def) (simp add: arm_def)

lemma ok_recovery:
  assumes "sup_ok s \<and> tokens_ok s"
  shows "sup_ok (armRecovery q s) \<and> tokens_ok (armRecovery q s)"
  using assms sup_ok_arm [of s "Recovery q" kRecoveryStableMs]
  by (simp add: tokens_ok_def armRecovery_def timer_token_def) (simp add: arm_def)

lemma taken_cong:
  assumes "taken s" and "suWanted t = suWanted s" and "suRunSeq t = suRunSeq s" and "suTimers t = suTimers s"
    and "suChildren t = suChildren s" and "suOps t = suOps s" and "suChild t = suChild s"
    and "suPid t = suPid s" and "set (suOut s) \<subseteq> set (suOut t)" and "\<not> over (suStatus t)"
  shows "taken t"
  using assms(1,2,10) sup_ok_cong [OF assms(2-9)] by (simp add: taken_def)

lemma forking_running_ok:
  assumes "taken s"
  shows "sup_ok (forking_running (suRunSeq s) b ms s) \<and> tokens_ok (forking_running (suRunSeq s) b ms s)"
proof -
  let ?t = "emit_event (Ev_started None b) (s\<lparr>suStatus := S_running, suAdopted := (if b then True else suAdopted s)\<rparr>)"
  have t: "taken ?t" by (rule taken_cong [OF assms]) (auto simp: sup_acts over_def)
  have "suRunSeq ?t = suRunSeq s" by (simp add: sup_acts)
  then show ?thesis using ok_recovery [OF taken_check [OF t]] by (simp add: forking_running_def)
qed

lemma check_failed_ok:
  assumes "taken s" and "q = suRunSeq s"
  shows "sup_ok (check_failed en at q r s) \<and> tokens_ok (check_failed en at q r s)"
proof -
  let ?t = "s\<lparr>suRunSeq := suRunSeq s + 1\<rparr>"
  have s: "sup_ok s" "suWanted s" "run_tokens s = 0" "\<not> over (suStatus s)" using assms(1) by (simp_all add: taken_def)
  have "none_lost s" using tokenless_free [OF s(1-3)] by (simp add: none_lost_def)
  moreover have "\<not> stopping s" using s(1,2) by (auto simp: stopping_def list_ex_iff sup_ok_def stops_ok_def)
  ultimately have "sup_ok ?t" by (intro new_run_ok(1) [OF s(1)]) simp_all
  moreover have "run_tokens ?t = 0"
    using run_tokens_bump [of s ?t] relaunches_le [of s] s by (simp add: sup_ok_def)
  ultimately have "taken ?t" using s by (simp add: taken_def)
  then show ?thesis using s(2) assms(2) by (simp add: check_failed_def stale_def taken_record)
qed

lemma op_done_ok:
  assumes "if stale q s then tokens_ok s else taken s \<and> q = suRunSeq s" and "sup_ok s"
  shows "sup_ok (precheck_done en q t r s) \<and> tokens_ok (precheck_done en q t r s)"
    and "sup_ok (command_done en at q t r s) \<and> tokens_ok (command_done en at q t r s)"
    and "sup_ok (check_done en at q r s) \<and> tokens_ok (check_done en at q r s)"
    and "sup_ok (check_failed en at q r s) \<and> tokens_ok (check_failed en at q r s)"
proof -
  have c: "taken (s\<lparr>suLastCheckAt := Some at\<rparr>)" if "taken s"
    by (rule taken_cong [OF that]) (use that in \<open>simp_all add: taken_def\<close>)
  show "sup_ok (precheck_done en q t r s) \<and> tokens_ok (precheck_done en q t r s)"
    using assms by (simp add: precheck_done_def forking_running_ok taken_run op_run_def split: if_splits)
  show "sup_ok (command_done en at q t r s) \<and> tokens_ok (command_done en at q t r s)"
    using assms by (simp add: command_done_def forking_running_ok taken_record split: if_splits)
  show "sup_ok (check_done en at q r s) \<and> tokens_ok (check_done en at q r s)"
  proof (cases "stale q s")
    case False
    then have t: "taken (s\<lparr>suLastCheckAt := Some at\<rparr>)" and q: "q = suRunSeq (s\<lparr>suLastCheckAt := Some at\<rparr>)"
      using assms(1) c by simp_all
    show ?thesis
      using False taken_check [OF t] taken_run [OF t, of "Check_stop q r" Stop_argv] check_failed_ok [OF t q] q
      by (simp add: check_done_def Let_def op_run_def)
  qed (use assms in \<open>simp add: check_done_def\<close>)
  show "sup_ok (check_failed en at q r s) \<and> tokens_ok (check_failed en at q r s)"
    using assms check_failed_ok [of s q en at r] by (auto simp: check_failed_def split: if_splits)
qed

lemma stop_returns_ok:
  assumes "sup_ok s" and "\<not> suWanted s"
  shows "sup_ok (stop_returns r s)" and "run_tokens (stop_returns r s) = run_tokens s"
    and "\<not> suWanted (stop_returns r s)"
  using assms sup_ok_await [OF assms(1), of Restart_resume]
  by (simp_all add: stop_returns_def op_run_def stop_op_def op_child_def op_token_def) (simp add: await_def)

lemma stopped_child_ok:
  assumes "sup_ok s" and "p \<in> set (suOps s)" and "op_child p = Some i"
    and "set (suOps t) \<subseteq> set (suOps s)" and "t = s\<lparr>suOps := suOps t\<rparr>"
  shows "sup_ok (stopped_child i pid gone r t)"
    and "run_tokens (stopped_child i pid gone r t) = run_tokens t"
    and "\<not> suWanted (stopped_child i pid gone r t)"
proof -
  define u where "u = emit_event (Ev_stopped pid gone)
    ((signalGroup i pid SIGKILL t)\<lparr>suChild := None, suPid := None, suStatus := S_stopped\<rparr>)"
  have f: "suWanted t = suWanted s" "suRunSeq t = suRunSeq s" "suTimers t = suTimers s" "suChild t = suChild s"
    "suPid t = suPid s" "suChildren t = suChildren s" "suOut t = suOut s" by (subst assms(5), simp)+
  have uf: "suWanted u = suWanted s" "suRunSeq u = suRunSeq s" "suTimers u = suTimers s" "suOps u = suOps t"
    "suChild u = None" "suPid u = None" "suChildren u = suChildren s"
    "suOut u = suOut s @ [Out_signal i pid SIGKILL, Out_event (Ev_stopped pid gone)]"
    by (simp_all add: u_def sup_acts f)
  have w: "\<not> suWanted s" using assms(1-3) by (auto simp: sup_ok_def stops_ok_def stop_op_def)
  have al: "alive u = alive s" by (rule alive_cong) (rule uf)
  have ki: "kill_sent u j" if "alive s j" for j
  proof -
    have "suChild s = Some j \<or> kill_sent s j" using assms(1) that by (auto simp: sup_ok_def kids_ok_def)
    moreover have "j = i" if "suChild s = Some j" using assms(1-3) \<open>alive s j\<close> that by (auto simp: sup_ok_def stops_ok_def)
    ultimately show ?thesis by (auto simp: kill_sent_def uf)
  qed
  have "seqs_ok u" using assms(1,4) uf by (auto simp: sup_ok_def seqs_ok_def)
  moreover have "kids_ok u" using assms(1) ki by (auto simp: kids_ok_def sup_ok_def al uf)
  moreover have "stops_ok u" using w by (auto simp: stops_ok_def uf)
  ultimately have ok: "sup_ok u" by (simp add: sup_ok_def)
  have tok: "run_tokens u = run_tokens t" by (simp add: run_tokens_def uf f)
  have "\<not> suWanted u" using w uf by simp
  then show "sup_ok (stopped_child i pid gone r t)" "run_tokens (stopped_child i pid gone r t) = run_tokens t"
    "\<not> suWanted (stopped_child i pid gone r t)"
    using tok stop_returns_ok [OF ok] by (simp_all add: stopped_child_def flip: u_def)
qed

lemma term_waited_ok:
  assumes "sup_ok s" and "Term_wait i pid r \<in> set (suOps s)"
    and "set (suOps t) \<subseteq> set (suOps s)" and "t = s\<lparr>suOps := suOps t\<rparr>"
  shows "sup_ok (term_waited i pid gone r t)" and "run_tokens (term_waited i pid gone r t) = run_tokens t"
    and "\<not> suWanted (term_waited i pid gone r t)"
proof -
  define u where "u = await (Kill_wait i pid r) (signalGroup i pid SIGKILL t)"
  have f: "suWanted t = suWanted s" "suRunSeq t = suRunSeq s" "suTimers t = suTimers s" "suChild t = suChild s"
    "suPid t = suPid s" "suChildren t = suChildren s" "suOut t = suOut s" by (subst assms(4), simp)+
  have uf: "suWanted u = suWanted s" "suRunSeq u = suRunSeq s" "suTimers u = suTimers s"
    "suOps u = suOps t @ [Kill_wait i pid r]" "suChild u = suChild s" "suPid u = suPid s"
    "suChildren u = suChildren s" "suOut u = suOut s @ [Out_signal i pid SIGKILL]"
    by (simp_all add: u_def sup_acts f)
  have w: "\<not> suWanted s" using assms(1,2) by (auto simp: sup_ok_def stops_ok_def stop_op_def op_child_def)
  have al: "alive u = alive s" by (rule alive_cong) (rule uf)
  have eq: "j = i" if "suChild s = Some j" "alive s j" for j
    using assms(1,2) that by (fastforce simp: sup_ok_def stops_ok_def op_child_def)
  have ki: "kill_sent s j \<Longrightarrow> kill_sent u j" "kill_sent u i" for j by (auto simp: kill_sent_def uf)
  have "seqs_ok u" using assms(1,3) uf by (auto simp: sup_ok_def seqs_ok_def op_run_def)
  moreover have "kids_ok u" using assms(1) ki eq by (auto simp: kids_ok_def sup_ok_def al uf)
  moreover have "stops_ok u"
    using assms(1,3) w eq by (auto simp: stops_ok_def sup_ok_def al uf op_child_def)
  ultimately have ok: "sup_ok u" by (simp add: sup_ok_def)
  have tok: "run_tokens u = run_tokens t" by (simp add: run_tokens_def uf f op_token_def op_run_def)
  have "\<not> suWanted u" using w uf by simp
  then show "sup_ok (term_waited i pid gone r t)" "run_tokens (term_waited i pid gone r t) = run_tokens t"
    "\<not> suWanted (term_waited i pid gone r t)"
    using ok tok stopped_child_ok [OF assms(1,2) _ assms(3,4), of i pid True r]
    by (simp_all add: term_waited_def op_child_def flip: u_def)
qed

lemma stopped_forking_ok:
  assumes "sup_ok s" and "\<not> suWanted s"
  shows "sup_ok (stopped_forking en r s)" and "run_tokens (stopped_forking en r s) = run_tokens s"
    and "\<not> suWanted (stopped_forking en r s)"
proof -
  let ?u = "s\<lparr>suAdopted := False, suStatus := (if enEnabled en then S_stopped else suStatus s)\<rparr>"
  have u: "sup_ok ?u" "run_tokens ?u = run_tokens s" using sup_ok_cong [of ?u s] assms(1) by simp_all
  then show "sup_ok (stopped_forking en r s)" "run_tokens (stopped_forking en r s) = run_tokens s"
    "\<not> suWanted (stopped_forking en r s)"
    using assms(2) stop_returns_ok [OF u(1)] by (simp_all add: stopped_forking_def)
qed

lemma start_ok:
  assumes "sup_ok s" and "tokens_ok s" and "\<not> stopping s"
  shows "sup_ok (start en at li s) \<and> tokens_ok (start en at li s)"
proof (cases "enEnabled en \<and> \<not> (suWanted s \<and> \<not> over (suStatus s))")
  case True
  have none: "none_lost s"
  proof (cases "suWanted s")
    case True
    then have "run_tokens s = 0" using assms(2) \<open>enEnabled en \<and> _\<close> by (simp add: tokens_ok_def)
    then show ?thesis using tokenless_free [OF assms(1) True] by (simp add: none_lost_def)
  next
    case False
    show ?thesis unfolding none_lost_def
    proof (intro allI impI, rule ccontr)
      fix i assume al: "alive s i" and nk: "\<not> kill_sent s i"
      then have "suChild s = Some i" and "suPid s \<noteq> None"
        using assms(1) by (auto simp: sup_ok_def kids_ok_def alive_def child_alive_def)
      then obtain p where "p \<in> set (suOps s)" and "op_child p = Some i"
        using assms(1) False al nk by (auto simp: sup_ok_def kids_ok_def)
      then show False using assms(3) by (auto simp: stopping_def list_ex_iff stop_op_def)
    qed
  qed
  let ?t = "s\<lparr>suWanted := True\<rparr>"
  have "sup_ok ?t" and "none_lost ?t" using new_run_ok [OF assms(1) none assms(3), of ?t] by simp_all
  moreover have "sql_count (\<lambda>x. fst x = Relaunch) (suTimers s) = 0"
    using relaunches_le [of s] assms(2) True by (auto simp: tokens_ok_def)
  ultimately have "sup_ok (launch en at li ?t) \<and> tokens_ok (launch en at li ?t)"
    using assms(3) by (intro launch_ok) (simp_all add: stopping_def)
  moreover have "start en at li s = launch en at li ?t" using True by (auto simp: start_def over_def)
  ultimately show ?thesis by simp
next
  case False
  then have "start en at li s = s" by (auto simp: start_def over_def)
  then show ?thesis using assms by simp
qed

lemma stop_ok:
  assumes "sup_ok s" and "enType en = Forking \<Longrightarrow> suChildren s = []"
  shows "sup_ok (stop en b r s) \<and> tokens_ok (stop en b r s)"
proof -
  define t where "t = (sup_clearTimers s)\<lparr>suWanted := False, suNextStartAt := None, suRunSeq := suRunSeq s + 1\<rparr>"
  have tf: "suWanted t = False" "suRunSeq t = suRunSeq s + 1" "suTimers t = []" "suOps t = suOps s"
    "suChild t = suChild s" "suPid t = suPid s" "suChildren t = suChildren s" "suOut t = suOut s"
    by (simp_all add: t_def sup_clearTimers_def)
  have seqs: "seqs_ok (sup_clearTimers s)" and "seqs_ok t"
    using assms(1) tf by (fastforce simp: sup_ok_def seqs_ok_def sup_clearTimers_def)+
  have tok: "run_tokens t = 0"
    using run_tokens_bump [OF seqs, of t] by (simp add: tf) (simp add: sup_clearTimers_def)
  have al: "alive u = alive s" if "suChildren u = suChildren s" for u by (rule alive_cong) (rule that)
  have ki: "kill_sent s j \<Longrightarrow> kill_sent u j" if "set (suOut s) \<subseteq> set (suOut u)" for u j
    using that by (auto simp: kill_sent_def)
  have quiet: "sup_ok t" if "enType en = Forking \<or> suChild s = None \<or> suPid s = None"
  proof -
    have "kids_ok t"
      using assms that ki [of t] al [of t] by (auto simp: kids_ok_def sup_ok_def tf alive_def)
    moreover have "stops_ok t" using assms(1) al [of t] by (auto simp: stops_ok_def sup_ok_def tf)
    ultimately show ?thesis using \<open>seqs_ok t\<close> by (simp add: sup_ok_def)
  qed
  show ?thesis
  proof (cases "enType en = Forking \<or> suChild s = None \<or> suPid s = None")
    case True
    have ok: "sup_ok (t\<lparr>suStatus := st\<rparr>) \<and> run_tokens (t\<lparr>suStatus := st\<rparr>) = 0 \<and> \<not> suWanted (t\<lparr>suStatus := st\<rparr>)" for st
      using sup_ok_cong [of "t\<lparr>suStatus := st\<rparr>" t] quiet [OF True] tok tf by simp
    have fork: "sup_ok (stopped_forking en r u) \<and> tokens_ok (stopped_forking en r u)"
      if "sup_ok u \<and> run_tokens u = 0 \<and> \<not> suWanted u" for u
      using that stopped_forking_ok [of u en r] by (simp add: tokens_ok_def)
    have ret: "sup_ok (stop_returns r u) \<and> tokens_ok (stop_returns r u)"
      if "sup_ok u \<and> run_tokens u = 0 \<and> \<not> suWanted u" for u
      using that stop_returns_ok [of u r] by (simp add: tokens_ok_def)
    have cmd: "sup_ok (runToCompletion Stop_argv (Stop_command r) u) \<and> tokens_ok (runToCompletion Stop_argv (Stop_command r) u)"
      if "sup_ok u \<and> run_tokens u = 0 \<and> \<not> suWanted u" for u
      using that sup_ok_run [of u "Stop_command r" Stop_argv]
      by (simp add: tokens_ok_def op_run_def op_token_def op_child_def)
    have "sup_ok t \<and> run_tokens t = 0 \<and> \<not> suWanted t" using quiet [OF True] tok tf by simp
    then show ?thesis
      using True ok fork ret cmd unfolding stop_def Let_def t_def [symmetric]
      by (auto simp: tf split: option.split)
  next
    case False
    then obtain i p where ip: "suChild s = Some i" "suPid s = Some p" by auto
    define u where "u = await (Term_wait i p r) (signalGroup i p SIGTERM (t\<lparr>suStatus := S_stopping\<rparr>))"
    have uf: "suWanted u = False" "suRunSeq u = suRunSeq t" "suTimers u = []" "suOps u = suOps s @ [Term_wait i p r]"
      "suChild u = Some i" "suPid u = Some p" "suChildren u = suChildren s" "suOut u = suOut s @ [Out_signal i p SIGTERM]"
      by (simp_all add: u_def sup_acts tf ip)
    have "seqs_ok u" using \<open>seqs_ok t\<close> by (auto simp: seqs_ok_def uf tf op_run_def)
    moreover have "kids_ok u"
      using assms(1) ip ki [of u] al [of u] by (auto simp: kids_ok_def sup_ok_def uf op_child_def)
    moreover have "stops_ok u"
      using assms(1) ip al [of u] by (auto simp: stops_ok_def sup_ok_def uf op_child_def)
    ultimately have "sup_ok u" by (simp add: sup_ok_def)
    moreover have "tokens_ok u"
      using tok by (simp add: tokens_ok_def run_tokens_def uf tf op_token_def op_run_def)
    moreover have "stop en b r s = u"
      using False ip unfolding stop_def Let_def t_def [symmetric] u_def by (simp add: tf)
    ultimately show ?thesis by simp
  qed
qed

lemma set_child_ok:
  assumes s: "sup_ok s" "tokens_ok s" and i: "i < length (suChildren s)"
    and c': "chPid c' = chPid (suChildren s ! i)" "chSeq c' = chSeq (suChildren s ! i)" "chSettled c'"
      "chPid c' \<noteq> None \<Longrightarrow> chGone c'"
    and t: "t = s\<lparr>suChildren := (suChildren s)[i := c']\<rparr>" and live: "\<not> chSettled (suChildren s ! i)"
  shows "sup_ok t" and "if chSeq c' = suRunSeq t then taken t else tokens_ok t"
proof -
  have al: "alive s j \<and> suChildren t ! j = suChildren s ! j" if "alive t j" for j
    using that c'(4) i by (cases "j = i") (auto simp: alive_def child_alive_def t)
  have ki: "kill_sent t = kill_sent s" by (simp add: fun_eq_iff kill_sent_def t)
  have tf: "suChild t = suChild s" "suPid t = suPid s" "suWanted t = suWanted s" "suRunSeq t = suRunSeq s"
    "suOps t = suOps s" "suTimers t = suTimers s" by (simp_all add: t)
  have "set (suChildren t) \<subseteq> insert c' (set (suChildren s))" by (simp add: t set_update_subset_insert)
  moreover have "chSeq c' \<le> suRunSeq s" using s(1) i c'(2) by (simp add: sup_ok_def seqs_ok_def)
  ultimately have "seqs_ok t" and u: "\<forall>c \<in> set (suChildren t). chPid c \<noteq> None \<longrightarrow> chSettled c = chGone c"
    using s(1) c'(3,4) by (auto simp: sup_ok_def seqs_ok_def kids_ok_def t)
  have "(suChild t = Some j \<and> suPid t = chPid (suChildren t ! j)) \<or> kill_sent t j" if "alive t j" for j
    using s(1) al [OF that] by (auto simp: sup_ok_def kids_ok_def ki tf)
  moreover have "if suWanted t then chSeq (suChildren t ! j) = suRunSeq t
      else suPid t \<noteq> None \<longrightarrow> (\<exists>p \<in> set (suOps t). op_child p = Some j)"
    if "suChild t = Some j" "alive t j" "\<not> kill_sent t j" for j
    using s(1) al [OF that(2)] that(1,3) by (auto simp: sup_ok_def kids_ok_def ki tf)
  ultimately have "kids_ok t" unfolding kids_ok_def using u by blast
  moreover have "stops_ok t" using s(1) al by (auto simp: sup_ok_def stops_ok_def t)
  ultimately show ok: "sup_ok t" using \<open>seqs_ok t\<close> by (simp add: sup_ok_def)
  have "run_tokens s = of_bool (chSeq c' = suRunSeq t) + run_tokens t"
    using sql_count_list_update [OF i, of "child_token (suRunSeq s)" c'] c'(2,3) live
    by (simp add: run_tokens_def t child_token_def)
  then show "if chSeq c' = suRunSeq t then taken t else tokens_ok t"
    by (rule take_token [OF s(2) _ ok]) (simp_all add: t)
qed

lemma set_child_twice: "i < length (suChildren s) \<Longrightarrow> set_child i f (set_child i g s) = set_child i (\<lambda>c. f (g c)) s"
  by (simp add: set_child_def)

lemma child_settles_ok:
  assumes s: "sup_ok s" "tokens_ok s" and i: "i < length (suChildren s)" and un: "\<not> chSettled (suChildren s ! i)"
    and g: "\<And>c. chPid (g c) = chPid c \<and> chSeq (g c) = chSeq c \<and> chSettled (g c) = chSettled c \<and> chStartedAt (g c) = chStartedAt c"
    and gone: "chPid (suChildren s ! i) \<noteq> None \<Longrightarrow> chGone (g (suChildren s ! i))"
  shows "sup_ok (child_settles en at i r (set_child i g s)) \<and> tokens_ok (child_settles en at i r (set_child i g s))"
proof -
  define c' where "c' = g (suChildren s ! i)\<lparr>chSettled := True\<rparr>"
  define t where "t = s\<lparr>suChildren := (suChildren s)[i := c']\<rparr>"
  have t: "set_child i (chSettled_update (\<lambda>_. True)) (set_child i g s) = t"
    using i by (simp add: set_child_twice) (simp add: set_child_def t_def c'_def)
  have "sup_ok t" and tk: "if chSeq c' = suRunSeq t then taken t else tokens_ok t"
    using set_child_ok [OF s i _ _ _ _ t_def un] g gone by (simp_all add: c'_def)
  moreover have "suChildren (set_child i g s) ! i = g (suChildren s ! i)" and "suRunSeq (set_child i g s) = suRunSeq s"
    using i by (simp_all add: set_child_def)
  moreover have "suRunSeq t = suRunSeq s" and "chSeq c' = chSeq (suChildren s ! i)" using g by (simp_all add: t_def c'_def)
  ultimately show ?thesis
    using un g taken_record [of t] by (auto simp: child_settles_def Let_def t split: if_splits)
qed

lemma recovery_ok:
  assumes "sup_ok s" "tokens_ok s"
  shows "sup_ok (recovery_fires q s) \<and> tokens_ok (recovery_fires q s)"
proof -
  let ?t = "recovery_fires q s"
  have f: "suWanted ?t = suWanted s" "suRunSeq ?t = suRunSeq s" "suTimers ?t = suTimers s"
    "suChildren ?t = suChildren s" "suOps ?t = suOps s" "suChild ?t = suChild s" "suPid ?t = suPid s"
    "set (suOut s) \<subseteq> set (suOut ?t)" "suStatus ?t = suStatus s"
    by (auto simp: recovery_fires_def sup_acts Let_def split: option.split)
  show ?thesis using sup_ok_cong [OF f(1-8)] assms f by (simp add: tokens_ok_def)
qed

lemma timer_removed_ok:
  assumes "sup_ok s" and "k < length (suTimers s)"
  defines "t \<equiv> s\<lparr>suTimers := remove_at k (suTimers s)\<rparr>"
  shows "sup_ok t" and "run_tokens s = of_bool (timer_token (suRunSeq s) (suTimers s ! k)) + run_tokens t"
proof -
  have al: "alive t = alive s" by (rule alive_cong) (simp add: t_def)
  have ki: "kill_sent t = kill_sent s" by (simp add: fun_eq_iff kill_sent_def t_def)
  have "seqs_ok t" using assms(1) sidecar_set_remove_at [of k "suTimers s"] by (auto simp: sup_ok_def seqs_ok_def t_def)
  moreover have "kids_ok t" and "stops_ok t"
    using assms(1) unfolding kids_ok_def stops_ok_def sup_ok_def al ki by (simp_all add: t_def)
  ultimately show "sup_ok t" by (simp add: sup_ok_def)
  show "run_tokens s = of_bool (timer_token (suRunSeq s) (suTimers s ! k)) + run_tokens t"
    using sql_count_remove_at [OF assms(2)] by (simp add: run_tokens_def t_def)
qed

lemma op_removed_ok:
  assumes "sup_ok s" and "k < length (suOps s)"
  defines "t \<equiv> s\<lparr>suOps := remove_at k (suOps s)\<rparr>"
  shows "run_tokens s = of_bool (op_token (suRunSeq s) (suOps s ! k)) + run_tokens t"
    and "op_child (suOps s ! k) = None \<Longrightarrow> sup_ok t"
proof -
  show "run_tokens s = of_bool (op_token (suRunSeq s) (suOps s ! k)) + run_tokens t"
    using sql_count_remove_at [OF assms(2)] by (simp add: run_tokens_def t_def)
  assume none: "op_child (suOps s ! k) = None"
  have al: "alive t = alive s" by (rule alive_cong) (simp add: t_def)
  have ki: "kill_sent t = kill_sent s" by (simp add: fun_eq_iff kill_sent_def t_def)
  have sub: "set (suOps t) \<subseteq> set (suOps s)" using sidecar_set_remove_at by (simp add: t_def)
  have keep: "p \<in> set (suOps t)" if "p \<in> set (suOps s)" "op_child p \<noteq> None" for p
  proof -
    have "suOps s = take k (suOps s) @ suOps s ! k # drop (Suc k) (suOps s)" by (rule id_take_nth_drop) (rule assms(2))
    then have "p \<in> set (take k (suOps s) @ suOps s ! k # drop (Suc k) (suOps s))" using that(1) by metis
    then show ?thesis using that(2) none by (auto simp: t_def remove_at_def)
  qed
  have tf: "suChild t = suChild s" "suPid t = suPid s" "suWanted t = suWanted s" "suRunSeq t = suRunSeq s"
    "suChildren t = suChildren s" "suTimers t = suTimers s" by (simp_all add: t_def)
  have "seqs_ok t" using assms(1) sub by (auto simp: sup_ok_def seqs_ok_def tf)
  moreover have "(\<exists>p \<in> set (suOps s). op_child p = Some i) \<Longrightarrow> (\<exists>p \<in> set (suOps t). op_child p = Some i)" for i
    using keep by fastforce
  then have "kids_ok t"
    using assms(1) unfolding sup_ok_def kids_ok_def al ki tf by (simp split: if_splits)
  moreover have "stops_ok t" using assms(1) sub unfolding sup_ok_def stops_ok_def al tf by blast
  ultimately show "sup_ok t" by (simp add: sup_ok_def)
qed

text \<open>A forking sidecar has no child of its own.\<close>

lemma forking_childless:
  assumes "enType en = Forking"
  shows "suChildren (launch en at li s) = suChildren s" "suChildren (start en at li s) = suChildren s"
    "suChildren (stop en b r s) = suChildren s"
    "suChildren (op_resumes en at p res gone li s) = suChildren s"
    "suChildren (timer_fires en at f li s) = suChildren s"
proof -
  show l: "suChildren (launch en at li s) = suChildren s" for s
    using assms by (simp add: launch_def Let_def begin_run_def sup_acts split: option.split)
  show st: "suChildren (start en at li s) = suChildren s" for s by (simp add: start_def l)
  show "suChildren (stop en b r s) = suChildren s"
    using assms by (simp add: stop_def stopped_forking_def sup_acts Let_def)
  show "suChildren (op_resumes en at p res gone li s) = suChildren s"
    by (cases p) (simp_all add: op_resumes_def precheck_done_def command_done_def check_done_def check_failed_def
        forking_running_def stopped_forking_def term_waited_def stopped_child_def restart_resumes_def st sup_acts Let_def)
  show "suChildren (timer_fires en at f li s) = suChildren s"
    by (cases f) (simp_all add: timer_fires_def l recovery_fires_def check_fires_def sup_acts Let_def split: option.split)
qed

lemma op_resumes_ok:
  assumes s: "sup_ok s" "tokens_ok s" and k: "k < length (suOps s)"
    and ord: "suOps s ! k = Restart_resume \<Longrightarrow> \<not> stopping s"
  defines "t \<equiv> s\<lparr>suOps := remove_at k (suOps s)\<rparr>"
  shows "sup_ok (op_resumes en at (suOps s ! k) r gone li t) \<and> tokens_ok (op_resumes en at (suOps s ! k) r gone li t)"
proof -
  let ?p = "suOps s ! k"
  have p: "?p \<in> set (suOps s)" using k by simp
  have sub: "set (suOps t) \<subseteq> set (suOps s)" using sidecar_set_remove_at by (simp add: t_def)
  have tf: "suWanted t = suWanted s" "suStatus t = suStatus s" "suRunSeq t = suRunSeq s" "t = s\<lparr>suOps := suOps t\<rparr>"
    by (simp_all add: t_def)
  have tok: "run_tokens s = of_bool (op_token (suRunSeq s) ?p) + run_tokens t"
    and ok: "op_child ?p = None \<Longrightarrow> sup_ok t"
    using op_removed_ok [OF s(1) k] by (simp_all add: t_def)
  have zero: "run_tokens t = 0" if "stop_op ?p"
  proof -
    have "\<not> suWanted s" using s(1) p that by (auto simp: sup_ok_def stops_ok_def)
    then have "run_tokens s = 0" using s(2) by (simp add: tokens_ok_def)
    then show ?thesis using tok by simp
  qed
  have run: "if stale q t then tokens_ok t else taken t \<and> q = suRunSeq t" if "op_run ?p = Some q" for q
  proof -
    have none: "op_child ?p = None" using that by (auto simp: op_run_def op_child_def split: sidecar_op.splits)
    have "op_token (suRunSeq s) ?p = (q = suRunSeq s)" using that by (auto simp: op_token_def)
    then have "run_tokens s = of_bool (q = suRunSeq s) + run_tokens t" using tok by simp
    then show ?thesis by (rule taken_stale [OF s(2) _ ok [OF none] tf(1-3)])
  qed
  show ?thesis
  proof (cases ?p)
    case (Stop_command b)
    then have "\<not> suWanted t" and "sup_ok t" and "run_tokens t = 0"
      using s(1) p ok tf zero by (auto simp: sup_ok_def stops_ok_def stop_op_def op_child_def)
    then show ?thesis
      using stopped_forking_ok [of t en b] by (simp add: op_resumes_def Stop_command tokens_ok_def)
  next
    case (Term_wait i pid b)
    then have "Term_wait i pid b \<in> set (suOps s)" and "run_tokens t = 0" using p zero by (auto simp: stop_op_def op_child_def)
    then show ?thesis
      using term_waited_ok [OF s(1) _ sub tf(4), of i pid b gone] by (simp add: op_resumes_def Term_wait tokens_ok_def)
  next
    case (Kill_wait i pid b)
    then have "op_child ?p = Some i" and "run_tokens t = 0" using zero by (auto simp: stop_op_def op_child_def)
    then show ?thesis
      using stopped_child_ok [OF s(1) p _ sub tf(4), of i pid gone b] by (simp add: op_resumes_def Kill_wait tokens_ok_def)
  next
    case Restart_resume
    let ?u = "t\<lparr>suAttempt := 0, suExits := [], suCrashLoop := None\<rparr>"
    have t: "sup_ok t" using ok by (simp add: op_child_def Restart_resume)
    have "run_tokens t = run_tokens s" using tok by (simp add: op_token_def op_run_def Restart_resume)
    then have "tokens_ok ?u" and "sup_ok ?u"
      using sup_ok_cong [of ?u t] t s(2) tf by (simp_all add: tokens_ok_def)
    moreover have "\<not> stopping ?u" using ord Restart_resume sub by (auto simp: stopping_def list_ex_iff)
    ultimately show ?thesis by (simp add: op_resumes_def Restart_resume restart_resumes_def start_ok)
  qed (use run ok in \<open>simp_all add: op_resumes_def op_run_def op_child_def op_done_ok\<close>)
qed

lemma timer_fires_ok:
  assumes s: "sup_ok s" "tokens_ok s" and k: "k < length (suTimers s)"
  defines "t \<equiv> s\<lparr>suTimers := remove_at k (suTimers s)\<rparr>"
  shows "sup_ok (timer_fires en at (fst (suTimers s ! k)) li t) \<and> tokens_ok (timer_fires en at (fst (suTimers s ! k)) li t)"
proof -
  have ok: "sup_ok t" and tok: "run_tokens s = of_bool (timer_token (suRunSeq s) (suTimers s ! k)) + run_tokens t"
    using timer_removed_ok [OF s(1) k] by (simp_all add: t_def)
  have tf: "suWanted t = suWanted s" "suStatus t = suStatus s" "suRunSeq t = suRunSeq s" by (simp_all add: t_def)
  show ?thesis
  proof (cases "fst (suTimers s ! k)")
    case Relaunch
    then have "if True then taken t else tokens_ok t"
      using take_token [OF s(2) _ ok tf(1,2), of True] tok by (simp add: timer_token_def)
    then have t: "suWanted t" "run_tokens t = 0" by (simp_all add: taken_def)
    let ?u = "t\<lparr>suNextStartAt := None\<rparr>"
    have "sup_ok ?u" and "run_tokens ?u = 0" using sup_ok_cong [of ?u t] ok t by simp_all
    moreover from this have "none_lost ?u" using tokenless_free [of ?u] t by (simp add: none_lost_def)
    moreover have "\<not> stopping ?u" using ok t(1) by (auto simp: stopping_def list_ex_iff sup_ok_def stops_ok_def)
    moreover have "sql_count (\<lambda>x. fst x = Relaunch) (suTimers ?u) = 0"
      using relaunches_le [of ?u] \<open>run_tokens ?u = 0\<close> by simp
    ultimately show ?thesis using t(1) by (simp add: timer_fires_def Relaunch launch_ok)
  next
    case (Recovery q)
    then have "tokens_ok t" using tok s(2) tf by (simp add: timer_token_def tokens_ok_def)
    then show ?thesis using ok by (simp add: timer_fires_def Recovery recovery_ok)
  next
    case (Check q)
    then have "run_tokens s = of_bool (q = suRunSeq s) + run_tokens t" using tok by (simp add: timer_token_def)
    then have "if stale q t then tokens_ok t else taken t \<and> q = suRunSeq t" by (rule taken_stale [OF s(2) _ ok tf])
    then show ?thesis
      using ok by (simp add: timer_fires_def Check check_fires_def taken_run op_run_def split: if_splits)
  qed
qed

lemma sidecar_do_inv:
  assumes "sup_inv en s" and "possible s c" and "orderly s c"
  shows "sup_inv en (sidecar_do en at c s)"
proof -
  have s: "sup_ok s" "tokens_ok s" and f: "enType en = Forking \<Longrightarrow> suChildren s = []"
    using assms(1) by (simp_all add: sup_inv_def)
  have "sup_ok (sidecar_do en at c s) \<and> tokens_ok (sidecar_do en at c s)"
  proof (cases c)
    case (Announce_call b)
    have "suWanted (announce en b s) = suWanted s \<and> suStatus (announce en b s) = suStatus s" by (simp add: announce_def sup_acts)
    moreover have "sup_ok (announce en b s)" and "run_tokens (announce en b s) = run_tokens s"
      using sup_ok_cong [of "announce en b s" s] s(1) by (simp_all add: announce_def sup_acts subset_insertI)
    ultimately show ?thesis using s(2) by (simp add: sidecar_do_def Announce_call tokens_ok_def)
  next
    case (Child_exits i x g)
    then have i: "i < length (suChildren s)" "chPid (suChildren s ! i) \<noteq> None" "\<not> chGone (suChildren s ! i)"
      using assms(2) by (simp_all add: possible_def)
    then have "\<not> chSettled (suChildren s ! i)" using s(1) nth_mem [OF i(1)] by (auto simp: sup_ok_def kids_ok_def)
    then show ?thesis
      using child_settles_ok [OF s i(1), of "chGone_update (\<lambda>_. True)"] by (simp add: sidecar_do_def Child_exits child_exits_def)
  next
    case (Child_errors i e)
    then have i: "i < length (suChildren s)" "chPid (suChildren s ! i) = None" using assms(2) by (simp_all add: possible_def)
    have id: "set_child i (\<lambda>c. c) s = s" using i(1) by (simp add: set_child_def)
    show ?thesis
    proof (cases "chSettled (suChildren s ! i)")
      case True
      then show ?thesis using s by (simp add: sidecar_do_def Child_errors child_errors_def child_settles_def Let_def)
    next
      case False
      then show ?thesis
        using child_settles_ok [OF s i(1) False, of "\<lambda>c. c"] i(2)
        by (simp add: sidecar_do_def Child_errors child_errors_def id)
    qed
  next
    case (Timer_fires k li)
    then show ?thesis using assms(2) timer_fires_ok [OF s, of k] by (simp add: sidecar_do_def possible_def)
  next
    case (Op_resolves k r gone li)
    then show ?thesis
      using assms(2,3) op_resumes_ok [OF s, of k] by (simp add: sidecar_do_def possible_def orderly_def)
  qed (use assms(3) start_ok [OF s] stop_ok [OF s(1) f] in \<open>simp_all add: sidecar_do_def orderly_def\<close>)
  moreover have "suChildren (sidecar_do en at c s) = []" if "enType en = Forking"
    using forking_childless [OF that] f [OF that] assms(2)
    by (cases c) (simp_all add: sidecar_do_def possible_def announce_def sup_acts)
  ultimately show ?thesis by (simp add: sup_inv_def)
qed

lemma sup_init_inv: "sup_inv en (sup_init en)"
  by (simp add: sup_inv_def sup_ok_def seqs_ok_def kids_ok_def stops_ok_def tokens_ok_def run_tokens_def
      sup_init_def alive_def)

interpretation supervised: transition_system "\<lambda>s. s = sup_init en" "orderly_step en" "sup_inv en" for en
  by unfold_locales (auto simp: sup_init_inv elim!: orderly_step.cases intro: sidecar_do_inv)

section \<open>Starts only on demand\<close>

text \<open>What a launch asks of the system, and a restart on its way.\<close>

definition is_launch :: "sidecar_out \<Rightarrow> bool" where
  "is_launch x = (case x of Out_spawn _ _ \<Rightarrow> True | Out_run a \<Rightarrow> a = Command_argv \<or> a = Check_argv | _ \<Rightarrow> False)"

definition restart_op :: "sidecar_op \<Rightarrow> bool" where
  "restart_op p = (case p of Restart_resume \<Rightarrow> True | Stop_command b \<Rightarrow> b | Term_wait _ _ b \<Rightarrow> b
     | Kill_wait _ _ b \<Rightarrow> b | _ \<Rightarrow> False)"

definition restarting :: "sup \<Rightarrow> bool" where
  "restarting s \<longleftrightarrow> list_ex restart_op (suOps s)"

definition asks_start :: "sidecar_call \<Rightarrow> bool" where
  "asks_start c = (case c of Start_call _ \<Rightarrow> True | Restart_call _ \<Rightarrow> True | _ \<Rightarrow> False)"

definition rests :: "sidecar_out list \<Rightarrow> sup \<Rightarrow> bool" where
  "rests xs s \<longleftrightarrow> \<not> suWanted s \<and> \<not> restarting s \<and> filter is_launch (suOut s) = xs"

lemmas rest_simps = rests_def restarting_def list_ex_iff is_launch_def restart_op_def sup_acts

lemma record_rests: "rests xs s \<Longrightarrow> rests xs (recordExitAndScheduleRestart en at r ms s)"
  by (simp add: rest_simps recordExitAndScheduleRestart_def stays_def note_exit_def Let_def)

lemma child_settles_rests: "rests xs s \<Longrightarrow> rests xs (child_settles en at i r s)"
  using record_rests [of xs "set_child i (chSettled_update (\<lambda>_. True)) s"]
  by (auto simp: child_settles_def Let_def rests_def restarting_def set_child_def)

lemma recovery_rests: "rests xs s \<Longrightarrow> rests xs (recovery_fires q s)"
  by (auto simp: rest_simps recovery_fires_def Let_def split: option.split)

lemma stop_rests: "\<not> restarting s \<Longrightarrow> filter is_launch (suOut s) = xs \<Longrightarrow> rests xs (stop en b False s)"
  by (auto simp: rest_simps stop_def stopped_forking_def Let_def split: option.split)

lemma op_rests:
  assumes "rests xs s" and "\<not> restart_op p"
  shows "rests xs (op_resumes en at p r gone li s)"
proof (cases p)
  case (Term_wait i pid b)
  then show ?thesis using assms by (auto simp: rest_simps op_resumes_def term_waited_def stopped_child_def)
next
  case (Kill_wait i pid b)
  then show ?thesis using assms by (auto simp: rest_simps op_resumes_def stopped_child_def)
next
  case (Stop_command b)
  then show ?thesis using assms by (auto simp: rest_simps op_resumes_def stopped_forking_def)
qed (use assms in \<open>simp_all add: rests_def op_resumes_def precheck_done_def command_done_def check_done_def
    check_failed_def stale_def restart_op_def\<close>)

lemma step_rests:
  assumes "rests xs s" and "\<not> asks_start (snd e)"
  shows "rests xs (sidecar_step en s e)"
proof (cases "possible s (snd e)")
  case True
  have "rests xs (sidecar_do en (fst e) (snd e) s)"
  proof (cases "snd e")
    case (Stop_call b)
    then show ?thesis using stop_rests assms(1) by (simp add: sidecar_do_def rests_def)
  next
    case (Announce_call b)
    then show ?thesis using assms(1) by (simp add: sidecar_do_def announce_def rests_def)
  next
    case (Child_exits i x g)
    then show ?thesis using assms(1) child_settles_rests
      by (simp add: sidecar_do_def child_exits_def rests_def restarting_def set_child_def)
  next
    case (Child_errors i x)
    then show ?thesis using assms(1) child_settles_rests by (simp add: sidecar_do_def child_errors_def)
  next
    case (Timer_fires k li)
    have "rests xs (s\<lparr>suTimers := ts\<rparr>)" for ts using assms(1) by (simp add: rests_def restarting_def)
    then show ?thesis
      using recovery_rests by (simp add: sidecar_do_def Timer_fires timer_fires_def launch_def check_fires_def stale_def
          rests_def restarting_def split: timer_fn.split)
  next
    case (Op_resolves k r gone li)
    then have k: "k < length (suOps s)" using True by (simp add: possible_def)
    have "\<not> restart_op (suOps s ! k)" using assms(1) k by (auto simp: rests_def restarting_def list_ex_iff)
    moreover have "rests xs (s\<lparr>suOps := remove_at k (suOps s)\<rparr>)"
      using assms(1) sidecar_set_remove_at [of k "suOps s"] by (auto simp: rests_def restarting_def list_ex_iff)
    ultimately show ?thesis by (simp add: sidecar_do_def Op_resolves op_rests)
  qed (use assms(2) in \<open>simp_all add: asks_start_def\<close>)
  then show ?thesis using True by (simp add: sidecar_step_def)
qed (use assms(1) in \<open>simp add: sidecar_step_def\<close>)

interpretation resting: machine "sidecar_step en" "rests xs" "\<lambda>e. \<not> asks_start (snd e)" for en xs
  by unfold_locales (rule step_rests)

section \<open>Crash-loop episodes\<close>

definition alert :: "sidecar_out \<Rightarrow> bool option" where
  "alert x = (case x of Out_event (Ev_crash_loop _ _ _ _) \<Rightarrow> Some True
     | Out_event (Ev_recovered _ _) \<Rightarrow> Some False | _ \<Rightarrow> None)"

definition alerts :: "sup \<Rightarrow> bool list" where
  "alerts s = List.map_filter alert (suOut s)"

lemma alert_simps [simp]:
  "alert (Out_event (Ev_crash_loop n w d h)) = Some True" "alert (Out_event (Ev_recovered a b)) = Some False"
  "alert (Out_event (Ev_started i c)) = None" "alert (Out_event (Ev_exited j g m e)) = None"
  "alert (Out_event (Ev_stopped k o')) = None" "alert (Out_spawn l i) = None" "alert (Out_run v) = None"
  "alert (Out_signal l k sg) = None"
  by (simp_all add: alert_def)

text \<open>Is an episode open after these alerts? \<open>None\<close> where one is opened twice, or closed unopened.\<close>

fun episode_after :: "bool \<Rightarrow> bool list \<Rightarrow> bool option" where
  "episode_after b [] = Some b"
| "episode_after b (x # xs) = (if b = x then None else episode_after x xs)"

lemma episode_after_snoc: "episode_after b xs = Some c \<Longrightarrow> episode_after b (xs @ [x]) = (if c = x then None else Some x)"
  by (induction xs arbitrary: b) (auto split: if_splits)

definition crash_report :: "sidecar_out \<Rightarrow> bool" where
  "crash_report x = (case x of Out_event (Ev_crash_loop n w _ _) \<Rightarrow> kCrashLoopThreshold \<le> n \<and> w = kCrashLoopWindowMs | _ \<Rightarrow> True)"

definition told :: "sup \<Rightarrow> bool" where
  "told s \<longleftrightarrow> episode_after False (alerts s) = Some (suCrashLoop s \<noteq> None) \<and> list_all crash_report (suOut s)
     \<and> \<not> restarting s"

lemma told_cong:
  assumes "told s" and "suCrashLoop t = suCrashLoop s" and "suOut t = suOut s @ xs" and "list_all (\<lambda>x. alert x = None) xs"
    and "set (suOps t) \<subseteq> set (suOps s) \<union> {p. \<not> restart_op p}"
  shows "told t"
proof -
  have "List.map_filter alert xs = []" using assms(4) by (induction xs) (auto simp: map_filter_simps)
  then have "alerts t = alerts s" by (simp add: alerts_def assms(3) map_filter_def)
  moreover have "list_all crash_report xs"
    using assms(4) by (induction xs) (auto simp: alert_def crash_report_def split: sidecar_out.splits sidecar_event.splits)
  ultimately show ?thesis using assms(1,2,3,5) by (auto simp: told_def restarting_def list_ex_iff)
qed

lemma told_quiet:
  assumes "told s" and "suCrashLoop t = suCrashLoop s" and "suOut t = suOut s"
    and "set (suOps t) \<subseteq> set (suOps s) \<union> {p. \<not> restart_op p}"
  shows "told t"
  using told_cong [OF assms(1,2), of "[]"] assms(3,4) by simp

lemma alerts_snoc: "List.map_filter alert (xs @ [x])
    = List.map_filter alert xs @ (case alert x of None \<Rightarrow> [] | Some b \<Rightarrow> [b])"
  by (cases "alert x") (simp_all add: map_filter_def)

lemma told_episode:
  assumes "told s" and "suCrashLoop s = None" and "kCrashLoopThreshold \<le> n"
  shows "told (emit_event (Ev_crash_loop n kCrashLoopWindowMs d h) (s\<lparr>suCrashLoop := Some x\<rparr>))"
  using assms episode_after_snoc [of False "alerts s" False True]
  by (simp add: told_def alerts_def emit_event_def out_def alerts_snoc crash_report_def restarting_def)

lemma told_recovered:
  assumes "told s" and "suCrashLoop s = Some x"
  shows "told (emit_event (Ev_recovered ms since) (s\<lparr>suCrashLoop := None\<rparr>))"
  using assms episode_after_snoc [of False "alerts s" True False]
  by (simp add: told_def alerts_def emit_event_def out_def alerts_snoc crash_report_def restarting_def)

lemma record_told:
  assumes "told s"
  shows "told (recordExitAndScheduleRestart en at r ms s)"
proof -
  have n: "told (note_exit at r ms s)"
    by (rule told_cong [OF assms, of _ "[Out_event (Ev_exited (rrCode r) (rrSignal r) ms (or_null (rrError r)))]"])
      (simp_all add: note_exit_def sup_acts)
  have op: "told (open_episode at r b u)" if "told u" for u b
    using that told_episode [OF that] by (simp add: open_episode_def)
  have upd: "told (u\<lparr>suAttempt := a, suExits := es\<rparr>)" if "told u" for u a es
    by (rule told_quiet [OF that]) simp_all
  have fin: "told (arm Relaunch d (u\<lparr>suAttempt := a, suStatus := st, suNextStartAt := nx\<rparr>))" if "told u" for u d a st nx
    by (rule told_quiet [OF that]) (simp_all add: arm_def)
  have stop: "told (u\<lparr>suStatus := st\<rparr>)" if "told u" for u st by (rule told_quiet [OF that]) simp_all
  show ?thesis
    using stop [OF n] fin [OF op [OF upd [OF n]]]
    by (simp add: recordExitAndScheduleRestart_def scheduleRestart_def Let_def)
qed

lemma launch_told:
  assumes "told s"
  shows "told (launch en at li s)"
proof -
  have b: "told (begin_run at s)" by (rule told_quiet [OF assms]) (simp_all add: begin_run_def)
  have "told ((begin_run at s)\<lparr>suLastError := e\<rparr>)" for e by (rule told_quiet [OF b]) simp_all
  moreover have c: "told ((begin_run at s)\<lparr>suStarts := n\<rparr>)" for n by (rule told_quiet [OF b]) simp_all
  moreover have "told (runToCompletion Check_argv (Precheck q at) u)" if "told u" for u q
    by (rule told_cong [OF that, of _ "[Out_run Check_argv]"]) (auto simp: sup_acts restart_op_def)
  moreover have "told (launch_child at q pid u)" if "told u" for u q pid
    by (rule told_cong [OF that, of _ "Out_spawn (length (suChildren u)) pid
          # (case pid of None \<Rightarrow> [] | Some p \<Rightarrow> [Out_event (Ev_started (Some p) False)])"])
      (auto simp: launch_child_def sup_acts Let_def split: option.split)
  ultimately show ?thesis
    using assms record_told by (simp add: launch_def Let_def split: option.split spawn_result.split)
qed

lemma start_told: "told s \<Longrightarrow> told (start en at li s)"
  using launch_told [of "s\<lparr>suWanted := True\<rparr>"] told_quiet [of s "s\<lparr>suWanted := True\<rparr>"]
  by (simp add: start_def)

lemma child_settles_told: "told s \<Longrightarrow> told (child_settles en at i r s)"
  using record_told [of "set_child i (chSettled_update (\<lambda>_. True)) s"]
    told_quiet [of s "set_child i (chSettled_update (\<lambda>_. True)) s"]
  by (simp add: child_settles_def Let_def set_child_def)

lemma recovery_told:
  assumes "told s"
  shows "told (recovery_fires q s)"
proof -
  have t: "told (s\<lparr>suExits := [], suAttempt := 0\<rparr>)" by (rule told_quiet [OF assms]) simp_all
  then show ?thesis
    using assms told_recovered [OF t] by (auto simp: recovery_fires_def Let_def split: option.split)
qed

lemma run_told: "told s \<Longrightarrow> \<not> restart_op p \<Longrightarrow> told (runToCompletion a p s)"
  by (rule told_cong [of s _ "[Out_run a]"]) (auto simp: sup_acts)

lemma stop_told:
  assumes "told s"
  shows "told (stop en b False s)"
proof -
  let ?xs = "if enType en = Forking then (if suWanted s \<and> enStop en \<and> (suStatus s = S_running \<or> suStatus s = S_starting) \<and> b
      then [Out_run Stop_argv] else [])
    else (case (suChild s, suPid s) of (Some i, Some p) \<Rightarrow> [Out_signal i p SIGTERM] | _ \<Rightarrow> [])"
  show ?thesis
    by (rule told_cong [OF assms, of _ ?xs])
      (auto simp: stop_def stopped_forking_def sup_acts restart_op_def Let_def split: option.split)
qed

lemma op_told:
  assumes "told s" and "\<not> restart_op p"
  shows "told (op_resumes en at p r gone li s)"
proof -
  have fork: "told (forking_running q b ms s)" for q b ms
    by (rule told_cong [OF assms(1), of _ "[Out_event (Ev_started None b)]"])
      (auto simp: forking_running_def sup_acts)
  have check: "told (s\<lparr>suLastCheckAt := Some at\<rparr>)" by (rule told_quiet [OF assms(1)]) simp_all
  have sched: "told (scheduleCheck q ms u)" if "told u" for q ms u
    by (rule told_quiet [OF that]) (simp_all add: sup_acts)
  have failed: "told (check_failed en at q r' u)" if "told u" for q r' u
    using that record_told [OF told_quiet [OF that, of "u\<lparr>suRunSeq := suRunSeq u + 1\<rparr>"]]
    by (simp add: check_failed_def)
  have gone_told: "told (stopped_child i pid g False s)" for i pid g
    by (rule told_cong [OF assms(1), of _ "[Out_signal i pid SIGKILL, Out_event (Ev_stopped pid g)]"])
      (auto simp: stopped_child_def sup_acts)
  show ?thesis
  proof (cases p)
    case (Term_wait i pid b)
    have "told (await (Kill_wait i pid False) (signalGroup i pid SIGKILL s))"
      by (rule told_cong [OF assms(1), of _ "[Out_signal i pid SIGKILL]"]) (auto simp: sup_acts restart_op_def)
    then show ?thesis using Term_wait assms(2) gone_told by (simp add: op_resumes_def term_waited_def restart_op_def)
  next
    case (Stop_command b)
    have "told (stopped_forking en False s)"
      by (rule told_quiet [OF assms(1)]) (simp_all add: stopped_forking_def stop_returns_def)
    then show ?thesis using Stop_command assms(2) by (simp add: op_resumes_def restart_op_def)
  qed (use assms fork check sched failed gone_told record_told run_told in
      \<open>simp_all add: op_resumes_def precheck_done_def command_done_def check_done_def restart_op_def Let_def\<close>)
qed

definition asks_restart :: "sidecar_call \<Rightarrow> bool" where
  "asks_restart c = (case c of Restart_call _ \<Rightarrow> True | _ \<Rightarrow> False)"

lemma step_told:
  assumes "told s" and "\<not> asks_restart (snd e)"
  shows "told (sidecar_step en s e)"
proof (cases "possible s (snd e)")
  case True
  have upd: "told (s\<lparr>suTimers := ts\<rparr>)" "told (s\<lparr>suTimers := ts, suNextStartAt := nx\<rparr>)" for ts nx
    using told_quiet [OF assms(1)] by simp_all
  have "told (sidecar_do en (fst e) (snd e) s)"
  proof (cases "snd e")
    case (Announce_call b)
    have "told (out (Out_run Announce_argv) s)"
      by (rule told_cong [OF assms(1), of _ "[Out_run Announce_argv]"]) (simp_all add: out_def)
    then show ?thesis using assms(1) by (simp add: sidecar_do_def Announce_call announce_def)
  next
    case (Child_exits i x g)
    have "told (set_child i (chGone_update (\<lambda>_. True)) s)" by (rule told_quiet [OF assms(1)]) (simp_all add: set_child_def)
    then show ?thesis using child_settles_told by (simp add: sidecar_do_def Child_exits child_exits_def)
  next
    case (Timer_fires k li)
    then show ?thesis
      using upd launch_told recovery_told run_told
      by (simp add: sidecar_do_def timer_fires_def check_fires_def restart_op_def split: timer_fn.split)
  next
    case (Op_resolves k r gone li)
    then have k: "k < length (suOps s)" using True by (simp add: possible_def)
    have "\<not> restart_op (suOps s ! k)" using assms(1) k by (auto simp: told_def restarting_def list_ex_iff)
    moreover have "told (s\<lparr>suOps := remove_at k (suOps s)\<rparr>)"
      by (rule told_quiet [OF assms(1)]) (use sidecar_set_remove_at [of k "suOps s"] in auto)
    ultimately show ?thesis by (simp add: sidecar_do_def Op_resolves op_told)
  qed (use assms start_told stop_told child_settles_told in \<open>simp_all add: sidecar_do_def child_errors_def asks_restart_def\<close>)
  then show ?thesis using True by (simp add: sidecar_step_def)
qed (use assms(1) in \<open>simp add: sidecar_step_def\<close>)

interpretation telling: machine "sidecar_step en" told "\<lambda>e. \<not> asks_restart (snd e)" for en
  by unfold_locales (rule step_told)

section \<open>Restart delays\<close>

lemma kBackoffMs_mono: "m \<le> n \<Longrightarrow> n < 9 \<Longrightarrow> kBackoffMs ! m \<le> kBackoffMs ! n"
  using sorted_nth_mono [of kBackoffMs m n] by (simp add: kBackoffMs_def)

interpretation restarts: backoff restart_delay 1000 300000
proof unfold_locales
  fix m n :: nat
  show "m \<le> n \<Longrightarrow> restart_delay m \<le> restart_delay n"
    unfolding restart_delay_def by (rule kBackoffMs_mono) (auto simp: kBackoffMs_def)
  have "kBackoffMs ! 0 \<le> restart_delay n" and "restart_delay n \<le> kBackoffMs ! 8"
    unfolding restart_delay_def by (rule kBackoffMs_mono; simp add: kBackoffMs_def)+
  then show "1000 \<le> restart_delay n" and "restart_delay n \<le> 300000" by (simp_all add: kBackoffMs_def)
qed

text \<open>A sidecar whose program is never found: every launch fails at once.\<close>

definition failing :: "string \<Rightarrow> launch_input" where
  "failing e = \<lparr>liPrepare = Some e, liSpawn = Spawn_throws e\<rparr>"

definition failing_calls :: "string \<Rightarrow> int \<Rightarrow> int list \<Rightarrow> (int \<times> sidecar_call) list" where
  "failing_calls e t ts = (t, Start_call (failing e)) # map (\<lambda>u. (u, Timer_fires 0 (failing e))) ts"

definition crash_alerts :: "sup \<Rightarrow> nat" where
  "crash_alerts s = count_list (alerts s) True"

text \<open>The state after \<open>n + 1\<close> failures, at the times given.\<close>

definition failed_times :: "sup \<Rightarrow> int list \<Rightarrow> bool" where
  "failed_times s ts \<longleftrightarrow> suWanted s \<and> suStatus s = S_backoff \<and> suChildren s = [] \<and> suExits s = ts
     \<and> suAttempt s = length ts \<and> suTimers s = [(Relaunch, restart_delay (length ts - 1))]
     \<and> suNextStartAt s = Some (last ts + restart_delay (length ts - 1))
     \<and> (suCrashLoop s \<noteq> None \<longleftrightarrow> kCrashLoopThreshold \<le> length ts)
     \<and> crash_alerts s = of_bool (kCrashLoopThreshold \<le> length ts)"

lemma record_fails:
  assumes "enRestart en \<noteq> Restart_never" and "suWanted s" and "suChildren s = []" and "suTimers s = []"
    and "suExits s = ts" and "suAttempt s = length ts"
    and "suCrashLoop s \<noteq> None \<longleftrightarrow> kCrashLoopThreshold \<le> length ts"
    and "crash_alerts s = of_bool (kCrashLoopThreshold \<le> length ts)"
    and "\<forall>x \<in> set ts. at - x \<le> kCrashLoopWindowMs"
  shows "failed_times (recordExitAndScheduleRestart en at (failed_with e) 0 s) (ts @ [at])"
proof -
  have keep: "filter (\<lambda>x. at - x \<le> kCrashLoopWindowMs) ts = ts" using assms(9) by (simp add: filter_id_conv)
  have go: "\<not> stays en (failed_with e) 0 (note_exit at (failed_with e) 0 s)"
    using assms(1,2) by (auto simp: stays_def failed_with_def exit_success_def run_ok_def intro: restart_policy.exhaust)
  have al: "alerts (note_exit at (failed_with e) 0 s) = alerts s"
    by (simp add: alerts_def note_exit_def sup_acts alerts_snoc)
  show ?thesis
    using assms(2-8) go keep al
    by (auto simp: failed_times_def recordExitAndScheduleRestart_def scheduleRestart_def open_episode_def Let_def
        kStableRunMs_def crash_alerts_def alerts_def alerts_snoc sup_acts of_bool_def)
qed

lemma launch_fails:
  assumes "enRestart en \<noteq> Restart_never" and "suWanted s" and "suChildren s = []" and "suTimers s = []"
    and "suExits s = ts" and "suAttempt s = length ts"
    and "suCrashLoop s \<noteq> None \<longleftrightarrow> kCrashLoopThreshold \<le> length ts"
    and "crash_alerts s = of_bool (kCrashLoopThreshold \<le> length ts)"
    and "\<forall>x \<in> set ts. at - x \<le> kCrashLoopWindowMs"
  shows "failed_times (launch en at (failing e) s) (ts @ [at])"
proof -
  have "crash_alerts ((begin_run at s)\<lparr>suLastError := Some e\<rparr>) = crash_alerts s"
    by (simp add: crash_alerts_def alerts_def begin_run_def)
  then have "failed_times (recordExitAndScheduleRestart en at (failed_with e) 0 ((begin_run at s)\<lparr>suLastError := Some e\<rparr>)) (ts @ [at])"
    using assms by (intro record_fails) (simp_all add: begin_run_def)
  then show ?thesis using assms(2) by (simp add: launch_def failing_def Let_def)
qed

lemma failing_run:
  assumes "enRestart en \<noteq> Restart_never" and "enEnabled en"
    and "\<forall>x \<in> set (t # ts). \<forall>y \<in> set (t # ts). y - x \<le> kCrashLoopWindowMs"
  shows "failed_times (run (sidecar_step en) (sup_init en) (failing_calls e t ts)) (t # ts)"
  using assms(3)
proof (induction ts rule: rev_induct)
  case Nil
  have "failed_times (launch en t (failing e) ((sup_init en)\<lparr>suWanted := True\<rparr>)) ([] @ [t])"
    by (rule launch_fails [OF assms(1)])
      (simp_all add: sup_init_def crash_alerts_def alerts_def kCrashLoopThreshold_def map_filter_simps)
  then show ?case
    using assms(2) by (simp add: failing_calls_def sidecar_step_def possible_def sidecar_do_def start_def sup_init_def)
next
  case (snoc u ts)
  let ?s = "run (sidecar_step en) (sup_init en) (failing_calls e t ts)"
  have f: "failed_times ?s (t # ts)" using snoc by simp
  let ?s' = "?s\<lparr>suTimers := [], suNextStartAt := None\<rparr>"
  have "failed_times (launch en u (failing e) ?s') ((t # ts) @ [u])"
    by (rule launch_fails [OF assms(1)])
      (use f snoc.prems in \<open>auto simp: failed_times_def crash_alerts_def alerts_def\<close>)
  moreover have "run (sidecar_step en) (sup_init en) (failing_calls e t (ts @ [u])) = sidecar_step en ?s (u, Timer_fires 0 (failing e))"
    by (simp add: failing_calls_def run_append)
  moreover have "sidecar_step en ?s (u, Timer_fires 0 (failing e)) = launch en u (failing e) ?s'"
    using f by (simp add: sidecar_step_def possible_def sidecar_do_def timer_fires_def failed_times_def remove_at_def)
  ultimately show ?case by simp
qed

section \<open>A sidecar that always restarts is never given up\<close>

definition steady :: "sup \<Rightarrow> bool" where
  "steady s \<longleftrightarrow> \<not> over (suStatus s)"

lemma record_steady:
  assumes "enRestart en = Restart_always"
  shows "steady (recordExitAndScheduleRestart en at r ms s)"
  using assms by (simp add: recordExitAndScheduleRestart_def scheduleRestart_def stays_def steady_def over_def
      sup_acts Let_def)

lemma launch_steady:
  assumes "enRestart en = Restart_always" and "steady s"
  shows "steady (launch en at li s)"
  using assms record_steady [OF assms(1)]
  by (auto simp: launch_def Let_def launch_child_def steady_def over_def begin_run_def sup_acts
      split: option.split spawn_result.split)

lemma sidecar_do_steady:
  assumes en: "enRestart en = Restart_always" and s: "steady s"
  shows "steady (sidecar_do en at c s)"
proof -
  have start: "steady (start en at li u)" if "steady u" for li u
    using launch_steady [OF en, of "u\<lparr>suWanted := True\<rparr>"] that by (simp add: start_def steady_def)
  have settle: "steady (child_settles en at i r u)" if "steady u" for i r u
    using that record_steady [OF en] by (simp add: child_settles_def Let_def set_child_def steady_def)
  have failed: "steady (check_failed en at q r u)" if "steady u" for q r u
    using that record_steady [OF en] by (simp add: check_failed_def)
  show ?thesis
  proof (cases c)
    case (Op_resolves k r gone li)
    show ?thesis
    proof (cases "suOps s ! k")
      case Restart_resume
      then show ?thesis using s start by (simp add: sidecar_do_def Op_resolves op_resumes_def restart_resumes_def steady_def)
    qed (use s record_steady [OF en] failed in \<open>auto simp: sidecar_do_def Op_resolves op_resumes_def steady_def over_def
        precheck_done_def command_done_def check_done_def forking_running_def stopped_forking_def term_waited_def
        stopped_child_def sup_acts Let_def\<close>)
  next
    case (Timer_fires k li)
    have "steady (launch en at li (s\<lparr>suTimers := ts, suNextStartAt := None\<rparr>))" for ts
      using launch_steady [OF en] s by (simp add: steady_def)
    then show ?thesis
      using s by (auto simp: sidecar_do_def Timer_fires timer_fires_def recovery_fires_def check_fires_def steady_def
          sup_acts Let_def split: timer_fn.split option.split)
  qed (use s start settle in \<open>auto simp: sidecar_do_def stop_def stopped_forking_def announce_def child_errors_def
      child_exits_def set_child_def steady_def over_def sup_acts Let_def split: option.split\<close>)
qed

interpretation steadies: transition_system "\<lambda>s. s = sup_init en" "orderly_step en"
  "\<lambda>s. enRestart en = Restart_always \<longrightarrow> steady s" for en
proof unfold_locales
  fix s t
  show "orderly_step en s t \<Longrightarrow> enRestart en = Restart_always \<longrightarrow> steady s \<Longrightarrow> enRestart en = Restart_always \<longrightarrow> steady t"
    by (elim orderly_step.cases) (simp add: sidecar_do_steady)
qed (simp add: steady_def over_def sup_init_def)

section \<open>Properties\<close>

text \<open>A run to evaluate: a daemon is started, and dies once.\<close>

definition demo_entry :: sidecar_entry where
  "demo_entry = \<lparr>enType = Simple, enEnabled = True, enRestart = Restart_always, enStop = False,
     enAnnounce = False, enCheckIntervalSeconds = 30\<rparr>"

definition finds :: "int \<Rightarrow> launch_input" where
  "finds pid = \<lparr>liPrepare = None, liSpawn = Spawned (Some pid)\<rparr>"

definition demo_up :: sup where
  "demo_up = sidecar_do demo_entry 0 (Start_call (finds 100)) (sup_init demo_entry)"

definition no_result :: run_result where
  "no_result = \<lparr>rrCode = None, rrSignal = None, rrError = None\<rparr>"

lemmas sidecar_eval = sidecar_step_def possible_def sidecar_do_def start_def launch_def begin_run_def launch_child_def
  finds_def demo_entry_def sup_init_def sup_acts stop_def child_exits_def child_settles_def set_child_def
  op_resumes_def term_waited_def stopped_child_def op_child_def remove_at_def Let_def

lemma demo_up_reachable: "reachable (\<lambda>s. s = sup_init demo_entry) (orderly_step demo_entry) demo_up"
  unfolding demo_up_def
  by (rule reach_step [OF reach_init], simp, rule orderly_step.intros)
    (simp_all add: possible_def orderly_def stopping_def sup_init_def)

lemma demo_up_facts: "suChildren demo_up = [\<lparr>chPid = Some 100, chSeq = 1, chStartedAt = 0, chSettled = False, chGone = False\<rparr>]"
  "suWanted demo_up" "suRunSeq demo_up = 1" "suOps demo_up = []" "suStatus demo_up = S_running"
  "suTimers demo_up = [(Recovery 1, kRecoveryStableMs)]"
  "suOut demo_up = [Out_spawn 0 (Some 100), Out_event (Ev_started (Some 100) False)]"
  by (simp_all add: demo_up_def sidecar_eval)

text \<open>C4. Unless a start falls into a stop that has not returned, the supervisor never loses a process
  it spawned: every child alive that was not yet sent SIGKILL is the handle in \<open>state.child\<close>, with its
  pid, so a stop signals it. While the sidecar is wanted it belongs to the current run and its exit is
  still heard; once it is not, a stop is waiting for it. So two of them are never alive together.\<close>

theorem no_child_lost:
  assumes "reachable (\<lambda>s. s = sup_init en) (orderly_step en) s"
    and "alive s i" and "\<not> kill_sent s i"
  shows "suChild s = Some i \<and> suPid s = chPid (suChildren s ! i)
    \<and> (if suWanted s then chSeq (suChildren s ! i) = suRunSeq s \<and> \<not> chSettled (suChildren s ! i)
       else (\<exists>p \<in> set (suOps s). op_child p = Some i))"
proof -
  have s: "kids_ok s" using supervised.reachable_inv [OF assms(1)] by (simp add: sup_inv_def sup_ok_def)
  then have c: "suChild s = Some i" and p: "suPid s = chPid (suChildren s ! i)"
    using assms(2,3) by (auto simp: kids_ok_def)
  have a: "suChildren s ! i \<in> set (suChildren s)" "chPid (suChildren s ! i) \<noteq> None" "\<not> chGone (suChildren s ! i)"
    using assms(2) by (simp_all add: alive_def child_alive_def)
  then have "\<not> chSettled (suChildren s ! i)" using s by (auto simp: kids_ok_def)
  then show ?thesis using s c p a(2) assms(2,3) by (auto simp: kids_ok_def)
qed

theorem no_child_lost_witness:
  "alive demo_up 0 \<and> suChild demo_up = Some 0 \<and> chSeq (suChildren demo_up ! 0) = suRunSeq demo_up"
  using no_child_lost [OF demo_up_reachable, of 0]
  by (simp add: demo_up_facts alive_def child_alive_def kill_sent_def)








text \<open>C32. Under the same condition exactly one thing is pending for a sidecar that is wanted and not
  over (its child's exit, the restart timer, a check, or a command being run), and nothing for one that
  is not: no exit goes unanswered and no two launches race. A sidecar that always restarts is never
  over.\<close>

theorem one_pending_token:
  assumes "reachable (\<lambda>s. s = sup_init en) (orderly_step en) s"
  shows "run_tokens s = of_bool (suWanted s \<and> \<not> over (suStatus s))
    \<and> \<not> (enRestart en = Restart_always \<and> over (suStatus s))"
  using supervised.reachable_inv [OF assms] steadies.reachable_inv [OF assms]
  by (simp_all add: sup_inv_def tokens_ok_def steady_def)

theorem one_pending_token_witness:
  "run_tokens demo_up = 1 \<and> suTimers demo_up = [(Recovery 1, kRecoveryStableMs)] \<and> \<not> over (suStatus demo_up)"
  using one_pending_token [OF demo_up_reachable] by (simp add: demo_up_facts demo_entry_def)

text \<open>C33. After a stop asked for while no restart is pending nothing is launched until someone asks for a
  start or a restart: over any exits, timers, results, stops and announcements, in any order, no child
  is spawned, no command and no check is run. (A restart that waits for its own stop goes on with its
  start, whatever stop comes in between.)\<close>

theorem stopped_stays_stopped:
  assumes "\<not> restarting s" and "list_all (\<lambda>e. \<not> asks_start (snd e)) es"
  shows "\<not> suWanted (run (sidecar_step en) (sidecar_step en s (t, Stop_call b)) es)
    \<and> filter is_launch (suOut (run (sidecar_step en) (sidecar_step en s (t, Stop_call b)) es))
      = filter is_launch (suOut s)"
proof -
  have "rests (filter is_launch (suOut s)) (sidecar_step en s (t, Stop_call b))"
    using assms(1) stop_rests by (simp add: sidecar_step_def possible_def sidecar_do_def)
  then have "rests (filter is_launch (suOut s)) (run (sidecar_step en) (sidecar_step en s (t, Stop_call b)) es)"
    using assms(2) by (rule resting.run_inv)
  then show ?thesis by (simp add: rests_def)
qed

theorem stopped_stays_stopped_witness:
  "filter is_launch (suOut (run (sidecar_step demo_entry) (sidecar_step demo_entry demo_up (5, Stop_call True))
     [(6, Child_exits 0 None (Some ''SIGTERM'')), (7, Op_resolves 0 no_result True (finds 1)), (8, Timer_fires 0 (finds 2))]))
   = [Out_spawn 0 (Some 100)]"
  using stopped_stays_stopped [of demo_up "[(6, Child_exits 0 None (Some ''SIGTERM'')),
      (7, Op_resolves 0 no_result True (finds 1)), (8, Timer_fires 0 (finds 2))]" demo_entry 5 True]
  by (simp add: restarting_def demo_up_facts asks_start_def is_launch_def)

text \<open>Unless someone restarts the sidecar by hand, its alerts alternate: a crash loop is announced
  once, then its recovery, before the next crash loop, whatever exits, timers, stops and starts come in
  between. Every announcement counts at least five exits.\<close>

lemma crash_loop_alerts_alternate:
  fixes en :: sidecar_entry and es :: "(int \<times> sidecar_call) list"
  assumes "list_all (\<lambda>e. \<not> asks_restart (snd e)) es"
  defines "s \<equiv> run (sidecar_step en) (sup_init en) es"
  shows "episode_after False (alerts s) = Some (suCrashLoop s \<noteq> None) \<and> list_all crash_report (suOut s)"
proof -
  have "told (sup_init en)"
    by (simp add: told_def alerts_def sup_init_def restarting_def map_filter_simps)
  then have "told s" unfolding s_def using assms(1) by (rule telling.run_inv)
  then show ?thesis by (simp add: told_def)
qed

text \<open>A sidecar whose every launch fails at once is tried again after 1, 2, 4, .. seconds up to
  five minutes, with exactly one restart timer armed after each failure; its crash loop is announced at
  the fifth failure of ten minutes and not again.\<close>

lemma failing_launches_back_off:
  fixes en :: sidecar_entry and e :: string and t :: int and ts :: "int list"
  assumes "enRestart en \<noteq> Restart_never" and "enEnabled en"
    and "\<forall>x \<in> set (t # ts). \<forall>y \<in> set (t # ts). y - x \<le> kCrashLoopWindowMs"
  defines "s \<equiv> run (sidecar_step en) (sup_init en) (failing_calls e t ts)"
  shows "suTimers s = [(Relaunch, restart_delay (length ts))]
    \<and> suNextStartAt s = Some (last (t # ts) + restart_delay (length ts))
    \<and> 1000 \<le> restart_delay (length ts) \<and> restart_delay (length ts) \<le> 300000
    \<and> crash_alerts s = of_bool (5 \<le> length ts + 1)"
  using failing_run [OF assms(1-3), of e] restarts.delay_lower restarts.delay_upper
  by (simp_all add: failed_times_def s_def kCrashLoopThreshold_def)

end
