(* ===== verification/Env_File.thy ===== *)
theory Env_File
  imports Prelude
begin

text \<open>
  The \<open>.env\<close> file: the line format every reader and writer shares
  (\<open>lib/server/utils/env-file-format.js\<close>), the sanitation of keys and values
  (\<open>lib/server/utils/env-values.js\<close>), and the reader and writer of \<open>lib/server/env.js\<close>.

  A text is a list of characters U+0000 to U+00FF, the code units the regular expressions of the
  source tell apart below U+0100; the line and paragraph separators U+2028 and U+2029 lie outside. The
  shown properties are about what a value reads back as, for every value.
\<close>

section \<open>Characters\<close>

abbreviation code :: "char \<Rightarrow> nat" where
  "code c \<equiv> of_char c"

text \<open>What \<open>\s\<close> and \<open>trim\<close> take for white space.\<close>

definition env_space :: "char \<Rightarrow> bool" where
  "env_space c \<longleftrightarrow> js_space c \<or> c = CHR 0xA0"

definition trimStart :: "string \<Rightarrow> string" where
  "trimStart s = dropWhile env_space s"

definition trimEnd :: "string \<Rightarrow> string" where
  "trimEnd s = rev (dropWhile env_space (rev s))"

definition env_trim :: "string \<Rightarrow> string" where
  "env_trim s = trimEnd (trimStart s)"

abbreviation squote :: char where
  "squote \<equiv> CHR 0x27"

abbreviation dquote :: char where
  "dquote \<equiv> CHR 0x22"

abbreviation backslash :: char where
  "backslash \<equiv> CHR 0x5C"

abbreviation newline :: char where
  "newline \<equiv> CHR 0x0A"

section \<open>One value\<close>

definition ascii_alnum :: "char \<Rightarrow> bool" where
  "ascii_alnum c \<longleftrightarrow> (48 \<le> code c \<and> code c \<le> 57) \<or> (65 \<le> code c \<and> code c \<le> 90) \<or> (97 \<le> code c \<and> code c \<le> 122)"

text \<open>\<open>[A-Za-z0-9_./:@%+=,?*![]^{}-]\<close>, or a character beyond ASCII that is neither white space nor of
  the category C: of U+0080 to U+00FF, all but the controls, U+00A0 and U+00AD.\<close>

definition plain_char :: "char \<Rightarrow> bool" where
  "plain_char c \<longleftrightarrow> ascii_alnum c \<or> c \<in> set ''_./:@%+=,?*![]^{}-'' \<or> (161 \<le> code c \<and> code c \<noteq> 173)"

definition kPlainEnvValuePattern :: "string \<Rightarrow> bool" where
  "kPlainEnvValuePattern v \<longleftrightarrow> \<not> starts_with ''='' v \<and> list_all plain_char v"

definition kDoubleQuoteUnsafePattern :: "string \<Rightarrow> bool" where
  "kDoubleQuoteUnsafePattern v \<longleftrightarrow> list_ex (\<lambda>c. c \<in> {dquote, CHR ''$'', CHR 0x60, backslash}) v"

definition kRefusedEnvValueCharsPattern :: "string \<Rightarrow> bool" where
  "kRefusedEnvValueCharsPattern v \<longleftrightarrow> list_ex (\<lambda>c. c \<in> {CHR 0x0D, newline, CHR 0x00}) v"

text \<open>\<open>text.replaceAll("'", "'\\''")\<close>.\<close>

definition escape_quotes :: "string \<Rightarrow> string" where
  "escape_quotes v = concat (map (\<lambda>c. if c = squote then [squote, backslash, squote, squote] else [c]) v)"

definition formatEnvValue :: "string \<Rightarrow> string \<times> bool" where
  "formatEnvValue v =
     (if kPlainEnvValuePattern v then (v, True)
      else if squote \<notin> set v then ([squote] @ v @ [squote], True)
      else if \<not> kDoubleQuoteUnsafePattern v then ([dquote] @ v @ [dquote], True)
      else ([squote] @ escape_quotes v @ [squote], False))"

text \<open>The loop of \<open>decodeSingleQuoted\<close>, from a position on, with what it read so far.\<close>

function single_quoted :: "string \<Rightarrow> string \<Rightarrow> string option" where
  "single_quoted acc raw = (case raw of [] \<Rightarrow> Some acc
     | c # rest \<Rightarrow>
        if c = squote
        then (case dropWhile (\<lambda>d. d \<noteq> squote) rest of [] \<Rightarrow> None
              | _ # after \<Rightarrow> single_quoted (acc @ takeWhile (\<lambda>d. d \<noteq> squote) rest) after)
        else if starts_with [backslash, squote] raw then single_quoted (acc @ [squote]) (drop 2 raw)
        else if env_space c
        then (let tail = trimStart raw in if tail = [] \<or> starts_with ''#'' tail then Some acc else None)
        else None)"
  by pat_completeness auto
termination
proof (relation "measure (\<lambda>(acc, raw). length raw)")
  fix acc raw rest after :: string and c d :: char
  assume "raw = c # rest" and "dropWhile (\<lambda>d. d \<noteq> squote) rest = d # after"
  then have "length (d # after) \<le> length rest" by (metis length_dropWhile_le)
  then show "((acc @ takeWhile (\<lambda>d. d \<noteq> squote) rest, after), (acc, raw)) \<in> measure (\<lambda>(acc, raw). length raw)"
    using \<open>raw = c # rest\<close> by simp
qed auto

declare single_quoted.simps [simp del]

definition decodeSingleQuoted :: "string \<Rightarrow> string option" where
  "decodeSingleQuoted raw = single_quoted [] raw"

text \<open>\<open>/^"([^"]*)"\s+#/\<close>.\<close>

definition double_quoted_comment :: "string \<Rightarrow> string option" where
  "double_quoted_comment raw =
     (let rest = drop 1 raw; body = takeWhile (\<lambda>c. c \<noteq> dquote) rest; after = dropWhile (\<lambda>c. c \<noteq> dquote) rest
      in if starts_with [dquote] raw \<and> after \<noteq> [] \<and> drop 1 after \<noteq> [] \<and> env_space (hd (drop 1 after))
            \<and> starts_with ''#'' (trimStart (drop 1 after))
         then Some body else None)"

definition decodeDoubleQuoted :: "string \<Rightarrow> string option" where
  "decodeDoubleQuoted raw =
     (if 2 \<le> length raw \<and> last raw = dquote then Some (butlast (drop 1 raw)) else double_quoted_comment raw)"

definition decodeEnvValue :: "string \<Rightarrow> string" where
  "decodeEnvValue v =
     (if starts_with [squote] v then (case decodeSingleQuoted v of Some w \<Rightarrow> w | None \<Rightarrow> v)
      else if starts_with [dquote] v then (case decodeDoubleQuoted v of Some w \<Rightarrow> w | None \<Rightarrow> v)
      else v)"

section \<open>One line, one file\<close>

definition indexOf :: "char \<Rightarrow> string \<Rightarrow> nat option" where
  "indexOf c s = (let n = length (takeWhile (\<lambda>d. d \<noteq> c) s) in if n = length s then None else Some n)"

text \<open>\<open>.replace(/^export\s+/, "")\<close>.\<close>

definition drop_export :: "string \<Rightarrow> string" where
  "drop_export k = (let rest = drop 6 k in
     if starts_with ''export'' k \<and> rest \<noteq> [] \<and> env_space (hd rest) then trimStart rest else k)"

definition parseEnvLine :: "string \<Rightarrow> (string \<times> string) option" where
  "parseEnvLine line =
     (let t = env_trim line in
      if t = [] \<or> starts_with ''#'' t then None
      else (case indexOf (CHR ''='') t of None \<Rightarrow> None
        | Some i \<Rightarrow> Some (drop_export (env_trim (take i t)), decodeEnvValue (drop (Suc i) t))))"

definition parseEnvFileContent :: "string \<Rightarrow> (string \<times> string) list" where
  "parseEnvFileContent content = List.map_filter parseEnvLine (split_at_char newline content)"

section \<open>What a save refuses\<close>

datatype unwritable = Env_value_line_break string | Env_value_unrepresentable string

definition unwritable_of :: "string \<Rightarrow> string \<Rightarrow> unwritable option" where
  "unwritable_of key v =
     (if kRefusedEnvValueCharsPattern v then Some (Env_value_line_break key)
      else if \<not> snd (formatEnvValue (trimEnd v)) then Some (Env_value_unrepresentable key) else None)"

text \<open>The entries are \<open>{ key, value }\<close>; in the map of the current ones the last entry of a key wins.\<close>

definition current_value :: "(string \<times> string) list \<Rightarrow> string \<Rightarrow> string option" where
  "current_value currentVars key = map_of (rev currentVars) key"

primrec findUnwritableEnvValue :: "(string \<times> string) list \<Rightarrow> (string \<times> string) list \<Rightarrow> unwritable option" where
  "findUnwritableEnvValue [] currentVars = None"
| "findUnwritableEnvValue (e # nextVars) currentVars =
     (let key = env_trim (fst e); v = snd e in
      if key = [] \<or> current_value currentVars key = Some v then findUnwritableEnvValue nextVars currentVars
      else (case unwritable_of key v of Some u \<Rightarrow> Some u | None \<Rightarrow> findUnwritableEnvValue nextVars currentVars))"

section \<open>Sanitation\<close>

definition stripLineBreaks :: "string \<Rightarrow> string" where
  "stripLineBreaks v = filter (\<lambda>c. c \<notin> {CHR 0x0D, newline, CHR 0x00}) v"

definition normalizeEnvKey :: "string \<Rightarrow> string" where
  "normalizeEnvKey key = (if CHR 0x00 \<in> set key then [] else env_trim (stripLineBreaks key))"

text \<open>One entry per key, at its last position, with its last non-empty value. \<open>byKey\<close> is a map in
  insertion order.\<close>

definition merge_entry :: "(string \<times> string) list \<Rightarrow> string \<times> string \<Rightarrow> (string \<times> string) list" where
  "merge_entry byKey e =
     (let key = normalizeEnvKey (fst e); v = trimEnd (stripLineBreaks (snd e)) in
      if key = [] then byKey
      else filter (\<lambda>x. fst x \<noteq> key) byKey
        @ [(key, if v \<noteq> [] then v else case map_of byKey key of Some earlier \<Rightarrow> earlier | None \<Rightarrow> [])])"

definition normalizeEnvVars :: "(string \<times> string) list \<Rightarrow> (string \<times> string) list" where
  "normalizeEnvVars vars = foldl merge_entry [] vars"

definition readEnvFile :: "string option \<Rightarrow> (string \<times> string) list" where
  "readEnvFile file = (case file of Some content \<Rightarrow> normalizeEnvVars (parseEnvFileContent content) | None \<Rightarrow> [])"

definition env_line :: "string \<times> string \<Rightarrow> string" where
  "env_line e = fst e @ ''='' @ fst (formatEnvValue (snd e))"

text \<open>The text \<open>writeEnvFile\<close> writes.\<close>

definition writeEnvFile :: "(string \<times> string) list \<Rightarrow> string" where
  "writeEnvFile vars = concat (map (\<lambda>e. env_line e @ [newline]) (normalizeEnvVars vars))"

section \<open>Values read back\<close>

lemma single_quoted_word:
  assumes "squote \<notin> set v"
  shows "single_quoted acc (squote # v @ squote # rest) = single_quoted (acc @ v) rest"
proof -
  have "takeWhile (\<lambda>d. d \<noteq> squote) (v @ squote # rest) = v"
    and "dropWhile (\<lambda>d. d \<noteq> squote) (v @ squote # rest) = squote # rest"
    using assms by (induction v) auto
  then show ?thesis by (subst single_quoted.simps) simp
qed

lemma single_quoted_end: "single_quoted acc [] = Some acc"
  by (simp add: single_quoted.simps)

lemma single_quoted_escape: "single_quoted acc (backslash # squote # rest) = single_quoted (acc @ [squote]) rest"
  by (subst single_quoted.simps) (simp add: starts_with_def)

lemma escape_quotes_none: "squote \<notin> set v \<Longrightarrow> escape_quotes v = v"
  by (induction v) (auto simp: escape_quotes_def)

lemma escape_quotes_split:
  "squote \<notin> set a \<Longrightarrow> escape_quotes (a @ squote # b) = a @ [squote, backslash, squote, squote] @ escape_quotes b"
  using escape_quotes_none [of a] by (simp add: escape_quotes_def)

lemma single_quoted_escaped: "single_quoted acc (squote # escape_quotes v @ [squote]) = Some (acc @ v)"
proof (induction v arbitrary: acc rule: length_induct)
  case (1 v)
  show ?case
  proof (cases "squote \<in> set v")
    case True
    then obtain a b where v: "v = a @ squote # b" and a: "squote \<notin> set a" by (metis split_list_first)
    have "single_quoted acc (squote # escape_quotes v @ [squote])
        = single_quoted (acc @ a) (backslash # squote # squote # escape_quotes b @ [squote])"
      using single_quoted_word [OF a, of acc "backslash # squote # squote # escape_quotes b @ [squote]"]
      by (simp add: v escape_quotes_split [OF a])
    also have "\<dots> = single_quoted (acc @ a @ [squote]) (squote # escape_quotes b @ [squote])"
      by (simp add: single_quoted_escape)
    also have "\<dots> = Some (acc @ v)" using 1 by (simp add: v)
    finally show ?thesis .
  next
    case False
    then show ?thesis
      using single_quoted_word [of v acc "[]"] by (simp add: escape_quotes_none single_quoted_end)
  qed
qed

lemma plain_not_special:
  assumes "plain_char c"
  shows "c \<noteq> squote" "c \<noteq> dquote" "\<not> env_space c" "c \<noteq> newline" "c \<noteq> CHR ''#''" "c \<noteq> CHR 0x0D" "c \<noteq> CHR 0x00"
  using assms by (auto simp: plain_char_def ascii_alnum_def env_space_def js_space_def)

text \<open>
  A reader that takes plain characters as they stand, and what is between single quotes, or between
  double quotes where nothing is special, literally: bash, dotenv and the shims of the source are such
  readers. It reads every value whose form is exact.
\<close>

locale quoting_reader =
  fixes reads :: "string \<Rightarrow> string"
  assumes reads_plain: "kPlainEnvValuePattern v \<Longrightarrow> reads v = v"
    and reads_single: "squote \<notin> set v \<Longrightarrow> reads ([squote] @ v @ [squote]) = v"
    and reads_double: "\<not> kDoubleQuoteUnsafePattern v \<Longrightarrow> reads ([dquote] @ v @ [dquote]) = v"
begin

lemma exact_reads: "snd (formatEnvValue v) \<Longrightarrow> reads (fst (formatEnvValue v)) = v"
  using reads_plain reads_single reads_double by (simp add: formatEnvValue_def split: if_splits)

end

interpretation own_reader: quoting_reader decodeEnvValue
proof unfold_locales
  fix v
  show "decodeEnvValue v = v" if "kPlainEnvValuePattern v"
    using that plain_not_special
    by (cases v) (auto simp: decodeEnvValue_def kPlainEnvValuePattern_def starts_with_def)
  show "decodeEnvValue ([squote] @ v @ [squote]) = v" if "squote \<notin> set v"
    using single_quoted_escaped [of "[]" v] that
    by (simp add: decodeEnvValue_def decodeSingleQuoted_def starts_with_def escape_quotes_none)
  show "decodeEnvValue ([dquote] @ v @ [dquote]) = v"
    by (simp add: decodeEnvValue_def decodeDoubleQuoted_def starts_with_def)
qed

lemma decode_format: "decodeEnvValue (fst (formatEnvValue v)) = v"
proof (cases "snd (formatEnvValue v)")
  case True
  then show ?thesis by (rule own_reader.exact_reads)
next
  case False
  then have "fst (formatEnvValue v) = squote # escape_quotes v @ [squote]"
    by (simp add: formatEnvValue_def split: if_splits)
  then show ?thesis
    using single_quoted_escaped [of "[]" v]
    by (simp add: decodeEnvValue_def decodeSingleQuoted_def starts_with_def)
qed

section \<open>Trimming\<close>

definition trimmed :: "string \<Rightarrow> bool" where
  "trimmed s \<longleftrightarrow> s = [] \<or> (\<not> env_space (hd s) \<and> \<not> env_space (last s))"

lemma trimStart_id: "s = [] \<or> \<not> env_space (hd s) \<Longrightarrow> trimStart s = s"
  by (cases s) (auto simp: trimStart_def)

lemma trimEnd_id: "s = [] \<or> \<not> env_space (last s) \<Longrightarrow> trimEnd s = s"
  by (cases s rule: rev_cases) (auto simp: trimEnd_def)

lemma trim_id: "trimmed s \<Longrightarrow> env_trim s = s"
  by (auto simp: trimmed_def env_trim_def trimStart_id trimEnd_id)

lemma trimEnd_end: "trimEnd s \<noteq> [] \<Longrightarrow> \<not> env_space (last (trimEnd s))"
  unfolding trimEnd_def using hd_dropWhile [of env_space "rev s"] by (simp add: last_rev)

lemma trimStart_start: "trimStart s \<noteq> [] \<Longrightarrow> \<not> env_space (hd (trimStart s))"
  unfolding trimStart_def using hd_dropWhile by blast

lemma trimEnd_prefix: "\<exists>t. s = trimEnd s @ t"
proof -
  have "rev s = takeWhile env_space (rev s) @ dropWhile env_space (rev s)" by simp
  then have "s = trimEnd s @ rev (takeWhile env_space (rev s))" unfolding trimEnd_def by (metis rev_append rev_rev_ident)
  then show ?thesis by blast
qed

lemma trimmed_trim: "trimmed (env_trim s)"
proof (cases "env_trim s = []")
  case False
  obtain t where "trimStart s = env_trim s @ t" using trimEnd_prefix unfolding env_trim_def by blast
  then have "hd (trimStart s) = hd (env_trim s)" and "trimStart s \<noteq> []" using False by auto
  then have "\<not> env_space (hd (env_trim s))" using trimStart_start by metis
  then show ?thesis using False trimEnd_end [of "trimStart s"] by (simp add: trimmed_def env_trim_def)
qed (simp add: trimmed_def)

lemma set_trim: "set (env_trim s) \<subseteq> set s" "set (trimEnd s) \<subseteq> set s"
proof -
  show e: "set (trimEnd s) \<subseteq> set s" for s by (metis Un_iff set_append subsetI trimEnd_prefix)
  show "set (env_trim s) \<subseteq> set s" using e [of "trimStart s"] set_dropWhileD unfolding env_trim_def trimStart_def by fast
qed

section \<open>Normalised entries\<close>

definition clean :: "string \<Rightarrow> bool" where
  "clean v \<longleftrightarrow> set v \<inter> {CHR 0x0D, newline, CHR 0x00} = {}"

definition normal_entry :: "string \<times> string \<Rightarrow> bool" where
  "normal_entry e \<longleftrightarrow> fst e \<noteq> [] \<and> trimmed (fst e) \<and> clean (fst e) \<and> clean (snd e) \<and> trimEnd (snd e) = snd e"

definition normal_vars :: "(string \<times> string) list \<Rightarrow> bool" where
  "normal_vars vars \<longleftrightarrow> distinct (map fst vars) \<and> (\<forall>e \<in> set vars. normal_entry e)"

lemma clean_strip: "clean (stripLineBreaks v)"
  by (auto simp: clean_def stripLineBreaks_def)

lemma strip_clean: "clean v \<Longrightarrow> stripLineBreaks v = v"
  by (auto simp: clean_def stripLineBreaks_def filter_id_conv)

lemma clean_trim: "clean v \<Longrightarrow> clean (env_trim v)" "clean v \<Longrightarrow> clean (trimEnd v)"
  using set_trim [of v] by (auto simp: clean_def)

lemma clean_Nil [simp]: "clean []" "trimEnd [] = []"
  by (simp_all add: clean_def trimEnd_def)

lemma trimEnd_twice: "trimEnd (trimEnd v) = trimEnd v"
  using trimEnd_id trimEnd_end by blast

lemma normal_key: "normalizeEnvKey k \<noteq> [] \<Longrightarrow> trimmed (normalizeEnvKey k) \<and> clean (normalizeEnvKey k)"
  by (auto simp: normalizeEnvKey_def trimmed_trim clean_trim clean_strip split: if_splits)

lemma key_normal: "trimmed k \<Longrightarrow> clean k \<Longrightarrow> normalizeEnvKey k = k"
  by (auto simp: normalizeEnvKey_def strip_clean trim_id clean_def)

lemma merge_entry_normal:
  assumes "normal_vars m"
  shows "normal_vars (merge_entry m e)"
proof (cases "normalizeEnvKey (fst e) = []")
  case False
  let ?k = "normalizeEnvKey (fst e)" and ?v = "trimEnd (stripLineBreaks (snd e))"
  have old: "clean x \<and> trimEnd x = x" if "map_of m ?k = Some x" for x
    using assms map_of_SomeD [OF that] by (fastforce simp: normal_vars_def normal_entry_def)
  have "normal_entry (?k, if ?v \<noteq> [] then ?v else case map_of m ?k of Some x \<Rightarrow> x | None \<Rightarrow> [])"
    using normal_key [OF False] False old
    by (auto simp: normal_entry_def clean_trim clean_strip trimEnd_twice split: option.split)
  moreover have "distinct (map fst (filter (\<lambda>x. fst x \<noteq> ?k) m))"
    using assms by (simp add: normal_vars_def distinct_map_filter)
  ultimately show ?thesis using assms by (auto simp: normal_vars_def merge_entry_def Let_def False)
qed (use assms in \<open>simp add: merge_entry_def Let_def\<close>)

lemma foldl_merge_normal: "normal_vars m \<Longrightarrow> normal_vars (foldl merge_entry m vars)"
  by (induction vars arbitrary: m) (auto intro: merge_entry_normal)

lemma normalize_normal: "normal_vars (normalizeEnvVars vars)"
  unfolding normalizeEnvVars_def by (rule foldl_merge_normal) (simp add: normal_vars_def)

lemma merge_entry_new:
  assumes "normal_entry e" and "fst e \<notin> fst ` set m"
  shows "merge_entry m e = m @ [e]"
proof -
  have "filter (\<lambda>x. fst x \<noteq> fst e) m = m" using assms(2) by (simp add: filter_id_conv) (metis image_eqI)
  moreover have "map_of m (fst e) = None" using assms(2) by (simp add: map_of_eq_None_iff)
  ultimately show ?thesis
    using assms(1) by (cases e) (simp add: merge_entry_def normal_entry_def key_normal strip_clean Let_def)
qed

lemma normalize_id:
  assumes "normal_vars vars"
  shows "normalizeEnvVars vars = vars"
proof -
  have "foldl merge_entry m vars = m @ vars"
    if "distinct (map fst (m @ vars))" and "\<forall>e \<in> set vars. normal_entry e" for m
    using that
  proof (induction vars arbitrary: m)
    case (Cons e vars)
    then have "merge_entry m e = m @ [e]" by (intro merge_entry_new) auto
    then show ?case using Cons.IH [of "m @ [e]"] Cons.prems by simp
  qed simp
  then show ?thesis using assms by (simp add: normalizeEnvVars_def normal_vars_def)
qed

section \<open>Lines read back\<close>

text \<open>The grammar the routes admit keys by, \<open>[A-Za-z0-9_]+\<close>.\<close>

definition env_name :: "string \<Rightarrow> bool" where
  "env_name k \<longleftrightarrow> k \<noteq> [] \<and> list_all (\<lambda>c. ascii_alnum c \<or> c = CHR ''_'') k"

lemma name_char: "ascii_alnum c \<or> c = CHR ''_'' \<Longrightarrow> plain_char c \<and> c \<noteq> CHR ''=''"
  by (auto simp: plain_char_def ascii_alnum_def)

lemma env_name_plain: "env_name k \<Longrightarrow> list_all (\<lambda>c. plain_char c \<and> c \<noteq> CHR ''='') k"
  using name_char by (auto simp: env_name_def list_all_iff)

lemma env_name_trimmed: "env_name k \<Longrightarrow> trimmed k \<and> clean k"
proof -
  assume "env_name k"
  then have "plain_char c" if "c \<in> set k" for c using env_name_plain that by (auto simp: list_all_iff)
  note p = plain_not_special [OF this]
  have "\<not> env_space (hd k) \<and> \<not> env_space (last k)" if "k \<noteq> []" using that p(3) by simp
  moreover have "c \<noteq> CHR 0x0D \<and> c \<noteq> newline \<and> c \<noteq> CHR 0x00" if "c \<in> set k" for c using p(4,6,7) [OF that] by simp
  ultimately show ?thesis by (auto simp: trimmed_def clean_def)
qed

lemma format_end: "fst (formatEnvValue v) = [] \<or> \<not> env_space (last (fst (formatEnvValue v)))"
proof (cases "kPlainEnvValuePattern v")
  case True
  then have "v = [] \<or> plain_char (last v)"
    by (cases v rule: rev_cases) (simp_all add: kPlainEnvValuePattern_def list_all_iff)
  then show ?thesis using True plain_not_special by (auto simp: formatEnvValue_def)
qed (simp add: formatEnvValue_def env_space_def js_space_def)

lemma format_clean:
  assumes "clean v"
  shows "clean (fst (formatEnvValue v))"
proof -
  have "set (escape_quotes v) \<subseteq> set v \<union> {squote, backslash}" by (auto simp: escape_quotes_def split: if_splits)
  then show ?thesis using assms by (auto simp: formatEnvValue_def clean_def)
qed

lemma indexOf_first: "c \<notin> set k \<Longrightarrow> indexOf c (k @ c # s) = Some (length k)"
proof -
  assume "c \<notin> set k"
  then have "takeWhile (\<lambda>d. d \<noteq> c) (k @ c # s) = k" by (induction k) auto
  then show ?thesis by (simp add: indexOf_def)
qed

lemma parse_env_line:
  assumes "env_name k"
  shows "parseEnvLine (env_line (k, v)) = Some (k, v)"
proof -
  let ?f = "fst (formatEnvValue v)"
  have k: "k \<noteq> []" "CHR ''='' \<notin> set k" "\<not> env_space (hd k)" "hd k \<noteq> CHR ''#''"
    using assms env_name_plain [OF assms] plain_not_special by (cases k; auto simp: env_name_def list_all_iff)+
  have line: "env_line (k, v) = k @ CHR ''='' # ?f" by (simp add: env_line_def)
  have "last (k @ CHR ''='' # ?f) = (if ?f = [] then CHR ''='' else last ?f)" by simp
  then have "trimmed (k @ CHR ''='' # ?f)"
    using k format_end [of v] by (auto simp: trimmed_def env_space_def js_space_def)
  then have trim: "env_trim (env_line (k, v)) = k @ CHR ''='' # ?f" unfolding line by (rule trim_id)
  have "\<not> env_space c" if "c \<in> set k" for c
    using that env_name_plain [OF assms] plain_not_special by (auto simp: list_all_iff)
  then have "\<not> env_space (hd (drop 6 k))" if "drop 6 k \<noteq> []" by (metis hd_in_set in_set_dropD that)
  then have "drop_export k = k" by (auto simp: drop_export_def Let_def)
  moreover have "\<not> starts_with ''#'' (k @ CHR ''='' # ?f)" using k by (cases k) (auto simp: starts_with_def)
  ultimately show ?thesis
    using k env_name_trimmed [OF assms]
    by (simp add: parseEnvLine_def trim indexOf_first trim_id decode_format Let_def)
qed

lemma clean_newline: "clean v \<Longrightarrow> newline \<notin> set v"
  by (auto simp: clean_def)

lemma env_line_clean: "normal_entry e \<Longrightarrow> clean (env_line e)"
  using format_clean [of "snd e"] by (auto simp: env_line_def normal_entry_def clean_def)

lemma split_lines:
  "\<forall>e \<in> set es. newline \<notin> set (env_line e) \<Longrightarrow>
     split_at_char newline (concat (map (\<lambda>e. env_line e @ [newline]) es)) = map env_line es @ [[]]"
  by (induction es) (simp_all add: split_at_char_append)

lemma file_lines: "split_at_char newline (writeEnvFile vars) = map env_line (normalizeEnvVars vars) @ [[]]"
  unfolding writeEnvFile_def
  using normalize_normal [of vars] env_line_clean by (intro split_lines) (auto simp: normal_vars_def clean_newline)

lemma parse_empty: "parseEnvLine [] = None"
  by (simp add: parseEnvLine_def env_trim_def trimStart_def trimEnd_def Let_def)

lemma parse_file:
  assumes "\<forall>e \<in> set (normalizeEnvVars vars). env_name (fst e)"
  shows "parseEnvFileContent (writeEnvFile vars) = normalizeEnvVars vars"
proof -
  have "List.map_filter parseEnvLine (map env_line es) = es" if "\<forall>e \<in> set es. env_name (fst e)" for es
    using that by (induction es) (auto simp: map_filter_simps parse_env_line)
  then show ?thesis
    using assms by (simp add: parseEnvFileContent_def file_lines map_filter_def parse_empty)
qed

lemma read_file:
  assumes "\<forall>e \<in> set (normalizeEnvVars vars). env_name (fst e)"
  shows "readEnvFile (Some (writeEnvFile vars)) = normalizeEnvVars vars"
  by (simp add: readEnvFile_def parse_file [OF assms] normalize_id [OF normalize_normal])

section \<open>Properties\<close>

text \<open>C14. Whatever a save stores reads back: for entries whose keys are names, the reader returns the
  entries the writer normalised, for every value (quotes, dollars, backslashes, spaces, comments), and
  saving what was read writes the same text again.\<close>

theorem env_file_roundtrip:
  assumes "\<forall>e \<in> set (normalizeEnvVars vars). env_name (fst e)"
  shows "readEnvFile (Some (writeEnvFile vars)) = normalizeEnvVars vars
    \<and> writeEnvFile (readEnvFile (Some (writeEnvFile vars))) = writeEnvFile vars"
proof -
  have "writeEnvFile (normalizeEnvVars vars) = writeEnvFile vars"
    by (simp add: writeEnvFile_def normalize_id [OF normalize_normal])
  then show ?thesis by (simp add: read_file [OF assms])
qed

text \<open>C34. No key or value, whatever it holds, adds a line to the file: the file has one line for each
  normalised entry, in order, and each key occurs once.\<close>

theorem env_values_add_no_line:
  "split_at_char newline (writeEnvFile vars) = map env_line (normalizeEnvVars vars) @ [[]]
    \<and> distinct (map fst (normalizeEnvVars vars))"
  using file_lines normalize_normal [of vars] by (simp add: normal_vars_def)

lemma unwritable_none:
  "findUnwritableEnvValue nextVars currentVars = None \<Longrightarrow> e \<in> set nextVars \<Longrightarrow> env_trim (fst e) \<noteq> [] \<Longrightarrow>
     current_value currentVars (env_trim (fst e)) \<noteq> Some (snd e) \<Longrightarrow> unwritable_of (env_trim (fst e)) (snd e) = None"
  by (induction nextVars) (auto simp: Let_def split: if_splits option.splits)

text \<open>C35. A save that is not refused stores every value it changes so that every reader of the quoting
  rules, bash and dotenv as well as the program's own, reads exactly that value, up to trailing white
  space; none of them holds a line break or a NUL.\<close>

theorem accepted_values_read_everywhere:
  assumes "findUnwritableEnvValue nextVars currentVars = None"
    and "e \<in> set nextVars" and "env_trim (fst e) \<noteq> []"
    and "current_value currentVars (env_trim (fst e)) \<noteq> Some (snd e)"
    and "quoting_reader reads"
  shows "reads (fst (formatEnvValue (trimEnd (snd e)))) = trimEnd (snd e) \<and> stripLineBreaks (snd e) = snd e"
proof -
  have n: "unwritable_of (env_trim (fst e)) (snd e) = None" using assms(1-4) by (rule unwritable_none)
  then have "snd (formatEnvValue (trimEnd (snd e)))" by (simp add: unwritable_of_def split: if_splits)
  moreover have "clean (snd e)"
    using n by (auto simp: unwritable_of_def kRefusedEnvValueCharsPattern_def list_ex_iff clean_def split: if_splits)
  ultimately show ?thesis using quoting_reader.exact_reads [OF assms(5)] by (simp add: strip_clean)
qed

text \<open>A key with a dollar and spaces in its value, one with a single quote, and a save of both.\<close>

definition demo_vars :: "(string \<times> string) list" where
  "demo_vars = [(''A'', ''$x y ''), (''B'', [squote]), ('' A '', [])]"

lemma demo_vars_normal: "normalizeEnvVars demo_vars = [(''B'', [squote]), (''A'', ''$x y'')]"
  by (simp add: demo_vars_def normalizeEnvVars_def merge_entry_def normalizeEnvKey_def stripLineBreaks_def
      env_trim_def trimStart_def trimEnd_def env_space_def js_space_def Let_def)

theorem env_file_roundtrip_witness:
  "readEnvFile (Some (writeEnvFile demo_vars)) = [(''B'', [squote]), (''A'', ''$x y'')]"
  using env_file_roundtrip [of demo_vars]
  by (simp add: demo_vars_normal env_name_def ascii_alnum_def)

theorem accepted_values_read_everywhere_witness:
  "decodeEnvValue (fst (formatEnvValue (trimEnd ''$x y ''))) = trimEnd ''$x y ''"
proof -
  have "findUnwritableEnvValue demo_vars [] = None"
    by (simp add: demo_vars_def unwritable_of_def kRefusedEnvValueCharsPattern_def formatEnvValue_def current_value_def
        kPlainEnvValuePattern_def kDoubleQuoteUnsafePattern_def plain_char_def ascii_alnum_def starts_with_def
        env_trim_def trimStart_def trimEnd_def env_space_def js_space_def Let_def)
  then show ?thesis
    using accepted_values_read_everywhere [of demo_vars "[]" "(''A'', ''$x y '')" decodeEnvValue] own_reader.quoting_reader_axioms
    by (simp add: demo_vars_def current_value_def env_trim_def trimStart_def trimEnd_def env_space_def js_space_def)
qed

end
