(* ===== verification/Env_Reload.thy ===== *)
theory Env_Reload
  imports Env_File
begin

text \<open>
  The live environment: what the \<open>.env\<close> file contributes to \<open>process.env\<close> at boot
  (\<open>bin/alphaclaw.js\<close>), on a reload (\<open>reloadEnv\<close> of \<open>lib/server/env.js\<close>) and when its watcher fires, under
  the rule both share (\<open>resolveEnvFileOverlay\<close> of \<open>lib/server/deployment-only-env.js\<close>).

  An environment is a map from names to values. The module state of \<open>env.js\<close>, the recorded deployment
  environment, the file and \<open>process.env\<close> are one record. A signature is the list whose JSON the source
  compares. Log lines are left out; that \<open>fs.watchFile\<close> fires some time after a change is the event
  \<open>Watch\<close>. A name that every JavaScript object inherits (\<open>constructor\<close>), which the lookup in the
  recorded environment would find, is left aside.
\<close>

section \<open>Keys\<close>

definition kDeploymentOnlyEnvKeys :: "string list" where
  "kDeploymentOnlyEnvKeys =
    [''ALPHACLAW_ALLOW_LEGACY_LOGIN'', ''ALPHACLAW_SETUP_URL'', ''ALPHACLAW_BASE_URL'',
     ''RENDER_EXTERNAL_URL'', ''URL'', ''RAILWAY_PUBLIC_DOMAIN'', ''RAILWAY_STATIC_URL'',
     ''ALPHACLAW_GATEWAY_ENV_UNRESTRICTED'', ''ALPHACLAW_GATEWAY_ENV_PASSTHROUGH'',
     ''GATEWAY_RESTART_READY_TIMEOUT'', ''ALPHACLAW_GATEWAY_RESTART_GRACE_SECONDS'',
     ''ALPHACLAW_SHUTDOWN_GRACE_SECONDS'', ''ALPHACLAW_BACKUP_RETENTION_KEEP'',
     ''ALPHACLAW_BACKUP_RETENTION_DAYS'', ''WATCHDOG_CHECK_INTERVAL'',
     ''WATCHDOG_DEGRADED_CHECK_INTERVAL'', ''WATCHDOG_DEGRADED_CHECK_MAX_INTERVAL'',
     ''WATCHDOG_DEGRADED_REPAIR_THRESHOLD'', ''WATCHDOG_DISK_RESUME_FREE_MB'',
     ''ALPHACLAW_GATEWAY_PRELAUNCH_HOOK'', ''OPENCLAW_CRASH_CAUSE_LADDER'', ''ALPHACLAW_CONTROL_UI_MOUNT'',
     ''ALPHACLAW_GATEWAY_STOP_ASK'', ''ALPHACLAW_LSOF_SHIM'', ''ALPHACLAW_GIT_LOCK_FD'',
     ''ALPHACLAW_BOX_LOCK_PATH'', ''ALPHACLAW_BOX_LOCK_WAIT_SECONDS'', ''ALPHACLAW_BOX_LOCK_OWNER'',
     ''ALPHACLAW_BOX_LOCK_OWNER_PATH'', ''ALPHACLAW_BOX_LOCK_LOG_PATH'', ''ALPHACLAW_SIDECARS'',
     ''ALPHACLAW_POST_BOOT_HOOK'', ''ALPHACLAW_RELAY'', ''ALPHACLAW_RELAY_RETENTION_DAYS'',
     ''ALPHACLAW_RELAY_MAX_CONCURRENT'', ''ALPHACLAW_RELAY_HOURLY_CAP'', ''ALPHACLAW_RELAY_PORT'',
     ''ALPHACLAW_RELAY_AGENT_NAME'', ''ALPHACLAW_RELAY_REMOTE'', ''ALPHACLAW_RELAY_OAUTH_REDIRECT_URIS'',
     ''ALPHACLAW_RELAY_WAKE_HOSTS'', ''ALPHACLAW_RELAY_MAX_BINDINGS_PER_CLIENT'',
     ''ALPHACLAW_RELAY_BRAIN'', ''ALPHACLAW_RELAY_BRAIN_BIN'', ''ALPHACLAW_RELAY_BRAIN_PEER_DAILY_MB'',
     ''ALPHACLAW_RELAY_BRAIN_PEER_TOTAL_MB'', ''ALPHACLAW_MANAGED_UPDATE_TOKEN'', ''RAILWAY_TOKEN'',
     ''RAILWAY_API_TOKEN'', ''VERCEL_TOKEN'', ''NPM_TOKEN'']"

definition kDeploymentWinsEnvKeys :: "string list" where
  "kDeploymentWinsEnvKeys =
    [''SETUP_PASSWORD'', ''GOG_KEYRING_PASSWORD'']"

definition kBootManagedEnvKeys :: "string list" where
  "kBootManagedEnvKeys =
    [''ALPHACLAW_ROOT_DIR'', ''PORT'', ''PATH'', ''HOME'', ''OPENCLAW_HOME'', ''OPENCLAW_STATE_DIR'',
     ''OPENCLAW_CONFIG_PATH'', ''XDG_CONFIG_HOME'', ''GOG_KEYRING_PASSWORD'']"

definition kKnownVars :: "string list" where
  "kKnownVars =
    [''ANTHROPIC_API_KEY'', ''ANTHROPIC_TOKEN'', ''OPENAI_API_KEY'', ''GEMINI_API_KEY'',
     ''PARTICLE_API_KEY'', ''ELEVENLABS_API_KEY'', ''GITHUB_TOKEN'', ''GITHUB_WORKSPACE_REPO'',
     ''TELEGRAM_BOT_TOKEN'', ''DISCORD_BOT_TOKEN'', ''SLACK_BOT_TOKEN'', ''SLACK_APP_TOKEN'',
     ''WHATSAPP_OWNER_NUMBER'', ''MISTRAL_API_KEY'', ''VOYAGE_API_KEY'', ''GROQ_API_KEY'',
     ''DEEPGRAM_API_KEY'', ''BRAVE_API_KEY'', ''CLAUDE_CODE_ROUTINE_URL'', ''CLAUDE_CODE_ROUTINE_TOKEN'',
     ''CLAUDE_CODE_LOCAL_ENABLED'', ''CLAUDE_CODE_LOCAL_AUTOSTART'', ''CLAUDE_CODE_LOCAL_PERMISSION_MODE'',
     ''CLAUDE_CODE_LOCAL_CWD'', ''CLAUDE_CODE_LOCAL_SPAWN_ON_INCIDENT'']"

definition kReloadSkippedKeys :: "string set" where
  "kReloadSkippedKeys = set kDeploymentOnlyEnvKeys \<union> set kBootManagedEnvKeys"

section \<open>What a file contributes\<close>

type_synonym env = "string \<rightharpoonup> string"

text \<open>\<open>value || undefined\<close>.\<close>

definition truthy :: "string option \<Rightarrow> string option" where
  "truthy v = (if v = Some [] then None else v)"

definition baseline_value :: "env option \<Rightarrow> string \<Rightarrow> string option" where
  "baseline_value baseline key = (case baseline of Some b \<Rightarrow> b key | None \<Rightarrow> None)"

definition overlay_entry :: "env option \<Rightarrow> env \<Rightarrow> string \<times> string \<Rightarrow> env" where
  "overlay_entry baseline overlay e =
     (let key = fst e; v = snd e in
      if key = [] then overlay
      else if key \<in> set kDeploymentOnlyEnvKeys then overlay
      else if key \<in> set kDeploymentWinsEnvKeys
           \<and> env_trim (case baseline_value baseline key of Some b \<Rightarrow> b | None \<Rightarrow> []) \<noteq> [] then overlay
      else if v \<noteq> [] then overlay(key \<mapsto> v) else overlay)"

definition resolveEnvFileOverlay :: "env option \<Rightarrow> (string \<times> string) list \<Rightarrow> env" where
  "resolveEnvFileOverlay baseline entries = foldl (overlay_entry baseline) Map.empty entries"

text \<open>Section 5 of \<open>bin/alphaclaw.js\<close>: the deployment environment \<open>base\<close>, recorded, then the file.\<close>

definition boot_entries :: "string \<Rightarrow> (string \<times> string) list" where
  "boot_entries content = filter (\<lambda>e. fst e \<notin> set kDeploymentOnlyEnvKeys)
     (map (\<lambda>e. (normalizeEnvKey (fst e), snd e)) (parseEnvFileContent content))"

definition boot_env :: "env \<Rightarrow> string option \<Rightarrow> env" where
  "boot_env base file = (case file of None \<Rightarrow> base
     | Some content \<Rightarrow> base ++ resolveEnvFileOverlay (Some base) (boot_entries content))"

section \<open>State\<close>

type_synonym env_signature = "(string \<times> string) list"

record env_state =
  esFile :: "string option"
  esEnv :: env
  esBaseline :: "env option"
  esPendingSelf :: "env_signature option"
  esLastLoaded :: "env_signature option"

text \<open>\<open>recordDeploymentEnvBaseline\<close>: once, from the environment of the process.\<close>

definition recordDeploymentEnvBaseline :: "env_state \<Rightarrow> env_state" where
  "recordDeploymentEnvBaseline s = (if esBaseline s = None then s\<lparr>esBaseline := Some (esEnv s)\<rparr> else s)"

text \<open>A process that starts in the deployment environment \<open>base\<close> and has loaded its file.\<close>

definition env_boot :: "env \<Rightarrow> string option \<Rightarrow> env_state" where
  "env_boot base file = (let s = recordDeploymentEnvBaseline
       \<lparr>esFile = file, esEnv = base, esBaseline = None, esPendingSelf = None, esLastLoaded = None\<rparr>
     in s\<lparr>esEnv := boot_env base file\<rparr>)"

definition buildEnvSignature :: "(string \<times> string) list \<Rightarrow> env_signature" where
  "buildEnvSignature vars = filter (\<lambda>e. fst e \<noteq> [] \<and> fst e \<notin> set kDeploymentOnlyEnvKeys)
     (map (\<lambda>e. (normalizeEnvKey (fst e), stripLineBreaks (snd e))) vars)"

section \<open>Operations\<close>

text \<open>\<open>writeEnvFile\<close>, with the signature it leaves for the watcher; \<open>updateEnvFile\<close> under its file lock.\<close>

definition write_env_file :: "(string \<times> string) list \<Rightarrow> env_state \<Rightarrow> env_state" where
  "write_env_file vars s = s\<lparr>esFile := Some (writeEnvFile vars),
     esPendingSelf := Some (buildEnvSignature (normalizeEnvVars vars))\<rparr>"

definition updateEnvFile :: "((string \<times> string) list \<Rightarrow> (string \<times> string) list option) \<Rightarrow> env_state \<Rightarrow> env_state" where
  "updateEnvFile mutator s =
     (let current = readEnvFile (esFile s);
          next_vars = normalizeEnvVars (case mutator current of Some vs \<Rightarrow> vs | None \<Rightarrow> current)
      in write_env_file next_vars s)"

definition readRawEnvEntries :: "string option \<Rightarrow> (string \<times> string) list" where
  "readRawEnvEntries file = (case file of None \<Rightarrow> []
     | Some content \<Rightarrow> map (\<lambda>e. (normalizeEnvKey (fst e), stripLineBreaks (snd e))) (parseEnvFileContent content))"

text \<open>One key of a reload; the change lists \<open>added\<close>, \<open>updated\<close>, \<open>restored\<close> and \<open>removed\<close> are one list.\<close>

datatype env_change = Added string | Updated string | Restored string | Removed string

definition reload_target :: "env option \<Rightarrow> env \<Rightarrow> string \<Rightarrow> string option" where
  "reload_target baseline overlay key =
     (case overlay key of Some v \<Rightarrow> Some v | None \<Rightarrow> truthy (baseline_value baseline key))"

definition reload_key :: "env option \<Rightarrow> env \<Rightarrow> env \<times> env_change list \<Rightarrow> string \<Rightarrow> env \<times> env_change list" where
  "reload_key baseline overlay st key =
     (let env = fst st; changes = snd st; current = env key in
      if key = [] \<or> key \<in> kReloadSkippedKeys then st
      else (case reload_target baseline overlay key of
        None \<Rightarrow> (if truthy current \<noteq> None then (env(key := None), changes @ [Removed key]) else st)
      | Some target \<Rightarrow> (if current = Some target then st
          else (env(key \<mapsto> target), changes @ [if overlay key = None then Restored key
                 else if truthy current \<noteq> None then Updated key else Added key]))))"

definition reload_keys :: "(string \<times> string) list \<Rightarrow> string list" where
  "reload_keys entries = rev (remdups (rev (map fst entries @ kKnownVars)))"

definition reload_result :: "env option \<Rightarrow> (string \<times> string) list \<Rightarrow> env \<Rightarrow> env \<times> env_change list" where
  "reload_result baseline entries env =
     foldl (reload_key baseline (resolveEnvFileOverlay baseline entries)) (env, []) (reload_keys entries)"

definition reloadEnv :: "env_state \<Rightarrow> env_state \<times> bool" where
  "reloadEnv s =
     (let entries = readRawEnvEntries (esFile s); res = reload_result (esBaseline s) entries (esEnv s)
      in (s\<lparr>esEnv := fst res, esLastLoaded := Some (buildEnvSignature entries)\<rparr>, snd res \<noteq> []))"

definition readEnvFileSignature :: "string option \<Rightarrow> env_signature option" where
  "readEnvFileSignature file = (case file of None \<Rightarrow> None
     | Some content \<Rightarrow> Some (buildEnvSignature (parseEnvFileContent content)))"

text \<open>The debounced callback of the watcher.\<close>

definition env_watch_fires :: "env_state \<Rightarrow> env_state" where
  "env_watch_fires s =
     (let signature = readEnvFileSignature (esFile s) in
      if signature \<noteq> None \<and> signature = esPendingSelf s
      then s\<lparr>esPendingSelf := None, esLastLoaded := signature\<rparr>
      else (let s1 = s\<lparr>esPendingSelf := None\<rparr> in
        if signature \<noteq> None \<and> signature = esLastLoaded s1 then s1 else fst (reloadEnv s1)))"

text \<open>What happens to the file and the environment: a save of the server (write, then reload, as every
  caller does), a change from outside (\<open>None\<close>: unreadable), the watcher, a reload by itself.\<close>

datatype env_event = Save "(string \<times> string) list" | Edit "string option" | Watch | Reload

definition env_step :: "env_state \<Rightarrow> env_event \<Rightarrow> env_state" where
  "env_step s e = (case e of
     Save vars \<Rightarrow> fst (reloadEnv (write_env_file vars s))
   | Edit file \<Rightarrow> s\<lparr>esFile := file\<rparr>
   | Watch \<Rightarrow> env_watch_fires s
   | Reload \<Rightarrow> fst (reloadEnv s))"

section \<open>The overlay\<close>

lemma overlay_nonempty: "resolveEnvFileOverlay b es k = Some v \<Longrightarrow> v \<noteq> []"
proof -
  have gen: "foldl (overlay_entry b) m es k = Some v \<Longrightarrow> (\<And>k v. m k = Some v \<Longrightarrow> v \<noteq> []) \<Longrightarrow> v \<noteq> []" for m
  proof (induction es arbitrary: m)
    case (Cons e es)
    have "\<And>k v. overlay_entry b m e k = Some v \<Longrightarrow> v \<noteq> []"
      using Cons.prems(2) by (auto simp: overlay_entry_def Let_def split: if_splits)
    then show ?case using Cons.IH [of "overlay_entry b m e"] Cons.prems(1) by simp
  qed simp
  show "resolveEnvFileOverlay b es k = Some v \<Longrightarrow> v \<noteq> []"
    unfolding resolveEnvFileOverlay_def by (rule gen [of Map.empty]) simp_all
qed

lemma overlay_filter:
  assumes "\<And>e. \<not> p e \<Longrightarrow> fst e = [] \<or> fst e \<in> set kDeploymentOnlyEnvKeys"
  shows "resolveEnvFileOverlay b (filter p es) = resolveEnvFileOverlay b es"
proof -
  have "foldl (overlay_entry b) m (filter p es) = foldl (overlay_entry b) m es" for m
  proof (induction es arbitrary: m)
    case (Cons e es)
    then show ?case using assms [of e] by (auto simp: overlay_entry_def Let_def)
  qed simp
  then show ?thesis by (simp add: resolveEnvFileOverlay_def)
qed

section \<open>A reload, key by key\<close>

definition reloaded :: "env option \<Rightarrow> env \<Rightarrow> string \<Rightarrow> string option \<Rightarrow> string option" where
  "reloaded b overlay k current = (case reload_target b overlay k of Some t \<Rightarrow> Some t
     | None \<Rightarrow> if truthy current = None then current else None)"

lemma reload_key_at: "fst (reload_key b ov st key) k
    = (if k = key \<and> key \<noteq> [] \<and> key \<notin> kReloadSkippedKeys then reloaded b ov k (fst st k) else fst st k)"
  by (auto simp: reload_key_def reloaded_def Let_def split: option.split)

lemma reloaded_twice: "reloaded b ov k (reloaded b ov k c) = reloaded b ov k c"
  by (auto simp: reloaded_def truthy_def split: option.split)

lemma reload_keys_at: "fst (foldl (reload_key b ov) st keys) k
    = (if k \<in> set keys \<and> k \<noteq> [] \<and> k \<notin> kReloadSkippedKeys then reloaded b ov k (fst st k) else fst st k)"
proof (induction keys arbitrary: st)
  case (Cons key keys)
  show ?case
    using Cons.IH [of "reload_key b ov st key"] by (auto simp: reload_key_at reloaded_twice)
qed simp

lemma truthy_reloaded: "truthy (reloaded b (resolveEnvFileOverlay b es) k c) = reload_target b (resolveEnvFileOverlay b es) k"
proof -
  have "truthy (reload_target b (resolveEnvFileOverlay b es) k) = reload_target b (resolveEnvFileOverlay b es) k"
    using overlay_nonempty [of b es k] by (auto simp: reload_target_def truthy_def split: option.split)
  then show ?thesis by (auto simp: reloaded_def truthy_def split: option.split)
qed

definition managed_key :: "(string \<times> string) list \<Rightarrow> string \<Rightarrow> bool" where
  "managed_key entries k \<longleftrightarrow> (k \<in> fst ` set entries \<or> k \<in> set kKnownVars) \<and> k \<noteq> [] \<and> k \<notin> kReloadSkippedKeys"

lemma reload_env_at:
  "esEnv (fst (reloadEnv s)) k
    = (if managed_key (readRawEnvEntries (esFile s)) k
       then reloaded (esBaseline s) (resolveEnvFileOverlay (esBaseline s) (readRawEnvEntries (esFile s))) k (esEnv s k)
       else esEnv s k)"
  by (auto simp: reloadEnv_def reload_result_def reload_keys_at reload_keys_def managed_key_def Let_def)

lemma reload_frame [simp]:
  "esFile (fst (reloadEnv s)) = esFile s" "esBaseline (fst (reloadEnv s)) = esBaseline s"
  "esPendingSelf (fst (reloadEnv s)) = esPendingSelf s"
  "esLastLoaded (fst (reloadEnv s)) = Some (buildEnvSignature (readRawEnvEntries (esFile s)))"
  by (simp_all add: reloadEnv_def Let_def)

section \<open>Signatures\<close>

lemma normalize_key_twice: "normalizeEnvKey (normalizeEnvKey k) = normalizeEnvKey k"
proof (cases "normalizeEnvKey k = []")
  case False
  then show ?thesis using normal_key key_normal by blast
next
  case True
  then show ?thesis by (simp add: normalizeEnvKey_def stripLineBreaks_def trim_id trimmed_def)
qed

lemma strip_twice: "stripLineBreaks (stripLineBreaks v) = stripLineBreaks v"
  by (simp add: strip_clean clean_strip)

lemma signature_raw: "readEnvFileSignature (Some c) = Some (buildEnvSignature (readRawEnvEntries (Some c)))"
proof -
  have "(\<lambda>e. (normalizeEnvKey (fst e), stripLineBreaks (snd e))) \<circ> (\<lambda>e. (normalizeEnvKey (fst e), stripLineBreaks (snd e)))
      = (\<lambda>e. (normalizeEnvKey (fst e), stripLineBreaks (snd e)))"
    by (simp add: fun_eq_iff normalize_key_twice strip_twice)
  then show ?thesis by (simp add: readEnvFileSignature_def readRawEnvEntries_def buildEnvSignature_def)
qed

lemma raw_normalized:
  "map (\<lambda>e. (normalizeEnvKey (fst e), stripLineBreaks (snd e))) (readRawEnvEntries f) = readRawEnvEntries f"
  by (cases f) (simp_all add: readRawEnvEntries_def normalize_key_twice strip_twice)

lemma signature_filter: "buildEnvSignature (readRawEnvEntries f)
    = filter (\<lambda>e. fst e \<noteq> [] \<and> fst e \<notin> set kDeploymentOnlyEnvKeys) (readRawEnvEntries f)"
  by (simp add: buildEnvSignature_def raw_normalized)

text \<open>A signature determines what a reload does.\<close>

lemma signature_overlay: "resolveEnvFileOverlay b (buildEnvSignature (readRawEnvEntries f)) = resolveEnvFileOverlay b (readRawEnvEntries f)"
  unfolding signature_filter by (rule overlay_filter) auto

lemma signature_keys: "managed_key (buildEnvSignature (readRawEnvEntries f)) k = managed_key (readRawEnvEntries f) k"
  by (auto simp: managed_key_def signature_filter kReloadSkippedKeys_def)

lemma map_same: "(\<And>e. e \<in> set es \<Longrightarrow> f e = e) \<Longrightarrow> map f es = es"
  by (simp add: map_idI)

text \<open>A save leaves the signature that its own reload records.\<close>

lemma save_signature:
  assumes "\<forall>e \<in> set (normalizeEnvVars vars). env_name (fst e)"
  shows "buildEnvSignature (readRawEnvEntries (Some (writeEnvFile vars))) = buildEnvSignature (normalizeEnvVars vars)"
proof -
  have "(normalizeEnvKey (fst e), stripLineBreaks (snd e)) = e" if "e \<in> set (normalizeEnvVars vars)" for e
    using normalize_normal [of vars] that
    by (cases e) (auto simp: normal_vars_def normal_entry_def key_normal strip_clean)
  then have "map (\<lambda>e. (normalizeEnvKey (fst e), stripLineBreaks (snd e))) (normalizeEnvVars vars) = normalizeEnvVars vars"
    by (rule map_same)
  then show ?thesis by (simp add: readRawEnvEntries_def parse_file [OF assms])
qed

section \<open>A reload is a boot\<close>

definition clean_file :: "string option \<Rightarrow> bool" where
  "clean_file f = (case f of None \<Rightarrow> True | Some c \<Rightarrow> list_all (\<lambda>e. clean (snd e)) (parseEnvFileContent c))"

lemma boot_overlay:
  assumes "clean_file (Some c)"
  shows "resolveEnvFileOverlay b (boot_entries c) = resolveEnvFileOverlay b (readRawEnvEntries (Some c))"
proof -
  have "map (\<lambda>e. (normalizeEnvKey (fst e), snd e)) (parseEnvFileContent c)
      = map (\<lambda>e. (normalizeEnvKey (fst e), stripLineBreaks (snd e))) (parseEnvFileContent c)"
    using assms by (auto simp: clean_file_def list_all_iff strip_clean)
  then show ?thesis
    unfolding boot_entries_def readRawEnvEntries_def option.case
    by (simp only:) (rule overlay_filter, simp)
qed

lemma truthy_boot:
  assumes "clean_file f"
  shows "truthy (boot_env base f k) = reload_target (Some base) (resolveEnvFileOverlay (Some base) (readRawEnvEntries f)) k"
proof (cases f)
  case (Some c)
  then show ?thesis
    using assms boot_overlay overlay_nonempty [of "Some base" "readRawEnvEntries (Some c)" k]
    by (auto simp: boot_env_def reload_target_def baseline_value_def map_add_def truthy_def split: option.split)
qed (simp add: boot_env_def reload_target_def baseline_value_def readRawEnvEntries_def resolveEnvFileOverlay_def)

definition current_for :: "env \<Rightarrow> env_signature \<Rightarrow> env \<Rightarrow> bool" where
  "current_for base g env \<longleftrightarrow> (\<forall>k. managed_key g k \<longrightarrow> truthy (env k) = reload_target (Some base) (resolveEnvFileOverlay (Some base) g) k)"

lemma reload_current:
  assumes "esBaseline s = Some base"
  shows "current_for base (buildEnvSignature (readRawEnvEntries (esFile s))) (esEnv (fst (reloadEnv s)))"
  using assms by (simp add: current_for_def signature_keys signature_overlay reload_env_at truthy_reloaded)

definition watch_inv :: "env \<Rightarrow> env_state \<Rightarrow> bool" where
  "watch_inv base s \<longleftrightarrow> esBaseline s = Some base
     \<and> (esPendingSelf s = None \<or> esPendingSelf s = esLastLoaded s)
     \<and> (\<forall>g. esLastLoaded s = Some g \<longrightarrow> current_for base g (esEnv s))"

definition orderly_event :: "env_event \<Rightarrow> bool" where
  "orderly_event e = (case e of Save vars \<Rightarrow> list_all (\<lambda>x. env_name (fst x)) (normalizeEnvVars vars) | Reload \<Rightarrow> False | _ \<Rightarrow> True)"

lemma watch_inv_reload:
  assumes "esBaseline s = Some base"
    and "esPendingSelf s = None \<or> esPendingSelf s = Some (buildEnvSignature (readRawEnvEntries (esFile s)))"
  shows "watch_inv base (fst (reloadEnv s))"
  using assms reload_current [OF assms(1)] by (auto simp: watch_inv_def)

lemma watch_fires_inv:
  assumes "watch_inv base s"
  shows "watch_inv base (env_watch_fires s)"
    and "esFile s \<noteq> None \<Longrightarrow> esLastLoaded (env_watch_fires s) = Some (buildEnvSignature (readRawEnvEntries (esFile s)))"
proof -
  have "watch_inv base (fst (reloadEnv (s\<lparr>esPendingSelf := None\<rparr>)))"
    using assms by (intro watch_inv_reload) (simp_all add: watch_inv_def)
  then show "watch_inv base (env_watch_fires s)"
    using assms by (auto simp: env_watch_fires_def watch_inv_def Let_def)
  assume "esFile s \<noteq> None"
  then obtain c where "esFile s = Some c" by blast
  then show "esLastLoaded (env_watch_fires s) = Some (buildEnvSignature (readRawEnvEntries (esFile s)))"
    using signature_raw [of c] by (auto simp: env_watch_fires_def Let_def)
qed

lemma env_step_inv:
  assumes "watch_inv base s" and "orderly_event e"
  shows "watch_inv base (env_step s e)"
proof (cases e)
  case (Save vars)
  then have "\<forall>x \<in> set (normalizeEnvVars vars). env_name (fst x)"
    using assms(2) by (simp add: orderly_event_def list_all_iff)
  then have "watch_inv base (fst (reloadEnv (write_env_file vars s)))"
    using assms(1) save_signature by (intro watch_inv_reload) (simp_all add: watch_inv_def write_env_file_def)
  then show ?thesis by (simp add: env_step_def Save)
qed (use assms watch_fires_inv(1) in \<open>simp_all add: env_step_def orderly_event_def, simp_all add: watch_inv_def\<close>)

interpretation env_watch: machine env_step "watch_inv base" orderly_event for base
  by unfold_locales (rule env_step_inv)

lemma watch_inv_boot: "watch_inv base (env_boot base f)"
  by (simp add: watch_inv_def env_boot_def recordDeploymentEnvBaseline_def)

section \<open>Properties\<close>

text \<open>C13. When no value in the file holds a carriage return or a NUL inside it (those at the end of a line
  are trimmed), a reload produces what a fresh boot would, whatever the environment was before: for
  every key the file names and every key the editor knows, apart from the ones neither touches, the
  live value after a reload is the value a process booted in the same deployment environment with the
  same file has (an empty value counts as unset). With such a character the two differ
  (\<open>carriage_return_diverges\<close>): the reload strips it, the boot does not.\<close>

theorem reload_equals_boot:
  assumes "esBaseline s = Some base" and "clean_file (esFile s)"
    and "managed_key (readRawEnvEntries (esFile s)) k"
  shows "truthy (esEnv (fst (reloadEnv s)) k) = truthy (boot_env base (esFile s) k)"
  using assms by (simp add: reload_env_at truthy_reloaded truthy_boot)

text \<open>The condition is needed: the boot keeps a carriage return inside a value, the reload strips it.\<close>

lemma carriage_return_line: "parseEnvFileContent (''A=x'' @ [CHR 0x0D] @ ''y'') = [(''A'', ''x'' @ [CHR 0x0D] @ ''y'')]"
  by (simp add: parseEnvFileContent_def parseEnvLine_def env_trim_def trimStart_def trimEnd_def env_space_def js_space_def
      starts_with_def indexOf_def drop_export_def decodeEnvValue_def)

lemma carriage_return_diverges:
  assumes "esFile s = Some (''A=x'' @ [CHR 0x0D] @ ''y'')" and "esBaseline s = Some base"
  shows "esEnv (fst (reloadEnv s)) ''A'' = Some ''xy''"
    and "boot_env base (esFile s) ''A'' = Some (''x'' @ [CHR 0x0D] @ ''y'')"
proof -
  have k: "normalizeEnvKey ''A'' = ''A''"
    by (rule key_normal) (simp_all add: trimmed_def clean_def env_space_def js_space_def)
  have raw: "readRawEnvEntries (esFile s) = [(''A'', ''xy'')]"
    unfolding readRawEnvEntries_def assms(1) option.case carriage_return_line
    by (simp add: k stripLineBreaks_def)
  have own: "''A'' \<notin> kReloadSkippedKeys" "''A'' \<notin> set kDeploymentOnlyEnvKeys" "''A'' \<notin> set kDeploymentWinsEnvKeys"
    by (simp_all add: kReloadSkippedKeys_def kDeploymentOnlyEnvKeys_def kBootManagedEnvKeys_def kDeploymentWinsEnvKeys_def)
  have over: "resolveEnvFileOverlay (Some base) [(''A'', v)] ''A'' = Some v" if "v \<noteq> []" for v
    using own that by (simp add: resolveEnvFileOverlay_def overlay_entry_def)
  show "esEnv (fst (reloadEnv s)) ''A'' = Some ''xy''"
    using own by (simp add: reload_env_at raw managed_key_def assms(2) over reloaded_def reload_target_def)
  have "boot_entries (''A=x'' @ [CHR 0x0D] @ ''y'') = [(''A'', ''x'' @ [CHR 0x0D] @ ''y'')]"
    unfolding boot_entries_def carriage_return_line using own by (simp add: k)
  then show "boot_env base (esFile s) ''A'' = Some (''x'' @ [CHR 0x0D] @ ''y'')"
    unfolding boot_env_def assms(1) option.case by (simp add: over)
qed

text \<open>The file that holds one variable of the user's own.\<close>

definition custom_vars :: "(string \<times> string) list" where
  "custom_vars = [(''CUSTOM'', ''x'')]"

lemma custom_normal: "normalizeEnvVars custom_vars = custom_vars"
  by (rule normalize_id)
    (simp add: custom_vars_def normal_vars_def normal_entry_def trimmed_def clean_def trimEnd_id env_space_def js_space_def)

lemma custom_parsed: "parseEnvFileContent (writeEnvFile custom_vars) = custom_vars"
  using parse_file [of custom_vars] by (simp add: custom_normal) (simp add: custom_vars_def env_name_def ascii_alnum_def)

lemma custom_raw: "readRawEnvEntries (Some (writeEnvFile custom_vars)) = custom_vars"
  by (simp add: readRawEnvEntries_def custom_parsed)
    (simp add: custom_vars_def key_normal strip_clean trimmed_def clean_def env_space_def js_space_def)

lemma empty_parsed: "parseEnvFileContent (writeEnvFile []) = []"
  using parse_file [of "[]"] by (simp add: normalizeEnvVars_def)

lemma custom_own: "''CUSTOM'' \<notin> set kKnownVars" "''CUSTOM'' \<notin> kReloadSkippedKeys"
  "''CUSTOM'' \<notin> set kDeploymentOnlyEnvKeys" "''CUSTOM'' \<notin> set kDeploymentWinsEnvKeys"
  by (simp_all add: kKnownVars_def kReloadSkippedKeys_def kDeploymentOnlyEnvKeys_def kBootManagedEnvKeys_def
      kDeploymentWinsEnvKeys_def)

lemma custom_overlay: "resolveEnvFileOverlay b custom_vars = [''CUSTOM'' \<mapsto> ''x'']"
  using custom_own by (simp add: custom_vars_def resolveEnvFileOverlay_def overlay_entry_def)

definition custom_saved :: env_state where
  "custom_saved = run env_step (env_boot Map.empty None) [Save custom_vars]"

lemma custom_saved_facts:
  "esFile custom_saved = Some (writeEnvFile custom_vars)" "esBaseline custom_saved = Some Map.empty"
  "esEnv custom_saved k = (if k = ''CUSTOM'' then Some ''x'' else None)"
proof -
  let ?w = "write_env_file custom_vars (env_boot Map.empty None)"
  have f: "esFile ?w = Some (writeEnvFile custom_vars)" "esBaseline ?w = Some Map.empty" "esEnv ?w = Map.empty"
    by (simp_all add: write_env_file_def env_boot_def recordDeploymentEnvBaseline_def boot_env_def)
  have s: "custom_saved = fst (reloadEnv ?w)" by (simp add: custom_saved_def env_step_def)
  show "esFile custom_saved = Some (writeEnvFile custom_vars)" "esBaseline custom_saved = Some Map.empty"
    by (simp_all add: s f)
  show "esEnv custom_saved k = (if k = ''CUSTOM'' then Some ''x'' else None)"
    using custom_own by (simp add: s reload_env_at f custom_raw managed_key_def reloaded_def reload_target_def
        baseline_value_def custom_overlay truthy_def) (simp add: custom_vars_def)
qed

text \<open>A reload reports a change only if it changed some key.\<close>

lemma reload_reports:
  assumes "distinct keys"
  shows "snd (foldl (reload_key b ov) (env, cs) keys) = cs \<or> (\<exists>k. fst (foldl (reload_key b ov) (env, cs) keys) k \<noteq> env k)"
  using assms
proof (induction keys arbitrary: env cs)
  case (Cons key keys)
  obtain env1 cs1 where st: "reload_key b ov (env, cs) key = (env1, cs1)" by (metis surj_pair)
  show ?case
  proof (cases "env1 key = env key")
    case True
    then have "(env1, cs1) = (env, cs)"
      using st by (auto simp: reload_key_def Let_def truthy_def split: if_splits option.splits)
    then show ?thesis using Cons by (simp add: st)
  next
    case False
    moreover have "fst (foldl (reload_key b ov) (env1, cs1) keys) key = env1 key"
      using Cons.prems by (simp add: reload_keys_at)
    ultimately show ?thesis by (metis foldl_Cons st)
  qed
qed simp

lemma reload_changes: "snd (reloadEnv s) \<Longrightarrow> \<exists>k. esEnv (fst (reloadEnv s)) k \<noteq> esEnv s k"
  using reload_reports [of "reload_keys (readRawEnvEntries (esFile s))" "esBaseline s" _ "esEnv s" "[]"]
  by (auto simp: reloadEnv_def reload_result_def reload_keys_def Let_def)

text \<open>A key that neither the file nor the editor names.\<close>

definition names_key :: "string \<Rightarrow> string option \<Rightarrow> bool" where
  "names_key k f \<longleftrightarrow> k \<in> fst ` set (readRawEnvEntries f)"

lemma overlay_unnamed: "k \<notin> fst ` set es \<Longrightarrow> resolveEnvFileOverlay b es k = None"
proof -
  have "foldl (overlay_entry b) m es k = m k" if "k \<notin> fst ` set es" for m
    using that
  proof (induction es arbitrary: m)
    case (Cons e es)
    then have "overlay_entry b m e k = m k" by (auto simp: overlay_entry_def Let_def)
    then show ?case using Cons by simp
  qed simp
  then show "k \<notin> fst ` set es \<Longrightarrow> resolveEnvFileOverlay b es k = None" by (simp add: resolveEnvFileOverlay_def)
qed

lemma reload_unnamed: "\<not> names_key k (esFile s) \<Longrightarrow> k \<notin> set kKnownVars \<Longrightarrow> esEnv (fst (reloadEnv s)) k = esEnv s k"
  by (simp add: reload_env_at managed_key_def names_key_def)

lemma boot_unnamed: "\<not> names_key k f \<Longrightarrow> boot_env base f k = base k"
proof (cases f)
  case (Some c)
  assume "\<not> names_key k f"
  then have "k \<notin> fst ` set (boot_entries c)" by (auto simp: Some names_key_def readRawEnvEntries_def boot_entries_def image_iff)
  then show ?thesis by (simp add: Some boot_env_def overlay_unnamed map_add_def)
qed (simp add: boot_env_def)

definition unnamed_event :: "string \<Rightarrow> env_event \<Rightarrow> bool" where
  "unnamed_event k e = (case e of Save vars \<Rightarrow> \<not> names_key k (Some (writeEnvFile vars)) | Edit f \<Rightarrow> \<not> names_key k f | _ \<Rightarrow> True)"

lemma watch_unnamed:
  "\<not> names_key k (esFile s) \<Longrightarrow> k \<notin> set kKnownVars \<Longrightarrow>
     esEnv (env_watch_fires s) k = esEnv s k \<and> esFile (env_watch_fires s) = esFile s \<and> esBaseline (env_watch_fires s) = esBaseline s"
  by (simp add: env_watch_fires_def Let_def reload_unnamed)

lemma step_unnamed:
  assumes "\<not> names_key k (esFile s)" "k \<notin> set kKnownVars" "unnamed_event k e"
  shows "esEnv (env_step s e) k = esEnv s k \<and> \<not> names_key k (esFile (env_step s e)) \<and> esBaseline (env_step s e) = esBaseline s"
  using assms by (cases e) (simp_all add: env_step_def unnamed_event_def write_env_file_def reload_unnamed watch_unnamed)

lemma run_unnamed:
  assumes "\<not> names_key k (esFile s)" "k \<notin> set kKnownVars" "list_all (unnamed_event k) es"
  shows "esEnv (run env_step s es) k = esEnv s k \<and> \<not> names_key k (esFile (run env_step s es))
    \<and> esBaseline (run env_step s es) = esBaseline s"
  using assms
proof (induction es arbitrary: s)
  case (Cons e es)
  then show ?case using step_unnamed [OF Cons.prems(1,2), of e] by simp
qed simp

text \<open>C36. But a key of the user's own that is taken out of the file is not unset. From any state whose
  file does not name the key (nor the editor's list), whatever its live value, and over any saves,
  outside changes, reloads and watcher firings that do not name it again, the key keeps that live value
  until the process ends; a boot with the same file gives it its deployment value; and a reload that
  reports a change has changed some other key.\<close>

theorem deleted_custom_key_survives:
  assumes "k \<notin> fst ` set (readRawEnvEntries (esFile s))" and "k \<notin> set kKnownVars" and "list_all (unnamed_event k) es"
  shows "case run env_step s es of s1 \<Rightarrow>
    esEnv s1 k = esEnv s k \<and> boot_env base (esFile s1) k = base k
    \<and> (snd (reloadEnv s1) \<longrightarrow> (\<exists>k'. k' \<noteq> k \<and> esEnv (fst (reloadEnv s1)) k' \<noteq> esEnv s1 k'))"
proof -
  let ?s1 = "run env_step s es"
  have keep: "esEnv ?s1 k = esEnv s k" "\<not> names_key k (esFile ?s1)"
    using run_unnamed [of k s es] assms by (simp_all add: names_key_def)
  then show ?thesis using reload_unnamed [OF keep(2) assms(2)] reload_changes [of ?s1] boot_unnamed [OF keep(2)] by metis
qed

text \<open>The variable \<open>CUSTOM\<close> was loaded from the file and the file is then emptied: it stays, a boot would not have it.\<close>

theorem deleted_custom_key_survives_witness:
  "esEnv (run env_step (custom_saved\<lparr>esFile := Some []\<rparr>) [Watch, Save [], Watch]) ''CUSTOM'' = Some ''x''
   \<and> boot_env Map.empty (esFile (run env_step (custom_saved\<lparr>esFile := Some []\<rparr>) [Watch, Save [], Watch])) ''CUSTOM'' = None"
proof -
  have none: "readRawEnvEntries (Some []) = []" "\<not> names_key ''CUSTOM'' (Some (writeEnvFile []))"
    by (simp_all add: names_key_def readRawEnvEntries_def empty_parsed) (simp add: parseEnvFileContent_def parseEnvLine_def env_trim_def
        trimStart_def trimEnd_def)
  have "list_all (unnamed_event ''CUSTOM'') [Watch, Save [], Watch]" using none(2) by (simp add: unnamed_event_def)
  then show ?thesis
    using deleted_custom_key_survives [of "''CUSTOM''" "custom_saved\<lparr>esFile := Some []\<rparr>" "[Watch, Save [], Watch]" Map.empty]
      none(1) custom_own(1) by (simp add: custom_saved_facts)
qed

text \<open>The file contributes nothing to a key that belongs to the deployment.\<close>

definition deployment_owns :: "env \<Rightarrow> string \<Rightarrow> bool" where
  "deployment_owns base k \<longleftrightarrow> k \<in> set kDeploymentOnlyEnvKeys
     \<or> (k \<in> set kDeploymentWinsEnvKeys \<and> env_trim (case base k of Some v \<Rightarrow> v | None \<Rightarrow> []) \<noteq> [])"

lemma overlay_owned: "deployment_owns base k \<Longrightarrow> resolveEnvFileOverlay (Some base) es k = None"
proof -
  assume o: "deployment_owns base k"
  have "foldl (overlay_entry (Some base)) m es k = None" if "m k = None" for m
    using that
  proof (induction es arbitrary: m)
    case (Cons e es)
    have "overlay_entry (Some base) m e k = None"
      using o Cons.prems by (auto simp: overlay_entry_def deployment_owns_def baseline_value_def Let_def)
    then show ?case using Cons.IH by simp
  qed simp
  then show ?thesis by (simp add: resolveEnvFileOverlay_def)
qed

lemma boot_owned: "deployment_owns base k \<Longrightarrow> boot_env base f k = base k"
  by (simp add: boot_env_def map_add_def overlay_owned split: option.split)

lemma owned_target: "deployment_owns base k \<Longrightarrow> reload_target (Some base) (resolveEnvFileOverlay (Some base) es) k = truthy (base k)"
  by (simp add: reload_target_def overlay_owned baseline_value_def)

lemma owned_reload:
  assumes "deployment_owns base k" and "esBaseline s = Some base" and "esEnv s k = base k"
  shows "esEnv (fst (reloadEnv s)) k = base k"
proof (cases "managed_key (readRawEnvEntries (esFile s)) k")
  case True
  then show ?thesis
    using assms owned_target [OF assms(1), of "readRawEnvEntries (esFile s)"]
    by (auto simp: reload_env_at reloaded_def truthy_def split: option.splits if_splits)
qed (simp add: reload_env_at assms(3))

text \<open>C37. What belongs to the deployment cannot be changed through the file: a deployment-only variable,
  and a secret (the setup password, the keyring password) that the deployment sets, has its deployment
  value after boot and after any saves, outside changes, reloads and watcher firings, whatever the
  files hold.\<close>

theorem deployment_values_win:
  assumes "k \<in> set kDeploymentOnlyEnvKeys
    \<or> (k \<in> set kDeploymentWinsEnvKeys \<and> env_trim (case base k of Some v \<Rightarrow> v | None \<Rightarrow> []) \<noteq> [])"
  shows "esEnv (run env_step (env_boot base f) es) k = base k"
proof -
  have o: "deployment_owns base k" using assms by (simp add: deployment_owns_def)
  have "esBaseline (env_step s e) = Some base \<and> esEnv (env_step s e) k = base k"
    if "esBaseline s = Some base" "esEnv s k = base k" for s e
    using that by (simp add: env_step_def env_watch_fires_def write_env_file_def Let_def owned_reload [OF o] split: env_event.split)
  then have "esBaseline (run env_step s es) = Some base \<and> esEnv (run env_step s es) k = base k"
    if "esBaseline s = Some base" "esEnv s k = base k" for s
    using that by (induction es arbitrary: s) simp_all
  then show ?thesis by (simp add: env_boot_def recordDeploymentEnvBaseline_def boot_owned [OF o])
qed

text \<open>C38. The watcher keeps the environment current: over any saves of variables whose keys are names
  (\<open>[A-Za-z0-9_]+\<close>), outside changes and earlier firings, without a reload on its own in between, after
  the watcher fires for a readable file in which no value holds a carriage return or a NUL, every
  managed key has the value a boot with that file would give it; the server's own saves, which it does
  not reload again, included.\<close>

theorem watcher_keeps_environment_current:
  assumes "list_all orderly_event es" and "esFile (run env_step (env_boot base f) es) = Some c"
    and "clean_file (Some c)" and "managed_key (readRawEnvEntries (Some c)) k"
  shows "truthy (esEnv (env_watch_fires (run env_step (env_boot base f) es)) k) = truthy (boot_env base (Some c) k)"
proof -
  let ?s = "run env_step (env_boot base f) es"
  have i: "watch_inv base ?s" using watch_inv_boot assms(1) by (rule env_watch.run_inv)
  have "esLastLoaded (env_watch_fires ?s) = Some (buildEnvSignature (readRawEnvEntries (Some c)))"
    using watch_fires_inv(2) [OF i] assms(2) by simp
  then have "current_for base (buildEnvSignature (readRawEnvEntries (Some c))) (esEnv (env_watch_fires ?s))"
    using watch_fires_inv(1) [OF i] by (simp add: watch_inv_def)
  then show ?thesis
    using assms(3,4) by (simp add: current_for_def signature_keys signature_overlay truthy_boot)
qed

definition demo_base :: env where
  "demo_base = [''OPENAI_API_KEY'' \<mapsto> ''k'', ''PATH'' \<mapsto> ''/bin'']"

theorem reload_equals_boot_witness:
  "truthy (esEnv (fst (reloadEnv ((env_boot demo_base None)\<lparr>esEnv := [''OPENAI_API_KEY'' \<mapsto> ''old'']\<rparr>))) ''OPENAI_API_KEY'')
    = Some ''k''"
  using reload_equals_boot [of "(env_boot demo_base None)\<lparr>esEnv := [''OPENAI_API_KEY'' \<mapsto> ''old'']\<rparr>" demo_base "''OPENAI_API_KEY''"]
  by (simp add: env_boot_def recordDeploymentEnvBaseline_def clean_file_def managed_key_def kKnownVars_def
      kReloadSkippedKeys_def kDeploymentOnlyEnvKeys_def kBootManagedEnvKeys_def boot_env_def demo_base_def truthy_def)

theorem deployment_values_win_witness:
  "esEnv (run env_step (env_boot [''SETUP_PASSWORD'' \<mapsto> ''pw''] None) [Edit (Some ''SETUP_PASSWORD=evil''), Watch, Reload])
      ''SETUP_PASSWORD'' = Some ''pw''"
  using deployment_values_win [of "''SETUP_PASSWORD''" "[''SETUP_PASSWORD'' \<mapsto> ''pw'']" None "[Edit (Some ''SETUP_PASSWORD=evil''), Watch, Reload]"]
  by (simp add: kDeploymentWinsEnvKeys_def env_trim_def trimStart_def trimEnd_def env_space_def js_space_def)

theorem watcher_keeps_environment_current_witness:
  "truthy (esEnv (env_watch_fires (run env_step (env_boot Map.empty None) [Save custom_vars])) ''CUSTOM'') = Some ''x''"
proof -
  have "list_all orderly_event [Save custom_vars]"
    by (simp add: orderly_event_def custom_normal) (simp add: custom_vars_def env_name_def ascii_alnum_def)
  moreover have "esFile (run env_step (env_boot Map.empty None) [Save custom_vars]) = Some (writeEnvFile custom_vars)"
    using custom_saved_facts(1) by (simp add: custom_saved_def)
  moreover have clean: "clean_file (Some (writeEnvFile custom_vars))"
    by (simp add: clean_file_def custom_parsed) (simp add: custom_vars_def clean_def)
  moreover have "managed_key (readRawEnvEntries (Some (writeEnvFile custom_vars))) ''CUSTOM''"
    using custom_own by (simp add: custom_raw managed_key_def) (simp add: custom_vars_def)
  ultimately have "truthy (esEnv (env_watch_fires (run env_step (env_boot Map.empty None) [Save custom_vars])) ''CUSTOM'')
      = truthy (boot_env Map.empty (Some (writeEnvFile custom_vars)) ''CUSTOM'')"
    by (rule watcher_keeps_environment_current)
  then show ?thesis
    by (simp add: truthy_boot [OF clean] custom_raw custom_overlay reload_target_def)
qed

end
