(* ===== verification/Env_Routes.thy ===== *)
theory Env_Routes
  imports Env_Reload
begin

text \<open>
  The environment editor: which keys a save may change (\<open>lib/server/utils/env-keys.js\<close>), the full save
  PUT \<open>/api/env\<close> and the one-key save PATCH \<open>/api/env\<close> (\<open>lib/server/routes/env.js\<close>), over the file and the
  live environment of \<open>Env_Reload\<close>. Bodies that are not of the right JSON type are refused before
  these definitions; channel configuration, auth profiles and the restart notice, which a save also
  touches, are not modelled.
\<close>

section \<open>Keys\<close>

definition kSystemVars :: "string list" where
  "kSystemVars =
    [''WEBHOOK_TOKEN'', ''OPENCLAW_GATEWAY_TOKEN'', ''SETUP_PASSWORD'', ''PORT'',
     ''ALPHACLAW_DEPLOYMENT_PROVIDER'', ''ALPHACLAW_MANAGED_UPDATE_URL'',
     ''ALPHACLAW_MANAGED_UPDATE_TOKEN'', ''ALPHACLAW_TEMPLATE_REPO_URL'', ''ALPHACLAW_TEMPLATE_BRANCH'',
     ''WATCHDOG_AUTO_REPAIR'', ''WATCHDOG_NOTIFICATIONS_DISABLED'', ''WATCHDOG_NOTIFICATIONS_QUIET'']"

definition kEnvVarsReservedForUserInput :: "string list" where
  "kEnvVarsReservedForUserInput =
    [''GITHUB_WORKSPACE_REPO'', ''GOG_KEYRING_PASSWORD'', ''ALPHACLAW_ROOT_DIR'', ''OPENCLAW_HOME'',
     ''OPENCLAW_CONFIG_PATH'', ''OPENCLAW_STATE_DIR'', ''XDG_CONFIG_HOME'']"

definition kReservedUserEnvVarKeys :: "string list" where
  "kReservedUserEnvVarKeys = kSystemVars @ kEnvVarsReservedForUserInput @ kDeploymentOnlyEnvKeys"

definition kManagedTokenNames :: "string list" where
  "kManagedTokenNames = [''TELEGRAM_BOT_TOKEN'', ''DISCORD_BOT_TOKEN'', ''SLACK_BOT_TOKEN'', ''SLACK_APP_TOKEN'',
     ''WHATSAPP_OWNER_NUMBER'']"

definition kManagedChannelTokenPattern :: "string \<Rightarrow> bool" where
  "kManagedChannelTokenPattern k = list_ex (\<lambda>name. starts_with name k \<and>
     (let rest = drop (length name) k in rest = [] \<or> (hd rest = CHR ''_'' \<and> tl rest \<noteq> []
        \<and> list_all (\<lambda>c. alnum_upper c \<or> c = CHR ''_'') (tl rest)))) kManagedTokenNames"

definition isManagedChannelTokenKey :: "string \<Rightarrow> bool" where
  "isManagedChannelTokenKey key = kManagedChannelTokenPattern (map to_upper (env_trim key))"

definition isReservedUserEnvVar :: "string \<Rightarrow> bool" where
  "isReservedUserEnvVar key \<longleftrightarrow> normalizeEnvKey key \<in> set kReservedUserEnvVarKeys"

text \<open>The known keys with \<open>visibleInEnvars: false\<close>.\<close>

definition kHiddenKnownVarKeys :: "string list" where
  "kHiddenKnownVarKeys = [''ANTHROPIC_TOKEN'']"

definition hiddenKnownVarKeys :: "string list" where
  "hiddenKnownVarKeys = filter (\<lambda>k. \<not> isReservedUserEnvVar k) kHiddenKnownVarKeys"

text \<open>The key of a body, a string: the pattern \<open>/^[A-Za-z0-9_]+$/\<close> is \<open>env_name\<close>.\<close>

definition isMalformedEnvKey :: "string \<Rightarrow> bool" where
  "isMalformedEnvKey key \<longleftrightarrow> env_trim key \<noteq> [] \<and> \<not> env_name (env_trim key)"

section \<open>The two saves\<close>

datatype env_answer =
    Missing_key
  | Malformed_key string
  | Reserved_key
  | Managed_key
  | Hidden_key
  | Nothing_changed (ncSkipped: "string list")
  | Unwritable unwritable
  | Written (wrVars: "(string \<times> string) list") (wrSkipped: "string list")

definition put_env :: "(string \<times> string) list \<Rightarrow> (string \<times> string) list \<Rightarrow> env_answer" where
  "put_env vars currentVars =
     (case find (\<lambda>v. isMalformedEnvKey (fst v)) vars of
        Some m \<Rightarrow> Malformed_key (fst m)
      | None \<Rightarrow>
        (let submittedKeys = filter (\<lambda>k. k \<noteq> []) (map (\<lambda>v. env_trim (fst v)) vars);
             skipped = rev (remdups (rev (filter isReservedUserEnvVar submittedKeys)))
         in if submittedKeys \<noteq> [] \<and> list_all isReservedUserEnvVar submittedKeys then Nothing_changed skipped
            else (let submittedVars = filter (\<lambda>v. \<not> isReservedUserEnvVar (fst v) \<and> \<not> isManagedChannelTokenKey (fst v)) vars in
              case findUnwritableEnvValue submittedVars currentVars of
                Some u \<Rightarrow> Unwritable u
              | None \<Rightarrow> Written (submittedVars
                  @ filter (\<lambda>v. fst v \<in> set hiddenKnownVarKeys) currentVars
                  @ filter (\<lambda>v. isManagedChannelTokenKey (fst v)) currentVars
                  @ filter (\<lambda>v. isReservedUserEnvVar (fst v)) currentVars) skipped)))"

text \<open>One key is set to a value (\<open>Some\<close>) or removed.\<close>

definition patch_env :: "string \<Rightarrow> string option \<Rightarrow> (string \<times> string) list \<Rightarrow> env_answer" where
  "patch_env rawKey val currentVars =
     (if env_trim rawKey = [] then Missing_key
      else if isMalformedEnvKey rawKey then Malformed_key rawKey
      else (let key = env_trim rawKey in
        if isReservedUserEnvVar key then Reserved_key
        else if isManagedChannelTokenKey key then Managed_key
        else if key \<in> set hiddenKnownVarKeys then Hidden_key
        else (let others = filter (\<lambda>e. fst e \<noteq> key) currentVars in
          case val of
            None \<Rightarrow> (if \<not> list_ex (\<lambda>e. fst e = key) currentVars then Nothing_changed [] else Written others [])
          | Some v \<Rightarrow> (case findUnwritableEnvValue [(key, v)] currentVars of
                Some u \<Rightarrow> Unwritable u
              | None \<Rightarrow> Written (others @ [(key, v)]) []))))"

text \<open>\<open>applyEnvWrite\<close>, what it does to the file and the environment.\<close>

definition applyEnvWrite :: "env_answer \<Rightarrow> env_state \<Rightarrow> env_state" where
  "applyEnvWrite a s = (case a of Written vars skipped \<Rightarrow> fst (reloadEnv (write_env_file vars s)) | _ \<Rightarrow> s)"

definition put_route :: "(string \<times> string) list \<Rightarrow> env_state \<Rightarrow> env_state" where
  "put_route vars s = applyEnvWrite (put_env vars (readEnvFile (esFile s))) s"

definition patch_route :: "string \<Rightarrow> string option \<Rightarrow> env_state \<Rightarrow> env_state" where
  "patch_route key val s = applyEnvWrite (patch_env key val (readEnvFile (esFile s))) s"

definition file_value :: "env_state \<Rightarrow> string \<Rightarrow> string option" where
  "file_value s k = map_of (readEnvFile (esFile s)) k"

section \<open>Lookups in normalised entries\<close>

lemma merge_entry_lookup:
  "map_of (merge_entry m e) k =
     (let key = normalizeEnvKey (fst e); v = trimEnd (stripLineBreaks (snd e)) in
      if key = [] \<or> key \<noteq> k then map_of m k
      else Some (if v \<noteq> [] then v else case map_of m k of Some x \<Rightarrow> x | None \<Rightarrow> []))"
proof -
  have "map_of (filter (\<lambda>x. fst x \<noteq> key) m) k = (if k = key then None else map_of m k)" for key
    by (induction m) auto
  then show ?thesis by (auto simp: merge_entry_def Let_def map_add_def split: option.split)
qed

text \<open>Where every entry of a key says the same, so does the result.\<close>

lemma foldl_lookup:
  assumes "\<forall>e \<in> set vars. normalizeEnvKey (fst e) = k \<longrightarrow> trimEnd (stripLineBreaks (snd e)) = v"
    and "k \<noteq> []" and "map_of m k = None \<or> map_of m k = Some v"
  shows "map_of (foldl merge_entry m vars) k
    = (if (\<exists>e \<in> set vars. normalizeEnvKey (fst e) = k) then Some v else map_of m k)"
  using assms(1,3)
proof (induction vars arbitrary: m)
  case (Cons e vars)
  have "map_of (merge_entry m e) k = (if normalizeEnvKey (fst e) = k then Some v else map_of m k)"
    using Cons.prems assms(2) by (auto simp: merge_entry_lookup Let_def)
  then show ?case using Cons.IH [of "merge_entry m e"] Cons.prems by auto
qed simp

lemma normalize_lookup:
  assumes "\<forall>e \<in> set vars. normalizeEnvKey (fst e) = k \<longrightarrow> trimEnd (stripLineBreaks (snd e)) = v" and "k \<noteq> []"
  shows "map_of (normalizeEnvVars vars) k = (if (\<exists>e \<in> set vars. normalizeEnvKey (fst e) = k) then Some v else None)"
  using foldl_lookup [OF assms, of "[]"] by (simp add: normalizeEnvVars_def)

lemma read_normal: "normal_vars (readEnvFile f)"
  by (simp add: readEnvFile_def normalize_normal split: option.split) (simp add: normal_vars_def)

lemma normal_entryD:
  assumes "normal_vars vars" and "e \<in> set vars"
  shows "normalizeEnvKey (fst e) = fst e" "trimEnd (stripLineBreaks (snd e)) = snd e" "fst e \<noteq> []" "env_trim (fst e) = fst e"
  using assms by (auto simp: normal_vars_def normal_entry_def key_normal strip_clean trim_id)

lemma normal_lookup: "normal_vars vars \<Longrightarrow> e \<in> set vars \<Longrightarrow> map_of vars (fst e) = Some (snd e)"
  by (simp add: normal_vars_def map_of_eq_Some_iff)

lemma normal_keys: "e \<in> set (normalizeEnvVars vars) \<Longrightarrow> \<exists>x \<in> set vars. fst e = normalizeEnvKey (fst x)"
proof -
  have "e \<in> set (foldl merge_entry m vars) \<Longrightarrow> fst e \<in> fst ` set m \<or> (\<exists>x \<in> set vars. fst e = normalizeEnvKey (fst x))" for m
  proof (induction vars arbitrary: m)
    case (Cons x vars)
    have "fst ` set (merge_entry m x) \<subseteq> insert (normalizeEnvKey (fst x)) (fst ` set m)"
      by (auto simp: merge_entry_def Let_def)
    then show ?case using Cons.IH [of "merge_entry m x"] Cons.prems by auto
  qed auto
  from this [of "[]"] show "e \<in> set (normalizeEnvVars vars) \<Longrightarrow> \<exists>x \<in> set vars. fst e = normalizeEnvKey (fst x)"
    by (simp add: normalizeEnvVars_def)
qed

section \<open>Admitted keys\<close>

lemma trim_padded:
  assumes "list_all env_space a" and "list_all env_space b" and "trimmed n"
  shows "env_trim (a @ n @ b) = n"
proof -
  have drop: "dropWhile env_space (x @ y) = dropWhile env_space y" if "list_all env_space x" for x y
    using that by (induction x) auto
  have none: "dropWhile env_space x = []" if "list_all env_space x" for x using drop [OF that, of "[]"] by simp
  show ?thesis
  proof (cases "n = []")
    case True
    then show ?thesis using assms(1,2) by (simp add: env_trim_def trimStart_def trimEnd_def drop none)
  next
    case False
    then have "trimStart (a @ n @ b) = n @ b"
      using assms(1,3) by (cases n) (simp_all add: trimStart_def drop trimmed_def)
    moreover have "trimEnd (n @ b) = n"
    proof -
      have "dropWhile env_space (rev b @ rev n) = dropWhile env_space (rev n)" by (rule drop) (use assms(2) in simp)
      moreover have "dropWhile env_space (rev n) = rev n"
        using False assms(3) by (cases n rule: rev_cases) (simp_all add: trimmed_def)
      ultimately show ?thesis by (simp add: trimEnd_def)
    qed
    ultimately show ?thesis by (simp add: env_trim_def)
  qed
qed

lemma trim_decompose: "\<exists>a b. s = a @ env_trim s @ b \<and> list_all env_space a \<and> list_all env_space b"
proof -
  let ?t = "trimStart s" and ?a = "takeWhile env_space s" and ?b = "rev (takeWhile env_space (rev (trimStart s)))"
  have "rev ?t = takeWhile env_space (rev ?t) @ dropWhile env_space (rev ?t)" by simp
  then have "?t = env_trim s @ ?b" unfolding env_trim_def trimEnd_def by (metis rev_append rev_rev_ident)
  moreover have "s = ?a @ ?t" by (simp add: trimStart_def)
  moreover have "list_all env_space (takeWhile env_space x)" for x by (induction x) auto
  ultimately show ?thesis by (metis list_all_rev)
qed

text \<open>The key a save classifies is the key the file will hold.\<close>

lemma admitted_key:
  assumes "\<not> isMalformedEnvKey key"
  shows "normalizeEnvKey key = env_trim key" and "env_trim key \<noteq> [] \<Longrightarrow> env_name (env_trim key)"
proof -
  obtain a b where key: "key = a @ env_trim key @ b" and ab: "list_all env_space a" "list_all env_space b"
    using trim_decompose by blast
  have n: "env_trim key = [] \<or> env_name (env_trim key)" using assms by (auto simp: isMalformedEnvKey_def)
  then have clean: "clean (env_trim key)" using env_name_trimmed by auto
  have "\<not> env_space (CHR 0x00)" by (simp add: env_space_def js_space_def)
  then have "CHR 0x00 \<notin> set a" "CHR 0x00 \<notin> set b" using ab by (auto simp: list_all_iff)
  then have "CHR 0x00 \<notin> set key" by (subst key) (use clean in \<open>auto simp: clean_def\<close>)
  moreover have "stripLineBreaks key = stripLineBreaks a @ env_trim key @ stripLineBreaks b"
    using strip_clean [OF clean] by (subst key) (simp add: stripLineBreaks_def)
  moreover have "list_all env_space (stripLineBreaks a)" "list_all env_space (stripLineBreaks b)"
    using ab by (auto simp: stripLineBreaks_def list_all_iff)
  ultimately show "normalizeEnvKey key = env_trim key"
    using trim_padded [OF _ _ trimmed_trim] by (simp add: normalizeEnvKey_def)
  show "env_trim key \<noteq> [] \<Longrightarrow> env_name (env_trim key)" using n by simp
qed

lemma find_None_admitted: "find (\<lambda>v. isMalformedEnvKey (fst v)) vars = None \<Longrightarrow> (a, b) \<in> set vars \<Longrightarrow> \<not> isMalformedEnvKey a"
  by (induction vars) (auto split: if_splits)

section \<open>What a save stores\<close>

definition named_file :: "env_state \<Rightarrow> bool" where
  "named_file s \<longleftrightarrow> list_all (\<lambda>e. env_name (fst e)) (readEnvFile (esFile s))"

lemma named_written:
  assumes "\<forall>x \<in> set vars. normalizeEnvKey (fst x) = [] \<or> env_name (normalizeEnvKey (fst x))"
  shows "file_value (fst (reloadEnv (write_env_file vars s))) k = map_of (normalizeEnvVars vars) k"
proof -
  have "env_name (fst e)" if "e \<in> set (normalizeEnvVars vars)" for e
    using normal_keys [OF that] assms normal_entryD(3) [OF normalize_normal that] by metis
  then show ?thesis by (simp add: file_value_def write_env_file_def read_file)
qed

lemma protected_kept:
  assumes "put_env vars (readEnvFile (esFile s)) = Written next_vars sk"
    and k: "isReservedUserEnvVar k \<or> isManagedChannelTokenKey k" "env_name k"
  shows "map_of (normalizeEnvVars next_vars) k = file_value s k"
proof -
  let ?cur = "readEnvFile (esFile s)"
  let ?sub = "filter (\<lambda>v. \<not> isReservedUserEnvVar (fst v) \<and> \<not> isManagedChannelTokenKey (fst v)) vars"
  have kn: "normalizeEnvKey k = k" "env_trim k = k" "k \<noteq> []"
    using env_name_trimmed [OF k(2)] k(2) by (simp_all add: key_normal trim_id) (simp add: env_name_def)
  have nx: "next_vars = ?sub @ filter (\<lambda>v. fst v \<in> set hiddenKnownVarKeys) ?cur
      @ filter (\<lambda>v. isManagedChannelTokenKey (fst v)) ?cur @ filter (\<lambda>v. isReservedUserEnvVar (fst v)) ?cur"
    and adm: "find (\<lambda>v. isMalformedEnvKey (fst v)) vars = None"
    using assms(1) by (auto simp: put_env_def Let_def split: option.splits if_splits)
  have sub: "normalizeEnvKey a \<noteq> k" if "(a, b) \<in> set ?sub" for a b
  proof
    assume eq: "normalizeEnvKey a = k"
    have "\<not> isMalformedEnvKey a" using that find_None_admitted [OF adm] by auto
    then have "env_trim a = k" using eq admitted_key(1) by simp
    then show False using k(1) that eq kn by (auto simp: isReservedUserEnvVar_def isManagedChannelTokenKey_def)
  qed
  have cur: "normalizeEnvKey a = a" "trimEnd (stripLineBreaks b) = b" "map_of ?cur a = Some b"
    if "(a, b) \<in> set ?cur" for a b
    using normal_entryD [OF read_normal that] normal_lookup [OF read_normal that] by simp_all
  define v where "v = (case map_of ?cur k of Some x \<Rightarrow> x | None \<Rightarrow> [])"
  have same: "trimEnd (stripLineBreaks b) = v \<and> map_of ?cur k \<noteq> None"
    if "(a, b) \<in> set next_vars" and "normalizeEnvKey a = k" for a b
  proof -
    have "(a, b) \<notin> set ?sub" using sub that(2) by blast
    then have ab: "(a, b) \<in> set ?cur" using that(1) by (auto simp: nx)
    then show ?thesis using cur [OF ab] that(2) by (simp add: v_def)
  qed
  then have lookup: "map_of (normalizeEnvVars next_vars) k
      = (if (\<exists>e \<in> set next_vars. normalizeEnvKey (fst e) = k) then Some v else None)"
    using kn(3) by (intro normalize_lookup) auto
  show ?thesis
  proof (cases "map_of ?cur k")
    case None
    then have "\<not> (\<exists>e \<in> set next_vars. normalizeEnvKey (fst e) = k)" using same by (metis prod.collapse)
    then show ?thesis using None lookup by (simp add: file_value_def)
  next
    case (Some x)
    then have "(k, x) \<in> set next_vars" using k(1) map_of_SomeD [OF Some] by (auto simp: nx)
    then have "\<exists>e \<in> set next_vars. normalizeEnvKey (fst e) = k" using kn(1) by (intro bexI [of _ "(k, x)"]) simp_all
    then show ?thesis using Some lookup by (simp add: file_value_def v_def)
  qed
qed

text \<open>The keys a full save keeps are names whatever the file holds: the hidden and the reserved ones are
  fixed, and the pattern of the managed tokens admits nothing else.\<close>

lemma upper_name_char: "alnum_upper (to_upper c) \<or> to_upper c = CHR ''_'' \<Longrightarrow> ascii_alnum c \<or> c = CHR ''_''"
  by (auto simp: alnum_upper_def to_upper_def ascii_alnum_def split: if_splits)

lemma managed_pattern_chars:
  assumes "kManagedChannelTokenPattern u"
  shows "u \<noteq> [] \<and> list_all (\<lambda>c. alnum_upper c \<or> c = CHR ''_'') u"
proof -
  obtain name where n: "name \<in> set kManagedTokenNames" "starts_with name u"
      and r: "drop (length name) u = [] \<or> hd (drop (length name) u) = CHR ''_'' \<and>
        list_all (\<lambda>c. alnum_upper c \<or> c = CHR ''_'') (tl (drop (length name) u))"
    using assms by (auto simp: kManagedChannelTokenPattern_def list_ex_iff Let_def)
  have "list_all (\<lambda>c. alnum_upper c \<or> c = CHR ''_'') name \<and> name \<noteq> []"
    using n(1) by (auto simp: kManagedTokenNames_def alnum_upper_def)
  moreover have "u = name @ drop (length name) u" using n(2) unfolding starts_with_def by (metis append_take_drop_id)
  moreover have "list_all (\<lambda>c. alnum_upper c \<or> c = CHR ''_'') (drop (length name) u)"
    using r by (cases "drop (length name) u") auto
  ultimately show ?thesis by (metis append_is_Nil_conv list_all_append)
qed

lemma managed_name: "isManagedChannelTokenKey k \<Longrightarrow> env_name (env_trim k)"
proof -
  assume "isManagedChannelTokenKey k"
  then have "map to_upper (env_trim k) \<noteq> [] \<and> list_all (\<lambda>c. alnum_upper c \<or> c = CHR ''_'') (map to_upper (env_trim k))"
    unfolding isManagedChannelTokenKey_def by (rule managed_pattern_chars)
  then show ?thesis using upper_name_char by (simp add: env_name_def list_all_iff)
qed

lemma reserved_names: "list_all env_name kReservedUserEnvVarKeys"
  by (simp add: kReservedUserEnvVarKeys_def kSystemVars_def kEnvVarsReservedForUserInput_def kDeploymentOnlyEnvKeys_def
      env_name_def ascii_alnum_def)

lemma hidden_names: "k \<in> set hiddenKnownVarKeys \<Longrightarrow> env_name k"
proof -
  assume "k \<in> set hiddenKnownVarKeys"
  then have "k = ''ANTHROPIC_TOKEN''" unfolding hiddenKnownVarKeys_def kHiddenKnownVarKeys_def by (simp split: if_splits)
  then show ?thesis by (simp add: env_name_def ascii_alnum_def)
qed

lemma protected_name:
  assumes "isReservedUserEnvVar k \<or> isManagedChannelTokenKey k" and "normalizeEnvKey k = k" and "env_trim k = k"
  shows "env_name k"
  using assms reserved_names managed_name [of k] by (auto simp: isReservedUserEnvVar_def list_all_iff)

lemma put_named:
  assumes "put_env vars (readEnvFile (esFile s)) = Written next_vars sk" and "(a, b) \<in> set next_vars"
  shows "normalizeEnvKey a = [] \<or> env_name (normalizeEnvKey a)"
proof -
  have adm: "find (\<lambda>v. isMalformedEnvKey (fst v)) vars = None"
    using assms(1) by (auto simp: put_env_def split: option.splits)
  have "(a, b) \<in> set vars \<or> (a, b) \<in> set (readEnvFile (esFile s))
      \<and> (a \<in> set hiddenKnownVarKeys \<or> isReservedUserEnvVar a \<or> isManagedChannelTokenKey a)"
    using assms by (auto simp: put_env_def Let_def split: option.splits if_splits)
  then show ?thesis
  proof
    assume "(a, b) \<in> set vars"
    then have "\<not> isMalformedEnvKey a" by (rule find_None_admitted [OF adm])
    then show ?thesis using admitted_key by auto
  next
    assume cur: "(a, b) \<in> set (readEnvFile (esFile s))
      \<and> (a \<in> set hiddenKnownVarKeys \<or> isReservedUserEnvVar a \<or> isManagedChannelTokenKey a)"
    then have "normalizeEnvKey a = a" "env_trim a = a" using normal_entryD [OF read_normal, of "(a, b)"] by auto
    then show ?thesis using cur hidden_names protected_name by metis
  qed
qed

text \<open>A key that is not as the file stores keys is stored nowhere.\<close>

lemma unstored: "normalizeEnvKey k \<noteq> k \<or> env_trim k \<noteq> k \<Longrightarrow> file_value s k = None"
proof (rule ccontr)
  assume odd: "normalizeEnvKey k \<noteq> k \<or> env_trim k \<noteq> k" and "file_value s k \<noteq> None"
  then obtain v where "(k, v) \<in> set (readEnvFile (esFile s))" by (auto simp: file_value_def dest: map_of_SomeD)
  then show False using odd normal_entryD(1,4) [OF read_normal] by fastforce
qed

lemma patch_written:
  assumes "patch_env key val currentVars = Written next_vars sk"
  shows "\<not> isMalformedEnvKey key" "env_trim key \<noteq> []" "\<not> isReservedUserEnvVar (env_trim key)"
    "next_vars = filter (\<lambda>e. fst e \<noteq> env_trim key) currentVars
       @ (case val of None \<Rightarrow> [] | Some v \<Rightarrow> [(env_trim key, v)])"
    "\<And>v. val = Some v \<Longrightarrow> findUnwritableEnvValue [(env_trim key, v)] currentVars = None"
  using assms by (auto simp: patch_env_def Let_def split: option.splits if_splits)

lemma patch_value:
  assumes "patch_env key (Some v) (readEnvFile f) = Written next_vars sk"
  shows "trimEnd (stripLineBreaks v) = trimEnd v"
proof -
  let ?k = "env_trim key" and ?cur = "readEnvFile f"
  note w = patch_written [OF assms]
  have k: "env_trim ?k = ?k" by (rule trim_id) (rule trimmed_trim)
  show ?thesis
  proof (cases "current_value ?cur ?k = Some v")
    case True
    then have "(?k, v) \<in> set ?cur" using map_of_SomeD by (fastforce simp: current_value_def)
    then show ?thesis
      using read_normal [of f] by (auto simp: normal_vars_def normal_entry_def strip_clean)
  next
    case False
    then have "unwritable_of ?k v = None" using w(5) [OF refl] w(2) k by (simp add: Let_def split: option.splits)
    then have "clean v"
      by (auto simp: unwritable_of_def kRefusedEnvValueCharsPattern_def list_ex_iff clean_def split: if_splits)
    then show ?thesis by (simp add: strip_clean)
  qed
qed

lemma patch_stored:
  assumes p: "patch_env key val (readEnvFile (esFile s)) = Written next_vars sk"
  shows "map_of (normalizeEnvVars next_vars) k
    = (if k = env_trim key then map_option trimEnd val else file_value s k)"
proof -
  let ?k = "env_trim key" and ?cur = "readEnvFile (esFile s)"
  note w = patch_written [OF p]
  have kn: "normalizeEnvKey ?k = ?k"
    using admitted_key(2) [OF w(1,2)] env_name_trimmed by (simp add: key_normal)
  have cur: "normalizeEnvKey a = a" "trimEnd (stripLineBreaks b) = b" "map_of ?cur a = Some b" "a \<noteq> []"
    if "(a, b) \<in> set ?cur" for a b
    using normal_entryD [OF read_normal that] normal_lookup [OF read_normal that] by simp_all
  show ?thesis
  proof (cases "k = ?k")
    case True
    have own: "trimEnd (stripLineBreaks b) = trimEnd (the val) \<and> val \<noteq> None"
      if mem: "(a, b) \<in> set next_vars" and eq: "normalizeEnvKey a = ?k" for a b
    proof -
      have "(a, b) \<notin> set (filter (\<lambda>e. fst e \<noteq> ?k) ?cur)" using cur(1) eq by auto
      then obtain v where v: "val = Some v" and "b = v" using mem w(4) by (cases val) auto
      then show ?thesis using patch_value [OF p [unfolded v]] by simp
    qed
    then have lookup: "map_of (normalizeEnvVars next_vars) ?k
        = (if (\<exists>e \<in> set next_vars. normalizeEnvKey (fst e) = ?k) then Some (trimEnd (the val)) else None)"
      using w(2) by (intro normalize_lookup) auto
    show ?thesis
    proof (cases val)
      case None
      then have "\<not> (\<exists>e \<in> set next_vars. normalizeEnvKey (fst e) = ?k)" using own by (metis prod.collapse)
      then show ?thesis using lookup None True by simp
    next
      case (Some v)
      then have "(?k, v) \<in> set next_vars" using w(4) by simp
      then have "\<exists>e \<in> set next_vars. normalizeEnvKey (fst e) = ?k" using kn by (intro bexI [of _ "(?k, v)"]) simp_all
      then show ?thesis using lookup Some True by simp
    qed
  next
    case False
    define v where "v = (case map_of ?cur k of Some x \<Rightarrow> x | None \<Rightarrow> [])"
    have from_cur: "(a, b) \<in> set ?cur \<and> a = k" if "(a, b) \<in> set next_vars" "normalizeEnvKey a = k" for a b
    proof -
      have "(a, b) \<in> set ?cur" using that w(4) kn False by (auto split: option.splits)
      then show ?thesis using cur(1) that(2) by simp
    qed
    show ?thesis
    proof (cases "k = []")
      case True
      have "map_of m [] = None" if "normal_vars m" for m using that by (auto simp: normal_vars_def normal_entry_def map_of_eq_None_iff)
      then show ?thesis using True w(2) normalize_normal read_normal by (auto simp: file_value_def)
    next
      case nonempty: False
      have "trimEnd (stripLineBreaks b) = v" if "(a, b) \<in> set next_vars" "normalizeEnvKey a = k" for a b
        using from_cur [OF that] cur by (auto simp: v_def)
      then have lookup: "map_of (normalizeEnvVars next_vars) k
          = (if (\<exists>e \<in> set next_vars. normalizeEnvKey (fst e) = k) then Some v else None)"
        using nonempty by (intro normalize_lookup) auto
      show ?thesis
      proof (cases "map_of ?cur k")
        case None
        then have "\<not> (\<exists>e \<in> set next_vars. normalizeEnvKey (fst e) = k)"
          using from_cur cur(3) by (metis option.distinct(1) prod.collapse)
        then show ?thesis using lookup None False by (simp add: file_value_def)
      next
        case (Some x)
        then have x: "(k, x) \<in> set ?cur" by (rule map_of_SomeD)
        then have "(k, x) \<in> set next_vars" using False w(4) by simp
        then have "\<exists>e \<in> set next_vars. normalizeEnvKey (fst e) = k" using cur(1) [OF x] by (intro bexI [of _ "(k, x)"]) simp_all
        then show ?thesis using lookup Some False by (simp add: file_value_def v_def)
      qed
    qed
  qed
qed

section \<open>Properties\<close>

text \<open>C39. A save of the whole editor, whatever it submits (reserved or managed keys, keys padded or in
  other letter case, or leaving keys out) and whatever the file holds, never adds, changes or removes a
  reserved variable or a managed channel token in the file. (Letter case is that of ASCII.)\<close>

theorem protected_keys_survive_put:
  assumes "isReservedUserEnvVar k \<or> isManagedChannelTokenKey k"
  shows "file_value (put_route vars s) k = file_value s k"
proof (cases "normalizeEnvKey k = k \<and> env_trim k = k")
  case True
  then have name: "env_name k" using protected_name [OF assms] by blast
  show ?thesis
  proof (cases "put_env vars (readEnvFile (esFile s))")
    case (Written next_vars sk)
    have "\<forall>x \<in> set next_vars. normalizeEnvKey (fst x) = [] \<or> env_name (normalizeEnvKey (fst x))"
      using put_named [OF Written] by (metis prod.collapse)
    then show ?thesis
      using protected_kept [OF Written assms name] by (simp add: put_route_def applyEnvWrite_def Written named_written)
  qed (simp_all add: put_route_def applyEnvWrite_def)
qed (use unstored in auto)

text \<open>C40. When every key the file already has is a name (\<open>[A-Za-z0-9_]+\<close>), a one-key save that is accepted
  stores exactly the submitted value of that key (up to trailing white space), or removes it, and leaves
  every other variable of the file as it is. With another key in the file it may not
  (\<open>patch_rewrites_odd_line\<close>).\<close>

theorem patch_changes_one_key:
  assumes "named_file s" and "patch_env key val (readEnvFile (esFile s)) = Written next_vars sk"
  shows "file_value (patch_route key val s) k = (if k = env_trim key then map_option trimEnd val else file_value s k)"
proof -
  have "normalizeEnvKey a = [] \<or> env_name (normalizeEnvKey a)" if mem: "(a, b) \<in> set next_vars" for a b
  proof -
    note w = patch_written [OF assms(2)]
    have "a = env_trim key \<or> (a, b) \<in> set (readEnvFile (esFile s))" using mem w(4) by (auto split: option.splits)
    then have "env_name a" using assms(1) admitted_key(2) [OF w(1,2)] by (auto simp: named_file_def list_all_iff)
    then show ?thesis using env_name_trimmed by (simp add: key_normal)
  qed
  then have "\<forall>x \<in> set next_vars. normalizeEnvKey (fst x) = [] \<or> env_name (normalizeEnvKey (fst x))"
    by (metis prod.collapse)
  then show ?thesis
    using patch_stored [OF assms(2)] by (simp add: patch_route_def applyEnvWrite_def assms(2) named_written)
qed

text \<open>The condition is needed: a line that says \<open>export\<close> twice is read as the key \<open>export PORT\<close>, written
  without its first word, and then read as \<open>PORT\<close>.\<close>

lemma patch_rewrites_odd_line:
  assumes "esFile s = Some ''export export PORT=9''"
  shows "file_value s ''PORT'' = None" and "file_value (patch_route ''CUSTOM'' (Some ''x'') s) ''PORT'' = Some ''9''"
proof -
  have read: "readEnvFile (esFile s) = [(''export PORT'', ''9'')]"
    by (simp add: assms readEnvFile_def) code_simp
  have "patch_env ''CUSTOM'' (Some ''x'') [(''export PORT'', ''9'')] = Written [(''export PORT'', ''9''), (''CUSTOM'', ''x'')] []"
    by code_simp
  moreover have "readEnvFile (Some (writeEnvFile [(''export PORT'', ''9''), (''CUSTOM'', ''x'')])) = [(''PORT'', ''9''), (''CUSTOM'', ''x'')]"
    by code_simp
  ultimately show "file_value s ''PORT'' = None" "file_value (patch_route ''CUSTOM'' (Some ''x'') s) ''PORT'' = Some ''9''"
    by (simp_all add: file_value_def read patch_route_def applyEnvWrite_def write_env_file_def)
qed

theorem protected_keys_survive_put_witness:
  "file_value (put_route [(''SETUP_PASSWORD '', ''mine''), (''A'', ''1'')] (env_boot Map.empty None)) ''SETUP_PASSWORD'' = None"
proof -
  have "isReservedUserEnvVar ''SETUP_PASSWORD''"
    by (simp add: isReservedUserEnvVar_def normalizeEnvKey_def stripLineBreaks_def env_trim_def trimStart_def
        trimEnd_def env_space_def js_space_def kReservedUserEnvVarKeys_def kSystemVars_def)
  then show ?thesis
    using protected_keys_survive_put [of "''SETUP_PASSWORD''"]
    by (simp add: file_value_def readEnvFile_def env_boot_def recordDeploymentEnvBaseline_def)
qed

theorem patch_changes_one_key_witness:
  "file_value (patch_route '' CUSTOM'' (Some ''a b '') custom_saved) ''CUSTOM'' = Some ''a b''"
proof -
  have read: "readEnvFile (esFile custom_saved) = custom_vars"
    by (simp add: custom_saved_facts readEnvFile_def custom_parsed custom_normal)
  have trim: "env_trim '' CUSTOM'' = ''CUSTOM''" "env_trim ''CUSTOM'' = ''CUSTOM''" "trimEnd ''a b '' = ''a b''"
    by (simp_all add: env_trim_def trimStart_def trimEnd_def env_space_def js_space_def)
  have "isMalformedEnvKey '' CUSTOM'' = False" "isReservedUserEnvVar ''CUSTOM'' = False" "isManagedChannelTokenKey ''CUSTOM'' = False"
    "''CUSTOM'' \<notin> set hiddenKnownVarKeys"
    by (simp_all add: isMalformedEnvKey_def trim env_name_def ascii_alnum_def isReservedUserEnvVar_def key_normal trimmed_def
        clean_def env_space_def js_space_def kReservedUserEnvVarKeys_def kSystemVars_def kEnvVarsReservedForUserInput_def
        kDeploymentOnlyEnvKeys_def isManagedChannelTokenKey_def kManagedChannelTokenPattern_def kManagedTokenNames_def
        starts_with_def to_upper_def hiddenKnownVarKeys_def kHiddenKnownVarKeys_def)
  moreover have "findUnwritableEnvValue [(''CUSTOM'', ''a b '')] custom_vars = None"
    by (simp add: trim current_value_def custom_vars_def unwritable_of_def kRefusedEnvValueCharsPattern_def formatEnvValue_def)
  ultimately have "patch_env '' CUSTOM'' (Some ''a b '') (readEnvFile (esFile custom_saved))
      = Written (filter (\<lambda>e. fst e \<noteq> ''CUSTOM'') custom_vars @ [(''CUSTOM'', ''a b '')]) []"
    by (simp add: patch_env_def trim read Let_def)
  moreover have "named_file custom_saved"
    by (simp add: named_file_def read) (simp add: custom_vars_def env_name_def ascii_alnum_def)
  ultimately show ?thesis
    using patch_changes_one_key [of custom_saved "'' CUSTOM''" "Some ''a b ''" _ _ "''CUSTOM''"] trim by simp
qed

end
