(* ===== verification/Spec2Isabelle.thy ===== *)
theory Spec2Isabelle
  imports Prelude Login_Throttle Lifecycle_Lock Crash_Recovery Disk_Full_Hold
    Watchdog_Replacement Watchdog_Admission Notify_Outbox Agent_Confirm
    Remote_Store Remote_OAuth Remote_Wake Remote_Tools Members_Store Session_Auth Chat_Runs
    Chat_Registry Chat_Send Engines_Range Incident_Ledger Sidecar_Supervisor
    Env_File Env_Reload Env_Routes
begin

text \<open>
  \<^bold>\<open>AlphaClaw: a verification development of its control plane.\<close>

  AlphaClaw is a Node.js server that runs an OpenClaw gateway as a child process, keeps it alive,
  and serves a web UI, an agent API and a relay for remote agents in front of it. This development
  models the parts that decide something: who may act, when the gateway may be restarted or
  repaired, which notice is sent, which credential still works. Each definition is translated from
  the JavaScript under \<open>src/lib/server/\<close>; the theorems hold for every sequence of its operations.

  \<^bold>\<open>Theories.\<close>

  \<^item> \<open>Prelude\<close>: integer clocks, JavaScript string helpers, SQL statements over a table modelled as the
    list of its rows, runs and reachable states, and the shared interfaces (locales \<open>machine\<close>,
    \<open>refinement\<close>, \<open>transition_system\<close>, \<open>single_use\<close>, \<open>backoff\<close>).
  \<^item> \<open>Login_Throttle\<close>: \<open>login-throttle.js\<close> over either of its stores (the Map in memory, the table of
    \<open>db/auth/index.js\<close>). The stores implement the locale \<open>throttle_store\<close>; the throttle is proved
    against the locale, hence both stores give the same decisions.
  \<^item> \<open>Lifecycle_Lock\<close>: \<open>gateway-lifecycle-lock.js\<close> as an event system: mutual exclusion, order,
    the cleanup barrier, progress.
  \<^item> \<open>Crash_Recovery\<close>: \<open>watchdog-crash-recovery.js\<close>: a crash stays an obligation until it is
    attempted or cancelled, and is attempted by one dispatcher at a time.
  \<^item> \<open>Disk_Full_Hold\<close>: \<open>watchdog-disk-full.js\<close>: the hold ends only when space is back.
  \<^item> \<open>Watchdog_Replacement\<close>: \<open>watchdog-pending-replacement.js\<close> and its callers in \<open>watchdog.js\<close>.
  \<^item> \<open>Watchdog_Admission\<close>: the repair admission and the auto-repair pause of \<open>watchdog.js\<close>, over the
    states of the three theories before it.
  \<^item> \<open>Notify_Outbox\<close>: \<open>notify-outbox.js\<close>, \<open>notification-expiry.js\<close>, \<open>notification-policy.js\<close>: a
    flush interleaved with enqueues and retirements loses nothing and sends nothing twice.
  \<^item> \<open>Agent_Confirm\<close>: \<open>agent-admin/confirm-service.js\<close>, its table, \<open>agent-admin/enforcement.js\<close>.
  \<^item> \<open>Remote_Store\<close>: the tables of \<open>relay/remote-store.js\<close>.
  \<^item> \<open>Remote_OAuth\<close>: \<open>relay/oauth-provider.js\<close> over them: rotating refresh tokens, the consent
    window, revocation, registration.
  \<^item> \<open>Remote_Wake\<close>: \<open>relay/wake.js\<close>: the address guard and the wake pump with its two awaits.
  \<^item> \<open>Remote_Tools\<close>: \<open>relay/remote-tools.js\<close>: binding, acting, capping, the engine's answers.
  \<^item> \<open>Members_Store\<close>: team members and invites (\<open>db/auth/members.js\<close>): the last-admin guard, single-use
    invites, accept as one transaction, passwords.
  \<^item> \<open>Session_Auth\<close>: \<open>routes/auth.js\<close>: session tokens, login, the bearer token, the gates of a request,
    logout. It composes \<open>Members_Store\<close> and \<open>Login_Throttle\<close>: a lockout stops every entrance over any
    store of the locale \<open>throttle_store\<close>.
  \<^item> \<open>Chat_Runs\<close>: the table of chat runs (\<open>db/chat-runs/\<close>): boot reconciliation, claims, retention.
  \<^item> \<open>Chat_Registry\<close>: \<open>chat/run-registry.js\<close>: records as a heap with three indexes, refined to one map of
    live runs by the locale \<open>refinement\<close>; the bounded buffer of early events.
  \<^item> \<open>Chat_Send\<close>: \<open>chat/send-service.js\<close> and the socket side of \<open>chat/index.js\<close> over both: each stretch
    between two awaits is a step, and each step is composed of small acts. A relation between state,
    outputs and state that the acts keep (locales \<open>chat_relation\<close>, \<open>claim_relation\<close>, \<open>reject_relation\<close>) is
    proved through the whole machine once and interpreted for each property.
  \<^item> \<open>Engines_Range\<close>: \<open>lib/engines-range.js\<close>, \<open>lib/node-runtime.js\<close>: the scanner and parser of version
    ranges, its termination, and the meaning of a spelled range.
  \<^item> \<open>Incident_Ledger\<close>: \<open>watchdog-incidents.js\<close> over \<open>db/watchdog/index.js\<close>, any database call of
    which may throw: the ledger stays well formed, every event is written once, the tracker and the
    table implement an automaton of one open incident and heal after a fault, severity only rises.
  \<^item> \<open>Sidecar_Supervisor\<close>: \<open>sidecars/supervisor.js\<close>: a run is a value of \<open>runSeq\<close> and has at most one
    token that can act for it; no child is lost unless a start falls into a stop (then one is: proved);
    stops, restart delays, crash-loop alerts.
  \<^item> \<open>Env_File\<close>: the \<open>.env\<close> file (\<open>utils/env-file-format.js\<close>, \<open>utils/env-values.js\<close>, \<open>env.js\<close>): quoting,
    parsing, sanitation, the round trip; the readers of the format are the locale \<open>quoting_reader\<close>.
  \<^item> \<open>Env_Reload\<close>: what the file contributes to the live environment at boot, on a reload and when the
    watcher fires (\<open>deployment-only-env.js\<close>, \<open>env.js\<close>, section 5 of \<open>bin/alphaclaw.js\<close>).
  \<^item> \<open>Env_Routes\<close>: the two saves of the editor (\<open>utils/env-keys.js\<close>, \<open>routes/env.js\<close>) over both.

  \<^bold>\<open>How state and operations correspond.\<close> A closure's variables are a record; an SQL table is the list
  of its rows in insertion order, its statements are \<open>sql_update\<close>, \<open>sql_delete\<close>, an append; a throw is
  \<open>None\<close> or a constructor of an error datatype. An operation that awaits is several steps, one for each
  stretch between two awaits, and the run theorems allow any other operation in between. Timers and
  microtasks are events that may happen whenever the source has them armed. Clocks, random values,
  digests, DNS and HTTP answers, and engine answers are inputs of the steps.

  \<^bold>\<open>Lemma groups.\<close> Per theory: well-formedness and its preservation by every operation; what each
  branch answers; the interpretation of the shared interfaces on the model; then the properties, each
  a few steps over those. \<open>table_simps\<close> carries the proofs about tables.

  \<^bold>\<open>Bounds.\<close> Milliseconds and counters of the source are safe integers and are \<open>int\<close> or \<open>nat\<close> here;
  the 32-bit arithmetic of the address guard is done on words. No definition uses fuel; recursion is
  structural, or terminates by a proved measure.

  \<^bold>\<open>Not modelled.\<close> The browser UI (\<open>lib/public\<close>), the Express routes other than those named above and the
  CLI are glue over these services. The process work of \<open>gateway.js\<close>, the launch and probe loops of \<open>watchdog.js\<close>, the overseer,
  the doctor and the gateway client of the chat act mostly on processes, files and sockets whose behaviour the
  repository does not define. The manifest lists each of these parts with its reason.
\<close>

end
